(* ===== verification/Prelude.thy ===== *)
theory Prelude
  imports Main "HOL-Library.Word" "HOL-Library.Multiset"
begin

unbundle bit_operations_syntax

section \<open>Shared vocabulary of the development\<close>

text \<open>
  This theory holds what every component uses:
  \<^item> the machine types of the Rust sources: \<open>u8\<close>, \<open>u32\<close>, \<open>u64\<close>, \<open>u128\<close> and \<open>U256\<close> as words,
    and the fixed byte arrays \<open>[u8; n]\<close> (\<open>H256\<close>, \<open>Address\<close>, compressed keys) as the word of
    their big-endian reading, so that \<open>as_bytes\<close> is \<open>to_be_bytes\<close>;
  \<^item> the outcome of a Rust call, a \<open>Result\<close> in which a panic is a value of its own;
  \<^item> the standard library's saturating and checked arithmetic (plain \<open>+\<close>, \<open>*\<close> and \<open>-\<close> on words
    wrap, which is what the release profile of the workspace does: it does not set
    \<open>overflow-checks\<close>);
  \<^item> big-endian byte encodings with their round trips and lengths;
  \<^item> bit sets kept in a word (\<open>signer_bitmap\<close>), with \<open>ilog2\<close> and \<open>count_ones\<close>;
  \<^item> generic lemmas on lists and finite sums of stakes.
  The collection \<open>result_simps\<close> gathers the facts that take a call's outcome apart.
\<close>

named_theorems result_simps
named_theorems bytes_simps
named_theorems arith_unat

subsection \<open>Machine types\<close>

type_synonym byte = "8 word"
type_synonym u8 = "8 word"
type_synonym u32 = "32 word"
type_synonym u64 = "64 word"
type_synonym u128 = "128 word"
type_synonym u256 = "256 word"
type_synonym h256 = "256 word"
type_synonym address = "160 word"

subsection \<open>Outcomes of calls\<close>

datatype ('e, 'a) result = Ok 'a | Err 'e | Panic

primrec is_ok :: "('e, 'a) result \<Rightarrow> bool" where
  "is_ok (Ok x) = True"
| "is_ok (Err e) = False"
| "is_ok Panic = False"

primrec and_then :: "('e, 'a) result \<Rightarrow> ('a \<Rightarrow> ('e, 'b) result) \<Rightarrow> ('e, 'b) result" where
  "and_then (Ok x) f = f x"
| "and_then (Err e) f = Err e"
| "and_then Panic f = Panic"

primrec map_err :: "('e \<Rightarrow> 'f) \<Rightarrow> ('e, 'a) result \<Rightarrow> ('f, 'a) result" where
  "map_err f (Ok x) = Ok x"
| "map_err f (Err e) = Err (f e)"
| "map_err f Panic = Panic"

primrec ok_or :: "'e \<Rightarrow> 'a option \<Rightarrow> ('e, 'a) result" where
  "ok_or e None = Err e"
| "ok_or e (Some x) = Ok x"

lemma and_then_Ok [result_simps]:
  "and_then r f = Ok y \<longleftrightarrow> (\<exists>x. r = Ok x \<and> f x = Ok y)"
  by (cases r) auto

lemma map_err_Ok [result_simps]: "map_err f r = Ok y \<longleftrightarrow> r = Ok y"
  by (cases r) auto

lemma ok_or_Ok [result_simps]: "ok_or e r = Ok y \<longleftrightarrow> r = Some y"
  by (cases r) auto

lemma map_err_Panic [result_simps]: "map_err f r = Panic \<longleftrightarrow> r = Panic"
  by (cases r) auto

lemma ok_or_Panic [simp]: "ok_or e r \<noteq> Panic"
  by (cases r) auto

lemma is_ok_iff: "is_ok r \<longleftrightarrow> (\<exists>x. r = Ok x)"
  by (cases r) auto

subsection \<open>Saturating and checked arithmetic\<close>

definition max_word_val :: "'a::len word" where
  "max_word_val = - 1"

definition saturating_add :: "'a::len word \<Rightarrow> 'a word \<Rightarrow> 'a word" where
  "saturating_add a b = (if unat a + unat b < 2 ^ LENGTH('a) then a + b else max_word_val)"

definition saturating_sub :: "'a::len word \<Rightarrow> 'a word \<Rightarrow> 'a word" where
  "saturating_sub a b = (if b \<le> a then a - b else 0)"

definition saturating_mul :: "'a::len word \<Rightarrow> 'a word \<Rightarrow> 'a word" where
  "saturating_mul a b = (if unat a * unat b < 2 ^ LENGTH('a) then a * b else max_word_val)"

definition checked_add :: "'a::len word \<Rightarrow> 'a word \<Rightarrow> 'a word option" where
  "checked_add a b = (if unat a + unat b < 2 ^ LENGTH('a) then Some (a + b) else None)"

definition checked_sub :: "'a::len word \<Rightarrow> 'a word \<Rightarrow> 'a word option" where
  "checked_sub a b = (if b \<le> a then Some (a - b) else None)"

definition checked_mul :: "'a::len word \<Rightarrow> 'a word \<Rightarrow> 'a word option" where
  "checked_mul a b = (if unat a * unat b < 2 ^ LENGTH('a) then Some (a * b) else None)"

lemma unat_less_pow: "unat (w :: 'a::len word) < 2 ^ LENGTH('a)"
  by (rule unsigned_less)

lemma unat_max_word_val [arith_unat]: "unat (max_word_val :: 'a::len word) = 2 ^ LENGTH('a) - 1"
  by (simp add: max_word_val_def unsigned_minus_1_eq_mask mask_eq_exp_minus_1)

lemma unat_saturating_add [arith_unat]:
  "unat (saturating_add a (b :: 'a::len word)) = min (unat a + unat b) (2 ^ LENGTH('a) - 1)"
  by (auto simp: saturating_add_def unat_word_ariths arith_unat min_def)

lemma unat_saturating_sub [arith_unat]:
  "unat (saturating_sub a (b :: 'a::len word)) = unat a - unat b"
  by (auto simp: saturating_sub_def unat_sub word_le_nat_alt)

lemma unat_saturating_mul:
  "unat (saturating_mul a (b :: 'a::len word)) = min (unat a * unat b) (2 ^ LENGTH('a) - 1)"
proof (cases "unat a * unat b < 2 ^ LENGTH('a)")
  case True
  then have "unat a * unat b \<le> 2 ^ LENGTH('a) - 1" by linarith
  with True show ?thesis by (simp add: saturating_mul_def unat_word_ariths)
next
  case False
  then have "2 ^ LENGTH('a) - 1 \<le> unat a * unat b" by linarith
  with False show ?thesis by (simp add: saturating_mul_def arith_unat)
qed

lemma checked_add_Some:
  "checked_add a (b :: 'a::len word) = Some c \<longleftrightarrow>
     unat a + unat b < 2 ^ LENGTH('a) \<and> c = a + b"
  by (auto simp: checked_add_def)

lemma checked_add_unat:
  "checked_add a (b :: 'a::len word) = Some c \<Longrightarrow> unat c = unat a + unat b"
  by (auto simp: checked_add_def unat_word_ariths split: if_splits)

lemma checked_add_None:
  "checked_add a (b :: 'a::len word) = None \<longleftrightarrow> 2 ^ LENGTH('a) \<le> unat a + unat b"
  by (auto simp: checked_add_def)

lemma unat_word_of_nat_small:
  "n < 2 ^ LENGTH('a) \<Longrightarrow> unat (word_of_nat n :: 'a::len word) = n"
  by (simp add: unat_of_nat)

lemma unat_add_small:
  "unat a + unat (b :: 'a::len word) < 2 ^ LENGTH('a) \<Longrightarrow> unat (a + b) = unat a + unat b"
  by (simp add: unat_word_ariths)

subsection \<open>Big-endian and little-endian byte encodings\<close>

primrec be_nat :: "nat \<Rightarrow> nat \<Rightarrow> byte list" where
  "be_nat 0 v = []"
| "be_nat (Suc n) v = be_nat n (v div 256) @ [word_of_nat (v mod 256)]"

definition be_val :: "byte list \<Rightarrow> nat" where
  "be_val bs = foldl (\<lambda>a b. a * 256 + unat b) 0 bs"

definition to_be_bytes :: "nat \<Rightarrow> 'a::len word \<Rightarrow> byte list" where
  "to_be_bytes n w = be_nat n (unat w)"

definition from_be_bytes :: "byte list \<Rightarrow> 'a::len word" where
  "from_be_bytes bs = word_of_nat (be_val bs)"

definition to_le_bytes :: "nat \<Rightarrow> 'a::len word \<Rightarrow> byte list" where
  "to_le_bytes n w = rev (to_be_bytes n w)"

definition from_le_bytes :: "byte list \<Rightarrow> 'a::len word" where
  "from_le_bytes bs = from_be_bytes (rev bs)"

abbreviation h256_bytes :: "h256 \<Rightarrow> byte list" where
  "h256_bytes \<equiv> to_be_bytes 32"

abbreviation address_bytes :: "address \<Rightarrow> byte list" where
  "address_bytes \<equiv> to_be_bytes 20"

lemma length_be_nat [simp, bytes_simps]: "length (be_nat n v) = n"
  by (induction n arbitrary: v) auto

lemma length_to_be_bytes [simp, bytes_simps]: "length (to_be_bytes n w) = n"
  by (simp add: to_be_bytes_def)

lemma length_to_le_bytes [simp, bytes_simps]: "length (to_le_bytes n w) = n"
  by (simp add: to_le_bytes_def)

lemma be_val_snoc: "be_val (bs @ [b]) = be_val bs * 256 + unat b"
  by (simp add: be_val_def)

lemma be_val_be_nat: "be_val (be_nat n v) = v mod 256 ^ n"
proof (induction n arbitrary: v)
  case 0
  then show ?case by (simp add: be_val_def)
next
  case (Suc n)
  have "unat (word_of_nat (v mod 256) :: byte) = v mod 256"
    by (simp add: unat_of_nat)
  then have "be_val (be_nat (Suc n) v) = (v div 256) mod 256 ^ n * 256 + v mod 256"
    by (simp add: be_val_snoc Suc)
  also have "\<dots> = v mod (256 * 256 ^ n)"
    by (simp add: mod_mult2_eq mult.commute)
  finally show ?case by simp
qed

lemma be_val_bound: "be_val bs < 256 ^ length bs"
proof (induction bs rule: rev_induct)
  case Nil
  then show ?case by (simp add: be_val_def)
next
  case (snoc b bs)
  have "unat b < 256" using unat_less_pow [of b] by simp
  with snoc show ?case by (simp add: be_val_snoc)
qed

lemma be_nat_be_val: "be_nat (length bs) (be_val bs) = bs"
proof (induction bs rule: rev_induct)
  case Nil
  then show ?case by simp
next
  case (snoc b bs)
  have "unat b < 256" using unat_less_pow [of b] by simp
  with snoc show ?case by (simp add: be_val_snoc)
qed

lemma pow_256: "(256::nat) ^ n = 2 ^ (8 * n)"
proof -
  have "(256::nat) = 2 ^ 8" by simp
  then show ?thesis by (simp only: power_mult)
qed

lemma from_to_be_bytes [simp, bytes_simps]:
  fixes w :: "'a::len word"
  assumes "LENGTH('a) \<le> 8 * n"
  shows "from_be_bytes (to_be_bytes n w) = w"
proof -
  have "unat w < 2 ^ LENGTH('a)" by (rule unat_less_pow)
  also have "\<dots> \<le> 2 ^ (8 * n)" using assms by (intro power_increasing) auto
  finally show ?thesis
    by (simp add: from_be_bytes_def to_be_bytes_def be_val_be_nat pow_256)
qed

lemma to_from_be_bytes [bytes_simps]:
  assumes "length bs = n" and "8 * n \<le> LENGTH('a::len)"
  shows "to_be_bytes n (from_be_bytes bs :: 'a word) = bs"
proof -
  have "be_val bs < 2 ^ (8 * n)" using be_val_bound [of bs] assms(1) by (simp add: pow_256)
  also have "\<dots> \<le> 2 ^ LENGTH('a)" using assms(2) by (intro power_increasing) auto
  finally have "unat (from_be_bytes bs :: 'a word) = be_val bs"
    by (simp add: from_be_bytes_def unat_of_nat)
  then show ?thesis using be_nat_be_val [of bs] assms(1) by (simp add: to_be_bytes_def)
qed

lemma to_be_bytes_inject:
  fixes v w :: "'a::len word"
  assumes "LENGTH('a) \<le> 8 * n"
  shows "to_be_bytes n v = to_be_bytes n w \<longleftrightarrow> v = w"
  using from_to_be_bytes [OF assms] by metis

lemma from_to_le_bytes [simp, bytes_simps]:
  fixes w :: "'a::len word"
  assumes "LENGTH('a) \<le> 8 * n"
  shows "from_le_bytes (to_le_bytes n w) = w"
  using assms by (simp add: from_le_bytes_def to_le_bytes_def)

subsection \<open>Slices\<close>

text \<open>\<open>&bytes[i..j]\<close>; the sources check lengths before they slice.\<close>

definition slice :: "nat \<Rightarrow> nat \<Rightarrow> 'a list \<Rightarrow> 'a list" where
  "slice i j xs = take (j - i) (drop i xs)"

lemma slice_append_skip:
  "length xs \<le> i \<Longrightarrow> slice i j (xs @ ys) = slice (i - length xs) (j - length xs) ys"
  by (simp add: slice_def)

lemma slice_append_here:
  "i = 0 \<Longrightarrow> j = length xs \<Longrightarrow> slice i j (xs @ ys) = xs"
  by (simp add: slice_def)

lemma length_slice: "j \<le> length xs \<Longrightarrow> length (slice i j xs) = j - i"
  by (simp add: slice_def)

lemma slice_join: "i \<le> j \<Longrightarrow> j \<le> k \<Longrightarrow> slice i j xs @ slice j k xs = slice i k xs"
proof -
  assume "i \<le> j" and "j \<le> k"
  then have "slice j k xs = take (k - j) (drop (j - i) (drop i xs))" by (simp add: slice_def)
  then show ?thesis
    using \<open>i \<le> j\<close> \<open>j \<le> k\<close> take_add [of "j - i" "k - j" "drop i xs"] by (simp add: slice_def)
qed

lemma slice_join_append:
  "i \<le> j \<Longrightarrow> j \<le> k \<Longrightarrow> slice i j xs @ slice j k xs @ ys = slice i k xs @ ys"
  by (simp flip: append_assoc add: slice_join)

lemma slice_to_end: "slice i (length xs) xs = drop i xs"
  by (simp add: slice_def)

text \<open>
  \<open>uN::from_be_bytes(bytes[i..i + n].try_into().unwrap())\<close> and the same for a byte array: the slice
  panics when it leaves the buffer.
\<close>

definition read_be :: "byte list \<Rightarrow> nat \<Rightarrow> nat \<Rightarrow> ('e, 'a::len word) result" where
  "read_be bs i n = (if i + n \<le> length bs then Ok (from_be_bytes (slice i (i + n) bs)) else Panic)"

definition read_slice :: "byte list \<Rightarrow> nat \<Rightarrow> nat \<Rightarrow> ('e, byte list) result" where
  "read_slice bs i j = (if i \<le> j \<and> j \<le> length bs then Ok (slice i j bs) else Panic)"

lemma read_be_Cons: "0 < i \<Longrightarrow> read_be (b # bs) i n = read_be bs (i - 1) n"
  by (cases i) (simp_all add: read_be_def slice_def)

lemma read_be_skip: "length xs \<le> i \<Longrightarrow> read_be (xs @ ys) i n = read_be ys (i - length xs) n"
  by (auto simp: read_be_def slice_append_skip Nat.add_diff_assoc2 le_diff_conv)

lemma read_be_here:
  "LENGTH('a) \<le> 8 * n \<Longrightarrow> read_be (to_be_bytes n (w :: 'a::len word) @ ys) 0 n = Ok w"
  by (simp add: read_be_def slice_append_here)

lemma read_be_last:
  "LENGTH('a) \<le> 8 * n \<Longrightarrow> read_be (to_be_bytes n (w :: 'a::len word)) 0 n = Ok w"
  using read_be_here [of n w "[]"] by simp

lemmas read_be_simps = read_be_Cons read_be_skip read_be_here read_be_last

lemma read_be_Ok:
  "i + n \<le> length bs \<Longrightarrow> read_be bs i n = Ok (from_be_bytes (slice i (i + n) bs))"
  by (simp add: read_be_def)

lemma read_be_bytes:
  assumes "read_be bs i n = Ok (w :: 'a::len word)" and "8 * n \<le> LENGTH('a)"
  shows "to_be_bytes n w = slice i (i + n) bs"
proof -
  have "i + n \<le> length bs" and "w = from_be_bytes (slice i (i + n) bs)"
    using assms(1) by (auto simp: read_be_def split: if_splits)
  then show ?thesis using assms(2) by (simp add: to_from_be_bytes length_slice)
qed

text \<open>
  The contract of an encoder and a decoder: under the laws of the parameters and within the size
  limits, decoding undoes encoding.
\<close>

locale codec =
  fixes law :: "'p \<Rightarrow> bool"
    and sized :: "'p \<Rightarrow> 'm \<Rightarrow> bool"
    and enc :: "'p \<Rightarrow> 'm \<Rightarrow> byte list"
    and dec :: "'p \<Rightarrow> byte list \<Rightarrow> ('e, 'm) result"
  assumes decode_encode: "law p \<Longrightarrow> sized p m \<Longrightarrow> dec p (enc p m) = Ok m"
begin

lemma encode_inject:
  assumes "law p" and "sized p m" and "sized p m'" and "enc p m = enc p m'"
  shows "m = m'"
  using decode_encode [OF assms(1,2)] decode_encode [OF assms(1,3)] assms(4) by (metis result.inject(1))

end

subsection \<open>Bit sets kept in a word\<close>

text \<open>Shifts by a variable amount mask the amount to the width, as release builds do.\<close>

definition shl :: "'a::len word \<Rightarrow> nat \<Rightarrow> 'a word" where
  "shl w i = push_bit (i mod LENGTH('a)) w"

definition shr :: "'a::len word \<Rightarrow> nat \<Rightarrow> 'a word" where
  "shr w i = drop_bit (i mod LENGTH('a)) w"

definition test_bit_src :: "'a::len word \<Rightarrow> nat \<Rightarrow> bool" where
  "test_bit_src w i \<longleftrightarrow> (shr w i AND 1) = 1"

definition ilog2 :: "'a::len word \<Rightarrow> nat" where
  "ilog2 w = last (filter (bit w) [0..<LENGTH('a)])"

definition count_ones :: "'a::len word \<Rightarrow> nat" where
  "count_ones w = length (filter (bit w) [0..<LENGTH('a)])"

definition bits_of :: "'a::len word \<Rightarrow> nat set" where
  "bits_of w = {i. bit w i}"

lemma test_bit_src_iff [simp]: "i < LENGTH('a) \<Longrightarrow> test_bit_src (w :: 'a::len word) i \<longleftrightarrow> bit w i"
  by (simp add: test_bit_src_def shr_def and_one_eq bit_iff_odd_drop_bit odd_iff_mod_2_eq_one)

lemma bits_of_0 [simp]: "bits_of 0 = {}"
  by (simp add: bits_of_def)

lemma bits_of_less: "i \<in> bits_of (w :: 'a::len word) \<Longrightarrow> i < LENGTH('a)"
  by (auto simp: bits_of_def bit_imp_le_length)

lemma finite_bits_of [simp]: "finite (bits_of w)"
  by (rule finite_subset [of _ "{..<LENGTH('a)}"]) (auto dest: bits_of_less)

lemma bits_of_set:
  "i < LENGTH('a) \<Longrightarrow> bits_of (w OR shl (1 :: 'a::len word) i) = insert i (bits_of w)"
  by (auto simp: bits_of_def shl_def bit_or_iff bit_exp_iff)

lemma bits_of_eq_filter: "bits_of w = set (filter (bit w) [0..<LENGTH('a)])"
  for w :: "'a::len word"
  by (auto simp: bits_of_def bit_imp_le_length)

lemma count_ones_card: "count_ones w = card (bits_of w)"
  unfolding count_ones_def bits_of_eq_filter by (rule distinct_card [symmetric]) simp

lemma bits_of_empty_iff [simp]: "bits_of w = {} \<longleftrightarrow> w = 0"
proof
  assume "bits_of w = {}"
  then have "bit w n \<longleftrightarrow> bit 0 n" for n by (auto simp: bits_of_def)
  then show "w = 0" by (rule bit_word_eqI)
qed simp

lemma sorted_last_max: "sorted xs \<Longrightarrow> x \<in> set xs \<Longrightarrow> x \<le> last xs"
  by (induction xs) (auto split: if_splits dest: last_in_set)

lemma ilog2_bit: "w \<noteq> 0 \<Longrightarrow> ilog2 w \<in> bits_of w"
proof -
  assume "w \<noteq> 0"
  then have "filter (bit w) [0..<LENGTH('a)] \<noteq> []"
    by (metis bits_of_empty_iff bits_of_eq_filter set_empty)
  then show ?thesis unfolding ilog2_def bits_of_eq_filter by (rule last_in_set)
qed

lemma ilog2_max: "i \<in> bits_of w \<Longrightarrow> i \<le> ilog2 w"
  unfolding ilog2_def bits_of_eq_filter
  by (rule sorted_last_max) (auto simp: sorted_wrt_filter)

lemma ilog2_less_iff: "w \<noteq> 0 \<Longrightarrow> ilog2 w < n \<longleftrightarrow> bits_of w \<subseteq> {..<n}"
  using ilog2_bit [of w] by (meson ilog2_max lessThan_iff order_le_less_trans subsetD subsetI)

subsection \<open>Sums over the indices of a list\<close>

lemma sum_list_nth_subset:
  fixes f :: "'a \<Rightarrow> nat"
  shows "(\<Sum>i<length xs. f (xs ! i)) = sum_list (map f xs)"
  by (simp add: sum_list_sum_nth atLeast0LessThan)

lemma sum_subset_le_sum_list:
  fixes f :: "'a \<Rightarrow> nat"
  assumes "A \<subseteq> {..<length xs}"
  shows "(\<Sum>i\<in>A. f (xs ! i)) \<le> sum_list (map f xs)"
proof -
  have "(\<Sum>i\<in>A. f (xs ! i)) \<le> (\<Sum>i<length xs. f (xs ! i))"
    using assms by (intro sum_mono2) auto
  then show ?thesis by (simp add: sum_list_nth_subset)
qed

lemma sum_list_filter_index:
  fixes g :: "nat \<Rightarrow> nat"
  shows "sum_list (map g (filter P [0..<n])) = (\<Sum>i | i < n \<and> P i. g i)"
proof -
  have "sum_list (map g (filter P [0..<n])) = sum g (set (filter P [0..<n]))"
    by (rule sum_list_distinct_conv_sum_set) simp
  also have "set (filter P [0..<n]) = {i. i < n \<and> P i}" by auto
  finally show ?thesis .
qed

subsection \<open>Ordered maps\<close>

text \<open>A \<open>BTreeMap\<close> is the association list of its entries in ascending key order.\<close>

fun btree_insert :: "'k::linorder \<Rightarrow> 'v \<Rightarrow> ('k \<times> 'v) list \<Rightarrow> ('k \<times> 'v) list" where
  "btree_insert k v [] = [(k, v)]"
| "btree_insert k v ((k', v') # m) =
     (if k < k' then (k, v) # (k', v') # m
      else if k = k' then (k, v) # m
      else (k', v') # btree_insert k v m)"

definition btree_remove :: "'k \<Rightarrow> ('k \<times> 'v) list \<Rightarrow> ('k \<times> 'v) list" where
  "btree_remove k m = filter (\<lambda>p. fst p \<noteq> k) m"

definition btree_ok :: "('k::linorder \<times> 'v) list \<Rightarrow> bool" where
  "btree_ok m \<longleftrightarrow> sorted (map fst m) \<and> distinct (map fst m)"

lemma btree_insert_keys: "fst ` set (btree_insert k v m) = insert k (fst ` set m)"
  by (induction k v m rule: btree_insert.induct) auto

lemma btree_insert_lookup: "map_of (btree_insert k v m) = (map_of m)(k \<mapsto> v)"
  by (induction k v m rule: btree_insert.induct) auto

lemma btree_insert_ok: "btree_ok m \<Longrightarrow> btree_ok (btree_insert k v m)"
  unfolding btree_ok_def
proof (induction k v m rule: btree_insert.induct)
  case (2 k v k' v' m)
  then show ?case
    using btree_insert_keys [of k v m] by (auto simp: image_iff)
qed simp

lemma btree_remove_lookup: "map_of (btree_remove k m) = (map_of m)(k := None)"
  by (induction m) (auto simp: btree_remove_def fun_upd_def)

lemma btree_remove_ok: "btree_ok m \<Longrightarrow> btree_ok (btree_remove k m)"
  by (auto simp: btree_ok_def btree_remove_def sorted_filter distinct_map_filter)

end
