(* ===== verification/Crypto.thy ===== *)
theory Crypto
  imports Prelude
begin

section \<open>Cryptographic primitives\<close>

text \<open>
  The crate \<open>aii-crypto\<close> wraps third-party libraries: \<open>tiny_keccak\<close> (hashing), \<open>blst\<close> (BLS
  signatures) and \<open>schnorrkel\<close> with \<open>merlin\<close> (VRF). Those libraries are not part of the
  repository, so their functions are the fields of the record \<open>crypto\<close>, an argument of every
  definition that needs them. An opaque library value (a key, a curve point) is a word as wide as
  its compressed encoding; the model only hands such values to the fields.

  The second half names the documented laws of those libraries that the theorems rely on, and
  gives one concrete instance of the record that satisfies all of them.
\<close>

datatype crypto_error = InvalidEncoding string | BadSignature

datatype bls_secret_key = BlsSecretKey "256 word"
datatype bls_public_key = BlsPublicKey "384 word"
datatype bls_signature = BlsSignature "768 word"
datatype vrf_secret_key = VrfSecretKey "512 word"
datatype vrf_public_key = VrfPublicKey "256 word"

record vrf_proof =
  pre_output :: "256 word"
  proof_bytes :: "512 word"

record crypto =
  tiny_keccak :: "byte list \<Rightarrow> h256"
  blst_sk_to_pk :: "256 word \<Rightarrow> 384 word"
  blst_sign :: "256 word \<Rightarrow> byte list \<Rightarrow> byte list \<Rightarrow> 768 word"
  blst_verify :: "768 word \<Rightarrow> byte list \<Rightarrow> byte list \<Rightarrow> 384 word \<Rightarrow> bool"
  blst_aggregate :: "768 word list \<Rightarrow> 768 word option"
  blst_fast_aggregate_verify :: "768 word \<Rightarrow> byte list \<Rightarrow> byte list \<Rightarrow> 384 word list \<Rightarrow> bool"
  blst_sig_compress :: "768 word \<Rightarrow> 768 word"
  blst_sig_from_bytes :: "768 word \<Rightarrow> 768 word option"
  blst_pk_compress :: "384 word \<Rightarrow> 384 word"
  blst_pk_from_bytes :: "384 word \<Rightarrow> 384 word option"
  merlin_transcript :: "byte list \<Rightarrow> (byte list \<times> byte list) list \<Rightarrow> byte list"
  sr_to_public :: "512 word \<Rightarrow> 256 word"
  sr_pk_from_bytes :: "256 word \<Rightarrow> 256 word option"
  sr_vrf_sign :: "nat \<Rightarrow> 512 word \<Rightarrow> byte list \<Rightarrow> 256 word \<times> 512 word \<times> byte list"
  sr_preout_from_bytes :: "256 word \<Rightarrow> 256 word option"
  sr_proof_from_bytes :: "512 word \<Rightarrow> 512 word option"
  sr_vrf_verify :: "256 word \<Rightarrow> byte list \<Rightarrow> 256 word \<Rightarrow> 512 word \<Rightarrow> byte list option"
  sr_make_bytes :: "byte list \<Rightarrow> byte list \<Rightarrow> 256 word"

definition ascii :: "string \<Rightarrow> byte list" where
  "ascii s = map of_char s"

lemma length_ascii [simp, bytes_simps]: "length (ascii s) = length s"
  by (simp add: ascii_def)

subsection \<open>keccak.rs\<close>

definition keccak256 :: "crypto \<Rightarrow> byte list \<Rightarrow> h256" where
  "keccak256 C input = tiny_keccak C input"

subsection \<open>bls.rs\<close>

definition DST :: "byte list" where
  "DST = ascii ''BLS_SIG_BLS12381G2_XMD:SHA-256_SSWU_RO_POP_''"

primrec bls_pk_bits :: "bls_public_key \<Rightarrow> 384 word" where
  "bls_pk_bits (BlsPublicKey p) = p"

primrec bls_sig_bits :: "bls_signature \<Rightarrow> 768 word" where
  "bls_sig_bits (BlsSignature s) = s"

primrec bls_public_key_of :: "crypto \<Rightarrow> bls_secret_key \<Rightarrow> bls_public_key" where
  "bls_public_key_of C (BlsSecretKey k) = BlsPublicKey (blst_sk_to_pk C k)"

primrec bls_sign :: "crypto \<Rightarrow> bls_secret_key \<Rightarrow> byte list \<Rightarrow> bls_signature" where
  "bls_sign C (BlsSecretKey k) msg = BlsSignature (blst_sign C k msg DST)"

definition bls_pk_from_compressed ::
    "crypto \<Rightarrow> 384 word \<Rightarrow> (crypto_error, bls_public_key) result" where
  "bls_pk_from_compressed C bytes =
     (case blst_pk_from_bytes C bytes of
        Some p \<Rightarrow> Ok (BlsPublicKey p)
      | None \<Rightarrow> Err (InvalidEncoding ''BLS pubkey decompression failed''))"

definition bls_pk_to_compressed :: "crypto \<Rightarrow> bls_public_key \<Rightarrow> 384 word" where
  "bls_pk_to_compressed C pk = blst_pk_compress C (bls_pk_bits pk)"

definition bls_sig_from_compressed ::
    "crypto \<Rightarrow> 768 word \<Rightarrow> (crypto_error, bls_signature) result" where
  "bls_sig_from_compressed C bytes =
     (case blst_sig_from_bytes C bytes of
        Some s \<Rightarrow> Ok (BlsSignature s)
      | None \<Rightarrow> Err (InvalidEncoding ''BLS signature decompression failed''))"

definition bls_sig_to_compressed :: "crypto \<Rightarrow> bls_signature \<Rightarrow> 768 word" where
  "bls_sig_to_compressed C s = blst_sig_compress C (bls_sig_bits s)"

definition bls_verify ::
    "crypto \<Rightarrow> bls_signature \<Rightarrow> byte list \<Rightarrow> bls_public_key \<Rightarrow> (crypto_error, unit) result" where
  "bls_verify C s msg pk =
     (if blst_verify C (bls_sig_bits s) msg DST (bls_pk_bits pk) then Ok () else Err BadSignature)"

definition aggregate_signatures ::
    "crypto \<Rightarrow> bls_signature list \<Rightarrow> (crypto_error, bls_signature) result" where
  "aggregate_signatures C signatures =
     (if signatures = [] then
        Err (InvalidEncoding ''BLS aggregate requires at least one signature'')
      else case blst_aggregate C (map bls_sig_bits signatures) of
             None \<Rightarrow> Err BadSignature
           | Some a \<Rightarrow> Ok (BlsSignature a))"

definition fast_aggregate_verify ::
    "crypto \<Rightarrow> bls_signature \<Rightarrow> byte list \<Rightarrow> bls_public_key list \<Rightarrow> (crypto_error, unit) result" where
  "fast_aggregate_verify C agg_sig msg pubkeys =
     (if pubkeys = [] then
        Err (InvalidEncoding ''fast_aggregate_verify requires at least one pubkey'')
      else if blst_fast_aggregate_verify C (bls_sig_bits agg_sig) msg DST (map bls_pk_bits pubkeys)
      then Ok () else Err BadSignature)"

subsection \<open>vrf.rs\<close>

definition TRANSCRIPT_LABEL :: "byte list" where
  "TRANSCRIPT_LABEL = ascii ''AII-VRF''"

definition OUTPUT_LABEL :: "byte list" where
  "OUTPUT_LABEL = ascii ''AII-VRF-OUT''"

definition vrf_transcript :: "crypto \<Rightarrow> byte list \<Rightarrow> byte list" where
  "vrf_transcript C input = merlin_transcript C TRANSCRIPT_LABEL [(ascii ''input'', input)]"

primrec vrf_public_key_of :: "crypto \<Rightarrow> vrf_secret_key \<Rightarrow> vrf_public_key" where
  "vrf_public_key_of C (VrfSecretKey k) = VrfPublicKey (sr_to_public C k)"

definition vrf_pk_from_bytes :: "crypto \<Rightarrow> 256 word \<Rightarrow> (crypto_error, vrf_public_key) result" where
  "vrf_pk_from_bytes C bytes =
     (case sr_pk_from_bytes C bytes of
        Some p \<Rightarrow> Ok (VrfPublicKey p)
      | None \<Rightarrow> Err (InvalidEncoding ''schnorrkel VRF decoding failed''))"

text \<open>The prover draws a nonce from the operating system; the draw is the argument \<open>rnd\<close>.\<close>

primrec vrf_prove ::
    "crypto \<Rightarrow> nat \<Rightarrow> vrf_secret_key \<Rightarrow> byte list \<Rightarrow> vrf_proof \<times> 256 word" where
  "vrf_prove C rnd (VrfSecretKey k) input =
     (let (pre, prf, io) = sr_vrf_sign C rnd k (vrf_transcript C input)
      in (\<lparr>pre_output = pre, proof_bytes = prf\<rparr>, sr_make_bytes C io OUTPUT_LABEL))"

primrec vrf_verify ::
    "crypto \<Rightarrow> vrf_public_key \<Rightarrow> byte list \<Rightarrow> vrf_proof \<Rightarrow> (crypto_error, 256 word) result" where
  "vrf_verify C (VrfPublicKey p) input prf =
     (case sr_preout_from_bytes C (pre_output prf) of
        None \<Rightarrow> Err (InvalidEncoding ''schnorrkel VRF decoding failed'')
      | Some pre \<Rightarrow>
          (case sr_proof_from_bytes C (proof_bytes prf) of
             None \<Rightarrow> Err (InvalidEncoding ''schnorrkel VRF decoding failed'')
           | Some q \<Rightarrow>
               (case sr_vrf_verify C p (vrf_transcript C input) pre q of
                  None \<Rightarrow> Err BadSignature
                | Some io \<Rightarrow> Ok (sr_make_bytes C io OUTPUT_LABEL))))"

subsection \<open>The laws of the libraries\<close>

text \<open>BLS correctness: a signature made with a key verifies under the matching public key.\<close>

definition bls_signs :: "crypto \<Rightarrow> bool" where
  "bls_signs C \<longleftrightarrow> (\<forall>k m d. blst_verify C (blst_sign C k m d) m d (blst_sk_to_pk C k))"

text \<open>
  Aggregation: signatures of one message that verify one by one can be aggregated, and the
  aggregate verifies against their keys, in whatever order the keys are given (the keys are those
  of a validator set, with proofs of possession, so they do not cancel out).
\<close>

definition bls_aggregates :: "crypto \<Rightarrow> bool" where
  "bls_aggregates C \<longleftrightarrow>
     (\<forall>ps m d qs.
        ps \<noteq> [] \<longrightarrow> (\<forall>(s, p) \<in> set ps. blst_verify C s m d p) \<longrightarrow> mset qs = mset (map snd ps) \<longrightarrow>
        (\<exists>a. blst_aggregate C (map fst ps) = Some a \<and> blst_fast_aggregate_verify C a m d qs))"

text \<open>The compressed encoding is canonical: decompression accepts no second encoding of a point.\<close>

definition bls_canonical :: "crypto \<Rightarrow> bool" where
  "bls_canonical C \<longleftrightarrow>
     (\<forall>b s. blst_sig_from_bytes C b = Some s \<longrightarrow> blst_sig_compress C s = b) \<and>
     (\<forall>b p. blst_pk_from_bytes C b = Some p \<longrightarrow> blst_pk_compress C p = b)"

text \<open>
  A point is a value that some encoding decodes to; decompression refuses every encoding of none. Rust code gets a
  signature or a key from the library only, so each is a point.
\<close>

definition sig_point :: "crypto \<Rightarrow> bls_signature \<Rightarrow> bool" where
  "sig_point C s \<longleftrightarrow> (\<exists>b. blst_sig_from_bytes C b = Some (bls_sig_bits s))"

definition pk_point :: "crypto \<Rightarrow> bls_public_key \<Rightarrow> bool" where
  "pk_point C p \<longleftrightarrow> (\<exists>b. blst_pk_from_bytes C b = Some (bls_pk_bits p))"

text \<open>
  Group checks: both verifiers are called with the check of the signature switched on, so what verifies is a point;
  a key derived from a secret key is a point.
\<close>

definition bls_checks_points :: "crypto \<Rightarrow> bool" where
  "bls_checks_points C \<longleftrightarrow>
     (\<forall>s m d p. blst_verify C s m d p \<longrightarrow> sig_point C (BlsSignature s)) \<and>
     (\<forall>s m d ps. blst_fast_aggregate_verify C s m d ps \<longrightarrow> sig_point C (BlsSignature s)) \<and>
     (\<forall>k. pk_point C (BlsPublicKey (blst_sk_to_pk C k)))"

text \<open>
  VRF correctness: a proof made with a key decodes, verifies under the matching public key and
  yields the transcript output the prover used.
\<close>

definition vrf_proves :: "crypto \<Rightarrow> bool" where
  "vrf_proves C \<longleftrightarrow>
     (\<forall>rnd k t pre prf io. sr_vrf_sign C rnd k t = (pre, prf, io) \<longrightarrow>
        (\<exists>pre' prf'. sr_preout_from_bytes C pre = Some pre' \<and> sr_proof_from_bytes C prf = Some prf' \<and>
          sr_vrf_verify C (sr_to_public C k) t pre' prf' = Some io))"

lemma bls_verify_sign:
  "bls_signs C \<Longrightarrow> bls_verify C (bls_sign C sk m) m (bls_public_key_of C sk) = Ok ()"
  by (cases sk) (simp add: bls_signs_def bls_verify_def)

lemma bls_verify_Ok_iff [result_simps]:
  "bls_verify C s m pk = Ok u \<longleftrightarrow> blst_verify C (bls_sig_bits s) m DST (bls_pk_bits pk)"
  by (simp add: bls_verify_def)

lemma bls_verify_no_panic [simp]: "bls_verify C s m pk \<noteq> Panic"
  by (simp add: bls_verify_def)

lemma fast_aggregate_verify_no_panic [simp]: "fast_aggregate_verify C s m pks \<noteq> Panic"
  by (simp add: fast_aggregate_verify_def)

lemma bls_sig_compress_roundtrip [simp]:
  "bls_canonical C \<Longrightarrow> sig_point C s \<Longrightarrow> bls_sig_from_compressed C (bls_sig_to_compressed C s) = Ok s"
  by (cases s) (auto simp: bls_canonical_def sig_point_def bls_sig_from_compressed_def bls_sig_to_compressed_def)

lemma bls_pk_compress_roundtrip [simp]:
  "bls_canonical C \<Longrightarrow> pk_point C p \<Longrightarrow> bls_pk_from_compressed C (bls_pk_to_compressed C p) = Ok p"
  by (cases p) (auto simp: bls_canonical_def pk_point_def bls_pk_from_compressed_def bls_pk_to_compressed_def)

lemma own_key_point: "bls_checks_points C \<Longrightarrow> pk_point C (bls_public_key_of C sk)"
  by (cases sk) (simp add: bls_checks_points_def)

lemma signed_point: "bls_checks_points C \<Longrightarrow> bls_signs C \<Longrightarrow> sig_point C (bls_sign C sk m)"
  unfolding bls_checks_points_def bls_signs_def by (cases sk) (simp, blast)

lemma verified_point: "bls_checks_points C \<Longrightarrow> fast_aggregate_verify C s m pks = Ok () \<Longrightarrow> sig_point C s"
  unfolding bls_checks_points_def by (cases s) (simp add: fast_aggregate_verify_def split: if_splits, blast)

lemma bls_sig_canonical:
  "bls_canonical C \<Longrightarrow> bls_sig_from_compressed C b = Ok s \<Longrightarrow> bls_sig_to_compressed C s = b"
  by (auto simp: bls_canonical_def bls_sig_from_compressed_def bls_sig_to_compressed_def
      split: option.splits)

lemma bls_sig_from_compressed_no_panic [simp]: "bls_sig_from_compressed C b \<noteq> Panic"
  by (simp add: bls_sig_from_compressed_def split: option.splits)

lemma aggregate_then_verify:
  assumes "bls_aggregates C" and "sigs \<noteq> []" and "length sigs = length pks"
    and "\<forall>i < length sigs. bls_verify C (sigs ! i) m (pks ! i) = Ok ()"
    and "mset qs = mset pks"
  obtains a where "aggregate_signatures C sigs = Ok a" and "fast_aggregate_verify C a m qs = Ok ()"
proof -
  let ?ps = "zip (map bls_sig_bits sigs) (map bls_pk_bits pks)"
  have "\<forall>(s, p) \<in> set ?ps. blst_verify C s m DST p"
    using assms(3,4) by (auto simp: set_zip result_simps)
  moreover have "mset (map bls_pk_bits qs) = mset (map snd ?ps)"
    using assms(3,5) by simp
  moreover have "?ps \<noteq> []" using assms(2,3) by (cases sigs; cases pks) auto
  ultimately obtain a where a: "blst_aggregate C (map fst ?ps) = Some a"
      "blst_fast_aggregate_verify C a m DST (map bls_pk_bits qs)"
    using assms(1) unfolding bls_aggregates_def by metis
  from assms(2,3,5) have "qs \<noteq> []" by auto
  with a assms(2,3) show thesis
    by (intro that [of "BlsSignature a"])
      (simp_all add: aggregate_signatures_def fast_aggregate_verify_def)
qed

lemma vrf_verify_prove:
  assumes "vrf_proves C" and "vrf_prove C rnd sk input = (prf, out)"
  shows "vrf_verify C (vrf_public_key_of C sk) input prf = Ok out"
  using assms by (cases sk) (fastforce simp: vrf_proves_def split: prod.splits)

subsection \<open>One instance of the record\<close>

text \<open>
  A scheme in which a signature is its signer's key and an aggregate is the sum of its parts. It
  is of no cryptographic use; it shows that the laws above can hold together, and evaluates.
\<close>

definition demo_crypto :: crypto where
  "demo_crypto = \<lparr>
     tiny_keccak = from_be_bytes,
     blst_sk_to_pk = ucast,
     blst_sign = (\<lambda>k m d. ucast k),
     blst_verify = (\<lambda>s m d p. s = ucast p),
     blst_aggregate = (\<lambda>ss. Some (take_bit 760 (sum_list ss))),
     blst_fast_aggregate_verify = (\<lambda>s m d ps. s = take_bit 760 (sum_list (map ucast ps))),
     blst_sig_compress = id,
     blst_sig_from_bytes = (\<lambda>b. if take_bit 760 b = b then Some b else None),
     blst_pk_compress = id,
     blst_pk_from_bytes = (\<lambda>b. if take_bit 380 b = b then Some b else None),
     merlin_transcript = (\<lambda>l ms. concat (map snd ms)),
     sr_to_public = ucast,
     sr_pk_from_bytes = Some,
     sr_vrf_sign = (\<lambda>r k t. (ucast k, 0, t)),
     sr_preout_from_bytes = Some,
     sr_proof_from_bytes = Some,
     sr_vrf_verify = (\<lambda>p t pre q. if pre = p then Some t else None),
     sr_make_bytes = (\<lambda>io l. from_be_bytes io)\<rparr>"

lemma demo_bls_signs: "bls_signs demo_crypto"
proof -
  have "(ucast k :: 768 word) = ucast (ucast k :: 384 word)" for k :: "256 word"
    by (rule bit_word_eqI) (auto simp: bit_ucast_iff dest: bit_imp_le_length)
  then show ?thesis by (simp add: bls_signs_def demo_crypto_def)
qed

lemma demo_bls_aggregates: "bls_aggregates demo_crypto"
proof -
  have "sum_list (map fst ps) = sum_list (map ucast qs)"
    if "\<forall>(s, p) \<in> set ps. s = (ucast p :: 768 word)" "mset qs = mset (map snd ps)"
    for ps :: "(768 word \<times> 384 word) list" and qs
  proof -
    have "map fst ps = map ucast (map snd ps)" using that(1) by (induction ps) auto
    moreover have "mset (map ucast qs) = (mset (map ucast (map snd ps)) :: 768 word multiset)"
      using that(2) by (metis mset_map)
    ultimately show ?thesis by (metis sum_mset_sum_list)
  qed
  then show ?thesis by (simp add: bls_aggregates_def demo_crypto_def)
qed

lemma demo_bls_canonical: "bls_canonical demo_crypto"
  by (simp add: bls_canonical_def demo_crypto_def)

lemma demo_bls_checks_points: "bls_checks_points demo_crypto"
proof -
  have "take_bit 760 (ucast p :: 768 word) = ucast p" for p :: "384 word"
    by (rule bit_word_eqI) (auto simp: bit_take_bit_iff bit_ucast_iff dest: bit_imp_le_length)
  moreover have "take_bit 380 (ucast k :: 384 word) = ucast k" for k :: "256 word"
    by (rule bit_word_eqI) (auto simp: bit_take_bit_iff bit_ucast_iff dest: bit_imp_le_length)
  moreover have "take_bit 760 (take_bit 760 w) = take_bit 760 w" for w :: "768 word" by simp
  ultimately show ?thesis by (auto simp: bls_checks_points_def sig_point_def pk_point_def demo_crypto_def)
qed

text \<open>Its decompression refuses encodings, as that of the library does.\<close>

lemma demo_decompression_refuses:
  "bls_sig_from_compressed demo_crypto (- 1) = Err (InvalidEncoding ''BLS signature decompression failed'')"
  "bls_pk_from_compressed demo_crypto (- 1) = Err (InvalidEncoding ''BLS pubkey decompression failed'')"
  by (simp_all add: bls_sig_from_compressed_def bls_pk_from_compressed_def demo_crypto_def take_bit_minus_one_eq_mask
      mask_eq_exp_minus_1)

lemma demo_vrf_proves: "vrf_proves demo_crypto"
  by (simp add: vrf_proves_def demo_crypto_def)

lemmas demo_laws = demo_bls_signs demo_bls_aggregates demo_bls_canonical demo_bls_checks_points
  demo_vrf_proves

end
