(* ===== verification/Rlp.thy ===== *)
theory Rlp
  imports Crypto
begin

section \<open>RLP: the library interface and the field codecs\<close>

text \<open>
  The crates encode with the third-party crate \<open>alloy_rlp\<close>, which is not part of the repository: its
  encoders, decoders and length functions, and the codecs its derive macros generate for
  \<open>AccessListItem\<close>, \<open>Withdrawal\<close> and \<open>Log\<close>, are the fields of the record \<open>rlp\<close>. The laws below are
  those of the RLP format that the round trips rely on.

  A \<open>decode(&mut &[u8])\<close> function is a \<open>decoder\<close>: it returns the value together with the bytes that
  are left. The rest of the theory models the field codecs of the repository: \<open>H256\<close> and \<open>Address\<close>
  (\<open>aii-types\<close>), \<open>AlgoId\<close>, and \<open>encode_u256\<close>, \<open>decode_u256\<close>, \<open>encode_to\<close>, \<open>decode_to\<close>,
  \<open>decode_h256_loose\<close> (\<open>aii-block\<close>), and the element loops.
\<close>

datatype rlp_error =
    InputTooShort
  | UnexpectedString
  | UnexpectedLength
  | Custom string
  | OtherRlpError nat

type_synonym 'a decoder = "byte list \<Rightarrow> (rlp_error, 'a \<times> byte list) result"

record access_list_item =
  al_address :: address
  storage_keys :: "h256 list"

record withdrawal =
  w_index :: u64
  w_validator_index :: u64
  w_address :: address
  w_amount :: u64

record log =
  log_address :: address
  topics :: "h256 list"
  log_data :: "byte list"

record rlp =
  enc_list_header :: "nat \<Rightarrow> byte list"
  length_of_length :: "nat \<Rightarrow> nat"
  dec_header :: "(bool \<times> nat) decoder"
  enc_str :: "byte list \<Rightarrow> byte list"
  len_str :: "byte list \<Rightarrow> nat"
  dec_bytes :: "byte list decoder"
  enc_u64 :: "u64 \<Rightarrow> byte list"
  len_u64 :: "u64 \<Rightarrow> nat"
  dec_u64 :: "u64 decoder"
  enc_u8 :: "u8 \<Rightarrow> byte list"
  len_u8 :: "u8 \<Rightarrow> nat"
  dec_u8 :: "u8 decoder"
  enc_bool :: "bool \<Rightarrow> byte list"
  len_bool :: "bool \<Rightarrow> nat"
  dec_bool :: "bool decoder"
  enc_access :: "access_list_item \<Rightarrow> byte list"
  len_access :: "access_list_item \<Rightarrow> nat"
  dec_access :: "access_list_item decoder"
  enc_withdrawal :: "withdrawal \<Rightarrow> byte list"
  len_withdrawal :: "withdrawal \<Rightarrow> nat"
  dec_withdrawal :: "withdrawal decoder"
  enc_log :: "log \<Rightarrow> byte list"
  len_log :: "log \<Rightarrow> nat"
  dec_log :: "log decoder"
  rlp_error_str :: "rlp_error \<Rightarrow> string"

subsection \<open>The laws of the format\<close>

definition reads :: "'a decoder \<Rightarrow> ('a \<Rightarrow> byte list) \<Rightarrow> 'a \<Rightarrow> bool" where
  "reads dec enc x \<longleftrightarrow> (\<forall>rest. dec (enc x @ rest) = Ok (x, rest))"

text \<open>A decoder that never panics, and that eats at least one byte when it succeeds.\<close>

definition total_decoder :: "'a decoder \<Rightarrow> bool" where
  "total_decoder dec \<longleftrightarrow> (\<forall>buf. dec buf \<noteq> Panic)"

definition consuming :: "'a decoder \<Rightarrow> bool" where
  "consuming dec \<longleftrightarrow> (\<forall>buf x rest. dec buf = Ok (x, rest) \<longrightarrow> length rest < length buf)"

definition shrinking :: "'a decoder \<Rightarrow> bool" where
  "shrinking dec \<longleftrightarrow> (\<forall>buf x rest. dec buf = Ok (x, rest) \<longrightarrow> length rest \<le> length buf)"

text \<open>
  Round trips. A list header is read back when its payload is there; strings and payloads are
  shorter than \<open>2 ^ 64\<close> bytes, as every \<open>usize\<close> length is.
\<close>

definition rlp_round_trips :: "rlp \<Rightarrow> bool" where
  "rlp_round_trips R \<longleftrightarrow>
     (\<forall>n rest. n < 2 ^ 64 \<longrightarrow> n \<le> length rest \<longrightarrow>
        dec_header R (enc_list_header R n @ rest) = Ok ((True, n), rest)) \<and>
     (\<forall>bs. length bs < 2 ^ 64 \<longrightarrow> reads (dec_bytes R) (enc_str R) bs) \<and>
     (\<forall>w. reads (dec_u64 R) (enc_u64 R) w) \<and>
     (\<forall>w. reads (dec_u8 R) (enc_u8 R) w) \<and>
     (\<forall>b. reads (dec_bool R) (enc_bool R) b) \<and>
     (\<forall>a. length (enc_access R a) < 2 ^ 64 \<longrightarrow> reads (dec_access R) (enc_access R) a) \<and>
     (\<forall>w. reads (dec_withdrawal R) (enc_withdrawal R) w) \<and>
     (\<forall>l. length (enc_log R l) < 2 ^ 64 \<longrightarrow> reads (dec_log R) (enc_log R) l)"

text \<open>
  The \<open>length\<close> functions announce what the encoders write, and a string of two bytes or more has a
  header as long as that of a list of the same payload, of one byte up to 55 bytes of payload.
\<close>

definition rlp_lengths :: "rlp \<Rightarrow> bool" where
  "rlp_lengths R \<longleftrightarrow>
     (\<forall>n. length (enc_list_header R n) = length_of_length R n) \<and>
     (\<forall>n < 56. length_of_length R n = 1) \<and>
     (\<forall>bs. length (enc_str R bs) = len_str R bs) \<and>
     (\<forall>bs. 2 \<le> length bs \<longrightarrow> length (enc_str R bs) = length bs + length_of_length R (length bs)) \<and>
     (\<forall>w. length (enc_u64 R w) = len_u64 R w) \<and>
     (\<forall>w. length (enc_u8 R w) = len_u8 R w) \<and>
     (\<forall>b. length (enc_bool R b) = len_bool R b) \<and>
     (\<forall>a. length (enc_access R a) = len_access R a) \<and>
     (\<forall>w. length (enc_withdrawal R w) = len_withdrawal R w) \<and>
     (\<forall>l. length (enc_log R l) = len_log R l)"

text \<open>
  First bytes and sizes: lists start at \<open>0xc0\<close> and strings below; the empty string is the byte
  \<open>0x80\<close>; a string is longer than its contents unless it is a single byte; a \<open>u64\<close> takes at most
  nine bytes, and so on.
\<close>

definition rlp_shapes :: "rlp \<Rightarrow> bool" where
  "rlp_shapes R \<longleftrightarrow>
     (\<forall>n. \<exists>b bs. enc_list_header R n = b # bs \<and> 0xc0 \<le> b \<and> length bs \<le> 8) \<and>
     (\<forall>s. \<exists>b bs. enc_str R s = b # bs \<and> b < 0xc0) \<and>
     enc_str R [] = [0x80] \<and>
     (\<forall>s. length s \<le> length (enc_str R s) \<and> length (enc_str R s) \<le> length s + 9) \<and>
     (\<forall>w. length (enc_u64 R w) \<in> {1..9}) \<and> (\<forall>w. length (enc_u8 R w) \<in> {1..2}) \<and>
     (\<forall>a. enc_access R a \<noteq> []) \<and> (\<forall>w. enc_withdrawal R w \<noteq> []) \<and> (\<forall>l. enc_log R l \<noteq> [])"

text \<open>Decoders return on every input, and only ever advance.\<close>

definition rlp_total :: "rlp \<Rightarrow> bool" where
  "rlp_total R \<longleftrightarrow>
     total_decoder (dec_header R) \<and> shrinking (dec_header R) \<and>
     total_decoder (dec_bytes R) \<and> consuming (dec_bytes R) \<and>
     total_decoder (dec_u64 R) \<and> consuming (dec_u64 R) \<and>
     total_decoder (dec_u8 R) \<and> consuming (dec_u8 R) \<and>
     total_decoder (dec_bool R) \<and> consuming (dec_bool R) \<and>
     total_decoder (dec_access R) \<and> consuming (dec_access R) \<and>
     total_decoder (dec_withdrawal R) \<and> consuming (dec_withdrawal R) \<and>
     total_decoder (dec_log R) \<and> consuming (dec_log R)"

definition rlp_encodes :: "rlp \<Rightarrow> bool" where
  "rlp_encodes R \<longleftrightarrow> rlp_round_trips R \<and> rlp_lengths R \<and> rlp_shapes R"

subsection \<open>Sequencing decoders\<close>

definition decode_then :: "'a decoder \<Rightarrow> ('a \<Rightarrow> 'b decoder) \<Rightarrow> 'b decoder" where
  "decode_then dec f = (\<lambda>buf. and_then (dec buf) (\<lambda>(x, rest). f x rest))"

definition return_value :: "'a \<Rightarrow> 'a decoder" where
  "return_value x = (\<lambda>buf. Ok (x, buf))"

definition fail_with :: "rlp_error \<Rightarrow> 'a decoder" where
  "fail_with e = (\<lambda>buf. Err e)"

lemma decode_then_reads:
  "reads dec enc x \<Longrightarrow> decode_then dec f (enc x @ rest) = f x rest"
  by (simp add: decode_then_def reads_def)

lemma return_value_apply [simp]: "return_value x buf = Ok (x, buf)"
  by (simp add: return_value_def)

lemma decode_then_total:
  "total_decoder dec \<Longrightarrow> (\<And>x. total_decoder (f x)) \<Longrightarrow> total_decoder (decode_then dec f)"
proof -
  assume "total_decoder dec" and f: "\<And>x. total_decoder (f x)"
  have "decode_then dec f buf \<noteq> Panic" for buf
    using \<open>total_decoder dec\<close> f
    by (cases "dec buf") (auto simp: decode_then_def total_decoder_def split: prod.splits)
  then show ?thesis by (simp add: total_decoder_def)
qed

lemma decode_then_shrinking:
  assumes "shrinking dec" and "\<And>x. shrinking (f x)"
  shows "shrinking (decode_then dec f)"
  unfolding shrinking_def
proof (intro allI impI)
  fix buf y rest
  assume "decode_then dec f buf = Ok (y, rest)"
  then obtain x mid where "dec buf = Ok (x, mid)" and "f x mid = Ok (y, rest)"
    by (auto simp: decode_then_def and_then_Ok)
  with assms show "length rest \<le> length buf" unfolding shrinking_def by (meson order_trans)
qed

lemma decode_then_consuming:
  assumes "consuming dec" and "\<And>x. shrinking (f x)"
  shows "consuming (decode_then dec f)"
  unfolding consuming_def
proof (intro allI impI)
  fix buf y rest
  assume "decode_then dec f buf = Ok (y, rest)"
  then obtain x mid where "dec buf = Ok (x, mid)" and "f x mid = Ok (y, rest)"
    by (auto simp: decode_then_def and_then_Ok)
  with assms show "length rest < length buf"
    unfolding shrinking_def consuming_def by (meson order_le_less_trans)
qed

lemma decode_then_consuming_late:
  assumes "shrinking dec" and "\<And>x. consuming (f x)"
  shows "consuming (decode_then dec f)"
  unfolding consuming_def
proof (intro allI impI)
  fix buf y rest
  assume "decode_then dec f buf = Ok (y, rest)"
  then obtain x mid where "dec buf = Ok (x, mid)" and "f x mid = Ok (y, rest)"
    by (auto simp: decode_then_def and_then_Ok)
  with assms show "length rest < length buf"
    unfolding shrinking_def consuming_def by (meson order_less_le_trans)
qed

lemma prod_decoder:
  "(\<And>a b. total_decoder (f a b)) \<Longrightarrow> total_decoder (case_prod f p)"
  "(\<And>a b. shrinking (f a b)) \<Longrightarrow> shrinking (case_prod f p)"
  "(\<And>a b. consuming (f a b)) \<Longrightarrow> consuming (case_prod f p)"
  by (simp_all split: prod.split)

lemma consuming_shrinking: "consuming dec \<Longrightarrow> shrinking dec"
  unfolding consuming_def shrinking_def by (meson less_imp_le)

lemma return_decoder [simp]: "total_decoder (return_value x)" "shrinking (return_value x)"
  by (simp_all add: total_decoder_def shrinking_def return_value_def)

lemma fail_decoder [simp]: "total_decoder (fail_with e)" "shrinking (fail_with e)" "consuming (fail_with e)"
  by (simp_all add: total_decoder_def shrinking_def consuming_def fail_with_def)

lemma if_decoder:
  "total_decoder d \<Longrightarrow> total_decoder d' \<Longrightarrow> total_decoder (if b then d else d')"
  "shrinking d \<Longrightarrow> shrinking d' \<Longrightarrow> shrinking (if b then d else d')"
  "consuming d \<Longrightarrow> consuming d' \<Longrightarrow> consuming (if b then d else d')"
  by simp_all

text \<open>\<open>buf.len()\<close> at this point of a decoder.\<close>

definition with_len :: "(nat \<Rightarrow> 'a decoder) \<Rightarrow> 'a decoder" where
  "with_len f = (\<lambda>buf. f (length buf) buf)"

lemma with_len_apply [simp]: "with_len f buf = f (length buf) buf"
  by (simp add: with_len_def)

lemma with_len_decoder:
  "(\<And>n. total_decoder (f n)) \<Longrightarrow> total_decoder (with_len f)"
  "(\<And>n. shrinking (f n)) \<Longrightarrow> shrinking (with_len f)"
  "(\<And>n. consuming (f n)) \<Longrightarrow> consuming (with_len f)"
  by (simp_all add: total_decoder_def shrinking_def consuming_def with_len_def)

lemmas total_intros = decode_then_total with_len_decoder(1) if_decoder(1) prod_decoder(1)
  return_decoder(1) fail_decoder(1)

lemmas shrinking_intros = decode_then_shrinking with_len_decoder(2) if_decoder(2) prod_decoder(2)
  return_decoder(2) fail_decoder(2)

text \<open>
  The element loop \<open>while start - buf.len() < payload_length { items.push(T::decode(buf)?) }\<close>. Every
  element eats a byte, so the length of the buffer bounds the iterations; running out of fuel is
  written \<open>Panic\<close> and shown not to happen.
\<close>

fun decode_items :: "nat \<Rightarrow> 'a decoder \<Rightarrow> nat \<Rightarrow> nat \<Rightarrow> 'a list decoder" where
  "decode_items fuel dec start plen buf =
     (if start - length buf < plen then
        (case fuel of
           0 \<Rightarrow> Panic
         | Suc k \<Rightarrow>
             and_then (dec buf) (\<lambda>(x, rest).
             and_then (decode_items k dec start plen rest) (\<lambda>(xs, rest'). Ok (x # xs, rest'))))
      else Ok ([], buf))"

declare decode_items.simps [simp del]

definition decode_seq :: "'a decoder \<Rightarrow> nat \<Rightarrow> 'a list decoder" where
  "decode_seq dec plen = (\<lambda>buf. decode_items (Suc (length buf)) dec (length buf) plen buf)"

lemma decode_items_encoded:
  assumes "\<forall>x \<in> set xs. reads dec enc x \<and> enc x \<noteq> []"
    and "length xs \<le> fuel"
    and "start - (length (concat (map enc xs)) + length rest) + length (concat (map enc xs)) = plen"
    and "length (concat (map enc xs)) + length rest \<le> start"
  shows "decode_items fuel dec start plen (concat (map enc xs) @ rest) = Ok (xs, rest)"
  using assms
proof (induction xs arbitrary: fuel)
  case Nil
  then show ?case by (simp add: decode_items.simps)
next
  case (Cons x xs)
  obtain k where k: "fuel = Suc k" using Cons.prems(2) by (cases fuel) auto
  have len: "0 < length (enc x)" using Cons.prems(1) by simp
  have "length (concat (map enc (x # xs)) @ rest) =
      length (enc x) + length (concat (map enc xs)) + length rest"
    and "length (concat (map enc (x # xs))) = length (enc x) + length (concat (map enc xs))"
    by simp_all
  then have go: "start - length (concat (map enc (x # xs)) @ rest) < plen"
    using Cons.prems(3,4) len by linarith
  have "decode_items k dec start plen (concat (map enc xs) @ rest) = Ok (xs, rest)"
  proof (rule Cons.IH)
    show "start - (length (concat (map enc xs)) + length rest) + length (concat (map enc xs)) = plen"
      using Cons.prems(3,4) by simp
  qed (use Cons.prems k in simp_all)
  moreover have "dec (enc x @ concat (map enc xs) @ rest) = Ok (x, concat (map enc xs) @ rest)"
    using Cons.prems(1) by (simp add: reads_def)
  ultimately show ?case
    using go k by (subst decode_items.simps) simp
qed

lemma length_concat_nonempty: "\<forall>x \<in> set xs. enc x \<noteq> [] \<Longrightarrow> length xs \<le> length (concat (map enc xs))"
proof (induction xs)
  case (Cons x xs)
  then have "0 < length (enc x)" by simp
  with Cons show ?case by (simp del: length_greater_0_conv)
qed simp

lemma decode_seq_encoded:
  assumes "\<forall>x \<in> set xs. reads dec enc x \<and> enc x \<noteq> []"
    and "plen = length (concat (map enc xs))"
  shows "decode_seq dec plen (concat (map enc xs) @ rest) = Ok (xs, rest)"
  unfolding decode_seq_def
  using assms length_concat_nonempty [of xs enc] by (intro decode_items_encoded) auto

lemma decode_items_total:
  assumes "total_decoder dec" and "consuming dec"
  shows "length buf < fuel \<Longrightarrow> decode_items fuel dec start plen buf \<noteq> Panic"
proof (induction fuel arbitrary: buf)
  case (Suc k)
  show ?case
  proof (cases "dec buf")
    case (Ok p)
    obtain x rest where p: "p = (x, rest)" by fastforce
    then have "length rest < k" using Suc.prems Ok assms(2) unfolding consuming_def
      by (metis less_Suc_eq_le order_less_le_trans)
    from Suc.IH [OF this] show ?thesis using Ok p
      by (subst decode_items.simps) (cases "decode_items k dec start plen rest"; auto)
  next
    case (Err e)
    then show ?thesis by (subst decode_items.simps) simp
  next
    case Panic
    then show ?thesis using assms(1) by (simp add: total_decoder_def)
  qed
qed simp

lemma decode_items_shrinking:
  assumes "shrinking dec"
  shows "decode_items fuel dec start plen buf = Ok (xs, rest) \<Longrightarrow> length rest \<le> length buf"
proof (induction fuel arbitrary: buf xs)
  case 0
  then show ?case by (subst (asm) decode_items.simps) (auto split: if_splits)
next
  case (Suc k)
  from Suc.prems show ?case
    by (subst (asm) decode_items.simps)
      (use assms Suc.IH in \<open>fastforce simp: and_then_Ok shrinking_def split: if_splits\<close>)
qed

lemma decode_seq_decoder:
  "total_decoder dec \<Longrightarrow> consuming dec \<Longrightarrow> total_decoder (decode_seq dec n)"
  "shrinking dec \<Longrightarrow> shrinking (decode_seq dec n)"
proof -
  show "total_decoder (decode_seq dec n)" if "total_decoder dec" "consuming dec"
    unfolding total_decoder_def decode_seq_def using decode_items_total [OF that] by blast
  show "shrinking (decode_seq dec n)" if "shrinking dec"
    unfolding shrinking_def decode_seq_def using decode_items_shrinking [OF that] by blast
qed

subsection \<open>Field codecs of the repository\<close>

definition enc_h256 :: "rlp \<Rightarrow> h256 \<Rightarrow> byte list" where
  "enc_h256 R h = enc_str R (h256_bytes h)"

definition len_h256 :: "rlp \<Rightarrow> h256 \<Rightarrow> nat" where
  "len_h256 R h = len_str R (h256_bytes h)"

definition dec_h256 :: "rlp \<Rightarrow> h256 decoder" where
  "dec_h256 R = decode_then (dec_bytes R) (\<lambda>bytes.
     if length bytes \<noteq> 32 then fail_with UnexpectedLength else return_value (from_be_bytes bytes))"

definition enc_address :: "rlp \<Rightarrow> address \<Rightarrow> byte list" where
  "enc_address R a = enc_str R (address_bytes a)"

definition len_address :: "rlp \<Rightarrow> address \<Rightarrow> nat" where
  "len_address R a = len_str R (address_bytes a)"

definition dec_address :: "rlp \<Rightarrow> address decoder" where
  "dec_address R = decode_then (dec_bytes R) (\<lambda>bytes.
     if length bytes \<noteq> 20 then fail_with UnexpectedLength else return_value (from_be_bytes bytes))"

definition strip_zeros :: "byte list \<Rightarrow> byte list" where
  "strip_zeros bytes = dropWhile (\<lambda>b. b = 0) bytes"

definition u256_length :: "rlp \<Rightarrow> u256 \<Rightarrow> nat" where
  "u256_length R v = len_str R (strip_zeros (to_be_bytes 32 v))"

definition encode_u256 :: "rlp \<Rightarrow> u256 \<Rightarrow> byte list" where
  "encode_u256 R v = enc_str R (strip_zeros (to_be_bytes 32 v))"

definition left_pad :: "nat \<Rightarrow> byte list \<Rightarrow> byte list" where
  "left_pad n bytes = replicate (n - length bytes) 0 @ bytes"

definition decode_u256 :: "rlp \<Rightarrow> u256 decoder" where
  "decode_u256 R = decode_then (dec_bytes R) (\<lambda>v.
     if length v > 32 then fail_with UnexpectedLength
     else return_value (from_be_bytes (left_pad 32 v)))"

definition encoded_to_length :: "rlp \<Rightarrow> address option \<Rightarrow> nat" where
  "encoded_to_length R to = (case to of Some a \<Rightarrow> len_address R a | None \<Rightarrow> 1)"

definition encode_to :: "rlp \<Rightarrow> address option \<Rightarrow> byte list" where
  "encode_to R to = (case to of Some a \<Rightarrow> enc_address R a | None \<Rightarrow> [0x80])"

definition decode_to :: "rlp \<Rightarrow> address option decoder" where
  "decode_to R = decode_then (dec_bytes R) (\<lambda>b.
     if b = [] then return_value None
     else if length b \<noteq> 20 then fail_with UnexpectedLength
     else return_value (Some (from_be_bytes b)))"

definition decode_h256_loose :: "rlp \<Rightarrow> h256 decoder" where
  "decode_h256_loose R = decode_then (dec_bytes R) (\<lambda>b.
     if length b > 32 then fail_with UnexpectedLength
     else return_value (from_be_bytes (left_pad 32 b)))"

datatype algo_id =
    Secp256k1 | Ed25519 | Bls12_381 | MlDsa65 | SlhDsa128s | Falcon512 | HybridSecpMlDsa

primrec algo_as_byte :: "algo_id \<Rightarrow> u8" where
  "algo_as_byte Secp256k1 = 0x01"
| "algo_as_byte Ed25519 = 0x02"
| "algo_as_byte Bls12_381 = 0x03"
| "algo_as_byte MlDsa65 = 0x10"
| "algo_as_byte SlhDsa128s = 0x11"
| "algo_as_byte Falcon512 = 0x12"
| "algo_as_byte HybridSecpMlDsa = 0x20"

definition algo_from_byte :: "u8 \<Rightarrow> algo_id option" where
  "algo_from_byte b =
     (if b = 0x01 then Some Secp256k1
      else if b = 0x02 then Some Ed25519
      else if b = 0x03 then Some Bls12_381
      else if b = 0x10 then Some MlDsa65
      else if b = 0x11 then Some SlhDsa128s
      else if b = 0x12 then Some Falcon512
      else if b = 0x20 then Some HybridSecpMlDsa
      else None)"

lemma algo_from_as_byte [simp]: "algo_from_byte (algo_as_byte a) = Some a"
  by (cases a) (simp_all add: algo_from_byte_def)

lemma be_val_Cons_0: "be_val (0 # bs) = be_val bs"
  by (simp add: be_val_def)

lemma be_val_strip: "be_val (strip_zeros bs) = be_val bs"
  by (induction bs) (simp_all add: strip_zeros_def be_val_Cons_0)

lemma be_val_pad: "be_val (left_pad n bs) = be_val bs"
proof -
  have "be_val (replicate k 0 @ bs) = be_val bs" for k
    by (induction k) (simp_all add: be_val_Cons_0)
  then show ?thesis by (simp add: left_pad_def)
qed

lemma from_be_bytes_strip [simp]:
  "LENGTH('a) \<le> 8 * n \<Longrightarrow>
     from_be_bytes (left_pad k (strip_zeros (to_be_bytes n w))) = (w :: 'a::len word)"
proof -
  assume len: "LENGTH('a) \<le> 8 * n"
  have "be_val (left_pad k (strip_zeros (to_be_bytes n w))) = be_val (to_be_bytes n w)"
    by (simp only: be_val_strip be_val_pad)
  then have "(from_be_bytes (left_pad k (strip_zeros (to_be_bytes n w))) :: 'a word)
      = from_be_bytes (to_be_bytes n w)"
    by (simp only: from_be_bytes_def)
  with len show ?thesis by simp
qed

lemma length_strip: "length (strip_zeros bs) \<le> length bs"
  by (simp add: strip_zeros_def length_dropWhile_le)

lemma length_strip_32 [simp]: "length (strip_zeros (to_be_bytes n w)) \<le> n"
  using length_strip [of "to_be_bytes n w"] by simp

lemma left_pad_full [simp]: "length bs = n \<Longrightarrow> left_pad n bs = bs"
  by (simp add: left_pad_def)

subsection \<open>Reading fields back\<close>

lemma rlp_field_reads:
  assumes "rlp_encodes R"
  shows "length bs < 2 ^ 64 \<Longrightarrow> reads (dec_bytes R) (enc_str R) bs"
    and "reads (dec_u64 R) (enc_u64 R) w" and "reads (dec_u8 R) (enc_u8 R) b"
    and "reads (dec_bool R) (enc_bool R) c"
    and "reads (dec_h256 R) (enc_h256 R) h" and "reads (dec_address R) (enc_address R) a"
    and "reads (decode_u256 R) (encode_u256 R) v" and "reads (decode_to R) (encode_to R) to"
    and "reads (decode_h256_loose R) (enc_h256 R) h"
    and "reads (dec_withdrawal R) (enc_withdrawal R) wd"
proof -
  show str: "length bs < 2 ^ 64 \<Longrightarrow> reads (dec_bytes R) (enc_str R) bs" for bs
    using assms by (simp add: rlp_encodes_def rlp_round_trips_def)
  show "reads (dec_u64 R) (enc_u64 R) w" "reads (dec_u8 R) (enc_u8 R) b"
      "reads (dec_bool R) (enc_bool R) c" "reads (dec_withdrawal R) (enc_withdrawal R) wd"
    using assms by (simp_all add: rlp_encodes_def rlp_round_trips_def)
  have small: "decode_then (dec_bytes R) f (enc_str R bs @ rest) = f bs rest"
    if "length bs \<le> 32" for bs rest and f :: "byte list \<Rightarrow> 'x decoder"
    using that by (intro decode_then_reads str) simp
  show "reads (dec_h256 R) (enc_h256 R) h" "reads (dec_address R) (enc_address R) a"
      "reads (decode_h256_loose R) (enc_h256 R) h"
    by (simp_all add: reads_def dec_h256_def enc_h256_def dec_address_def enc_address_def
        decode_h256_loose_def small)
  have "\<not> 32 < length (strip_zeros (to_be_bytes 32 v))" by (simp add: not_less)
  then show "reads (decode_u256 R) (encode_u256 R) v"
    by (simp add: reads_def decode_u256_def encode_u256_def small)
  have "enc_str R [] = [0x80]" using assms by (simp add: rlp_encodes_def rlp_shapes_def)
  then have "decode_then (dec_bytes R) f (0x80 # rest) = f [] rest"
    for f :: "byte list \<Rightarrow> address option decoder" and rest
    using small [of "[]" f rest] by simp
  moreover have "to_be_bytes 20 a \<noteq> []" for a :: address
    using length_to_be_bytes [of 20 a] by fastforce
  ultimately show "reads (decode_to R) (encode_to R) to"
    by (cases to) (simp_all add: reads_def decode_to_def encode_to_def enc_address_def small)
qed

lemmas rlp_reads = rlp_field_reads [THEN decode_then_reads]

lemma rlp_header_read:
  "rlp_encodes R \<Longrightarrow> n < 2 ^ 64 \<Longrightarrow> n \<le> length rest \<Longrightarrow>
     decode_then (dec_header R) f (enc_list_header R n @ rest) = f (True, n) rest"
  by (simp add: rlp_encodes_def rlp_round_trips_def decode_then_def)

lemma rlp_length_simps:
  assumes "rlp_encodes R"
  shows "length_of_length R n = length (enc_list_header R n)" and "len_str R bs = length (enc_str R bs)"
    and "len_u64 R w = length (enc_u64 R w)" and "len_u8 R b = length (enc_u8 R b)"
    and "len_bool R c = length (enc_bool R c)" and "len_h256 R h = length (enc_h256 R h)"
    and "len_address R a = length (enc_address R a)" and "u256_length R v = length (encode_u256 R v)"
    and "encoded_to_length R to = length (encode_to R to)"
    and "len_access R al = length (enc_access R al)" and "len_withdrawal R wd = length (enc_withdrawal R wd)"
    and "len_log R l = length (enc_log R l)"
  using assms
  by (simp_all add: rlp_encodes_def rlp_lengths_def len_h256_def enc_h256_def len_address_def
      enc_address_def u256_length_def encode_u256_def encoded_to_length_def encode_to_def
      split: option.splits)

lemma rlp_field_decoders:
  assumes "rlp_total R"
  shows "total_decoder (dec_h256 R)" "consuming (dec_h256 R)"
    "total_decoder (dec_address R)" "consuming (dec_address R)"
    "total_decoder (decode_u256 R)" "consuming (decode_u256 R)"
    "total_decoder (decode_to R)" "consuming (decode_to R)"
    "total_decoder (decode_h256_loose R)" "consuming (decode_h256_loose R)"
  using assms
  by (auto simp: rlp_total_def dec_h256_def dec_address_def decode_u256_def decode_to_def
      decode_h256_loose_def intro!: decode_then_total decode_then_consuming)

lemma rlp_decoders:
  assumes "rlp_total R"
  shows "total_decoder (dec_header R)" "shrinking (dec_header R)"
    "total_decoder (dec_bytes R)" "consuming (dec_bytes R)"
    "total_decoder (dec_u64 R)" "consuming (dec_u64 R)"
    "total_decoder (dec_u8 R)" "consuming (dec_u8 R)"
    "total_decoder (dec_bool R)" "consuming (dec_bool R)"
    "total_decoder (dec_access R)" "consuming (dec_access R)"
    "total_decoder (dec_withdrawal R)" "consuming (dec_withdrawal R)"
    "total_decoder (dec_log R)" "consuming (dec_log R)"
  using assms by (simp_all add: rlp_total_def)

lemmas field_decoders = rlp_decoders rlp_field_decoders

lemmas field_shrinking = field_decoders(4,6,8,10,12,14,16,18,20,22,24,26) [THEN consuming_shrinking]

subsection \<open>Stream codecs\<close>

text \<open>
  The interface of a type with \<open>Encodable\<close> and \<open>Decodable\<close>: on the values it can represent, the
  decoder reads back what the encoder wrote and leaves the rest of the buffer. Such an encoding is
  uniquely decodable even when something follows it.
\<close>

locale stream_codec =
  fixes law :: "'p \<Rightarrow> bool"
    and fits :: "'p \<Rightarrow> 'm \<Rightarrow> bool"
    and enc :: "'p \<Rightarrow> 'm \<Rightarrow> byte list"
    and dec :: "'p \<Rightarrow> 'm decoder"
  assumes dec_reads: "law p \<Longrightarrow> fits p m \<Longrightarrow> reads (dec p) (enc p) m"
begin

lemma prefix_free:
  assumes "law p" and "fits p m" and "fits p m'" and "enc p m @ rest = enc p m' @ rest'"
  shows "m = m' \<and> rest = rest'"
proof -
  have "Ok (m, rest) = dec p (enc p m @ rest)" using dec_reads [OF assms(1,2)] by (simp add: reads_def)
  also have "\<dots> = Ok (m', rest')" using dec_reads [OF assms(1,3)] assms(4) by (simp add: reads_def)
  finally show ?thesis by simp
qed

lemma enc_inject:
  assumes "law p" and "fits p m" and "fits p m'" and "enc p m = enc p m'"
  shows "m = m'"
  using prefix_free [OF assms(1,2,3), of "[]" "[]"] assms(4) by simp

text \<open>A hash that does not collide on two encodings tells the values apart.\<close>

lemma hash_binds:
  fixes hash :: "byte list \<Rightarrow> 'h"
  assumes "law p" and "fits p m" and "fits p m'" and "inj_on hash {enc p m, enc p m'}"
  shows "hash (enc p m) = hash (enc p m') \<longleftrightarrow> m = m'"
  using enc_inject [OF assms(1-3)] assms(4) by (auto simp: inj_on_def)

end

end
