(* ===== verification/Tx.thy ===== *)
theory Tx
  imports Rlp
begin

section \<open>Transactions\<close>

text \<open>
  \<open>aii-block/src/tx\<close>: the three transaction bodies, the EIP-2718 envelope, their encoders with the
  separately computed payload lengths, and their decoders. The decoders thread the remaining buffer;
  \<open>with_len\<close> is the source's \<open>buf.len()\<close>.
\<close>

record tx_legacy =
  nonce :: u64
  gas_price :: u256
  gas_limit :: u64
  to_addr :: "address option"
  tx_value :: u256
  tx_data :: "byte list"
  tx_v :: u64
  tx_r :: h256
  tx_s :: h256
  algo :: algo_id

record tx_eip1559 =
  chain_id :: u64
  nonce_1559 :: u64
  max_priority_fee_per_gas :: u256
  max_fee_per_gas :: u256
  gas_limit_1559 :: u64
  to_1559 :: "address option"
  value_1559 :: u256
  data_1559 :: "byte list"
  access_list :: "access_list_item list"
  v_1559 :: u8
  r_1559 :: h256
  s_1559 :: h256
  algo_1559 :: algo_id

record tx_eip4844 =
  chain_id_4844 :: u64
  nonce_4844 :: u64
  max_priority_fee_4844 :: u256
  max_fee_4844 :: u256
  gas_limit_4844 :: u64
  to_4844 :: address
  value_4844 :: u256
  data_4844 :: "byte list"
  access_list_4844 :: "access_list_item list"
  max_fee_per_blob_gas :: u256
  blob_versioned_hashes :: "h256 list"
  v_4844 :: u8
  r_4844 :: h256
  s_4844 :: h256
  algo_4844 :: algo_id

datatype tx = Legacy tx_legacy | Eip1559 tx_eip1559 | Eip4844 tx_eip4844

datatype tx_type = LegacyType | Eip1559Type | Eip4844Type

primrec tx_ty :: "tx \<Rightarrow> tx_type" where
  "tx_ty (Legacy _) = LegacyType"
| "tx_ty (Eip1559 _) = Eip1559Type"
| "tx_ty (Eip4844 _) = Eip4844Type"

text \<open>The optional trailing algorithm byte shared by the three bodies.\<close>

definition encode_algo :: "rlp \<Rightarrow> algo_id \<Rightarrow> byte list" where
  "encode_algo R a = (if a \<noteq> Secp256k1 then enc_u8 R (algo_as_byte a) else [])"

definition algo_length :: "rlp \<Rightarrow> algo_id \<Rightarrow> nat" where
  "algo_length R a = (if a \<noteq> Secp256k1 then len_u8 R (algo_as_byte a) else 0)"

definition decode_algo :: "rlp \<Rightarrow> nat \<Rightarrow> nat \<Rightarrow> algo_id decoder" where
  "decode_algo R started plen = with_len (\<lambda>cur.
     if started - cur < plen then
       decode_then (dec_u8 R) (\<lambda>b.
         case algo_from_byte b of
           Some a \<Rightarrow> return_value a
         | None \<Rightarrow> fail_with (Custom ''invalid algo_id''))
     else return_value Secp256k1)"

subsection \<open>legacy.rs\<close>

definition TxLegacy_payload_length :: "rlp \<Rightarrow> tx_legacy \<Rightarrow> nat" where
  "TxLegacy_payload_length R t =
     len_u64 R (nonce t) + u256_length R (gas_price t) + len_u64 R (gas_limit t) +
     encoded_to_length R (to_addr t) + u256_length R (tx_value t) + len_str R (tx_data t) +
     len_u64 R (tx_v t) + len_h256 R (tx_r t) + len_h256 R (tx_s t) + algo_length R (algo t)"

definition TxLegacy_encode :: "rlp \<Rightarrow> tx_legacy \<Rightarrow> byte list" where
  "TxLegacy_encode R t =
     enc_list_header R (TxLegacy_payload_length R t) @
     enc_u64 R (nonce t) @ encode_u256 R (gas_price t) @ enc_u64 R (gas_limit t) @
     encode_to R (to_addr t) @ encode_u256 R (tx_value t) @ enc_str R (tx_data t) @
     enc_u64 R (tx_v t) @ enc_h256 R (tx_r t) @ enc_h256 R (tx_s t) @ encode_algo R (algo t)"

definition TxLegacy_length :: "rlp \<Rightarrow> tx_legacy \<Rightarrow> nat" where
  "TxLegacy_length R t =
     length_of_length R (TxLegacy_payload_length R t) + TxLegacy_payload_length R t"

definition TxLegacy_decode :: "rlp \<Rightarrow> tx_legacy decoder" where
  "TxLegacy_decode R =
     decode_then (dec_header R) (\<lambda>(list, plen).
     if \<not> list then fail_with UnexpectedString
     else with_len (\<lambda>started.
       decode_then (dec_u64 R) (\<lambda>nonce.
       decode_then (decode_u256 R) (\<lambda>gas_price.
       decode_then (dec_u64 R) (\<lambda>gas_limit.
       decode_then (decode_to R) (\<lambda>to.
       decode_then (decode_u256 R) (\<lambda>value.
       decode_then (dec_bytes R) (\<lambda>data.
       decode_then (dec_u64 R) (\<lambda>v.
       decode_then (decode_h256_loose R) (\<lambda>r.
       decode_then (decode_h256_loose R) (\<lambda>s.
       decode_then (decode_algo R started plen) (\<lambda>a.
         return_value \<lparr>nonce = nonce, gas_price = gas_price, gas_limit = gas_limit, to_addr = to,
           tx_value = value, tx_data = data, tx_v = v, tx_r = r, tx_s = s, algo = a\<rparr>))))))))))))"

subsection \<open>eip1559.rs\<close>

definition access_list_length :: "rlp \<Rightarrow> access_list_item list \<Rightarrow> nat" where
  "access_list_length R al = (\<Sum>i\<leftarrow>al. len_access R i)"

definition TxEip1559_payload_length :: "rlp \<Rightarrow> tx_eip1559 \<Rightarrow> nat" where
  "TxEip1559_payload_length R t =
     (let access_list_inner = access_list_length R (access_list t);
          al = length_of_length R access_list_inner + access_list_inner
      in len_u64 R (chain_id t) + len_u64 R (nonce_1559 t) +
         u256_length R (max_priority_fee_per_gas t) + u256_length R (max_fee_per_gas t) +
         len_u64 R (gas_limit_1559 t) + encoded_to_length R (to_1559 t) +
         u256_length R (value_1559 t) + len_str R (data_1559 t) + al + len_u8 R (v_1559 t) +
         len_h256 R (r_1559 t) + len_h256 R (s_1559 t) + algo_length R (algo_1559 t))"

definition TxEip1559_encode :: "rlp \<Rightarrow> tx_eip1559 \<Rightarrow> byte list" where
  "TxEip1559_encode R t =
     enc_list_header R (TxEip1559_payload_length R t) @
     enc_u64 R (chain_id t) @ enc_u64 R (nonce_1559 t) @
     encode_u256 R (max_priority_fee_per_gas t) @ encode_u256 R (max_fee_per_gas t) @
     enc_u64 R (gas_limit_1559 t) @ encode_to R (to_1559 t) @ encode_u256 R (value_1559 t) @
     enc_str R (data_1559 t) @
     enc_list_header R (access_list_length R (access_list t)) @
     concat (map (enc_access R) (access_list t)) @
     enc_u8 R (v_1559 t) @ enc_h256 R (r_1559 t) @ enc_h256 R (s_1559 t) @
     encode_algo R (algo_1559 t)"

definition TxEip1559_length :: "rlp \<Rightarrow> tx_eip1559 \<Rightarrow> nat" where
  "TxEip1559_length R t =
     length_of_length R (TxEip1559_payload_length R t) + TxEip1559_payload_length R t"

definition TxEip1559_decode :: "rlp \<Rightarrow> tx_eip1559 decoder" where
  "TxEip1559_decode R =
     decode_then (dec_header R) (\<lambda>(list, plen).
     if \<not> list then fail_with UnexpectedString
     else with_len (\<lambda>started.
       decode_then (dec_u64 R) (\<lambda>chain_id.
       decode_then (dec_u64 R) (\<lambda>nonce.
       decode_then (decode_u256 R) (\<lambda>tip.
       decode_then (decode_u256 R) (\<lambda>fee.
       decode_then (dec_u64 R) (\<lambda>gas_limit.
       decode_then (decode_to R) (\<lambda>to.
       decode_then (decode_u256 R) (\<lambda>value.
       decode_then (dec_bytes R) (\<lambda>data.
       decode_then (dec_header R) (\<lambda>(al_list, al_plen).
       if \<not> al_list then fail_with UnexpectedString
       else
       decode_then (decode_seq (dec_access R) al_plen) (\<lambda>al.
       decode_then (dec_u8 R) (\<lambda>v.
       decode_then (decode_h256_loose R) (\<lambda>r.
       decode_then (decode_h256_loose R) (\<lambda>s.
       decode_then (decode_algo R started plen) (\<lambda>a.
         return_value \<lparr>chain_id = chain_id, nonce_1559 = nonce, max_priority_fee_per_gas = tip,
           max_fee_per_gas = fee, gas_limit_1559 = gas_limit, to_1559 = to, value_1559 = value,
           data_1559 = data, access_list = al, v_1559 = v, r_1559 = r, s_1559 = s,
           algo_1559 = a\<rparr>))))))))))))))))"

subsection \<open>eip4844.rs\<close>

definition blob_hashes_length :: "rlp \<Rightarrow> h256 list \<Rightarrow> nat" where
  "blob_hashes_length R hs = (\<Sum>h\<leftarrow>hs. len_h256 R h)"

definition TxEip4844_payload_length :: "rlp \<Rightarrow> tx_eip4844 \<Rightarrow> nat" where
  "TxEip4844_payload_length R t =
     (let al_inner = access_list_length R (access_list_4844 t);
          al = length_of_length R al_inner + al_inner;
          bvh_inner = blob_hashes_length R (blob_versioned_hashes t);
          bvh = length_of_length R bvh_inner + bvh_inner
      in len_u64 R (chain_id_4844 t) + len_u64 R (nonce_4844 t) +
         u256_length R (max_priority_fee_4844 t) + u256_length R (max_fee_4844 t) +
         len_u64 R (gas_limit_4844 t) + len_address R (to_4844 t) +
         u256_length R (value_4844 t) + len_str R (data_4844 t) + al +
         u256_length R (max_fee_per_blob_gas t) + bvh + len_u8 R (v_4844 t) +
         len_h256 R (r_4844 t) + len_h256 R (s_4844 t) + algo_length R (algo_4844 t))"

definition TxEip4844_encode :: "rlp \<Rightarrow> tx_eip4844 \<Rightarrow> byte list" where
  "TxEip4844_encode R t =
     enc_list_header R (TxEip4844_payload_length R t) @
     enc_u64 R (chain_id_4844 t) @ enc_u64 R (nonce_4844 t) @
     encode_u256 R (max_priority_fee_4844 t) @ encode_u256 R (max_fee_4844 t) @
     enc_u64 R (gas_limit_4844 t) @ enc_address R (to_4844 t) @ encode_u256 R (value_4844 t) @
     enc_str R (data_4844 t) @
     enc_list_header R (access_list_length R (access_list_4844 t)) @
     concat (map (enc_access R) (access_list_4844 t)) @
     encode_u256 R (max_fee_per_blob_gas t) @
     enc_list_header R (blob_hashes_length R (blob_versioned_hashes t)) @
     concat (map (enc_h256 R) (blob_versioned_hashes t)) @
     enc_u8 R (v_4844 t) @ enc_h256 R (r_4844 t) @ enc_h256 R (s_4844 t) @
     encode_algo R (algo_4844 t)"

definition TxEip4844_length :: "rlp \<Rightarrow> tx_eip4844 \<Rightarrow> nat" where
  "TxEip4844_length R t =
     length_of_length R (TxEip4844_payload_length R t) + TxEip4844_payload_length R t"

definition TxEip4844_decode :: "rlp \<Rightarrow> tx_eip4844 decoder" where
  "TxEip4844_decode R =
     decode_then (dec_header R) (\<lambda>(list, plen).
     if \<not> list then fail_with UnexpectedString
     else with_len (\<lambda>started.
       decode_then (dec_u64 R) (\<lambda>chain_id.
       decode_then (dec_u64 R) (\<lambda>nonce.
       decode_then (decode_u256 R) (\<lambda>tip.
       decode_then (decode_u256 R) (\<lambda>fee.
       decode_then (dec_u64 R) (\<lambda>gas_limit.
       decode_then (dec_address R) (\<lambda>to.
       decode_then (decode_u256 R) (\<lambda>value.
       decode_then (dec_bytes R) (\<lambda>data.
       decode_then (dec_header R) (\<lambda>(_, al_plen).
       decode_then (decode_seq (dec_access R) al_plen) (\<lambda>al.
       decode_then (decode_u256 R) (\<lambda>blob_fee.
       decode_then (dec_header R) (\<lambda>(_, bvh_plen).
       decode_then (decode_seq (decode_h256_loose R) bvh_plen) (\<lambda>bvh.
       decode_then (dec_u8 R) (\<lambda>v.
       decode_then (decode_h256_loose R) (\<lambda>r.
       decode_then (decode_h256_loose R) (\<lambda>s.
       decode_then (decode_algo R started plen) (\<lambda>a.
         return_value \<lparr>chain_id_4844 = chain_id, nonce_4844 = nonce, max_priority_fee_4844 = tip,
           max_fee_4844 = fee, gas_limit_4844 = gas_limit, to_4844 = to, value_4844 = value,
           data_4844 = data, access_list_4844 = al, max_fee_per_blob_gas = blob_fee,
           blob_versioned_hashes = bvh, v_4844 = v, r_4844 = r, s_4844 = s,
           algo_4844 = a\<rparr>)))))))))))))))))))"

subsection \<open>mod.rs: the envelope\<close>

primrec encode_2718 :: "rlp \<Rightarrow> tx \<Rightarrow> byte list" where
  "encode_2718 R (Legacy t) = TxLegacy_encode R t"
| "encode_2718 R (Eip1559 t) = [0x02] @ TxEip1559_encode R t"
| "encode_2718 R (Eip4844 t) = [0x03] @ TxEip4844_encode R t"

definition decode_2718 :: "rlp \<Rightarrow> tx decoder" where
  "decode_2718 R = (\<lambda>buf.
     case buf of
       [] \<Rightarrow> Err InputTooShort
     | first # rest \<Rightarrow>
         if first \<ge> 0xc0 then decode_then (TxLegacy_decode R) (\<lambda>t. return_value (Legacy t)) buf
         else if first = 0x02 then decode_then (TxEip1559_decode R) (\<lambda>t. return_value (Eip1559 t)) rest
         else if first = 0x03 then decode_then (TxEip4844_decode R) (\<lambda>t. return_value (Eip4844 t)) rest
         else Err (Custom ''unknown EIP-2718 type byte''))"

primrec Tx_encode :: "rlp \<Rightarrow> tx \<Rightarrow> byte list" where
  "Tx_encode R (Legacy t) = TxLegacy_encode R t"
| "Tx_encode R (Eip1559 t) = enc_str R ([0x02] @ TxEip1559_encode R t)"
| "Tx_encode R (Eip4844 t) = enc_str R ([0x03] @ TxEip4844_encode R t)"

primrec Tx_length :: "rlp \<Rightarrow> tx \<Rightarrow> nat" where
  "Tx_length R (Legacy t) = TxLegacy_length R t"
| "Tx_length R (Eip1559 t) =
     (let inner = 1 + TxEip1559_length R t in inner + length_of_length R inner)"
| "Tx_length R (Eip4844 t) =
     (let inner = 1 + TxEip4844_length R t in inner + length_of_length R inner)"

text \<open>The inner payload of a typed transaction is decoded from its own buffer and the rest of it dropped.\<close>

definition Tx_decode :: "rlp \<Rightarrow> tx decoder" where
  "Tx_decode R = (\<lambda>buf.
     case buf of
       [] \<Rightarrow> Err InputTooShort
     | first # _ \<Rightarrow>
         if first \<ge> 0xc0 then decode_then (TxLegacy_decode R) (\<lambda>t. return_value (Legacy t)) buf
         else decode_then (dec_bytes R) (\<lambda>payload rest.
           if payload = [] then Err InputTooShort
           else and_then (decode_2718 R payload) (\<lambda>(t, _). Ok (t, rest))) buf)"

definition Tx_hash :: "crypto \<Rightarrow> rlp \<Rightarrow> tx \<Rightarrow> h256" where
  "Tx_hash C R t = keccak256 C (encode_2718 R t)"

subsection \<open>Lengths\<close>

lemma str_bound: "rlp_encodes R \<Longrightarrow> length s \<le> length (enc_str R s)"
  by (simp add: rlp_encodes_def rlp_shapes_def)

lemma enc_u8_nonempty: "rlp_encodes R \<Longrightarrow> enc_u8 R b \<noteq> []"
  unfolding rlp_encodes_def rlp_shapes_def by (metis atLeastAtMost_iff list.size(3) not_one_le_zero)

lemma length_concat_map: "length (concat (map f xs)) = (\<Sum>x\<leftarrow>xs. length (f x))"
  by (simp add: length_concat comp_def)

lemma element_length_le: "x \<in> set xs \<Longrightarrow> length (f x) \<le> length (concat (map f xs))"
  by (induction xs) auto

lemma algo_length_simp: "rlp_encodes R \<Longrightarrow> algo_length R a = length (encode_algo R a)"
  by (simp add: algo_length_def encode_algo_def rlp_length_simps)

lemma list_lengths:
  assumes "rlp_encodes R"
  shows "access_list_length R al = length (concat (map (enc_access R) al))"
    and "blob_hashes_length R hs = length (concat (map (enc_h256 R) hs))"
  unfolding length_concat_map
  by (simp_all add: access_list_length_def blob_hashes_length_def rlp_length_simps [OF assms])

lemmas tx_length_simps = rlp_length_simps algo_length_simp list_lengths

lemma decode_algo_read:
  assumes "rlp_encodes R"
    and "started - (length (encode_algo R a) + length rest) + length (encode_algo R a) = plen"
    and "length (encode_algo R a) + length rest \<le> started"
  shows "decode_then (decode_algo R started plen) f (encode_algo R a @ rest) = f a rest"
proof (cases "a = Secp256k1")
  case True
  then show ?thesis using assms(2,3)
    by (simp add: decode_algo_def encode_algo_def decode_then_def)
next
  case False
  then have "0 < length (enc_u8 R (algo_as_byte a))" using enc_u8_nonempty [OF assms(1)] by simp
  moreover have e: "encode_algo R a = enc_u8 R (algo_as_byte a)" using False by (simp add: encode_algo_def)
  ultimately have "started - (length (enc_u8 R (algo_as_byte a)) + length rest) < plen"
    using assms(2,3) unfolding e by linarith
  then have "decode_algo R started plen (enc_u8 R (algo_as_byte a) @ rest) = Ok (a, rest)"
    by (simp add: decode_algo_def rlp_reads(3) [OF assms(1)])
  with False show ?thesis by (simp add: encode_algo_def decode_then_def)
qed

lemma decode_seq_read:
  assumes "\<forall>x \<in> set xs. reads dec enc x \<and> enc x \<noteq> []"
  shows "decode_then (decode_seq dec (length (concat (map enc xs)))) f (concat (map enc xs) @ rest) = f xs rest"
  using decode_seq_encoded [OF assms refl] by (simp add: decode_then_def)

lemma access_list_read:
  assumes "rlp_encodes R" and "length (concat (map (enc_access R) al)) < 2 ^ 64"
  shows "decode_then (decode_seq (dec_access R) (length (concat (map (enc_access R) al)))) f
    (concat (map (enc_access R) al) @ rest) = f al rest"
proof (rule decode_seq_read)
  show "\<forall>x \<in> set al. reads (dec_access R) (enc_access R) x \<and> enc_access R x \<noteq> []"
    using assms element_length_le [of _ al "enc_access R"]
    unfolding rlp_encodes_def rlp_round_trips_def rlp_shapes_def by (meson order_le_less_trans)
qed

lemma enc_h256_nonempty: "rlp_encodes R \<Longrightarrow> enc_h256 R h \<noteq> []"
  unfolding rlp_encodes_def rlp_shapes_def enc_h256_def by (metis list.discI)

lemma blob_hashes_read:
  assumes "rlp_encodes R"
  shows "decode_then (decode_seq (decode_h256_loose R) (length (concat (map (enc_h256 R) hs)))) f
    (concat (map (enc_h256 R) hs) @ rest) = f hs rest"
  using rlp_field_reads(9) [OF assms] enc_h256_nonempty [OF assms] by (intro decode_seq_read) simp

subsection \<open>Round trips of the bodies\<close>

lemma TxLegacy_reads:
  assumes R: "rlp_encodes R" and small: "TxLegacy_payload_length R t < 2 ^ 64"
  shows "reads (TxLegacy_decode R) (TxLegacy_encode R) t"
  unfolding reads_def
proof
  fix rest
  have data: "length (tx_data t) < 2 ^ 64"
    using small str_bound [OF R, of "tx_data t"]
    by (simp add: TxLegacy_payload_length_def tx_length_simps [OF R])
  show "TxLegacy_decode R (TxLegacy_encode R t @ rest) = Ok (t, rest)"
    using small data
    unfolding TxLegacy_decode_def TxLegacy_encode_def TxLegacy_payload_length_def
    by (simp add: tx_length_simps [OF R] rlp_header_read [OF R] rlp_reads [OF R]
        decode_algo_read [OF R])
qed

lemma TxEip1559_reads:
  assumes R: "rlp_encodes R" and small: "TxEip1559_payload_length R t < 2 ^ 64"
  shows "reads (TxEip1559_decode R) (TxEip1559_encode R) t"
  unfolding reads_def
proof
  fix rest
  let ?al = "length (concat (map (enc_access R) (access_list t)))"
  have data: "length (data_1559 t) < 2 ^ 64" and al: "?al < 2 ^ 64"
    using small str_bound [OF R, of "data_1559 t"]
    by (simp_all add: TxEip1559_payload_length_def tx_length_simps [OF R] Let_def)
  show "TxEip1559_decode R (TxEip1559_encode R t @ rest) = Ok (t, rest)"
    using small al data
    unfolding TxEip1559_decode_def TxEip1559_encode_def TxEip1559_payload_length_def Let_def
    by (simp add: tx_length_simps [OF R] rlp_header_read [OF R] rlp_reads [OF R]
        decode_algo_read [OF R] access_list_read [OF R])
qed

lemma TxEip4844_reads:
  assumes R: "rlp_encodes R" and small: "TxEip4844_payload_length R t < 2 ^ 64"
  shows "reads (TxEip4844_decode R) (TxEip4844_encode R) t"
  unfolding reads_def
proof
  fix rest
  let ?al = "length (concat (map (enc_access R) (access_list_4844 t)))"
  let ?bvh = "length (concat (map (enc_h256 R) (blob_versioned_hashes t)))"
  have data: "length (data_4844 t) < 2 ^ 64" and al: "?al < 2 ^ 64" and bvh: "?bvh < 2 ^ 64"
    using small str_bound [OF R, of "data_4844 t"]
    by (simp_all add: TxEip4844_payload_length_def tx_length_simps [OF R] Let_def)
  show "TxEip4844_decode R (TxEip4844_encode R t @ rest) = Ok (t, rest)"
    using small al bvh data
    unfolding TxEip4844_decode_def TxEip4844_encode_def TxEip4844_payload_length_def Let_def
    by (simp add: tx_length_simps [OF R] rlp_header_read [OF R] rlp_reads [OF R]
        decode_algo_read [OF R] access_list_read [OF R] blob_hashes_read [OF R])
qed

lemma body_lengths:
  assumes R: "rlp_encodes R"
  shows "length (TxLegacy_encode R t) = TxLegacy_length R t"
    and "length (TxEip1559_encode R u) = TxEip1559_length R u"
    and "length (TxEip4844_encode R w) = TxEip4844_length R w"
  unfolding TxLegacy_length_def TxEip1559_length_def TxEip4844_length_def TxLegacy_encode_def
    TxEip1559_encode_def TxEip4844_encode_def TxLegacy_payload_length_def TxEip1559_payload_length_def
    TxEip4844_payload_length_def Let_def
  by (simp_all add: tx_length_simps [OF R])

subsection \<open>Round trips of the envelope\<close>

text \<open>Encodings that fit in memory: every \<open>usize\<close> length is below \<open>2 ^ 64\<close>.\<close>

definition tx_sized :: "rlp \<Rightarrow> tx \<Rightarrow> bool" where
  "tx_sized R t \<longleftrightarrow> length (encode_2718 R t) < 2 ^ 64"

lemma list_header_first:
  "rlp_encodes R \<Longrightarrow> \<exists>b bs. enc_list_header R n = b # bs \<and> 0xc0 \<le> b"
  unfolding rlp_encodes_def rlp_shapes_def by blast

lemma str_first: "rlp_encodes R \<Longrightarrow> \<exists>b bs. enc_str R s = b # bs \<and> b < 0xc0"
  unfolding rlp_encodes_def rlp_shapes_def by blast

lemma legacy_first: "rlp_encodes R \<Longrightarrow> \<exists>b bs. TxLegacy_encode R t = b # bs \<and> 0xc0 \<le> b"
  using list_header_first [of R "TxLegacy_payload_length R t"] by (auto simp: TxLegacy_encode_def)

lemma sized_payload:
  assumes "rlp_encodes R" and "tx_sized R t"
  shows "t = Legacy a \<Longrightarrow> TxLegacy_payload_length R a < 2 ^ 64"
    and "t = Eip1559 b \<Longrightarrow> TxEip1559_payload_length R b < 2 ^ 64"
    and "t = Eip4844 c \<Longrightarrow> TxEip4844_payload_length R c < 2 ^ 64"
  using assms body_lengths [OF assms(1)]
  by (auto simp: tx_sized_def TxLegacy_length_def TxEip1559_length_def TxEip4844_length_def)

lemma encode_2718_reads:
  assumes R: "rlp_encodes R" and sized: "tx_sized R t"
  shows "reads (decode_2718 R) (encode_2718 R) t"
  unfolding reads_def
proof
  fix rest
  show "decode_2718 R (encode_2718 R t @ rest) = Ok (t, rest)"
  proof (cases t)
    case (Legacy a)
    obtain b bs where b: "TxLegacy_encode R a = b # bs" "0xc0 \<le> b" using legacy_first [OF R] by blast
    have "decode_then (TxLegacy_decode R) (\<lambda>t. return_value (Legacy t)) (TxLegacy_encode R a @ rest)
        = Ok (Legacy a, rest)"
      by (simp add: decode_then_reads [OF TxLegacy_reads [OF R sized_payload(1) [OF R sized Legacy]]])
    with b Legacy show ?thesis by (simp add: decode_2718_def)
  next
    case (Eip1559 a)
    have "decode_then (TxEip1559_decode R) (\<lambda>t. return_value (Eip1559 t)) (TxEip1559_encode R a @ rest)
        = Ok (Eip1559 a, rest)"
      by (simp add: decode_then_reads [OF TxEip1559_reads [OF R sized_payload(2) [OF R sized Eip1559]]])
    with Eip1559 show ?thesis by (simp add: decode_2718_def)
  next
    case (Eip4844 a)
    have "decode_then (TxEip4844_decode R) (\<lambda>t. return_value (Eip4844 t)) (TxEip4844_encode R a @ rest)
        = Ok (Eip4844 a, rest)"
      by (simp add: decode_then_reads [OF TxEip4844_reads [OF R sized_payload(3) [OF R sized Eip4844]]])
    with Eip4844 show ?thesis by (simp add: decode_2718_def)
  qed
qed

lemma Tx_reads:
  assumes R: "rlp_encodes R" and sized: "tx_sized R t"
  shows "reads (Tx_decode R) (Tx_encode R) t"
  unfolding reads_def
proof
  fix rest
  have typed: "Tx_decode R (enc_str R (encode_2718 R t) @ rest) = Ok (t, rest)"
    if "encode_2718 R t \<noteq> []"
  proof -
    obtain b bs where b: "enc_str R (encode_2718 R t) = b # bs" "b < 0xc0" using str_first [OF R] by blast
    then have "Tx_decode R (enc_str R (encode_2718 R t) @ rest) =
        decode_then (dec_bytes R) (\<lambda>payload rest.
           if payload = [] then Err InputTooShort
           else and_then (decode_2718 R payload) (\<lambda>(t, _). Ok (t, rest)))
          (enc_str R (encode_2718 R t) @ rest)"
      by (simp add: Tx_decode_def not_le [symmetric])
    also have "\<dots> = Ok (t, rest)"
      using sized that encode_2718_reads [OF R sized, unfolded reads_def, THEN spec, of "[]"]
      by (simp add: rlp_reads(1) [OF R] tx_sized_def)
    finally show ?thesis .
  qed
  show "Tx_decode R (Tx_encode R t @ rest) = Ok (t, rest)"
  proof (cases t)
    case (Legacy a)
    obtain b bs where b: "TxLegacy_encode R a = b # bs" "0xc0 \<le> b" using legacy_first [OF R] by blast
    have "decode_then (TxLegacy_decode R) (\<lambda>t. return_value (Legacy t)) (TxLegacy_encode R a @ rest)
        = Ok (Legacy a, rest)"
      by (simp add: decode_then_reads [OF TxLegacy_reads [OF R sized_payload(1) [OF R sized Legacy]]])
    with b Legacy show ?thesis by (simp add: Tx_decode_def)
  qed (use typed in simp_all)
qed

lemma Tx_length_encode:
  assumes R: "rlp_encodes R"
  shows "length (Tx_encode R t) = Tx_length R t"
proof -
  have str: "length (enc_str R bs) = length bs + length_of_length R (length bs)" if "2 \<le> length bs" for bs
    using R that unfolding rlp_encodes_def rlp_lengths_def by blast
  have "enc_list_header R n \<noteq> []" for n using list_header_first [OF R, of n] by auto
  then have "TxEip1559_encode R a \<noteq> []" "TxEip4844_encode R b \<noteq> []" for a b
    by (simp_all add: TxEip1559_encode_def TxEip4844_encode_def)
  then have "2 \<le> length (0x02 # TxEip1559_encode R a)" "2 \<le> length (0x03 # TxEip4844_encode R b)" for a b
    by (simp_all add: Suc_le_eq)
  with str show ?thesis
    by (cases t) (simp_all add: body_lengths [OF R] Let_def)
qed

lemma Tx_encode_nonempty: "rlp_encodes R \<Longrightarrow> Tx_encode R t \<noteq> []"
  by (cases t) (metis Tx_encode.simps legacy_first str_first list.discI)+

subsection \<open>Totality\<close>

lemma decode_algo_decoder:
  assumes "rlp_total R"
  shows "total_decoder (decode_algo R s n)" and "shrinking (decode_algo R s n)"
proof -
  have parts: "total_decoder (case algo_from_byte b of Some a \<Rightarrow> return_value a
      | None \<Rightarrow> fail_with (Custom ''invalid algo_id''))"
    "shrinking (case algo_from_byte b of Some a \<Rightarrow> return_value a
      | None \<Rightarrow> fail_with (Custom ''invalid algo_id''))" for b
    by (simp_all split: option.split)
  show "total_decoder (decode_algo R s n)" "shrinking (decode_algo R s n)"
    unfolding decode_algo_def
    by (intro total_intros field_decoders assms parts)
      (intro shrinking_intros field_shrinking assms parts)
qed

lemma tx_body_total:
  assumes R: "rlp_total R"
  shows "total_decoder (TxLegacy_decode R)" and "total_decoder (TxEip1559_decode R)"
    and "total_decoder (TxEip4844_decode R)"
  unfolding TxLegacy_decode_def TxEip1559_decode_def TxEip4844_decode_def
  by (intro total_intros decode_seq_decoder(1) decode_algo_decoder(1) field_decoders R)+

lemma tx_body_shrinking:
  assumes R: "rlp_total R"
  shows "shrinking (TxLegacy_decode R)" and "shrinking (TxEip1559_decode R)"
    and "shrinking (TxEip4844_decode R)"
  unfolding TxLegacy_decode_def TxEip1559_decode_def TxEip4844_decode_def
  by (intro shrinking_intros decode_seq_decoder(2) decode_algo_decoder(2) field_shrinking
      field_decoders(2) R)+

lemma TxLegacy_consuming:
  assumes R: "rlp_total R"
  shows "consuming (TxLegacy_decode R)"
  unfolding TxLegacy_decode_def
  by (rule decode_then_consuming_late, rule field_decoders(2) [OF R], rule prod_decoder(3),
      rule if_decoder(3), rule fail_decoder(3), rule with_len_decoder(3), rule decode_then_consuming,
      rule field_decoders(6) [OF R])
    (intro shrinking_intros decode_algo_decoder(2) field_shrinking R)

lemma decode_2718_total: "rlp_total R \<Longrightarrow> total_decoder (decode_2718 R)"
proof -
  assume R: "rlp_total R"
  have "decode_2718 R buf \<noteq> Panic" for buf
    using decode_then_total [OF tx_body_total(1) [OF R] return_decoder(1), of Legacy]
      decode_then_total [OF tx_body_total(2) [OF R] return_decoder(1), of Eip1559]
      decode_then_total [OF tx_body_total(3) [OF R] return_decoder(1), of Eip4844]
    by (auto simp: decode_2718_def total_decoder_def split: list.split)
  then show ?thesis by (simp add: total_decoder_def)
qed

lemma Tx_decode_total:
  assumes R: "rlp_total R"
  shows "total_decoder (Tx_decode R)" and "consuming (Tx_decode R)"
proof -
  let ?leg = "decode_then (TxLegacy_decode R) (\<lambda>t. return_value (Legacy t))"
  let ?inner = "\<lambda>payload rest. if payload = [] then Err InputTooShort
           else and_then (decode_2718 R payload) (\<lambda>(t, _). Ok (t, rest))"
  have cases: "Tx_decode R buf =
      (case buf of [] \<Rightarrow> Err InputTooShort
       | b # _ \<Rightarrow> if 0xc0 \<le> b then ?leg buf else decode_then (dec_bytes R) ?inner buf)" for buf
    by (simp add: Tx_decode_def)
  have leg: "total_decoder ?leg" "consuming ?leg"
    by (intro decode_then_total tx_body_total R return_decoder)
      (intro decode_then_consuming TxLegacy_consuming R return_decoder)
  have inner: "total_decoder (?inner payload)" "shrinking (?inner payload)" for payload
    using decode_2718_total [OF R]
    by (cases "decode_2718 R payload"; auto simp: total_decoder_def shrinking_def)+
  have typed: "total_decoder (decode_then (dec_bytes R) ?inner)"
      "consuming (decode_then (dec_bytes R) ?inner)"
    by (rule decode_then_total [OF field_decoders(3) [OF R] inner(1)])
      (rule decode_then_consuming [OF field_decoders(4) [OF R] inner(2)])
  show "total_decoder (Tx_decode R)"
    using leg(1) typed(1) unfolding total_decoder_def cases by (simp split: list.split)
  show "consuming (Tx_decode R)"
    unfolding consuming_def
  proof (intro allI impI)
    fix buf x rest
    assume "Tx_decode R buf = Ok (x, rest)"
    then have "?leg buf = Ok (x, rest) \<or> decode_then (dec_bytes R) ?inner buf = Ok (x, rest)"
      unfolding cases by (cases buf) (auto split: if_splits)
    then show "length rest < length buf" using leg(2) typed(2) unfolding consuming_def by blast
  qed
qed

interpretation tx_envelope: stream_codec rlp_encodes tx_sized encode_2718 decode_2718
  by unfold_locales (rule encode_2718_reads)

interpretation tx_rlp: stream_codec rlp_encodes tx_sized Tx_encode Tx_decode
  by unfold_locales (rule Tx_reads)

end
