(* ===== verification/RlpFormat.thy ===== *)
theory RlpFormat
  imports Rlp
begin

section \<open>The RLP format satisfies the laws\<close>

text \<open>
  An implementation of the RLP format, and the proof that it satisfies the laws \<open>rlp_encodes\<close> and
  \<open>rlp_total\<close> under which the codecs of the repository are verified: the laws are those of the format
  itself, and the properties that assume them apply to it. It models no code of the repository; it
  accepts also the non-minimal headers that a strict decoder rejects.
\<close>

definition fmt_head :: "nat \<Rightarrow> nat \<Rightarrow> byte list" where
  "fmt_head base n =
     (if n < 56 then [word_of_nat (base + n)]
      else let l = strip_zeros (to_be_bytes 8 (word_of_nat n :: u64))
           in word_of_nat (base + 55 + length l) # l)"

definition fmt_str :: "byte list \<Rightarrow> byte list" where
  "fmt_str bs = (if length bs = 1 \<and> unat (hd bs) < 128 then bs else fmt_head 128 (length bs) @ bs)"

definition fmt_list :: "byte list \<Rightarrow> byte list" where
  "fmt_list p = fmt_head 192 (length p) @ p"

definition fmt_payload :: "bool \<Rightarrow> nat \<Rightarrow> (bool \<times> nat) decoder" where
  "fmt_payload list n = (\<lambda>buf. if length buf < n then Err InputTooShort else Ok ((list, n), buf))"

definition fmt_dec_header :: "(bool \<times> nat) decoder" where
  "fmt_dec_header buf =
     (case buf of
        [] \<Rightarrow> Err InputTooShort
      | b # t \<Rightarrow>
          let list = 192 \<le> unat b; k = unat b - (if list then 192 else 128) in
          if unat b < 128 then Ok ((False, 1), buf)
          else if k < 56 then fmt_payload list k t
          else if length t < k - 55 then Err InputTooShort
          else fmt_payload list (be_val (take (k - 55) t)) (drop (k - 55) t))"

definition fmt_dec_bytes :: "byte list decoder" where
  "fmt_dec_bytes = decode_then fmt_dec_header (\<lambda>(list, n) buf.
     if list then Err UnexpectedString
     else if length buf < n then Err InputTooShort else Ok (take n buf, drop n buf))"

definition fmt_uint :: "nat \<Rightarrow> 'a::len word \<Rightarrow> byte list" where
  "fmt_uint n w = fmt_str (strip_zeros (to_be_bytes n w))"

definition fmt_dec_uint :: "nat \<Rightarrow> 'a::len word decoder" where
  "fmt_dec_uint n = decode_then fmt_dec_bytes (\<lambda>bs.
     if n < length bs then fail_with UnexpectedLength else return_value (from_be_bytes (left_pad n bs)))"

definition fmt_fixed :: "nat \<Rightarrow> 'a::len word \<Rightarrow> byte list" where
  "fmt_fixed n w = fmt_str (to_be_bytes n w)"

definition fmt_dec_fixed :: "nat \<Rightarrow> 'a::len word decoder" where
  "fmt_dec_fixed n = decode_then fmt_dec_bytes (\<lambda>bs.
     if length bs \<noteq> n then fail_with UnexpectedLength else return_value (from_be_bytes bs))"

definition fmt_bool :: "bool \<Rightarrow> byte list" where
  "fmt_bool b = fmt_uint 1 (if b then 1 else 0 :: u8)"

definition fmt_dec_bool :: "bool decoder" where
  "fmt_dec_bool = decode_then (fmt_dec_uint 1) (\<lambda>b :: u8. return_value (b = 1))"

definition fmt_dec_list :: "(nat \<Rightarrow> 'a decoder) \<Rightarrow> 'a decoder" where
  "fmt_dec_list f = decode_then fmt_dec_header (\<lambda>(list, n).
     if list then f n else fail_with UnexpectedString)"

definition fmt_access :: "access_list_item \<Rightarrow> byte list" where
  "fmt_access a = fmt_list (fmt_fixed 20 (al_address a) @
     fmt_list (concat (map (fmt_fixed 32) (storage_keys a))))"

definition fmt_dec_access :: "access_list_item decoder" where
  "fmt_dec_access = fmt_dec_list (\<lambda>_.
     decode_then (fmt_dec_fixed 20) (\<lambda>a.
     decode_then (fmt_dec_list (decode_seq (fmt_dec_fixed 32))) (\<lambda>ks.
       return_value \<lparr>al_address = a, storage_keys = ks\<rparr>)))"

definition fmt_withdrawal :: "withdrawal \<Rightarrow> byte list" where
  "fmt_withdrawal w = fmt_list (fmt_uint 8 (w_index w) @ fmt_uint 8 (w_validator_index w) @
     fmt_fixed 20 (w_address w) @ fmt_uint 8 (w_amount w))"

definition fmt_dec_withdrawal :: "withdrawal decoder" where
  "fmt_dec_withdrawal = fmt_dec_list (\<lambda>_.
     decode_then (fmt_dec_uint 8) (\<lambda>i.
     decode_then (fmt_dec_uint 8) (\<lambda>v.
     decode_then (fmt_dec_fixed 20) (\<lambda>a.
     decode_then (fmt_dec_uint 8) (\<lambda>m.
       return_value \<lparr>w_index = i, w_validator_index = v, w_address = a, w_amount = m\<rparr>)))))"

definition fmt_log :: "log \<Rightarrow> byte list" where
  "fmt_log l = fmt_list (fmt_fixed 20 (log_address l) @
     fmt_list (concat (map (fmt_fixed 32) (topics l))) @ fmt_str (log_data l))"

definition fmt_dec_log :: "log decoder" where
  "fmt_dec_log = fmt_dec_list (\<lambda>_.
     decode_then (fmt_dec_fixed 20) (\<lambda>a.
     decode_then (fmt_dec_list (decode_seq (fmt_dec_fixed 32))) (\<lambda>ts.
     decode_then fmt_dec_bytes (\<lambda>d.
       return_value \<lparr>log_address = a, topics = ts, log_data = d\<rparr>))))"

definition rlp_format :: rlp where
  "rlp_format = \<lparr>
     enc_list_header = fmt_head 192, length_of_length = (\<lambda>n. length (fmt_head 192 n)),
     dec_header = fmt_dec_header,
     enc_str = fmt_str, len_str = (\<lambda>s. length (fmt_str s)), dec_bytes = fmt_dec_bytes,
     enc_u64 = fmt_uint 8, len_u64 = (\<lambda>w. length (fmt_uint 8 w)), dec_u64 = fmt_dec_uint 8,
     enc_u8 = fmt_uint 1, len_u8 = (\<lambda>w. length (fmt_uint 1 w)), dec_u8 = fmt_dec_uint 1,
     enc_bool = fmt_bool, len_bool = (\<lambda>b. length (fmt_bool b)), dec_bool = fmt_dec_bool,
     enc_access = fmt_access, len_access = (\<lambda>a. length (fmt_access a)), dec_access = fmt_dec_access,
     enc_withdrawal = fmt_withdrawal, len_withdrawal = (\<lambda>w. length (fmt_withdrawal w)),
     dec_withdrawal = fmt_dec_withdrawal,
     enc_log = fmt_log, len_log = (\<lambda>l. length (fmt_log l)), dec_log = fmt_dec_log,
     rlp_error_str = (\<lambda>_. ''rlp error'')\<rparr>"

subsection \<open>Reading back\<close>

lemma fmt_head_shape:
  assumes "base = 128 \<or> base = 192"
  shows "\<exists>b bs. fmt_head base n = b # bs \<and> base \<le> unat b \<and> unat b < base + 64 \<and> length bs \<le> 8"
proof -
  have l: "length (strip_zeros (to_be_bytes 8 (word_of_nat n :: u64))) \<le> 8" by (rule length_strip_32)
  have small: "unat (word_of_nat (base + k) :: byte) = base + k" if "k < 64" for k
    using assms that by (intro unat_word_of_nat_small) auto
  show ?thesis
  proof (cases "n < 56")
    case True
    with small [of n] show ?thesis by (simp add: fmt_head_def)
  next
    case False
    with small [of "55 + length (strip_zeros (to_be_bytes 8 (word_of_nat n :: u64)))"] l show ?thesis
      by (simp add: fmt_head_def Let_def add.assoc del: length_strip_32)
  qed
qed

lemma fmt_dec_header_byte:
  assumes "unat b = base + k" and "base = 128 \<or> base = 192" and "k < 64"
  shows "fmt_dec_header (b # t) =
    (if k < 56 then fmt_payload (base = 192) k t
     else if length t < k - 55 then Err InputTooShort
     else fmt_payload (base = 192) (be_val (take (k - 55) t)) (drop (k - 55) t))"
  using assms by (elim disjE) (simp_all add: fmt_dec_header_def Let_def)

lemma fmt_head_read:
  assumes base: "base = 128 \<or> base = 192" and n: "n < 2 ^ 64" "n \<le> length rest"
  shows "fmt_dec_header (fmt_head base n @ rest) = Ok ((base = 192, n), rest)"
proof (cases "n < 56")
  case True
  then have b: "unat (word_of_nat (base + n) :: byte) = base + n"
    using base by (intro unat_word_of_nat_small) auto
  have "fmt_head base n @ rest = word_of_nat (base + n) # rest" using True by (simp add: fmt_head_def)
  also have "fmt_dec_header \<dots> = fmt_payload (base = 192) n rest"
    using fmt_dec_header_byte [OF b base, of rest] True by simp
  finally show ?thesis using n(2) by (simp add: fmt_payload_def)
next
  case False
  let ?l = "strip_zeros (to_be_bytes 8 (word_of_nat n :: u64))"
  have l: "length ?l \<le> 8" by (rule length_strip_32)
  have v: "be_val ?l = n"
    using n(1) unat_word_of_nat_small [of n, where 'a = 64]
    by (simp add: be_val_strip to_be_bytes_def be_val_be_nat)
  have ne: "?l \<noteq> []" using v False by (cases ?l) (auto simp: be_val_def)
  have b: "unat (word_of_nat (base + (55 + length ?l)) :: byte) = base + (55 + length ?l)"
    using base l by (intro unat_word_of_nat_small) (auto simp del: length_strip_32)
  have "fmt_head base n @ rest = word_of_nat (base + (55 + length ?l)) # (?l @ rest)"
    using False by (simp add: fmt_head_def Let_def add.assoc)
  also have "fmt_dec_header \<dots> = fmt_payload (base = 192) (be_val ?l) rest"
    using fmt_dec_header_byte [OF b base, of "?l @ rest"] ne l
    by (simp del: length_strip_32 of_nat_add)
  finally show ?thesis using n(2) v by (simp add: fmt_payload_def)
qed

lemma fmt_str_read:
  assumes "length bs < 2 ^ 64"
  shows "fmt_dec_bytes (fmt_str bs @ rest) = Ok (bs, rest)"
proof (cases "length bs = 1 \<and> unat (hd bs) < 128")
  case True
  then obtain b where "bs = [b]" by (cases bs) auto
  with True show ?thesis
    by (simp add: fmt_str_def fmt_dec_bytes_def decode_then_def fmt_dec_header_def Let_def)
next
  case False
  then have "fmt_str bs @ rest = fmt_head 128 (length bs) @ (bs @ rest)"
    unfolding fmt_str_def by (simp only: if_False append_assoc)
  then show ?thesis
    using fmt_head_read [of 128 "length bs" "bs @ rest"] assms
    by (simp add: fmt_dec_bytes_def decode_then_def)
qed

lemma fmt_fixed_reads:
  assumes "LENGTH('a) = 8 * n" and "n < 2 ^ 64"
  shows "reads (fmt_dec_fixed n) (fmt_fixed n) (w :: 'a::len word)"
  unfolding reads_def fmt_dec_fixed_def fmt_fixed_def
  using assms by (simp add: decode_then_def fmt_str_read)

lemma fmt_uint_reads:
  assumes "LENGTH('a) = 8 * n" and "n < 2 ^ 64"
  shows "reads (fmt_dec_uint n) (fmt_uint n) (w :: 'a::len word)"
proof -
  have l: "length (strip_zeros (to_be_bytes n w)) \<le> n" by (rule length_strip_32)
  then have "fmt_dec_bytes (fmt_str (strip_zeros (to_be_bytes n w)) @ rest) = Ok (strip_zeros (to_be_bytes n w), rest)"
    for rest using assms(2) by (intro fmt_str_read) linarith
  then show ?thesis
    unfolding reads_def fmt_dec_uint_def fmt_uint_def
    using assms(1) leD [OF l] by (simp add: decode_then_def del: length_strip_32)
qed

lemma fmt_bool_reads: "reads fmt_dec_bool fmt_bool b"
  unfolding reads_def fmt_dec_bool_def fmt_bool_def
  using fmt_uint_reads [where 'a = 8 and n = 1] by (simp add: decode_then_reads)

lemmas fmt_reads = fmt_fixed_reads [THEN decode_then_reads] fmt_uint_reads [THEN decode_then_reads]

lemma fmt_list_read:
  assumes "length p < 2 ^ 64"
  shows "decode_then (fmt_dec_list f) g (fmt_list p @ rest) = decode_then (f (length p)) g (p @ rest)"
  using fmt_head_read [of 192 "length p" "p @ rest"] assms
  by (simp add: fmt_dec_list_def fmt_list_def decode_then_def)

lemma fmt_list_read_last:
  assumes "length p < 2 ^ 64"
  shows "fmt_dec_list f (fmt_list p @ rest) = f (length p) (p @ rest)"
  using fmt_head_read [of 192 "length p" "p @ rest"] assms
  by (simp add: fmt_dec_list_def fmt_list_def decode_then_def)

lemma fmt_str_nonempty: "fmt_str bs \<noteq> []"
  using fmt_head_shape [of 128 "length bs"] by (auto simp: fmt_str_def)

lemma fmt_keys_read:
  "decode_then (decode_seq (fmt_dec_fixed 32) (length (concat (map (fmt_fixed 32) ks)))) f
     (concat (map (fmt_fixed 32) ks) @ rest) = f (ks :: h256 list) rest"
proof -
  have "\<forall>k \<in> set ks. reads (fmt_dec_fixed 32) (fmt_fixed 32) k \<and> fmt_fixed 32 k \<noteq> []"
    using fmt_str_nonempty by (simp add: fmt_fixed_reads fmt_fixed_def)
  from decode_seq_encoded [OF this refl] show ?thesis by (simp add: decode_then_def)
qed

lemma fmt_list_length: "length p \<le> length (fmt_list p)"
  by (simp add: fmt_list_def)

lemma fmt_access_reads:
  assumes "length (fmt_access a) < 2 ^ 64"
  shows "reads fmt_dec_access fmt_access a"
proof -
  let ?ks = "concat (map (fmt_fixed 32) (storage_keys a))"
  have "length (fmt_fixed 20 (al_address a) @ fmt_list ?ks) < 2 ^ 64" "length ?ks < 2 ^ 64"
    using assms fmt_list_length [of ?ks] fmt_list_length [of "fmt_fixed 20 (al_address a) @ fmt_list ?ks"]
    unfolding fmt_access_def length_append by linarith+
  then show ?thesis
    unfolding reads_def fmt_dec_access_def fmt_access_def
    by (simp add: fmt_list_read_last fmt_list_read fmt_reads fmt_keys_read del: length_append)
qed

lemma fmt_log_reads:
  assumes "length (fmt_log l) < 2 ^ 64"
  shows "reads fmt_dec_log fmt_log l"
proof -
  let ?ts = "concat (map (fmt_fixed 32) (topics l))"
  let ?p = "fmt_fixed 20 (log_address l) @ fmt_list ?ts @ fmt_str (log_data l)"
  have p: "length ?p < 2 ^ 64"
    using assms fmt_list_length [of ?p] unfolding fmt_log_def by linarith
  moreover have "length (log_data l) \<le> length (fmt_str (log_data l))" by (simp add: fmt_str_def)
  ultimately have "length ?ts < 2 ^ 64" "length (log_data l) < 2 ^ 64"
    using fmt_list_length [of ?ts] by simp_all
  with p show ?thesis
    unfolding reads_def fmt_dec_log_def fmt_log_def
    by (simp add: fmt_list_read_last fmt_list_read fmt_reads fmt_keys_read
        decode_then_def [of fmt_dec_bytes] fmt_str_read del: length_append)
qed

subsection \<open>The laws\<close>

lemma fmt_header_decoder: "total_decoder fmt_dec_header" "shrinking fmt_dec_header"
  unfolding total_decoder_def shrinking_def fmt_dec_header_def fmt_payload_def
  by (auto simp: Let_def split: list.splits if_splits)

lemma fmt_header_string:
  assumes "fmt_dec_header buf = Ok ((False, n), rest)"
  shows "rest = buf \<and> n = 1 \<or> length rest < length buf"
  using assms unfolding fmt_dec_header_def fmt_payload_def
  by (auto simp: Let_def split: list.splits if_splits)

lemma fmt_header_list:
  assumes "fmt_dec_header buf = Ok ((True, n), rest)"
  shows "length rest < length buf"
  using assms unfolding fmt_dec_header_def fmt_payload_def
  by (auto simp: Let_def split: list.splits if_splits)

lemma fmt_bytes_decoder: "total_decoder fmt_dec_bytes" "consuming fmt_dec_bytes"
proof -
  show "total_decoder fmt_dec_bytes"
    unfolding fmt_dec_bytes_def
    by (rule decode_then_total [OF fmt_header_decoder(1)]) (auto simp: total_decoder_def split: if_splits)
  show "consuming fmt_dec_bytes"
    unfolding consuming_def
  proof (intro allI impI)
    fix buf x rest
    assume "fmt_dec_bytes buf = Ok (x, rest)"
    then obtain n buf' where h: "fmt_dec_header buf = Ok ((False, n), buf')" "n \<le> length buf'" "rest = drop n buf'"
      by (auto simp: fmt_dec_bytes_def decode_then_def and_then_Ok split: if_splits)
    show "length rest < length buf" using fmt_header_string [OF h(1)] h(2,3) by auto
  qed
qed

lemma fmt_list_decoder:
  assumes "\<And>n. total_decoder (f n)" and "\<And>n. shrinking (f n)"
  shows "total_decoder (fmt_dec_list f)" and "consuming (fmt_dec_list f)"
proof -
  show "total_decoder (fmt_dec_list f)"
    unfolding fmt_dec_list_def by (intro total_intros assms fmt_header_decoder)
  show "consuming (fmt_dec_list f)"
    unfolding consuming_def
  proof (intro allI impI)
    fix buf x rest
    assume "fmt_dec_list f buf = Ok (x, rest)"
    then obtain n buf' where h: "fmt_dec_header buf = Ok ((True, n), buf')" "f n buf' = Ok (x, rest)"
      by (auto simp: fmt_dec_list_def decode_then_def and_then_Ok fail_with_def split: if_splits)
    show "length rest < length buf"
      using fmt_header_list [OF h(1)] h(2) assms(2) unfolding shrinking_def by fastforce
  qed
qed

lemma fmt_word_decoder:
  "total_decoder (fmt_dec_uint n)" "consuming (fmt_dec_uint n)"
  "total_decoder (fmt_dec_fixed n)" "consuming (fmt_dec_fixed n)"
  unfolding fmt_dec_uint_def fmt_dec_fixed_def
  by (intro total_intros fmt_bytes_decoder decode_then_consuming [OF fmt_bytes_decoder(2)] shrinking_intros)+

lemmas fmt_decoders = fmt_header_decoder fmt_bytes_decoder fmt_word_decoder
  fmt_bytes_decoder(2) [THEN consuming_shrinking] fmt_word_decoder(2,4) [THEN consuming_shrinking]
  decode_seq_decoder

lemma fmt_keys_decoder:
  "total_decoder (fmt_dec_list (decode_seq (fmt_dec_fixed 32 :: h256 decoder)))"
  "consuming (fmt_dec_list (decode_seq (fmt_dec_fixed 32 :: h256 decoder)))"
  by (intro fmt_list_decoder fmt_decoders)+

lemma rlp_format_total: "rlp_total rlp_format"
proof -
  have "total_decoder fmt_dec_bool" "consuming fmt_dec_bool"
    unfolding fmt_dec_bool_def
    by (intro total_intros fmt_decoders decode_then_consuming shrinking_intros)+
  moreover have "total_decoder fmt_dec_access" "consuming fmt_dec_access"
    unfolding fmt_dec_access_def
    by (intro fmt_list_decoder total_intros shrinking_intros fmt_decoders fmt_keys_decoder
        fmt_keys_decoder(2) [THEN consuming_shrinking])+
  moreover have "total_decoder fmt_dec_withdrawal" "consuming fmt_dec_withdrawal"
    unfolding fmt_dec_withdrawal_def
    by (intro fmt_list_decoder total_intros shrinking_intros fmt_decoders)+
  moreover have "total_decoder fmt_dec_log" "consuming fmt_dec_log"
    unfolding fmt_dec_log_def
    by (intro fmt_list_decoder total_intros shrinking_intros fmt_decoders fmt_keys_decoder
        fmt_keys_decoder(2) [THEN consuming_shrinking])+
  ultimately show ?thesis
    unfolding rlp_total_def rlp_format_def by (simp add: fmt_decoders)
qed

lemma fmt_head_short: "n < 56 \<Longrightarrow> length (fmt_head base n) = 1"
  by (simp add: fmt_head_def)

lemma fmt_uint_length:
  assumes "n < 56"
  shows "length (fmt_uint n w) \<in> {1..n + 1}"
proof -
  have l: "length (strip_zeros (to_be_bytes n w)) \<le> n" by (rule length_strip_32)
  then have "length (fmt_uint n w) \<le> n + 1"
    using assms by (simp add: fmt_uint_def fmt_str_def fmt_head_short del: length_strip_32)
  moreover have "fmt_uint n w \<noteq> []" by (simp add: fmt_uint_def fmt_str_nonempty)
  ultimately show ?thesis by (cases "fmt_uint n w") simp_all
qed

lemma fmt_str_first: "\<exists>b bs. fmt_str s = b # bs \<and> b < 0xc0"
proof (cases "length s = 1 \<and> unat (hd s) < 128")
  case True
  then show ?thesis by (cases s) (auto simp: fmt_str_def word_less_nat_alt)
next
  case False
  then have "fmt_str s = fmt_head 128 (length s) @ s" unfolding fmt_str_def by (simp only: if_False)
  then show ?thesis using fmt_head_shape [of 128 "length s"] by (auto simp: word_less_nat_alt)
qed

lemma fmt_shapes: "rlp_shapes rlp_format"
proof -
  have "\<exists>b bs. fmt_head 192 n = b # bs \<and> 0xc0 \<le> b \<and> length bs \<le> 8" for n
    using fmt_head_shape [of 192 n] by (auto simp: word_le_nat_alt)
  moreover have "length (fmt_head 128 n) \<le> 9" for n using fmt_head_shape [of 128 n] by auto
  then have "length s \<le> length (fmt_str s) \<and> length (fmt_str s) \<le> length s + 9" for s
    by (simp add: fmt_str_def add.commute)
  moreover have "fmt_list p \<noteq> []" for p
    using fmt_head_shape [of 192 "length p"] by (auto simp: fmt_list_def)
  then have "fmt_access a \<noteq> []" "fmt_withdrawal w \<noteq> []" "fmt_log l \<noteq> []" for a w l
    by (simp_all add: fmt_access_def fmt_withdrawal_def fmt_log_def)
  moreover have "fmt_str [] = [0x80]" by (simp add: fmt_str_def fmt_head_def)
  ultimately show ?thesis
    using fmt_uint_length [of 8, where 'a = 64] fmt_uint_length [of 1, where 'a = 8] fmt_str_first
    unfolding rlp_shapes_def rlp_format_def by (simp add: numeral_2_eq_2)
qed

lemma fmt_lengths: "rlp_lengths rlp_format"
proof -
  have "length (fmt_head 128 n) = length (fmt_head 192 n)" for n by (simp add: fmt_head_def Let_def)
  then show ?thesis by (auto simp: rlp_lengths_def rlp_format_def fmt_str_def fmt_head_short)
qed

lemma fmt_withdrawal_payload:
  "length (fmt_uint 8 (w_index w) @ fmt_uint 8 (w_validator_index w) @
     fmt_fixed 20 (w_address w) @ fmt_uint 8 (w_amount w)) \<le> 48"
proof -
  have "length (fmt_uint 8 (w_index w)) \<le> 9" "length (fmt_uint 8 (w_validator_index w)) \<le> 9"
      "length (fmt_uint 8 (w_amount w)) \<le> 9"
    using fmt_uint_length [of 8, where 'a = 64] by auto
  moreover have "length (fmt_fixed 20 (w_address w)) \<le> 21"
    by (simp add: fmt_fixed_def fmt_str_def fmt_head_short)
  ultimately show ?thesis by simp
qed

lemma fmt_withdrawal_length: "length (fmt_withdrawal w) \<le> 57"
  using fmt_withdrawal_payload [of w] fmt_head_short [of _ 192]
  unfolding fmt_withdrawal_def fmt_list_def by (simp del: length_append add: length_append [of "fmt_head _ _"])

lemma fmt_withdrawal_reads: "reads fmt_dec_withdrawal fmt_withdrawal w"
proof -
  have "length (fmt_uint 8 (w_index w) @ fmt_uint 8 (w_validator_index w) @
     fmt_fixed 20 (w_address w) @ fmt_uint 8 (w_amount w)) < 2 ^ 64"
    using fmt_withdrawal_payload [of w] by simp
  then show ?thesis
    unfolding reads_def fmt_dec_withdrawal_def fmt_withdrawal_def
    by (simp add: fmt_list_read_last fmt_reads del: length_append)
qed

lemma fmt_round_trips: "rlp_round_trips rlp_format"
  using fmt_head_read [of 192] fmt_access_reads fmt_log_reads fmt_bool_reads fmt_str_read
    fmt_uint_reads [where 'a = 64 and n = 8] fmt_uint_reads [where 'a = 8 and n = 1] fmt_withdrawal_reads
  unfolding rlp_round_trips_def rlp_format_def by (simp add: reads_def [abs_def])

lemma rlp_format_encodes: "rlp_encodes rlp_format"
  using fmt_round_trips fmt_lengths fmt_shapes by (simp add: rlp_encodes_def)

end
