(* ===== verification/Block.thy ===== *)
theory Block
  imports Tx RlpFormat
begin

section \<open>Blocks and receipts\<close>

text \<open>
  \<open>aii-block\<close>: headers, bodies, blocks, receipts and the logs bloom, with their RLP codecs and
  hashes. A bloom of 256 bytes is a 2048-bit word read big-endian, so that byte \<open>255 - i\<close> of the
  array holds the bits \<open>8 i\<close> to \<open>8 i + 7\<close> of the word.
\<close>

type_synonym bloom = "2048 word"

definition EMPTY_LIST_HASH :: h256 where
  "EMPTY_LIST_HASH = 0x1dcc4de8dec75d7aab85b567b6ccd41ad312451b948a7413f0a142fd40d49347"

definition EMPTY_TRIE_HASH :: h256 where
  "EMPTY_TRIE_HASH = 0x56e81f171bcc55a6ff8345e692c0f86e5b48e01b996cadc001622fb5e363b421"

subsection \<open>bloom.rs\<close>

definition Bloom_ZERO :: bloom where
  "Bloom_ZERO = 0"

text \<open>The bit that byte pair \<open>i\<close> of a hash selects.\<close>

definition bloom_bit :: "h256 \<Rightarrow> nat \<Rightarrow> nat" where
  "bloom_bit h i =
     (let bs = h256_bytes h in (unat (bs ! i) * 256 + unat (bs ! (i + 1))) mod 2048)"

definition bloom_accrue :: "crypto \<Rightarrow> bloom \<Rightarrow> byte list \<Rightarrow> bloom" where
  "bloom_accrue C b data =
     (let h = keccak256 C data
      in foldl (\<lambda>acc i. acc OR push_bit (bloom_bit h i) 1) b [0, 2, 4])"

definition bloom_contains :: "crypto \<Rightarrow> bloom \<Rightarrow> byte list \<Rightarrow> bool" where
  "bloom_contains C b data =
     (let probe = bloom_accrue C Bloom_ZERO data in b AND probe = probe)"

definition enc_bloom :: "rlp \<Rightarrow> bloom \<Rightarrow> byte list" where
  "enc_bloom R b = enc_str R (to_be_bytes 256 b)"

definition len_bloom :: "rlp \<Rightarrow> bloom \<Rightarrow> nat" where
  "len_bloom R b = len_str R (to_be_bytes 256 b)"

definition dec_bloom :: "rlp \<Rightarrow> bloom decoder" where
  "dec_bloom R = decode_then (dec_bytes R) (\<lambda>v.
     if length v \<noteq> 256 then fail_with UnexpectedLength else return_value (from_be_bytes v))"

subsection \<open>header.rs\<close>

record header =
  parent_hash :: h256
  ommers_hash :: h256
  beneficiary :: address
  state_root :: h256
  transactions_root :: h256
  receipts_root :: h256
  logs_bloom :: bloom
  difficulty :: u256
  number :: u64
  header_gas_limit :: u64
  gas_used :: u64
  timestamp :: u64
  extra_data :: "byte list"
  mix_hash :: h256
  header_nonce :: "64 word"
  base_fee_per_gas :: u256
  withdrawals_root :: h256
  blob_gas_used :: "u64 option"
  excess_blob_gas :: "u64 option"
  parent_beacon_block_root :: "h256 option"

definition Header_payload_length :: "rlp \<Rightarrow> header \<Rightarrow> nat" where
  "Header_payload_length R h =
     len_h256 R (parent_hash h) + len_h256 R (ommers_hash h) + len_address R (beneficiary h) +
     len_h256 R (state_root h) + len_h256 R (transactions_root h) + len_h256 R (receipts_root h) +
     len_bloom R (logs_bloom h) + u256_length R (difficulty h) + len_u64 R (number h) +
     len_u64 R (header_gas_limit h) + len_u64 R (gas_used h) + len_u64 R (timestamp h) +
     len_str R (extra_data h) + len_h256 R (mix_hash h) + len_str R (to_be_bytes 8 (header_nonce h)) +
     u256_length R (base_fee_per_gas h) + len_h256 R (withdrawals_root h) +
     (case blob_gas_used h of Some v \<Rightarrow> len_u64 R v | None \<Rightarrow> 0) +
     (case excess_blob_gas h of Some v \<Rightarrow> len_u64 R v | None \<Rightarrow> 0) +
     (case parent_beacon_block_root h of Some v \<Rightarrow> len_h256 R v | None \<Rightarrow> 0)"

definition Header_encode :: "rlp \<Rightarrow> header \<Rightarrow> byte list" where
  "Header_encode R h =
     enc_list_header R (Header_payload_length R h) @
     enc_h256 R (parent_hash h) @ enc_h256 R (ommers_hash h) @ enc_address R (beneficiary h) @
     enc_h256 R (state_root h) @ enc_h256 R (transactions_root h) @ enc_h256 R (receipts_root h) @
     enc_bloom R (logs_bloom h) @ encode_u256 R (difficulty h) @ enc_u64 R (number h) @
     enc_u64 R (header_gas_limit h) @ enc_u64 R (gas_used h) @ enc_u64 R (timestamp h) @
     enc_str R (extra_data h) @ enc_h256 R (mix_hash h) @ enc_str R (to_be_bytes 8 (header_nonce h)) @
     encode_u256 R (base_fee_per_gas h) @ enc_h256 R (withdrawals_root h) @
     (case blob_gas_used h of Some v \<Rightarrow> enc_u64 R v | None \<Rightarrow> []) @
     (case excess_blob_gas h of Some v \<Rightarrow> enc_u64 R v | None \<Rightarrow> []) @
     (case parent_beacon_block_root h of Some v \<Rightarrow> enc_h256 R v | None \<Rightarrow> [])"

definition Header_length :: "rlp \<Rightarrow> header \<Rightarrow> nat" where
  "Header_length R h = length_of_length R (Header_payload_length R h) + Header_payload_length R h"

text \<open>A trailing field that is read only while payload is left.\<close>

definition decode_optional :: "nat \<Rightarrow> nat \<Rightarrow> 'a decoder \<Rightarrow> 'a option decoder" where
  "decode_optional started plen dec = with_len (\<lambda>cur.
     if started - cur < plen then decode_then dec (\<lambda>v. return_value (Some v)) else return_value None)"

definition Header_decode :: "rlp \<Rightarrow> header decoder" where
  "Header_decode R =
     decode_then (dec_header R) (\<lambda>(list, plen).
     if \<not> list then fail_with UnexpectedString
     else with_len (\<lambda>started.
       decode_then (dec_h256 R) (\<lambda>parent.
       decode_then (dec_h256 R) (\<lambda>ommers.
       decode_then (dec_address R) (\<lambda>coinbase.
       decode_then (dec_h256 R) (\<lambda>sroot.
       decode_then (dec_h256 R) (\<lambda>txroot.
       decode_then (dec_h256 R) (\<lambda>rroot.
       decode_then (dec_bloom R) (\<lambda>bloom.
       decode_then (decode_u256 R) (\<lambda>diff.
       decode_then (dec_u64 R) (\<lambda>num.
       decode_then (dec_u64 R) (\<lambda>glimit.
       decode_then (dec_u64 R) (\<lambda>gused.
       decode_then (dec_u64 R) (\<lambda>ts.
       decode_then (dec_bytes R) (\<lambda>extra.
       if length extra > 32 then fail_with (Custom ''extra_data > 32'')
       else
       decode_then (dec_h256 R) (\<lambda>mix.
       decode_then (dec_bytes R) (\<lambda>nonce_bytes.
       if length nonce_bytes \<noteq> 8 then fail_with UnexpectedLength
       else
       decode_then (decode_u256 R) (\<lambda>base_fee.
       decode_then (dec_h256 R) (\<lambda>wroot.
       decode_then (decode_optional started plen (dec_u64 R)) (\<lambda>blob.
       decode_then (decode_optional started plen (dec_u64 R)) (\<lambda>excess.
       decode_then (decode_optional started plen (dec_h256 R)) (\<lambda>beacon.
         return_value \<lparr>parent_hash = parent, ommers_hash = ommers, beneficiary = coinbase,
           state_root = sroot, transactions_root = txroot, receipts_root = rroot,
           logs_bloom = bloom, difficulty = diff, number = num, header_gas_limit = glimit,
           gas_used = gused, timestamp = ts, extra_data = extra, mix_hash = mix,
           header_nonce = from_be_bytes nonce_bytes, base_fee_per_gas = base_fee,
           withdrawals_root = wroot, blob_gas_used = blob, excess_blob_gas = excess,
           parent_beacon_block_root = beacon\<rparr>))))))))))))))))))))))"

definition Header_hash :: "crypto \<Rightarrow> rlp \<Rightarrow> header \<Rightarrow> h256" where
  "Header_hash C R h = keccak256 C (Header_encode R h)"

subsection \<open>body.rs and block.rs\<close>

record block_body =
  transactions :: "tx list"
  ommers :: "header list"
  withdrawals :: "withdrawal list"

definition BlockBody_default :: block_body where
  "BlockBody_default = \<lparr>transactions = [], ommers = [], withdrawals = []\<rparr>"

definition BlockBody_payload_length :: "rlp \<Rightarrow> block_body \<Rightarrow> nat" where
  "BlockBody_payload_length R b =
     (let txs_inner = (\<Sum>t\<leftarrow>transactions b. Tx_length R t);
          txs = length_of_length R txs_inner + txs_inner;
          omm_inner = (\<Sum>o'\<leftarrow>ommers b. Header_length R o');
          omm = length_of_length R omm_inner + omm_inner;
          w_inner = (\<Sum>w\<leftarrow>withdrawals b. len_withdrawal R w);
          w = length_of_length R w_inner + w_inner
      in txs + omm + w)"

definition BlockBody_encode :: "rlp \<Rightarrow> block_body \<Rightarrow> byte list" where
  "BlockBody_encode R b =
     enc_list_header R (BlockBody_payload_length R b) @
     enc_list_header R (\<Sum>t\<leftarrow>transactions b. Tx_length R t) @ concat (map (Tx_encode R) (transactions b)) @
     enc_list_header R (\<Sum>o'\<leftarrow>ommers b. Header_length R o') @ concat (map (Header_encode R) (ommers b)) @
     enc_list_header R (\<Sum>w\<leftarrow>withdrawals b. len_withdrawal R w) @
     concat (map (enc_withdrawal R) (withdrawals b))"

definition BlockBody_length :: "rlp \<Rightarrow> block_body \<Rightarrow> nat" where
  "BlockBody_length R b =
     BlockBody_payload_length R b + length_of_length R (BlockBody_payload_length R b)"

definition BlockBody_decode :: "rlp \<Rightarrow> block_body decoder" where
  "BlockBody_decode R =
     decode_then (dec_header R) (\<lambda>(list, _).
     if \<not> list then fail_with UnexpectedString
     else
       decode_then (dec_header R) (\<lambda>(_, txs_plen).
       decode_then (decode_seq (Tx_decode R) txs_plen) (\<lambda>txs.
       decode_then (dec_header R) (\<lambda>(_, omm_plen).
       decode_then (decode_seq (Header_decode R) omm_plen) (\<lambda>omm.
       decode_then (dec_header R) (\<lambda>(_, w_plen).
       decode_then (decode_seq (dec_withdrawal R) w_plen) (\<lambda>ws.
         return_value \<lparr>transactions = txs, ommers = omm, withdrawals = ws\<rparr>)))))))"

record block =
  block_header :: header
  body :: block_body

definition Block_encode :: "rlp \<Rightarrow> block \<Rightarrow> byte list" where
  "Block_encode R b =
     enc_list_header R (Header_length R (block_header b) + BlockBody_length R (body b)) @
     Header_encode R (block_header b) @ BlockBody_encode R (body b)"

definition Block_length :: "rlp \<Rightarrow> block \<Rightarrow> nat" where
  "Block_length R b =
     (let payload = Header_length R (block_header b) + BlockBody_length R (body b)
      in payload + length_of_length R payload)"

definition Block_decode :: "rlp \<Rightarrow> block decoder" where
  "Block_decode R =
     decode_then (dec_header R) (\<lambda>(list, _).
     if \<not> list then fail_with UnexpectedString
     else
       decode_then (Header_decode R) (\<lambda>h.
       decode_then (BlockBody_decode R) (\<lambda>b.
         return_value \<lparr>block_header = h, body = b\<rparr>)))"

definition Block_hash :: "crypto \<Rightarrow> rlp \<Rightarrow> block \<Rightarrow> h256" where
  "Block_hash C R b = Header_hash C R (block_header b)"

subsection \<open>receipt.rs\<close>

record receipt =
  rc_tx_type :: tx_type
  status :: bool
  cumulative_gas_used :: u64
  rc_logs_bloom :: bloom
  logs :: "log list"

definition Receipt_payload_length :: "rlp \<Rightarrow> receipt \<Rightarrow> nat" where
  "Receipt_payload_length R r =
     (let logs_inner = (\<Sum>l\<leftarrow>logs r. len_log R l);
          ls = length_of_length R logs_inner + logs_inner
      in len_bool R (status r) + len_u64 R (cumulative_gas_used r) + len_bloom R (rc_logs_bloom r) + ls)"

definition Receipt_encode_inner :: "rlp \<Rightarrow> receipt \<Rightarrow> byte list" where
  "Receipt_encode_inner R r =
     enc_list_header R (Receipt_payload_length R r) @
     enc_bool R (status r) @ enc_u64 R (cumulative_gas_used r) @ enc_bloom R (rc_logs_bloom r) @
     enc_list_header R (\<Sum>l\<leftarrow>logs r. len_log R l) @ concat (map (enc_log R) (logs r))"

definition Receipt_decode_inner :: "rlp \<Rightarrow> tx_type \<Rightarrow> receipt decoder" where
  "Receipt_decode_inner R ty =
     decode_then (dec_header R) (\<lambda>(list, _).
     if \<not> list then fail_with UnexpectedString
     else
       decode_then (dec_bool R) (\<lambda>st.
       decode_then (dec_u64 R) (\<lambda>gas.
       decode_then (dec_bloom R) (\<lambda>bloom.
       decode_then (dec_header R) (\<lambda>(logs_list, logs_plen).
       if \<not> logs_list then fail_with UnexpectedString
       else
       decode_then (decode_seq (dec_log R) logs_plen) (\<lambda>ls.
         return_value \<lparr>rc_tx_type = ty, status = st, cumulative_gas_used = gas,
           rc_logs_bloom = bloom, logs = ls\<rparr>))))))"

definition Receipt_encode_2718 :: "rlp \<Rightarrow> receipt \<Rightarrow> byte list" where
  "Receipt_encode_2718 R r =
     (case rc_tx_type r of
        LegacyType \<Rightarrow> Receipt_encode_inner R r
      | Eip1559Type \<Rightarrow> [0x02] @ Receipt_encode_inner R r
      | Eip4844Type \<Rightarrow> [0x03] @ Receipt_encode_inner R r)"

definition Receipt_decode_2718 :: "rlp \<Rightarrow> receipt decoder" where
  "Receipt_decode_2718 R = (\<lambda>buf.
     case buf of
       [] \<Rightarrow> Err InputTooShort
     | first # rest \<Rightarrow>
         if first \<ge> 0xc0 then Receipt_decode_inner R LegacyType buf
         else if first = 0x02 then Receipt_decode_inner R Eip1559Type rest
         else if first = 0x03 then Receipt_decode_inner R Eip4844Type rest
         else Err (Custom ''unknown receipt envelope type''))"

definition Receipt_hash :: "crypto \<Rightarrow> rlp \<Rightarrow> receipt \<Rightarrow> h256" where
  "Receipt_hash C R r = keccak256 C (Receipt_encode_2718 R r)"

subsection \<open>Round trip of headers\<close>

text \<open>
  The headers the codec can represent: at most 32 bytes of extra data, and no trailing field without
  the ones before it (the fields are told apart by position only).
\<close>

definition header_wf :: "header \<Rightarrow> bool" where
  "header_wf h \<longleftrightarrow> length (extra_data h) \<le> 32 \<and>
     (blob_gas_used h = None \<longrightarrow> excess_blob_gas h = None) \<and>
     (excess_blob_gas h = None \<longrightarrow> parent_beacon_block_root h = None)"

lemma str_upper: "rlp_encodes R \<Longrightarrow> length (enc_str R s) \<le> length s + 9"
  by (simp add: rlp_encodes_def rlp_shapes_def)

lemma u64_upper: "rlp_encodes R \<Longrightarrow> length (enc_u64 R w) \<le> 9"
  unfolding rlp_encodes_def rlp_shapes_def by (meson atLeastAtMost_iff)

lemma u64_nonempty: "rlp_encodes R \<Longrightarrow> 0 < length (enc_u64 R w)"
  unfolding rlp_encodes_def rlp_shapes_def
  by (metis atLeastAtMost_iff less_one not_less zero_neq_one neq0_conv)

lemma field_upper:
  assumes R: "rlp_encodes R"
  shows "length (enc_h256 R h) \<le> 41" and "length (enc_address R a) \<le> 29"
    and "length (encode_u256 R v) \<le> 41" and "length (enc_bloom R b) \<le> 265"
    and "length (enc_str R (to_be_bytes 8 n)) \<le> 17"
  using str_upper [OF R, of "h256_bytes h"] str_upper [OF R, of "address_bytes a"]
    str_upper [OF R, of "strip_zeros (to_be_bytes 32 v)"] str_upper [OF R, of "to_be_bytes 256 b"]
    str_upper [OF R, of "to_be_bytes 8 n"] length_strip_32 [of 32 v]
  by (simp_all add: enc_h256_def enc_address_def encode_u256_def enc_bloom_def del: length_strip_32)

lemma len_bloom_simp: "rlp_encodes R \<Longrightarrow> len_bloom R b = length (enc_bloom R b)"
  by (simp add: len_bloom_def enc_bloom_def rlp_length_simps)

lemma bloom_reads: "rlp_encodes R \<Longrightarrow> reads (dec_bloom R) (enc_bloom R) b"
  by (simp add: reads_def dec_bloom_def enc_bloom_def rlp_reads(1))

lemma optional_Some:
  assumes "reads dec enc v" and "started - (length (enc v) + length rest) < plen"
  shows "decode_then (decode_optional started plen dec) f (enc v @ rest) = f (Some v) rest"
  using assms by (simp add: decode_optional_def decode_then_def reads_def)

lemma optional_None:
  assumes "plen \<le> started - length rest"
  shows "decode_then (decode_optional started plen dec) f rest = f None rest"
  using assms by (simp add: decode_optional_def decode_then_def)

lemma header_payload_bound:
  assumes R: "rlp_encodes R" and wf: "header_wf h"
  shows "Header_payload_length R h \<le> 2000"
proof -
  have extra: "length (enc_str R (extra_data h)) \<le> 41"
    using str_upper [OF R, of "extra_data h"] wf by (simp add: header_wf_def)
  have opt: "(case x of Some v \<Rightarrow> len_u64 R v | None \<Rightarrow> 0) \<le> 9"
      "(case y of Some v \<Rightarrow> len_h256 R v | None \<Rightarrow> 0) \<le> 41" for x y
    using u64_upper [OF R] field_upper(1) [OF R]
    by (auto simp: rlp_length_simps [OF R] split: option.split)
  show ?thesis
    unfolding Header_payload_length_def
    using opt(1) [of "blob_gas_used h"] opt(1) [of "excess_blob_gas h"]
      opt(2) [of "parent_beacon_block_root h"] extra
      field_upper(1) [OF R, of "parent_hash h"] field_upper(1) [OF R, of "ommers_hash h"]
      field_upper(1) [OF R, of "state_root h"] field_upper(1) [OF R, of "transactions_root h"]
      field_upper(1) [OF R, of "receipts_root h"] field_upper(1) [OF R, of "mix_hash h"]
      field_upper(1) [OF R, of "withdrawals_root h"] field_upper(2) [OF R, of "beneficiary h"]
      field_upper(3) [OF R, of "difficulty h"] field_upper(3) [OF R, of "base_fee_per_gas h"]
      field_upper(4) [OF R, of "logs_bloom h"] field_upper(5) [OF R, of "header_nonce h"]
      u64_upper [OF R, of "number h"] u64_upper [OF R, of "header_gas_limit h"]
      u64_upper [OF R, of "gas_used h"] u64_upper [OF R, of "timestamp h"]
    unfolding rlp_length_simps(2-12) [OF R] len_bloom_simp [OF R] by linarith
qed

lemma header_payload_small:
  assumes R: "rlp_encodes R" and wf: "header_wf h"
  shows "Header_payload_length R h < 2 ^ 64"
  using header_payload_bound [OF assms] by simp

lemma Header_reads:
  assumes R: "rlp_encodes R" and wf: "header_wf h"
  shows "reads (Header_decode R) (Header_encode R) h"
  unfolding reads_def
proof
  fix rest
  note small = header_payload_small [OF R wf]
  have extra: "length (extra_data h) \<le> 32" using wf by (simp add: header_wf_def)
  have tail: "0 < length (enc_u64 R w)" "0 < length (enc_h256 R x)" for w x
    using u64_nonempty [OF R] enc_h256_nonempty [OF R] by simp_all
  consider (none) "blob_gas_used h = None" "excess_blob_gas h = None" "parent_beacon_block_root h = None"
    | (one) v where "blob_gas_used h = Some v" "excess_blob_gas h = None" "parent_beacon_block_root h = None"
    | (two) v w where "blob_gas_used h = Some v" "excess_blob_gas h = Some w"
        "parent_beacon_block_root h = None"
    | (three) v w x where "blob_gas_used h = Some v" "excess_blob_gas h = Some w"
        "parent_beacon_block_root h = Some x"
    using wf by (cases "blob_gas_used h"; cases "excess_blob_gas h"; cases "parent_beacon_block_root h")
      (auto simp: header_wf_def)
  then show "Header_decode R (Header_encode R h @ rest) = Ok (h, rest)"
  proof cases
    case none
    then show ?thesis
      using small extra
      unfolding Header_decode_def Header_encode_def Header_payload_length_def
      by (simp add: rlp_length_simps [OF R] len_bloom_simp [OF R] rlp_header_read [OF R] rlp_reads [OF R]
          decode_then_reads [OF bloom_reads [OF R]] optional_None)
  next
    case one
    then show ?thesis
      using small extra tail(1) [of v]
      unfolding Header_decode_def Header_encode_def Header_payload_length_def
      by (simp add: rlp_length_simps [OF R] len_bloom_simp [OF R] rlp_header_read [OF R] rlp_reads [OF R]
          decode_then_reads [OF bloom_reads [OF R]] optional_None optional_Some
          rlp_field_reads [OF R] del: length_greater_0_conv)
  next
    case two
    then show ?thesis
      using small extra tail(1) [of v] tail(1) [of w]
      unfolding Header_decode_def Header_encode_def Header_payload_length_def
      by (simp add: rlp_length_simps [OF R] len_bloom_simp [OF R] rlp_header_read [OF R] rlp_reads [OF R]
          decode_then_reads [OF bloom_reads [OF R]] optional_None optional_Some
          rlp_field_reads [OF R] del: length_greater_0_conv)
  next
    case three
    then show ?thesis
      using small extra tail(1) [of v] tail(1) [of w] tail(2) [of x]
      unfolding Header_decode_def Header_encode_def Header_payload_length_def
      by (simp add: rlp_length_simps [OF R] len_bloom_simp [OF R] rlp_header_read [OF R] rlp_reads [OF R]
          decode_then_reads [OF bloom_reads [OF R]] optional_None optional_Some
          rlp_field_reads [OF R] del: length_greater_0_conv)
  qed
qed

subsection \<open>Round trips of bodies, blocks and receipts\<close>

lemma Header_length_encode: "rlp_encodes R \<Longrightarrow> length (Header_encode R h) = Header_length R h"
  unfolding Header_encode_def Header_length_def Header_payload_length_def
  by (simp add: rlp_length_simps len_bloom_simp split: option.split)

lemma Header_encode_nonempty: "rlp_encodes R \<Longrightarrow> Header_encode R h \<noteq> []"
  using list_header_first [of R "Header_payload_length R h"] by (auto simp: Header_encode_def)

lemma sum_lengths:
  assumes R: "rlp_encodes R"
  shows "(\<Sum>t\<leftarrow>ts. Tx_length R t) = length (concat (map (Tx_encode R) ts))"
    and "(\<Sum>h\<leftarrow>hs. Header_length R h) = length (concat (map (Header_encode R) hs))"
    and "(\<Sum>w\<leftarrow>ws. len_withdrawal R w) = length (concat (map (enc_withdrawal R) ws))"
    and "(\<Sum>l\<leftarrow>ls. len_log R l) = length (concat (map (enc_log R) ls))"
  unfolding length_concat_map
  by (simp_all add: Tx_length_encode [OF R] Header_length_encode [OF R] rlp_length_simps [OF R])

lemma BlockBody_length_encode:
  assumes R: "rlp_encodes R"
  shows "length (BlockBody_encode R b) = BlockBody_length R b"
  unfolding BlockBody_encode_def BlockBody_length_def BlockBody_payload_length_def Let_def sum_lengths [OF R]
  by (simp add: rlp_length_simps [OF R])

lemma Block_length_encode:
  assumes R: "rlp_encodes R"
  shows "length (Block_encode R b) = Block_length R b"
  unfolding Block_encode_def Block_length_def Let_def
  by (simp add: rlp_length_simps [OF R] BlockBody_length_encode [OF R] Header_length_encode [OF R])

text \<open>Bodies and blocks whose encodings fit in memory and whose headers the codec can represent.\<close>

definition body_wf :: "rlp \<Rightarrow> block_body \<Rightarrow> bool" where
  "body_wf R b \<longleftrightarrow> length (BlockBody_encode R b) < 2 ^ 64 \<and> (\<forall>h \<in> set (ommers b). header_wf h)"

definition block_wf :: "rlp \<Rightarrow> block \<Rightarrow> bool" where
  "block_wf R b \<longleftrightarrow> length (Block_encode R b) < 2 ^ 64 \<and> header_wf (block_header b) \<and>
     (\<forall>h \<in> set (ommers (body b)). header_wf h)"

lemma block_wf_body: "block_wf R b \<Longrightarrow> body_wf R (body b)"
  by (simp add: block_wf_def body_wf_def Block_encode_def)

lemma tx_length_2718:
  assumes "rlp_encodes R"
  shows "length (encode_2718 R t) \<le> length (Tx_encode R t)"
  using str_bound [OF assms, of "encode_2718 R t"] by (cases t) simp_all

lemma body_txs_sized:
  assumes R: "rlp_encodes R" and wf: "body_wf R b" and t: "t \<in> set (transactions b)"
  shows "tx_sized R t"
proof -
  have "length (Tx_encode R t) \<le> length (BlockBody_encode R b)"
    using element_length_le [OF t, of "Tx_encode R"] by (simp add: BlockBody_encode_def)
  then show ?thesis using tx_length_2718 [OF R, of t] wf by (simp add: tx_sized_def body_wf_def)
qed

lemma BlockBody_reads:
  assumes R: "rlp_encodes R" and wf: "body_wf R b"
  shows "reads (BlockBody_decode R) (BlockBody_encode R) b"
  unfolding reads_def
proof
  fix rest
  have txs: "\<forall>t \<in> set (transactions b). reads (Tx_decode R) (Tx_encode R) t \<and> Tx_encode R t \<noteq> []"
    using Tx_reads [OF R body_txs_sized [OF R wf]] Tx_encode_nonempty [OF R] by blast
  have omm: "\<forall>h \<in> set (ommers b). reads (Header_decode R) (Header_encode R) h \<and> Header_encode R h \<noteq> []"
    using Header_reads [OF R] Header_encode_nonempty [OF R] wf by (simp add: body_wf_def)
  have ws: "\<forall>w \<in> set (withdrawals b).
      reads (dec_withdrawal R) (enc_withdrawal R) w \<and> enc_withdrawal R w \<noteq> []"
    using R unfolding rlp_encodes_def rlp_round_trips_def rlp_shapes_def by blast
  have len: "length (BlockBody_encode R b) < 2 ^ 64" using wf by (simp add: body_wf_def)
  show "BlockBody_decode R (BlockBody_encode R b @ rest) = Ok (b, rest)"
    using len
    unfolding BlockBody_decode_def BlockBody_encode_def BlockBody_payload_length_def Let_def sum_lengths [OF R]
    by (simp add: rlp_length_simps [OF R] rlp_header_read [OF R] decode_seq_read [OF txs]
        decode_seq_read [OF omm] decode_seq_read [OF ws])
qed

lemma Block_reads:
  assumes R: "rlp_encodes R" and wf: "block_wf R b"
  shows "reads (Block_decode R) (Block_encode R) b"
proof -
  have h: "header_wf (block_header b)" and len: "length (Block_encode R b) < 2 ^ 64"
    using wf by (simp_all add: block_wf_def)
  show ?thesis
    unfolding reads_def using len
    by (simp add: Block_decode_def Block_encode_def Header_length_encode [OF R, symmetric]
        BlockBody_length_encode [OF R, symmetric] rlp_header_read [OF R]
        decode_then_reads [OF Header_reads [OF R h]]
        decode_then_reads [OF BlockBody_reads [OF R block_wf_body [OF wf]]])
qed

lemma Receipt_inner_read:
  assumes R: "rlp_encodes R" and small: "length (Receipt_encode_inner R r) < 2 ^ 64"
  shows "Receipt_decode_inner R (rc_tx_type r) (Receipt_encode_inner R r @ rest) = Ok (r, rest)"
proof -
  have "\<forall>l \<in> set (logs r). length (enc_log R l) < 2 ^ 64"
    using small element_length_le [of _ "logs r" "enc_log R"] by (fastforce simp: Receipt_encode_inner_def)
  then have ls: "\<forall>l \<in> set (logs r). reads (dec_log R) (enc_log R) l \<and> enc_log R l \<noteq> []"
    using R unfolding rlp_encodes_def rlp_round_trips_def rlp_shapes_def by blast
  show ?thesis
    using small
    unfolding Receipt_decode_inner_def Receipt_encode_inner_def Receipt_payload_length_def Let_def
      sum_lengths [OF R]
    by (simp add: rlp_length_simps [OF R] len_bloom_simp [OF R] rlp_header_read [OF R] rlp_reads [OF R]
        decode_then_reads [OF bloom_reads [OF R]] decode_seq_read [OF ls])
qed

lemma Receipt_reads:
  assumes R: "rlp_encodes R" and small: "length (Receipt_encode_2718 R r) < 2 ^ 64"
  shows "reads (Receipt_decode_2718 R) (Receipt_encode_2718 R) r"
proof -
  have inner: "length (Receipt_encode_inner R r) < 2 ^ 64"
    using small by (simp add: Receipt_encode_2718_def split: tx_type.splits)
  obtain b bs where b: "Receipt_encode_inner R r = b # bs" "0xc0 \<le> b"
    using list_header_first [OF R, of "Receipt_payload_length R r"] by (auto simp: Receipt_encode_inner_def)
  have "Receipt_decode_2718 R (Receipt_encode_2718 R r @ rest) = Ok (r, rest)" for rest
    using Receipt_inner_read [OF R inner, of rest] b
    by (cases "rc_tx_type r") (simp_all add: Receipt_decode_2718_def Receipt_encode_2718_def)
  then show ?thesis by (simp add: reads_def)
qed

subsection \<open>Totality of the decoders\<close>

lemma bloom_decoder:
  assumes R: "rlp_total R"
  shows "total_decoder (dec_bloom R)" and "consuming (dec_bloom R)"
  unfolding dec_bloom_def
  by (intro total_intros field_decoders R)
    (rule decode_then_consuming [OF field_decoders(4) [OF R]], intro shrinking_intros)

lemma optional_decoder:
  assumes "total_decoder dec" and "shrinking dec"
  shows "total_decoder (decode_optional s n dec)" and "shrinking (decode_optional s n dec)"
  unfolding decode_optional_def by (intro total_intros assms) (intro shrinking_intros assms)

lemmas block_fields = field_decoders bloom_decoder
lemmas block_fields_shrinking = field_shrinking bloom_decoder(2) [THEN consuming_shrinking]

lemma Header_decoder:
  assumes R: "rlp_total R"
  shows "total_decoder (Header_decode R)" and "consuming (Header_decode R)"
proof -
  show "total_decoder (Header_decode R)"
    unfolding Header_decode_def
    by (intro total_intros optional_decoder(1) block_fields block_fields_shrinking R)
  show "consuming (Header_decode R)"
    unfolding Header_decode_def
    by (rule decode_then_consuming_late, rule field_decoders(2) [OF R], rule prod_decoder(3),
      rule if_decoder(3), rule fail_decoder(3), rule with_len_decoder(3), rule decode_then_consuming,
      rule rlp_field_decoders(2) [OF R])
    (intro shrinking_intros optional_decoder(2) block_fields block_fields_shrinking R)
qed

lemma BlockBody_decoder:
  assumes R: "rlp_total R"
  shows "total_decoder (BlockBody_decode R)" and "shrinking (BlockBody_decode R)"
  unfolding BlockBody_decode_def
  by (intro total_intros decode_seq_decoder(1) Tx_decode_total Header_decoder field_decoders R)
    (intro shrinking_intros decode_seq_decoder(2) Tx_decode_total(2) [THEN consuming_shrinking]
      Header_decoder(2) [THEN consuming_shrinking] field_shrinking field_decoders R)

lemma Block_decoder:
  assumes R: "rlp_total R"
  shows "total_decoder (Block_decode R)"
  unfolding Block_decode_def
  by (intro total_intros Header_decoder BlockBody_decoder field_decoders R)

lemma Receipt_decoder:
  assumes R: "rlp_total R"
  shows "total_decoder (Receipt_decode_2718 R)"
proof -
  have "total_decoder (Receipt_decode_inner R ty)" for ty
    unfolding Receipt_decode_inner_def
    by (intro total_intros decode_seq_decoder(1) block_fields R)
  then show ?thesis
    unfolding total_decoder_def Receipt_decode_2718_def by (simp split: list.split)
qed

subsection \<open>The bloom filter\<close>

definition bloom_accrue_all :: "crypto \<Rightarrow> byte list list \<Rightarrow> bloom \<Rightarrow> bloom" where
  "bloom_accrue_all C ds b = fold (\<lambda>d b. bloom_accrue C b d) ds b"

definition bloom_bits :: "crypto \<Rightarrow> byte list \<Rightarrow> nat set" where
  "bloom_bits C d = bloom_bit (keccak256 C d) ` {0, 2, 4}"

lemma bloom_bits_bound: "n \<in> bloom_bits C d \<Longrightarrow> n < 2048"
  by (auto simp: bloom_bits_def bloom_bit_def Let_def)

lemma bit_accrue: "bit (bloom_accrue C b d) n \<longleftrightarrow> bit b n \<or> n \<in> bloom_bits C d"
  using bloom_bits_bound [of n C d]
  by (auto simp: bloom_accrue_def Let_def bit_simps bloom_bits_def)

lemma contains_iff: "bloom_contains C b d \<longleftrightarrow> (\<forall>n \<in> bloom_bits C d. bit b n)"
proof -
  have "bloom_contains C b d \<longleftrightarrow> (\<forall>n. bit (bloom_accrue C 0 d) n \<longrightarrow> bit b n)"
    unfolding bloom_contains_def Bloom_ZERO_def Let_def bit_eq_iff
    using bloom_bits_bound by (auto simp: bit_simps bit_accrue)
  then show ?thesis by (auto simp: bit_accrue)
qed

lemma bit_accrue_all: "bit (bloom_accrue_all C ds b) n \<longleftrightarrow> bit b n \<or> (\<exists>d \<in> set ds. n \<in> bloom_bits C d)"
  unfolding bloom_accrue_all_def by (induction ds arbitrary: b) (auto simp: bit_accrue)

subsection \<open>The codecs as stream codecs\<close>

definition receipt_sized :: "rlp \<Rightarrow> receipt \<Rightarrow> bool" where
  "receipt_sized R r \<longleftrightarrow> length (Receipt_encode_2718 R r) < 2 ^ 64"

interpretation header_rlp: stream_codec rlp_encodes "\<lambda>_. header_wf" Header_encode Header_decode
  by unfold_locales (rule Header_reads)

interpretation body_rlp: stream_codec rlp_encodes body_wf BlockBody_encode BlockBody_decode
  by unfold_locales (rule BlockBody_reads)

interpretation block_rlp: stream_codec rlp_encodes block_wf Block_encode Block_decode
  by unfold_locales (rule Block_reads)

interpretation receipt_rlp: stream_codec rlp_encodes receipt_sized Receipt_encode_2718 Receipt_decode_2718
  by unfold_locales (rule Receipt_reads, simp_all add: receipt_sized_def)

subsection \<open>A block\<close>

definition demo_tx :: tx where
  "demo_tx = Legacy \<lparr>nonce = 7, gas_price = 1000, gas_limit = 21000, to_addr = Some 5, tx_value = 300,
     tx_data = [1, 2, 3], tx_v = 27, tx_r = 11, tx_s = 12, algo = MlDsa65\<rparr>"

definition demo_header :: header where
  "demo_header = \<lparr>parent_hash = 1, ommers_hash = EMPTY_LIST_HASH, beneficiary = 3, state_root = 4,
     transactions_root = 5, receipts_root = 6, logs_bloom = 7, difficulty = 0, number = 9,
     header_gas_limit = 30000000, gas_used = 21000, timestamp = 12, extra_data = [13], mix_hash = 14,
     header_nonce = 15, base_fee_per_gas = 16, withdrawals_root = 17, blob_gas_used = Some 18,
     excess_blob_gas = None, parent_beacon_block_root = None\<rparr>"

definition demo_block :: block where
  "demo_block = \<lparr>block_header = demo_header,
     body = \<lparr>transactions = [demo_tx, demo_tx], ommers = [demo_header],
       withdrawals = [\<lparr>w_index = 1, w_validator_index = 2, w_address = 3, w_amount = 4\<rparr>]\<rparr>\<rparr>"

lemma list_header_upper: "rlp_encodes R \<Longrightarrow> length_of_length R n \<le> 9"
  unfolding rlp_encodes_def rlp_shapes_def rlp_lengths_def
  by (metis Suc_le_mono eval_nat_numeral(3) length_Cons)

lemma header_length_bound:
  assumes R: "rlp_encodes R" and wf: "header_wf h"
  shows "length (Header_encode R h) \<le> 2009"
  using header_payload_bound [OF assms] list_header_upper [OF R, of "Header_payload_length R h"]
  by (simp add: Header_length_encode [OF R] Header_length_def)

lemma legacy_length_bound:
  assumes R: "rlp_encodes R"
  shows "length (TxLegacy_encode R t) \<le> 300 + length (tx_data t)"
proof -
  have to: "length (encode_to R (to_addr t)) \<le> 29"
    using field_upper(2) [OF R] str_upper [OF R, of "[]"]
    by (cases "to_addr t") (simp_all add: encode_to_def)
  have alg: "length (encode_algo R (algo t)) \<le> 2"
    using R by (simp add: encode_algo_def rlp_encodes_def rlp_shapes_def)
  show ?thesis
    unfolding TxLegacy_encode_def length_append
    using list_header_upper [OF R, of "TxLegacy_payload_length R t"] to alg
      u64_upper [OF R, of "nonce t"] u64_upper [OF R, of "gas_limit t"] u64_upper [OF R, of "tx_v t"]
      field_upper(3) [OF R, of "gas_price t"] field_upper(3) [OF R, of "tx_value t"]
      field_upper(1) [OF R, of "tx_r t"] field_upper(1) [OF R, of "tx_s t"]
      str_upper [OF R, of "tx_data t"] 
    by (simp add: rlp_length_simps(1) [OF R])
qed

lemma demo_header_wf: "header_wf demo_header"
  by (simp add: header_wf_def demo_header_def)

lemma demo_tx_length:
  assumes R: "rlp_encodes R"
  shows "length (Tx_encode R demo_tx) \<le> 303"
proof -
  obtain l where l: "demo_tx = Legacy l" "length (tx_data l) = 3" by (simp add: demo_tx_def)
  then show ?thesis using legacy_length_bound [OF R, of l] unfolding l(1) by simp
qed

lemma demo_block_wf: "block_wf rlp_format demo_block"
proof -
  note R = rlp_format_encodes
  have upper: "length (enc_list_header rlp_format n) \<le> 9" for n
    using list_header_upper [OF R, of n] by (simp only: rlp_length_simps(1) [OF R])
  let ?w = "\<lparr>w_index = 1, w_validator_index = 2, w_address = 3, w_amount = 4\<rparr>"
  have w: "length (enc_withdrawal rlp_format ?w) \<le> 100"
    using fmt_withdrawal_length [of ?w] by (simp add: rlp_format_def)
  let ?b = "body demo_block"
  have parts: "transactions ?b = [demo_tx, demo_tx]" "ommers ?b = [demo_header]" "withdrawals ?b = [?w]"
      "block_header demo_block = demo_header"
    by (simp_all add: demo_block_def)
  have "length (BlockBody_encode rlp_format ?b) \<le> 5000"
    unfolding BlockBody_encode_def length_append length_concat_map parts
    using upper [of "BlockBody_payload_length rlp_format ?b"]
      upper [of "\<Sum>t\<leftarrow>[demo_tx, demo_tx]. Tx_length rlp_format t"]
      upper [of "\<Sum>o'\<leftarrow>[demo_header]. Header_length rlp_format o'"]
      upper [of "\<Sum>w\<leftarrow>[?w]. len_withdrawal rlp_format w"]
      demo_tx_length [OF R] header_length_bound [OF R demo_header_wf] w
    unfolding list.map sum_list.Cons sum_list.Nil by linarith
  then show ?thesis
    unfolding block_wf_def Block_encode_def length_append parts
    using header_length_bound [OF R demo_header_wf] demo_header_wf
      upper [of "Header_length rlp_format demo_header + BlockBody_length rlp_format ?b"] by simp
qed

definition demo_receipt :: receipt where
  "demo_receipt = \<lparr>rc_tx_type = Eip1559Type, status = True, cumulative_gas_used = 21000, rc_logs_bloom = 5,
     logs = [\<lparr>log_address = 1, topics = [2, 3], log_data = [4, 5]\<rparr>]\<rparr>"

lemma demo_receipt_sized: "receipt_sized rlp_format demo_receipt"
proof -
  note R = rlp_format_encodes
  have upper: "length (fmt_head 192 n) \<le> 9" for n
    using list_header_upper [OF R, of n] by (simp add: rlp_format_def)
  have "length (fmt_bool True) \<le> 2" using fmt_uint_length [of 1 "1 :: u8"] by (simp add: fmt_bool_def)
  moreover have "length (fmt_log \<lparr>log_address = 1, topics = [2, 3], log_data = [4, 5]\<rparr>) \<le> 200"
    using upper [of "21 + (length (fmt_head 192 66) + 66 + 3)"] upper [of 66]
    by (simp add: fmt_log_def fmt_list_def fmt_fixed_def fmt_str_def fmt_head_short)
  ultimately show ?thesis
    using upper [of "Receipt_payload_length rlp_format demo_receipt"] u64_upper [OF R, of 21000]
      upper [of "\<Sum>l\<leftarrow>logs demo_receipt. len_log rlp_format l"] field_upper(4) [OF R, of 5]
    unfolding receipt_sized_def Receipt_encode_2718_def Receipt_encode_inner_def
    by (simp add: demo_receipt_def) (simp add: rlp_format_def)
qed

subsection \<open>Properties\<close>

text \<open>
  (C25) Blocks survive their codec: for every block whose headers the format can represent and whose
  encoding fits in memory, \<open>Block::decode\<close> reads \<open>Block::encode\<close> back to the same header,
  transactions (legacy, EIP-1559 and EIP-4844, with their access lists, blob hashes and signature
  algorithm), ommers and withdrawals, leaves the following bytes alone, and \<open>Block::length\<close> is the
  number of bytes written.
\<close>

theorem block_round_trip:
  assumes "rlp_encodes R" and "block_wf R b"
  shows "Block_decode R (Block_encode R b @ rest) = Ok (b, rest) \<and>
    length (Block_encode R b) = Block_length R b"
  using Block_reads [OF assms] Block_length_encode [OF assms(1)] by (simp add: reads_def)

theorem block_round_trip_witness:
  "rlp_encodes rlp_format \<and> block_wf rlp_format demo_block \<and>
   Block_decode rlp_format (Block_encode rlp_format demo_block @ [1, 2]) = Ok (demo_block, [1, 2])"
  using block_round_trip [OF rlp_format_encodes demo_block_wf] rlp_format_encodes demo_block_wf by blast

text \<open>
  A block hash commits to the whole header: two representable headers have the same
  \<open>Header::hash\<close> exactly when they are equal in every field, as long as Keccak-256 does not collide on
  their two encodings. (A header that leaves out a trailing field while giving a later one is not
  representable: the fields are told apart by position only.)
\<close>

theorem header_hash_binds:
  assumes "rlp_encodes R" and "header_wf h" and "header_wf h'"
    and "inj_on (keccak256 C) {Header_encode R h, Header_encode R h'}"
  shows "Header_hash C R h = Header_hash C R h' \<longleftrightarrow> h = h'"
  using header_rlp.hash_binds [OF assms(1-3), of "keccak256 C"] assms(4) by (simp add: Header_hash_def)

theorem header_hash_binds_witness:
  "let C = demo_crypto\<lparr>tiny_keccak := \<lambda>s. if s = Header_encode rlp_format demo_header then 1 else 0\<rparr>
   in Header_hash C rlp_format demo_header \<noteq> Header_hash C rlp_format (demo_header\<lparr>timestamp := 13\<rparr>)"
proof -
  let ?C = "demo_crypto\<lparr>tiny_keccak := \<lambda>s. if s = Header_encode rlp_format demo_header then 1 else 0\<rparr>"
  have wf: "header_wf (demo_header\<lparr>timestamp := 13\<rparr>)" by (simp add: header_wf_def demo_header_def)
  have "inj_on (keccak256 ?C) {Header_encode rlp_format demo_header,
      Header_encode rlp_format (demo_header\<lparr>timestamp := 13\<rparr>)}"
    by (simp add: inj_on_def keccak256_def)
  from header_hash_binds [OF rlp_format_encodes demo_header_wf wf this]
  show ?thesis by (simp add: demo_header_def)
qed

text \<open>
  Receipts survive their codec: a receipt of any envelope type whose encoding fits in memory is
  read back by \<open>Receipt::decode_2718\<close> with its status, gas, bloom and logs, and the bytes after it
  are left.
\<close>

theorem receipt_round_trip:
  assumes "rlp_encodes R" and "receipt_sized R r"
  shows "Receipt_decode_2718 R (Receipt_encode_2718 R r @ rest) = Ok (r, rest)"
  using receipt_rlp.dec_reads [OF assms] by (simp add: reads_def)

theorem receipt_round_trip_witness:
  "receipt_sized rlp_format demo_receipt \<and>
   Receipt_decode_2718 rlp_format (Receipt_encode_2718 rlp_format demo_receipt @ [9]) = Ok (demo_receipt, [9])"
  using receipt_round_trip [OF rlp_format_encodes demo_receipt_sized, of "[9]"] demo_receipt_sized by blast

text \<open>
  Decoding never panics and never loops: on every input the transaction, header, body, block and
  receipt decoders return a value or an error (their element loops run out of bytes before they run
  out of iterations).
\<close>

theorem block_decoders_are_total:
  assumes "rlp_total R"
  shows "Tx_decode R buf \<noteq> Panic \<and> decode_2718 R buf \<noteq> Panic \<and> Header_decode R buf \<noteq> Panic \<and>
    BlockBody_decode R buf \<noteq> Panic \<and> Block_decode R buf \<noteq> Panic \<and> Receipt_decode_2718 R buf \<noteq> Panic"
  using Tx_decode_total(1) [OF assms] decode_2718_total [OF assms] Header_decoder(1) [OF assms]
    BlockBody_decoder(1) [OF assms] Block_decoder [OF assms] Receipt_decoder [OF assms]
  by (simp add: total_decoder_def)

theorem block_decoders_are_total_witness:
  "rlp_total rlp_format \<and> Block_decode rlp_format [0xf8, 0x01] \<noteq> Panic"
  using block_decoders_are_total [OF rlp_format_total] rlp_format_total by blast

text \<open>
  The logs bloom has no false negatives, and its false positives are exactly the data whose
  three bits are covered: after accruing a list of entries into the empty bloom, \<open>contains\<close> holds for
  a datum if and only if each of its three bit positions is a bit position of some accrued entry.
\<close>

theorem bloom_contains_exactly:
  "bloom_contains C (bloom_accrue_all C ds Bloom_ZERO) d \<longleftrightarrow>
     bloom_bits C d \<subseteq> (\<Union>d' \<in> set ds. bloom_bits C d')"
  by (auto simp: contains_iff bit_accrue_all Bloom_ZERO_def)

end
