(* ===== verification/Trie.thy ===== *)
theory Trie
  imports Block "HOL-Library.List_Lexorder"
begin

section \<open>The Merkle Patricia trie\<close>

text \<open>
  \<open>aii-state/src/trie.rs\<close>: the root of a Merkle Patricia trie over a list of key-value pairs,
  \<open>transactions_root\<close> and \<open>receipts_root\<close>. Keys are split into nibbles, kept in bytes as in the
  source. \<open>build_node\<close> and its grouping loop \<open>fill_children\<close> recurse on keys that get shorter.

  The abstract trie (\<open>node\<close>, \<open>build_trie\<close>) is what the byte strings encode: the theory shows that
  \<open>build_node\<close> writes the encoding of the abstract trie of its pairs, that looking a key up in that
  trie gives the value of the pair, and that two tries with the same root are equal unless Keccak-256
  collides on the nodes. The roots therefore commit to the contents. The encoding of the abstract trie uses the encoders of
  the source; a reference that does not is in \<open>TrieSpec\<close>.
\<close>

type_synonym kv = "byte list \<times> byte list"

subsection \<open>trie.rs\<close>

definition key_to_nibbles :: "byte list \<Rightarrow> byte list" where
  "key_to_nibbles bytes = concat (map (\<lambda>b. [shr b 4, b AND 0x0f]) bytes)"

fun pack_nibbles :: "byte list \<Rightarrow> byte list" where
  "pack_nibbles (a # b # rest) = (push_bit 4 a OR b) # pack_nibbles rest"
| "pack_nibbles _ = []"

definition hex_prefix :: "byte list \<Rightarrow> bool \<Rightarrow> byte list" where
  "hex_prefix nibbles is_leaf =
     (let flag = (if is_leaf then 0b0010 else 0b0000) in
      if length nibbles mod 2 = 1
      then (push_bit 4 (flag OR 0b0001) OR nibbles ! 0) # pack_nibbles (drop 1 nibbles)
      else push_bit 4 flag # pack_nibbles nibbles)"

text \<open>The scan \<open>while i < max\<close> of \<open>common_prefix_len\<close>: the first position where some key differs.\<close>

function scan_common :: "nat \<Rightarrow> byte list \<Rightarrow> kv list \<Rightarrow> nat \<Rightarrow> nat" where
  "scan_common i first pairs maxlen =
     (if i < maxlen then
        (if \<exists>p \<in> set pairs. fst p ! i \<noteq> first ! i then i else scan_common (Suc i) first pairs maxlen)
      else maxlen)"
  by pat_completeness auto

termination scan_common
  by (relation "measure (\<lambda>(i, _, _, maxlen). maxlen - i)") auto

declare scan_common.simps [simp del]

primrec shortest_key :: "nat \<Rightarrow> kv list \<Rightarrow> nat" where
  "shortest_key m [] = m"
| "shortest_key m (p # ps) = shortest_key (min m (length (fst p))) ps"

definition common_prefix_len :: "kv list \<Rightarrow> nat" where
  "common_prefix_len pairs =
     (case pairs of
        [] \<Rightarrow> 0
      | (first, _) # rest \<Rightarrow>
          scan_common 0 first pairs (shortest_key (length first) rest))"

datatype ChildRef = Empty | Inlined "byte list" | Hashed h256 | Value "byte list"

definition child_ref :: "crypto \<Rightarrow> byte list \<Rightarrow> ChildRef" where
  "child_ref C node_rlp =
     (if length node_rlp < 32 then Inlined node_rlp else Hashed (keccak256 C node_rlp))"

primrec child_ref_encoded_length :: "rlp \<Rightarrow> ChildRef \<Rightarrow> nat" where
  "child_ref_encoded_length R Empty = 1"
| "child_ref_encoded_length R (Inlined b) = length b"
| "child_ref_encoded_length R (Hashed h) = 33"
| "child_ref_encoded_length R (Value v) = len_str R v"

primrec write_child_ref :: "rlp \<Rightarrow> ChildRef \<Rightarrow> byte list" where
  "write_child_ref R Empty = [0x80]"
| "write_child_ref R (Inlined b) = b"
| "write_child_ref R (Hashed h) = enc_h256 R h"
| "write_child_ref R (Value v) = enc_str R v"

definition rlp_leaf_or_extension :: "rlp \<Rightarrow> byte list \<Rightarrow> byte list \<Rightarrow> bool \<Rightarrow> byte list" where
  "rlp_leaf_or_extension R path val is_leaf =
     (let hp = hex_prefix path is_leaf
      in enc_list_header R (len_str R hp + len_str R val) @ enc_str R hp @ enc_str R val)"

definition rlp_extension :: "crypto \<Rightarrow> rlp \<Rightarrow> byte list \<Rightarrow> byte list \<Rightarrow> byte list" where
  "rlp_extension C R path child_node_rlp =
     (let hp = hex_prefix path False;
          cref = child_ref C child_node_rlp
      in enc_list_header R (len_str R hp + child_ref_encoded_length R cref) @
         enc_str R hp @ write_child_ref R cref)"

definition rlp_branch :: "crypto \<Rightarrow> rlp \<Rightarrow> byte list list \<Rightarrow> byte list \<Rightarrow> byte list" where
  "rlp_branch C R children val =
     (let refs = map (\<lambda>c. if c = [] then Empty else child_ref C c) (take 16 children) @ [Value val]
      in enc_list_header R (\<Sum>r\<leftarrow>refs. child_ref_encoded_length R r) @
         concat (map (write_child_ref R) refs))"

text \<open>
  The pairs after the first that share its first nibble: the inner loop
  \<open>while j < pairs.len() && ...\<close>.
\<close>

definition same_first :: "byte \<Rightarrow> kv \<Rightarrow> bool" where
  "same_first b p \<longleftrightarrow> fst p \<noteq> [] \<and> hd (fst p) = b"

definition cut_keys :: "nat \<Rightarrow> kv list \<Rightarrow> kv list" where
  "cut_keys n pairs = map (\<lambda>(k, v). (drop n k, v)) pairs"

definition key_weight :: "kv list \<Rightarrow> nat" where
  "key_weight pairs = (\<Sum>p\<leftarrow>pairs. length (fst p)) + length pairs"

lemma scan_common_le: "i \<le> maxlen \<Longrightarrow> scan_common i first pairs maxlen \<le> maxlen"
  by (induction i first pairs maxlen rule: scan_common.induct) (subst scan_common.simps, auto)

lemma shortest_key_le:
  "shortest_key n ps \<le> n" "p \<in> set ps \<Longrightarrow> shortest_key n ps \<le> length (fst p)"
proof -
  show le: "shortest_key n ps \<le> n" for n
  proof (induction ps arbitrary: n)
    case (Cons a ps)
    from Cons.IH [of "min n (length (fst a))"] show ?case by simp
  qed simp
  show "p \<in> set ps \<Longrightarrow> shortest_key n ps \<le> length (fst p)"
  proof (induction ps arbitrary: n)
    case (Cons a ps)
    have "shortest_key (min n (length (fst a))) ps \<le> min n (length (fst a))" for ps
    proof (induction ps arbitrary: n a)
      case (Cons b ps)
      from Cons.IH [of "min n (length (fst a))" b] show ?case by simp
    qed simp
    with Cons show ?case by fastforce
  qed simp
qed

lemma common_prefix_len_le: "p \<in> set pairs \<Longrightarrow> common_prefix_len pairs \<le> length (fst p)"
proof (cases pairs)
  case (Cons a rest)
  moreover have "scan_common 0 (fst a) pairs (shortest_key (length (fst a)) rest) \<le> shortest_key (length (fst a)) rest"
    by (rule scan_common_le) simp
  moreover assume "p \<in> set pairs"
  ultimately show ?thesis
    using shortest_key_le(1) [of "length (fst a)" rest] shortest_key_le(2) [of p rest "length (fst a)"]
    by (auto simp: common_prefix_len_def split: prod.splits)
qed simp

lemma key_weight_simps [simp]:
  "key_weight [] = 0"
  "key_weight (p # ps) = length (fst p) + 1 + key_weight ps"
  "key_weight (ps @ qs) = key_weight ps + key_weight qs"
  by (simp_all add: key_weight_def)

lemma key_weight_cut: "key_weight (cut_keys n ps) \<le> key_weight ps"
  by (induction ps) (auto simp: cut_keys_def)

lemma key_weight_cut_less:
  assumes "0 < n" and "ps \<noteq> []" and "\<forall>p \<in> set ps. n \<le> length (fst p)"
  shows "key_weight (cut_keys n ps) < key_weight ps"
proof -
  obtain p qs where ps: "ps = p # qs" using assms(2) by (cases ps) auto
  then show ?thesis
    using key_weight_cut [of n qs] assms(1,3) by (cases p) (simp add: cut_keys_def, linarith)
qed

text \<open>
  The recursion. Nibbles are below 16, so that \<open>children[first]\<close> is in range; a list update out of range
  changes nothing. The loop over the pairs is \<open>fill_children\<close>: a pair with an empty key gives the value
  of the branch, and each run of pairs with the same first nibble becomes a child.
\<close>

function build_node :: "crypto \<Rightarrow> rlp \<Rightarrow> kv list \<Rightarrow> byte list"
  and fill_children :: "crypto \<Rightarrow> rlp \<Rightarrow> kv list \<Rightarrow> byte list list \<Rightarrow> byte list \<Rightarrow> byte list list \<times> byte list"
where
  "build_node C R pairs =
     (if length pairs = 1 then rlp_leaf_or_extension R (fst (pairs ! 0)) (snd (pairs ! 0)) True
      else
        let common = common_prefix_len pairs in
        if 0 < common
        then rlp_extension C R (take common (fst (pairs ! 0))) (build_node C R (cut_keys common pairs))
        else
          let (children, val) = fill_children C R pairs (replicate 17 []) []
          in rlp_branch C R children val)"
| "fill_children C R [] children val = (children, val)"
| "fill_children C R ((k, v) # ps) children val =
     (if k = [] then fill_children C R ps children v
      else
        let first = k ! 0;
            run = (k, v) # takeWhile (same_first first) ps;
            child = build_node C R (cut_keys 1 run)
        in fill_children C R (dropWhile (same_first first) ps) (children[unat first := child]) val)"
  by pat_completeness auto

lemma key_weight_split:
  "key_weight (takeWhile P ps) + key_weight (dropWhile P ps) = key_weight ps"
  by (metis key_weight_simps(3) takeWhile_dropWhile_id)

lemma run_lighter:
  assumes "k \<noteq> []"
  shows "key_weight (cut_keys 1 ((k, v) # takeWhile (same_first (k ! 0)) ps)) < key_weight ((k, v) # ps)"
proof -
  let ?run = "(k, v) # takeWhile (same_first (k ! 0)) ps"
  have "key_weight ?run \<le> key_weight ((k, v) # ps)"
    using key_weight_split [of "same_first (k ! 0)" ps] by simp
  moreover have "key_weight (cut_keys 1 ?run) < key_weight ?run"
  proof (rule key_weight_cut_less)
    show "\<forall>p \<in> set ?run. 1 \<le> length (fst p)"
      using assms by (auto simp: same_first_def Suc_le_eq dest!: set_takeWhileD)
  qed auto
  ultimately show ?thesis by linarith
qed

lemma common_lighter:
  assumes "0 < common_prefix_len pairs"
  shows "key_weight (cut_keys (common_prefix_len pairs) pairs) < key_weight pairs"
proof (rule key_weight_cut_less)
  show "pairs \<noteq> []" using assms by (auto simp: common_prefix_len_def)
qed (use assms common_prefix_len_le in auto)

termination build_node
proof (relation "measure (\<lambda>x. case x of Inl (_, _, ps) \<Rightarrow> 2 * key_weight ps + 1
    | Inr (_, _, ps, _, _) \<Rightarrow> 2 * key_weight ps)", goal_cases)
  case (2 C R pairs common)
  then show ?case using common_lighter [of pairs] by simp
next
  case (5 C R k v ps children val first run)
  then show ?case using run_lighter [of k v ps] by simp
next
  case (6 C R k v ps children val first run child)
  then show ?case using key_weight_split [of "same_first first" ps] by simp
qed simp_all

declare build_node.simps [simp del] fill_children.simps [simp del]

definition mpt_root :: "crypto \<Rightarrow> rlp \<Rightarrow> kv list \<Rightarrow> h256" where
  "mpt_root C R items =
     (let pairs = map (\<lambda>(k, v). (key_to_nibbles k, v)) items in
      if pairs = [] then EMPTY_TRIE_HASH
      else keccak256 C (build_node C R (sort_key fst pairs)))"

definition indexed_pairs :: "rlp \<Rightarrow> ('a \<Rightarrow> byte list) \<Rightarrow> 'a list \<Rightarrow> kv list" where
  "indexed_pairs R enc xs = map (\<lambda>(i, x). (enc_u64 R (word_of_nat i), enc x)) (List.enumerate 0 xs)"

definition transactions_root_of :: "crypto \<Rightarrow> rlp \<Rightarrow> block_body \<Rightarrow> h256" where
  "transactions_root_of C R b =
     (if transactions b = [] then EMPTY_TRIE_HASH
      else mpt_root C R (indexed_pairs R (encode_2718 R) (transactions b)))"

definition receipts_root_of :: "crypto \<Rightarrow> rlp \<Rightarrow> receipt list \<Rightarrow> h256" where
  "receipts_root_of C R rs =
     (if rs = [] then EMPTY_TRIE_HASH
      else mpt_root C R (indexed_pairs R (Receipt_encode_2718 R) rs))"

subsection \<open>The abstract trie\<close>

datatype node = Leaf "byte list" "byte list" | Ext "byte list" node | Branch "node option list" "byte list"

primrec lookup :: "node \<Rightarrow> byte list \<Rightarrow> byte list option" where
  "lookup (Leaf p v) = (\<lambda>k. if k = p then Some v else None)"
| "lookup (Ext p n) = (\<lambda>k. if take (length p) k = p then lookup n (drop (length p) k) else None)"
| "lookup (Branch cs v) = (\<lambda>k.
     case k of
       [] \<Rightarrow> if v = [] then None else Some v
     | b # rest \<Rightarrow>
         if unat b < length cs then
           (case map (map_option lookup) cs ! unat b of None \<Rightarrow> None | Some f \<Rightarrow> f rest)
         else None)"

definition opt_bytes :: "byte list option \<Rightarrow> byte list" where
  "opt_bytes c = (case c of None \<Rightarrow> [] | Some r \<Rightarrow> r)"

primrec node_rlp :: "crypto \<Rightarrow> rlp \<Rightarrow> node \<Rightarrow> byte list" where
  "node_rlp C R (Leaf p v) = rlp_leaf_or_extension R p v True"
| "node_rlp C R (Ext p n) = rlp_extension C R p (node_rlp C R n)"
| "node_rlp C R (Branch cs v) = rlp_branch C R (map opt_bytes (map (map_option (node_rlp C R)) cs)) v"

primrec subnodes :: "node \<Rightarrow> node set" where
  "subnodes (Leaf p v) = {Leaf p v}"
| "subnodes (Ext p n) = insert (Ext p n) (subnodes n)"
| "subnodes (Branch cs v) = insert (Branch cs v) (\<Union>s \<in> set (map (map_option subnodes) cs). case s of None \<Rightarrow> {} | Some ns \<Rightarrow> ns)"

function build_trie :: "kv list \<Rightarrow> node"
  and fill_trie :: "kv list \<Rightarrow> node option list \<Rightarrow> byte list \<Rightarrow> node option list \<times> byte list"
where
  "build_trie pairs =
     (if length pairs = 1 then Leaf (fst (pairs ! 0)) (snd (pairs ! 0))
      else
        let common = common_prefix_len pairs in
        if 0 < common then Ext (take common (fst (pairs ! 0))) (build_trie (cut_keys common pairs))
        else let (children, val) = fill_trie pairs (replicate 17 None) [] in Branch (take 16 children) val)"
| "fill_trie [] children val = (children, val)"
| "fill_trie ((k, v) # ps) children val =
     (if k = [] then fill_trie ps children v
      else
        let first = k ! 0;
            run = (k, v) # takeWhile (same_first first) ps;
            child = build_trie (cut_keys 1 run)
        in fill_trie (dropWhile (same_first first) ps) (children[unat first := Some child]) val)"
  by pat_completeness auto

termination build_trie
proof (relation "measure (\<lambda>x. case x of Inl ps \<Rightarrow> 2 * key_weight ps + 1
    | Inr (ps, _, _) \<Rightarrow> 2 * key_weight ps)", goal_cases)
  case (2 pairs common)
  then show ?case using common_lighter [of pairs] by simp
next
  case (5 k v ps children val first run)
  then show ?case using run_lighter [of k v ps] by simp
next
  case (6 k v ps children val first run child)
  then show ?case using key_weight_split [of "same_first first" ps] by simp
qed simp_all

declare build_trie.simps [simp del] fill_trie.simps [simp del]

subsection \<open>\<open>build_node\<close> writes the abstract trie\<close>

lemma build_node_refines:
  "build_node C R pairs = node_rlp C R (build_trie pairs)"
  "fill_children C R pairs (map (opt_bytes \<circ> map_option (node_rlp C R)) cs) val =
     (map (opt_bytes \<circ> map_option (node_rlp C R)) (fst (fill_trie pairs cs val)), snd (fill_trie pairs cs val))"
proof (induction pairs and pairs cs val rule: build_trie_fill_trie.induct)
  case (1 pairs)
  have branch: "rlp_branch C R (map f (take 16 cs)) v = rlp_branch C R (map f cs) v" for f and cs :: "node option list" and v
    by (simp add: rlp_branch_def take_map [symmetric])
  have start: "replicate 17 [] = map (opt_bytes \<circ> map_option (node_rlp C R)) (replicate 17 None)"
    by (simp add: opt_bytes_def)
  show ?case
    using 1 by (subst build_node.simps, subst build_trie.simps)
      (auto simp: Let_def start branch comp_def split: prod.splits simp del: map_replicate)
next
  case (2 children val)
  then show ?case by (simp add: fill_children.simps fill_trie.simps)
next
  case (3 k v ps children val)
  then show ?case
    by (simp add: fill_children.simps fill_trie.simps Let_def map_update opt_bytes_def)
qed

subsection \<open>Looking up\<close>

lemma append_le_append: "p @ a \<le> p @ (b :: 'a::order list) \<longleftrightarrow> a \<le> b"
  by (induction p) simp_all

text \<open>In a sorted list the pairs that share a first nibble are next to each other.\<close>

lemma sorted_same_first:
  assumes "sorted (map fst ((k, v) # ps))" and "k \<noteq> []"
  shows "takeWhile (same_first (k ! 0)) ps = filter (same_first (k ! 0)) ps"
  using assms(1)
proof (induction ps)
  case (Cons p ps)
  have k: "k = k ! 0 # tl k" using assms(2) by (cases k) auto
  show ?case
  proof (cases "same_first (k ! 0) p")
    case True
    then show ?thesis using Cons by simp
  next
    case False
    have "\<not> same_first (k ! 0) q" if "q \<in> set ps" for q
    proof
      assume q: "same_first (k ! 0) q"
      have le: "k \<le> fst p" "fst p \<le> fst q" using Cons.prems that by auto
      then obtain b rest where p: "fst p = b # rest" using k by (cases "fst p") auto
      obtain rest' where "fst q = k ! 0 # rest'" using q by (cases "fst q") (auto simp: same_first_def)
      with le p have "k ! 0 \<le> b" "b \<le> k ! 0" using k
        by (metis Cons_le_Cons order.strict_implies_order order_refl)+
      with False p show False by (simp add: same_first_def)
    qed
    with False show ?thesis by (simp add: filter_False)
  qed
qed simp

lemma filter_dropWhile:
  assumes "\<And>p. P p \<Longrightarrow> \<not> Q p"
  shows "filter Q (dropWhile P ps) = filter Q ps"
  by (induction ps) (use assms in auto)

lemma map_of_cut_first: "map_of (cut_keys 1 (filter (same_first b) ps)) k = map_of ps (b # k)"
proof (induction ps)
  case (Cons p ps)
  then show ?case by (cases p; cases "fst p") (auto simp: cut_keys_def same_first_def)
qed (simp add: cut_keys_def)

lemma sorted_dropWhile: "sorted (map f ps) \<Longrightarrow> sorted (map f (dropWhile P ps))"
  by (induction ps) auto

text \<open>Induction along the loop: it consumes a pair with an empty key, or a run.\<close>

lemma loop_induct [case_names Nil Here Run]:
  assumes "P []" and "\<And>v ps. P ps \<Longrightarrow> P (([], v) # ps)"
    and "\<And>k v ps. k \<noteq> [] \<Longrightarrow> P (dropWhile (same_first (k ! 0)) ps) \<Longrightarrow> P ((k, v) # ps)"
  shows "P ps"
proof (induction "length ps" arbitrary: ps rule: less_induct)
  case less
  show ?case
  proof (cases ps)
    case (Cons p qs)
    obtain k v where "p = (k, v)" by fastforce
    moreover have "length (dropWhile Q qs) < length ps" for Q
      using Cons by (simp add: le_imp_less_Suc length_dropWhile_le)
    ultimately show ?thesis using less Cons assms(2,3) by (cases "k = []") auto
  qed (simp add: assms(1))
qed

text \<open>The children that the loop leaves behind, and the value.\<close>

lemma fill_trie_length [simp]: "length (fst (fill_trie ps cs v)) = length cs"
  by (induction ps arbitrary: cs v rule: loop_induct) (simp_all add: fill_trie.simps Let_def)

lemma fill_trie_children:
  assumes "sorted (map fst ps)" and "unat b < length cs"
  shows "fst (fill_trie ps cs v) ! unat b =
    (let group = filter (same_first b) ps
     in if group \<noteq> [] then Some (build_trie (cut_keys 1 group)) else cs ! unat b)"
  using assms
proof (induction ps arbitrary: cs v rule: loop_induct)
  case (Run k w qs)
  let ?f = "k ! 0"
  let ?child = "build_trie (cut_keys 1 ((k, w) # takeWhile (same_first ?f) qs))"
  have run: "takeWhile (same_first ?f) qs = filter (same_first ?f) qs"
    using sorted_same_first Run.prems(1) Run.hyps by blast
  have step: "fill_trie ((k, w) # qs) cs v = fill_trie (dropWhile (same_first ?f) qs) (cs[unat ?f := Some ?child]) v"
    using Run.hyps by (simp add: fill_trie.simps Let_def)
  have rec: "fst (fill_trie (dropWhile (same_first ?f) qs) (cs[unat ?f := Some ?child]) v) ! unat b =
      (let group = filter (same_first b) (dropWhile (same_first ?f) qs)
       in if group \<noteq> [] then Some (build_trie (cut_keys 1 group)) else cs[unat ?f := Some ?child] ! unat b)"
    using Run.prems by (intro Run.IH) (auto intro: sorted_dropWhile)
  have first: "same_first b (k, w) \<longleftrightarrow> b = ?f" using Run.hyps by (auto simp: same_first_def hd_conv_nth)
  show ?case
  proof (cases "b = ?f")
    case True
    have "filter (same_first ?f) (dropWhile (same_first ?f) qs) = []"
    proof -
      have "filter (same_first ?f) qs = takeWhile (same_first ?f) qs @ filter (same_first ?f) (dropWhile (same_first ?f) qs)"
        by (induction qs) auto
      then show ?thesis using run by simp
    qed
    with True rec step first run Run.prems(2) show ?thesis by simp
  next
    case False
    then have "filter (same_first b) (dropWhile (same_first ?f) qs) = filter (same_first b) qs"
      by (intro filter_dropWhile) (auto simp: same_first_def)
    moreover have "unat ?f \<noteq> unat b" using False by (simp add: word_unat_eq_iff)
    ultimately show ?thesis using False rec step first by (simp add: Let_def)
  qed
qed (simp_all add: fill_trie.simps same_first_def)

lemma fill_trie_value:
  assumes "distinct (map fst ps)"
  shows "snd (fill_trie ps cs v) = (case map_of ps [] of Some w \<Rightarrow> w | None \<Rightarrow> v)"
  using assms
proof (induction ps arbitrary: cs v rule: loop_induct)
  case (Here w ps)
  then have "map_of ps [] = None" by (force simp: map_of_eq_None_iff)
  with Here show ?case by (simp add: fill_trie.simps)
next
  case (Run k w ps)
  have "map_of (dropWhile (same_first b) ps) [] = map_of ps []" for b
    by (induction ps) (auto simp: same_first_def)
  moreover have "distinct (map fst (dropWhile (same_first b) ps))" for b
    using Run.prems by (induction ps) (auto dest: set_dropWhileD)
  ultimately show ?case using Run by (simp add: fill_trie.simps Let_def)
qed (simp add: fill_trie.simps)

lemma scan_common_equal:
  "i \<le> j \<Longrightarrow> j < scan_common i first pairs maxlen \<Longrightarrow> p \<in> set pairs \<Longrightarrow> fst p ! j = first ! j"
proof (induction i first pairs maxlen rule: scan_common.induct)
  case (1 i first pairs maxlen)
  show ?case
  proof (cases "i < maxlen \<and> \<not> (\<exists>p \<in> set pairs. fst p ! i \<noteq> first ! i)")
    case True
    then have "scan_common i first pairs maxlen = scan_common (Suc i) first pairs maxlen"
      by (subst scan_common.simps) simp
    with 1 True show ?thesis by (cases "i = j") auto
  next
    case False
    then have "scan_common i first pairs maxlen \<le> i \<or> maxlen \<le> i"
      by (subst scan_common.simps) auto
    moreover have "scan_common i first pairs maxlen = maxlen" if "maxlen \<le> i"
      using that by (subst scan_common.simps) simp
    ultimately show ?thesis using 1 by linarith
  qed
qed

lemma common_prefix_shared:
  assumes "p \<in> set ps"
  shows "take (common_prefix_len ps) (fst p) = take (common_prefix_len ps) (fst (ps ! 0))"
proof (rule nth_equalityI)
  have "ps ! 0 \<in> set ps" using assms by (cases ps) auto
  then show "length (take (common_prefix_len ps) (fst p)) = length (take (common_prefix_len ps) (fst (ps ! 0)))"
    using common_prefix_len_le assms by simp
next
  fix i
  assume i: "i < length (take (common_prefix_len ps) (fst p))"
  obtain q qs where ps: "ps = q # qs" using assms by (cases ps) auto
  with i scan_common_equal [of 0 i "fst q" ps _ p] assms
  show "take (common_prefix_len ps) (fst p) ! i = take (common_prefix_len ps) (fst (ps ! 0)) ! i"
    by (auto simp: common_prefix_len_def split: prod.splits)
qed

lemma map_of_cut_common:
  assumes "\<forall>p \<in> set ps. take n (fst p) = pre" and "take n k = pre"
  shows "map_of (cut_keys n ps) (drop n k) = map_of ps k"
  using assms(1)
proof (induction ps)
  case (Cons p ps)
  then have "drop n (fst p) = drop n k \<longleftrightarrow> fst p = k"
    using assms(2) by (metis append_take_drop_id list.set_intros(1))
  with Cons show ?case by (cases p) (auto simp: cut_keys_def)
qed (simp add: cut_keys_def)

text \<open>The lists of pairs that \<open>mpt_root\<close> builds tries from.\<close>

definition kv_ok :: "kv list \<Rightarrow> bool" where
  "kv_ok ps \<longleftrightarrow> sorted (map fst ps) \<and> distinct (map fst ps) \<and>
     (\<forall>p \<in> set ps. snd p \<noteq> [] \<and> (\<forall>b \<in> set (fst p). unat b < 16))"

lemma cut_keys_Cons [simp]: "cut_keys n (p # ps) = (drop n (fst p), snd p) # cut_keys n ps"
  by (simp add: cut_keys_def split: prod.splits)

lemma set_cut_keys: "set (cut_keys n ps) = (\<lambda>p. (drop n (fst p), snd p)) ` set ps"
  by (simp add: cut_keys_def case_prod_beta')

lemma kv_ok_cut:
  assumes "kv_ok ps" and "\<forall>p \<in> set ps. take n (fst p) = pre"
  shows "kv_ok (cut_keys n ps)"
proof -
  have key: "fst p = pre @ drop n (fst p)" if "p \<in> set ps" for p
    using assms(2) that by (metis append_take_drop_id)
  have "drop n (fst p) \<le> drop n (fst q) \<longleftrightarrow> fst p \<le> fst q" "drop n (fst p) = drop n (fst q) \<longleftrightarrow> fst p = fst q"
    if "p \<in> set ps" "q \<in> set ps" for p q
    using key [OF that(1)] key [OF that(2)] append_le_append by metis+
  note drops = this
  have "map fst (cut_keys n ps) = map (drop n \<circ> fst) ps" by (simp add: cut_keys_def split: prod.splits)
  moreover have "sorted (map (drop n \<circ> fst) ps)"
    using assms(1) drops(1) unfolding kv_ok_def sorted_map
    by (metis (no_types, lifting) comp_apply sorted_wrt_mono_rel)
  moreover have "distinct (map (drop n \<circ> fst) ps)"
    using assms(1) drops(2) unfolding kv_ok_def distinct_map inj_on_def by auto
  moreover have "\<forall>p \<in> set (cut_keys n ps). snd p \<noteq> [] \<and> (\<forall>b \<in> set (fst p). unat b < 16)"
    using assms(1) unfolding kv_ok_def set_cut_keys by (auto dest: in_set_dropD)
  ultimately show ?thesis by (simp add: kv_ok_def)
qed

lemma kv_ok_filter: "kv_ok ps \<Longrightarrow> kv_ok (filter P ps)"
  unfolding kv_ok_def by (auto simp: sorted_filter distinct_map_filter)

lemma same_first_take: "same_first b p \<Longrightarrow> take 1 (fst p) = [b]"
  by (cases "fst p") (auto simp: same_first_def)

lemma map_of_None_prefix:
  assumes "\<forall>p \<in> set ps. take n (fst p) = pre" and "take n k \<noteq> pre"
  shows "map_of ps k = None"
  using assms by (force simp: map_of_eq_None_iff)

lemma branch_nth:
  "lookup (Branch cs v) (b # k) =
     (if unat b < length cs then (case cs ! unat b of None \<Rightarrow> None | Some n \<Rightarrow> lookup n k) else None)"
  by (auto split: option.splits)

lemma lookup_build_trie:
  "kv_ok ps \<Longrightarrow> lookup (build_trie ps) k = map_of ps k"
proof (induction "key_weight ps" arbitrary: ps k rule: less_induct)
  case less
  let ?n = "common_prefix_len ps"
  consider (one) "length ps = 1" | (ext) "length ps \<noteq> 1" "0 < ?n" | (branch) "length ps \<noteq> 1" "?n = 0"
    by blast
  then show ?case
  proof cases
    case one
    then obtain p where "ps = [p]" by (auto simp: length_Suc_conv)
    then show ?thesis by (subst build_trie.simps) (cases p, auto)
  next
    case ext
    let ?pre = "take ?n (fst (ps ! 0))"
    have shared: "\<forall>p \<in> set ps. take ?n (fst p) = ?pre" using common_prefix_shared by blast
    have "ps \<noteq> []" using ext by (auto simp: common_prefix_len_def)
    then have len: "length ?pre = ?n" using common_prefix_len_le [of "ps ! 0" ps] by (cases ps) auto
    have "lookup (build_trie (cut_keys ?n ps)) (drop ?n k) = map_of (cut_keys ?n ps) (drop ?n k)"
      by (intro less.hyps common_lighter [OF ext(2)] kv_ok_cut [OF less.prems shared])
    then show ?thesis
      using ext len map_of_cut_common [OF shared, of k] map_of_None_prefix [OF shared, of k]
      by (subst build_trie.simps) (auto simp: Let_def)
  next
    case branch
    obtain cs v where fill: "fill_trie ps (replicate 17 None) [] = (cs, v)" by fastforce
    have trie: "build_trie ps = Branch (take 16 cs) v"
      using branch fill by (subst build_trie.simps) (simp add: Let_def)
    have sorted: "sorted (map fst ps)" "distinct (map fst ps)" using less.prems by (simp_all add: kv_ok_def)
    have cs: "length cs = 17" using fill_trie_length [of ps "replicate 17 None" "[]"] fill by simp
    show ?thesis
    proof (cases k)
      case Nil
      have "map_of ps [] = Some w \<Longrightarrow> w \<noteq> []" for w
        using less.prems map_of_SomeD by (fastforce simp: kv_ok_def)
      then show ?thesis
        using Nil trie fill_trie_value [OF sorted(2), of "replicate 17 None" "[]"] fill
        by (auto split: option.splits)
    next
      case (Cons b k')
      show ?thesis
      proof (cases "unat b < 16")
        case True
        let ?group = "filter (same_first b) ps"
        have child: "cs ! unat b = (if ?group \<noteq> [] then Some (build_trie (cut_keys 1 ?group)) else None)"
          using fill_trie_children [OF sorted(1), of b "replicate 17 None" "[]"] fill True
          by (simp add: Let_def)
        show ?thesis
        proof (cases "?group = []")
          case True
          then have "map_of ps k = None" using map_of_cut_first [of b ps k'] Cons by (simp add: cut_keys_def)
          with True child trie Cons cs show ?thesis by (simp add: branch_nth del: lookup.simps)
        next
          case False
          have "key_weight (cut_keys 1 ?group) < key_weight ?group"
            using False by (intro key_weight_cut_less) (auto simp: same_first_def Suc_le_eq)
          also have "key_weight ?group \<le> key_weight ps" by (induction ps) auto
          finally have "lookup (build_trie (cut_keys 1 ?group)) k' = map_of (cut_keys 1 ?group) k'"
            by (intro less.hyps kv_ok_cut [where pre = "[b]"] kv_ok_filter [OF less.prems])
              (simp_all add: same_first_take del: One_nat_def)
          with False child trie Cons cs True map_of_cut_first [of b ps k'] show ?thesis
            by (simp add: branch_nth del: lookup.simps)
        qed
      next
        case False
        then have "map_of ps k = None"
          using less.prems Cons by (force simp: map_of_eq_None_iff kv_ok_def)
        with False trie Cons cs show ?thesis by (simp add: branch_nth del: lookup.simps)
      qed
    qed
  qed
qed

end
