(* ===== verification/TrieRoot.thy ===== *)
theory TrieRoot
  imports Trie
begin

section \<open>Trie roots commit to their contents\<close>

text \<open>
  The encoding of an abstract trie determines the trie, as long as Keccak-256 does not collide on the
  encodings of the nodes: RLP items can be told apart when they are written one after the other, the
  hex-prefix code keeps the path and the kind of a node, and child references are either the node or
  its hash. Together with the lookup theorem of \<open>Trie\<close> this gives what a light client relies on: equal
  \<open>mpt_root\<close>s mean equal contents, and a \<open>transactions_root\<close> fixes the list of transactions.
\<close>

subsection \<open>The hex-prefix code\<close>

lemma nibble_bits:
  assumes "unat (b :: byte) < 16" and "bit b n"
  shows "n < 4"
proof -
  have "b = take_bit 4 b"
    using assms(1) by (simp add: word_unat_eq_iff unsigned_take_bit_eq take_bit_nat_eq_self)
  with assms(2) show ?thesis by (metis bit_take_bit_iff)
qed

lemma nibble_pair:
  assumes "unat b < 16" and "unat b' < 16" and "unat a < 16" and "unat a' < 16"
    and "push_bit 4 a OR b = push_bit 4 a' OR (b' :: byte)"
  shows "a = a' \<and> b = b'"
proof -
  have bits: "bit (push_bit 4 a OR b) n \<longleftrightarrow> bit (push_bit 4 a' OR b') n" for n using assms(5) by simp
  have "bit b n \<longleftrightarrow> bit b' n" for n
    using bits [of n] nibble_bits [OF assms(1), of n] nibble_bits [OF assms(2), of n]
    by (auto simp: bit_simps)
  moreover have "bit a n \<longleftrightarrow> bit a' n" for n
    using bits [of "n + 4"] nibble_bits [OF assms(1), of "n + 4"] nibble_bits [OF assms(2), of "n + 4"]
      nibble_bits [OF assms(3), of n] nibble_bits [OF assms(4), of n]
    by (auto simp: bit_simps)
  ultimately show ?thesis by (simp add: bit_eq_iff)
qed

definition nibbles_ok :: "byte list \<Rightarrow> bool" where
  "nibbles_ok ns \<longleftrightarrow> (\<forall>b \<in> set ns. unat b < 16)"

lemma pack_inject:
  assumes "pack_nibbles xs = pack_nibbles ys" and "even (length xs)" and "even (length ys)"
    and "nibbles_ok xs" and "nibbles_ok ys"
  shows "xs = ys"
  using assms
proof (induction xs arbitrary: ys rule: pack_nibbles.induct)
  case (1 a b xs)
  then obtain c d zs where "ys = c # d # zs" by (cases ys rule: pack_nibbles.cases) auto
  with 1 nibble_pair [of b d a c] show ?case by (auto simp: nibbles_ok_def)
next
  case "2_1"
  then show ?case by (cases ys rule: pack_nibbles.cases) auto
qed auto

lemma hex_prefix_inject:
  assumes "hex_prefix xs l = hex_prefix ys l'" and "nibbles_ok xs" and "nibbles_ok ys"
  shows "xs = ys \<and> l = l'"
proof -
  have even: "hex_prefix ns m = (push_bit 4 (if m then 2 else 0) OR 0) # pack_nibbles ns" if "even (length ns)" for ns m
    using that by (simp add: hex_prefix_def even_iff_mod_2_eq_zero)
  have odd: "\<exists>n rest. ns = n # rest \<and> even (length rest) \<and>
      hex_prefix ns m = (push_bit 4 (if m then 3 else 1) OR n) # pack_nibbles rest" if "odd (length ns)" for ns m
    using that by (cases ns) (auto simp: hex_prefix_def odd_iff_mod_2_eq_one [symmetric])
  have flag: "unat (if m then 2 else 0 :: byte) < 16" "unat (if m then 3 else 1 :: byte) < 16" for m by auto
  have same: "m = m'" if "(if m then 2 else 0 :: byte) = (if m' then 2 else 0)" for m m'
    using that by (auto split: if_splits)
  have same': "m = m'" if "(if m then 3 else 1 :: byte) = (if m' then 3 else 1)" for m m'
    using that by (auto split: if_splits)
  have differ: "(if m then 2 else 0 :: byte) \<noteq> (if m' then 3 else 1)" for m m' by auto
  have small: "unat (0 :: byte) < 16" by simp
  note pair = nibble_pair [OF _ _ flag(1) flag(1)] nibble_pair [OF _ _ flag(2) flag(2)]
    nibble_pair [OF _ _ flag(1) flag(2)] nibble_pair [OF _ _ flag(2) flag(1)]
  show ?thesis
  proof (cases "even (length xs)"; cases "even (length ys)")
    assume "even (length xs)" "even (length ys)"
    with even [of xs l] even [of ys l'] pair(1) [OF small small, of l l'] pack_inject assms same
    show ?thesis by (metis list.inject)
  next
    assume e: "even (length xs)" and o: "odd (length ys)"
    from odd [OF o, of l'] obtain n rest where y: "ys = n # rest"
        "hex_prefix ys l' = (push_bit 4 (if l' then 3 else 1) OR n) # pack_nibbles rest" by blast
    then have "unat n < 16" using assms(3) by (simp add: nibbles_ok_def)
    with pair(3) [OF small this, of l l'] differ even [OF e, of l] y(2) assms(1) show ?thesis by (metis list.inject)
  next
    assume o: "odd (length xs)" and e: "even (length ys)"
    from odd [OF o, of l] obtain n rest where y: "xs = n # rest"
        "hex_prefix xs l = (push_bit 4 (if l then 3 else 1) OR n) # pack_nibbles rest" by blast
    then have "unat n < 16" using assms(2) by (simp add: nibbles_ok_def)
    with pair(4) [OF this small, of l l'] differ even [OF e, of l'] y(2) assms(1) show ?thesis by (metis list.inject)
  next
    assume o: "odd (length xs)" "odd (length ys)"
    from odd [OF o(1), of l] obtain n rest where x: "xs = n # rest" "even (length rest)"
        "hex_prefix xs l = (push_bit 4 (if l then 3 else 1) OR n) # pack_nibbles rest" by blast
    from odd [OF o(2), of l'] obtain m rest' where y: "ys = m # rest'" "even (length rest')"
        "hex_prefix ys l' = (push_bit 4 (if l' then 3 else 1) OR m) # pack_nibbles rest'" by blast
    have "unat n < 16" "unat m < 16" "nibbles_ok rest" "nibbles_ok rest'"
      using x(1) y(1) assms(2,3) by (simp_all add: nibbles_ok_def)
    with pair(2) [of n m l l'] x y assms(1) same' pack_inject [of rest rest'] show ?thesis by auto
  qed
qed

subsection \<open>RLP items\<close>

definition rlp_item :: "rlp \<Rightarrow> byte list \<Rightarrow> bool" where
  "rlp_item R s \<longleftrightarrow>
     (\<exists>b. s = enc_str R b \<and> length b < 2 ^ 64) \<or>
     (\<exists>p. s = enc_list_header R (length p) @ p \<and> length p < 2 ^ 64)"

lemma enc_str_prefix_free:
  assumes "rlp_encodes R" and "length b < 2 ^ 64" and "length b' < 2 ^ 64"
    and "enc_str R b @ r = enc_str R b' @ r'"
  shows "b = b' \<and> r = r'"
  using rlp_field_reads(1) [OF assms(1,2)] rlp_field_reads(1) [OF assms(1,3)] assms(4)
  unfolding reads_def by (metis result.inject(1) prod.inject)

lemma header_prefix_free:
  assumes R: "rlp_encodes R" and "length p < 2 ^ 64" and "length p' < 2 ^ 64"
    and "enc_list_header R (length p) @ p @ r = enc_list_header R (length p') @ p' @ r'"
  shows "p = p' \<and> r = r'"
proof -
  have read: "dec_header R (enc_list_header R (length q) @ q @ s) = Ok ((True, length q), q @ s)"
    if "length q < 2 ^ 64" for q s
    using R that unfolding rlp_encodes_def rlp_round_trips_def by simp
  then have "Ok ((True, length p), p @ r) = dec_header R (enc_list_header R (length p) @ p @ r)"
    using assms(2) by simp
  also have "\<dots> = Ok ((True, length p'), p' @ r')"
    unfolding assms(4) by (rule read [OF assms(3)])
  finally have "length p = length p'" "p @ r = p' @ r'" by simp_all
  then show ?thesis using append_eq_append_conv by blast
qed

lemma item_prefix_free:
  assumes R: "rlp_encodes R" and "rlp_item R s" and "rlp_item R s'" and eq: "s @ r = s' @ r'"
  shows "s = s' \<and> r = r'"
proof -
  have clash: False if "enc_str R b @ u = enc_list_header R n @ v" for b u n v
    using that str_first [OF R, of b] list_header_first [OF R, of n] by auto
  from assms(2) consider (s) b where "s = enc_str R b" "length b < 2 ^ 64"
    | (l) p where "s = enc_list_header R (length p) @ p" "length p < 2 ^ 64" by (auto simp: rlp_item_def)
  note left = this
  from assms(3) consider (s) b where "s' = enc_str R b" "length b < 2 ^ 64"
    | (l) p where "s' = enc_list_header R (length p) @ p" "length p < 2 ^ 64" by (auto simp: rlp_item_def)
  note right = this
  show ?thesis
  proof (cases rule: left)
    case (s b)
    show ?thesis
    proof (cases rule: right)
      case (s b')
      with \<open>s = enc_str R b\<close> \<open>length b < 2 ^ 64\<close> eq show ?thesis using enc_str_prefix_free [OF R] by blast
    next
      case (l p)
      with s eq clash show ?thesis by (metis append_assoc)
    qed
  next
    case (l p)
    show ?thesis
    proof (cases rule: right)
      case (s b)
      with l eq clash show ?thesis by (metis append_assoc)
    next
      case (l p')
      with \<open>s = enc_list_header R (length p) @ p\<close> \<open>length p < 2 ^ 64\<close> eq
        header_prefix_free [OF R, of p p' r r'] show ?thesis by (metis append_assoc)
    qed
  qed
qed

lemma item_nonempty: "rlp_encodes R \<Longrightarrow> rlp_item R s \<Longrightarrow> s \<noteq> []"
  using str_first list_header_first unfolding rlp_item_def by (metis Nil_is_append_conv list.discI)

lemma items_inject:
  assumes R: "rlp_encodes R"
  shows "\<forall>s \<in> set xs. rlp_item R s \<Longrightarrow> \<forall>s \<in> set ys. rlp_item R s \<Longrightarrow> concat xs = concat ys \<Longrightarrow> xs = ys"
proof (induction xs arbitrary: ys)
  case Nil
  then show ?case using item_nonempty [OF R] by (cases ys) auto
next
  case (Cons x xs)
  then obtain y zs where ys: "ys = y # zs" using item_nonempty [OF R, of x] by (cases ys) auto
  have "x = y \<and> concat xs = concat zs"
    by (rule item_prefix_free [OF R]) (use Cons.prems ys in simp_all)
  moreover from this have "xs = zs" using Cons.prems ys by (intro Cons.IH) simp_all
  ultimately show ?case using ys by simp
qed

lemma list_item_inject:
  assumes R: "rlp_encodes R" and "\<forall>s \<in> set xs. rlp_item R s" and "\<forall>s \<in> set ys. rlp_item R s"
    and "length (concat xs) < 2 ^ 64" and "length (concat ys) < 2 ^ 64"
    and "enc_list_header R (length (concat xs)) @ concat xs = enc_list_header R (length (concat ys)) @ concat ys"
  shows "xs = ys"
proof (rule items_inject [OF R assms(2,3)])
  show "concat xs = concat ys"
    using header_prefix_free [OF R assms(4,5), of "[]" "[]"] assms(6) unfolding append_Nil2 by blast
qed

subsection \<open>The items of a node\<close>

definition child_item :: "crypto \<Rightarrow> rlp \<Rightarrow> byte list \<Rightarrow> byte list" where
  "child_item C R c = write_child_ref R (if c = [] then Empty else child_ref C c)"

primrec node_items :: "crypto \<Rightarrow> rlp \<Rightarrow> node \<Rightarrow> byte list list" where
  "node_items C R (Leaf p v) = [enc_str R (hex_prefix p True), enc_str R v]"
| "node_items C R (Ext p n) = [enc_str R (hex_prefix p False), write_child_ref R (child_ref C (node_rlp C R n))]"
| "node_items C R (Branch cs v) =
     map (child_item C R \<circ> opt_bytes \<circ> map_option (node_rlp C R)) (take 16 cs) @ [enc_str R v]"

lemma child_ref_length:
  assumes R: "rlp_encodes R"
  shows "child_ref_encoded_length R c = length (write_child_ref R c)"
proof (cases c)
  case (Hashed h)
  have "length_of_length R 32 = 1" "2 \<le> length bs \<Longrightarrow> length (enc_str R bs) = length bs + length_of_length R (length bs)" for bs
    using R unfolding rlp_encodes_def rlp_lengths_def by auto
  then show ?thesis using Hashed by (simp add: enc_h256_def)
qed (simp_all add: rlp_length_simps [OF R])

lemma node_rlp_items:
  assumes R: "rlp_encodes R"
  shows "node_rlp C R n = enc_list_header R (length (concat (node_items C R n))) @ concat (node_items C R n)"
proof (cases n)
  case (Branch cs v)
  then show ?thesis
    by (simp add: rlp_branch_def Let_def child_ref_length [OF R] rlp_length_simps [OF R] child_item_def comp_def
        length_concat take_map [symmetric] if_distrib)
qed (simp_all add: rlp_leaf_or_extension_def rlp_extension_def Let_def rlp_length_simps [OF R]
    child_ref_length [OF R])

lemma node_rlp_first:
  assumes "rlp_encodes R"
  shows "\<exists>b bs. node_rlp C R n = b # bs \<and> 0xc0 \<le> b"
  using list_header_first [OF assms] node_rlp_items [OF assms, of C n] by (metis append_Cons)

text \<open>A child reference determines the child, unless its hash collides.\<close>

definition child_slot :: "crypto \<Rightarrow> rlp \<Rightarrow> node option \<Rightarrow> byte list" where
  "child_slot C R x = opt_bytes (map_option (node_rlp C R) x)"

lemma slot_simps [simp]: "child_slot C R None = []" "child_slot C R (Some n) = node_rlp C R n"
  by (simp_all add: child_slot_def opt_bytes_def)

lemma child_item_cases:
  assumes R: "rlp_encodes R"
  shows "child_item C R (child_slot C R None) = enc_str R []"
    and "length (node_rlp C R n) < 32 \<Longrightarrow> child_item C R (child_slot C R (Some n)) = node_rlp C R n"
    and "\<not> length (node_rlp C R n) < 32 \<Longrightarrow>
      child_item C R (child_slot C R (Some n)) = enc_str R (h256_bytes (keccak256 C (node_rlp C R n)))"
proof -
  have "enc_str R [] = [0x80]" using R by (simp add: rlp_encodes_def rlp_shapes_def)
  then show "child_item C R (child_slot C R None) = enc_str R []" by (simp add: child_item_def)
  have "node_rlp C R n \<noteq> []" using node_rlp_first [OF R, of C n] by auto
  then show "length (node_rlp C R n) < 32 \<Longrightarrow> child_item C R (child_slot C R (Some n)) = node_rlp C R n"
    "\<not> length (node_rlp C R n) < 32 \<Longrightarrow>
      child_item C R (child_slot C R (Some n)) = enc_str R (h256_bytes (keccak256 C (node_rlp C R n)))"
    by (simp_all add: child_item_def child_ref_def enc_h256_def)
qed

lemma enc_str_inject:
  "rlp_encodes R \<Longrightarrow> length b < 2 ^ 64 \<Longrightarrow> length b' < 2 ^ 64 \<Longrightarrow> enc_str R b = enc_str R b' \<longleftrightarrow> b = b'"
  using enc_str_prefix_free [of R b b' "[]" "[]"] by auto

lemma h256_bytes_inject: "h256_bytes (h :: h256) = h256_bytes h' \<longleftrightarrow> h = h'"
proof
  assume "h256_bytes h = h256_bytes h'"
  then have "(from_be_bytes (h256_bytes h) :: h256) = from_be_bytes (h256_bytes h')" by simp
  then show "h = h'" by simp
qed simp

lemma child_item_inject:
  assumes R: "rlp_encodes R" and eq: "child_item C R (child_slot C R x) = child_item C R (child_slot C R y)"
    and inj: "\<And>n m. x = Some n \<Longrightarrow> y = Some m \<Longrightarrow> keccak256 C (node_rlp C R n) = keccak256 C (node_rlp C R m) \<Longrightarrow>
      node_rlp C R n = node_rlp C R m"
  shows "(x = None \<longleftrightarrow> y = None) \<and> child_slot C R x = child_slot C R y"
proof -
  have clash: "enc_str R b \<noteq> node_rlp C R n" for b n
    using str_first [OF R, of b] node_rlp_first [OF R, of C n] by auto
  have kind: "child_item C R (child_slot C R z) = enc_str R []" if "z = None" for z
    using child_item_cases(1) [OF R] that by blast
  have full: "child_item C R (child_slot C R (Some n)) \<noteq> enc_str R []" for n
  proof (cases "length (node_rlp C R n) < 32")
    case True
    then show ?thesis using child_item_cases(2) [OF R True] clash by metis
  next
    case False
    have "h256_bytes (keccak256 C (node_rlp C R n)) \<noteq> []"
      using length_to_be_bytes [of 32 "keccak256 C (node_rlp C R n)"] by fastforce
    then show ?thesis
      using child_item_cases(3) [OF R False] enc_str_inject [OF R, of "h256_bytes (keccak256 C (node_rlp C R n))" "[]"]
      by simp
  qed
  show ?thesis
  proof (cases x)
    case None
    then show ?thesis using eq full kind by (cases y) metis+
  next
    case (Some n)
    then obtain m where m: "y = Some m" using eq full kind by (cases y) metis+
    have item: "child_item C R (child_slot C R (Some k)) =
        (if length (node_rlp C R k) < 32 then node_rlp C R k
         else enc_str R (h256_bytes (keccak256 C (node_rlp C R k))))" for k
      using child_item_cases(2,3) [OF R] by simp
    have "node_rlp C R n = node_rlp C R m"
      using eq clash enc_str_inject [OF R, of "h256_bytes (keccak256 C (node_rlp C R n))"
          "h256_bytes (keccak256 C (node_rlp C R m))"] h256_bytes_inject inj [OF Some m]
      unfolding Some m item by (auto split: if_splits simp: not_sym [OF clash])
    then show ?thesis using Some m by simp
  qed
qed

subsection \<open>Equal encodings, equal tries\<close>

definition node_encs :: "crypto \<Rightarrow> rlp \<Rightarrow> node \<Rightarrow> byte list set" where
  "node_encs C R n = node_rlp C R ` subnodes n"

primrec node_shape :: "node \<Rightarrow> bool" where
  "node_shape (Leaf p v) \<longleftrightarrow> nibbles_ok p"
| "node_shape (Ext p n) \<longleftrightarrow> nibbles_ok p"
| "node_shape (Branch cs v) \<longleftrightarrow> length cs = 16"

definition node_wf :: "crypto \<Rightarrow> rlp \<Rightarrow> node \<Rightarrow> bool" where
  "node_wf C R n \<longleftrightarrow> (\<forall>m \<in> subnodes n. node_shape m \<and> length (node_rlp C R m) < 2 ^ 64)"

lemma subnodes_self [simp]: "n \<in> subnodes n"
  by (cases n) auto

lemma subnodes_branch:
  "Some n \<in> set cs \<Longrightarrow> subnodes n \<subseteq> subnodes (Branch cs v)"
  by force

lemma str_item:
  assumes "rlp_encodes R" and "length (enc_str R b) < 2 ^ 64"
  shows "rlp_item R (enc_str R b)" and "length b < 2 ^ 64"
  using str_bound [OF assms(1), of b] assms(2) by (auto simp: rlp_item_def)

lemma slot_item:
  assumes R: "rlp_encodes R"
  shows "rlp_item R (child_item C R (child_slot C R x))"
proof -
  have "rlp_item R (enc_str R b)" if "length b \<le> 32" for b using that by (auto simp: rlp_item_def)
  moreover have "rlp_item R (node_rlp C R n)" if "length (node_rlp C R n) < 32" for n
    using that node_rlp_items [OF R, of C n] unfolding rlp_item_def by fastforce
  ultimately show ?thesis
    using child_item_cases [OF R] by (cases x; cases "length (node_rlp C R (the x)) < 32") auto
qed

lemma ext_child:
  assumes "rlp_encodes R"
  shows "write_child_ref R (child_ref C (node_rlp C R m)) = child_item C R (node_rlp C R m)"
  using node_rlp_first [OF assms, of C m] by (auto simp: child_item_def)

lemma node_items_ok:
  assumes R: "rlp_encodes R" and small: "length (node_rlp C R n) < 2 ^ 64"
  shows "\<forall>s \<in> set (node_items C R n). rlp_item R s" and "length (concat (node_items C R n)) < 2 ^ 64"
proof -
  show len: "length (concat (node_items C R n)) < 2 ^ 64"
    using small node_rlp_items [OF R, of C n] by simp
  have "rlp_item R (child_item C R (node_rlp C R m))" for m
    using slot_item [OF R, of C "Some m"] by simp
  then show "\<forall>s \<in> set (node_items C R n). rlp_item R s"
    using len str_item(1) [OF R] slot_item [OF R]
    by (cases n) (auto simp: ext_child [OF R] child_slot_def [symmetric] comp_def)
qed

lemma node_wf_children:
  "node_wf C R (Ext p n) \<Longrightarrow> node_wf C R n"
  "node_wf C R (Branch cs v) \<Longrightarrow> Some n \<in> set cs \<Longrightarrow> node_wf C R n"
  using subnodes_branch unfolding node_wf_def by fastforce+

lemma node_encs_children:
  "node_encs C R n \<subseteq> node_encs C R (Ext p n)"
  "Some n \<in> set cs \<Longrightarrow> node_encs C R n \<subseteq> node_encs C R (Branch cs v)"
proof -
  show "node_encs C R n \<subseteq> node_encs C R (Ext p n)" unfolding node_encs_def by (rule image_mono) auto
  show "Some n \<in> set cs \<Longrightarrow> node_encs C R n \<subseteq> node_encs C R (Branch cs v)"
    unfolding node_encs_def by (rule image_mono) (rule subnodes_branch)
qed

lemma node_enc_self [simp]: "node_rlp C R n \<in> node_encs C R n"
  by (simp add: node_encs_def)

lemma node_items_eq:
  assumes R: "rlp_encodes R" and "node_wf C R n" and "node_wf C R m" and "node_rlp C R n = node_rlp C R m"
  shows "node_items C R n = node_items C R m"
proof -
  have "length (node_rlp C R n) < 2 ^ 64" "length (node_rlp C R m) < 2 ^ 64"
    using assms(2,3) by (simp_all add: node_wf_def)
  from node_items_ok [OF R this(1)] node_items_ok [OF R this(2)] show ?thesis
    using list_item_inject [OF R] assms(4) node_rlp_items [OF R, of C] by metis
qed

lemma strings_of_items:
  assumes R: "rlp_encodes R" and "node_wf C R n" and "enc_str R b \<in> set (node_items C R n)"
  shows "length b < 2 ^ 64"
proof (rule str_item(2) [OF R])
  have "length (enc_str R b) \<le> length (concat (node_items C R n))"
    using element_length_le [OF assms(3), of id] by simp
  also have "\<dots> < 2 ^ 64" using assms(2) node_items_ok(2) [OF R] by (simp add: node_wf_def)
  finally show "length (enc_str R b) < 2 ^ 64" .
qed

lemma path_item_inject:
  assumes R: "rlp_encodes R" and "node_wf C R n" and "node_wf C R m"
    and "enc_str R (hex_prefix p l) = enc_str R (hex_prefix q l')"
    and "enc_str R (hex_prefix p l) \<in> set (node_items C R n)" and "enc_str R (hex_prefix q l') \<in> set (node_items C R m)"
    and "nibbles_ok p" and "nibbles_ok q"
  shows "p = q \<and> l = l'"
proof (rule hex_prefix_inject [OF _ assms(7,8)])
  show "hex_prefix p l = hex_prefix q l'"
    using enc_str_inject [OF R strings_of_items [OF R assms(2,5)] strings_of_items [OF R assms(3,6)]] assms(4) by blast
qed

lemma value_item_inject:
  assumes R: "rlp_encodes R" and "node_wf C R n" and "node_wf C R m" and "enc_str R v = enc_str R w"
    and "enc_str R v \<in> set (node_items C R n)" and "enc_str R w \<in> set (node_items C R m)"
  shows "v = w"
  using enc_str_inject [OF R strings_of_items [OF R assms(2,5)] strings_of_items [OF R assms(3,6)]] assms(4) by blast

lemma node_wf_shape: "node_wf C R n \<Longrightarrow> node_shape n"
  by (simp add: node_wf_def)

lemma node_rlp_inject:
  assumes R: "rlp_encodes R"
  shows "node_wf C R n \<Longrightarrow> node_wf C R m \<Longrightarrow> inj_on (keccak256 C) (node_encs C R n \<union> node_encs C R m) \<Longrightarrow>
    node_rlp C R n = node_rlp C R m \<Longrightarrow> n = m"
proof (induction n arbitrary: m)
  case (Leaf p v)
  note items = node_items_eq [OF R Leaf.prems(1,2,4)]
  note path = path_item_inject [OF R Leaf.prems(1,2), of p True]
  note val = value_item_inject [OF R Leaf.prems(1,2), of v]
  show ?case
    using items path val node_wf_shape [OF Leaf.prems(1)] node_wf_shape [OF Leaf.prems(2)]
    by (cases m) auto
next
  case (Ext p n)
  note items = node_items_eq [OF R Ext.prems(1,2,4)]
  note path = path_item_inject [OF R Ext.prems(1,2), of p False]
  show ?case
  proof (cases m)
    case (Ext q k)
    have "p = q" using items path Ext node_wf_shape [OF Ext.prems(1)] node_wf_shape [OF Ext.prems(2)] by auto
    have enc: "node_rlp C R n \<in> node_encs C R (node.Ext p n)" "node_rlp C R k \<in> node_encs C R m"
      using node_encs_children(1) node_enc_self Ext by blast+
    have "child_item C R (child_slot C R (Some n)) = child_item C R (child_slot C R (Some k))"
      using items Ext by (simp add: ext_child [OF R])
    then have "child_slot C R (Some n) = child_slot C R (Some k)"
      using inj_onD [OF Ext.prems(3)] enc
      by (intro child_item_inject [OF R, THEN conjunct2]) blast+
    moreover have "inj_on (keccak256 C) (node_encs C R n \<union> node_encs C R k)"
      using node_encs_children(1) [of C R n p] node_encs_children(1) [of C R k q] Ext
      by (intro inj_on_subset [OF Ext.prems(3)]) auto
    ultimately have "n = k"
      using Ext.IH [of k] node_wf_children(1) [OF Ext.prems(1)] node_wf_children(1) [of C R q k] Ext.prems(2) Ext
      by simp
    with \<open>p = q\<close> Ext show ?thesis by simp
  qed (use items path node_wf_shape [OF Ext.prems(1)] node_wf_shape [OF Ext.prems(2)] in auto)
next
  case (Branch cs v)
  note items = node_items_eq [OF R Branch.prems(1,2,4)]
  have shape: "length cs = 16" "node_shape m" using node_wf_shape Branch.prems(1,2) by fastforce+
  show ?case
  proof (cases m)
    case (Branch ds w)
    have len: "length ds = 16" using shape Branch by simp
    have "map (child_item C R \<circ> child_slot C R) cs @ [enc_str R v] = map (child_item C R \<circ> child_slot C R) ds @ [enc_str R w]"
      using items Branch shape len by (simp add: child_slot_def [abs_def] comp_def)
    then have map: "map (child_item C R \<circ> child_slot C R) cs = map (child_item C R \<circ> child_slot C R) ds"
        and "enc_str R v = enc_str R w" by simp_all
    have children: "child_item C R (child_slot C R (cs ! i)) = child_item C R (child_slot C R (ds ! i))" if "i < 16" for i
      using arg_cong [OF map, of "\<lambda>xs. xs ! i"] that shape(1) len by simp
    from \<open>enc_str R v = enc_str R w\<close> have "v = w" using value_item_inject [OF R Branch.prems(1,2), of v w] Branch by simp
    have "cs ! i = ds ! i" if i: "i < 16" for i
    proof -
      have mem: "cs ! i \<in> set cs" "ds ! i \<in> set ds" using i shape(1) len by simp_all
      have encs: "node_encs C R n \<subseteq> node_encs C R (node.Branch cs v)" if "cs ! i = Some n" for n
        using node_encs_children(2) mem(1) that by metis
      have encs': "node_encs C R k \<subseteq> node_encs C R m" if "ds ! i = Some k" for k
        using node_encs_children(2) mem(2) that Branch by metis
      have same: "(cs ! i = None \<longleftrightarrow> ds ! i = None) \<and> child_slot C R (cs ! i) = child_slot C R (ds ! i)"
        using children [OF i] encs encs' inj_onD [OF Branch.prems(3)] node_enc_self
        by (intro child_item_inject [OF R]) blast+
      show ?thesis
      proof (cases "cs ! i")
        case (Some n)
        with same obtain k where k: "ds ! i = Some k" by auto
        have "inj_on (keccak256 C) (node_encs C R n \<union> node_encs C R k)"
          using encs [OF Some] encs' [OF k] by (intro inj_on_subset [OF Branch.prems(3)]) auto
        moreover have "node_wf C R n" "node_wf C R k"
          using node_wf_children(2) mem Some k Branch.prems(1,2) Branch by metis+
        ultimately have "n = k" using Branch.IH [of "cs ! i" n k] mem(1) Some k same by simp
        with Some k show ?thesis by simp
      qed (use same in auto)
    qed
    then have "cs = ds" using shape(1) len by (simp add: list_eq_iff_nth_eq)
    with \<open>v = w\<close> Branch show ?thesis by simp
  qed (use items shape(1) in auto)
qed

subsection \<open>The tries of \<open>mpt_root\<close>\<close>

lemma build_trie_branch:
  assumes "kv_ok ps" and "length ps \<noteq> 1" and "common_prefix_len ps = 0"
  shows "\<exists>cs v. build_trie ps = Branch cs v \<and> length cs = 16 \<and>
    (\<forall>n. Some n \<in> set cs \<longrightarrow> (\<exists>b. n = build_trie (cut_keys 1 (filter (same_first b) ps)) \<and> filter (same_first b) ps \<noteq> []))"
proof -
  obtain cs v where fill: "fill_trie ps (replicate 17 None) [] = (cs, v)" by fastforce
  have cs: "length cs = 17" using fill_trie_length [of ps "replicate 17 None" "[]"] fill by simp
  have "\<exists>b. n = build_trie (cut_keys 1 (filter (same_first b) ps)) \<and> filter (same_first b) ps \<noteq> []"
    if "Some n \<in> set (take 16 cs)" for n
  proof -
    obtain i where i: "i < 16" "cs ! i = Some n" using \<open>Some n \<in> set (take 16 cs)\<close> cs by (auto simp: in_set_conv_nth)
    let ?b = "word_of_nat i :: byte"
    have "unat ?b = i" using i(1) by (intro unat_word_of_nat_small) simp
    then show ?thesis
      using fill_trie_children [of ps ?b "replicate 17 None" "[]"] assms(1) fill i
      by (intro exI [of _ ?b]) (auto simp: kv_ok_def Let_def split: if_splits)
  qed
  moreover have "build_trie ps = Branch (take 16 cs) v"
    using assms(2,3) fill by (subst build_trie.simps) (simp add: Let_def)
  ultimately show ?thesis using cs by auto
qed

lemma group_lighter:
  assumes "filter (same_first b) ps \<noteq> []"
  shows "key_weight (cut_keys 1 (filter (same_first b) ps)) < key_weight ps"
proof -
  have "key_weight (cut_keys 1 (filter (same_first b) ps)) < key_weight (filter (same_first b) ps)"
    using assms by (intro key_weight_cut_less) (auto simp: same_first_def Suc_le_eq)
  also have "\<dots> \<le> key_weight ps" by (induction ps) auto
  finally show ?thesis .
qed

lemma kv_ok_group: "kv_ok ps \<Longrightarrow> kv_ok (cut_keys 1 (filter (same_first b) ps))"
  by (intro kv_ok_cut [where pre = "[b]"] kv_ok_filter) (simp_all add: same_first_take del: One_nat_def)

lemma build_trie_shape: "kv_ok ps \<Longrightarrow> m \<in> subnodes (build_trie ps) \<Longrightarrow> node_shape m"
proof (induction "key_weight ps" arbitrary: ps rule: less_induct)
  case less
  have keys: "nibbles_ok (fst p)" if "p \<in> set ps" for p
    using less.prems(1) that by (simp add: kv_ok_def nibbles_ok_def)
  let ?n = "common_prefix_len ps"
  consider (one) "length ps = 1" | (ext) "length ps \<noteq> 1" "0 < ?n" | (branch) "length ps \<noteq> 1" "?n = 0" by blast
  then show ?case
  proof cases
    case one
    then obtain p where "ps = [p]" by (auto simp: length_Suc_conv)
    then have "build_trie ps = Leaf (fst p) (snd p)" by (subst build_trie.simps) simp
    with less.prems(2) keys \<open>ps = [p]\<close> show ?thesis by simp
  next
    case ext
    then have trie: "build_trie ps = Ext (take ?n (fst (ps ! 0))) (build_trie (cut_keys ?n ps))"
      by (subst build_trie.simps) (simp add: Let_def)
    have "ps ! 0 \<in> set ps" using ext by (cases ps) (auto simp: common_prefix_len_def)
    then have "nibbles_ok (take ?n (fst (ps ! 0)))" using keys [of "ps ! 0"] by (auto simp: nibbles_ok_def dest: in_set_takeD)
    moreover have "kv_ok (cut_keys ?n ps)"
      using kv_ok_cut [OF less.prems(1)] common_prefix_shared by blast
    ultimately show ?thesis
      using less.hyps [OF common_lighter [OF ext(2)]] less.prems(2) trie by auto
  next
    case branch
    from build_trie_branch [OF less.prems(1) this] obtain cs v where
      trie: "build_trie ps = Branch cs v" "length cs = 16" and
      child: "\<And>n. Some n \<in> set cs \<Longrightarrow> \<exists>b. n = build_trie (cut_keys 1 (filter (same_first b) ps)) \<and> filter (same_first b) ps \<noteq> []"
      by blast
    show ?thesis
    proof (cases "m = Branch cs v")
      case True
      then show ?thesis using trie(2) by simp
    next
      case False
      with less.prems(2) trie(1) obtain n where "Some n \<in> set cs" "m \<in> subnodes n"
        by (auto split: option.splits)
      with child less.hyps [OF group_lighter kv_ok_group [OF less.prems(1)]] show ?thesis by blast
    qed
  qed
qed

text \<open>The trie of a list of items.\<close>

definition items_trie :: "kv list \<Rightarrow> node" where
  "items_trie items = build_trie (sort_key fst (map (\<lambda>(k, v). (key_to_nibbles k, v)) items))"

definition items_ok :: "kv list \<Rightarrow> bool" where
  "items_ok items \<longleftrightarrow> distinct (map fst items) \<and> (\<forall>p \<in> set items. snd p \<noteq> [])"

lemma low_nibble: "(b AND 0x0f :: byte) = take_bit 4 b"
  by (simp add: take_bit_eq_mask mask_eq_exp_minus_1)

lemma high_nibble: "shr (b :: byte) 4 = drop_bit 4 b"
  by (simp add: shr_def)

lemma nibbles_of_byte: "unat (shr (b :: byte) 4) < 16" "unat (b AND 0x0f) < 16"
proof -
  have "unat b < 2 ^ 8" by (rule order_less_le_trans [OF unsigned_less]) simp
  then show "unat (shr b 4) < 16" by (simp add: high_nibble unsigned_drop_bit_eq drop_bit_nat_def take_bit_nat_def)
  show "unat (b AND 0x0f) < 16" by (simp add: low_nibble unsigned_take_bit_eq take_bit_nat_def)
qed

lemma key_to_nibbles_ok: "nibbles_ok (key_to_nibbles k)"
  using nibbles_of_byte by (auto simp: nibbles_ok_def key_to_nibbles_def)

lemma byte_of_nibbles:
  assumes "shr (b :: byte) 4 = shr b' 4" and "b AND 0x0f = b' AND 0x0f"
  shows "b = b'"
  using assms unfolding high_nibble low_nibble
  by (metis bits_ident)

lemma key_to_nibbles_inject: "key_to_nibbles k = key_to_nibbles k' \<longleftrightarrow> k = k'"
proof
  show "key_to_nibbles k = key_to_nibbles k' \<Longrightarrow> k = k'"
  proof (induction k arbitrary: k')
    case Nil
    then show ?case by (cases k') (simp_all add: key_to_nibbles_def)
  next
    case (Cons b k)
    then obtain b' l where "k' = b' # l" by (cases k') (auto simp: key_to_nibbles_def)
    with Cons byte_of_nibbles show ?case by (auto simp: key_to_nibbles_def)
  qed
qed simp

lemma distinct_sort_key_map: "distinct (map f (sort_key g ps)) \<longleftrightarrow> distinct (map f ps)"
  by (metis mset_eq_imp_distinct_iff mset_map mset_sort)

lemma items_kv_ok:
  assumes "items_ok items"
  shows "kv_ok (sort_key fst (map (\<lambda>(k, v). (key_to_nibbles k, v)) items))"
proof -
  let ?ps = "map (\<lambda>(k, v). (key_to_nibbles k, v)) items"
  have "map fst ?ps = map key_to_nibbles (map fst items)" by (simp add: comp_def case_prod_beta')
  then have "distinct (map fst ?ps)"
    using assms by (simp add: items_ok_def distinct_map inj_on_def key_to_nibbles_inject)
  then have "distinct (map fst (sort_key fst ?ps))" by (simp only: distinct_sort_key_map)
  moreover have "\<forall>p \<in> set ?ps. snd p \<noteq> [] \<and> (\<forall>b \<in> set (fst p). unat b < 16)"
    using assms key_to_nibbles_ok by (auto simp: items_ok_def nibbles_ok_def)
  ultimately show ?thesis by (simp add: kv_ok_def)
qed

definition trie_fits :: "crypto \<Rightarrow> rlp \<Rightarrow> kv list \<Rightarrow> bool" where
  "trie_fits C R items \<longleftrightarrow> (\<forall>s \<in> node_encs C R (items_trie items). length s < 2 ^ 64)"

lemma items_trie_wf: "items_ok items \<Longrightarrow> trie_fits C R items \<Longrightarrow> node_wf C R (items_trie items)"
  using build_trie_shape [OF items_kv_ok] unfolding node_wf_def trie_fits_def node_encs_def items_trie_def by auto

lemma items_trie_lookup:
  assumes "items_ok items"
  shows "lookup (items_trie items) (key_to_nibbles k) = map_of items k"
proof -
  let ?ps = "map (\<lambda>(k, v). (key_to_nibbles k, v)) items"
  have ok: "kv_ok (sort_key fst ?ps)" by (rule items_kv_ok [OF assms])
  then have sorted: "distinct (map fst (sort_key fst ?ps))" by (simp add: kv_ok_def)
  then have "distinct (map fst ?ps)" by (simp only: distinct_sort_key_map)
  then have "map_of (sort_key fst ?ps) = map_of ?ps"
    using sorted by (intro map_of_inject_set [THEN iffD2]) simp_all
  moreover have "map_of ?ps (key_to_nibbles k) = map_of items k"
    by (induction items) (auto simp: key_to_nibbles_inject)
  ultimately show ?thesis using lookup_build_trie [OF ok] by (simp add: items_trie_def)
qed

lemma items_trie_set:
  assumes "items_ok items" and "items_ok items'" and "items_trie items = items_trie items'"
  shows "set items = set items'"
proof -
  have "map_of items = map_of items'"
    using items_trie_lookup [OF assms(1)] items_trie_lookup [OF assms(2)] assms(3) by (metis ext)
  then show ?thesis using assms(1,2) map_of_inject_set by (auto simp: items_ok_def)
qed

lemma items_trie_perm:
  assumes "items_ok items" and "items_ok items'" and "set items = set items'"
  shows "items_trie items = items_trie items'"
proof -
  let ?ps = "\<lambda>is. map (\<lambda>(k, v). (key_to_nibbles k, v)) is :: kv list"
  have ok: "kv_ok (sort_key fst (?ps items))" "kv_ok (sort_key fst (?ps items'))"
    using items_kv_ok assms by blast+
  have sets: "set (sort_key fst (?ps items)) = set (sort_key fst (?ps items'))" using assms(3) by simp
  have "inj_on fst (set (sort_key fst (?ps items)))" using ok(1) by (simp add: kv_ok_def distinct_map)
  then have "sort_key fst (?ps items) = sort_key fst (?ps items')"
    using ok sets by (intro map_sorted_distinct_set_unique [of fst]) (simp_all add: kv_ok_def)
  then show ?thesis by (simp add: items_trie_def)
qed

lemma mpt_root_items:
  "mpt_root C R items = (if items = [] then EMPTY_TRIE_HASH else keccak256 C (node_rlp C R (items_trie items)))"
  by (simp add: mpt_root_def items_trie_def build_node_refines(1) Let_def)

subsection \<open>Lists keyed by index\<close>

lemma u64_inject: "rlp_encodes R \<Longrightarrow> enc_u64 R w = enc_u64 R w' \<longleftrightarrow> w = w'"
  using rlp_field_reads(2) unfolding reads_def by (metis result.inject(1) prod.inject)

lemma index_key_inject:
  assumes "rlp_encodes R" and "i < 2 ^ 64" and "j < 2 ^ 64"
  shows "enc_u64 R (word_of_nat i) = enc_u64 R (word_of_nat j) \<longleftrightarrow> i = j"
proof -
  have "unat (word_of_nat i :: u64) = i" "unat (word_of_nat j :: u64) = j"
    using assms(2,3) by (simp_all add: unat_word_of_nat_small)
  then show ?thesis using u64_inject [OF assms(1)] by metis
qed

lemma indexed_pairs_upt:
  "indexed_pairs R enc xs = map (\<lambda>i. (enc_u64 R (word_of_nat i), enc (xs ! i))) [0..<length xs]"
  unfolding indexed_pairs_def by (rule nth_equalityI) (simp_all add: nth_enumerate_eq)

lemma set_indexed: "set (indexed_pairs R enc xs) = (\<lambda>i. (enc_u64 R (word_of_nat i), enc (xs ! i))) ` {..<length xs}"
  by (simp add: indexed_pairs_upt atLeast0LessThan)

lemma indexed_ok:
  assumes R: "rlp_encodes R" and "length xs < 2 ^ 64" and "\<forall>x \<in> set xs. enc x \<noteq> []"
  shows "items_ok (indexed_pairs R enc xs)"
proof -
  have keys: "map fst (indexed_pairs R enc xs) = map (\<lambda>i. enc_u64 R (word_of_nat i)) [0..<length xs]"
    by (simp add: indexed_pairs_upt comp_def)
  have "distinct (map fst (indexed_pairs R enc xs))"
    unfolding keys using assms(2) index_key_inject [OF R] by (simp add: distinct_map inj_on_def)
  moreover have "\<forall>p \<in> set (indexed_pairs R enc xs). snd p \<noteq> []"
    using assms(3) by (simp add: set_indexed)
  ultimately show ?thesis by (simp add: items_ok_def)
qed

lemma indexed_set_inject:
  assumes R: "rlp_encodes R" and "length xs < 2 ^ 64" and "length ys < 2 ^ 64"
    and inj: "\<And>x y. x \<in> set xs \<Longrightarrow> y \<in> set ys \<Longrightarrow> enc x = enc y \<Longrightarrow> x = y"
    and eq: "set (indexed_pairs R enc xs) = set (indexed_pairs R enc ys)"
  shows "xs = ys"
proof -
  have half: "i < length vs \<and> enc (us ! i) = enc (vs ! i)"
    if "i < length us" "length us < 2 ^ 64" "length vs < 2 ^ 64"
      "set (indexed_pairs R enc us) = set (indexed_pairs R enc vs)" for us vs i
  proof -
    have "(enc_u64 R (word_of_nat i), enc (us ! i)) \<in> set (indexed_pairs R enc vs)"
      using that(1,4) by (auto simp: set_indexed)
    then obtain j where "j < length vs" "enc_u64 R (word_of_nat i) = enc_u64 R (word_of_nat j)" "enc (us ! i) = enc (vs ! j)"
      by (auto simp: set_indexed)
    with that index_key_inject [OF R, of i j] show ?thesis by simp
  qed
  have "length xs = length ys"
    using half [of _ xs ys] half [of _ ys xs] assms(2,3) eq by (metis linorder_neqE_nat less_irrefl)
  then show ?thesis
    using half [OF _ assms(2,3) eq] inj by (intro nth_equalityI) auto
qed

lemma mpt_root_eq_iff:
  assumes R: "rlp_encodes R" and ok: "items_ok items" "items_ok items'"
    and fits: "trie_fits C R items" "trie_fits C R items'"
    and empty: "EMPTY_TRIE_HASH = keccak256 C [0x80]"
    and inj: "inj_on (keccak256 C) ({[0x80]} \<union> node_encs C R (items_trie items) \<union> node_encs C R (items_trie items'))"
  shows "mpt_root C R items = mpt_root C R items' \<longleftrightarrow> set items = set items'"
proof
  assume "set items = set items'"
  then show "mpt_root C R items = mpt_root C R items'"
    using items_trie_perm [OF ok] by (auto simp: mpt_root_items)
next
  assume root: "mpt_root C R items = mpt_root C R items'"
  have node: "node_rlp C R n \<noteq> [0x80]" for n using node_rlp_first [OF R, of C n] by auto
  have "keccak256 C (node_rlp C R (items_trie items)) \<noteq> EMPTY_TRIE_HASH"
      "keccak256 C (node_rlp C R (items_trie items')) \<noteq> EMPTY_TRIE_HASH"
    using inj_onD [OF inj, of "[0x80]" "node_rlp C R (items_trie items)"]
      inj_onD [OF inj, of "[0x80]" "node_rlp C R (items_trie items')"] node
    unfolding empty by (metis UnI1 UnI2 insertI1 node_enc_self)+
  then have "items = [] \<longleftrightarrow> items' = []"
    using root by (auto simp: mpt_root_items split: if_splits)
  moreover have "items_trie items = items_trie items'" if "items \<noteq> []" "items' \<noteq> []"
  proof (rule node_rlp_inject [OF R items_trie_wf [OF ok(1) fits(1)] items_trie_wf [OF ok(2) fits(2)]])
    show "inj_on (keccak256 C) (node_encs C R (items_trie items) \<union> node_encs C R (items_trie items'))"
      by (rule inj_on_subset [OF inj]) auto
    show "node_rlp C R (items_trie items) = node_rlp C R (items_trie items')"
      using root that inj_onD [OF inj] by (simp add: mpt_root_items)
  qed
  ultimately show "set items = set items'" using items_trie_set [OF ok] by auto
qed

lemma encode_2718_nonempty: "rlp_encodes R \<Longrightarrow> encode_2718 R t \<noteq> []"
  using legacy_first [of R] by (cases t) (auto, metis list.discI)

lemma transactions_root_mpt:
  "transactions_root_of C R b = mpt_root C R (indexed_pairs R (encode_2718 R) (transactions b))"
  by (simp add: transactions_root_of_def mpt_root_def indexed_pairs_def)

lemma leaf_trie: "items_trie [(k, v)] = Leaf (key_to_nibbles k) v"
  by (simp add: items_trie_def, subst build_trie.simps, simp)

lemma leaf_encs: "node_encs C R (items_trie [(k, v)]) = {node_rlp C R (Leaf (key_to_nibbles k) v)}"
  by (simp add: node_encs_def leaf_trie)

lemma length_hex_prefix: "length (hex_prefix p l) \<le> length p + 1"
proof -
  have pack: "length (pack_nibbles ns) \<le> length ns" for ns by (induction ns rule: pack_nibbles.induct) auto
  from pack [of p] pack [of "drop 1 p"] show ?thesis by (cases p) (auto simp: hex_prefix_def Let_def)
qed

lemma length_key_to_nibbles: "length (key_to_nibbles k) = 2 * length k"
  by (induction k) (simp_all add: key_to_nibbles_def)

lemma leaf_fits:
  assumes R: "rlp_encodes R" and "length k \<le> 1000" and "length v \<le> 1000"
  shows "trie_fits C R [(k, v)]"
proof -
  let ?hp = "hex_prefix (key_to_nibbles k) True"
  have "length ?hp \<le> 2001" using length_hex_prefix [of "key_to_nibbles k" True] assms(2) by (simp add: length_key_to_nibbles)
  then have "length (node_rlp C R (Leaf (key_to_nibbles k) v)) \<le> 5000"
    using str_upper [OF R, of ?hp] str_upper [OF R, of v] assms(3)
      list_header_upper [OF R, of "len_str R ?hp + len_str R v"]
    by (simp add: rlp_leaf_or_extension_def Let_def rlp_length_simps [OF R])
  then show ?thesis by (simp add: trie_fits_def leaf_encs)
qed

text \<open>A hash without collisions on the strings that matter.\<close>

definition demo_hash :: "byte list \<Rightarrow> crypto" where
  "demo_hash s = demo_crypto\<lparr>tiny_keccak := \<lambda>x. if x = [0x80] then EMPTY_TRIE_HASH else if x = s then 1 else 2\<rparr>"

lemma demo_hash_empty: "keccak256 (demo_hash s) [0x80] = EMPTY_TRIE_HASH"
  by (simp add: demo_hash_def keccak256_def)

lemma demo_hash_inj: "inj_on (keccak256 (demo_hash s)) {[0x80], s, s'}"
  by (auto simp: inj_on_def demo_hash_def keccak256_def EMPTY_TRIE_HASH_def)

lemma leaf_hash_inj:
  "inj_on (keccak256 (demo_hash (rlp_leaf_or_extension R (key_to_nibbles k) v True)))
     ({[0x80]} \<union> node_encs C R (items_trie [(k, v)]) \<union> node_encs C R (items_trie [(k', v')]))"
proof -
  have "{[0x80]} \<union> node_encs C R (items_trie [(k, v)]) \<union> node_encs C R (items_trie [(k', v')]) =
      {[0x80], rlp_leaf_or_extension R (key_to_nibbles k) v True, rlp_leaf_or_extension R (key_to_nibbles k') v' True}"
    by (auto simp: leaf_encs)
  then show ?thesis using demo_hash_inj by simp
qed

definition demo_transfer :: "u64 \<Rightarrow> tx" where
  "demo_transfer n = Legacy \<lparr>nonce = n, gas_price = 1000, gas_limit = 21000, to_addr = Some 5, tx_value = 300,
     tx_data = [], tx_v = 27, tx_r = 11, tx_s = 12, algo = Secp256k1\<rparr>"

definition demo_body :: "u64 \<Rightarrow> block_body" where
  "demo_body n = \<lparr>transactions = [demo_transfer n], ommers = [], withdrawals = []\<rparr>"

lemma demo_transfer_small: "length (encode_2718 rlp_format (demo_transfer n)) \<le> 300"
proof -
  obtain l where l: "demo_transfer n = Legacy l" "tx_data l = []" by (simp add: demo_transfer_def)
  show ?thesis using legacy_length_bound [OF rlp_format_encodes, of l] l(2) unfolding l(1) by simp
qed

subsection \<open>Properties\<close>

text \<open>
  Equal Merkle roots, equal contents. For two lists of items with distinct keys and non-empty
  values, \<open>mpt_root\<close> gives the same hash if and only if they hold the same key-value pairs (in whatever
  order), as long as Keccak-256 does not collide on the nodes of the two tries and the empty string.
  This covers key sorting, extension and branch nodes, keys that are prefixes of others, inlined
  children and hashed ones.
\<close>

theorem mpt_root_binds:
  assumes "rlp_encodes R" and "items_ok items" and "items_ok items'"
    and "trie_fits C R items" and "trie_fits C R items'"
    and "EMPTY_TRIE_HASH = keccak256 C [0x80]"
    and "inj_on (keccak256 C) ({[0x80]} \<union> node_encs C R (items_trie items) \<union> node_encs C R (items_trie items'))"
  shows "mpt_root C R items = mpt_root C R items' \<longleftrightarrow> set items = set items'"
  using assms by (rule mpt_root_eq_iff)

theorem mpt_root_binds_witness:
  "let C = demo_hash (rlp_leaf_or_extension rlp_format (key_to_nibbles [1]) [2] True)
   in mpt_root C rlp_format [([1], [2])] \<noteq> mpt_root C rlp_format [([1], [3])]"
proof -
  let ?s = "rlp_leaf_or_extension rlp_format (key_to_nibbles [1]) [2] True"
  let ?C = "demo_hash ?s"
  note R = rlp_format_encodes
  have ok: "items_ok [([1], [2])]" "items_ok [([1], [3])]" by (simp_all add: items_ok_def)
  have fits: "trie_fits ?C rlp_format [([1], [2])]" "trie_fits ?C rlp_format [([1], [3])]"
    by (simp_all add: leaf_fits [OF R])
  have empty: "EMPTY_TRIE_HASH = keccak256 ?C [0x80]" by (simp add: demo_hash_empty)
  have inj: "inj_on (keccak256 ?C) ({[0x80]} \<union> node_encs ?C rlp_format (items_trie [([1], [2])]) \<union>
      node_encs ?C rlp_format (items_trie [([1], [3])]))"
    by (rule leaf_hash_inj)
  show ?thesis
    using mpt_root_binds [OF R ok fits empty inj] by (simp add: Let_def)
qed

text \<open>
  The \<open>transactions_root\<close> of a header fixes the transactions: two bodies have the same
  \<open>transactions_root\<close> if and only if they hold the same transactions in the same order, as long as
  Keccak-256 does not collide on the nodes of their tries and the encodings fit in memory.
\<close>

theorem transactions_root_binds:
  assumes "rlp_encodes R"
    and "\<forall>t \<in> set (transactions b) \<union> set (transactions b'). tx_sized R t"
    and "length (transactions b) < 2 ^ 64" and "length (transactions b') < 2 ^ 64"
    and "i = indexed_pairs R (encode_2718 R) (transactions b)" and "trie_fits C R i"
    and "i' = indexed_pairs R (encode_2718 R) (transactions b')" and "trie_fits C R i'"
    and "EMPTY_TRIE_HASH = keccak256 C [0x80]"
    and "inj_on (keccak256 C) ({[0x80]} \<union> node_encs C R (items_trie i) \<union> node_encs C R (items_trie i'))"
  shows "transactions_root_of C R b = transactions_root_of C R b' \<longleftrightarrow> transactions b = transactions b'"
proof -
  have ok: "items_ok i" "items_ok i'"
    unfolding assms(5,7) using indexed_ok [OF assms(1)] assms(3,4) encode_2718_nonempty [OF assms(1)] by blast+
  have "transactions_root_of C R b = transactions_root_of C R b' \<longleftrightarrow> set i = set i'"
    unfolding transactions_root_mpt assms(5,7) [symmetric]
    by (rule mpt_root_eq_iff [OF assms(1) ok assms(6,8,9,10)])
  moreover have "transactions b = transactions b'" if "set i = set i'"
  proof (rule indexed_set_inject [OF assms(1,3,4)])
    show "x = y" if "x \<in> set (transactions b)" "y \<in> set (transactions b')" "encode_2718 R x = encode_2718 R y" for x y
      using tx_envelope.enc_inject [OF assms(1)] assms(2) that by blast
  qed (use that assms(5,7) in simp)
  ultimately show ?thesis using assms(5,7) by auto
qed

theorem transactions_root_binds_witness:
  "let C = demo_hash (rlp_leaf_or_extension rlp_format
         (key_to_nibbles (enc_u64 rlp_format 0)) (encode_2718 rlp_format (demo_transfer 1)) True)
   in transactions_root_of C rlp_format (demo_body 1) \<noteq> transactions_root_of C rlp_format (demo_body 2)"
proof -
  let ?C = "demo_hash (rlp_leaf_or_extension rlp_format
         (key_to_nibbles (enc_u64 rlp_format 0)) (encode_2718 rlp_format (demo_transfer 1)) True)"
  let ?i = "\<lambda>n. indexed_pairs rlp_format (encode_2718 rlp_format) (transactions (demo_body n))"
  note R = rlp_format_encodes
  have sized: "\<forall>t \<in> set (transactions (demo_body 1)) \<union> set (transactions (demo_body 2)). tx_sized rlp_format t"
    using demo_transfer_small [of 1] demo_transfer_small [of 2] by (simp add: demo_body_def tx_sized_def)
  have i: "?i n = [(enc_u64 rlp_format 0, encode_2718 rlp_format (demo_transfer n))]" for n
    by (simp add: demo_body_def indexed_pairs_def)
  have fits: "trie_fits ?C rlp_format (?i n)" for n
    unfolding i using u64_upper [OF R, of 0] demo_transfer_small [of n] by (intro leaf_fits [OF R]) simp_all
  have empty: "EMPTY_TRIE_HASH = keccak256 ?C [0x80]" by (simp add: demo_hash_empty)
  have inj: "inj_on (keccak256 ?C) ({[0x80]} \<union> node_encs ?C rlp_format (items_trie (?i 1)) \<union>
      node_encs ?C rlp_format (items_trie (?i 2)))"
    unfolding i by (rule leaf_hash_inj)
  show ?thesis
    using transactions_root_binds [OF R sized _ _ refl fits refl fits empty inj]
    by (simp add: demo_body_def demo_transfer_def Let_def)
qed

end
