(* ===== verification/TrieSpec.thy ===== *)
theory TrieSpec
  imports TrieRoot "HOL-Library.Sublist"
begin

section \<open>The trie of the Yellow Paper\<close>

text \<open>
  A reference for \<open>mpt_root\<close>, written after appendices C and D of the Ethereum Yellow Paper and not after the source: the
  hex-prefix code with numbers instead of shifts, the longest common prefix of all keys, and one child for each of the
  sixteen nibbles, taken from the pairs in whatever order they come. It shares with the model of \<open>trie.rs\<close> only
  the RLP string and list header of the crate \<open>alloy-rlp\<close> and the hash. The theory shows that \<open>mpt_root\<close>, with its
  sorting, its scan for the common prefix and its loop over runs of neighbours, computes the same root.
\<close>

subsection \<open>The reference\<close>

definition yp_nibbles :: "byte list \<Rightarrow> byte list" where
  "yp_nibbles key = concat (map (\<lambda>b. [b div 16, b mod 16]) key)"

fun yp_join :: "byte list \<Rightarrow> byte list" where
  "yp_join (a # b # rest) = word_of_nat (16 * unat a + unat b) # yp_join rest"
| "yp_join _ = []"

definition yp_hp :: "byte list \<Rightarrow> bool \<Rightarrow> byte list" where
  "yp_hp x t =
     (let f = (if t then 2 else 0) in
      if even (length x) then word_of_nat (16 * f) # yp_join x
      else word_of_nat (16 * (f + 1) + unat (hd x)) # yp_join (tl x))"

definition yp_list :: "rlp \<Rightarrow> byte list list \<Rightarrow> byte list" where
  "yp_list R items = enc_list_header R (length (concat items)) @ concat items"

definition yp_ref :: "crypto \<Rightarrow> rlp \<Rightarrow> byte list \<Rightarrow> byte list" where
  "yp_ref C R r = (if length r < 32 then r else enc_str R (h256_bytes (keccak256 C r)))"

definition yp_common :: "kv list \<Rightarrow> byte list" where
  "yp_common J = (case map fst J of [] \<Rightarrow> [] | k # ks \<Rightarrow> foldl longest_common_prefix k ks)"

definition yp_strip :: "nat \<Rightarrow> kv list \<Rightarrow> kv list" where
  "yp_strip n J = map (\<lambda>p. (drop n (fst p), snd p)) J"

definition yp_under :: "byte \<Rightarrow> kv list \<Rightarrow> kv list" where
  "yp_under d J = yp_strip 1 (filter (\<lambda>p. prefix [d] (fst p)) J)"

lemma strip_weight: "key_weight (yp_strip n J) \<le> key_weight J"
  by (induction J) (simp_all add: yp_strip_def)

lemma strip_lighter:
  assumes "0 < n" and "J \<noteq> []" and "\<forall>p \<in> set J. n \<le> length (fst p)"
  shows "key_weight (yp_strip n J) < key_weight J"
  using key_weight_cut_less [OF assms] by (simp add: yp_strip_def cut_keys_def case_prod_beta')

lemma common_prefix_fold:
  "prefix (foldl longest_common_prefix k ks) k \<and> (\<forall>l \<in> set ks. prefix (foldl longest_common_prefix k ks) l) \<and>
   (\<forall>q. prefix q k \<longrightarrow> (\<forall>l \<in> set ks. prefix q l) \<longrightarrow> prefix q (foldl longest_common_prefix k ks))"
proof (induction ks arbitrary: k)
  case (Cons l ks)
  show ?case
    using Cons.IH [of "longest_common_prefix k l"] longest_common_prefix_prefix1 [of k l] longest_common_prefix_prefix2 [of k l]
      longest_common_prefix_max_prefix [of _ k l] prefix_order.trans by (simp, blast)
qed simp

lemma yp_common_spec:
  assumes "J \<noteq> []"
  shows "p \<in> set J \<Longrightarrow> prefix (yp_common J) (fst p)"
    and "(\<And>p. p \<in> set J \<Longrightarrow> prefix q (fst p)) \<Longrightarrow> prefix q (yp_common J)"
proof -
  obtain p' J' where J: "J = p' # J'" using assms by (cases J) auto
  note spec = common_prefix_fold [of "fst p'" "map fst J'"]
  show "p \<in> set J \<Longrightarrow> prefix (yp_common J) (fst p)" using spec by (auto simp: yp_common_def J)
  show "(\<And>p. p \<in> set J \<Longrightarrow> prefix q (fst p)) \<Longrightarrow> prefix q (yp_common J)" using spec by (auto simp: yp_common_def J)
qed

text \<open>The function \<open>c\<close> of the Yellow Paper, on pairs whose keys have lost the part of the path already walked.\<close>

function yp_node :: "crypto \<Rightarrow> rlp \<Rightarrow> kv list \<Rightarrow> byte list" where
  "yp_node C R J =
     (if length J = 1 then yp_list R [enc_str R (yp_hp (fst (J ! 0)) True), enc_str R (snd (J ! 0))]
      else if yp_common J \<noteq> [] then
        yp_list R [enc_str R (yp_hp (yp_common J) False),
          yp_ref C R (yp_node C R (yp_strip (length (yp_common J)) J))]
      else
        yp_list R (map (\<lambda>d. if yp_under (word_of_nat d) J = [] then enc_str R []
            else yp_ref C R (yp_node C R (yp_under (word_of_nat d) J))) [0..<16] @
          [enc_str R (case map_of J [] of None \<Rightarrow> [] | Some v \<Rightarrow> v)]))"
  by pat_completeness auto

termination yp_node
proof (relation "measure (\<lambda>(_, _, J). key_weight J)", goal_cases)
  case (2 C R J)
  then have "J \<noteq> []" by (auto simp: yp_common_def)
  then show ?case
    using 2 yp_common_spec(1) by (auto intro!: strip_lighter dest: prefix_length_le)
next
  case (3 C R J d)
  let ?G = "filter (\<lambda>p. prefix [word_of_nat d] (fst p)) J"
  have "key_weight ?G \<le> key_weight J" by (induction J) auto
  moreover have "key_weight (yp_strip 1 ?G) < key_weight ?G"
    using 3 by (intro strip_lighter) (auto simp: yp_under_def yp_strip_def dest: prefix_length_le)
  ultimately show ?case by (simp add: yp_under_def)
qed simp

declare yp_node.simps [simp del]

definition yp_root :: "crypto \<Rightarrow> rlp \<Rightarrow> kv list \<Rightarrow> h256" where
  "yp_root C R items = keccak256 C (yp_node C R (map (\<lambda>p. (yp_nibbles (fst p), snd p)) items))"

subsection \<open>Nibbles and the hex-prefix code\<close>

lemma yp_nibbles_eq: "yp_nibbles k = key_to_nibbles k"
proof -
  have "b div 16 = shr b 4" "b mod 16 = b AND 0x0f" for b :: byte
    unfolding high_nibble low_nibble by (simp_all add: drop_bit_eq_div take_bit_eq_mod)
  then show ?thesis by (simp add: yp_nibbles_def key_to_nibbles_def)
qed

lemma join_nibbles:
  assumes "unat (b :: byte) < 16"
  shows "push_bit 4 a OR b = word_of_nat (16 * unat a + unat b)"
proof -
  have "push_bit 4 a AND b = 0"
    by (auto simp: bit_eq_iff bit_simps dest!: nibble_bits [OF assms])
  then have "push_bit 4 a OR b = push_bit 4 a + b" by (simp add: disjunctive_add_eq_or)
  then show ?thesis by (simp add: push_bit_eq_mult)
qed

lemma yp_join_eq: "nibbles_ok ns \<Longrightarrow> yp_join ns = pack_nibbles ns"
  by (induction ns rule: pack_nibbles.induct) (simp_all add: nibbles_ok_def join_nibbles)

lemma yp_hp_eq:
  assumes "nibbles_ok x"
  shows "yp_hp x t = hex_prefix x t"
proof (cases "even (length x)")
  case True
  then have "length x mod 2 \<noteq> 1" by presburger
  then show ?thesis using True by (simp add: yp_hp_def hex_prefix_def yp_join_eq assms push_bit_eq_mult)
next
  case False
  then obtain a r where x: "x = a # r" by (cases x) auto
  then have "unat a < 16" "nibbles_ok r" using assms by (simp_all add: nibbles_ok_def)
  moreover have "length x mod 2 = 1" using False by presburger
  ultimately show ?thesis
    using False join_nibbles [of a 3] join_nibbles [of a 1]
    by (cases t) (simp_all add: yp_hp_def hex_prefix_def yp_join_eq x)
qed

subsection \<open>The common prefix\<close>

lemma scan_common_stops:
  "i \<le> maxlen \<Longrightarrow> scan_common i first pairs maxlen < maxlen \<Longrightarrow>
     \<exists>p \<in> set pairs. fst p ! scan_common i first pairs maxlen \<noteq> first ! scan_common i first pairs maxlen"
proof (induction i first pairs maxlen rule: scan_common.induct)
  case (1 i first pairs maxlen)
  show ?case
  proof (cases "i < maxlen \<and> \<not> (\<exists>p \<in> set pairs. fst p ! i \<noteq> first ! i)")
    case True
    then have "scan_common i first pairs maxlen = scan_common (Suc i) first pairs maxlen"
      by (subst scan_common.simps) simp
    with 1 True show ?thesis by auto
  next
    case False
    moreover from 1 have "i < maxlen" by (subst (asm) scan_common.simps) (auto split: if_splits)
    ultimately have "scan_common i first pairs maxlen = i" by (subst scan_common.simps) auto
    with False \<open>i < maxlen\<close> show ?thesis by auto
  qed
qed

lemma shortest_key_attained: "shortest_key n ps = n \<or> (\<exists>p \<in> set ps. length (fst p) = shortest_key n ps)"
proof (induction ps arbitrary: n)
  case (Cons p ps)
  from Cons.IH [of "min n (length (fst p))"] show ?case by (auto simp: min_def split: if_splits)
qed simp

lemma common_prefix_greatest:
  assumes "ps \<noteq> []" and shared: "\<And>p. p \<in> set ps \<Longrightarrow> prefix q (fst p)"
  shows "length q \<le> common_prefix_len ps"
proof (rule ccontr)
  obtain a rest where ps: "ps = a # rest" using assms(1) by (cases ps) auto
  define m where "m = shortest_key (length (fst a)) rest"
  have n: "common_prefix_len ps = scan_common 0 (fst a) ps m" by (simp add: common_prefix_len_def ps m_def split: prod.split)
  assume "\<not> length q \<le> common_prefix_len ps"
  then have less: "common_prefix_len ps < length q" by simp
  have "length q \<le> length (fst p)" if "p \<in> set ps" for p using shared [OF that] by (rule prefix_length_le)
  then have "length q \<le> m"
    using shortest_key_attained [of "length (fst a)" rest] ps unfolding m_def by (metis list.set_intros)
  then obtain p where p: "p \<in> set ps" "fst p ! common_prefix_len ps \<noteq> fst a ! common_prefix_len ps"
    using scan_common_stops [of 0 m "fst a" ps] less n by auto
  have "fst p ! i = q ! i" if "p \<in> set ps" "i < length q" for p i
    using shared [OF that(1)] that(2) by (auto simp: prefix_def nth_append)
  then show False using p less ps by (metis list.set_intros(1))
qed

lemma prefix_of_take: "length q \<le> n \<Longrightarrow> prefix q k \<Longrightarrow> prefix q (take n k)"
  by (auto simp: prefix_def)

lemma yp_common_eq:
  assumes "ps \<noteq> []" and "set J = set ps"
  shows "yp_common J = take (common_prefix_len ps) (fst (ps ! 0))"
proof -
  let ?t = "take (common_prefix_len ps) (fst (ps ! 0))"
  have J: "J \<noteq> []" using assms by auto
  have "prefix ?t (fst p)" if "p \<in> set ps" for p
    using common_prefix_shared [OF that] take_is_prefix by metis
  then have below: "prefix ?t (yp_common J)" using yp_common_spec(2) [OF J] assms(2) by blast
  have in0: "ps ! 0 \<in> set ps" using assms(1) by simp
  have "length (yp_common J) \<le> common_prefix_len ps"
    using yp_common_spec(1) [OF J] assms by (intro common_prefix_greatest) auto
  moreover have "prefix (yp_common J) (fst (ps ! 0))" using yp_common_spec(1) [OF J] assms(2) in0 by blast
  ultimately have "prefix (yp_common J) ?t" by (intro prefix_of_take)
  then show ?thesis using below by (intro prefix_order.antisym)
qed

subsection \<open>The trie\<close>

lemma yp_strip_eq: "yp_strip n J = cut_keys n J"
  by (simp add: yp_strip_def cut_keys_def case_prod_beta')

lemma yp_under_eq: "yp_under d J = cut_keys 1 (filter (same_first d) J)"
proof -
  have "prefix [d] k \<longleftrightarrow> k \<noteq> [] \<and> hd k = d" for k by (cases k) auto
  then have "(\<lambda>p. prefix [d] (fst p)) = same_first d" by (simp add: fun_eq_iff same_first_def)
  then show ?thesis by (simp add: yp_under_def yp_strip_eq)
qed

lemma yp_ref_eq: "write_child_ref R (child_ref C r) = yp_ref C R r"
  by (simp add: child_ref_def yp_ref_def enc_h256_def)

lemma cut_same_pairs:
  assumes "set J = set ps" and "distinct (map fst J)" and "\<And>p. p \<in> set ps \<Longrightarrow> take n (fst p) = pre"
  shows "set (cut_keys n J) = set (cut_keys n ps)" and "distinct (map fst (cut_keys n J))"
proof -
  show "set (cut_keys n J) = set (cut_keys n ps)" by (simp add: set_cut_keys assms(1))
  have "map fst (cut_keys n J) = map (drop n) (map fst J)" by (simp add: cut_keys_def case_prod_beta')
  moreover have "inj_on (drop n) (set (map fst J))"
    using assms(1,3) by (auto simp: inj_on_def) (metis append_take_drop_id fst_conv)
  ultimately show "distinct (map fst (cut_keys n J))" using assms(2) by (simp only: distinct_map)
qed

lemma build_trie_branch_children:
  assumes "kv_ok ps" and "length ps \<noteq> 1" and "common_prefix_len ps = 0"
  shows "\<exists>cs. build_trie ps = Branch cs (case map_of ps [] of None \<Rightarrow> [] | Some v \<Rightarrow> v) \<and> length cs = 16 \<and>
    (\<forall>i < 16. cs ! i = (let group = filter (same_first (word_of_nat i)) ps
       in if group \<noteq> [] then Some (build_trie (cut_keys 1 group)) else None))"
proof -
  obtain cs v where fill: "fill_trie ps (replicate 17 None) [] = (cs, v)" by fastforce
  have cs: "length cs = 17" using fill_trie_length [of ps "replicate 17 None" "[]"] fill by simp
  have "v = (case map_of ps [] of None \<Rightarrow> [] | Some w \<Rightarrow> w)"
    using fill_trie_value [of ps "replicate 17 None" "[]"] fill assms(1) by (simp add: kv_ok_def split: option.splits)
  moreover have "build_trie ps = Branch (take 16 cs) v"
    using assms(2,3) fill by (subst build_trie.simps) (simp add: Let_def)
  moreover have "take 16 cs ! i = (let group = filter (same_first (word_of_nat i)) ps
       in if group \<noteq> [] then Some (build_trie (cut_keys 1 group)) else None)" if "i < 16" for i
  proof -
    have "unat (word_of_nat i :: byte) = i" using that by (intro unat_word_of_nat_small) simp
    then show ?thesis
      using fill_trie_children [of ps "word_of_nat i" "replicate 17 None" "[]"] assms(1) fill that
      by (simp add: kv_ok_def Let_def)
  qed
  ultimately show ?thesis using cs by (intro exI [of _ "take 16 cs"]) auto
qed

lemma child_item_ref:
  assumes "rlp_encodes R"
  shows "child_item C R (child_slot C R (Some n)) = yp_ref C R (node_rlp C R n)"
  using child_item_cases(2,3) [OF assms, of C n] by (cases "length (node_rlp C R n) < 32") (simp_all only: yp_ref_def if_True if_False simp_thms)

text \<open>One child of a branch, where the children are known to be right.\<close>

lemma yp_slot:
  fixes d :: byte
  assumes R: "rlp_encodes R" and ok: "kv_ok ps" and pairs: "set J = set ps" "distinct (map fst J)"
    and child: "\<And>ps' J'. key_weight ps' < key_weight ps \<Longrightarrow> kv_ok ps' \<Longrightarrow> ps' \<noteq> [] \<Longrightarrow> set J' = set ps' \<Longrightarrow>
      distinct (map fst J') \<Longrightarrow> yp_node C R J' = node_rlp C R (build_trie ps')"
  defines "grp \<equiv> filter (same_first d) ps"
  shows "child_item C R (child_slot C R (if grp \<noteq> [] then Some (build_trie (cut_keys 1 grp)) else None)) =
    (if yp_under d J = [] then enc_str R [] else yp_ref C R (yp_node C R (yp_under d J)))"
proof -
  have same: "set (filter (same_first d) J) = set grp" using pairs(1) by (auto simp: grp_def)
  show ?thesis
  proof (cases "grp = []")
    case True
    then have "filter (same_first d) J = []" using same by (metis set_empty2)
    then show ?thesis using True child_item_cases(1) [OF R] by (simp add: yp_under_eq cut_keys_def)
  next
    case False
    have first: "take 1 (fst p) = [d]" if "p \<in> set grp" for p
      using that same_first_take by (simp add: grp_def)
    note cut = cut_same_pairs [where n = 1, OF same distinct_map_filter [OF pairs(2)] first]
    have ne: "cut_keys 1 grp \<noteq> []" "cut_keys 1 (filter (same_first d) J) \<noteq> []"
    proof -
      show "cut_keys 1 grp \<noteq> []" using False by (simp add: cut_keys_def)
      then show "cut_keys 1 (filter (same_first d) J) \<noteq> []" using cut(1) by (metis set_empty2)
    qed
    have "yp_node C R (cut_keys 1 (filter (same_first d) J)) = node_rlp C R (build_trie (cut_keys 1 grp))"
      by (rule child [OF _ _ ne(1) cut]) (use group_lighter [of d ps] kv_ok_group [OF ok, of d] False in \<open>simp_all add: grp_def\<close>)
    then show ?thesis
      unfolding yp_under_eq if_P [OF False] if_not_P [OF ne(2)] child_item_ref [OF R] by (simp only:)
  qed
qed

lemma yp_node_refines:
  assumes R: "rlp_encodes R"
  shows "kv_ok ps \<Longrightarrow> ps \<noteq> [] \<Longrightarrow> set J = set ps \<Longrightarrow> distinct (map fst J) \<Longrightarrow> yp_node C R J = node_rlp C R (build_trie ps)"
proof (induction "key_weight ps" arbitrary: ps J rule: less_induct)
  case less
  note ok = less.prems(1) and pairs = less.prems(3,4)
  have keys: "nibbles_ok (fst p)" if "p \<in> set ps" for p using ok that by (simp add: kv_ok_def nibbles_ok_def)
  have len: "length J = length ps"
    using pairs ok distinct_card [of J] distinct_card [of ps] by (simp add: kv_ok_def distinct_map)
  let ?n = "common_prefix_len ps"
  have common: "yp_common J = take ?n (fst (ps ! 0))" using yp_common_eq less.prems(2,3) .
  have in0: "ps ! 0 \<in> set ps" using less.prems(2) by simp
  then have n: "length (yp_common J) = ?n" using common common_prefix_len_le by simp
  consider (one) "length ps = 1" | (ext) "length ps \<noteq> 1" "0 < ?n" | (branch) "length ps \<noteq> 1" "?n = 0" by blast
  then show ?case
  proof cases
    case one
    then obtain p where p: "ps = [p]" by (auto simp: length_Suc_conv)
    then have "J = [p]" using len pairs(1) by (cases J) auto
    moreover have "build_trie ps = Leaf (fst p) (snd p)" by (subst build_trie.simps) (simp add: p)
    ultimately show ?thesis
      using keys [of p] p by (subst yp_node.simps) (simp add: node_rlp_items [OF R] yp_list_def yp_hp_eq del: node_rlp.simps)
  next
    case ext
    then have trie: "build_trie ps = Ext (take ?n (fst (ps ! 0))) (build_trie (cut_keys ?n ps))"
      by (subst build_trie.simps) (simp add: Let_def)
    note cut = cut_same_pairs [OF pairs common_prefix_shared]
    have "kv_ok (cut_keys ?n ps)" using kv_ok_cut [OF ok] common_prefix_shared by blast
    moreover have "cut_keys ?n ps \<noteq> []" using less.prems(2) by (simp add: cut_keys_def)
    ultimately have child: "yp_node C R (cut_keys ?n J) = node_rlp C R (build_trie (cut_keys ?n ps))"
      using less.hyps [OF common_lighter [OF ext(2)]] cut by blast
    have "nibbles_ok (yp_common J)" using keys [OF in0] by (auto simp: common nibbles_ok_def dest: in_set_takeD)
    moreover have "yp_common J \<noteq> []" using n ext(2) by auto
    ultimately show ?thesis
      using ext(1) len child n
      by (subst yp_node.simps) (simp add: trie node_rlp_items [OF R] yp_list_def yp_hp_eq yp_strip_eq yp_ref_eq common [symmetric] del: node_rlp.simps)
  next
    case branch
    from build_trie_branch_children [OF ok this] obtain cs where
      trie: "build_trie ps = Branch cs (case map_of ps [] of None \<Rightarrow> [] | Some v \<Rightarrow> v)" "length cs = 16" and
      cs: "\<And>i. i < 16 \<Longrightarrow> cs ! i = (let group = filter (same_first (word_of_nat i)) ps
        in if group \<noteq> [] then Some (build_trie (cut_keys 1 group)) else None)" by blast
    have val: "map_of J [] = map_of ps []"
      using pairs ok by (intro fun_cong [OF map_of_inject_set [THEN iffD2]]) (simp_all add: kv_ok_def)
    have slot: "child_item C R (child_slot C R (cs ! i)) =
        (if yp_under (word_of_nat i) J = [] then enc_str R [] else yp_ref C R (yp_node C R (yp_under (word_of_nat i) J)))"
      if "i < 16" for i
      unfolding cs [OF that] Let_def by (rule yp_slot [OF R ok pairs less.hyps])
    have "map (child_item C R \<circ> opt_bytes \<circ> map_option (node_rlp C R)) cs = map (\<lambda>i. child_item C R (child_slot C R (cs ! i))) [0..<16]"
      by (rule nth_equalityI) (simp_all add: trie(2) child_slot_def del: upt_conv_Cons upt_rec_numeral)
    also have "\<dots> = map (\<lambda>i. if yp_under (word_of_nat i) J = [] then enc_str R []
        else yp_ref C R (yp_node C R (yp_under (word_of_nat i) J))) [0..<16]"
      using slot by (intro map_cong refl) (simp only: set_upt atLeastLessThan_iff)
    finally have items: "node_items C R (build_trie ps) = map (\<lambda>i. if yp_under (word_of_nat i) J = [] then enc_str R []
        else yp_ref C R (yp_node C R (yp_under (word_of_nat i) J))) [0..<16] @
        [enc_str R (case map_of J [] of None \<Rightarrow> [] | Some v \<Rightarrow> v)]"
      by (simp only: trie(1) val node_items.simps take_all [OF eq_refl [OF trie(2)]])
    have "yp_common J = []" using n branch(2) by simp
    then show ?thesis
      using branch(1) len by (subst yp_node.simps) (simp only: node_rlp_items [OF R] items yp_list_def if_False simp_thms)
  qed
qed

subsection \<open>Properties\<close>

text \<open>
  (C26) \<open>mpt_root\<close> computes the root that the Yellow Paper defines. For a non-empty list of items with pairwise different keys and
  no empty value, in whatever order they are listed, the hash that the sorting, the scan for a common prefix and the loop
  over neighbours produce is the one of the reference \<open>yp_root\<close>, which is built over the unsorted pairs with the
  longest common prefix of all keys, one child per nibble, numeric hex-prefix codes, and children of 32 bytes or more
  replaced by their hash.
\<close>

theorem mpt_root_meets_yellow_paper:
  assumes "rlp_encodes R" and "distinct (map fst items)" and "\<forall>p \<in> set items. snd p \<noteq> []" and "items \<noteq> []"
  shows "mpt_root C R items = yp_root C R items"
proof -
  let ?J = "map (\<lambda>(k, v). (key_to_nibbles k, v)) items"
  have ok: "items_ok items" using assms(2,3) by (simp add: items_ok_def)
  have "distinct (map fst (sort_key fst ?J))" using items_kv_ok [OF ok] by (simp add: kv_ok_def)
  then have "distinct (map fst ?J)" by (simp only: distinct_sort_key_map)
  then have "yp_node C R ?J = node_rlp C R (items_trie items)"
    unfolding items_trie_def
    by (intro yp_node_refines [OF assms(1) items_kv_ok [OF ok]]) (use assms(4) length_sort [of fst ?J] in \<open>auto simp del: length_sort\<close>)
  then show ?thesis using assms(4) by (simp add: mpt_root_items yp_root_def yp_nibbles_eq case_prod_beta')
qed

text \<open>The witness: three items with an extension, a branch and a key that is a prefix of another; and one leaf in bytes.\<close>

theorem mpt_root_meets_yellow_paper_witness:
  "(let items = [([0x15], [9]), ([0x12, 0x34], [8]), ([0x12], [7])]
    in mpt_root demo_crypto rlp_format items = yp_root demo_crypto rlp_format items) \<and>
   mpt_root demo_crypto rlp_format [([0x12], [7])] = keccak256 demo_crypto [0xc4, 0x82, 0x20, 0x12, 0x07]"
proof -
  have "yp_node demo_crypto rlp_format [([1, 2], [7])] = [0xc4, 0x82, 0x20, 0x12, 0x07]"
    by (subst yp_node.simps) (simp add: yp_list_def yp_hp_def rlp_format_def fmt_str_def fmt_head_def)
  then have "yp_root demo_crypto rlp_format [([0x12], [7])] = keccak256 demo_crypto [0xc4, 0x82, 0x20, 0x12, 0x07]"
    by (simp add: yp_root_def yp_nibbles_def)
  then show ?thesis
    using mpt_root_meets_yellow_paper [OF rlp_format_encodes, of "[([0x15], [9]), ([0x12, 0x34], [8]), ([0x12], [7])]" demo_crypto]
      mpt_root_meets_yellow_paper [OF rlp_format_encodes, of "[([0x12], [7])]" demo_crypto] by (simp add: Let_def)
qed

end
