(* ===== verification/Validators.thy ===== *)
theory Validators
  imports Crypto
begin

section \<open>Validator sets, quorums and leader election\<close>

text \<open>
  The first part of \<open>aii-consensus-bft/src/bft.rs\<close>: the validator set with its checked
  construction, the quorum threshold, stake-weighted leader selection and the VRF leader proof,
  and the error type of the consensus crate (\<open>lib.rs\<close>). The fields of \<open>ValidatorSet\<close> are private
  in the source and only \<open>ValidatorSet::new\<close> builds one, so \<open>vs_wf\<close>, what \<open>new\<close> establishes, holds
  of every set the program can see.

  The locale \<open>quorum_system\<close> is the contract the tallies and certificates rely on: any two groups
  that reach the threshold share more than a third of the weight. \<open>ValidatorSet\<close> implements it as
  long as the total stake stays below \<open>2 ^ 63\<close>; above it, \<open>total_stake * 2\<close> wraps.
\<close>

subsection \<open>Errors and phases\<close>

datatype phase = AwaitingProposal | Prevoting | Precommitting | Committed

datatype bft_error =
    Overflow
  | EmptyValidatorSet
  | ValidatorSetTooLarge nat nat
  | TotalStakeOverflow
  | ZeroTotalStake
  | WrongBlockHash
  | WrongHeight
  | WrongRound
  | ValidatorIndexOutOfBounds u32 nat
  | DuplicateVote u32
  | InvalidBlsSignature
  | InvalidVrfProof
  | WrongPhase phase phase
  | NotSingleValidator nat
  | NoActiveCoordinator
  | NotLeader u32 u32
  | InvalidValidatorPubkey nat string
  | ProposalHashMismatch
  | InvalidProposalBody string
  | ActiveRoundInProgress

subsection \<open>ValidatorSet\<close>

definition MAX_VALIDATORS :: nat where
  "MAX_VALIDATORS = 128"

record validator =
  bls_pubkey :: bls_public_key
  vrf_pubkey :: vrf_public_key
  stake :: u64

record validator_set =
  validators :: "validator list"
  total_stake :: u64

fun sum_stakes :: "u64 \<Rightarrow> validator list \<Rightarrow> u64 option" where
  "sum_stakes acc [] = Some acc"
| "sum_stakes acc (v # vs) =
     (case checked_add acc (stake v) of
        None \<Rightarrow> None
      | Some acc' \<Rightarrow> sum_stakes acc' vs)"

definition ValidatorSet_new :: "validator list \<Rightarrow> (bft_error, validator_set) result" where
  "ValidatorSet_new vs =
     (if vs = [] then Err EmptyValidatorSet
      else if length vs > MAX_VALIDATORS then
        Err (ValidatorSetTooLarge (length vs) MAX_VALIDATORS)
      else case sum_stakes 0 vs of
             None \<Rightarrow> Err TotalStakeOverflow
           | Some t \<Rightarrow>
               if t = 0 then Err ZeroTotalStake
               else Ok \<lparr>validators = vs, total_stake = t\<rparr>)"

definition vs_size :: "validator_set \<Rightarrow> nat" where
  "vs_size s = length (validators s)"

definition quorum_threshold :: "validator_set \<Rightarrow> u64" where
  "quorum_threshold s = (total_stake s * 2) div 3 + 1"

definition vs_get :: "validator_set \<Rightarrow> nat \<Rightarrow> validator option" where
  "vs_get s i = (if i < length (validators s) then Some (validators s ! i) else None)"

fun scan_leader :: "u64 \<Rightarrow> u64 \<Rightarrow> nat \<Rightarrow> validator list \<Rightarrow> nat option" where
  "scan_leader pick cum i [] = None"
| "scan_leader pick cum i (v # vs) =
     (let cum' = saturating_add cum (stake v)
      in if pick < cum' then Some i else scan_leader pick cum' (Suc i) vs)"

definition leader_at :: "validator_set \<Rightarrow> u64 \<Rightarrow> nat" where
  "leader_at s pick =
     (case scan_leader pick 0 0 (validators s) of
        Some i \<Rightarrow> i
      | None \<Rightarrow> length (validators s) - 1)"

definition round_bytes :: "u64 \<Rightarrow> u32 \<Rightarrow> h256 \<Rightarrow> byte list" where
  "round_bytes height rnd seed = to_be_bytes 8 height @ to_be_bytes 4 rnd @ to_be_bytes 32 seed"

definition leader_pick :: "crypto \<Rightarrow> validator_set \<Rightarrow> u64 \<Rightarrow> u32 \<Rightarrow> h256 \<Rightarrow> u64" where
  "leader_pick C s height rnd seed =
     from_be_bytes (take 8 (h256_bytes (keccak256 C (round_bytes height rnd seed))))
       mod total_stake s"

definition select_leader :: "crypto \<Rightarrow> validator_set \<Rightarrow> u64 \<Rightarrow> u32 \<Rightarrow> h256 \<Rightarrow> nat" where
  "select_leader C s height rnd seed = leader_at s (leader_pick C s height rnd seed)"

subsection \<open>LeaderProof\<close>

record leader_proof =
  lp_vrf_proof :: vrf_proof
  vrf_output :: h256

definition LeaderProof_input :: "crypto \<Rightarrow> u64 \<Rightarrow> u32 \<Rightarrow> h256 \<Rightarrow> h256" where
  "LeaderProof_input C height rnd seed = keccak256 C (round_bytes height rnd seed)"

definition LeaderProof_produce ::
    "crypto \<Rightarrow> nat \<Rightarrow> vrf_secret_key \<Rightarrow> u64 \<Rightarrow> u32 \<Rightarrow> h256 \<Rightarrow> leader_proof" where
  "LeaderProof_produce C nonce sk height rnd seed =
     (let (p, out) = vrf_prove C nonce sk (h256_bytes (LeaderProof_input C height rnd seed))
      in \<lparr>lp_vrf_proof = p, vrf_output = out\<rparr>)"

definition LeaderProof_verify ::
    "crypto \<Rightarrow> leader_proof \<Rightarrow> vrf_public_key \<Rightarrow> u64 \<Rightarrow> u32 \<Rightarrow> h256 \<Rightarrow> (bft_error, unit) result" where
  "LeaderProof_verify C p pk height rnd seed =
     and_then (map_err (\<lambda>_. InvalidVrfProof)
                 (vrf_verify C pk (h256_bytes (LeaderProof_input C height rnd seed)) (lp_vrf_proof p)))
       (\<lambda>recovered. if recovered \<noteq> vrf_output p then Err InvalidVrfProof else Ok ())"

subsection \<open>Well-formed sets\<close>

definition nat_stake :: "validator \<Rightarrow> nat" where
  "nat_stake v = unat (stake v)"

definition stake_at :: "validator_set \<Rightarrow> nat \<Rightarrow> nat" where
  "stake_at s i = nat_stake (validators s ! i)"

definition stake_of :: "validator_set \<Rightarrow> nat set \<Rightarrow> nat" where
  "stake_of s A = (\<Sum>i\<in>A. stake_at s i)"

definition vs_wf :: "validator_set \<Rightarrow> bool" where
  "vs_wf s \<longleftrightarrow> validators s \<noteq> [] \<and> length (validators s) \<le> MAX_VALIDATORS \<and>
     unat (total_stake s) = sum_list (map nat_stake (validators s)) \<and> total_stake s \<noteq> 0"

lemma sum_stakes_Some:
  "sum_stakes t vs = Some r \<longleftrightarrow>
     unat t + sum_list (map nat_stake vs) < 2 ^ 64 \<and>
     unat r = unat t + sum_list (map nat_stake vs)"
proof (induction vs arbitrary: t)
  case Nil
  show ?case using unat_less_pow [of t] by (auto simp: word_unat_eq_iff)
next
  case (Cons v vs)
  show ?case
  proof (cases "checked_add t (stake v)")
    case None
    have "\<not> unat t + sum_list (map nat_stake (v # vs)) < 2 ^ 64"
      using iffD1 [OF checked_add_None None] by (simp add: nat_stake_def)
    with None show ?thesis by simp
  next
    case (Some t')
    then have "unat t' = unat t + nat_stake v"
      by (simp add: checked_add_unat nat_stake_def)
    with Some show ?thesis by (simp add: Cons.IH add.assoc)
  qed
qed

lemma vs_wf_total_pos: "vs_wf s \<Longrightarrow> 0 < unat (total_stake s)"
  unfolding vs_wf_def by (metis unat_gt_0)

lemma sum_stakes_None:
  "sum_stakes t vs = None \<longleftrightarrow> 2 ^ 64 \<le> unat t + sum_list (map nat_stake vs)"
proof -
  have "sum_stakes t vs \<noteq> None \<longleftrightarrow> unat t + sum_list (map nat_stake vs) < 2 ^ 64"
  proof
    assume "unat t + sum_list (map nat_stake vs) < 2 ^ 64" (is "?n < _")
    then have "unat (word_of_nat ?n :: u64) = ?n" by (intro unat_word_of_nat_small) simp
    then have "sum_stakes t vs = Some (word_of_nat ?n)"
      using \<open>?n < 2 ^ 64\<close> by (simp only: sum_stakes_Some)
    then show "sum_stakes t vs \<noteq> None" by simp
  qed (auto simp: sum_stakes_Some)
  then show ?thesis by linarith
qed

lemma ValidatorSet_new_wf: "ValidatorSet_new vs = Ok s \<Longrightarrow> vs_wf s \<and> validators s = vs"
  by (auto simp: ValidatorSet_new_def vs_wf_def sum_stakes_Some split: if_splits option.splits)

lemma wf_new: "vs_wf s \<Longrightarrow> ValidatorSet_new (validators s) = Ok s"
proof -
  assume wf: "vs_wf s"
  then have "sum_stakes 0 (validators s) = Some (total_stake s)"
    using unat_less_pow [of "total_stake s"] by (simp add: sum_stakes_Some vs_wf_def)
  with wf show ?thesis by (simp add: ValidatorSet_new_def vs_wf_def)
qed

lemma stake_of_all: "vs_wf s \<Longrightarrow> stake_of s {..<vs_size s} = unat (total_stake s)"
  by (simp add: stake_of_def stake_at_def vs_size_def vs_wf_def sum_list_nth_subset)

lemma stake_of_le: "vs_wf s \<Longrightarrow> A \<subseteq> {..<vs_size s} \<Longrightarrow> stake_of s A \<le> unat (total_stake s)"
  using sum_subset_le_sum_list [of A "validators s" nat_stake]
  by (simp add: stake_of_def stake_at_def vs_size_def vs_wf_def)

lemma stake_of_insert:
  "finite A \<Longrightarrow> i \<notin> A \<Longrightarrow> stake_of s (insert i A) = stake_at s i + stake_of s A"
  by (simp add: stake_of_def)

subsection \<open>Quorum systems\<close>

locale quorum_system =
  fixes valid :: "'s \<Rightarrow> bool"
    and members :: "'s \<Rightarrow> nat set"
    and weight :: "'s \<Rightarrow> nat \<Rightarrow> nat"
    and threshold :: "'s \<Rightarrow> nat"
  assumes finite_members: "valid s \<Longrightarrow> finite (members s)"
    and two_thirds: "valid s \<Longrightarrow> 2 * sum (weight s) (members s) < 3 * threshold s"
begin

lemma intersection_weight:
  assumes "valid s" and "A \<subseteq> members s" and "B \<subseteq> members s"
    and "threshold s \<le> sum (weight s) A" and "threshold s \<le> sum (weight s) B"
  shows "sum (weight s) (members s) < 3 * sum (weight s) (A \<inter> B)"
proof -
  have fin: "finite A" "finite B"
    using finite_members [OF assms(1)] assms(2,3) by (auto intro: finite_subset)
  have "sum (weight s) A + sum (weight s) B
      = sum (weight s) (A \<union> B) + sum (weight s) (A \<inter> B)"
    using fin by (rule sum.union_inter [symmetric])
  moreover have "sum (weight s) (A \<union> B) \<le> sum (weight s) (members s)"
    using assms(1-3) finite_members by (intro sum_mono2) auto
  ultimately show ?thesis using two_thirds [OF assms(1)] assms(4,5) by linarith
qed

lemma intersection_nonempty:
  assumes "valid s" and "A \<subseteq> members s" and "B \<subseteq> members s"
    and "threshold s \<le> sum (weight s) A" and "threshold s \<le> sum (weight s) B"
  shows "A \<inter> B \<noteq> {}"
  using intersection_weight [OF assms] by auto

lemma complement_below:
  assumes "valid s" and "A \<subseteq> members s" and "threshold s \<le> sum (weight s) A"
  shows "3 * sum (weight s) (members s - A) < sum (weight s) (members s)"
proof -
  have "finite (members s)" using assms(1) by (rule finite_members)
  then have "sum (weight s) (members s - A) + sum (weight s) A = sum (weight s) (members s)"
    using assms(2) by (metis sum.subset_diff)
  then show ?thesis using two_thirds [OF assms(1)] assms(3) by linarith
qed

end

definition safe_total :: "validator_set \<Rightarrow> bool" where
  "safe_total s \<longleftrightarrow> vs_wf s \<and> unat (total_stake s) < 2 ^ 63"

lemma quorum_threshold_unat:
  "unat (total_stake s) < 2 ^ 63 \<Longrightarrow> unat (quorum_threshold s) = 2 * unat (total_stake s) div 3 + 1"
proof -
  assume small: "unat (total_stake s) < 2 ^ 63"
  then have dbl: "unat (total_stake s * 2) = 2 * unat (total_stake s)"
    by (simp add: unat_word_ariths)
  then have thirds: "unat ((total_stake s * 2) div 3) = 2 * unat (total_stake s) div 3"
    by (simp add: unat_div)
  then show ?thesis using small by (simp add: quorum_threshold_def unat_word_ariths)
qed

lemma quorum_threshold_pos: "0 < unat (quorum_threshold s)"
proof -
  have "unat (total_stake s * 2) < 2 ^ 64" using unat_less_pow [of "total_stake s * 2"] by simp
  then have "unat ((total_stake s * 2) div 3) + 1 < 2 ^ 64" by (simp add: unat_div)
  then show ?thesis
    using unat_add_small [of "(total_stake s * 2) div 3" "1 :: u64"] by (simp add: quorum_threshold_def)
qed

interpretation vset: quorum_system safe_total "\<lambda>s. {..<vs_size s}" stake_at
    "\<lambda>s. unat (quorum_threshold s)"
proof unfold_locales
  fix s
  assume "safe_total s"
  then have "vs_wf s" and small: "unat (total_stake s) < 2 ^ 63" by (auto simp: safe_total_def)
  then have "sum (stake_at s) {..<vs_size s} = unat (total_stake s)"
    using stake_of_all [of s] by (simp add: stake_of_def)
  moreover have "2 * n < 3 * (2 * n div 3 + 1)" for n :: nat by presburger
  ultimately show "2 * sum (stake_at s) {..<vs_size s} < 3 * unat (quorum_threshold s)"
    using quorum_threshold_unat [OF small] by metis
qed simp

text \<open>The whole set is always a quorum when the threshold does not wrap, so votes can succeed.\<close>

lemma quorum_reachable: "safe_total s \<Longrightarrow> unat (quorum_threshold s) \<le> stake_of s {..<vs_size s}"
proof -
  assume ok: "safe_total s"
  then have "0 < unat (total_stake s)" by (simp add: safe_total_def vs_wf_total_pos)
  moreover have "0 < n \<Longrightarrow> 2 * n div 3 + 1 \<le> n" for n :: nat by linarith
  ultimately show ?thesis
    using ok quorum_threshold_unat [of s] by (auto simp: safe_total_def stake_of_all)
qed

subsection \<open>Leader election\<close>

definition stake_before :: "validator list \<Rightarrow> nat \<Rightarrow> nat" where
  "stake_before vs i = sum_list (map nat_stake (take i vs))"

lemma stake_before_Cons_Suc: "stake_before (v # vs) (Suc i) = nat_stake v + stake_before vs i"
  by (simp add: stake_before_def)

lemma stake_before_Suc:
  "i < length vs \<Longrightarrow> stake_before vs (Suc i) = stake_before vs i + nat_stake (vs ! i)"
  by (simp add: stake_before_def take_Suc_conv_app_nth)

lemma stake_before_mono: "i \<le> j \<Longrightarrow> stake_before vs i \<le> stake_before vs j"
proof (induction vs arbitrary: i j)
  case (Cons v vs)
  then show ?case by (cases i; cases j) (auto simp: stake_before_def)
qed (simp add: stake_before_def)

lemma scan_leader_Some:
  assumes "unat cum + sum_list (map nat_stake vs) < 2 ^ 64" and "cum \<le> pick"
  shows "scan_leader pick cum k vs = Some i \<longleftrightarrow>
     k \<le> i \<and> i - k < length vs \<and>
     unat cum + stake_before vs (i - k) \<le> unat pick \<and>
     unat pick < unat cum + stake_before vs (Suc (i - k))"
  using assms
proof (induction vs arbitrary: cum k)
  case Nil
  then show ?case by simp
next
  case (Cons v vs)
  let ?cum = "saturating_add cum (stake v)"
  have unat_cum: "unat ?cum = unat cum + nat_stake v"
    using Cons.prems(1) by (simp add: arith_unat nat_stake_def)
  show ?case
  proof (cases "pick < ?cum")
    case True
    then have lt: "unat pick < unat cum + nat_stake v"
      by (simp add: word_less_nat_alt unat_cum)
    have "\<not> unat cum + stake_before (v # vs) (i - k) \<le> unat pick" if "k < i"
      using that lt by (cases "i - k") (auto simp: stake_before_Cons_Suc)
    moreover have "unat cum \<le> unat pick" using Cons.prems(2) by (simp add: word_le_nat_alt)
    ultimately show ?thesis
      using True lt by (cases "i = k") (auto simp: stake_before_def)
  next
    case False
    then have ge: "?cum \<le> pick" by simp
    then have ge_nat: "unat cum + nat_stake v \<le> unat pick"
      by (simp add: word_le_nat_alt unat_cum)
    have "unat ?cum + sum_list (map nat_stake vs) < 2 ^ 64"
      using Cons.prems(1) by (simp add: unat_cum)
    note IH = Cons.IH [OF this ge, of "Suc k", unfolded unat_cum]
    show ?thesis
    proof (cases "k < i")
      case True
      then obtain d where "i - k = Suc d" "i - Suc k = d" by (metis Suc_diff_Suc)
      with True False IH show ?thesis
        by (auto simp: stake_before_Cons_Suc ac_simps)
    next
      case below: False
      with False IH ge_nat show ?thesis by (auto simp: stake_before_def)
    qed
  qed
qed

lemma leader_scan_exists:
  assumes "vs_wf s" and "p < total_stake s"
  shows "\<exists>i. scan_leader p 0 0 (validators s) = Some i"
proof -
  let ?vs = "validators s"
  have tot: "unat (total_stake s) = stake_before ?vs (length ?vs)"
    using assms(1) by (simp add: vs_wf_def stake_before_def)
  then have lt: "unat p < stake_before ?vs (length ?vs)"
    using assms(2) by (simp add: word_less_nat_alt)
  define j where "j = (LEAST j. unat p < stake_before ?vs j)"
  have j: "unat p < stake_before ?vs j" unfolding j_def using lt by (rule LeastI)
  then have "0 < j" by (cases j) (auto simp: stake_before_def)
  then obtain i where i: "j = Suc i" by (cases j) auto
  then have "stake_before ?vs i \<le> unat p"
    using not_less_Least [of i "\<lambda>j. unat p < stake_before ?vs j"] by (simp add: j_def)
  moreover have "i < length ?vs"
    using Least_le [of "\<lambda>j. unat p < stake_before ?vs j", OF lt] i by (simp add: j_def)
  moreover have "unat (0::u64) + sum_list (map nat_stake ?vs) < 2 ^ 64"
    using assms(1) unat_less_pow [of "total_stake s"] by (simp add: vs_wf_def)
  ultimately show ?thesis
    using j i scan_leader_Some [of 0 ?vs p 0 i] by auto
qed

lemma leader_at_iff:
  assumes "vs_wf s" and "p < total_stake s" and "i < vs_size s"
  shows "leader_at s p = i \<longleftrightarrow>
     stake_before (validators s) i \<le> unat p \<and> unat p < stake_before (validators s) (Suc i)"
proof -
  obtain j where j: "scan_leader p 0 0 (validators s) = Some j"
    using leader_scan_exists [OF assms(1,2)] by blast
  have "unat (0::u64) + sum_list (map nat_stake (validators s)) < 2 ^ 64"
    using assms(1) unat_less_pow [of "total_stake s"] by (simp add: vs_wf_def)
  note spec = scan_leader_Some [OF this, of p 0]
  show ?thesis using j spec [of i] assms(3)
    by (auto simp: leader_at_def vs_size_def)
qed

lemma leader_at_less:
  assumes "vs_wf s" and "p < total_stake s"
  shows "leader_at s p < vs_size s \<and> 0 < stake_at s (leader_at s p)"
proof -
  obtain j where j: "scan_leader p 0 0 (validators s) = Some j"
    using leader_scan_exists [OF assms] by blast
  have "unat (0::u64) + sum_list (map nat_stake (validators s)) < 2 ^ 64"
    using assms(1) unat_less_pow [of "total_stake s"] by (simp add: vs_wf_def)
  from scan_leader_Some [OF this, of p 0 j] j
  have "j < length (validators s)" "stake_before (validators s) j \<le> unat p"
      "unat p < stake_before (validators s) (Suc j)"
    by auto
  then show ?thesis
    using j by (simp add: leader_at_def vs_size_def stake_at_def stake_before_Suc)
qed

lemma leader_pick_less: "vs_wf s \<Longrightarrow> leader_pick C s h r seed < total_stake s"
  using vs_wf_total_pos [of s] by (simp add: leader_pick_def word_less_nat_alt unat_mod)

lemma select_leader_less:
  "vs_wf s \<Longrightarrow> select_leader C s h r seed < vs_size s \<and> 0 < stake_at s (select_leader C s h r seed)"
  unfolding select_leader_def by (intro leader_at_less leader_pick_less)

lemma card_words_between:
  "b \<le> 2 ^ LENGTH('a) \<Longrightarrow> card {p :: 'a::len word. a \<le> unat p \<and> unat p < b} = b - a"
proof -
  assume b: "b \<le> 2 ^ LENGTH('a)"
  have "unat ` {p :: 'a word. a \<le> unat p \<and> unat p < b} = {a..<b}"
  proof (intro equalityI subsetI)
    fix x
    assume "x \<in> {a..<b}"
    then have "unat (word_of_nat x :: 'a word) = x" and "a \<le> x" and "x < b"
      using b by (auto intro!: unat_word_of_nat_small)
    then show "x \<in> unat ` {p :: 'a word. a \<le> unat p \<and> unat p < b}"
      by (metis (mono_tags, lifting) imageI mem_Collect_eq)
  qed auto
  moreover have "inj_on unat {p :: 'a word. a \<le> unat p \<and> unat p < b}"
    by (simp add: inj_on_def word_unat_eq_iff)
  ultimately show ?thesis by (metis card_atLeastLessThan card_image)
qed

subsection \<open>Leader proofs\<close>

lemma LeaderProof_verify_produce:
  "vrf_proves C \<Longrightarrow>
     LeaderProof_verify C (LeaderProof_produce C nonce sk h r seed) (vrf_public_key_of C sk) h r seed
       = Ok ()"
proof -
  assume ok: "vrf_proves C"
  obtain p out where po: "vrf_prove C nonce sk (h256_bytes (LeaderProof_input C h r seed)) = (p, out)"
    by fastforce
  with vrf_verify_prove [OF ok this] show ?thesis
    by (simp add: LeaderProof_verify_def LeaderProof_produce_def)
qed

lemma LeaderProof_verify_no_panic [simp]: "LeaderProof_verify C p pk h r seed \<noteq> Panic"
  by (cases pk) (auto simp: LeaderProof_verify_def split: option.splits)

subsection \<open>Properties\<close>

text \<open>
  \<open>ValidatorSet::new\<close> accepts exactly the non-empty lists of at most 128 validators whose stakes
  add up, as unbounded numbers, to a positive value below \<open>2 ^ 64\<close>; the stored total is that sum. Every
  other list is refused with the error of the first check it fails.
\<close>

theorem ValidatorSet_new_spec:
  "ValidatorSet_new ws =
     (let total = (\<Sum>w\<leftarrow>ws. unat (stake w)) in
      if ws = [] then Err EmptyValidatorSet
      else if 128 < length ws then Err (ValidatorSetTooLarge (length ws) 128)
      else if 2 ^ 64 \<le> total then Err TotalStakeOverflow
      else if total = 0 then Err ZeroTotalStake
      else Ok \<lparr>validators = ws, total_stake = word_of_nat total\<rparr>)"
proof (cases "sum_stakes 0 ws")
  case None
  then have "2 ^ 64 \<le> (\<Sum>w\<leftarrow>ws. unat (stake w))"
    using sum_stakes_None [of 0 ws] by (simp add: nat_stake_def [abs_def])
  with None show ?thesis by (simp add: ValidatorSet_new_def MAX_VALIDATORS_def Let_def)
next
  case (Some t)
  let ?n = "\<Sum>w\<leftarrow>ws. unat (stake w)"
  have n: "?n < 2 ^ 64" "unat t = ?n"
    using Some by (simp_all add: sum_stakes_Some nat_stake_def [abs_def])
  have "t = word_of_nat ?n" by (simp flip: n(2))
  moreover have "t = 0 \<longleftrightarrow> ?n = 0" using n(2) by (metis unat_eq_zero)
  ultimately show ?thesis
    using Some n(1) by (simp add: ValidatorSet_new_def MAX_VALIDATORS_def Let_def)
qed

text \<open>
  Leader election is exactly proportional to stake: of the \<open>total_stake\<close> possible picks, each
  validator is the leader for as many as it has stake. In particular a validator without stake never
  leads, and saturation in the scan never distorts the shares.
\<close>

theorem leader_share_is_stake:
  assumes "ValidatorSet_new ws = Ok s" and "i < vs_size s"
  shows "card {p. p < total_stake s \<and> leader_at s p = i} = unat (stake (ws ! i))"
proof -
  have wf: "vs_wf s" and ws: "validators s = ws" using ValidatorSet_new_wf [OF assms(1)] by auto
  let ?lo = "stake_before ws i" and ?hi = "stake_before ws (Suc i)"
  have total: "unat (total_stake s) = stake_before ws (length ws)"
    using wf ws by (simp add: vs_wf_def stake_before_def)
  have hi: "?hi \<le> unat (total_stake s)"
    unfolding total using assms(2) ws by (intro stake_before_mono) (simp add: vs_size_def)
  have "{p. p < total_stake s \<and> leader_at s p = i} = {p. ?lo \<le> unat p \<and> unat p < ?hi}"
    using leader_at_iff [OF wf _ assms(2)] hi ws by (auto simp: word_less_nat_alt)
  moreover have "?hi \<le> 2 ^ 64" using hi unat_less_pow [of "total_stake s"] by simp
  ultimately show ?thesis
    using assms(2) ws by (simp add: card_words_between stake_before_Suc vs_size_def nat_stake_def)
qed

theorem leader_share_is_stake_witness:
  "card {p. p < 5 \<and> leader_at \<lparr>validators =
      [\<lparr>bls_pubkey = BlsPublicKey 1, vrf_pubkey = VrfPublicKey 1, stake = 2\<rparr>,
       \<lparr>bls_pubkey = BlsPublicKey 2, vrf_pubkey = VrfPublicKey 2, stake = 3\<rparr>], total_stake = 5\<rparr> p = 1} = 3"
  using leader_share_is_stake [of
      "[\<lparr>bls_pubkey = BlsPublicKey 1, vrf_pubkey = VrfPublicKey 1, stake = 2\<rparr>,
        \<lparr>bls_pubkey = BlsPublicKey 2, vrf_pubkey = VrfPublicKey 2, stake = 3\<rparr>]" _ 1]
  by (simp add: ValidatorSet_new_def MAX_VALIDATORS_def checked_add_def vs_size_def)

text \<open>
  The elected leader of any height and round is a member of the set with positive stake, for
  every hash function, so \<open>validators()[leader_idx]\<close> never panics, and a proof produced by that
  member's VRF key for the round verifies.
\<close>

theorem elected_leader_can_prove:
  assumes "vrf_proves C" and "ValidatorSet_new ws = Ok s"
    and "vrf_pubkey (ws ! select_leader C s h r seed) = vrf_public_key_of C sk"
  shows "select_leader C s h r seed < vs_size s \<and>
    0 < stake (ws ! select_leader C s h r seed) \<and>
    LeaderProof_verify C (LeaderProof_produce C nonce sk h r seed)
      (vrf_pubkey (ws ! select_leader C s h r seed)) h r seed = Ok ()"
proof -
  have wf: "vs_wf s" and ws: "validators s = ws" using ValidatorSet_new_wf [OF assms(2)] by auto
  show ?thesis
    using select_leader_less [OF wf, of C h r seed] LeaderProof_verify_produce [OF assms(1)] ws assms(3)
    by (simp add: stake_at_def nat_stake_def word_less_nat_alt)
qed

theorem elected_leader_can_prove_witness:
  "select_leader demo_crypto \<lparr>validators = [\<lparr>bls_pubkey = BlsPublicKey 1,
     vrf_pubkey = vrf_public_key_of demo_crypto (VrfSecretKey 7), stake = 2\<rparr>], total_stake = 2\<rparr> 1 0 0 < 1"
proof -
  let ?v = "\<lparr>bls_pubkey = BlsPublicKey 1, vrf_pubkey = vrf_public_key_of demo_crypto (VrfSecretKey 7),
     stake = 2\<rparr>"
  let ?s = "\<lparr>validators = [?v], total_stake = 2\<rparr>"
  have new: "ValidatorSet_new [?v] = Ok ?s"
    by (simp add: ValidatorSet_new_def MAX_VALIDATORS_def checked_add_def)
  have "select_leader demo_crypto ?s 1 0 0 < vs_size ?s"
    using select_leader_less ValidatorSet_new_wf [OF new] by blast
  then have zero: "select_leader demo_crypto ?s 1 0 0 = 0" by (simp add: vs_size_def)
  have "vrf_pubkey ([?v] ! select_leader demo_crypto ?s 1 0 0) = vrf_public_key_of demo_crypto (VrfSecretKey 7)"
    unfolding zero by simp
  from elected_leader_can_prove [OF demo_vrf_proves new this] show ?thesis by (simp add: vs_size_def)
qed

lemma quorum_threshold_wrapped:
  assumes "2 ^ 63 \<le> unat (total_stake s)"
  shows "unat (quorum_threshold s) = (2 * unat (total_stake s) - 2 ^ 64) div 3 + 1"
proof -
  have less: "unat (total_stake s) < 2 ^ 64" using unat_less_pow [of "total_stake s"] by simp
  have "unat (total_stake s * 2) = 2 * unat (total_stake s) mod 2 ^ 64" by (simp add: unat_word_ariths mult.commute)
  also have "\<dots> = 2 * unat (total_stake s) - 2 ^ 64" using assms less by (subst le_mod_geq) simp_all
  finally have "unat ((total_stake s * 2) div 3) = (2 * unat (total_stake s) - 2 ^ 64) div 3" by (simp add: unat_div)
  moreover have "(2 * unat (total_stake s) - 2 ^ 64) div 3 + 1 < 2 ^ 64" using less by simp
  ultimately show ?thesis
    using unat_add_small [of "(total_stake s * 2) div 3" "1 :: u64"] by (simp add: quorum_threshold_def)
qed

text \<open>
  (C23) Where the quorum rule holds and where it breaks. In every set that \<open>ValidatorSet::new\<close> accepts with a total stake
  \<open>T\<close> below \<open>2 ^ 63\<close>, the threshold is two thirds of \<open>T\<close>, rounded down, plus one, and any two quorums share more than a
  third of \<open>T\<close>. From \<open>2 ^ 63\<close> on, which \<open>ValidatorSet::new\<close> accepts as well, \<open>T * 2\<close> wraps: the threshold is
  \<open>(2 * T - 2 ^ 64) / 3 + 1\<close>, so every set of validators with a third of \<open>T\<close> and one unit more is a quorum, and two
  disjoint quorums are possible.
\<close>

theorem quorum_intersection_limit:
  assumes "ValidatorSet_new ws = Ok s" and "A \<subseteq> {..<vs_size s}" and "B \<subseteq> {..<vs_size s}"
  defines "T \<equiv> unat (total_stake s)" and "q \<equiv> unat (quorum_threshold s)"
  shows "(T < 2 ^ 63 \<longrightarrow> q = 2 * T div 3 + 1 \<and>
      (q \<le> stake_of s A \<and> q \<le> stake_of s B \<longrightarrow> T < 3 * stake_of s (A \<inter> B))) \<and>
    (2 ^ 63 \<le> T \<longrightarrow> q = (2 * T - 2 ^ 64) div 3 + 1 \<and> (T + 3 \<le> 3 * stake_of s A \<longrightarrow> q \<le> stake_of s A))"
proof (intro conjI impI)
  have wf: "vs_wf s" using ValidatorSet_new_wf [OF assms(1)] by simp
  {
    assume small: "T < 2 ^ 63"
    then show "q = 2 * T div 3 + 1" unfolding T_def q_def by (rule quorum_threshold_unat)
    assume "q \<le> stake_of s A \<and> q \<le> stake_of s B"
    then show "T < 3 * stake_of s (A \<inter> B)"
      using vset.intersection_weight [of s A B] assms(2,3) wf small stake_of_all [OF wf]
      by (simp add: safe_total_def T_def q_def stake_of_def)
  next
    assume large: "2 ^ 63 \<le> T"
    then show q: "q = (2 * T - 2 ^ 64) div 3 + 1" unfolding T_def q_def by (rule quorum_threshold_wrapped)
    assume third: "T + 3 \<le> 3 * stake_of s A"
    have "T < 2 ^ 64" using unat_less_pow [of "total_stake s"] by (simp add: T_def)
    then have "2 * T - 2 ^ 64 \<le> T" by simp
    then have "(2 * T - 2 ^ 64) div 3 \<le> T div 3" by (rule div_le_mono)
    then show "q \<le> stake_of s A" using q third by linarith
  }
qed

theorem quorum_intersection_limit_witness:
  "let s = \<lparr>validators = [\<lparr>bls_pubkey = BlsPublicKey 1, vrf_pubkey = VrfPublicKey 1, stake = 2 ^ 62\<rparr>,
             \<lparr>bls_pubkey = BlsPublicKey 2, vrf_pubkey = VrfPublicKey 2, stake = 2 ^ 62\<rparr>], total_stake = 2 ^ 63\<rparr>
   in ValidatorSet_new (validators s) = Ok s \<and>
      unat (quorum_threshold s) \<le> stake_of s {0} \<and> unat (quorum_threshold s) \<le> stake_of s {1}"
proof -
  let ?ws = "[\<lparr>bls_pubkey = BlsPublicKey 1, vrf_pubkey = VrfPublicKey 1, stake = 2 ^ 62\<rparr>,
             \<lparr>bls_pubkey = BlsPublicKey 2, vrf_pubkey = VrfPublicKey 2, stake = 2 ^ 62\<rparr>]"
  let ?s = "\<lparr>validators = ?ws, total_stake = 2 ^ 63\<rparr>"
  have new: "ValidatorSet_new ?ws = Ok ?s"
    by (simp add: ValidatorSet_new_def MAX_VALIDATORS_def checked_add_def)
  have sub: "{0} \<subseteq> {..<vs_size ?s}" "{1} \<subseteq> {..<vs_size ?s}" by (simp_all add: vs_size_def)
  have st: "stake_of ?s {0} = 2 ^ 62" "stake_of ?s {1} = 2 ^ 62" "unat (total_stake ?s) = 2 ^ 63"
    by (simp_all add: stake_of_def stake_at_def nat_stake_def)
  show ?thesis
    using quorum_intersection_limit [OF new sub(1) sub(2)] quorum_intersection_limit [OF new sub(2) sub(1)] new st
    by (simp add: Let_def)
qed

end
