(* ===== verification/Tally.thy ===== *)
theory Tally
  imports Validators
begin

section \<open>Votes, tallies and certificates\<close>

text \<open>
  The second part of \<open>aii-consensus-bft/src/bft.rs\<close>: signed votes of the two phases, the talliers
  that collect them, and the certificates (\<open>PolcCertificate\<close>, \<open>PrecommitCertificate\<close>) they emit.
  The source declares the vote, tallier and certificate of each phase as separate structs with the
  same fields; here each pair shares one record, and every function of each phase is written out.

  A \<open>&mut self\<close> method returns its result paired with the tallier after the call, so that "state
  unchanged on error" is a statement about the pair. The locale \<open>vote_phase\<close> is the contract of a
  phase (digest, submit, certify, verify); both phases are interpretations of it.
\<close>

subsection \<open>Votes\<close>

record vote =
  block_hash :: h256
  height :: u64
  round :: u32
  validator_index :: u32
  bls_sig :: bls_signature

definition PREVOTE_DOMAIN :: "byte list" where
  "PREVOTE_DOMAIN = ascii ''AII-PREVOTE''"

definition PRECOMMIT_DOMAIN :: "byte list" where
  "PRECOMMIT_DOMAIN = ascii ''AII-PRECOMMIT''"

definition vote_bytes :: "h256 \<Rightarrow> u64 \<Rightarrow> u32 \<Rightarrow> byte list" where
  "vote_bytes bh h r = h256_bytes bh @ to_be_bytes 8 h @ to_be_bytes 4 r"

definition PrevoteVote_digest :: "crypto \<Rightarrow> h256 \<Rightarrow> u64 \<Rightarrow> u32 \<Rightarrow> h256" where
  "PrevoteVote_digest C bh h r = keccak256 C (PREVOTE_DOMAIN @ vote_bytes bh h r)"

definition PrevoteVote_sign ::
    "crypto \<Rightarrow> bls_secret_key \<Rightarrow> h256 \<Rightarrow> u64 \<Rightarrow> u32 \<Rightarrow> u32 \<Rightarrow> vote" where
  "PrevoteVote_sign C sk bh h r idx =
     (let d = PrevoteVote_digest C bh h r
      in \<lparr>block_hash = bh, height = h, round = r, validator_index = idx,
          bls_sig = bls_sign C sk (h256_bytes d)\<rparr>)"

definition PrecommitVote_digest :: "crypto \<Rightarrow> h256 \<Rightarrow> u64 \<Rightarrow> u32 \<Rightarrow> h256" where
  "PrecommitVote_digest C bh h r = keccak256 C (PRECOMMIT_DOMAIN @ vote_bytes bh h r)"

definition PrecommitVote_sign ::
    "crypto \<Rightarrow> bls_secret_key \<Rightarrow> h256 \<Rightarrow> u64 \<Rightarrow> u32 \<Rightarrow> u32 \<Rightarrow> vote" where
  "PrecommitVote_sign C sk bh h r idx =
     (let d = PrecommitVote_digest C bh h r
      in \<lparr>block_hash = bh, height = h, round = r, validator_index = idx,
          bls_sig = bls_sign C sk (h256_bytes d)\<rparr>)"

datatype tally_state = Accepted | ReachedQuorum

subsection \<open>Talliers\<close>

record tallier =
  t_block_hash :: h256
  t_height :: u64
  t_round :: u32
  t_vs :: validator_set
  received :: "u32 set"
  sigs :: "bls_signature list"
  pubkeys :: "bls_public_key list"
  t_signer_bitmap :: u128
  stake_collected :: u64

record certificate =
  c_block_hash :: h256
  c_height :: u64
  c_round :: u32
  signer_bitmap :: u128
  aggregated_sig :: bls_signature

definition PrevoteTallier_new :: "h256 \<Rightarrow> u64 \<Rightarrow> u32 \<Rightarrow> validator_set \<Rightarrow> tallier" where
  "PrevoteTallier_new bh h r vs =
     \<lparr>t_block_hash = bh, t_height = h, t_round = r, t_vs = vs, received = {}, sigs = [],
      pubkeys = [], t_signer_bitmap = 0, stake_collected = 0\<rparr>"

definition PrevoteTallier_submit ::
    "crypto \<Rightarrow> tallier \<Rightarrow> vote \<Rightarrow> (bft_error, tally_state) result \<times> tallier" where
  "PrevoteTallier_submit C t v =
     (if block_hash v \<noteq> t_block_hash t then (Err WrongBlockHash, t)
      else if height v \<noteq> t_height t then (Err WrongHeight, t)
      else if round v \<noteq> t_round t then (Err WrongRound, t)
      else let idx = unat (validator_index v) in
      if idx \<ge> vs_size (t_vs t) then
        (Err (ValidatorIndexOutOfBounds (validator_index v) (vs_size (t_vs t))), t)
      else if validator_index v \<in> received t then (Err (DuplicateVote (validator_index v)), t)
      else
        let val = validators (t_vs t) ! idx;
            d = PrevoteVote_digest C (t_block_hash t) (t_height t) (t_round t)
        in case map_err (\<lambda>_. InvalidBlsSignature)
                  (bls_verify C (bls_sig v) (h256_bytes d) (bls_pubkey val)) of
             Err e \<Rightarrow> (Err e, t)
           | Panic \<Rightarrow> (Panic, t)
           | Ok _ \<Rightarrow>
               let t' = t\<lparr>received := insert (validator_index v) (received t),
                          sigs := sigs t @ [bls_sig v],
                          pubkeys := pubkeys t @ [bls_pubkey val],
                          t_signer_bitmap := t_signer_bitmap t OR shl 1 idx,
                          stake_collected := saturating_add (stake_collected t) (stake val)\<rparr>
               in if stake_collected t' \<ge> quorum_threshold (t_vs t') then (Ok ReachedQuorum, t')
                  else (Ok Accepted, t'))"

definition try_form_polc :: "crypto \<Rightarrow> tallier \<Rightarrow> certificate option" where
  "try_form_polc C t =
     (if stake_collected t < quorum_threshold (t_vs t) then None
      else case aggregate_signatures C (sigs t) of
             Ok a \<Rightarrow> Some \<lparr>c_block_hash = t_block_hash t, c_height = t_height t,
                            c_round = t_round t, signer_bitmap = t_signer_bitmap t,
                            aggregated_sig = a\<rparr>
           | _ \<Rightarrow> None)"

definition PrecommitTallier_new :: "h256 \<Rightarrow> u64 \<Rightarrow> u32 \<Rightarrow> validator_set \<Rightarrow> tallier" where
  "PrecommitTallier_new bh h r vs =
     \<lparr>t_block_hash = bh, t_height = h, t_round = r, t_vs = vs, received = {}, sigs = [],
      pubkeys = [], t_signer_bitmap = 0, stake_collected = 0\<rparr>"

definition PrecommitTallier_submit ::
    "crypto \<Rightarrow> tallier \<Rightarrow> vote \<Rightarrow> (bft_error, tally_state) result \<times> tallier" where
  "PrecommitTallier_submit C t v =
     (if block_hash v \<noteq> t_block_hash t then (Err WrongBlockHash, t)
      else if height v \<noteq> t_height t then (Err WrongHeight, t)
      else if round v \<noteq> t_round t then (Err WrongRound, t)
      else let idx = unat (validator_index v) in
      if idx \<ge> vs_size (t_vs t) then
        (Err (ValidatorIndexOutOfBounds (validator_index v) (vs_size (t_vs t))), t)
      else if validator_index v \<in> received t then (Err (DuplicateVote (validator_index v)), t)
      else
        let val = validators (t_vs t) ! idx;
            d = PrecommitVote_digest C (t_block_hash t) (t_height t) (t_round t)
        in case map_err (\<lambda>_. InvalidBlsSignature)
                  (bls_verify C (bls_sig v) (h256_bytes d) (bls_pubkey val)) of
             Err e \<Rightarrow> (Err e, t)
           | Panic \<Rightarrow> (Panic, t)
           | Ok _ \<Rightarrow>
               let t' = t\<lparr>received := insert (validator_index v) (received t),
                          sigs := sigs t @ [bls_sig v],
                          pubkeys := pubkeys t @ [bls_pubkey val],
                          t_signer_bitmap := t_signer_bitmap t OR shl 1 idx,
                          stake_collected := saturating_add (stake_collected t) (stake val)\<rparr>
               in if stake_collected t' \<ge> quorum_threshold (t_vs t') then (Ok ReachedQuorum, t')
                  else (Ok Accepted, t'))"

definition try_finalize :: "crypto \<Rightarrow> tallier \<Rightarrow> certificate option" where
  "try_finalize C t =
     (if stake_collected t < quorum_threshold (t_vs t) then None
      else case aggregate_signatures C (sigs t) of
             Ok a \<Rightarrow> Some \<lparr>c_block_hash = t_block_hash t, c_height = t_height t,
                            c_round = t_round t, signer_bitmap = t_signer_bitmap t,
                            aggregated_sig = a\<rparr>
           | _ \<Rightarrow> None)"

subsection \<open>Certificate verification\<close>

text \<open>The loop of both \<open>verify\<close> functions: the keys and the saturating stake of the set bits.\<close>

fun gather_signers ::
    "u128 \<Rightarrow> nat \<Rightarrow> validator list \<Rightarrow> bls_public_key list \<Rightarrow> u64 \<Rightarrow> bls_public_key list \<times> u64" where
  "gather_signers bm i [] pks st = (pks, st)"
| "gather_signers bm i (v # vs) pks st =
     (if test_bit_src bm i
      then gather_signers bm (Suc i) vs (pks @ [bls_pubkey v]) (saturating_add st (stake v))
      else gather_signers bm (Suc i) vs pks st)"

definition PolcCertificate_verify ::
    "crypto \<Rightarrow> certificate \<Rightarrow> validator_set \<Rightarrow> (bft_error, unit) result" where
  "PolcCertificate_verify C c vs =
     (let n = vs_size vs in
      if signer_bitmap c \<noteq> 0 \<and> ilog2 (signer_bitmap c) \<ge> n then
        Err (ValidatorIndexOutOfBounds (word_of_nat (ilog2 (signer_bitmap c))) n)
      else
        let (pks, signer_stake) = gather_signers (signer_bitmap c) 0 (validators vs) [] 0 in
        if signer_stake < quorum_threshold vs then Err InvalidBlsSignature
        else
          let d = PrevoteVote_digest C (c_block_hash c) (c_height c) (c_round c)
          in map_err (\<lambda>_. InvalidBlsSignature)
               (fast_aggregate_verify C (aggregated_sig c) (h256_bytes d) pks))"

definition PrecommitCertificate_verify ::
    "crypto \<Rightarrow> certificate \<Rightarrow> validator_set \<Rightarrow> (bft_error, unit) result" where
  "PrecommitCertificate_verify C c vs =
     (let n = vs_size vs in
      if signer_bitmap c \<noteq> 0 \<and> ilog2 (signer_bitmap c) \<ge> n then
        Err (ValidatorIndexOutOfBounds (word_of_nat (ilog2 (signer_bitmap c))) n)
      else
        let (pks, signer_stake) = gather_signers (signer_bitmap c) 0 (validators vs) [] 0 in
        if signer_stake < quorum_threshold vs then Err InvalidBlsSignature
        else
          let d = PrecommitVote_digest C (c_block_hash c) (c_height c) (c_round c)
          in map_err (\<lambda>_. InvalidBlsSignature)
               (fast_aggregate_verify C (aggregated_sig c) (h256_bytes d) pks))"

subsection \<open>What a phase promises\<close>

text \<open>
  The specification of a phase over the signers' indices: which votes are admitted, what an
  admitted vote adds to the tally, and when a certificate is valid.
\<close>

type_synonym digest_fun = "crypto \<Rightarrow> h256 \<Rightarrow> u64 \<Rightarrow> u32 \<Rightarrow> h256"

definition vote_valid :: "digest_fun \<Rightarrow> crypto \<Rightarrow> validator_set \<Rightarrow> vote \<Rightarrow> bool" where
  "vote_valid digest C vs v \<longleftrightarrow>
     unat (validator_index v) < vs_size vs \<and>
     bls_verify C (bls_sig v) (h256_bytes (digest C (block_hash v) (height v) (round v)))
       (bls_pubkey (validators vs ! unat (validator_index v))) = Ok ()"

definition vote_admissible :: "digest_fun \<Rightarrow> crypto \<Rightarrow> tallier \<Rightarrow> vote \<Rightarrow> bool" where
  "vote_admissible digest C t v \<longleftrightarrow>
     block_hash v = t_block_hash t \<and> height v = t_height t \<and> round v = t_round t \<and>
     validator_index v \<notin> received t \<and> vote_valid digest C (t_vs t) v"

definition tally_add :: "tallier \<Rightarrow> vote \<Rightarrow> tallier" where
  "tally_add t v =
     (let val = validators (t_vs t) ! unat (validator_index v)
      in t\<lparr>received := insert (validator_index v) (received t),
           sigs := sigs t @ [bls_sig v],
           pubkeys := pubkeys t @ [bls_pubkey val],
           t_signer_bitmap := t_signer_bitmap t OR shl 1 (unat (validator_index v)),
           stake_collected := saturating_add (stake_collected t) (stake val)\<rparr>)"

definition has_quorum :: "tallier \<Rightarrow> bool" where
  "has_quorum t \<longleftrightarrow> quorum_threshold (t_vs t) \<le> stake_collected t"

definition signer_keys :: "validator_set \<Rightarrow> nat list \<Rightarrow> bls_public_key list" where
  "signer_keys vs idxs = map (\<lambda>i. bls_pubkey (validators vs ! i)) idxs"

definition signer_indices :: "validator_set \<Rightarrow> u128 \<Rightarrow> nat list" where
  "signer_indices vs bm = filter (bit bm) [0..<vs_size vs]"

definition cert_valid :: "digest_fun \<Rightarrow> crypto \<Rightarrow> certificate \<Rightarrow> validator_set \<Rightarrow> bool" where
  "cert_valid digest C c vs \<longleftrightarrow>
     bits_of (signer_bitmap c) \<subseteq> {..<vs_size vs} \<and>
     unat (quorum_threshold vs) \<le> stake_of vs (bits_of (signer_bitmap c)) \<and>
     fast_aggregate_verify C (aggregated_sig c)
       (h256_bytes (digest C (c_block_hash c) (c_height c) (c_round c)))
       (signer_keys vs (signer_indices vs (signer_bitmap c))) = Ok ()"

definition cert_of :: "tallier \<Rightarrow> bls_signature \<Rightarrow> certificate" where
  "cert_of t a = \<lparr>c_block_hash = t_block_hash t, c_height = t_height t, c_round = t_round t,
                  signer_bitmap = t_signer_bitmap t, aggregated_sig = a\<rparr>"

lemma tally_add_simps [simp]:
  "t_block_hash (tally_add t v) = t_block_hash t" "t_height (tally_add t v) = t_height t"
  "t_round (tally_add t v) = t_round t" "t_vs (tally_add t v) = t_vs t"
  "received (tally_add t v) = insert (validator_index v) (received t)"
  "sigs (tally_add t v) = sigs t @ [bls_sig v]"
  "pubkeys (tally_add t v) =
     pubkeys t @ [bls_pubkey (validators (t_vs t) ! unat (validator_index v))]"
  "t_signer_bitmap (tally_add t v) = t_signer_bitmap t OR shl 1 (unat (validator_index v))"
  "stake_collected (tally_add t v) =
     saturating_add (stake_collected t) (stake (validators (t_vs t) ! unat (validator_index v)))"
  by (simp_all add: tally_add_def Let_def)

lemma gather_signers_spec:
  assumes "i + length vs \<le> 128"
    and "unat st + sum_list (map nat_stake vs) < 2 ^ 64"
  shows "fst (gather_signers bm i vs pks st) =
           pks @ map (\<lambda>k. bls_pubkey (vs ! k)) (filter (\<lambda>k. bit bm (i + k)) [0..<length vs]) \<and>
         unat (snd (gather_signers bm i vs pks st)) =
           unat st + (\<Sum>k | k < length vs \<and> bit bm (i + k). nat_stake (vs ! k))"
  using assms
proof (induction vs arbitrary: i pks st)
  case Nil
  show ?case by simp
next
  case (Cons v vs)
  have idx: "[0..<length (v # vs)] = 0 # map Suc [0..<length vs]"
    by (simp add: upt_conv_Cons map_Suc_upt del: upt_Suc)
  have sum_list_form: "(\<Sum>k | k < length ws \<and> bit bm (j + k). nat_stake (ws ! k)) =
      sum_list (map (\<lambda>k. nat_stake (ws ! k)) (filter (\<lambda>k. bit bm (j + k)) [0..<length ws]))"
    for j ws by (simp only: sum_list_filter_index)
  have sat: "unat (saturating_add st (stake v)) = unat st + nat_stake v"
    using Cons.prems(2) by (simp add: arith_unat nat_stake_def)
  have small: "Suc i + length vs \<le> 128"
      "unat (saturating_add st (stake v)) + sum_list (map nat_stake vs) < 2 ^ 64"
      "unat st + sum_list (map nat_stake vs) < 2 ^ 64"
    using Cons.prems unfolding sat by simp_all
  note IH1 = Cons.IH [OF small(1,2), of "pks @ [bls_pubkey v]"]
    and IH2 = Cons.IH [OF small(1,3), of pks]
  show ?case
  proof (cases "bit bm i")
    case True
    then have "test_bit_src bm i" using Cons.prems(1) by simp
    with True IH1 show ?thesis
      unfolding sum_list_form idx by (simp add: sat filter_map comp_def)
  next
    case False
    then have "\<not> test_bit_src bm i" using Cons.prems(1) by simp
    with False IH2 show ?thesis
      unfolding sum_list_form idx by (simp add: filter_map comp_def)
  qed
qed

lemma gather_signers_wf:
  assumes "vs_wf vs" and "bits_of bm \<subseteq> {..<vs_size vs}"
  obtains st where
    "gather_signers bm 0 (validators vs) [] 0 = (signer_keys vs (signer_indices vs bm), st)"
    and "unat st = stake_of vs (bits_of bm)"
proof -
  let ?g = "gather_signers bm 0 (validators vs) [] 0"
  have pre: "0 + length (validators vs) \<le> 128"
      "unat (0 :: u64) + sum_list (map nat_stake (validators vs)) < 2 ^ 64"
    using assms(1) unat_less_pow [of "total_stake vs"] by (auto simp: vs_wf_def MAX_VALIDATORS_def)
  have "bits_of bm = {k. k < length (validators vs) \<and> bit bm k}"
    using assms(2) by (auto simp: bits_of_def vs_size_def)
  then have "unat (snd ?g) = stake_of vs (bits_of bm)"
    using gather_signers_spec [OF pre, of bm "[]"] by (simp add: stake_of_def stake_at_def)
  moreover have "fst ?g = signer_keys vs (signer_indices vs bm)"
    using gather_signers_spec [OF pre, of bm "[]"]
    by (simp add: signer_keys_def signer_indices_def vs_size_def)
  ultimately show thesis by (metis that prod.collapse)
qed

lemma bitmap_bound_iff:
  "\<not> (bm \<noteq> 0 \<and> ilog2 bm \<ge> n) \<longleftrightarrow> bits_of bm \<subseteq> {..<n}"
  using ilog2_less_iff [of bm n] by (cases "bm = 0") auto

text \<open>
  The invariant of a tally: some order \<open>idxs\<close> in which distinct validators were admitted explains
  every field, and each kept signature verifies under its validator's key.
\<close>

definition tally_order :: "digest_fun \<Rightarrow> crypto \<Rightarrow> tallier \<Rightarrow> nat list \<Rightarrow> bool" where
  "tally_order digest C t idxs \<longleftrightarrow>
     distinct idxs \<and> set idxs \<subseteq> {..<vs_size (t_vs t)} \<and>
     unat ` received t = set idxs \<and> bits_of (t_signer_bitmap t) = set idxs \<and>
     pubkeys t = signer_keys (t_vs t) idxs \<and> length (sigs t) = length idxs \<and>
     (\<forall>k < length idxs. bls_verify C (sigs t ! k)
        (h256_bytes (digest C (t_block_hash t) (t_height t) (t_round t)))
        (signer_keys (t_vs t) idxs ! k) = Ok ()) \<and>
     unat (stake_collected t) = stake_of (t_vs t) (set idxs)"

definition tally_inv :: "digest_fun \<Rightarrow> crypto \<Rightarrow> tallier \<Rightarrow> bool" where
  "tally_inv digest C t \<longleftrightarrow> vs_wf (t_vs t) \<and> (\<exists>idxs. tally_order digest C t idxs)"

fun submit_all ::
    "(crypto \<Rightarrow> tallier \<Rightarrow> vote \<Rightarrow> (bft_error, tally_state) result \<times> tallier) \<Rightarrow>
     crypto \<Rightarrow> tallier \<Rightarrow> vote list \<Rightarrow> tallier" where
  "submit_all submit C t [] = t"
| "submit_all submit C t (v # vs) = submit_all submit C (snd (submit C t v)) vs"

lemma tally_order_add:
  assumes "vs_wf (t_vs t)" and "tally_order digest C t idxs" and "vote_admissible digest C t v"
  shows "tally_order digest C (tally_add t v) (idxs @ [unat (validator_index v)])"
proof -
  let ?i = "unat (validator_index v)" and ?vs = "t_vs t"
  have order: "distinct idxs" "set idxs \<subseteq> {..<vs_size ?vs}" "unat ` received t = set idxs"
      "bits_of (t_signer_bitmap t) = set idxs" "pubkeys t = signer_keys ?vs idxs"
      "length (sigs t) = length idxs" "unat (stake_collected t) = stake_of ?vs (set idxs)"
    and sigs_ok: "\<forall>k < length idxs. bls_verify C (sigs t ! k)
        (h256_bytes (digest C (t_block_hash t) (t_height t) (t_round t)))
        (signer_keys ?vs idxs ! k) = Ok ()"
    using assms(2) by (simp_all add: tally_order_def)
  have adm: "?i < vs_size ?vs" "validator_index v \<notin> received t"
    and sig_ok: "bls_verify C (bls_sig v)
        (h256_bytes (digest C (t_block_hash t) (t_height t) (t_round t)))
        (bls_pubkey (validators ?vs ! ?i)) = Ok ()"
    using assms(3) by (auto simp: vote_admissible_def vote_valid_def)
  have fresh: "?i \<notin> set idxs"
  proof
    assume "?i \<in> set idxs"
    then obtain w where "w \<in> received t" "?i = unat w" using order(3) by (metis imageE)
    then show False using adm(2) by (metis word_unat_eq_iff)
  qed
  have "?i < 128" using adm(1) assms(1) by (simp add: vs_wf_def MAX_VALIDATORS_def vs_size_def)
  then have bits: "bits_of (t_signer_bitmap (tally_add t v)) = insert ?i (set idxs)"
    using bits_of_set [of ?i "t_signer_bitmap t"] order(4) by simp
  have new_stake: "stake_of ?vs (insert ?i (set idxs)) = stake_at ?vs ?i + stake_of ?vs (set idxs)"
    using fresh by (simp add: stake_of_insert)
  moreover have "stake_of ?vs (insert ?i (set idxs)) < 2 ^ 64"
    using stake_of_le [of ?vs "insert ?i (set idxs)"] assms(1) order(2) adm(1)
      unat_less_pow [of "total_stake ?vs"] by simp
  ultimately have stake: "unat (stake_collected (tally_add t v)) = stake_of ?vs (insert ?i (set idxs))"
    using order(7) by (simp add: arith_unat stake_at_def nat_stake_def)
  have "bls_verify C (sigs (tally_add t v) ! k)
      (h256_bytes (digest C (t_block_hash t) (t_height t) (t_round t)))
      (signer_keys ?vs (idxs @ [?i]) ! k) = Ok ()" if "k < Suc (length idxs)" for k
    using that sigs_ok sig_ok order(5,6)
    by (cases "k = length idxs") (auto simp: nth_append signer_keys_def)
  then show ?thesis
    using order fresh bits stake adm(1) by (simp add: tally_order_def signer_keys_def)
qed

locale vote_phase =
  fixes digest :: digest_fun
    and submit :: "crypto \<Rightarrow> tallier \<Rightarrow> vote \<Rightarrow> (bft_error, tally_state) result \<times> tallier"
    and certify :: "crypto \<Rightarrow> tallier \<Rightarrow> certificate option"
    and verify :: "crypto \<Rightarrow> certificate \<Rightarrow> validator_set \<Rightarrow> (bft_error, unit) result"
  assumes submit_admits: "vote_admissible digest C t v \<Longrightarrow>
      submit C t v = (Ok (if has_quorum (tally_add t v) then ReachedQuorum else Accepted),
                      tally_add t v)"
    and submit_rejects: "\<not> vote_admissible digest C t v \<Longrightarrow> \<exists>e. submit C t v = (Err e, t)"
    and certify_iff: "certify C t = Some c \<longleftrightarrow>
      has_quorum t \<and> (\<exists>a. aggregate_signatures C (sigs t) = Ok a \<and> c = cert_of t a)"
    and verify_iff: "vs_wf vs \<Longrightarrow> verify C c vs = Ok () \<longleftrightarrow> cert_valid digest C c vs"
    and verify_no_panic: "verify C c vs \<noteq> Panic"
begin

lemma submit_cases:
  obtains (admit) "vote_admissible digest C t v"
    "submit C t v = (Ok (if has_quorum (tally_add t v) then ReachedQuorum else Accepted), tally_add t v)"
  | (reject) e where "\<not> vote_admissible digest C t v" "submit C t v = (Err e, t)"
  using submit_admits submit_rejects by metis

lemma submit_Ok_iff:
  "submit C t v = (Ok st, t') \<longleftrightarrow> vote_admissible digest C t v \<and> t' = tally_add t v \<and>
     st = (if has_quorum t' then ReachedQuorum else Accepted)"
  by (cases rule: submit_cases [of C t v]) auto

lemma submit_Err_unchanged: "submit C t v = (Err e, t') \<Longrightarrow> t' = t"
  by (cases rule: submit_cases [of C t v]) auto

lemma submit_no_panic: "fst (submit C t v) \<noteq> Panic"
  by (cases rule: submit_cases [of C t v]) auto

lemma submit_frame:
  "t_vs (snd (submit C t v)) = t_vs t \<and> t_block_hash (snd (submit C t v)) = t_block_hash t \<and>
   t_height (snd (submit C t v)) = t_height t \<and> t_round (snd (submit C t v)) = t_round t"
  by (cases rule: submit_cases [of C t v]) auto

lemma inv_submit: "tally_inv digest C t \<Longrightarrow> tally_inv digest C (snd (submit C t v))"
  by (cases rule: submit_cases [of C t v]) (auto simp: tally_inv_def dest: tally_order_add)

lemma submit_all_frame:
  "t_vs (submit_all submit C t vs) = t_vs t \<and> t_block_hash (submit_all submit C t vs) = t_block_hash t \<and>
   t_height (submit_all submit C t vs) = t_height t \<and> t_round (submit_all submit C t vs) = t_round t"
  by (induction vs arbitrary: t) (simp_all add: submit_frame)

lemma inv_submit_all: "tally_inv digest C t \<Longrightarrow> tally_inv digest C (submit_all submit C t vs)"
  by (induction vs arbitrary: t) (simp_all add: inv_submit)

text \<open>Every validator counted by a run either was counted at the start or cast a valid vote in it.\<close>

lemma submit_all_received:
  assumes "i \<in> received (submit_all submit C t vs)"
  shows "i \<in> received t \<or>
    (\<exists>v \<in> set vs. validator_index v = i \<and> block_hash v = t_block_hash t \<and> height v = t_height t \<and>
       round v = t_round t \<and> vote_valid digest C (t_vs t) v)"
  using assms
proof (induction vs arbitrary: t)
  case (Cons v vs)
  show ?case
  proof (cases rule: submit_cases [of C t v])
    case admit
    then show ?thesis using Cons.IH [of "tally_add t v"] Cons.prems
      by (auto simp: vote_admissible_def)
  next
    case (reject e)
    then show ?thesis using Cons.IH [of t] Cons.prems by auto
  qed
qed simp

lemma certificate_verifies:
  assumes laws: "bls_aggregates C" and inv: "tally_inv digest C t" and quorum: "has_quorum t"
  shows "\<exists>c. certify C t = Some c \<and> c_block_hash c = t_block_hash t \<and> c_height c = t_height t \<and>
           c_round c = t_round t \<and> bits_of (signer_bitmap c) = unat ` received t \<and>
           verify C c (t_vs t) = Ok ()"
proof -
  let ?vs = "t_vs t" and ?bm = "t_signer_bitmap t"
  let ?m = "h256_bytes (digest C (t_block_hash t) (t_height t) (t_round t))"
  obtain idxs where wf: "vs_wf ?vs" and ord: "tally_order digest C t idxs"
    using inv by (auto simp: tally_inv_def)
  have stake: "unat (stake_collected t) = stake_of ?vs (set idxs)"
    using ord by (simp add: tally_order_def)
  then have "idxs \<noteq> []"
    using quorum quorum_threshold_pos [of ?vs]
    by (auto simp: has_quorum_def word_le_nat_alt stake_of_def)
  then have "sigs t \<noteq> []" and "length (sigs t) = length (pubkeys t)"
    using ord by (auto simp: tally_order_def signer_keys_def)
  moreover have "\<forall>k < length (sigs t). bls_verify C (sigs t ! k) ?m (pubkeys t ! k) = Ok ()"
    using ord by (simp add: tally_order_def)
  moreover have "mset (signer_keys ?vs (signer_indices ?vs ?bm)) = mset (pubkeys t)"
  proof -
    have "set (signer_indices ?vs ?bm) = set idxs"
      using ord by (auto simp: tally_order_def signer_indices_def bits_of_def)
    moreover have "distinct (signer_indices ?vs ?bm)" by (simp add: signer_indices_def)
    moreover have "distinct idxs" using ord by (simp add: tally_order_def)
    ultimately have "mset (signer_indices ?vs ?bm) = mset idxs"
      by (metis set_eq_iff_mset_eq_distinct)
    then show ?thesis using ord by (simp add: signer_keys_def tally_order_def)
  qed
  ultimately obtain a where a: "aggregate_signatures C (sigs t) = Ok a"
      "fast_aggregate_verify C a ?m (signer_keys ?vs (signer_indices ?vs ?bm)) = Ok ()"
    using aggregate_then_verify [OF laws] by metis
  then have "certify C t = Some (cert_of t a)" using quorum by (simp add: certify_iff)
  moreover have "cert_valid digest C (cert_of t a) ?vs"
    using ord quorum a(2) stake
    by (simp add: cert_valid_def cert_of_def tally_order_def has_quorum_def word_le_nat_alt)
  ultimately show ?thesis
    using ord wf by (auto simp: verify_iff cert_of_def tally_order_def)
qed

lemma certificates_intersect:
  assumes "safe_total vs" and "verify C c vs = Ok ()" and "verify C c' vs = Ok ()"
  shows "unat (total_stake vs) <
     3 * stake_of vs (bits_of (signer_bitmap c) \<inter> bits_of (signer_bitmap c'))"
proof -
  have wf: "vs_wf vs" using assms(1) by (simp add: safe_total_def)
  then have "cert_valid digest C c vs" "cert_valid digest C c' vs"
    using assms(2,3) by (simp_all add: verify_iff)
  then show ?thesis
    using vset.intersection_weight [OF assms(1)] stake_of_all [OF wf]
    by (simp add: cert_valid_def stake_of_def)
qed

end

lemma PrevoteTallier_submit_admits:
  "vote_admissible PrevoteVote_digest C t v \<Longrightarrow>
     PrevoteTallier_submit C t v =
       (Ok (if has_quorum (tally_add t v) then ReachedQuorum else Accepted), tally_add t v)"
  by (auto simp: vote_admissible_def vote_valid_def PrevoteTallier_submit_def tally_add_def
      has_quorum_def Let_def)

lemma PrevoteTallier_submit_rejects:
  "\<not> vote_admissible PrevoteVote_digest C t v \<Longrightarrow> \<exists>e. PrevoteTallier_submit C t v = (Err e, t)"
  by (auto simp: vote_admissible_def vote_valid_def PrevoteTallier_submit_def Let_def bls_verify_def)

lemma PrecommitTallier_submit_admits:
  "vote_admissible PrecommitVote_digest C t v \<Longrightarrow>
     PrecommitTallier_submit C t v =
       (Ok (if has_quorum (tally_add t v) then ReachedQuorum else Accepted), tally_add t v)"
  by (auto simp: vote_admissible_def vote_valid_def PrecommitTallier_submit_def tally_add_def
      has_quorum_def Let_def)

lemma PrecommitTallier_submit_rejects:
  "\<not> vote_admissible PrecommitVote_digest C t v \<Longrightarrow> \<exists>e. PrecommitTallier_submit C t v = (Err e, t)"
  by (auto simp: vote_admissible_def vote_valid_def PrecommitTallier_submit_def Let_def bls_verify_def)

lemma certificate_checks:
  assumes "vs_wf vs"
  shows "(\<not> (signer_bitmap c \<noteq> 0 \<and> ilog2 (signer_bitmap c) \<ge> vs_size vs) \<and>
     (let (pks, st) = gather_signers (signer_bitmap c) 0 (validators vs) [] 0
      in \<not> st < quorum_threshold vs \<and> fast_aggregate_verify C (aggregated_sig c)
           (h256_bytes (digest C (c_block_hash c) (c_height c) (c_round c))) pks = Ok ())) \<longleftrightarrow>
     cert_valid digest C c vs"
proof (cases "bits_of (signer_bitmap c) \<subseteq> {..<vs_size vs}")
  case True
  obtain st where "gather_signers (signer_bitmap c) 0 (validators vs) [] 0 =
      (signer_keys vs (signer_indices vs (signer_bitmap c)), st)"
    and "unat st = stake_of vs (bits_of (signer_bitmap c))"
    by (rule gather_signers_wf [OF assms True])
  with True show ?thesis
    unfolding bitmap_bound_iff cert_valid_def by (simp add: word_less_nat_alt not_less)
next
  case False
  then show ?thesis unfolding bitmap_bound_iff cert_valid_def by simp
qed

lemma PolcCertificate_verify_iff:
  "vs_wf vs \<Longrightarrow> PolcCertificate_verify C c vs = Ok () \<longleftrightarrow> cert_valid PrevoteVote_digest C c vs"
  by (subst certificate_checks [symmetric])
    (auto simp: PolcCertificate_verify_def Let_def map_err_Ok split: prod.splits)

lemma PrecommitCertificate_verify_iff:
  "vs_wf vs \<Longrightarrow> PrecommitCertificate_verify C c vs = Ok () \<longleftrightarrow> cert_valid PrecommitVote_digest C c vs"
  by (subst certificate_checks [symmetric])
    (auto simp: PrecommitCertificate_verify_def Let_def map_err_Ok split: prod.splits)

interpretation prevote: vote_phase PrevoteVote_digest PrevoteTallier_submit try_form_polc
    PolcCertificate_verify
proof unfold_locales
  show "try_form_polc C t = Some c \<longleftrightarrow> has_quorum t \<and>
      (\<exists>a. aggregate_signatures C (sigs t) = Ok a \<and> c = cert_of t a)" for C t c
    by (auto simp: try_form_polc_def has_quorum_def cert_of_def not_less split: result.splits)
  show "PolcCertificate_verify C c vs \<noteq> Panic" for C c vs
    by (auto simp: PolcCertificate_verify_def Let_def map_err_Panic split: prod.splits)
qed (fact PrevoteTallier_submit_admits PrevoteTallier_submit_rejects PolcCertificate_verify_iff)+

interpretation precommit: vote_phase PrecommitVote_digest PrecommitTallier_submit try_finalize
    PrecommitCertificate_verify
proof unfold_locales
  show "try_finalize C t = Some c \<longleftrightarrow> has_quorum t \<and>
      (\<exists>a. aggregate_signatures C (sigs t) = Ok a \<and> c = cert_of t a)" for C t c
    by (auto simp: try_finalize_def has_quorum_def cert_of_def not_less split: result.splits)
  show "PrecommitCertificate_verify C c vs \<noteq> Panic" for C c vs
    by (auto simp: PrecommitCertificate_verify_def Let_def map_err_Panic split: prod.splits)
qed (fact PrecommitTallier_submit_admits PrecommitTallier_submit_rejects PrecommitCertificate_verify_iff)+

lemma new_no_quorum:
  "\<not> has_quorum (PrevoteTallier_new bh h r vs)" "\<not> has_quorum (PrecommitTallier_new bh h r vs)"
  using quorum_threshold_pos [of vs]
  by (auto simp: has_quorum_def PrevoteTallier_new_def PrecommitTallier_new_def word_le_nat_alt)

lemma new_tally_simps [simp]:
  "t_block_hash (PrevoteTallier_new bh h r vs) = bh" "t_height (PrevoteTallier_new bh h r vs) = h"
  "t_round (PrevoteTallier_new bh h r vs) = r" "t_vs (PrevoteTallier_new bh h r vs) = vs"
  "received (PrevoteTallier_new bh h r vs) = {}"
  "t_block_hash (PrecommitTallier_new bh h r vs) = bh" "t_height (PrecommitTallier_new bh h r vs) = h"
  "t_round (PrecommitTallier_new bh h r vs) = r" "t_vs (PrecommitTallier_new bh h r vs) = vs"
  "received (PrecommitTallier_new bh h r vs) = {}"
  by (simp_all add: PrevoteTallier_new_def PrecommitTallier_new_def)

lemma new_tally_inv:
  "vs_wf vs \<Longrightarrow> tally_inv PrevoteVote_digest C (PrevoteTallier_new bh h r vs)"
  "vs_wf vs \<Longrightarrow> tally_inv PrecommitVote_digest C (PrecommitTallier_new bh h r vs)"
  by (auto simp: tally_inv_def tally_order_def PrevoteTallier_new_def PrecommitTallier_new_def
      signer_keys_def stake_of_def intro!: exI [of _ "[]"])

text \<open>The two domains differ at byte eight, so no prevote message is a precommit message.\<close>

lemma domains_differ:
  "PREVOTE_DOMAIN @ xs \<noteq> PRECOMMIT_DOMAIN @ ys"
proof
  assume "PREVOTE_DOMAIN @ xs = PRECOMMIT_DOMAIN @ ys"
  then have "(PREVOTE_DOMAIN @ xs) ! 7 = (PRECOMMIT_DOMAIN @ ys) ! 7" by simp
  then show False
    by (simp add: PREVOTE_DOMAIN_def PRECOMMIT_DOMAIN_def ascii_def nth_append)
qed

lemma vote_bytes_inject: "vote_bytes bh h r = vote_bytes bh' h' r' \<longleftrightarrow> bh = bh' \<and> h = h' \<and> r = r'"
  by (auto simp: vote_bytes_def to_be_bytes_inject)

lemma signed_vote_valid:
  assumes "bls_signs C" and "unat i < vs_size vs"
    and "bls_pubkey (validators vs ! unat i) = bls_public_key_of C sk"
  shows "vote_valid PrevoteVote_digest C vs (PrevoteVote_sign C sk b h r i)"
    and "vote_valid PrecommitVote_digest C vs (PrecommitVote_sign C sk b h r i)"
  using assms
  by (simp_all add: vote_valid_def PrevoteVote_sign_def PrecommitVote_sign_def Let_def bls_verify_sign)

text \<open>One validator under \<open>demo_crypto\<close>, for concrete instances.\<close>

definition demo_sk :: bls_secret_key where
  "demo_sk = BlsSecretKey 5"

definition demo_vrf_sk :: vrf_secret_key where
  "demo_vrf_sk = VrfSecretKey 7"

definition demo_vs :: validator_set where
  "demo_vs = \<lparr>validators = [\<lparr>bls_pubkey = bls_public_key_of demo_crypto demo_sk,
      vrf_pubkey = vrf_public_key_of demo_crypto demo_vrf_sk, stake = 10\<rparr>], total_stake = 10\<rparr>"

lemma demo_new: "ValidatorSet_new (validators demo_vs) = Ok demo_vs"
  by (simp add: ValidatorSet_new_def demo_vs_def MAX_VALIDATORS_def checked_add_def)

lemma demo_wf: "vs_wf demo_vs"
  using demo_new ValidatorSet_new_wf by blast

lemma demo_safe: "safe_total demo_vs"
  using demo_wf by (simp add: safe_total_def) (simp add: demo_vs_def)

lemma demo_quorum: "quorum_threshold demo_vs = 7" "vs_size demo_vs = 1" "stake_at demo_vs 0 = 10"
  by (simp_all add: quorum_threshold_def demo_vs_def vs_size_def stake_at_def nat_stake_def)

subsection \<open>Properties\<close>

text \<open>
  Quorum intersection of certificates: two precommit certificates that verify against a set
  whose total stake is below \<open>2 ^ 63\<close> share signers that hold more than a third of the stake,
  whatever their blocks, heights and rounds are.
\<close>

theorem certificates_share_a_third:
  assumes "ValidatorSet_new ws = Ok vs" and "unat (total_stake vs) < 2 ^ 63"
    and "PrecommitCertificate_verify C c vs = Ok ()" and "PrecommitCertificate_verify C c' vs = Ok ()"
  shows "unat (total_stake vs) <
    3 * stake_of vs (bits_of (signer_bitmap c) \<inter> bits_of (signer_bitmap c'))"
  using ValidatorSet_new_wf [OF assms(1)] assms(2)
  by (intro precommit.certificates_intersect [OF _ assms(3,4)]) (simp add: safe_total_def)

definition demo_precommit :: vote where
  "demo_precommit = PrecommitVote_sign demo_crypto demo_sk 3 1 0 0"

lemma demo_signed:
  "vote_valid PrevoteVote_digest demo_crypto demo_vs (PrevoteVote_sign demo_crypto demo_sk b h r 0)"
  "vote_valid PrecommitVote_digest demo_crypto demo_vs (PrecommitVote_sign demo_crypto demo_sk b h r 0)"
  by (rule signed_vote_valid [OF demo_bls_signs]; simp add: demo_quorum; simp add: demo_vs_def)+

lemma demo_precommit_admissible:
  "vote_admissible PrecommitVote_digest demo_crypto (PrecommitTallier_new 3 1 0 demo_vs) demo_precommit"
  using demo_signed(2) [of 3 1 0]
  by (simp add: vote_admissible_def demo_precommit_def) (simp add: PrecommitVote_sign_def)

lemma demo_tally_quorum:
  "has_quorum (submit_all PrecommitTallier_submit demo_crypto (PrecommitTallier_new 3 1 0 demo_vs)
     [demo_precommit])"
proof -
  have "validator_index demo_precommit = 0" by (simp add: demo_precommit_def PrecommitVote_sign_def)
  then show ?thesis
    using PrecommitTallier_submit_admits [OF demo_precommit_admissible]
    by (simp add: has_quorum_def demo_quorum)
      (simp add: PrecommitTallier_new_def demo_vs_def saturating_add_def)
qed

text \<open>
  Accounting of a precommit tally. After any sequence of submitted votes, valid or not, the
  collected stake is exactly the sum of the stakes of the validators in the bitmap (it never
  saturates), the bitmap is exactly the set of received indices, each within the set, and there is
  one signature and one key per signer.
\<close>

theorem tally_counts_each_signer_once:
  assumes "ValidatorSet_new ws = Ok vs"
    and "t = submit_all PrecommitTallier_submit C (PrecommitTallier_new b h r vs) votes"
  shows "unat (stake_collected t) = stake_of vs (bits_of (t_signer_bitmap t)) \<and>
    bits_of (t_signer_bitmap t) = unat ` received t \<and> unat ` received t \<subseteq> {..<vs_size vs} \<and>
    length (sigs t) = card (received t) \<and> length (pubkeys t) = card (received t)"
proof -
  have "tally_inv PrecommitVote_digest C t" and vs: "t_vs t = vs"
    using precommit.inv_submit_all [OF new_tally_inv(2)] ValidatorSet_new_wf [OF assms(1)] assms(2)
      precommit.submit_all_frame by auto
  then obtain idxs where ord: "tally_order PrecommitVote_digest C t idxs" by (auto simp: tally_inv_def)
  then have "card (unat ` received t) = length idxs" by (simp add: tally_order_def distinct_card)
  moreover have "card (unat ` received t) = card (received t)"
    by (intro card_image) (simp add: inj_on_def word_unat_eq_iff)
  ultimately show ?thesis using ord vs by (auto simp: tally_order_def signer_keys_def)
qed

theorem tally_counts_each_signer_once_witness:
  "length (sigs (submit_all PrecommitTallier_submit demo_crypto (PrecommitTallier_new 3 1 0 demo_vs)
     [demo_precommit, demo_precommit])) =
   card (received (submit_all PrecommitTallier_submit demo_crypto (PrecommitTallier_new 3 1 0 demo_vs)
     [demo_precommit, demo_precommit]))"
  using tally_counts_each_signer_once [OF demo_new refl] by blast

text \<open>
  (C4) A tally that reached quorum always yields a certificate for its own block, height and round,
  with exactly the received validators as signers, and any node with the same validator set accepts
  it. So \<open>try_finalize\<close> is complete for \<open>PrecommitCertificate::verify\<close>.
\<close>

theorem finalized_certificate_verifies:
  assumes "bls_aggregates C" and "ValidatorSet_new ws = Ok vs"
    and "t = submit_all PrecommitTallier_submit C (PrecommitTallier_new b h r vs) votes"
    and "quorum_threshold vs \<le> stake_collected t"
  shows "\<exists>c. try_finalize C t = Some c \<and> c_block_hash c = b \<and> c_height c = h \<and> c_round c = r \<and>
    bits_of (signer_bitmap c) = unat ` received t \<and> PrecommitCertificate_verify C c vs = Ok ()"
proof -
  have inv: "tally_inv PrecommitVote_digest C t"
    using precommit.inv_submit_all [OF new_tally_inv(2)] ValidatorSet_new_wf [OF assms(2)] assms(3) by blast
  have frame: "t_vs t = vs" "t_block_hash t = b" "t_height t = h" "t_round t = r"
    using precommit.submit_all_frame assms(3) by simp_all
  have "has_quorum t" using assms(4) frame(1) by (simp add: has_quorum_def)
  from precommit.certificate_verifies [OF assms(1) inv this] frame show ?thesis by metis
qed

theorem finalized_certificate_verifies_witness:
  "\<exists>c. try_finalize demo_crypto (submit_all PrecommitTallier_submit demo_crypto
         (PrecommitTallier_new 3 1 0 demo_vs) [demo_precommit]) = Some c \<and>
       PrecommitCertificate_verify demo_crypto c demo_vs = Ok ()"
proof -
  let ?t = "submit_all PrecommitTallier_submit demo_crypto (PrecommitTallier_new 3 1 0 demo_vs)
     [demo_precommit]"
  have "t_vs ?t = demo_vs" by (simp only: precommit.submit_all_frame new_tally_simps)
  then have "quorum_threshold demo_vs \<le> stake_collected ?t"
    using demo_tally_quorum unfolding has_quorum_def by simp
  from finalized_certificate_verifies [OF demo_bls_aggregates demo_new refl this]
  show ?thesis by blast
qed

lemma demo_certificate:
  "\<exists>c. PrecommitCertificate_verify demo_crypto c demo_vs = Ok ()"
proof -
  have "tally_inv PrecommitVote_digest demo_crypto (submit_all PrecommitTallier_submit demo_crypto
      (PrecommitTallier_new 3 1 0 demo_vs) [demo_precommit])"
    using precommit.inv_submit_all [OF new_tally_inv(2)] ValidatorSet_new_wf [OF demo_new] by blast
  from precommit.certificate_verifies [OF demo_bls_aggregates this demo_tally_quorum]
  show ?thesis by (metis precommit.submit_all_frame new_tally_simps(9))
qed

theorem certificates_share_a_third_witness:
  "\<exists>c. PrecommitCertificate_verify demo_crypto c demo_vs = Ok () \<and>
       10 < 3 * stake_of demo_vs (bits_of (signer_bitmap c) \<inter> bits_of (signer_bitmap c))"
proof -
  obtain c where c: "PrecommitCertificate_verify demo_crypto c demo_vs = Ok ()"
    using demo_certificate by blast
  have total: "unat (total_stake demo_vs) = 10" by (simp add: demo_vs_def)
  then have "unat (total_stake demo_vs) < 2 ^ 63" by simp
  from certificates_share_a_third [OF demo_new this c c] c total show ?thesis by auto
qed

text \<open>
  Votes are bound to their phase, block, height and round: the hashed bytes of a prevote are
  never those of a precommit, and within a phase they determine block hash, height and round. So a
  signature can only be replayed where the hash itself collides.
\<close>

theorem vote_messages_are_separated:
  "PREVOTE_DOMAIN @ vote_bytes b h r \<noteq> PRECOMMIT_DOMAIN @ vote_bytes b' h' r' \<and>
   (PRECOMMIT_DOMAIN @ vote_bytes b h r = PRECOMMIT_DOMAIN @ vote_bytes b' h' r') =
     (b = b' \<and> h = h' \<and> r = r') \<and>
   (PREVOTE_DOMAIN @ vote_bytes b h r = PREVOTE_DOMAIN @ vote_bytes b' h' r') =
     (b = b' \<and> h = h' \<and> r = r')"
  by (simp add: domains_differ vote_bytes_inject)

end
