(* ===== verification/Wire.thy ===== *)
theory Wire
  imports Tally
begin

section \<open>The wire format of consensus messages\<close>

text \<open>
  \<open>aii-consensus-bft/src/wire.rs\<close>: the message type, its length, encoder and decoder. A slice of the
  input that would leave the buffer is a \<open>Panic\<close>, so that "decoding never panics" is a theorem. A
  \<open>usize\<close> is a \<open>nat\<close>.
\<close>

definition TAG_PROPOSAL :: u8 where "TAG_PROPOSAL = 0x00"
definition TAG_PREVOTE :: u8 where "TAG_PREVOTE = 0x01"
definition TAG_PRECOMMIT :: u8 where "TAG_PRECOMMIT = 0x02"
definition TAG_BLOCK_REQUEST :: u8 where "TAG_BLOCK_REQUEST = 0x03"
definition TAG_BLOCK_RESPONSE :: u8 where "TAG_BLOCK_RESPONSE = 0x04"

definition BLOCK_REQUEST_LEN :: nat where "BLOCK_REQUEST_LEN = 1 + 8"
definition BLOCK_RESPONSE_HEADER_LEN :: nat where "BLOCK_RESPONSE_HEADER_LEN = 1 + 4"
definition BLOCK_CERT_LEN :: nat where "BLOCK_CERT_LEN = 32 + 8 + 4 + 16 + 96"
definition BLOCK_RESPONSE_MIN_LEN :: nat where
  "BLOCK_RESPONSE_MIN_LEN = BLOCK_RESPONSE_HEADER_LEN + BLOCK_CERT_LEN"
definition PROPOSAL_HEADER_LEN :: nat where
  "PROPOSAL_HEADER_LEN = 1 + 8 + 4 + 32 + 32 + 64 + 32 + 20"
definition PROPOSAL_MIN_LEN :: nat where "PROPOSAL_MIN_LEN = PROPOSAL_HEADER_LEN + 4"
definition MAX_PROPOSAL_BODY_LEN :: nat where "MAX_PROPOSAL_BODY_LEN = 16 * 1024 * 1024"
definition MAX_BLOCK_RESPONSE_LEN :: nat where
  "MAX_BLOCK_RESPONSE_LEN = MAX_PROPOSAL_BODY_LEN + 64 * 1024"
definition VOTE_LEN :: nat where "VOTE_LEN = 1 + 32 + 8 + 4 + 4 + 96"

lemmas wire_consts = TAG_PROPOSAL_def TAG_PREVOTE_def TAG_PRECOMMIT_def TAG_BLOCK_REQUEST_def
  TAG_BLOCK_RESPONSE_def BLOCK_REQUEST_LEN_def BLOCK_RESPONSE_HEADER_LEN_def BLOCK_CERT_LEN_def
  BLOCK_RESPONSE_MIN_LEN_def PROPOSAL_HEADER_LEN_def PROPOSAL_MIN_LEN_def MAX_PROPOSAL_BODY_LEN_def
  MAX_BLOCK_RESPONSE_LEN_def VOTE_LEN_def

datatype bft_message =
    Proposal (p_height: u64) (p_round: u32) (p_block_hash: h256) (p_leader_proof: leader_proof)
      (p_coinbase: address) (p_body_bytes: "byte list")
  | MsgPrevote vote
  | MsgPrecommit vote
  | BlockRequest u64
  | BlockResponse "byte list" certificate

datatype codec_error =
    Empty
  | UnknownTag u8
  | WrongLength nat nat
  | Codec_InvalidBlsSignature
  | ProposalBodyTooLarge nat nat
  | BlockResponseTooLarge nat nat

fun message_tag :: "bft_message \<Rightarrow> u8" where
  "message_tag (Proposal _ _ _ _ _ _) = TAG_PROPOSAL"
| "message_tag (MsgPrevote _) = TAG_PREVOTE"
| "message_tag (MsgPrecommit _) = TAG_PRECOMMIT"
| "message_tag (BlockRequest _) = TAG_BLOCK_REQUEST"
| "message_tag (BlockResponse _ _) = TAG_BLOCK_RESPONSE"

fun encoded_len :: "bft_message \<Rightarrow> nat" where
  "encoded_len (Proposal _ _ _ _ _ body) = PROPOSAL_MIN_LEN + length body"
| "encoded_len (MsgPrevote _) = VOTE_LEN"
| "encoded_len (MsgPrecommit _) = VOTE_LEN"
| "encoded_len (BlockRequest _) = BLOCK_REQUEST_LEN"
| "encoded_len (BlockResponse blk _) = BLOCK_RESPONSE_HEADER_LEN + length blk + BLOCK_CERT_LEN"

text \<open>\<open>u32::try_from(n).unwrap_or(u32::MAX)\<close>\<close>

definition len_u32 :: "nat \<Rightarrow> u32" where
  "len_u32 n = (if n < 2 ^ 32 then word_of_nat n else max_word_val)"

definition encode_vote_body :: "h256 \<Rightarrow> u64 \<Rightarrow> u32 \<Rightarrow> u32 \<Rightarrow> byte list" where
  "encode_vote_body bh h r idx =
     h256_bytes bh @ to_be_bytes 8 h @ to_be_bytes 4 r @ to_be_bytes 4 idx"

definition encode_precommit_certificate :: "crypto \<Rightarrow> certificate \<Rightarrow> byte list" where
  "encode_precommit_certificate C c =
     h256_bytes (c_block_hash c) @ to_be_bytes 8 (c_height c) @ to_be_bytes 4 (c_round c) @
     to_be_bytes 16 (signer_bitmap c) @ to_be_bytes 96 (bls_sig_to_compressed C (aggregated_sig c))"

fun encode :: "crypto \<Rightarrow> bft_message \<Rightarrow> byte list" where
  "encode C (Proposal h r bh lp cb body) =
     [TAG_PROPOSAL] @ to_be_bytes 8 h @ to_be_bytes 4 r @ h256_bytes bh @
     to_be_bytes 32 (pre_output (lp_vrf_proof lp)) @ to_be_bytes 64 (proof_bytes (lp_vrf_proof lp)) @
     to_be_bytes 32 (vrf_output lp) @ address_bytes cb @
     to_be_bytes 4 (len_u32 (length body)) @ body"
| "encode C (MsgPrevote v) =
     [TAG_PREVOTE] @ encode_vote_body (block_hash v) (height v) (round v) (validator_index v) @
     to_be_bytes 96 (bls_sig_to_compressed C (bls_sig v))"
| "encode C (MsgPrecommit v) =
     [TAG_PRECOMMIT] @ encode_vote_body (block_hash v) (height v) (round v) (validator_index v) @
     to_be_bytes 96 (bls_sig_to_compressed C (bls_sig v))"
| "encode C (BlockRequest h) = [TAG_BLOCK_REQUEST] @ to_be_bytes 8 h"
| "encode C (BlockResponse blk cert) =
     [TAG_BLOCK_RESPONSE] @ to_be_bytes 4 (len_u32 (length blk)) @ blk @
     encode_precommit_certificate C cert"

definition decode_proposal :: "byte list \<Rightarrow> (codec_error, bft_message) result" where
  "decode_proposal bytes =
     (if length bytes < PROPOSAL_MIN_LEN then Err (WrongLength PROPOSAL_MIN_LEN (length bytes))
      else
        and_then (read_be bytes 1 8) (\<lambda>h.
        and_then (read_be bytes 9 4) (\<lambda>r.
        and_then (read_be bytes 13 32) (\<lambda>bh.
        and_then (read_be bytes 45 32) (\<lambda>pre.
        and_then (read_be bytes 77 64) (\<lambda>prf.
        and_then (read_be bytes 141 32) (\<lambda>out.
        and_then (read_be bytes 173 20) (\<lambda>cb.
        and_then (read_be bytes 193 4) (\<lambda>len :: u32.
          let body_len = unat len in
          if body_len > MAX_PROPOSAL_BODY_LEN then
            Err (ProposalBodyTooLarge MAX_PROPOSAL_BODY_LEN body_len)
          else
            let expected_total = PROPOSAL_MIN_LEN + body_len in
            if length bytes \<noteq> expected_total then Err (WrongLength expected_total (length bytes))
            else
              and_then (read_slice bytes 197 (197 + body_len)) (\<lambda>body.
                Ok (Proposal h r bh
                      \<lparr>lp_vrf_proof = \<lparr>pre_output = pre, proof_bytes = prf\<rparr>, vrf_output = out\<rparr>
                      cb body)))))))))))"

definition decode_vote :: "crypto \<Rightarrow> byte list \<Rightarrow> u8 \<Rightarrow> (codec_error, bft_message) result" where
  "decode_vote C bytes tag =
     (if length bytes \<noteq> VOTE_LEN then Err (WrongLength VOTE_LEN (length bytes))
      else
        and_then (read_be bytes 1 32) (\<lambda>bh.
        and_then (read_be bytes 33 8) (\<lambda>h.
        and_then (read_be bytes 41 4) (\<lambda>r.
        and_then (read_be bytes 45 4) (\<lambda>idx.
        and_then (read_be bytes 49 96) (\<lambda>sig_bytes.
        and_then (map_err (\<lambda>_. Codec_InvalidBlsSignature) (bls_sig_from_compressed C sig_bytes)) (\<lambda>sig.
          let v = \<lparr>block_hash = bh, height = h, round = r, validator_index = idx, bls_sig = sig\<rparr>
          in if tag = TAG_PREVOTE then Ok (MsgPrevote v) else Ok (MsgPrecommit v))))))))"

definition decode_block_request :: "byte list \<Rightarrow> (codec_error, bft_message) result" where
  "decode_block_request bytes =
     (if length bytes \<noteq> BLOCK_REQUEST_LEN then Err (WrongLength BLOCK_REQUEST_LEN (length bytes))
      else and_then (read_be bytes 1 8) (\<lambda>h. Ok (BlockRequest h)))"

definition decode_precommit_certificate ::
    "crypto \<Rightarrow> byte list \<Rightarrow> (codec_error, certificate) result" where
  "decode_precommit_certificate C bytes =
     (if length bytes \<noteq> BLOCK_CERT_LEN then Err (WrongLength BLOCK_CERT_LEN (length bytes))
      else
        and_then (read_be bytes 0 32) (\<lambda>bh.
        and_then (read_be bytes 32 8) (\<lambda>h.
        and_then (read_be bytes 40 4) (\<lambda>r.
        and_then (read_be bytes 44 16) (\<lambda>bm.
        and_then (read_be bytes 60 96) (\<lambda>sig_bytes.
        and_then (map_err (\<lambda>_. Codec_InvalidBlsSignature) (bls_sig_from_compressed C sig_bytes)) (\<lambda>sig.
          Ok \<lparr>c_block_hash = bh, c_height = h, c_round = r, signer_bitmap = bm,
              aggregated_sig = sig\<rparr>)))))))"

definition decode_block_response :: "crypto \<Rightarrow> byte list \<Rightarrow> (codec_error, bft_message) result" where
  "decode_block_response C bytes =
     (if length bytes < BLOCK_RESPONSE_MIN_LEN then
        Err (WrongLength BLOCK_RESPONSE_MIN_LEN (length bytes))
      else
        and_then (read_be bytes 1 4) (\<lambda>l :: u32.
          let len = unat l in
          if len > MAX_BLOCK_RESPONSE_LEN then Err (BlockResponseTooLarge MAX_BLOCK_RESPONSE_LEN len)
          else
            let expected_total = BLOCK_RESPONSE_HEADER_LEN + len + BLOCK_CERT_LEN in
            if length bytes \<noteq> expected_total then Err (WrongLength expected_total (length bytes))
            else
              and_then (read_slice bytes BLOCK_RESPONSE_HEADER_LEN (BLOCK_RESPONSE_HEADER_LEN + len)) (\<lambda>blk.
              and_then (read_slice bytes (BLOCK_RESPONSE_HEADER_LEN + len) (length bytes)) (\<lambda>rest.
              and_then (decode_precommit_certificate C rest) (\<lambda>cert.
                Ok (BlockResponse blk cert))))))"

definition decode :: "crypto \<Rightarrow> byte list \<Rightarrow> (codec_error, bft_message) result" where
  "decode C bytes =
     (case bytes of
        [] \<Rightarrow> Err Empty
      | tag # _ \<Rightarrow>
          if tag = TAG_PROPOSAL then decode_proposal bytes
          else if tag = TAG_PREVOTE then decode_vote C bytes TAG_PREVOTE
          else if tag = TAG_PRECOMMIT then decode_vote C bytes TAG_PRECOMMIT
          else if tag = TAG_BLOCK_REQUEST then decode_block_request bytes
          else if tag = TAG_BLOCK_RESPONSE then decode_block_response C bytes
          else Err (UnknownTag tag))"

subsection \<open>Round trips\<close>

lemma length_encode: "length (encode C m) = encoded_len m"
  by (cases m) (simp_all add: wire_consts encode_vote_body_def encode_precommit_certificate_def)

lemma encode_tag: "\<exists>rest. encode C m = message_tag m # rest"
  by (cases m) simp_all

definition wire_sized :: "bft_message \<Rightarrow> bool" where
  "wire_sized m \<longleftrightarrow>
     (case m of Proposal _ _ _ _ _ body \<Rightarrow> length body \<le> MAX_PROPOSAL_BODY_LEN
      | BlockResponse blk _ \<Rightarrow> length blk \<le> MAX_BLOCK_RESPONSE_LEN
      | _ \<Rightarrow> True)"

text \<open>The signature that a message carries is a point, as every value of the library's type is.\<close>

definition wire_points :: "crypto \<Rightarrow> bft_message \<Rightarrow> bool" where
  "wire_points C m \<longleftrightarrow>
     (case m of MsgPrevote v \<Rightarrow> sig_point C (bls_sig v)
      | MsgPrecommit v \<Rightarrow> sig_point C (bls_sig v)
      | BlockResponse _ c \<Rightarrow> sig_point C (aggregated_sig c)
      | _ \<Rightarrow> True)"

lemma unat_len_u32: "n < 2 ^ 32 \<Longrightarrow> unat (len_u32 n) = n"
  by (simp add: len_u32_def unat_word_of_nat_small)

lemma decode_encode_proposal:
  assumes "length body \<le> MAX_PROPOSAL_BODY_LEN"
  shows "decode C (encode C (Proposal h r bh lp cb body)) = Ok (Proposal h r bh lp cb body)"
proof -
  let ?bs = "encode C (Proposal h r bh lp cb body)"
  have len: "length ?bs = PROPOSAL_MIN_LEN + length body" by (simp only: length_encode encoded_len.simps)
  have small: "length body < 2 ^ 32" using assms by (simp add: wire_consts)
  have "slice 197 (197 + length body) ?bs = body"
    by (simp add: slice_def)
  then have body: "(read_slice ?bs 197 (197 + length body) :: (codec_error, _) result) = Ok body"
    using len by (simp add: read_slice_def wire_consts)
  have "decode C ?bs = decode_proposal ?bs" by (simp add: decode_def)
  also have "\<dots> = Ok (Proposal h r bh lp cb body)"
    unfolding decode_proposal_def len using assms small body
    by (simp add: read_be_simps unat_len_u32 wire_consts Let_def)
  finally show ?thesis .
qed

lemma decode_encode_vote:
  assumes "bls_canonical C" and "sig_point C (bls_sig v)"
  shows "decode C (encode C (MsgPrevote v)) = Ok (MsgPrevote v)"
    and "decode C (encode C (MsgPrecommit v)) = Ok (MsgPrecommit v)"
  using assms
  by (simp_all add: decode_def decode_vote_def encode_vote_body_def read_be_simps wire_consts Let_def)

lemma decode_encode_certificate:
  "bls_canonical C \<Longrightarrow> sig_point C (aggregated_sig c) \<Longrightarrow> decode_precommit_certificate C (encode_precommit_certificate C c) = Ok c"
  by (simp add: decode_precommit_certificate_def encode_precommit_certificate_def read_be_simps
      wire_consts)

lemma decode_encode_response:
  assumes "bls_canonical C" and "length blk \<le> MAX_BLOCK_RESPONSE_LEN" and "sig_point C (aggregated_sig c)"
  shows "decode C (encode C (BlockResponse blk c)) = Ok (BlockResponse blk c)"
proof -
  let ?cert = "encode_precommit_certificate C c"
  let ?bs = "encode C (BlockResponse blk c)"
  have cert_len: "length ?cert = 156" by (simp add: encode_precommit_certificate_def)
  have small: "length blk < 2 ^ 32" using assms(2) by (simp add: wire_consts)
  have len: "length ?bs = BLOCK_RESPONSE_HEADER_LEN + length blk + BLOCK_CERT_LEN"
    by (simp only: length_encode encoded_len.simps)
  have drop: "drop (5 + length blk) ?bs = ?cert"
    by (simp add: drop_Cons' flip: drop_drop)
  have blk: "(read_slice ?bs 5 (5 + length blk) :: (codec_error, _) result) = Ok blk"
    using cert_len by (simp add: read_slice_def slice_def)
  have rest: "(read_slice ?bs (5 + length blk) (161 + length blk) :: (codec_error, _) result) = Ok ?cert"
    using cert_len drop by (simp add: read_slice_def slice_def del: drop_append)
  have "decode C ?bs = decode_block_response C ?bs" by (simp add: decode_def wire_consts)
  also have "\<dots> = Ok (BlockResponse blk c)"
    unfolding decode_block_response_def len
    using assms small blk rest decode_encode_certificate [OF assms(1,3)]
    by (simp add: read_be_simps unat_len_u32 wire_consts Let_def ac_simps)
  finally show ?thesis .
qed

lemma wire_decode_encode:
  assumes "bls_canonical C" and "wire_sized m" and "wire_points C m"
  shows "decode C (encode C m) = Ok m"
proof (cases m)
  case (BlockRequest h)
  then show ?thesis
    by (simp add: decode_def decode_block_request_def read_be_simps wire_consts)
qed (use assms in \<open>auto simp: wire_sized_def wire_points_def simp del: encode.simps
    intro: decode_encode_proposal decode_encode_vote decode_encode_response\<close>)

subsection \<open>Decoding is total and canonical\<close>

lemma decode_no_panic: "decode C bs \<noteq> Panic"
proof -
  have "decode_proposal bs \<noteq> Panic"
    by (auto simp: decode_proposal_def read_be_def read_slice_def wire_consts Let_def)
  moreover have "decode_vote C bs tag \<noteq> Panic" for tag
    by (cases "bls_sig_from_compressed C (from_be_bytes (slice 49 145 bs))")
      (auto simp: decode_vote_def read_be_def wire_consts Let_def)
  moreover have "decode_block_request bs \<noteq> Panic"
    by (auto simp: decode_block_request_def read_be_def wire_consts)
  moreover have cert: "decode_precommit_certificate C xs \<noteq> Panic" for xs
    by (cases "bls_sig_from_compressed C (from_be_bytes (slice 60 156 xs))")
      (auto simp: decode_precommit_certificate_def read_be_def wire_consts)
  moreover have "decode_block_response C bs \<noteq> Panic"
  proof -
    have "and_then (decode_precommit_certificate C xs) (\<lambda>c. Ok (f c)) \<noteq> Panic"
      for xs and f :: "certificate \<Rightarrow> bft_message"
      using cert [of xs] by (cases "decode_precommit_certificate C xs") auto
    then show ?thesis
      by (auto simp: decode_block_response_def read_be_def read_slice_def wire_consts Let_def)
  qed
  ultimately show ?thesis by (simp add: decode_def split: list.splits)
qed

lemma slice_0_Cons: "bs = b # rest \<Longrightarrow> 0 < j \<Longrightarrow> b # slice 1 j bs = slice 0 j bs"
  by (cases j) (simp_all add: slice_def)

lemma slice_all: "n = length xs \<Longrightarrow> slice 0 n xs = xs"
  by (simp add: slice_def)

lemma to_be_bytes_slice:
  "j \<le> length bs \<Longrightarrow> j - i = n \<Longrightarrow> 8 * n \<le> LENGTH('a) \<Longrightarrow>
     to_be_bytes n (from_be_bytes (slice i j bs) :: 'a::len word) = slice i j bs"
  by (simp add: to_from_be_bytes length_slice)

lemma encode_decode_vote:
  assumes "bls_canonical C" and "decode_vote C bs tag = Ok m" and "bs = tag # rest"
    and "tag = TAG_PREVOTE \<or> tag = TAG_PRECOMMIT"
  shows "encode C m = bs"
proof -
  have len: "length bs = 145"
    using assms(2) by (simp add: decode_vote_def wire_consts split: if_splits)
  then obtain sig where sig: "bls_sig_from_compressed C (from_be_bytes (slice 49 145 bs)) = Ok sig"
    and m: "m = (if tag = TAG_PREVOTE then MsgPrevote else MsgPrecommit)
      \<lparr>block_hash = from_be_bytes (slice 1 33 bs), height = from_be_bytes (slice 33 41 bs),
       round = from_be_bytes (slice 41 45 bs), validator_index = from_be_bytes (slice 45 49 bs),
       bls_sig = sig\<rparr>"
    using assms(2)
    by (auto simp: decode_vote_def and_then_Ok map_err_Ok wire_consts Let_def read_be_Ok split: if_splits)
  have "encode C m = tag # slice 1 145 bs"
    using assms(4) m len bls_sig_canonical [OF assms(1) sig]
    by (auto simp: encode_vote_body_def to_be_bytes_slice slice_join slice_join_append)
  then show ?thesis using slice_0_Cons [OF assms(3)] slice_all [of 145 bs] len by simp
qed

lemma encode_decode_certificate:
  assumes "bls_canonical C" and "decode_precommit_certificate C bs = Ok c"
  shows "encode_precommit_certificate C c = bs"
proof -
  have len: "length bs = 156"
    using assms(2) by (simp add: decode_precommit_certificate_def wire_consts split: if_splits)
  then obtain sig where sig: "bls_sig_from_compressed C (from_be_bytes (slice 60 156 bs)) = Ok sig"
    and c: "c = \<lparr>c_block_hash = from_be_bytes (slice 0 32 bs), c_height = from_be_bytes (slice 32 40 bs),
       c_round = from_be_bytes (slice 40 44 bs), signer_bitmap = from_be_bytes (slice 44 60 bs),
       aggregated_sig = sig\<rparr>"
    using assms(2)
    by (auto simp: decode_precommit_certificate_def and_then_Ok map_err_Ok wire_consts read_be_Ok
        split: if_splits)
  show ?thesis
    using c len bls_sig_canonical [OF assms(1) sig] slice_all [of 156 bs]
    by (simp add: encode_precommit_certificate_def to_be_bytes_slice slice_join slice_join_append)
qed

lemma encode_decode_request:
  assumes "decode_block_request bs = Ok m" and "bs = TAG_BLOCK_REQUEST # rest"
  shows "encode C m = bs"
proof -
  have len: "length bs = 9"
    using assms(1) by (simp add: decode_block_request_def wire_consts split: if_splits)
  then have "m = BlockRequest (from_be_bytes (slice 1 9 bs))"
    using assms(1) by (simp add: decode_block_request_def wire_consts read_be_Ok)
  then have "encode C m = TAG_BLOCK_REQUEST # slice 1 9 bs"
    using len by (simp add: to_be_bytes_slice)
  then show ?thesis using slice_0_Cons [OF assms(2)] slice_all [of 9 bs] len by simp
qed

lemma len_u32_unat: "len_u32 (unat w) = w"
  using unat_less_pow [of w] by (simp add: len_u32_def)

lemma encode_decode_proposal:
  assumes "decode_proposal bs = Ok m" and "bs = TAG_PROPOSAL # rest"
  shows "encode C m = bs"
proof -
  let ?len = "from_be_bytes (slice 193 197 bs) :: u32"
  have min: "197 \<le> length bs"
    using assms(1) by (simp add: decode_proposal_def wire_consts split: if_splits)
  then have len: "length bs = 197 + unat ?len"
    and m: "m = Proposal (from_be_bytes (slice 1 9 bs)) (from_be_bytes (slice 9 13 bs))
       (from_be_bytes (slice 13 45 bs))
       \<lparr>lp_vrf_proof = \<lparr>pre_output = from_be_bytes (slice 45 77 bs),
          proof_bytes = from_be_bytes (slice 77 141 bs)\<rparr>,
        vrf_output = from_be_bytes (slice 141 173 bs)\<rparr>
       (from_be_bytes (slice 173 193 bs)) (slice 197 (length bs) bs)"
    using assms(1)
    by (auto simp: decode_proposal_def wire_consts read_be_Ok read_slice_def Let_def split: if_splits)
  have "length (slice 197 (length bs) bs) = unat ?len" using len by (simp add: length_slice)
  then have "encode C m = TAG_PROPOSAL # slice 1 (length bs) bs"
    using m min
    by (simp add: len_u32_unat to_be_bytes_slice slice_join slice_join_append)
  then show ?thesis using slice_0_Cons [OF assms(2), of "length bs"] slice_all [of "length bs" bs] assms(2) by simp
qed

lemma encode_decode_response:
  assumes "bls_canonical C" and "decode_block_response C bs = Ok m" and "bs = TAG_BLOCK_RESPONSE # rest"
  shows "encode C m = bs"
proof -
  let ?len = "from_be_bytes (slice 1 5 bs) :: u32"
  have min: "161 \<le> length bs"
    using assms(2) by (simp add: decode_block_response_def wire_consts split: if_splits)
  then have len: "length bs = 161 + unat ?len"
    using assms(2)
    by (auto simp: decode_block_response_def wire_consts read_be_Ok Let_def split: if_splits)
  obtain c where c: "decode_precommit_certificate C (slice (5 + unat ?len) (length bs) bs) = Ok c"
    and m: "m = BlockResponse (slice 5 (5 + unat ?len) bs) c"
    using assms(2) min
    by (auto simp: decode_block_response_def wire_consts read_be_Ok read_slice_def and_then_Ok Let_def
        split: if_splits)
  have "length (slice 5 (5 + unat ?len) bs) = unat ?len" using len by (simp add: length_slice)
  then have "encode C m = TAG_BLOCK_RESPONSE # slice 1 (length bs) bs"
    using m min len encode_decode_certificate [OF assms(1) c]
    by (simp add: len_u32_unat to_be_bytes_slice slice_join slice_join_append)
  then show ?thesis using slice_0_Cons [OF assms(3), of "length bs"] slice_all [of "length bs" bs] assms(3) by simp
qed

lemma encode_decode:
  assumes "bls_canonical C" and "decode C bs = Ok m"
  shows "encode C m = bs"
proof -
  obtain tag rest where bs: "bs = tag # rest" using assms(2) by (cases bs) (simp_all add: decode_def)
  then show ?thesis
    using assms encode_decode_proposal encode_decode_vote encode_decode_request encode_decode_response
    by (auto simp: decode_def split: if_splits)
qed

lemma decode_sized:
  assumes "decode C bs = Ok m"
  shows "wire_sized m"
proof -
  have "wire_sized m" if "decode_proposal bs = Ok m"
    using that
    by (auto simp: decode_proposal_def read_be_def read_slice_def wire_sized_def wire_consts length_slice
        Let_def split: if_splits)
  moreover have "wire_sized m" if "decode_block_response C bs = Ok m"
    using that
    by (auto simp: decode_block_response_def read_be_def read_slice_def and_then_Ok wire_sized_def
        wire_consts length_slice Let_def split: if_splits)
  moreover have "wire_sized m" if "decode_vote C bs tag = Ok m" for tag
    using that by (auto simp: decode_vote_def and_then_Ok wire_sized_def Let_def split: if_splits)
  moreover have "wire_sized m" if "decode_block_request bs = Ok m"
    using that by (auto simp: decode_block_request_def and_then_Ok wire_sized_def split: if_splits)
  ultimately show ?thesis
    using assms by (auto simp: decode_def split: list.splits if_splits)
qed

interpretation wire: codec bls_canonical "\<lambda>C m. wire_sized m \<and> wire_points C m" encode decode
  by unfold_locales (simp add: wire_decode_encode)

subsection \<open>Properties\<close>

text \<open>
  (C24) Every message survives the wire whose payload respects the size caps and whose signature is a point, that is, a
  value that decompression can yield: decoding its encoding gives it back, the encoding starts with the message's tag
  and has the announced length. Hence two different such messages never share an encoding. Of the BLS library only
  this is used: an encoding that decompresses is the compressed form of its result.
\<close>

theorem wire_round_trip:
  assumes "bls_canonical C" and "wire_sized m" and "wire_points C m"
  shows "decode C (encode C m) = Ok m \<and> hd (encode C m) = message_tag m \<and>
    length (encode C m) = encoded_len m \<and>
    (\<forall>m'. wire_sized m' \<longrightarrow> wire_points C m' \<longrightarrow> encode C m = encode C m' \<longrightarrow> m = m')"
proof -
  have "hd (encode C m) = message_tag m" using encode_tag [of C m] by auto
  then show ?thesis
    using wire.decode_encode [OF assms(1)] wire.encode_inject [OF assms(1)] length_encode assms(2,3) by blast
qed

theorem wire_round_trip_witness:
  "decode demo_crypto (encode demo_crypto (MsgPrecommit demo_precommit)) = Ok (MsgPrecommit demo_precommit)"
proof -
  have "sig_point demo_crypto (bls_sig demo_precommit)"
    using signed_point [OF demo_bls_checks_points demo_bls_signs]
    by (simp add: demo_precommit_def PrecommitVote_sign_def Let_def)
  then show ?thesis
    using wire_round_trip [OF demo_bls_canonical, of "MsgPrecommit demo_precommit"]
    by (simp add: wire_sized_def wire_points_def del: encode.simps)
qed

text \<open>A signature that is no point is refused by the decoder.\<close>

lemma wire_refuses_bad_signature:
  assumes "bls_sig_from_compressed C (bls_sig_to_compressed C (bls_sig v)) = Err x"
  shows "decode C (encode C (MsgPrecommit v)) = Err Codec_InvalidBlsSignature"
  using assms by (simp add: decode_def decode_vote_def encode_vote_body_def read_be_simps wire_consts Let_def)

text \<open>
  Decoding any byte string returns or fails with a codec error; none of the slice and
  \<open>try_into().unwrap()\<close> expressions can panic, whatever a peer sends. What it accepts is within the
  size caps.
\<close>

theorem wire_decode_is_total:
  "decode C bs \<noteq> Panic \<and> (\<forall>m. decode C bs = Ok m \<longrightarrow> wire_sized m)"
  using decode_no_panic decode_sized by blast

theorem wire_decode_is_total_witness:
  "wire_sized (BlockRequest 5) \<and> decode demo_crypto [3, 0, 0, 0, 0, 0, 0, 0, 5] \<noteq> Panic"
  using wire_decode_is_total [of demo_crypto "encode demo_crypto (BlockRequest 5)"]
    wire_decode_is_total [of demo_crypto "[3, 0, 0, 0, 0, 0, 0, 0, 5]"]
    wire_decode_encode [OF demo_bls_canonical, of "BlockRequest 5"]
  by (simp add: wire_sized_def wire_points_def del: encode.simps)

text \<open>
  The format is not malleable: a byte string that decodes to a message is exactly that message's
  encoding. Trailing bytes, short buffers and inconsistent length fields are all refused.
\<close>

theorem wire_encoding_is_canonical:
  assumes "bls_canonical C" and "decode C bs = Ok m"
  shows "bs = encode C m"
  using encode_decode [OF assms] by simp

theorem wire_encoding_is_canonical_witness:
  "encode demo_crypto (BlockRequest 5) = encode demo_crypto (BlockRequest 5)"
  using wire_encoding_is_canonical [OF demo_bls_canonical
      wire_decode_encode [OF demo_bls_canonical, of "BlockRequest 5"]]
  by (simp add: wire_sized_def wire_points_def)

end
