(* ===== verification/Capacity.thy ===== *)
theory Capacity
  imports Wire
begin

section \<open>Capacity budget\<close>

text \<open>
  \<open>aii-consensus-bft/src/capacity.rs\<close>: the message and bandwidth budget of one round. Counts are
  \<open>usize\<close> (\<open>nat\<close> here) until the code casts them to \<open>u64\<close>; products keep the width and the
  saturation of the source.
\<close>

definition FINALITY_TARGET_SECS :: u64 where "FINALITY_TARGET_SECS = 30"
definition VOTE_PHASES_PER_ROUND :: u64 where "VOTE_PHASES_PER_ROUND = 2"

record capacity_budget =
  cb_validators :: nat
  target_secs :: u64
  proposal_bytes :: nat
  cb_equal_stake_quorum_votes :: nat
  cb_vote_messages_per_round :: u64
  vote_payload_bytes_per_round :: u64
  leader_proposal_fanout_bytes :: u64
  min_leader_upload_mbps :: u64

datatype capacity_error =
    Capacity_EmptyValidatorSet
  | TooManyValidators nat nat
  | ZeroTarget
  | ProposalTooLarge nat nat

definition satisfies_design_cap :: "capacity_budget \<Rightarrow> bool" where
  "satisfies_design_cap b \<longleftrightarrow>
     cb_validators b \<le> MAX_VALIDATORS \<and> target_secs b \<le> FINALITY_TARGET_SECS"

definition max_wire_proposal_bytes :: nat where
  "max_wire_proposal_bytes = PROPOSAL_HEADER_LEN + MAX_PROPOSAL_BODY_LEN"

definition equal_stake_quorum_votes :: "nat \<Rightarrow> nat" where
  "equal_stake_quorum_votes n = (n * 2) div 3 + 1"

definition vote_messages_per_round :: "nat \<Rightarrow> u64" where
  "vote_messages_per_round k =
     (let n = word_of_nat k in VOTE_PHASES_PER_ROUND * n * saturating_sub n 1)"

definition div_ceil :: "'a::len word \<Rightarrow> 'a word \<Rightarrow> 'a word" where
  "div_ceil x y = x div y + (if x mod y \<noteq> 0 then 1 else 0)"

definition mbps_required :: "u64 \<Rightarrow> u64 \<Rightarrow> u64" where
  "mbps_required bytes seconds = div_ceil (div_ceil (saturating_mul bytes 8) seconds) 1000000"

definition capacity_budget_of :: "nat \<Rightarrow> nat \<Rightarrow> u64 \<Rightarrow> (capacity_error, capacity_budget) result" where
  "capacity_budget_of n bytes secs =
     (if n = 0 then Err Capacity_EmptyValidatorSet
      else if n > MAX_VALIDATORS then Err (TooManyValidators n MAX_VALIDATORS)
      else if secs = 0 then Err ZeroTarget
      else if bytes > max_wire_proposal_bytes then Err (ProposalTooLarge bytes max_wire_proposal_bytes)
      else
        let msgs = vote_messages_per_round n;
            payload = msgs * word_of_nat VOTE_LEN;
            fanout = saturating_mul (word_of_nat bytes) (word_of_nat (n - 1));
            mbps = max (mbps_required fanout secs) 1
        in Ok \<lparr>cb_validators = n, target_secs = secs, proposal_bytes = bytes,
               cb_equal_stake_quorum_votes = equal_stake_quorum_votes n,
               cb_vote_messages_per_round = msgs, vote_payload_bytes_per_round = payload,
               leader_proposal_fanout_bytes = fanout, min_leader_upload_mbps = mbps\<rparr>)"

subsection \<open>Exactness\<close>

lemma unat_div_ceil:
  assumes "y \<noteq> 0" and "unat x < 2 ^ LENGTH('a) - 1"
  shows "unat (div_ceil x (y :: 'a::len word)) = (unat x + unat y - 1) div unat y"
proof -
  have pos: "0 < unat y" using assms(1) by (simp add: unat_gt_0)
  have le: "unat x div unat y \<le> unat x" by simp
  have ceil: "(unat x + unat y - 1) div unat y =
      unat x div unat y + (if unat x mod unat y \<noteq> 0 then 1 else 0)"
  proof (cases "unat x mod unat y = 0")
    case True
    then obtain k where "unat x = unat y * k" by auto
    moreover have "(unat y * k + unat y - 1) div unat y = k" using pos by (intro div_nat_eqI) auto
    ultimately show ?thesis using pos by simp
  next
    case False
    have "0 < unat x" using False by (cases "unat x") simp_all
    moreover have "(unat x div unat y + 1) * unat y = unat x div unat y * unat y + unat y" by simp
    ultimately have "unat x + unat y - 1 = (unat x mod unat y - 1) + (unat x div unat y + 1) * unat y"
      using False pos div_mult_mod_eq [of "unat x" "unat y"] by linarith
    moreover have "unat x mod unat y - 1 < unat y" using pos by (meson less_imp_diff_less mod_less_divisor)
    ultimately have "(unat x + unat y - 1) div unat y = unat x div unat y + 1"
      by (intro div_nat_eqI) (simp_all add: algebra_simps)
    then show ?thesis using False by simp
  qed
  have "unat (x div y) + 1 < 2 ^ LENGTH('a)" unfolding unat_div using le assms(2) by linarith
  moreover have "(x mod y \<noteq> 0) = (unat x mod unat y \<noteq> 0)"
    by (simp add: word_unat_eq_iff unat_mod)
  ultimately show ?thesis
    unfolding div_ceil_def ceil
    using unat_add_small [of "x div y" 1] by (simp add: unat_div)
qed

lemma ceil_le_iff: "0 < d \<Longrightarrow> (a + d - 1) div d \<le> k \<longleftrightarrow> a \<le> k * (d :: nat)"
proof -
  assume d: "0 < d"
  have "(a + d - 1) div d \<le> k \<longleftrightarrow> a + d - 1 < (k + 1) * d"
    using d by (metis Suc_eq_plus1 less_Suc_eq_le div_less_iff_less_mult)
  also have "\<dots> \<longleftrightarrow> a \<le> k * d" using d by auto
  finally show ?thesis .
qed

lemma unat_mbps_required:
  assumes "unat bytes * 8 < 2 ^ 63" and "secs \<noteq> 0"
  shows "unat (mbps_required bytes secs) \<le> k \<longleftrightarrow> unat bytes * 8 \<le> k * 1000000 * unat secs"
proof -
  have pos: "0 < unat secs" using assms(2) by (simp add: unat_gt_0)
  let ?bits = "saturating_mul bytes 8"
  have bits: "unat ?bits = unat bytes * 8" using assms(1) by (simp add: unat_saturating_mul)
  then have inner: "unat (div_ceil ?bits secs) = (unat bytes * 8 + unat secs - 1) div unat secs"
    using assms by (simp add: unat_div_ceil)
  have "unat (div_ceil ?bits secs) \<le> unat bytes * 8"
    unfolding inner using ceil_le_iff [OF pos, of "unat bytes * 8" "unat bytes * 8"] pos by simp
  then have "unat (mbps_required bytes secs) = (unat (div_ceil ?bits secs) + 1000000 - 1) div 1000000"
    using assms(1) by (simp add: mbps_required_def unat_div_ceil)
  then show ?thesis
    using ceil_le_iff [of 1000000 "unat (div_ceil ?bits secs)" k] inner
      ceil_le_iff [OF pos, of "unat bytes * 8" "k * 1000000"]
    by simp
qed

lemma budget_fields:
  assumes "capacity_budget_of n bytes secs = Ok b"
  shows "0 < n" "n \<le> 128" "secs \<noteq> 0" "bytes \<le> 16777409"
    "unat (cb_vote_messages_per_round b) = 2 * n * (n - 1)"
    "unat (vote_payload_bytes_per_round b) = 145 * (2 * n * (n - 1))"
    "unat (leader_proposal_fanout_bytes b) = bytes * (n - 1)"
    "min_leader_upload_mbps b = max (mbps_required (leader_proposal_fanout_bytes b) secs) 1"
proof -
  show n: "0 < n" "n \<le> 128" and "secs \<noteq> 0" and bytes: "bytes \<le> 16777409"
    using assms
    by (auto simp: capacity_budget_of_def MAX_VALIDATORS_def max_wire_proposal_bytes_def wire_consts
        split: if_splits)
  have small: "unat (word_of_nat n :: u64) = n" "unat (word_of_nat (n - 1) :: u64) = n - 1"
      "unat (word_of_nat bytes :: u64) = bytes"
    using n bytes by (intro unat_word_of_nat_small; simp)+
  have b: "cb_vote_messages_per_round b = vote_messages_per_round n"
      "vote_payload_bytes_per_round b = vote_messages_per_round n * 145"
      "leader_proposal_fanout_bytes b = saturating_mul (word_of_nat bytes) (word_of_nat (n - 1))"
    and "min_leader_upload_mbps b = max (mbps_required (leader_proposal_fanout_bytes b) secs) 1"
    using assms by (auto simp: capacity_budget_of_def VOTE_LEN_def Let_def split: if_splits)
  then show "min_leader_upload_mbps b = max (mbps_required (leader_proposal_fanout_bytes b) secs) 1"
    by blast
  have nn: "n * (n - 1) \<le> 128 * 127" using n by (intro mult_mono) auto
  have sub: "unat (saturating_sub (word_of_nat n :: u64) 1) = n - 1"
    by (simp add: arith_unat small)
  have two: "unat (2 * word_of_nat n :: u64) = 2 * n"
    using n small(1) by (simp add: unat_word_ariths)
  show msgs: "unat (cb_vote_messages_per_round b) = 2 * n * (n - 1)"
    unfolding b(1) vote_messages_per_round_def VOTE_PHASES_PER_ROUND_def Let_def
    using two sub nn by (simp add: unat_word_ariths)
  show "unat (vote_payload_bytes_per_round b) = 145 * (2 * n * (n - 1))"
    using msgs nn unfolding b by (simp add: unat_word_ariths)
  have "bytes * (n - 1) \<le> 16777409 * 127" using n bytes by (intro mult_mono) auto
  then show "unat (leader_proposal_fanout_bytes b) = bytes * (n - 1)"
    unfolding b(3) unat_saturating_mul small by simp
qed

subsection \<open>Equal-stake quorums\<close>

lemma equal_stake_threshold:
  fixes k n s :: nat
  assumes "0 < s"
  shows "2 * (n * s) div 3 + 1 \<le> k * s \<longleftrightarrow> equal_stake_quorum_votes n \<le> k"
proof -
  have "2 * (n * s) div 3 + 1 \<le> k * s \<longleftrightarrow> 2 * n * s < 3 * k * s"
    by (simp add: Suc_le_eq less_mult_imp_div_less div_less_iff_less_mult ac_simps)
  also have "\<dots> \<longleftrightarrow> 2 * n < 3 * k" using assms by simp
  also have "\<dots> \<longleftrightarrow> (n * 2) div 3 + 1 \<le> k" by presburger
  finally show ?thesis by (simp add: equal_stake_quorum_votes_def)
qed

lemma equal_stake_sum:
  assumes "\<forall>v \<in> set vs. nat_stake v = s"
  shows "sum_list (map nat_stake vs) = length vs * s"
  using assms by (induction vs) auto

interpretation equal_stake: quorum_system "\<lambda>n. True" "\<lambda>n. {..<n}" "\<lambda>n i. 1" equal_stake_quorum_votes
proof unfold_locales
  show "2 * (\<Sum>i<n. 1) < 3 * equal_stake_quorum_votes n" for n
    unfolding equal_stake_quorum_votes_def by simp
qed simp

subsection \<open>Properties\<close>

text \<open>
  The capacity budget is exact for every accepted input: no product wraps or saturates, the
  counts are the mathematical ones, and the reported bandwidth is the least whole number of megabits
  per second, at least one, with which the leader uploads its proposal to every other validator
  within the target time.
\<close>

theorem capacity_budget_is_exact:
  assumes "capacity_budget_of n bytes secs = Ok b"
  shows "unat (cb_vote_messages_per_round b) = 2 * n * (n - 1) \<and>
    unat (vote_payload_bytes_per_round b) = 145 * (2 * n * (n - 1)) \<and>
    unat (leader_proposal_fanout_bytes b) = bytes * (n - 1) \<and>
    (\<forall>k. unat (min_leader_upload_mbps b) \<le> k \<longleftrightarrow>
       1 \<le> k \<and> 8 * bytes * (n - 1) \<le> k * 1000000 * unat secs)"
proof -
  note f = budget_fields [OF assms]
  have "bytes * (n - 1) \<le> 16777409 * 127" using f(1,2,4) by (intro mult_mono) auto
  then have "unat (leader_proposal_fanout_bytes b) * 8 < 2 ^ 63" using f(7) by simp
  note mbps = unat_mbps_required [OF this f(3)]
  have "unat (max x 1) \<le> k \<longleftrightarrow> unat x \<le> k \<and> 1 \<le> k" for x :: u64 and k
    by (auto simp: max_def word_le_nat_alt)
  then have "unat (min_leader_upload_mbps b) \<le> k \<longleftrightarrow>
      1 \<le> k \<and> 8 * bytes * (n - 1) \<le> k * 1000000 * unat secs" for k
    unfolding f(8) using mbps [of k] f(7) by (auto simp: mult.commute mult.left_commute)
  with f(5-7) show ?thesis by blast
qed

theorem capacity_budget_is_exact_witness:
  "\<exists>b. capacity_budget_of 4 1000 30 = Ok b \<and> unat (cb_vote_messages_per_round b) = 24"
proof -
  obtain b where b: "capacity_budget_of 4 1000 30 = Ok b"
    by (simp add: capacity_budget_of_def MAX_VALIDATORS_def max_wire_proposal_bytes_def wire_consts Let_def)
  from capacity_budget_is_exact [OF b] b show ?thesis by auto
qed

text \<open>
  The equal-stake quorum count agrees with the stake rule: in a set of \<open>n\<close> validators with the
  same stake each, a group reaches \<open>quorum_threshold\<close> if and only if it has at least
  \<open>equal_stake_quorum_votes(n)\<close> members.
\<close>

theorem equal_stake_quorum_is_stake_quorum:
  assumes "ValidatorSet_new ws = Ok vs" and "unat (total_stake vs) < 2 ^ 63"
    and "\<forall>v \<in> set ws. stake v = st" and "A \<subseteq> {..<vs_size vs}"
  shows "unat (quorum_threshold vs) \<le> stake_of vs A \<longleftrightarrow> equal_stake_quorum_votes (vs_size vs) \<le> card A"
proof -
  have wf: "vs_wf vs" and ws: "validators vs = ws" using ValidatorSet_new_wf [OF assms(1)] by auto
  have each: "nat_stake (ws ! i) = unat st" if "i < length ws" for i
    using assms(3) that by (simp add: nat_stake_def)
  have "\<forall>v \<in> set ws. nat_stake v = unat st" using assms(3) by (simp add: nat_stake_def)
  then have total: "unat (total_stake vs) = length ws * unat st"
    using wf ws equal_stake_sum by (simp add: vs_wf_def)
  then have pos: "0 < unat st" using vs_wf_total_pos [OF wf] by auto
  have "stake_at vs i = unat st" if "i \<in> A" for i
    using that assms(4) each [of i] ws by (auto simp: stake_at_def vs_size_def)
  then have "stake_of vs A = card A * unat st" by (simp add: stake_of_def)
  then show ?thesis
    using quorum_threshold_unat [OF assms(2)] total equal_stake_threshold [OF pos] ws
    by (simp add: vs_size_def)
qed

theorem equal_stake_quorum_is_stake_quorum_witness:
  "unat (quorum_threshold demo_vs) \<le> stake_of demo_vs {0} \<longleftrightarrow> equal_stake_quorum_votes 1 \<le> 1"
proof -
  have "unat (total_stake demo_vs) < 2 ^ 63" using demo_safe by (simp add: safe_total_def)
  moreover have "\<forall>v \<in> set (validators demo_vs). stake v = 10" by (simp add: demo_vs_def)
  moreover have "{0} \<subseteq> {..<vs_size demo_vs}" by (simp add: demo_quorum)
  ultimately show ?thesis
    using equal_stake_quorum_is_stake_quorum [OF demo_new, of 10 "{0}"] by (simp add: demo_quorum)
qed

text \<open>
  The budget's wire limit is four bytes short: a proposal with a body of the maximal size is
  accepted by the codec, but its encoded length exceeds \<open>max_wire_proposal_bytes\<close> by exactly the
  four bytes of the length prefix, so \<open>capacity_budget\<close> refuses it.
\<close>

theorem largest_proposal_exceeds_budget_limit:
  assumes "length body = MAX_PROPOSAL_BODY_LEN" and "0 < n" and "n \<le> MAX_VALIDATORS" and "secs \<noteq> 0"
    and "m = Proposal h r bh lp cb body"
  shows "decode C (encode C m) = Ok m \<and> length (encode C m) = max_wire_proposal_bytes + 4 \<and>
    capacity_budget_of n (length (encode C m)) secs =
      Err (ProposalTooLarge (max_wire_proposal_bytes + 4) max_wire_proposal_bytes)"
proof -
  have "length (encode C m) = max_wire_proposal_bytes + 4"
    using assms(1) unfolding length_encode by (simp add: assms(5) max_wire_proposal_bytes_def PROPOSAL_MIN_LEN_def)
  moreover have "decode C (encode C m) = Ok m"
    unfolding assms(5) using assms(1) by (intro decode_encode_proposal) simp
  ultimately show ?thesis using assms(2-4) by (simp add: capacity_budget_of_def)
qed

theorem largest_proposal_exceeds_budget_limit_witness:
  "length (encode demo_crypto (Proposal 0 0 0
      \<lparr>lp_vrf_proof = \<lparr>pre_output = 0, proof_bytes = 0\<rparr>, vrf_output = 0\<rparr> 0
      (replicate MAX_PROPOSAL_BODY_LEN 0))) = max_wire_proposal_bytes + 4"
  using largest_proposal_exceeds_budget_limit [of "replicate MAX_PROPOSAL_BODY_LEN 0" 4 30, OF _ _ _ _ refl,
      of demo_crypto 0 0 0 "\<lparr>lp_vrf_proof = \<lparr>pre_output = 0, proof_bytes = 0\<rparr>, vrf_output = 0\<rparr>" 0]
  by (simp add: MAX_VALIDATORS_def del: encode.simps)

end
