(* ===== verification/Slashing.thy ===== *)
theory Slashing
  imports Tally
begin

section \<open>Equivocation detection and slashing evidence\<close>

text \<open>
  \<open>aii-consensus-bft/src/slashing.rs\<close>: the detector keeps the first vote of each validator per
  \<open>(validator_index, height, round)\<close> and reports a later vote for another block. The evidence
  carries both votes and can be checked by anyone who has the validator set. A \<open>BTreeMap\<close> that is
  only read by key is a map.
\<close>

type_synonym vote_key = "u32 \<times> u64 \<times> u32"

record equivocation_detector =
  seen_prevote :: "vote_key \<rightharpoonup> vote"
  seen_precommit :: "vote_key \<rightharpoonup> vote"

datatype equivocation_evidence = Prevote vote vote | Precommit vote vote

datatype slashing_error =
    SameBlock
  | Mismatch string
  | UnknownValidator u32
  | InvalidSignature

definition EquivocationDetector_new :: equivocation_detector where
  "EquivocationDetector_new = \<lparr>seen_prevote = Map.empty, seen_precommit = Map.empty\<rparr>"

definition vote_key :: "vote \<Rightarrow> vote_key" where
  "vote_key v = (validator_index v, height v, round v)"

definition record_prevote ::
    "equivocation_detector \<Rightarrow> vote \<Rightarrow> equivocation_evidence option \<times> equivocation_detector" where
  "record_prevote d v =
     (case seen_prevote d (vote_key v) of
        Some prior \<Rightarrow>
          if block_hash prior \<noteq> block_hash v then (Some (Prevote prior v), d) else (None, d)
      | None \<Rightarrow> (None, d\<lparr>seen_prevote := (seen_prevote d)(vote_key v \<mapsto> v)\<rparr>))"

definition record_precommit ::
    "equivocation_detector \<Rightarrow> vote \<Rightarrow> equivocation_evidence option \<times> equivocation_detector" where
  "record_precommit d v =
     (case seen_precommit d (vote_key v) of
        Some prior \<Rightarrow>
          if block_hash prior \<noteq> block_hash v then (Some (Precommit prior v), d) else (None, d)
      | None \<Rightarrow> (None, d\<lparr>seen_precommit := (seen_precommit d)(vote_key v \<mapsto> v)\<rparr>))"

primrec evidence_validator_index :: "equivocation_evidence \<Rightarrow> u32" where
  "evidence_validator_index (Prevote a b) = validator_index a"
| "evidence_validator_index (Precommit a b) = validator_index a"

primrec evidence_height :: "equivocation_evidence \<Rightarrow> u64" where
  "evidence_height (Prevote a b) = height a"
| "evidence_height (Precommit a b) = height a"

primrec evidence_round :: "equivocation_evidence \<Rightarrow> u32" where
  "evidence_round (Prevote a b) = round a"
| "evidence_round (Precommit a b) = round a"

fun EquivocationEvidence_verify ::
    "crypto \<Rightarrow> equivocation_evidence \<Rightarrow> validator_set \<Rightarrow> (slashing_error, unit) result" where
  "EquivocationEvidence_verify C (Prevote a b) vs =
     (if validator_index a \<noteq> validator_index b then Err (Mismatch ''validator_index'')
      else if height a \<noteq> height b then Err (Mismatch ''height'')
      else if round a \<noteq> round b then Err (Mismatch ''round'')
      else if block_hash a = block_hash b then Err SameBlock
      else and_then (ok_or (UnknownValidator (validator_index a))
                       (vs_get vs (unat (validator_index a)))) (\<lambda>v.
        let da = PrevoteVote_digest C (block_hash a) (height a) (round a);
            db = PrevoteVote_digest C (block_hash b) (height b) (round b)
        in and_then (map_err (\<lambda>_. InvalidSignature)
             (bls_verify C (bls_sig a) (h256_bytes da) (bls_pubkey v))) (\<lambda>_.
           and_then (map_err (\<lambda>_. InvalidSignature)
             (bls_verify C (bls_sig b) (h256_bytes db) (bls_pubkey v))) (\<lambda>_. Ok ()))))"
| "EquivocationEvidence_verify C (Precommit a b) vs =
     (if validator_index a \<noteq> validator_index b then Err (Mismatch ''validator_index'')
      else if height a \<noteq> height b then Err (Mismatch ''height'')
      else if round a \<noteq> round b then Err (Mismatch ''round'')
      else if block_hash a = block_hash b then Err SameBlock
      else and_then (ok_or (UnknownValidator (validator_index a))
                       (vs_get vs (unat (validator_index a)))) (\<lambda>v.
        let da = PrecommitVote_digest C (block_hash a) (height a) (round a);
            db = PrecommitVote_digest C (block_hash b) (height b) (round b)
        in and_then (map_err (\<lambda>_. InvalidSignature)
             (bls_verify C (bls_sig a) (h256_bytes da) (bls_pubkey v))) (\<lambda>_.
           and_then (map_err (\<lambda>_. InvalidSignature)
             (bls_verify C (bls_sig b) (h256_bytes db) (bls_pubkey v))) (\<lambda>_. Ok ()))))"

subsection \<open>What evidence proves\<close>

definition conflicting :: "vote \<Rightarrow> vote \<Rightarrow> bool" where
  "conflicting a b \<longleftrightarrow> vote_key a = vote_key b \<and> block_hash a \<noteq> block_hash b"

lemma verify_Precommit_iff:
  "EquivocationEvidence_verify C (Precommit a b) vs = Ok () \<longleftrightarrow>
     conflicting a b \<and> vote_valid PrecommitVote_digest C vs a \<and> vote_valid PrecommitVote_digest C vs b"
  by (auto simp: conflicting_def vote_key_def vote_valid_def vs_get_def vs_size_def and_then_Ok
      map_err_Ok Let_def)

lemma verify_Prevote_iff:
  "EquivocationEvidence_verify C (Prevote a b) vs = Ok () \<longleftrightarrow>
     conflicting a b \<and> vote_valid PrevoteVote_digest C vs a \<and> vote_valid PrevoteVote_digest C vs b"
  by (auto simp: conflicting_def vote_key_def vote_valid_def vs_get_def vs_size_def and_then_Ok
      map_err_Ok Let_def)

subsection \<open>The detector\<close>

text \<open>A host that records votes one after the other, with all the evidence it is handed.\<close>

fun record_all :: "('d \<Rightarrow> vote \<Rightarrow> 'e option \<times> 'd) \<Rightarrow> 'd \<Rightarrow> vote list \<Rightarrow> 'e list \<times> 'd" where
  "record_all record_vote d [] = ([], d)"
| "record_all record_vote d (v # vs) =
     (let (e, d') = record_vote d v; (es, d'') = record_all record_vote d' vs
      in ((case e of None \<Rightarrow> [] | Some x \<Rightarrow> [x]) @ es, d''))"

text \<open>Both recorders keep, per key, the first vote recorded under it.\<close>

locale first_vote_log =
  fixes seen :: "'d \<Rightarrow> vote_key \<rightharpoonup> vote"
    and record_vote :: "'d \<Rightarrow> vote \<Rightarrow> 'e option \<times> 'd"
    and evidence :: "vote \<Rightarrow> vote \<Rightarrow> 'e"
  assumes record_new: "seen d (vote_key v) = None \<Longrightarrow>
      fst (record_vote d v) = None \<and> seen (snd (record_vote d v)) = (seen d)(vote_key v \<mapsto> v)"
    and record_seen: "seen d (vote_key v) = Some p \<Longrightarrow>
      record_vote d v = (if block_hash p \<noteq> block_hash v then Some (evidence p v) else None, d)"
begin

definition log_of :: "vote set \<Rightarrow> 'd \<Rightarrow> bool" where
  "log_of V d \<longleftrightarrow> (\<forall>k v. seen d k = Some v \<longrightarrow> v \<in> V \<and> vote_key v = k)"

lemma log_record: "log_of V d \<Longrightarrow> log_of (insert v V) (snd (record_vote d v))"
proof (cases "seen d (vote_key v)")
  case None
  assume "log_of V d"
  with record_new [OF None] show ?thesis by (auto simp: log_of_def)
next
  case (Some p)
  assume "log_of V d"
  with record_seen [OF Some] show ?thesis by (auto simp: log_of_def)
qed

lemma seen_mono: "seen d k = Some v \<Longrightarrow> seen (snd (record_vote d w)) k = Some v"
  using record_new [of d w] record_seen [of d w]
  by (cases "seen d (vote_key w)") (auto split: if_splits)

lemma seen_after: "\<exists>p. seen (snd (record_vote d v)) (vote_key v) = Some p"
  using record_new [of d v] record_seen [of d v] by (cases "seen d (vote_key v)") auto

lemma record_all_seen: "seen d k = Some v \<Longrightarrow> seen (snd (record_all record_vote d vs)) k = Some v"
proof (induction vs arbitrary: d)
  case (Cons w vs)
  from Cons.IH [OF seen_mono [OF Cons.prems, of w]] show ?case
    by (cases "record_vote d w"; cases "record_all record_vote (snd (record_vote d w)) vs") simp
qed simp

lemma sound:
  assumes "log_of V d" and "e \<in> set (fst (record_all record_vote d vs))"
  shows "\<exists>a b. e = evidence a b \<and> a \<in> V \<union> set vs \<and> b \<in> set vs \<and> conflicting a b"
  using assms
proof (induction vs arbitrary: d V)
  case (Cons v vs)
  obtain x d' where r: "record_vote d v = (x, d')" by fastforce
  have log': "log_of (insert v V) d'" using log_record [OF Cons.prems(1), of v] r by simp
  consider "x = Some e" | "e \<in> set (fst (record_all record_vote d' vs))"
    using Cons.prems(2) r by (auto simp: Let_def split: prod.splits option.splits)
  then show ?case
  proof cases
    case 1
    then obtain p where p: "seen d (vote_key v) = Some p"
      using record_new [of d v] r by (cases "seen d (vote_key v)") auto
    then have "block_hash p \<noteq> block_hash v" "e = evidence p v"
      using record_seen [OF p] r 1 by (auto split: if_splits)
    moreover have "p \<in> V" "vote_key p = vote_key v"
      using Cons.prems(1) p unfolding log_of_def by blast+
    ultimately show ?thesis by (auto simp: conflicting_def)
  next
    case 2
    from Cons.IH [OF log' this] show ?thesis by auto
  qed
qed simp

lemma complete_seen:
  assumes "seen d (vote_key v) = Some p" and "v \<in> set vs" and "block_hash p \<noteq> block_hash v"
  shows "evidence p v \<in> set (fst (record_all record_vote d vs))"
  using assms
proof (induction vs arbitrary: d)
  case (Cons w vs)
  obtain x d' where r: "record_vote d w = (x, d')" by fastforce
  show ?case
  proof (cases "w = v")
    case True
    then have "x = Some (evidence p v)" using record_seen [OF Cons.prems(1)] r Cons.prems(3) by auto
    then show ?thesis using r by (auto simp: Let_def split: prod.splits)
  next
    case False
    have "seen d' (vote_key v) = Some p" using seen_mono [OF Cons.prems(1), of w] r by simp
    then have "evidence p v \<in> set (fst (record_all record_vote d' vs))"
      using False Cons by auto
    then show ?thesis using r by (auto simp: Let_def split: prod.splits)
  qed
qed simp

lemma complete:
  assumes "a \<in> set vs" and "b \<in> set vs" and "conflicting a b"
  shows "\<exists>p v. p \<in> set vs \<union> ran (seen d) \<and> v \<in> {a, b} \<and> block_hash p \<noteq> block_hash v \<and>
    evidence p v \<in> set (fst (record_all record_vote d vs))"
  using assms
proof (induction vs arbitrary: d)
  case (Cons w vs)
  obtain x d' where r: "record_vote d w = (x, d')" by fastforce
  obtain p where p: "seen d' (vote_key w) = Some p" using seen_after [of d w] r by auto
  have pw: "p \<in> insert w (ran (seen d))"
    using record_new [of d w] record_seen [of d w] r p
    by (cases "seen d (vote_key w)") (auto intro: ranI split: if_splits)
  have sub: "set (fst (record_all record_vote d' vs)) \<subseteq> set (fst (record_all record_vote d (w # vs)))"
    using r by (auto simp: Let_def split: prod.splits)
  have ran: "ran (seen d') \<subseteq> insert w (ran (seen d))"
    using record_new [of d w] record_seen [of d w] r
    by (cases "seen d (vote_key w)") (auto simp: ran_def split: if_splits)
  have head: "\<exists>p v. p \<in> set (w # vs) \<union> ran (seen d) \<and> v \<in> {w, c} \<and> block_hash p \<noteq> block_hash v \<and>
      evidence p v \<in> set (fst (record_all record_vote d (w # vs)))"
    if c: "c \<in> set vs" "conflicting w c" for c
  proof (cases "block_hash p = block_hash c")
    case False
    moreover have "seen d' (vote_key c) = Some p" using p c(2) by (simp add: conflicting_def)
    ultimately have "evidence p c \<in> set (fst (record_all record_vote d' vs))" using complete_seen c(1) by blast
    with sub pw False show ?thesis by (intro exI [of _ p] exI [of _ c]) auto
  next
    case True
    then have differ: "block_hash p \<noteq> block_hash w" using c(2) by (auto simp: conflicting_def)
    then obtain q where q: "seen d (vote_key w) = Some q" using p r record_new [of d w]
      by (cases "seen d (vote_key w)") auto
    then have "q = p" using seen_mono [OF q, of w] p r by simp
    then have "x = Some (evidence p w)" using record_seen [OF q] differ r by simp
    then have "evidence p w \<in> set (fst (record_all record_vote d (w # vs)))"
      using r by (auto simp: Let_def split: prod.splits)
    with pw differ show ?thesis by (intro exI [of _ p] exI [of _ w]) auto
  qed
  have sym: "conflicting b a" using Cons.prems(3) by (auto simp: conflicting_def)
  consider "w = a" "b \<in> set vs" | "w = b" "a \<in> set vs" | "a \<in> set vs" "b \<in> set vs"
    using Cons.prems by (auto simp: conflicting_def)
  then show ?case
  proof cases
    case 1
    with head [of b] Cons.prems(3) show ?thesis by auto
  next
    case 2
    with head [of a] sym show ?thesis by auto
  next
    case 3
    from Cons.IH [OF this Cons.prems(3), of d'] sub ran show ?thesis by auto
  qed
qed simp

end

interpretation prevote_log: first_vote_log seen_prevote record_prevote Prevote
  by unfold_locales (simp_all add: record_prevote_def)

interpretation precommit_log: first_vote_log seen_precommit record_precommit Precommit
  by unfold_locales (simp_all add: record_precommit_def)

subsection \<open>Properties\<close>

text \<open>
  (C22) The detector is sound and complete over any sequence of precommits recorded into a fresh
  detector. Every report is a pair of recorded votes that conflict: one validator, one height and round, two
  different blocks. For every two recorded votes that conflict there is a report that contains one of them. Where the
  recorded votes carry valid signatures, every report verifies.
\<close>

theorem detector_sound_and_complete:
  fixes votes :: "vote list"
  defines "reports \<equiv> set (fst (record_all record_precommit EquivocationDetector_new votes))"
  shows "(\<forall>e \<in> reports. \<exists>a b. e = Precommit a b \<and> a \<in> set votes \<and> b \<in> set votes \<and> conflicting a b) \<and>
   (\<forall>a b. a \<in> set votes \<and> b \<in> set votes \<and> conflicting a b \<longrightarrow> (\<exists>p v. v \<in> {a, b} \<and> Precommit p v \<in> reports)) \<and>
   ((\<forall>v \<in> set votes. vote_valid PrecommitVote_digest C vs v) \<longrightarrow>
     (\<forall>e \<in> reports. EquivocationEvidence_verify C e vs = Ok ()))"
proof -
  have log: "precommit_log.log_of {} EquivocationDetector_new"
    by (simp add: precommit_log.log_of_def EquivocationDetector_new_def)
  have sound: "\<exists>a b. e = Precommit a b \<and> a \<in> set votes \<and> b \<in> set votes \<and> conflicting a b"
    if "e \<in> reports" for e
    using precommit_log.sound [OF log that [unfolded reports_def]] by simp
  moreover have "\<exists>p v. v \<in> {a, b} \<and> Precommit p v \<in> reports"
    if "a \<in> set votes" "b \<in> set votes" "conflicting a b" for a b
    using precommit_log.complete [OF that, of EquivocationDetector_new] unfolding reports_def by blast
  moreover have "EquivocationEvidence_verify C e vs = Ok ()"
    if "e \<in> reports" "\<forall>v \<in> set votes. vote_valid PrecommitVote_digest C vs v" for e
    using sound [OF that(1)] that(2) by (metis verify_Precommit_iff)
  ultimately show ?thesis by blast
qed

theorem detector_sound_and_complete_witness:
  "fst (record_all record_precommit EquivocationDetector_new
      [demo_precommit, PrecommitVote_sign demo_crypto demo_sk 4 1 0 0]) \<noteq> [] \<and>
   list_all (\<lambda>e. EquivocationEvidence_verify demo_crypto e demo_vs = Ok ())
     (fst (record_all record_precommit EquivocationDetector_new
        [demo_precommit, PrecommitVote_sign demo_crypto demo_sk 4 1 0 0]))"
proof -
  let ?v = "PrecommitVote_sign demo_crypto demo_sk 4 1 0 0"
  have valid: "\<forall>v \<in> set [demo_precommit, ?v]. vote_valid PrecommitVote_digest demo_crypto demo_vs v"
    by (simp add: demo_precommit_def demo_signed)
  have "conflicting demo_precommit ?v"
    by (simp add: conflicting_def vote_key_def demo_precommit_def PrecommitVote_sign_def)
  moreover have "demo_precommit \<in> set [demo_precommit, ?v]" "?v \<in> set [demo_precommit, ?v]" by simp_all
  ultimately obtain p v where "Precommit p v \<in> set (fst (record_all record_precommit EquivocationDetector_new
      [demo_precommit, ?v]))"
    using detector_sound_and_complete [of "[demo_precommit, ?v]" demo_crypto demo_vs] by blast
  moreover have "EquivocationEvidence_verify demo_crypto e demo_vs = Ok ()"
    if "e \<in> set (fst (record_all record_precommit EquivocationDetector_new [demo_precommit, ?v]))" for e
    using detector_sound_and_complete [of "[demo_precommit, ?v]" demo_crypto demo_vs] valid that by blast
  ultimately show ?thesis unfolding list_all_iff by force
qed

end
