(* ===== verification/Coordinator.thy ===== *)
theory Coordinator
  imports Slashing
begin

section \<open>The round coordinator\<close>

text \<open>
  \<open>aii-consensus-bft/src/coordinator.rs\<close>: one \<open>RoundCoordinator\<close> per height takes a proposal,
  prevotes, precommits and timeouts, and moves through the phases. The \<open>expect\<close> calls of the source
  are \<open>Panic\<close> branches; the invariant below shows that none is reachable. Executions are the
  inductive predicate \<open>coord_reach\<close> over the events a host can deliver, in any order.
\<close>

record locked_state =
  l_block_hash :: h256
  l_round :: u32
  l_polc :: certificate

record round_coordinator =
  rc_height :: u64
  rc_round :: u32
  rc_phase :: phase
  rc_vs :: validator_set
  rc_seed :: h256
  proposed_block :: "h256 option"
  prevote_tally :: "tallier option"
  precommit_tally :: "tallier option"
  polc :: "certificate option"
  locked :: "locked_state option"
  final_cert :: "certificate option"

definition RoundCoordinator_new :: "u64 \<Rightarrow> h256 \<Rightarrow> validator_set \<Rightarrow> round_coordinator" where
  "RoundCoordinator_new h seed vs =
     \<lparr>rc_height = h, rc_round = 0, rc_phase = AwaitingProposal, rc_vs = vs, rc_seed = seed,
      proposed_block = None, prevote_tally = None, precommit_tally = None, polc = None,
      locked = None, final_cert = None\<rparr>"

definition leader_index :: "crypto \<Rightarrow> round_coordinator \<Rightarrow> nat" where
  "leader_index C c = select_leader C (rc_vs c) (rc_height c) (rc_round c) (rc_seed c)"

definition submit_proposal ::
    "crypto \<Rightarrow> round_coordinator \<Rightarrow> h256 \<Rightarrow> leader_proof \<Rightarrow>
     (bft_error, unit) result \<times> round_coordinator" where
  "submit_proposal C c bh prf =
     (if rc_phase c \<noteq> AwaitingProposal then (Err (WrongPhase AwaitingProposal (rc_phase c)), c)
      else
        let leader_vrf_pk = vrf_pubkey (validators (rc_vs c) ! leader_index C c)
        in case LeaderProof_verify C prf leader_vrf_pk (rc_height c) (rc_round c) (rc_seed c) of
             Err e \<Rightarrow> (Err e, c)
           | Panic \<Rightarrow> (Panic, c)
           | Ok _ \<Rightarrow>
               (Ok (), c\<lparr>proposed_block := Some bh,
                          prevote_tally :=
                            Some (PrevoteTallier_new bh (rc_height c) (rc_round c) (rc_vs c)),
                          rc_phase := Prevoting\<rparr>))"

definition submit_prevote ::
    "crypto \<Rightarrow> round_coordinator \<Rightarrow> vote \<Rightarrow> (bft_error, unit) result \<times> round_coordinator" where
  "submit_prevote C c v =
     (if rc_phase c \<noteq> Prevoting then (Err (WrongPhase Prevoting (rc_phase c)), c)
      else case prevote_tally c of
        None \<Rightarrow> (Panic, c)
      | Some t \<Rightarrow>
          (case PrevoteTallier_submit C t v of
             (Err e, t') \<Rightarrow> (Err e, c\<lparr>prevote_tally := Some t'\<rparr>)
           | (Panic, t') \<Rightarrow> (Panic, c\<lparr>prevote_tally := Some t'\<rparr>)
           | (Ok Accepted, t') \<Rightarrow> (Ok (), c\<lparr>prevote_tally := Some t'\<rparr>)
           | (Ok ReachedQuorum, t') \<Rightarrow>
               let c1 = c\<lparr>prevote_tally := Some t'\<rparr> in
               (case try_form_polc C t' of
                  None \<Rightarrow> (Panic, c1)
                | Some p \<Rightarrow>
                    (case proposed_block c1 of
                       None \<Rightarrow> (Panic, c1)
                     | Some block \<Rightarrow>
                         let c2 = c1\<lparr>precommit_tally :=
                                Some (PrecommitTallier_new block (rc_height c1) (rc_round c1) (rc_vs c1))\<rparr>;
                             supersedes =
                               (case locked c2 of None \<Rightarrow> True | Some prev \<Rightarrow> rc_round c2 \<ge> l_round prev);
                             c3 = (if supersedes
                                   then c2\<lparr>locked := Some \<lparr>l_block_hash = block, l_round = rc_round c2,
                                                           l_polc = p\<rparr>\<rparr>
                                   else c2)
                         in (Ok (), c3\<lparr>polc := Some p, rc_phase := Precommitting\<rparr>)))))"

definition submit_precommit ::
    "crypto \<Rightarrow> round_coordinator \<Rightarrow> vote \<Rightarrow> (bft_error, unit) result \<times> round_coordinator" where
  "submit_precommit C c v =
     (if rc_phase c \<noteq> Precommitting then (Err (WrongPhase Precommitting (rc_phase c)), c)
      else case precommit_tally c of
        None \<Rightarrow> (Panic, c)
      | Some t \<Rightarrow>
          (case PrecommitTallier_submit C t v of
             (Err e, t') \<Rightarrow> (Err e, c\<lparr>precommit_tally := Some t'\<rparr>)
           | (Panic, t') \<Rightarrow> (Panic, c\<lparr>precommit_tally := Some t'\<rparr>)
           | (Ok Accepted, t') \<Rightarrow> (Ok (), c\<lparr>precommit_tally := Some t'\<rparr>)
           | (Ok ReachedQuorum, t') \<Rightarrow>
               let c1 = c\<lparr>precommit_tally := Some t'\<rparr> in
               (case try_finalize C t' of
                  None \<Rightarrow> (Panic, c1)
                | Some cert \<Rightarrow> (Ok (), c1\<lparr>final_cert := Some cert, rc_phase := Committed\<rparr>))))"

definition fire_timeout :: "round_coordinator \<Rightarrow> round_coordinator" where
  "fire_timeout c =
     (if rc_phase c = Committed then c
      else c\<lparr>rc_round := saturating_add (rc_round c) 1, rc_phase := AwaitingProposal,
             proposed_block := None, prevote_tally := None, precommit_tally := None, polc := None\<rparr>)"

subsection \<open>Executions\<close>

datatype coord_event =
    EvProposal h256 leader_proof
  | EvPrevote vote
  | EvPrecommit vote
  | EvTimeout

fun coord_step ::
    "crypto \<Rightarrow> round_coordinator \<Rightarrow> coord_event \<Rightarrow> (bft_error, unit) result \<times> round_coordinator" where
  "coord_step C c (EvProposal bh p) = submit_proposal C c bh p"
| "coord_step C c (EvPrevote v) = submit_prevote C c v"
| "coord_step C c (EvPrecommit v) = submit_precommit C c v"
| "coord_step C c EvTimeout = (Ok (), fire_timeout c)"

fun coord_run :: "crypto \<Rightarrow> round_coordinator \<Rightarrow> coord_event list \<Rightarrow> round_coordinator" where
  "coord_run C c [] = c"
| "coord_run C c (e # es) = coord_run C (snd (coord_step C c e)) es"

inductive coord_reach :: "crypto \<Rightarrow> validator_set \<Rightarrow> u64 \<Rightarrow> round_coordinator \<Rightarrow> bool"
  for C vs h where
    start: "coord_reach C vs h (RoundCoordinator_new h seed vs)"
  | step: "coord_reach C vs h c \<Longrightarrow> coord_reach C vs h (snd (coord_step C c e))"

lemma coord_run_reach: "coord_reach C vs h c \<Longrightarrow> coord_reach C vs h (coord_run C c es)"
  by (induction es arbitrary: c) (auto intro: coord_reach.step)

lemma coord_run_append: "coord_run C c (es @ fs) = coord_run C (coord_run C c es) fs"
  by (induction es arbitrary: c) simp_all

subsection \<open>The invariant\<close>

definition bound_tally :: "round_coordinator \<Rightarrow> h256 \<Rightarrow> tallier \<Rightarrow> bool" where
  "bound_tally c b t \<longleftrightarrow>
     t_block_hash t = b \<and> t_height t = rc_height c \<and> t_round t = rc_round c \<and> t_vs t = rc_vs c"

definition cert_for :: "certificate \<Rightarrow> h256 \<Rightarrow> u64 \<Rightarrow> u32 \<Rightarrow> bool" where
  "cert_for p b h r \<longleftrightarrow> c_block_hash p = b \<and> c_height p = h \<and> c_round p = r"

definition lock_inv :: "crypto \<Rightarrow> round_coordinator \<Rightarrow> bool" where
  "lock_inv C c \<longleftrightarrow>
     (\<forall>l. locked c = Some l \<longrightarrow>
        l_round l \<le> rc_round c \<and> cert_for (l_polc l) (l_block_hash l) (rc_height c) (l_round l) \<and>
        PolcCertificate_verify C (l_polc l) (rc_vs c) = Ok ())"

definition has_polc :: "crypto \<Rightarrow> round_coordinator \<Rightarrow> h256 \<Rightarrow> bool" where
  "has_polc C c b \<longleftrightarrow>
     (\<exists>p. polc c = Some p \<and> cert_for p b (rc_height c) (rc_round c) \<and>
          PolcCertificate_verify C p (rc_vs c) = Ok () \<and>
          locked c = Some \<lparr>l_block_hash = b, l_round = rc_round c, l_polc = p\<rparr>)"

fun phase_inv :: "crypto \<Rightarrow> round_coordinator \<Rightarrow> phase \<Rightarrow> bool" where
  "phase_inv C c AwaitingProposal \<longleftrightarrow>
     proposed_block c = None \<and> prevote_tally c = None \<and> precommit_tally c = None \<and> polc c = None \<and>
     final_cert c = None"
| "phase_inv C c Prevoting \<longleftrightarrow>
     (\<exists>b t. proposed_block c = Some b \<and> prevote_tally c = Some t \<and> bound_tally c b t \<and>
        tally_inv PrevoteVote_digest C t \<and> \<not> has_quorum t) \<and>
     precommit_tally c = None \<and> polc c = None \<and> final_cert c = None"
| "phase_inv C c Precommitting \<longleftrightarrow>
     (\<exists>b t. proposed_block c = Some b \<and> has_polc C c b \<and> precommit_tally c = Some t \<and>
        bound_tally c b t \<and> tally_inv PrecommitVote_digest C t \<and> \<not> has_quorum t) \<and>
     final_cert c = None"
| "phase_inv C c Committed \<longleftrightarrow>
     (\<exists>b cert. proposed_block c = Some b \<and> has_polc C c b \<and> final_cert c = Some cert \<and>
        cert_for cert b (rc_height c) (rc_round c) \<and>
        PrecommitCertificate_verify C cert (rc_vs c) = Ok ())"

definition coord_inv :: "crypto \<Rightarrow> round_coordinator \<Rightarrow> bool" where
  "coord_inv C c \<longleftrightarrow> vs_wf (rc_vs c) \<and> lock_inv C c \<and> phase_inv C c (rc_phase c)"

lemma coord_inv_new: "vs_wf vs \<Longrightarrow> coord_inv C (RoundCoordinator_new h seed vs)"
  by (simp add: coord_inv_def lock_inv_def RoundCoordinator_new_def)

lemma saturating_add_mono: "a \<le> saturating_add a (b :: 'a::len word)"
proof -
  have "unat a \<le> 2 ^ LENGTH('a) - 1" using unat_less_pow [of a] by linarith
  then show ?thesis by (simp add: word_le_nat_alt arith_unat)
qed

lemma coord_inv_timeout: "coord_inv C c \<Longrightarrow> coord_inv C (fire_timeout c)"
  using order_trans [OF _ saturating_add_mono [of "rc_round c" 1]]
  by (auto simp: coord_inv_def fire_timeout_def lock_inv_def)
    (cases "rc_phase c"; simp)

text \<open>
  A call is \<^emph>\<open>sound\<close> at a state when it does not panic, keeps the invariant and, if it fails, leaves
  the coordinator as it was.
\<close>

definition sound_call ::
    "crypto \<Rightarrow> round_coordinator \<Rightarrow> (bft_error, unit) result \<times> round_coordinator \<Rightarrow> bool" where
  "sound_call C c out \<longleftrightarrow>
     fst out \<noteq> Panic \<and> coord_inv C (snd out) \<and> (is_ok (fst out) \<or> snd out = c)"

lemma sound_unchanged: "coord_inv C c \<Longrightarrow> r \<noteq> Panic \<Longrightarrow> sound_call C c (r, c)"
  by (simp add: sound_call_def)

lemma same_tally [simp]:
  "prevote_tally c = Some t \<Longrightarrow> c\<lparr>prevote_tally := Some t\<rparr> = c"
  "precommit_tally c = Some t \<Longrightarrow> c\<lparr>precommit_tally := Some t\<rparr> = c"
  by (cases c; simp)+

lemma sound_proposal: "coord_inv C c \<Longrightarrow> sound_call C c (submit_proposal C c bh prf)"
  by (auto simp: submit_proposal_def sound_call_def coord_inv_def lock_inv_def Let_def bound_tally_def
      new_tally_inv new_no_quorum split: result.splits)

lemma sound_prevote:
  assumes laws: "bls_aggregates C" and inv: "coord_inv C c"
  shows "sound_call C c (submit_prevote C c v)"
proof (cases "rc_phase c = Prevoting")
  case False
  then show ?thesis using inv by (simp add: submit_prevote_def sound_unchanged)
next
  case phase: True
  then obtain b t where bt: "proposed_block c = Some b" "prevote_tally c = Some t" "bound_tally c b t"
      "tally_inv PrevoteVote_digest C t" "\<not> has_quorum t"
    and rest: "precommit_tally c = None" "polc c = None" "final_cert c = None"
    using inv by (auto simp: coord_inv_def)
  show ?thesis
  proof (cases rule: prevote.submit_cases [of C t v])
    case (reject e)
    then show ?thesis using inv phase bt by (simp add: submit_prevote_def sound_unchanged)
  next
    case admit
    let ?t = "tally_add t v"
    have inv': "tally_inv PrevoteVote_digest C ?t" using prevote.inv_submit [OF bt(4), of v] admit by simp
    show ?thesis
    proof (cases "has_quorum ?t")
      case False
      then show ?thesis
        using admit phase bt rest inv inv'
        by (auto simp: submit_prevote_def sound_call_def coord_inv_def lock_inv_def bound_tally_def)
    next
      case True
      obtain p where p: "try_form_polc C ?t = Some p" "PolcCertificate_verify C p (rc_vs c) = Ok ()"
          "cert_for p b (rc_height c) (rc_round c)"
        using prevote.certificate_verifies [OF laws inv' True] bt(3)
        by (auto simp: bound_tally_def cert_for_def)
      show ?thesis
        using True p admit phase bt rest inv
        by (auto simp: submit_prevote_def sound_call_def coord_inv_def lock_inv_def bound_tally_def
            has_polc_def new_tally_inv new_no_quorum Let_def split: option.splits)
    qed
  qed
qed

lemma sound_precommit:
  assumes laws: "bls_aggregates C" and inv: "coord_inv C c"
  shows "sound_call C c (submit_precommit C c v)"
proof (cases "rc_phase c = Precommitting")
  case False
  then show ?thesis using inv by (simp add: submit_precommit_def sound_unchanged)
next
  case phase: True
  then obtain b t where bt: "proposed_block c = Some b" "precommit_tally c = Some t" "bound_tally c b t"
      "tally_inv PrecommitVote_digest C t" "\<not> has_quorum t"
    and rest: "has_polc C c b" "final_cert c = None"
    using inv by (auto simp: coord_inv_def)
  show ?thesis
  proof (cases rule: precommit.submit_cases [of C t v])
    case (reject e)
    then show ?thesis using inv phase bt by (simp add: submit_precommit_def sound_unchanged)
  next
    case admit
    let ?t = "tally_add t v"
    have inv': "tally_inv PrecommitVote_digest C ?t" using precommit.inv_submit [OF bt(4), of v] admit by simp
    show ?thesis
    proof (cases "has_quorum ?t")
      case False
      then show ?thesis
        using admit phase bt rest inv inv'
        by (auto simp: submit_precommit_def sound_call_def coord_inv_def lock_inv_def bound_tally_def
            has_polc_def)
    next
      case True
      obtain p where p: "try_finalize C ?t = Some p" "PrecommitCertificate_verify C p (rc_vs c) = Ok ()"
          "cert_for p b (rc_height c) (rc_round c)"
        using precommit.certificate_verifies [OF laws inv' True] bt(3)
        by (auto simp: bound_tally_def cert_for_def)
      show ?thesis
        using True p admit phase bt rest inv
        by (auto simp: submit_precommit_def sound_call_def coord_inv_def lock_inv_def has_polc_def Let_def)
    qed
  qed
qed

lemma sound_timeout: "coord_inv C c \<Longrightarrow> sound_call C c (Ok (), fire_timeout c)"
  by (simp add: sound_call_def coord_inv_timeout)

lemma sound_step:
  assumes "bls_aggregates C" and "coord_inv C c"
  shows "sound_call C c (coord_step C c e)"
  using assms
  by (cases e) (simp_all add: sound_proposal sound_prevote sound_precommit sound_timeout)

lemma coord_reach_inv:
  assumes "bls_aggregates C" and "vs_wf vs" and "coord_reach C vs h c"
  shows "coord_inv C c"
  using assms(3)
proof (induction rule: coord_reach.induct)
  case (start seed)
  show ?case by (rule coord_inv_new) (rule assms(2))
next
  case (step c e)
  then show ?case using sound_step [OF assms(1)] by (simp add: sound_call_def)
qed

lemma fire_timeout_frame [simp]:
  "rc_height (fire_timeout c) = rc_height c" "rc_vs (fire_timeout c) = rc_vs c"
  "rc_seed (fire_timeout c) = rc_seed c" "locked (fire_timeout c) = locked c"
  by (simp_all add: fire_timeout_def)

lemma coord_step_frame:
  "rc_height (snd (coord_step C c e)) = rc_height c \<and> rc_vs (snd (coord_step C c e)) = rc_vs c \<and>
   rc_seed (snd (coord_step C c e)) = rc_seed c"
  by (cases e)
    (auto simp: submit_proposal_def submit_prevote_def submit_precommit_def Let_def
      split: result.splits option.splits prod.splits tally_state.splits)

lemma coord_step_round:
  "rc_round c \<le> rc_round (snd (coord_step C c e))"
  by (cases e)
    (auto simp: submit_proposal_def submit_prevote_def submit_precommit_def fire_timeout_def Let_def
      saturating_add_mono split: result.splits option.splits prod.splits tally_state.splits)

lemma coord_step_lock:
  "locked c = Some l \<Longrightarrow> \<exists>l'. locked (snd (coord_step C c e)) = Some l' \<and> l_round l \<le> l_round l'"
  by (cases e)
    (auto simp: submit_proposal_def submit_prevote_def submit_precommit_def Let_def
      split: result.splits option.splits prod.splits tally_state.splits)

lemma coord_reach_frame: "coord_reach C vs h c \<Longrightarrow> rc_vs c = vs \<and> rc_height c = h"
  by (induction rule: coord_reach.induct) (simp_all add: RoundCoordinator_new_def coord_step_frame)

lemma coord_run_frame:
  "rc_height (coord_run C c es) = rc_height c \<and> rc_vs (coord_run C c es) = rc_vs c \<and>
   rc_seed (coord_run C c es) = rc_seed c"
  by (induction es arbitrary: c) (simp_all add: coord_step_frame)

lemma committed_stuck: "rc_phase c = Committed \<Longrightarrow> snd (coord_step C c e) = c"
  by (cases e) (simp_all add: submit_proposal_def submit_prevote_def submit_precommit_def fire_timeout_def)

lemma committed_run: "rc_phase c = Committed \<Longrightarrow> coord_run C c es = c"
  by (induction es) (simp_all add: committed_stuck)

subsection \<open>Every counted precommit was cast\<close>

definition backed ::
    "crypto \<Rightarrow> coord_event set \<Rightarrow> validator_set \<Rightarrow> h256 \<Rightarrow> u64 \<Rightarrow> u32 \<Rightarrow> nat set \<Rightarrow> bool" where
  "backed C E vs b h r A \<longleftrightarrow>
     (\<forall>i \<in> A. \<exists>v. EvPrecommit v \<in> E \<and> unat (validator_index v) = i \<and> block_hash v = b \<and>
        height v = h \<and> round v = r \<and> vote_valid PrecommitVote_digest C vs v)"

definition backed_inv :: "crypto \<Rightarrow> coord_event set \<Rightarrow> round_coordinator \<Rightarrow> bool" where
  "backed_inv C E c \<longleftrightarrow>
     (\<forall>t. precommit_tally c = Some t \<longrightarrow>
        backed C E (t_vs t) (t_block_hash t) (t_height t) (t_round t) (unat ` received t)) \<and>
     (\<forall>p. final_cert c = Some p \<longrightarrow>
        backed C E (rc_vs c) (c_block_hash p) (c_height p) (c_round p) (bits_of (signer_bitmap p)))"

lemma backed_mono: "backed C E vs b h r A \<Longrightarrow> E \<subseteq> F \<Longrightarrow> backed C F vs b h r A"
  unfolding backed_def by blast

lemma backed_inv_mono: "backed_inv C E c \<Longrightarrow> E \<subseteq> F \<Longrightarrow> backed_inv C F c"
  unfolding backed_inv_def using backed_mono by blast

lemma backed_inv_frame:
  "backed_inv C E c \<Longrightarrow> precommit_tally c' \<in> {None, precommit_tally c} \<Longrightarrow>
   final_cert c' = final_cert c \<Longrightarrow> rc_vs c' = rc_vs c \<Longrightarrow> backed_inv C E c'"
  by (auto simp: backed_inv_def)

lemma backed_precommit:
  assumes laws: "bls_aggregates C" and inv: "coord_inv C c" and backed: "backed_inv C E c"
  shows "backed_inv C (insert (EvPrecommit v) E) (snd (submit_precommit C c v))"
proof (cases "rc_phase c = Precommitting")
  case False
  with backed show ?thesis by (auto simp: submit_precommit_def intro: backed_inv_mono)
next
  case phase: True
  then obtain b t where bt: "precommit_tally c = Some t" "bound_tally c b t"
      "tally_inv PrecommitVote_digest C t" "final_cert c = None"
    using inv by (auto simp: coord_inv_def)
  show ?thesis
  proof (cases rule: precommit.submit_cases [of C t v])
    case (reject e)
    then show ?thesis using backed phase bt by (auto simp: submit_precommit_def intro: backed_inv_mono)
  next
    case admit
    let ?t = "tally_add t v" and ?E = "insert (EvPrecommit v) E"
    have "backed C ?E (t_vs t) (t_block_hash t) (t_height t) (t_round t) (unat ` received t)"
      using backed bt(1) by (auto simp: backed_inv_def intro: backed_mono)
    then have tally: "backed C ?E (t_vs t) (t_block_hash t) (t_height t) (t_round t) (unat ` received ?t)"
      using admit(1) by (auto simp: backed_def vote_admissible_def)
    show ?thesis
    proof (cases "has_quorum ?t")
      case False
      then show ?thesis using admit phase bt tally by (simp add: submit_precommit_def backed_inv_def)
    next
      case True
      have "tally_inv PrecommitVote_digest C ?t"
        using precommit.inv_submit [OF bt(3), of v] admit by simp
      from precommit.certificate_verifies [OF laws this True]
      obtain p where p: "try_finalize C ?t = Some p" "c_block_hash p = t_block_hash t"
          "c_height p = t_height t" "c_round p = t_round t"
          "bits_of (signer_bitmap p) = unat ` received ?t"
        by auto
      then show ?thesis
        using True admit phase bt(1,2) tally
        by (simp add: submit_precommit_def backed_inv_def bound_tally_def)
    qed
  qed
qed

lemma backed_prevote: "backed_inv C E c \<Longrightarrow> backed_inv C E (snd (submit_prevote C c v))"
  by (auto simp: submit_prevote_def backed_inv_def backed_def Let_def
      split: option.splits prod.splits result.splits tally_state.splits)

lemma backed_step:
  assumes "bls_aggregates C" and "coord_inv C c" and "backed_inv C E c"
  shows "backed_inv C (insert e E) (snd (coord_step C c e))"
proof (cases e)
  case (EvProposal bh p)
  have "backed_inv C (insert e E) c" using assms(3) by (rule backed_inv_mono) blast
  then show ?thesis using EvProposal
    by (auto simp: submit_proposal_def Let_def intro: backed_inv_frame split: result.splits)
next
  case (EvPrevote v)
  have "backed_inv C (insert e E) c" using assms(3) by (rule backed_inv_mono) blast
  then show ?thesis using EvPrevote by (simp add: backed_prevote)
next
  case (EvPrecommit v)
  then show ?thesis using backed_precommit [OF assms] by simp
next
  case EvTimeout
  have "backed_inv C (insert e E) c" using assms(3) by (rule backed_inv_mono) blast
  then show ?thesis using EvTimeout
    by (auto simp: fire_timeout_def intro: backed_inv_frame)
qed

lemma backed_run:
  assumes "bls_aggregates C" and "coord_inv C c" and "backed_inv C E c"
  shows "backed_inv C (E \<union> set es) (coord_run C c es)"
  using assms(2,3)
proof (induction es arbitrary: c E)
  case (Cons e es)
  have "coord_inv C (snd (coord_step C c e))"
    using sound_step [OF assms(1) Cons.prems(1), of e] by (simp add: sound_call_def)
  from Cons.IH [OF this backed_step [OF assms(1) Cons.prems, of e]] show ?case by simp
qed simp

lemma backed_new: "backed_inv C E (RoundCoordinator_new h seed vs)"
  by (simp add: backed_inv_def RoundCoordinator_new_def)

text \<open>A committed run: its certificate verifies and each of its signers cast a valid precommit.\<close>

lemma committed_backed:
  assumes "bls_aggregates C" and "vs_wf vs"
    and "c = coord_run C (RoundCoordinator_new h seed vs) es" and "rc_phase c = Committed"
  obtains b p where "proposed_block c = Some b" and "final_cert c = Some p"
    and "cert_for p b h (rc_round c)" and "PrecommitCertificate_verify C p vs = Ok ()"
    and "backed C (set es) vs b h (rc_round c) (bits_of (signer_bitmap p))"
proof -
  let ?c0 = "RoundCoordinator_new h seed vs"
  have frame: "rc_height c = h" "rc_vs c = vs"
    using coord_run_frame [of C ?c0 es] by (simp_all add: assms(3) RoundCoordinator_new_def)
  have "coord_inv C c"
    using coord_reach_inv [OF assms(1,2)] coord_run_reach coord_reach.start assms(3) by blast
  then obtain b p where bp: "proposed_block c = Some b" "final_cert c = Some p"
      "cert_for p b h (rc_round c)" "PrecommitCertificate_verify C p vs = Ok ()"
    using assms(4) frame by (auto simp: coord_inv_def)
  moreover have "backed_inv C (set es) c"
    using backed_run [OF assms(1) coord_inv_new [OF assms(2)] backed_new, of "{}" es] assms(3) by simp
  ultimately show thesis using that frame by (auto simp: backed_inv_def cert_for_def)
qed

lemma backed_conflict:
  assumes "backed C E vs b h r A" and "backed C E' vs b' h r A'" and "b \<noteq> b'" and "i \<in> A" and "i \<in> A'"
  shows "\<exists>v v'. EvPrecommit v \<in> E \<and> EvPrecommit v' \<in> E' \<and> unat (validator_index v) = i \<and>
     EquivocationEvidence_verify C (Precommit v v') vs = Ok ()"
proof -
  obtain v where v: "EvPrecommit v \<in> E" "unat (validator_index v) = i" "block_hash v = b"
      "height v = h" "round v = r" "vote_valid PrecommitVote_digest C vs v"
    using assms(1,4) unfolding backed_def by blast
  obtain v' where v': "EvPrecommit v' \<in> E'" "unat (validator_index v') = i" "block_hash v' = b'"
      "height v' = h" "round v' = r" "vote_valid PrecommitVote_digest C vs v'"
    using assms(2,5) unfolding backed_def by blast
  have "validator_index v = validator_index v'" using v(2) v'(2) by (metis word_unat_eq_iff)
  then have "EquivocationEvidence_verify C (Precommit v v') vs = Ok ()"
    using v v' assms(3) by (simp only: verify_Precommit_iff conflicting_def vote_key_def) simp
  with v(1,2) v'(1) show ?thesis by blast
qed

lemma commits_intersect:
  assumes "bls_aggregates C" and "safe_total vs"
    and "c = coord_run C (RoundCoordinator_new h seed vs) es" and "rc_phase c = Committed"
    and "c' = coord_run C (RoundCoordinator_new h seed' vs) es'" and "rc_phase c' = Committed"
    and "rc_round c = rc_round c'" and "proposed_block c \<noteq> proposed_block c'"
  shows "\<exists>A \<subseteq> {..<vs_size vs}. unat (total_stake vs) < 3 * stake_of vs A \<and>
    (\<forall>i \<in> A. \<exists>v v'. EvPrecommit v \<in> set es \<and> EvPrecommit v' \<in> set es' \<and>
       unat (validator_index v) = i \<and>
       EquivocationEvidence_verify C (Precommit v v') vs = Ok ())"
proof -
  have wf: "vs_wf vs" using assms(2) by (simp add: safe_total_def)
  obtain b p where b: "proposed_block c = Some b" "PrecommitCertificate_verify C p vs = Ok ()"
      "backed C (set es) vs b h (rc_round c) (bits_of (signer_bitmap p))"
    using committed_backed [OF assms(1) wf assms(3,4)] by metis
  obtain b' p' where b': "proposed_block c' = Some b'" "PrecommitCertificate_verify C p' vs = Ok ()"
      "backed C (set es') vs b' h (rc_round c') (bits_of (signer_bitmap p'))"
    using committed_backed [OF assms(1) wf assms(5,6)] by metis
  let ?A = "bits_of (signer_bitmap p) \<inter> bits_of (signer_bitmap p')"
  have "b \<noteq> b'" using assms(8) b(1) b'(1) by auto
  have "\<exists>v v'. EvPrecommit v \<in> set es \<and> EvPrecommit v' \<in> set es' \<and> unat (validator_index v) = i \<and>
       EquivocationEvidence_verify C (Precommit v v') vs = Ok ()" if "i \<in> ?A" for i
    using backed_conflict [OF b(3) b'(3) [folded assms(7)] \<open>b \<noteq> b'\<close>] that by blast
  moreover have "?A \<subseteq> {..<vs_size vs}"
    using b(2) wf by (auto simp: PrecommitCertificate_verify_iff cert_valid_def)
  ultimately show ?thesis
    using precommit.certificates_intersect [OF assms(2) b(2) b'(2)] by blast
qed

subsection \<open>A round with enough honest votes commits\<close>

definition votes_for :: "digest_fun \<Rightarrow> crypto \<Rightarrow> round_coordinator \<Rightarrow> h256 \<Rightarrow> vote list \<Rightarrow> bool" where
  "votes_for digest C c b votes \<longleftrightarrow>
     (\<forall>v \<in> set votes. block_hash v = b \<and> height v = rc_height c \<and> round v = rc_round c \<and>
        vote_valid digest C (rc_vs c) v)"

definition voters :: "vote list \<Rightarrow> nat set" where
  "voters votes = (\<lambda>v. unat (validator_index v)) ` set votes"

text \<open>The progress of a vote phase: it has either moved on, or counted every vote so far.\<close>

definition prevote_progress :: "round_coordinator \<Rightarrow> h256 \<Rightarrow> nat set \<Rightarrow> round_coordinator \<Rightarrow> bool" where
  "prevote_progress c b A c' \<longleftrightarrow>
     rc_round c' = rc_round c \<and> rc_vs c' = rc_vs c \<and> rc_height c' = rc_height c \<and>
     proposed_block c' = Some b \<and>
     (rc_phase c' = Precommitting \<or>
      rc_phase c' = Prevoting \<and> (\<exists>t. prevote_tally c' = Some t \<and> A \<subseteq> unat ` received t))"

definition precommit_progress :: "round_coordinator \<Rightarrow> h256 \<Rightarrow> nat set \<Rightarrow> round_coordinator \<Rightarrow> bool" where
  "precommit_progress c b A c' \<longleftrightarrow>
     rc_round c' = rc_round c \<and> rc_vs c' = rc_vs c \<and> rc_height c' = rc_height c \<and>
     proposed_block c' = Some b \<and>
     (rc_phase c' = Committed \<or>
      rc_phase c' = Precommitting \<and> (\<exists>t. precommit_tally c' = Some t \<and> A \<subseteq> unat ` received t))"

lemma prevote_progress_step:
  assumes laws: "bls_aggregates C" and inv: "coord_inv C c'" and prog: "prevote_progress c b A c'"
    and votes: "votes_for PrevoteVote_digest C c b [v]"
  shows "prevote_progress c b (insert (unat (validator_index v)) A) (snd (coord_step C c' (EvPrevote v)))"
proof (cases "rc_phase c' = Prevoting")
  case False
  with prog show ?thesis by (simp add: submit_prevote_def prevote_progress_def)
next
  case phase: True
  then obtain t where t: "prevote_tally c' = Some t" "bound_tally c' b t" "A \<subseteq> unat ` received t"
      "tally_inv PrevoteVote_digest C t"
    using inv prog by (auto simp: coord_inv_def prevote_progress_def)
  note pv = prog [unfolded prevote_progress_def]
  show ?thesis
  proof (cases rule: prevote.submit_cases [of C t v])
    case (reject e)
    then have "validator_index v \<in> received t"
      using votes t(2) pv by (auto simp: vote_admissible_def votes_for_def bound_tally_def)
    then show ?thesis using reject phase t pv by (auto simp: submit_prevote_def prevote_progress_def)
  next
    case admit
    have "tally_inv PrevoteVote_digest C (tally_add t v)"
      using prevote.inv_submit [OF t(4), of v] admit by simp
    then have "\<exists>p. try_form_polc C (tally_add t v) = Some p" if "has_quorum (tally_add t v)"
      using prevote.certificate_verifies [OF laws _ that] by blast
    then show ?thesis using admit phase t pv
      by (auto simp: submit_prevote_def prevote_progress_def Let_def)
  qed
qed

lemma precommit_progress_step:
  assumes laws: "bls_aggregates C" and inv: "coord_inv C c'" and prog: "precommit_progress c b A c'"
    and votes: "votes_for PrecommitVote_digest C c b [v]"
  shows "precommit_progress c b (insert (unat (validator_index v)) A)
           (snd (coord_step C c' (EvPrecommit v)))"
proof (cases "rc_phase c' = Precommitting")
  case False
  with prog show ?thesis by (simp add: submit_precommit_def precommit_progress_def)
next
  case phase: True
  then obtain t where t: "precommit_tally c' = Some t" "bound_tally c' b t" "A \<subseteq> unat ` received t"
      "tally_inv PrecommitVote_digest C t"
    using inv prog by (auto simp: coord_inv_def precommit_progress_def)
  note pv = prog [unfolded precommit_progress_def]
  show ?thesis
  proof (cases rule: precommit.submit_cases [of C t v])
    case (reject e)
    then have "validator_index v \<in> received t"
      using votes t(2) pv by (auto simp: vote_admissible_def votes_for_def bound_tally_def)
    then show ?thesis using reject phase t pv by (auto simp: submit_precommit_def precommit_progress_def)
  next
    case admit
    have "tally_inv PrecommitVote_digest C (tally_add t v)"
      using precommit.inv_submit [OF t(4), of v] admit by simp
    then have "\<exists>p. try_finalize C (tally_add t v) = Some p" if "has_quorum (tally_add t v)"
      using precommit.certificate_verifies [OF laws _ that] by blast
    then show ?thesis using admit phase t pv
      by (auto simp: submit_precommit_def precommit_progress_def Let_def)
  qed
qed

lemma coord_inv_step: "bls_aggregates C \<Longrightarrow> coord_inv C c \<Longrightarrow> coord_inv C (snd (coord_step C c e))"
  using sound_step [of C c e] by (simp add: sound_call_def)

lemma coord_inv_run: "bls_aggregates C \<Longrightarrow> coord_inv C c \<Longrightarrow> coord_inv C (coord_run C c es)"
  by (induction es arbitrary: c) (simp_all add: coord_inv_step)

lemma prevote_progress_run:
  assumes "bls_aggregates C" and "coord_inv C c'" and "prevote_progress c b A c'"
    and "votes_for PrevoteVote_digest C c b votes"
  shows "prevote_progress c b (A \<union> voters votes) (coord_run C c' (map EvPrevote votes))"
  using assms(2-)
proof (induction votes arbitrary: c' A)
  case (Cons v votes)
  have v: "votes_for PrevoteVote_digest C c b [v]" and vs: "votes_for PrevoteVote_digest C c b votes"
    using Cons.prems(3) by (simp_all add: votes_for_def)
  from Cons.IH [OF coord_inv_step [OF assms(1) Cons.prems(1)]
      prevote_progress_step [OF assms(1) Cons.prems(1,2) v] vs]
  show ?case by (simp add: voters_def)
qed (simp add: voters_def)

lemma precommit_progress_run:
  assumes "bls_aggregates C" and "coord_inv C c'" and "precommit_progress c b A c'"
    and "votes_for PrecommitVote_digest C c b votes"
  shows "precommit_progress c b (A \<union> voters votes) (coord_run C c' (map EvPrecommit votes))"
  using assms(2-)
proof (induction votes arbitrary: c' A)
  case (Cons v votes)
  have v: "votes_for PrecommitVote_digest C c b [v]" and vs: "votes_for PrecommitVote_digest C c b votes"
    using Cons.prems(3) by (simp_all add: votes_for_def)
  from Cons.IH [OF coord_inv_step [OF assms(1) Cons.prems(1)]
      precommit_progress_step [OF assms(1) Cons.prems(1,2) v] vs]
  show ?case by (simp add: voters_def)
qed (simp add: voters_def)

lemma quorum_of_received:
  assumes "tally_inv digest C t" and "A \<subseteq> unat ` received t"
    and "unat (quorum_threshold (t_vs t)) \<le> stake_of (t_vs t) A"
  shows "has_quorum t"
proof -
  obtain idxs where "tally_order digest C t idxs" using assms(1) by (auto simp: tally_inv_def)
  then have "unat (stake_collected t) = stake_of (t_vs t) (unat ` received t)"
      "finite (unat ` received t)"
    by (auto simp: tally_order_def)
  moreover have "stake_of (t_vs t) A \<le> stake_of (t_vs t) (unat ` received t)"
    unfolding stake_of_def using calculation(2) assms(2) by (intro sum_mono2) auto
  ultimately show ?thesis using assms(3) by (simp add: has_quorum_def word_le_nat_alt)
qed

lemma prevote_quorum_moves:
  assumes "coord_inv C c'" and "prevote_progress c b A c'"
    and "unat (quorum_threshold (rc_vs c)) \<le> stake_of (rc_vs c) A"
  shows "rc_phase c' = Precommitting"
proof (rule ccontr)
  assume "rc_phase c' \<noteq> Precommitting"
  then obtain t where "prevote_tally c' = Some t" "A \<subseteq> unat ` received t" "t_vs t = rc_vs c"
      "tally_inv PrevoteVote_digest C t" "\<not> has_quorum t"
    using assms(1,2) by (auto simp: prevote_progress_def coord_inv_def bound_tally_def)
  then show False using quorum_of_received assms(3) by metis
qed

lemma precommit_quorum_moves:
  assumes "coord_inv C c'" and "precommit_progress c b A c'"
    and "unat (quorum_threshold (rc_vs c)) \<le> stake_of (rc_vs c) A"
  shows "rc_phase c' = Committed"
proof (rule ccontr)
  assume "rc_phase c' \<noteq> Committed"
  then obtain t where "precommit_tally c' = Some t" "A \<subseteq> unat ` received t" "t_vs t = rc_vs c"
      "tally_inv PrecommitVote_digest C t" "\<not> has_quorum t"
    using assms(1,2) by (auto simp: precommit_progress_def coord_inv_def bound_tally_def)
  then show False using quorum_of_received assms(3) by metis
qed

lemma honest_round:
  assumes laws: "bls_aggregates C" and inv: "coord_inv C c" and phase: "rc_phase c = AwaitingProposal"
    and leader: "LeaderProof_verify C prf (vrf_pubkey (validators (rc_vs c) ! leader_index C c))
       (rc_height c) (rc_round c) (rc_seed c) = Ok ()"
    and pre: "votes_for PrevoteVote_digest C c b prevotes"
      "unat (quorum_threshold (rc_vs c)) \<le> stake_of (rc_vs c) (voters prevotes)"
    and com: "votes_for PrecommitVote_digest C c b precommits"
      "unat (quorum_threshold (rc_vs c)) \<le> stake_of (rc_vs c) (voters precommits)"
  defines "c' \<equiv> coord_run C c (EvProposal b prf # map EvPrevote prevotes @ map EvPrecommit precommits)"
  shows "rc_phase c' = Committed \<and> proposed_block c' = Some b \<and> rc_round c' = rc_round c"
proof -
  let ?c1 = "snd (coord_step C c (EvProposal b prf))"
  let ?c2 = "coord_run C ?c1 (map EvPrevote prevotes)"
  have inv1: "coord_inv C ?c1" and inv2: "coord_inv C ?c2"
    using laws inv by (simp_all add: coord_inv_step coord_inv_run del: coord_step.simps)
  have "prevote_progress c b {} ?c1"
    using phase leader by (simp add: submit_proposal_def prevote_progress_def)
  from prevote_progress_run [OF laws inv1 this pre(1)]
  have prog2: "prevote_progress c b (voters prevotes) ?c2" by simp
  then have "rc_phase ?c2 = Precommitting" using prevote_quorum_moves inv2 pre(2) by blast
  then have "precommit_progress c b {} ?c2"
    using prog2 inv2 by (auto simp: prevote_progress_def precommit_progress_def coord_inv_def)
  from precommit_progress_run [OF laws inv2 this com(1)]
  have prog3: "precommit_progress c b (voters precommits) c'"
    by (simp add: c'_def coord_run_append)
  have "coord_inv C c'" unfolding c'_def using laws inv by (rule coord_inv_run)
  then have "rc_phase c' = Committed" using precommit_quorum_moves prog3 com(2) by blast
  with prog3 show ?thesis by (simp add: precommit_progress_def)
qed

lemma index_small: "vs_wf vs \<Longrightarrow> i < vs_size vs \<Longrightarrow> unat (word_of_nat i :: u32) = i"
  by (intro unat_word_of_nat_small) (auto simp: vs_wf_def MAX_VALIDATORS_def vs_size_def)

lemma signed_votes:
  assumes "bls_signs C" and "vs_wf vs" and "rc_vs c = vs" and "rc_height c = h" and "set is \<subseteq> {..<vs_size vs}"
    and "\<And>i. i < vs_size vs \<Longrightarrow> bls_pubkey (validators vs ! i) = bls_public_key_of C (sk i)"
  shows "voters (map (\<lambda>i. PrevoteVote_sign C (sk i) b h r (word_of_nat i)) is) = set is"
    and "voters (map (\<lambda>i. PrecommitVote_sign C (sk i) b h r (word_of_nat i)) is) = set is"
    and "votes_for PrevoteVote_digest C c b
       (map (\<lambda>i. PrevoteVote_sign C (sk i) b h (rc_round c) (word_of_nat i)) is)"
    and "votes_for PrecommitVote_digest C c b
       (map (\<lambda>i. PrecommitVote_sign C (sk i) b h (rc_round c) (word_of_nat i)) is)"
proof -
  note small = index_small [OF assms(2)]
  show "voters (map (\<lambda>i. PrevoteVote_sign C (sk i) b h r (word_of_nat i)) is) = set is"
    "voters (map (\<lambda>i. PrecommitVote_sign C (sk i) b h r (word_of_nat i)) is) = set is"
    using assms(5) small by (force simp: voters_def PrevoteVote_sign_def PrecommitVote_sign_def image_iff)+
  show "votes_for PrevoteVote_digest C c b
       (map (\<lambda>i. PrevoteVote_sign C (sk i) b h (rc_round c) (word_of_nat i)) is)"
     "votes_for PrecommitVote_digest C c b
       (map (\<lambda>i. PrecommitVote_sign C (sk i) b h (rc_round c) (word_of_nat i)) is)"
    using assms(3-6) small
    by (auto simp: votes_for_def intro!: signed_vote_valid [OF assms(1)])
      (auto simp: PrevoteVote_sign_def PrecommitVote_sign_def)
qed

lemma honest_signed_round:
  fixes b :: h256 and nonce :: nat
  assumes "bls_aggregates C" and "bls_signs C" and "vrf_proves C"
    and "vs_wf vs" and "coord_reach C vs h c" and "rc_phase c = AwaitingProposal"
    and "\<And>i. i < vs_size vs \<Longrightarrow> bls_pubkey (validators vs ! i) = bls_public_key_of C (sk i)"
    and "vrf_pubkey (validators vs ! leader_index C c) = vrf_public_key_of C lsk"
    and "set ps \<subseteq> {..<vs_size vs}" and "unat (quorum_threshold vs) \<le> stake_of vs (set ps)"
    and "set cs \<subseteq> {..<vs_size vs}" and "unat (quorum_threshold vs) \<le> stake_of vs (set cs)"
  defines "c' \<equiv> coord_run C c
     (EvProposal b (LeaderProof_produce C nonce lsk h (rc_round c) (rc_seed c)) #
      map EvPrevote (map (\<lambda>i. PrevoteVote_sign C (sk i) b h (rc_round c) (word_of_nat i)) ps) @
      map EvPrecommit (map (\<lambda>i. PrecommitVote_sign C (sk i) b h (rc_round c) (word_of_nat i)) cs))"
  shows "rc_phase c' = Committed \<and> proposed_block c' = Some b \<and> rc_round c' = rc_round c"
proof -
  have inv: "coord_inv C c" and c: "rc_vs c = vs" "rc_height c = h"
    using coord_reach_inv [OF assms(1) _ assms(5)] assms(4) coord_reach_frame [OF assms(5)] by blast+
  note signed = signed_votes [OF assms(2,4) c _ assms(7)]
  have "LeaderProof_verify C (LeaderProof_produce C nonce lsk h (rc_round c) (rc_seed c))
      (vrf_pubkey (validators vs ! leader_index C c)) h (rc_round c) (rc_seed c) = Ok ()"
    using LeaderProof_verify_produce [OF assms(3)] assms(8) by simp
  then show ?thesis unfolding c'_def
    using assms(9-12) signed c by (intro honest_round [OF assms(1) inv assms(6)]) simp_all
qed

subsection \<open>A concrete round\<close>

text \<open>The single validator of \<open>demo_vs\<close> proposes a block and votes for it.\<close>

definition demo_proof :: leader_proof where
  "demo_proof = LeaderProof_produce demo_crypto 0 demo_vrf_sk 1 0 0"

definition demo_events :: "h256 \<Rightarrow> coord_event list" where
  "demo_events b = [EvProposal b demo_proof,
     EvPrevote (PrevoteVote_sign demo_crypto demo_sk b 1 0 0),
     EvPrecommit (PrecommitVote_sign demo_crypto demo_sk b 1 0 0)]"

lemma demo_votes:
  "votes_for PrevoteVote_digest demo_crypto (RoundCoordinator_new 1 0 demo_vs) b
     [PrevoteVote_sign demo_crypto demo_sk b 1 0 0]"
  "votes_for PrecommitVote_digest demo_crypto (RoundCoordinator_new 1 0 demo_vs) b
     [PrecommitVote_sign demo_crypto demo_sk b 1 0 0]"
  by (auto simp: votes_for_def RoundCoordinator_new_def demo_quorum demo_vs_def
      intro!: signed_vote_valid demo_bls_signs)
    (simp_all add: PrevoteVote_sign_def PrecommitVote_sign_def vs_size_def)

lemma demo_leader:
  "leader_index demo_crypto (RoundCoordinator_new 1 0 demo_vs) = 0"
  using select_leader_less [OF demo_wf, of demo_crypto 1 0 0]
  by (simp add: leader_index_def RoundCoordinator_new_def demo_quorum)

lemma demo_leader_proof:
  "LeaderProof_verify demo_crypto demo_proof (vrf_pubkey (validators demo_vs ! 0)) 1 0 0 = Ok ()"
  unfolding demo_proof_def
  using LeaderProof_verify_produce [OF demo_vrf_proves] by (simp add: demo_vs_def)

lemma demo_run:
  "rc_phase (coord_run demo_crypto (RoundCoordinator_new 1 0 demo_vs) (demo_events b)) = Committed \<and>
   proposed_block (coord_run demo_crypto (RoundCoordinator_new 1 0 demo_vs) (demo_events b)) = Some b \<and>
   rc_round (coord_run demo_crypto (RoundCoordinator_new 1 0 demo_vs) (demo_events b)) = 0"
proof -
  let ?c = "RoundCoordinator_new 1 0 demo_vs"
  have fields: "rc_vs ?c = demo_vs" "rc_height ?c = 1" "rc_round ?c = 0" "rc_seed ?c = 0"
      "rc_phase ?c = AwaitingProposal"
    by (simp_all add: RoundCoordinator_new_def)
  have stake: "unat (quorum_threshold demo_vs) \<le> stake_of demo_vs {0}"
    by (simp add: demo_quorum stake_of_def)
  have "voters [PrevoteVote_sign demo_crypto demo_sk b 1 0 0] = {0}"
      "voters [PrecommitVote_sign demo_crypto demo_sk b 1 0 0] = {0}"
    by (simp_all add: voters_def PrevoteVote_sign_def PrecommitVote_sign_def)
  then show ?thesis
    using honest_round [OF demo_bls_aggregates coord_inv_new [OF demo_wf], of 1 0 demo_proof b
        "[PrevoteVote_sign demo_crypto demo_sk b 1 0 0]"
        "[PrecommitVote_sign demo_crypto demo_sk b 1 0 0]"]
      demo_votes [of b] demo_leader demo_leader_proof stake
    by (simp add: fields demo_events_def del: coord_run.simps)
qed

subsection \<open>Properties\<close>

text \<open>
  (C1) Accountable safety within a round. Let two nodes run the coordinator for the same height and
  validator set, of a total stake below \<open>2 ^ 63\<close> (from there on the quorum threshold may wrap around), over any two
  sequences of events. If both commit, in the same round, to different blocks, then validators holding more than a third of the total stake have each cast two
  precommits, one delivered to either node, that together are valid slashing evidence.
\<close>

theorem conflicting_commits_are_slashable:
  assumes "bls_aggregates C" and "ValidatorSet_new ws = Ok vs" and "unat (total_stake vs) < 2 ^ 63"
    and "c = coord_run C (RoundCoordinator_new h seed vs) es" and "rc_phase c = Committed"
    and "c' = coord_run C (RoundCoordinator_new h seed' vs) es'" and "rc_phase c' = Committed"
    and "rc_round c = rc_round c'" and "proposed_block c \<noteq> proposed_block c'"
  shows "\<exists>A \<subseteq> {..<vs_size vs}. unat (total_stake vs) < 3 * stake_of vs A \<and>
    (\<forall>i \<in> A. \<exists>v v'. EvPrecommit v \<in> set es \<and> EvPrecommit v' \<in> set es' \<and>
       unat (validator_index v) = i \<and>
       EquivocationEvidence_verify C (Precommit v v') vs = Ok ())"
proof (rule commits_intersect [OF assms(1) _ assms(4-9)])
  show "safe_total vs" using ValidatorSet_new_wf [OF assms(2)] assms(3) by (simp add: safe_total_def)
qed

theorem conflicting_commits_are_slashable_witness:
  "\<exists>A \<subseteq> {..<vs_size demo_vs}. unat (total_stake demo_vs) < 3 * stake_of demo_vs A \<and>
    (\<forall>i \<in> A. \<exists>v v'. EvPrecommit v \<in> set (demo_events 3) \<and> EvPrecommit v' \<in> set (demo_events 4) \<and>
       unat (validator_index v) = i \<and>
       EquivocationEvidence_verify demo_crypto (Precommit v v') demo_vs = Ok ())"
  using demo_safe demo_run [of 3] demo_run [of 4]
  by (intro conflicting_commits_are_slashable [OF demo_bls_aggregates demo_new _ refl _ refl])
    (auto simp: safe_total_def)

text \<open>
  The coordinator never panics and never loses state on an error. Whatever events a host has
  delivered, in whatever order, the next event does not hit one of the three \<open>expect\<close> calls, and if
  it is refused then the coordinator is exactly as before.
\<close>

theorem coordinator_never_panics:
  assumes "bls_aggregates C" and "ValidatorSet_new ws = Ok vs" and "coord_reach C vs h c"
  shows "fst (coord_step C c e) \<noteq> Panic \<and>
    (\<forall>err. fst (coord_step C c e) = Err err \<longrightarrow> snd (coord_step C c e) = c)"
proof -
  have "coord_inv C c" using coord_reach_inv assms ValidatorSet_new_wf by blast
  from sound_step [OF assms(1) this, of e] show ?thesis by (auto simp: sound_call_def)
qed

theorem coordinator_never_panics_witness:
  "fst (coord_step demo_crypto (RoundCoordinator_new 1 0 demo_vs) (EvPrevote demo_precommit)) \<noteq> Panic"
  using coordinator_never_panics [OF demo_bls_aggregates demo_new coord_reach.start] by blast

text \<open>
  (C3) What the phases mean. In every reachable state: a prevote tally below quorum in \<open>Prevoting\<close>;
  in \<open>Precommitting\<close> a POLC for the proposed block of this very round that verifies, and the lock set
  to it; in \<open>Committed\<close> also a certificate for that block and round that verifies; and the lock, if
  any, always carries a verifying POLC of a round not later than the current one.
\<close>

theorem coordinator_phase_invariant:
  assumes "bls_aggregates C" and "ValidatorSet_new ws = Ok vs" and "coord_reach C vs h c"
  shows "coord_inv C c \<and> rc_vs c = vs \<and> rc_height c = h"
  using coord_reach_inv coord_reach_frame assms ValidatorSet_new_wf by blast

theorem coordinator_phase_invariant_witness:
  "coord_inv demo_crypto (coord_run demo_crypto (RoundCoordinator_new 1 0 demo_vs) (demo_events 3))"
  using coordinator_phase_invariant [OF demo_bls_aggregates demo_new
      coord_run_reach [OF coord_reach.start]] by blast

text \<open>
  (C2) An honest round commits. From any reachable coordinator that awaits a proposal, the leader's
  proposal, then signed prevotes for it from validators that hold a quorum of stake, and after them signed
  precommits from validators that hold a quorum of stake, end in \<open>Committed\<close> on that block in the same round. Within
  the prevotes and within the precommits the order is arbitrary and votes may be repeated; every prevote comes before
  every precommit (a precommit that comes before the quorum of prevotes is refused).
\<close>

theorem honest_round_commits:
  assumes "bls_aggregates C" and "bls_signs C" and "vrf_proves C"
    and "ValidatorSet_new ws = Ok vs" and "coord_reach C vs h c" and "rc_phase c = AwaitingProposal"
    and "\<And>i. i < vs_size vs \<Longrightarrow> bls_pubkey (validators vs ! i) = bls_public_key_of C (sk i)"
    and "vrf_pubkey (validators vs ! leader_index C c) = vrf_public_key_of C lsk"
    and "set ps \<subseteq> {..<vs_size vs}" and "unat (quorum_threshold vs) \<le> stake_of vs (set ps)"
    and "set cs \<subseteq> {..<vs_size vs}" and "unat (quorum_threshold vs) \<le> stake_of vs (set cs)"
    and "c' = coord_run C c
     (EvProposal b (LeaderProof_produce C nonce lsk h (rc_round c) (rc_seed c)) #
      map EvPrevote (map (\<lambda>i. PrevoteVote_sign C (sk i) b h (rc_round c) (word_of_nat i)) ps) @
      map EvPrecommit (map (\<lambda>i. PrecommitVote_sign C (sk i) b h (rc_round c) (word_of_nat i)) cs))"
  shows "rc_phase c' = Committed \<and> proposed_block c' = Some b \<and> rc_round c' = rc_round c"
  using honest_signed_round [OF assms(1-3) conjunct1 [OF ValidatorSet_new_wf [OF assms(4)]] assms(5-12)] by (simp only: assms(13))

theorem honest_round_commits_witness:
  "rc_phase (coord_run demo_crypto (RoundCoordinator_new 1 0 demo_vs)
     (EvProposal 9 (LeaderProof_produce demo_crypto 0 demo_vrf_sk 1 0 0) #
      map EvPrevote (map (\<lambda>i. PrevoteVote_sign demo_crypto demo_sk 9 1 0 (word_of_nat i)) [0]) @
      map EvPrecommit (map (\<lambda>i. PrecommitVote_sign demo_crypto demo_sk 9 1 0 (word_of_nat i)) [0, 0])))
   = Committed"
proof -
  have fields: "rc_round (RoundCoordinator_new 1 0 demo_vs) = 0"
      "rc_seed (RoundCoordinator_new 1 0 demo_vs) = 0"
      "rc_phase (RoundCoordinator_new 1 0 demo_vs) = AwaitingProposal"
    by (simp_all add: RoundCoordinator_new_def)
  have keys: "\<And>i. i < vs_size demo_vs \<Longrightarrow>
      bls_pubkey (validators demo_vs ! i) = bls_public_key_of demo_crypto demo_sk"
    by (simp add: vs_size_def demo_vs_def)
  have leader: "vrf_pubkey (validators demo_vs ! leader_index demo_crypto (RoundCoordinator_new 1 0 demo_vs))
      = vrf_public_key_of demo_crypto demo_vrf_sk"
    unfolding demo_leader by (simp add: demo_vs_def)
  show ?thesis
    using honest_round_commits [OF demo_bls_aggregates demo_bls_signs demo_vrf_proves demo_new
        coord_reach.start fields(3) keys leader _ _ _ _ refl, of "[0]" "[0, 0]" 9 0]
    unfolding fields by (simp add: demo_quorum stake_of_def del: coord_run.simps)
qed

text \<open>
  Finality of a coordinator: once committed, no event changes it any more, whatever is delivered
  and however often the round timer fires.
\<close>

theorem committed_is_final:
  assumes "rc_phase c = Committed"
  shows "coord_run C c es = c"
  using assms by (rule committed_run)

theorem committed_is_final_witness:
  "coord_run demo_crypto (coord_run demo_crypto (RoundCoordinator_new 1 0 demo_vs) (demo_events 3))
     (EvTimeout # demo_events 4) =
   coord_run demo_crypto (RoundCoordinator_new 1 0 demo_vs) (demo_events 3)"
  using committed_is_final demo_run [of 3] by blast

text \<open>
  Locks only move forward: a step never removes the lock and never replaces it by one of an
  earlier round, and the round itself never decreases.
\<close>

theorem lock_never_regresses:
  assumes "locked c = Some l"
  shows "rc_round c \<le> rc_round (snd (coord_step C c e)) \<and>
    (\<exists>l'. locked (snd (coord_step C c e)) = Some l' \<and> l_round l \<le> l_round l')"
  using coord_step_round coord_step_lock [OF assms] by blast

theorem lock_never_regresses_witness:
  "\<exists>l'. locked (snd (coord_step demo_crypto
      ((RoundCoordinator_new 1 0 demo_vs)\<lparr>locked := Some \<lparr>l_block_hash = 3, l_round = 0,
         l_polc = cert_of (PrevoteTallier_new 3 1 0 demo_vs) (BlsSignature 5)\<rparr>\<rparr>) EvTimeout)) = Some l'"
proof -
  let ?l = "\<lparr>l_block_hash = 3, l_round = 0,
     l_polc = cert_of (PrevoteTallier_new 3 1 0 demo_vs) (BlsSignature 5)\<rparr>"
  have "locked ((RoundCoordinator_new 1 0 demo_vs)\<lparr>locked := Some ?l\<rparr>) = Some ?l" by simp
  from lock_never_regresses [OF this, of demo_crypto EvTimeout] show ?thesis by blast
qed

end
