(* ===== verification/Consensus.thy ===== *)
theory Consensus
  imports Validators Block
begin

section \<open>Consensus engines: the interface and the development engine\<close>

text \<open>
  \<open>aii-consensus-iface\<close>: the trait \<open>Engine\<close> is the record \<open>engine_ops\<close> of its methods, each taking
  and returning the engine's state. What a node relies on is the locale \<open>chain_engine\<close>: a step either
  leaves the head alone or appends one block whose parent is the old head. The client's fact, proved
  once in the locale, is that any run of steps builds one hash-linked chain. \<open>DevModeEngine\<close> of
  \<open>aii-consensus-bft/src/lib.rs\<close> is the first instance; the proof-of-authority engine and the BFT
  engine follow in their own theories. The entropy an engine may draw in a step is its argument.
\<close>

subsection \<open>aii-consensus-iface\<close>

datatype consensus_kind = Bft | Poa

primrec kind_as_str :: "consensus_kind \<Rightarrow> string" where
  "kind_as_str Bft = ''bft''"
| "kind_as_str Poa = ''poa''"

definition to_ascii_lowercase :: "string \<Rightarrow> string" where
  "to_ascii_lowercase =
     map (\<lambda>c. let n = (of_char c :: nat) in if 65 \<le> n \<and> n \<le> 90 then char_of (n + 32) else c)"

definition kind_parse :: "string \<Rightarrow> (string, consensus_kind) result" where
  "kind_parse s =
     (let t = to_ascii_lowercase s in
      if t = ''bft'' \<or> t = ''bft-pos'' then Ok Bft
      else if t = ''poa'' \<or> t = ''proof-of-authority'' then Ok Poa
      else Err t)"

datatype engine_progress = Idle | NewBlock h256

datatype consensus_error =
    InvalidHeader string
  | InvalidBlock string
  | ConsensusBadSignature
  | NotInVSet
  | ConsensusIo string

record post_block_roots =
  pr_state_root :: h256
  pr_receipts_root :: h256
  pr_logs_bloom :: bloom
  pr_gas_used :: u64

text \<open>A \<open>BlockExecutor\<close> is code the engine is given: a parameter of the engine's configuration.\<close>

type_synonym block_executor = "block_body \<Rightarrow> address \<Rightarrow> u64 \<Rightarrow> consensus_error + post_block_roots"

record 's engine_ops =
  eng_init :: "'s \<Rightarrow> block \<Rightarrow> (consensus_error, h256) result \<times> 's"
  eng_step :: "nat \<Rightarrow> 's \<Rightarrow> (consensus_error, engine_progress) result \<times> 's"
  eng_head :: "'s \<Rightarrow> h256"
  eng_coinbase :: "'s \<Rightarrow> address option"

subsection \<open>The contract of an engine\<close>

fun linked :: "(block \<Rightarrow> h256) \<Rightarrow> h256 \<Rightarrow> u64 \<Rightarrow> block list \<Rightarrow> bool" where
  "linked hash h n [] \<longleftrightarrow> True"
| "linked hash h n (b # bs) \<longleftrightarrow>
     parent_hash (block_header b) = h \<and> number (block_header b) = n + 1 \<and> linked hash (hash b) (n + 1) bs"

lemma linked_append:
  "linked hash h n (bs @ cs) \<longleftrightarrow>
     linked hash h n bs \<and> linked hash (last (h # map hash bs)) (n + word_of_nat (length bs)) cs"
  by (induction bs arbitrary: h n) (simp_all add: algebra_simps)

text \<open>The hashes a run of steps reports, oldest first, and the final state; it stops at a panic.\<close>

fun engine_run :: "'s engine_ops \<Rightarrow> nat list \<Rightarrow> 's \<Rightarrow> h256 list \<times> 's" where
  "engine_run E [] s = ([], s)"
| "engine_run E (n # ns) s =
     (case eng_step E n s of
        (Panic, s') \<Rightarrow> ([], s')
      | (Ok (NewBlock h), s') \<Rightarrow> (let (hs, s'') = engine_run E ns s' in (h # hs, s''))
      | (_, s') \<Rightarrow> engine_run E ns s')"

definition step_contract ::
    "'s engine_ops \<Rightarrow> (block \<Rightarrow> h256) \<Rightarrow> ('s \<Rightarrow> u64) \<Rightarrow> 's \<Rightarrow>
     (consensus_error, engine_progress) result \<times> 's \<Rightarrow> bool" where
  "step_contract E hash tip s out \<longleftrightarrow>
     (case out of
        (Ok (NewBlock h), s') \<Rightarrow>
          \<exists>b. h = hash b \<and> parent_hash (block_header b) = eng_head E s \<and>
              number (block_header b) = tip s + 1 \<and> eng_head E s' = h \<and> tip s' = tip s + 1
      | (Panic, s') \<Rightarrow> False
      | (_, s') \<Rightarrow> eng_head E s' = eng_head E s \<and> tip s' = tip s)"

locale chain_engine =
  fixes E :: "'s engine_ops" and hash :: "block \<Rightarrow> h256" and fresh ready :: "'s \<Rightarrow> bool"
    and tip :: "'s \<Rightarrow> u64"
  assumes init_spec: "fresh s \<Longrightarrow> eng_init E s g = (r, s') \<Longrightarrow>
      r = Ok (hash g) \<and> ready s' \<and> eng_head E s' = hash g \<and> tip s' = number (block_header g)"
    and step_spec: "ready s \<Longrightarrow> step_contract E hash tip s (eng_step E n s)"
    and step_ready: "ready s \<Longrightarrow> eng_step E n s = (r', s') \<Longrightarrow> ready s'"
begin

lemma run_builds_chain:
  assumes "ready s" and "engine_run E ns s = (hs, s')"
  shows "\<exists>bs. hs = map hash bs \<and> linked hash (eng_head E s) (tip s) bs \<and>
    eng_head E s' = last (eng_head E s # hs) \<and> tip s' = tip s + word_of_nat (length hs) \<and> ready s'"
  using assms
proof (induction ns arbitrary: s hs)
  case Nil
  then show ?case by simp
next
  case (Cons n ns)
  obtain r t where step: "eng_step E n s = (r, t)" by fastforce
  have t: "ready t" using step_ready [OF Cons.prems(1) step] .
  have con: "step_contract E hash tip s (r, t)" using step_spec [OF Cons.prems(1), of n] step by simp
  show ?case
  proof (cases "\<exists>h. r = Ok (NewBlock h)")
    case True
    then obtain h ks where h: "r = Ok (NewBlock h)" "engine_run E ns t = (ks, s')" "hs = h # ks"
      using Cons.prems(2) step by (auto split: prod.splits)
    obtain b where b: "h = hash b" "parent_hash (block_header b) = eng_head E s"
        "number (block_header b) = tip s + 1" "eng_head E t = h" "tip t = tip s + 1"
      using con h by (auto simp: step_contract_def)
    obtain bs where "ks = map hash bs" "linked hash (eng_head E t) (tip t) bs"
        "eng_head E s' = last (eng_head E t # ks)" "tip s' = tip t + word_of_nat (length ks)" "ready s'"
      using Cons.IH [OF t h(2)] by blast
    then show ?thesis using b h by (intro exI [of _ "b # bs"]) (auto simp: algebra_simps)
  next
    case False
    then have "r \<noteq> Panic" and same: "eng_head E t = eng_head E s" "tip t = tip s"
      using con by (auto simp: step_contract_def split: result.splits engine_progress.splits)
    then have "engine_run E ns t = (hs, s')"
      using Cons.prems(2) step False by (auto split: result.splits engine_progress.splits)
    from Cons.IH [OF t this] show ?thesis using same by simp
  qed
qed

lemma run_from_genesis:
  assumes "fresh s" and "eng_init E s g = (r, s0)" and "engine_run E ns s0 = (hs, s')"
  shows "\<exists>bs. hs = map hash bs \<and> linked hash (hash g) (number (block_header g)) bs \<and>
    eng_head E s' = last (hash g # hs) \<and> tip s' = number (block_header g) + word_of_nat (length hs)"
  using run_builds_chain [OF _ assms(3)] init_spec [OF assms(1,2)] by auto

end

subsection \<open>DevModeEngine\<close>

definition DEFAULT_SLOT_SECONDS :: u64 where
  "DEFAULT_SLOT_SECONDS = 3"

record engine_config =
  dev_slot_seconds :: u64
  dev_coinbase :: address
  dev_base_fee_per_gas :: u256
  dev_gas_limit :: u64

definition EngineConfig_default :: engine_config where
  "EngineConfig_default =
     \<lparr>dev_slot_seconds = DEFAULT_SLOT_SECONDS, dev_coinbase = 0, dev_base_fee_per_gas = 1000000000,
      dev_gas_limit = 30000000\<rparr>"

record dev_engine =
  dev_config :: engine_config
  dev_head_hash :: h256
  dev_head_number :: u64
  dev_head_timestamp :: u64

definition DevModeEngine_new :: "crypto \<Rightarrow> rlp \<Rightarrow> engine_config \<Rightarrow> block \<Rightarrow> dev_engine" where
  "DevModeEngine_new C R cfg genesis =
     \<lparr>dev_config = cfg, dev_head_hash = Block_hash C R genesis,
      dev_head_number = number (block_header genesis),
      dev_head_timestamp = timestamp (block_header genesis)\<rparr>"

definition dev_produce_block ::
    "crypto \<Rightarrow> rlp \<Rightarrow> dev_engine \<Rightarrow> (bft_error, h256 \<times> u64 \<times> block) result \<times> dev_engine" where
  "dev_produce_block C R e =
     (case checked_add (dev_head_number e) 1 of
        None \<Rightarrow> (Err Overflow, e)
      | Some new_number \<Rightarrow>
          let new_timestamp = dev_head_timestamp e + dev_slot_seconds (dev_config e);
              hdr = \<lparr>parent_hash = dev_head_hash e, ommers_hash = EMPTY_LIST_HASH,
                     beneficiary = dev_coinbase (dev_config e), state_root = EMPTY_TRIE_HASH,
                     transactions_root = EMPTY_TRIE_HASH, receipts_root = EMPTY_TRIE_HASH,
                     logs_bloom = Bloom_ZERO, difficulty = 0, number = new_number,
                     header_gas_limit = dev_gas_limit (dev_config e), gas_used = 0,
                     timestamp = new_timestamp, extra_data = ascii ''aii-dev-mode'', mix_hash = 0,
                     header_nonce = 0, base_fee_per_gas = dev_base_fee_per_gas (dev_config e),
                     withdrawals_root = EMPTY_TRIE_HASH, blob_gas_used = None,
                     excess_blob_gas = None, parent_beacon_block_root = None\<rparr>;
              blk = \<lparr>block_header = hdr, body = BlockBody_default\<rparr>;
              new_hash = Block_hash C R blk
          in (Ok (new_hash, new_number, blk),
              e\<lparr>dev_head_hash := new_hash, dev_head_number := new_number,
                dev_head_timestamp := new_timestamp\<rparr>))"

definition static_msg :: "bft_error \<Rightarrow> string" where
  "static_msg e =
     (case e of Overflow \<Rightarrow> ''block number overflowed u64''
      | _ \<Rightarrow> ''bft error (see BftError variant for details)'')"

definition dev_init :: "crypto \<Rightarrow> rlp \<Rightarrow> dev_engine \<Rightarrow> block \<Rightarrow> (consensus_error, h256) result \<times> dev_engine" where
  "dev_init C R e genesis =
     (let e' = e\<lparr>dev_head_hash := Block_hash C R genesis,
                dev_head_number := number (block_header genesis),
                dev_head_timestamp := timestamp (block_header genesis)\<rparr>
      in (Ok (dev_head_hash e'), e'))"

definition dev_step ::
    "crypto \<Rightarrow> rlp \<Rightarrow> dev_engine \<Rightarrow> (consensus_error, engine_progress) result \<times> dev_engine" where
  "dev_step C R e =
     (case dev_produce_block C R e of
        (r, e') \<Rightarrow> (and_then (map_err (\<lambda>x. InvalidBlock (static_msg x)) r) (\<lambda>(h, _, _). Ok (NewBlock h)), e'))"

definition DevModeEngine :: "crypto \<Rightarrow> rlp \<Rightarrow> dev_engine engine_ops" where
  "DevModeEngine C R =
     \<lparr>eng_init = dev_init C R, eng_step = (\<lambda>_. dev_step C R), eng_head = dev_head_hash,
      eng_coinbase = (\<lambda>e. Some (dev_coinbase (dev_config e)))\<rparr>"

text \<open>The step law of an engine that appends exactly the block it has just built.\<close>

lemma checked_inc: "checked_add a (1 :: u64) = Some n \<Longrightarrow> n = a + 1"
  by (auto simp: checked_add_def split: if_splits)

interpretation dev: chain_engine "DevModeEngine C R" "Block_hash C R" "\<lambda>_. True" "\<lambda>_. True" dev_head_number
proof
  show "step_contract (DevModeEngine C R) (Block_hash C R) dev_head_number s (eng_step (DevModeEngine C R) n s)"
    for s n
  proof (cases "checked_add (dev_head_number s) 1")
    case None
    then show ?thesis
      by (simp add: step_contract_def DevModeEngine_def dev_step_def dev_produce_block_def)
  next
    case (Some m)
    obtain h k b s' where p: "dev_produce_block C R s = (Ok (h, k, b), s')"
      using Some by (auto simp: dev_produce_block_def Let_def)
    then show ?thesis
      using Some checked_inc [OF Some]
      by (auto simp: step_contract_def DevModeEngine_def dev_step_def dev_produce_block_def Let_def
          intro!: exI [of _ b])
  qed
qed (auto simp: DevModeEngine_def dev_init_def Let_def)

lemma kind_round_trip: "kind_parse (kind_as_str k) = Ok k"
  by (cases k) (simp_all add: kind_parse_def to_ascii_lowercase_def Let_def)

end
