(* ===== verification/Storage.thy ===== *)
theory Storage
  imports Prelude "HOL-Library.List_Lexorder"
begin

section \<open>Key-value storage\<close>

text \<open>
  \<open>aii-storage\<close>: column families, write batches, the \<open>KvBackend\<close> trait and the in-memory backend. A
  \<open>BTreeMap\<close> is the association list of its entries in ascending key order. The trait is the record
  \<open>kv_backend\<close> of its operations, and its contract the locale \<open>kv_store\<close>; \<open>MemoryBackend\<close> is shown to
  meet it. RocksDB is third-party code: it is another record.
\<close>

subsection \<open>cf.rs, batch.rs, error.rs\<close>

datatype column_family =
    CfDefault | Headers | Bodies | Receipts | Transactions | State | AccountStorage | TxLookup | Meta
  | MicroChain | Code

definition ColumnFamily_ALL :: "column_family list" where
  "ColumnFamily_ALL = [CfDefault, Headers, Bodies, Receipts, Transactions, State, AccountStorage,
     TxLookup, Meta, MicroChain, Code]"

primrec cf_as_str :: "column_family \<Rightarrow> string" where
  "cf_as_str CfDefault = ''default''"
| "cf_as_str Headers = ''headers''"
| "cf_as_str Bodies = ''bodies''"
| "cf_as_str Receipts = ''receipts''"
| "cf_as_str Transactions = ''transactions''"
| "cf_as_str State = ''state''"
| "cf_as_str AccountStorage = ''account_storage''"
| "cf_as_str TxLookup = ''tx_lookup''"
| "cf_as_str Meta = ''meta''"
| "cf_as_str MicroChain = ''microchain''"
| "cf_as_str Code = ''code''"

datatype storage_error = Backend string | InvalidColumnFamily column_family | Io string

datatype batch_op = OpPut column_family "byte list" "byte list" | OpDelete column_family "byte list"

type_synonym write_batch = "batch_op list"

definition WriteBatch_new :: write_batch where
  "WriteBatch_new = []"

definition batch_put :: "write_batch \<Rightarrow> column_family \<Rightarrow> byte list \<Rightarrow> byte list \<Rightarrow> write_batch" where
  "batch_put b cf k v = b @ [OpPut cf k v]"

definition batch_delete :: "write_batch \<Rightarrow> column_family \<Rightarrow> byte list \<Rightarrow> write_batch" where
  "batch_delete b cf k = b @ [OpDelete cf k]"

type_synonym cf_map = "(byte list \<times> byte list) list"

subsection \<open>backend.rs\<close>

type_synonym kv_item = "(storage_error, byte list \<times> byte list) result"

record 'b kv_backend =
  kv_get :: "'b \<Rightarrow> column_family \<Rightarrow> byte list \<Rightarrow> (storage_error, byte list option) result"
  kv_put :: "'b \<Rightarrow> column_family \<Rightarrow> byte list \<Rightarrow> byte list \<Rightarrow> (storage_error, unit) result \<times> 'b"
  kv_delete :: "'b \<Rightarrow> column_family \<Rightarrow> byte list \<Rightarrow> (storage_error, unit) result \<times> 'b"
  kv_write :: "'b \<Rightarrow> write_batch \<Rightarrow> (storage_error, unit) result \<times> 'b"
  kv_snapshot :: "'b \<Rightarrow> 'b"
  kv_iter :: "'b \<Rightarrow> column_family \<Rightarrow> kv_item list"
  kv_iter_prefix :: "'b \<Rightarrow> column_family \<Rightarrow> byte list \<Rightarrow> kv_item list"

subsection \<open>memory.rs\<close>

text \<open>
  The store behind the lock. A snapshot is a clone of the store; every method takes the lock for its
  whole body, so that it is one atomic step.
\<close>

type_synonym store = "column_family \<Rightarrow> cf_map option"

definition MemoryBackend_default :: store where
  "MemoryBackend_default = (\<lambda>_. None)"

definition MemoryBackend_new :: store where
  "MemoryBackend_new = foldl (\<lambda>s cf. s(cf \<mapsto> [])) (\<lambda>_. None) ColumnFamily_ALL"

definition mem_get :: "store \<Rightarrow> column_family \<Rightarrow> byte list \<Rightarrow> (storage_error, byte list option) result" where
  "mem_get s cf key = (case s cf of None \<Rightarrow> Err (InvalidColumnFamily cf) | Some m \<Rightarrow> Ok (map_of m key))"

definition mem_put ::
    "store \<Rightarrow> column_family \<Rightarrow> byte list \<Rightarrow> byte list \<Rightarrow> (storage_error, unit) result \<times> store" where
  "mem_put s cf key val =
     (case s cf of
        None \<Rightarrow> (Err (InvalidColumnFamily cf), s)
      | Some m \<Rightarrow> (Ok (), s(cf \<mapsto> btree_insert key val m)))"

definition mem_delete :: "store \<Rightarrow> column_family \<Rightarrow> byte list \<Rightarrow> (storage_error, unit) result \<times> store" where
  "mem_delete s cf key =
     (case s cf of
        None \<Rightarrow> (Err (InvalidColumnFamily cf), s)
      | Some m \<Rightarrow> (Ok (), s(cf \<mapsto> btree_remove key m)))"

fun mem_write :: "store \<Rightarrow> write_batch \<Rightarrow> (storage_error, unit) result \<times> store" where
  "mem_write s [] = (Ok (), s)"
| "mem_write s (OpPut cf key val # ops) =
     (case s cf of
        None \<Rightarrow> (Err (InvalidColumnFamily cf), s)
      | Some m \<Rightarrow> mem_write (s(cf \<mapsto> btree_insert key val m)) ops)"
| "mem_write s (OpDelete cf key # ops) =
     (case s cf of
        None \<Rightarrow> (Err (InvalidColumnFamily cf), s)
      | Some m \<Rightarrow> mem_write (s(cf \<mapsto> btree_remove key m)) ops)"

definition mem_snapshot :: "store \<Rightarrow> store" where
  "mem_snapshot s = s"

definition mem_iter :: "store \<Rightarrow> column_family \<Rightarrow> kv_item list" where
  "mem_iter s cf = (case s cf of None \<Rightarrow> [Err (InvalidColumnFamily cf)] | Some m \<Rightarrow> map Ok m)"

text \<open>\<open>range(prefix..)\<close> starts at the first key that is not below the prefix.\<close>

definition starts_with :: "byte list \<Rightarrow> byte list \<Rightarrow> bool" where
  "starts_with pre k \<longleftrightarrow> take (length pre) k = pre"

definition mem_iter_prefix :: "store \<Rightarrow> column_family \<Rightarrow> byte list \<Rightarrow> kv_item list" where
  "mem_iter_prefix s cf pre =
     (case s cf of
        None \<Rightarrow> [Err (InvalidColumnFamily cf)]
      | Some m \<Rightarrow> map Ok (takeWhile (\<lambda>p. starts_with pre (fst p)) (dropWhile (\<lambda>p. fst p < pre) m)))"

definition MemoryBackend :: "store kv_backend" where
  "MemoryBackend = \<lparr>kv_get = mem_get, kv_put = mem_put, kv_delete = mem_delete, kv_write = mem_write,
     kv_snapshot = mem_snapshot, kv_iter = mem_iter, kv_iter_prefix = mem_iter_prefix\<rparr>"

subsection \<open>The contract of the trait\<close>

text \<open>What a sequence of operations does to the contents seen as a map per column family.\<close>

type_synonym contents = "column_family \<Rightarrow> byte list \<rightharpoonup> byte list"

primrec apply_op :: "contents \<Rightarrow> batch_op \<Rightarrow> contents" where
  "apply_op m (OpPut cf k v) = m(cf := (m cf)(k \<mapsto> v))"
| "apply_op m (OpDelete cf k) = m(cf := (m cf)(k := None))"

text \<open>
  The operations of an open backend succeed, keep it open, and act on its contents as the trait's
  documentation says; iteration lists the entries in ascending key order.
\<close>

locale kv_store =
  fixes K :: "'b kv_backend"
    and opened :: "'b \<Rightarrow> bool"
    and contents :: "'b \<Rightarrow> contents"
  assumes get_spec: "opened b \<Longrightarrow> kv_get K b cf k = Ok (contents b cf k)"
    and put_spec: "opened b \<Longrightarrow> \<exists>b'. kv_put K b cf k v = (Ok (), b') \<and> opened b' \<and>
      contents b' = apply_op (contents b) (OpPut cf k v)"
    and delete_spec: "opened b \<Longrightarrow> \<exists>b'. kv_delete K b cf k = (Ok (), b') \<and> opened b' \<and>
      contents b' = apply_op (contents b) (OpDelete cf k)"
    and write_spec: "opened b \<Longrightarrow> \<exists>b'. kv_write K b ops = (Ok (), b') \<and> opened b' \<and>
      contents b' = foldl apply_op (contents b) ops"
    and snapshot_spec: "opened b \<Longrightarrow> opened (kv_snapshot K b) \<and> contents (kv_snapshot K b) = contents b"
    and iter_spec: "opened b \<Longrightarrow> \<exists>m. kv_iter K b cf = map Ok m \<and> btree_ok m \<and> map_of m = contents b cf"
    and iter_prefix_spec: "opened b \<Longrightarrow> \<exists>m. kv_iter_prefix K b cf pre = map Ok m \<and> btree_ok m \<and>
      map_of m = (\<lambda>k. if starts_with pre k then contents b cf k else None)"
begin

lemma put_get:
  "opened b \<Longrightarrow> kv_get K (snd (kv_put K b cf k v)) cf' k' =
     (if cf' = cf \<and> k' = k then Ok (Some v) else kv_get K b cf' k')"
  using put_spec [of b cf k v] get_spec by auto

lemma delete_get:
  "opened b \<Longrightarrow> kv_get K (snd (kv_delete K b cf k)) cf' k' =
     (if cf' = cf \<and> k' = k then Ok None else kv_get K b cf' k')"
  using delete_spec [of b cf k] get_spec by auto

lemma opened_after:
  "opened b \<Longrightarrow> opened (snd (kv_put K b cf k v))" "opened b \<Longrightarrow> opened (snd (kv_delete K b cf k))"
  "opened b \<Longrightarrow> opened (snd (kv_write K b ops))"
  using put_spec [of b cf k v] delete_spec [of b cf k] write_spec [of b ops] by auto

lemma results_ok:
  "opened b \<Longrightarrow> fst (kv_put K b cf k v) = Ok ()" "opened b \<Longrightarrow> fst (kv_delete K b cf k) = Ok ()"
  "opened b \<Longrightarrow> fst (kv_write K b ops) = Ok ()"
  using put_spec [of b cf k v] delete_spec [of b cf k] write_spec [of b ops] by auto

text \<open>Iteration depends on the contents only.\<close>

lemma iter_contents:
  assumes "opened b" and "opened b'" and "contents b cf = contents b' cf"
  shows "kv_iter K b cf = kv_iter K b' cf"
proof -
  obtain m m' where m: "kv_iter K b cf = map Ok m" "btree_ok m" "map_of m = contents b cf"
      "kv_iter K b' cf = map Ok m'" "btree_ok m'" "map_of m' = contents b' cf"
    using iter_spec [OF assms(1)] iter_spec [OF assms(2)] by metis
  then have "set m = set m'" using assms(3) by (metis btree_ok_def map_of_inject_set)
  then have "m = m'"
    using m(2,5) by (intro map_sorted_distinct_set_unique [of fst]) (auto simp: btree_ok_def distinct_map)
  with m show ?thesis by simp
qed

end

subsection \<open>The memory backend meets the contract\<close>

lemma starts_with_simps [simp]:
  "starts_with [] k" "starts_with (a # pre) [] \<longleftrightarrow> False"
  "starts_with (a # pre) (b # k) \<longleftrightarrow> a = b \<and> starts_with pre k"
  by (auto simp: starts_with_def)

lemma starts_with_le: "starts_with pre k \<Longrightarrow> pre \<le> k"
  by (induction pre arbitrary: k) (case_tac k; auto)+

lemma starts_with_between: "pre \<le> k \<Longrightarrow> k \<le> k' \<Longrightarrow> starts_with pre k' \<Longrightarrow> starts_with pre k"
proof (induction pre arbitrary: k k')
  case (Cons a pre)
  then show ?case by (cases k; cases k') auto
qed simp

lemma takeWhile_starts_with:
  assumes "sorted (map fst m)" and "\<forall>p \<in> set m. pre \<le> fst p"
  shows "takeWhile (\<lambda>p. starts_with pre (fst p)) m = filter (\<lambda>p. starts_with pre (fst p)) m"
  using assms
proof (induction m)
  case (Cons p m)
  show ?case
  proof (cases "starts_with pre (fst p)")
    case False
    then have "\<not> starts_with pre (fst q)" if "q \<in> set m" for q
      using starts_with_between Cons.prems that by fastforce
    with False show ?thesis by (simp add: filter_False)
  qed (use Cons in simp)
qed simp

lemma prefix_range:
  assumes "sorted (map fst m)"
  shows "takeWhile (\<lambda>p. starts_with pre (fst p)) (dropWhile (\<lambda>p. fst p < pre) m) =
    filter (\<lambda>p. starts_with pre (fst p)) m"
  using assms
proof (induction m)
  case (Cons p m)
  show ?case
  proof (cases "fst p < pre")
    case True
    then have "\<not> starts_with pre (fst p)" using starts_with_le leD by blast
    then show ?thesis using Cons True by simp
  next
    case False
    then have "\<forall>q \<in> set (p # m). pre \<le> fst q" using Cons.prems by fastforce
    with False takeWhile_starts_with [OF Cons.prems] show ?thesis by simp
  qed
qed simp

lemma map_of_filter_keys: "map_of (filter (\<lambda>p. P (fst p)) m) k = (if P k then map_of m k else None)"
  by (induction m) auto

definition mem_opened :: "store \<Rightarrow> bool" where
  "mem_opened s \<longleftrightarrow> (\<forall>cf. \<exists>m. s cf = Some m \<and> btree_ok m)"

definition mem_contents :: "store \<Rightarrow> contents" where
  "mem_contents s = (\<lambda>cf. case s cf of None \<Rightarrow> Map.empty | Some m \<Rightarrow> map_of m)"

lemma mem_new_opened: "mem_opened MemoryBackend_new" and mem_new_contents: "mem_contents MemoryBackend_new = (\<lambda>_. Map.empty)"
proof -
  have "MemoryBackend_new cf = Some []" for cf
    by (cases cf) (simp_all add: MemoryBackend_new_def ColumnFamily_ALL_def)
  then show "mem_opened MemoryBackend_new" "mem_contents MemoryBackend_new = (\<lambda>_. Map.empty)"
    by (simp_all add: mem_opened_def mem_contents_def btree_ok_def)
qed

lemma mem_update:
  assumes "mem_opened s" and "s cf = Some m"
  shows "mem_opened (s(cf \<mapsto> btree_insert k v m))" "mem_opened (s(cf \<mapsto> btree_remove k m))"
    "mem_contents (s(cf \<mapsto> btree_insert k v m)) = apply_op (mem_contents s) (OpPut cf k v)"
    "mem_contents (s(cf \<mapsto> btree_remove k m)) = apply_op (mem_contents s) (OpDelete cf k)"
proof -
  have "btree_ok m" using assms by (metis mem_opened_def option.inject)
  then show "mem_opened (s(cf \<mapsto> btree_insert k v m))" "mem_opened (s(cf \<mapsto> btree_remove k m))"
    using assms(1) btree_insert_ok btree_remove_ok by (auto simp: mem_opened_def)
  show "mem_contents (s(cf \<mapsto> btree_insert k v m)) = apply_op (mem_contents s) (OpPut cf k v)"
    "mem_contents (s(cf \<mapsto> btree_remove k m)) = apply_op (mem_contents s) (OpDelete cf k)"
    using assms(2) by (auto simp: mem_contents_def btree_insert_lookup btree_remove_lookup)
qed

lemma mem_write_spec:
  "mem_opened s \<Longrightarrow> \<exists>s'. mem_write s ops = (Ok (), s') \<and> mem_opened s' \<and>
     mem_contents s' = foldl apply_op (mem_contents s) ops"
proof (induction s ops rule: mem_write.induct)
  case (2 s cf key val ops)
  obtain m where m: "s cf = Some m" using 2(2) unfolding mem_opened_def by blast
  from mem_update [OF 2(2) m] 2(1) [OF m] m show ?case by (simp add: fun_upd_def)
next
  case (3 s cf key ops)
  obtain m where m: "s cf = Some m" using 3(2) unfolding mem_opened_def by blast
  from mem_update [OF 3(2) m] 3(1) [OF m] m show ?case by (simp add: fun_upd_def)
qed simp

interpretation mem: kv_store MemoryBackend mem_opened mem_contents
proof
  fix s cf k v ops pre
  assume s: "mem_opened s"
  then obtain m where m: "s cf = Some m" "btree_ok m" by (auto simp: mem_opened_def)
  show "kv_get MemoryBackend s cf k = Ok (mem_contents s cf k)"
    using m by (simp add: MemoryBackend_def mem_get_def mem_contents_def)
  show "\<exists>b'. kv_put MemoryBackend s cf k v = (Ok (), b') \<and> mem_opened b' \<and>
      mem_contents b' = apply_op (mem_contents s) (OpPut cf k v)"
    using mem_update(1,3) [OF s m(1)] m by (simp add: MemoryBackend_def mem_put_def)
  show "\<exists>b'. kv_delete MemoryBackend s cf k = (Ok (), b') \<and> mem_opened b' \<and>
      mem_contents b' = apply_op (mem_contents s) (OpDelete cf k)"
    using mem_update(2,4) [OF s m(1)] m by (simp add: MemoryBackend_def mem_delete_def)
  show "\<exists>b'. kv_write MemoryBackend s ops = (Ok (), b') \<and> mem_opened b' \<and>
      mem_contents b' = foldl apply_op (mem_contents s) ops"
    using mem_write_spec [OF s] by (simp add: MemoryBackend_def)
  show "mem_opened (kv_snapshot MemoryBackend s) \<and> mem_contents (kv_snapshot MemoryBackend s) = mem_contents s"
    using s by (simp add: MemoryBackend_def mem_snapshot_def)
  show "\<exists>l. kv_iter MemoryBackend s cf = map Ok l \<and> btree_ok l \<and> map_of l = mem_contents s cf"
    using m by (intro exI [of _ m]) (simp add: MemoryBackend_def mem_iter_def mem_contents_def)
  let ?l = "filter (\<lambda>p. starts_with pre (fst p)) m"
  have "btree_ok ?l" using m(2) by (auto simp: btree_ok_def sorted_filter distinct_map_filter)
  moreover have "kv_iter_prefix MemoryBackend s cf pre = map Ok ?l"
    using m prefix_range [of m pre] by (simp add: MemoryBackend_def mem_iter_prefix_def btree_ok_def)
  moreover have "map_of ?l = (\<lambda>k. if starts_with pre k then mem_contents s cf k else None)"
    using m(1) by (auto simp: map_of_filter_keys mem_contents_def)
  ultimately show "\<exists>l. kv_iter_prefix MemoryBackend s cf pre = map Ok l \<and> btree_ok l \<and>
      map_of l = (\<lambda>k. if starts_with pre k then mem_contents s cf k else None)" by blast
qed

subsection \<open>Properties\<close>

text \<open>Calls of the mutating methods, one after the other.\<close>

datatype kv_call = CallPut column_family "byte list" "byte list" | CallDelete column_family "byte list" | CallWrite write_batch

primrec mem_call :: "store \<Rightarrow> kv_call \<Rightarrow> (storage_error, unit) result \<times> store" where
  "mem_call s (CallPut cf k v) = mem_put s cf k v"
| "mem_call s (CallDelete cf k) = mem_delete s cf k"
| "mem_call s (CallWrite ops) = mem_write s ops"

primrec mem_calls :: "store \<Rightarrow> kv_call list \<Rightarrow> (storage_error, unit) result list \<times> store" where
  "mem_calls s [] = ([], s)"
| "mem_calls s (c # cs) = (let (r, s') = mem_call s c; (rs, s'') = mem_calls s' cs in (r # rs, s''))"

primrec call_ops :: "kv_call \<Rightarrow> batch_op list" where
  "call_ops (CallPut cf k v) = [OpPut cf k v]"
| "call_ops (CallDelete cf k) = [OpDelete cf k]"
| "call_ops (CallWrite ops) = ops"

lemma mem_call_spec:
  assumes "mem_opened s"
  shows "\<exists>s'. mem_call s c = (Ok (), s') \<and> mem_opened s' \<and> mem_contents s' = foldl apply_op (mem_contents s) (call_ops c)"
proof (cases c)
  case (CallPut cf k v)
  then show ?thesis using mem.put_spec [OF assms, of cf k v] by (simp add: MemoryBackend_def)
next
  case (CallDelete cf k)
  then show ?thesis using mem.delete_spec [OF assms, of cf k] by (simp add: MemoryBackend_def)
next
  case (CallWrite ops)
  then show ?thesis using mem.write_spec [OF assms, of ops] by (simp add: MemoryBackend_def)
qed

lemma mem_calls_spec:
  "mem_opened s \<Longrightarrow> \<exists>s'. mem_calls s cs = (replicate (length cs) (Ok ()), s') \<and> mem_opened s' \<and>
     mem_contents s' = foldl apply_op (mem_contents s) (concat (map call_ops cs))"
proof (induction cs arbitrary: s)
  case (Cons c cs)
  from mem_call_spec [OF Cons.prems, of c] obtain s' where s': "mem_call s c = (Ok (), s')" "mem_opened s'"
      "mem_contents s' = foldl apply_op (mem_contents s) (call_ops c)" by blast
  from Cons.IH [OF s'(2)] s' show ?case by auto
qed simp

text \<open>
  (C27) The memory backend implements a map per column family: run any sequence of calls of \<open>put\<close>, \<open>delete\<close> and \<open>write\<close> (with
  any batch), one after the other, on a fresh backend. Every call succeeds; afterwards reading a key gives exactly what
  the puts and deletes leave there when applied in order to empty maps, iterating a column family lists its entries in
  ascending key order without repetition, and a prefix scan lists exactly the entries whose key starts with the prefix.
\<close>

theorem memory_backend_refines_maps:
  "\<exists>s m p. mem_calls MemoryBackend_new calls = (replicate (length calls) (Ok ()), s) \<and>
     (let M = foldl apply_op (\<lambda>_. Map.empty) (concat (map call_ops calls))
      in mem_get s cf k = Ok (M cf k) \<and>
         mem_iter s cf = map Ok m \<and> sorted (map fst m) \<and> distinct (map fst m) \<and> map_of m = M cf \<and>
         mem_iter_prefix s cf pre = map Ok p \<and> sorted (map fst p) \<and> distinct (map fst p) \<and>
         map_of p = (\<lambda>k. if starts_with pre k then M cf k else None))"
proof -
  obtain s where s: "mem_calls MemoryBackend_new calls = (replicate (length calls) (Ok ()), s)" "mem_opened s"
      "mem_contents s = foldl apply_op (\<lambda>_. Map.empty) (concat (map call_ops calls))"
    using mem_calls_spec [OF mem_new_opened, of calls] mem_new_contents by auto
  obtain m where m: "mem_iter s cf = map Ok m" "btree_ok m" "map_of m = mem_contents s cf"
    using mem.iter_spec [OF s(2), of cf] by (auto simp: MemoryBackend_def)
  obtain p where p: "mem_iter_prefix s cf pre = map Ok p" "btree_ok p"
      "map_of p = (\<lambda>k. if starts_with pre k then mem_contents s cf k else None)"
    using mem.iter_prefix_spec [OF s(2), of cf pre] by (auto simp: MemoryBackend_def)
  show ?thesis
    using s(1) m p mem.get_spec [OF s(2), of cf k] unfolding s(3) Let_def
    by (intro exI [of _ s] exI [of _ m] exI [of _ p]) (simp add: MemoryBackend_def btree_ok_def)
qed

end
