(* ===== verification/WorldState.thy ===== *)
theory WorldState
  imports TrieRoot Storage
begin

section \<open>Accounts and the world state\<close>

text \<open>
  \<open>aii-state\<close>: the account record with its RLP codec (\<open>account.rs\<close>), and \<open>StateDb\<close> (\<open>db.rs\<close>), which keeps
  accounts, code and storage slots in a \<open>KvBackend\<close>. \<open>StateDb\<close> is generic in the backend: its operations
  take the record of the backend's operations, and their lemmas are proved in the backend's contract
  \<open>kv_store\<close> and then used for the memory backend.
\<close>

subsection \<open>account.rs\<close>

definition EMPTY_CODE_HASH :: h256 where
  "EMPTY_CODE_HASH = 0xc5d2460186f7233c927e7db2dcc703c0e500b653ca82273b7bfad8045d85a470"

record account =
  acc_nonce :: u64
  balance :: u256
  storage_root :: h256
  code_hash :: h256

definition Account_EMPTY :: account where
  "Account_EMPTY = \<lparr>acc_nonce = 0, balance = 0, storage_root = EMPTY_TRIE_HASH, code_hash = EMPTY_CODE_HASH\<rparr>"

definition is_eoa :: "account \<Rightarrow> bool" where
  "is_eoa a \<longleftrightarrow> code_hash a = EMPTY_CODE_HASH"

definition Account_payload :: "rlp \<Rightarrow> account \<Rightarrow> nat" where
  "Account_payload R a =
     len_u64 R (acc_nonce a) + u256_length R (balance a) + len_h256 R (storage_root a) + len_h256 R (code_hash a)"

definition Account_encode :: "rlp \<Rightarrow> account \<Rightarrow> byte list" where
  "Account_encode R a =
     enc_list_header R (Account_payload R a) @ enc_u64 R (acc_nonce a) @ encode_u256 R (balance a) @
     enc_h256 R (storage_root a) @ enc_h256 R (code_hash a)"

definition Account_length :: "rlp \<Rightarrow> account \<Rightarrow> nat" where
  "Account_length R a = length_of_length R (Account_payload R a) + Account_payload R a"

definition Account_decode :: "rlp \<Rightarrow> account decoder" where
  "Account_decode R =
     decode_then (dec_header R) (\<lambda>(list, _).
     if \<not> list then fail_with UnexpectedString
     else
       decode_then (dec_u64 R) (\<lambda>n.
       decode_then (decode_u256 R) (\<lambda>bal.
       decode_then (dec_h256 R) (\<lambda>sroot.
       decode_then (dec_h256 R) (\<lambda>chash.
         return_value \<lparr>acc_nonce = n, balance = bal, storage_root = sroot, code_hash = chash\<rparr>)))))"

definition Account_hash :: "crypto \<Rightarrow> rlp \<Rightarrow> account \<Rightarrow> h256" where
  "Account_hash C R a = keccak256 C (Account_encode R a)"

subsection \<open>db.rs\<close>

text \<open>The text of a \<open>Decode\<close> error is kept as the length it reports.\<close>

datatype state_error = Storage storage_error | Rlp rlp_error | Decode nat

definition state_key :: "crypto \<Rightarrow> address \<Rightarrow> byte list" where
  "state_key C a = h256_bytes (keccak256 C (address_bytes a))"

definition storage_key :: "address \<Rightarrow> h256 \<Rightarrow> byte list" where
  "storage_key a s = address_bytes a @ h256_bytes s"

definition db_account ::
    "'b kv_backend \<Rightarrow> crypto \<Rightarrow> rlp \<Rightarrow> 'b \<Rightarrow> address \<Rightarrow> (state_error, account option) result" where
  "db_account K C R b a =
     (case map_err Storage (kv_get K b State (state_key C a)) of
        Err e \<Rightarrow> Err e
      | Panic \<Rightarrow> Panic
      | Ok None \<Rightarrow> Ok None
      | Ok (Some bytes) \<Rightarrow>
          and_then (map_err Rlp (Account_decode R bytes)) (\<lambda>(acc, _). Ok (Some acc)))"

definition set_account ::
    "'b kv_backend \<Rightarrow> crypto \<Rightarrow> rlp \<Rightarrow> 'b \<Rightarrow> address \<Rightarrow> account \<Rightarrow> (state_error, unit) result \<times> 'b" where
  "set_account K C R b a acc =
     (let (r, b') = kv_put K b State (state_key C a) (Account_encode R acc) in (map_err Storage r, b'))"

definition remove_account ::
    "'b kv_backend \<Rightarrow> crypto \<Rightarrow> 'b \<Rightarrow> address \<Rightarrow> (state_error, unit) result \<times> 'b" where
  "remove_account K C b a = (let (r, b') = kv_delete K b State (state_key C a) in (map_err Storage r, b'))"

definition code_get :: "'b kv_backend \<Rightarrow> 'b \<Rightarrow> h256 \<Rightarrow> (state_error, byte list option) result" where
  "code_get K b h = map_err Storage (kv_get K b Code (h256_bytes h))"

definition code_put ::
    "'b kv_backend \<Rightarrow> 'b \<Rightarrow> h256 \<Rightarrow> byte list \<Rightarrow> (state_error, unit) result \<times> 'b" where
  "code_put K b h bytes = (let (r, b') = kv_put K b Code (h256_bytes h) bytes in (map_err Storage r, b'))"

definition storage_get :: "'b kv_backend \<Rightarrow> 'b \<Rightarrow> address \<Rightarrow> h256 \<Rightarrow> (state_error, h256) result" where
  "storage_get K b a slot =
     (case map_err Storage (kv_get K b AccountStorage (storage_key a slot)) of
        Err e \<Rightarrow> Err e
      | Panic \<Rightarrow> Panic
      | Ok None \<Rightarrow> Ok 0
      | Ok (Some v) \<Rightarrow>
          if length v = 32 then Ok (from_be_bytes v)
          else Err (Decode (length v)))"

definition storage_put ::
    "'b kv_backend \<Rightarrow> 'b \<Rightarrow> address \<Rightarrow> h256 \<Rightarrow> h256 \<Rightarrow> (state_error, unit) result \<times> 'b" where
  "storage_put K b a slot v =
     (let (r, b') =
        (if v = 0 then kv_delete K b AccountStorage (storage_key a slot)
         else kv_put K b AccountStorage (storage_key a slot) (h256_bytes v))
      in (map_err Storage r, b'))"

text \<open>The loop of \<open>state_root\<close>: decode each entry and encode it again.\<close>

fun root_pairs :: "rlp \<Rightarrow> kv_item list \<Rightarrow> (state_error, kv list) result" where
  "root_pairs R [] = Ok []"
| "root_pairs R (item # items) =
     and_then (map_err Storage item) (\<lambda>(k, v).
     and_then (map_err Rlp (Account_decode R v)) (\<lambda>(acc, _).
     and_then (root_pairs R items) (\<lambda>ps. Ok ((k, Account_encode R acc) # ps))))"

definition db_state_root :: "'b kv_backend \<Rightarrow> crypto \<Rightarrow> rlp \<Rightarrow> 'b \<Rightarrow> (state_error, h256) result" where
  "db_state_root K C R b =
     and_then (root_pairs R (kv_iter K b State)) (\<lambda>pairs. Ok (mpt_root C R pairs))"

subsection \<open>Round trip of accounts\<close>

lemma Account_payload_bound:
  assumes R: "rlp_encodes R"
  shows "Account_payload R a \<le> 200"
  using u64_upper [OF R, of "acc_nonce a"] field_upper(3) [OF R, of "balance a"]
    field_upper(1) [OF R, of "storage_root a"] field_upper(1) [OF R, of "code_hash a"]
  by (simp add: Account_payload_def rlp_length_simps [OF R])

lemma Account_length_encode: "rlp_encodes R \<Longrightarrow> length (Account_encode R a) = Account_length R a"
  by (simp add: Account_encode_def Account_length_def Account_payload_def rlp_length_simps)

lemma Account_length_bound: "rlp_encodes R \<Longrightarrow> length (Account_encode R a) \<le> 209"
  using Account_payload_bound [of R a] list_header_upper [of R "Account_payload R a"]
  by (simp add: Account_length_encode Account_length_def)

lemma Account_reads:
  assumes R: "rlp_encodes R"
  shows "reads (Account_decode R) (Account_encode R) a"
proof -
  have "Account_payload R a < 2 ^ 64" using Account_payload_bound [OF R, of a] by simp
  then show ?thesis
    unfolding reads_def Account_decode_def Account_encode_def
    by (simp add: Account_payload_def rlp_length_simps [OF R] rlp_header_read [OF R] rlp_reads [OF R])
qed

lemma Account_encode_nonempty: "rlp_encodes R \<Longrightarrow> Account_encode R a \<noteq> []"
  using list_header_first [of R "Account_payload R a"] by (auto simp: Account_encode_def)

lemma Account_decode_encode: "rlp_encodes R \<Longrightarrow> Account_decode R (Account_encode R a) = Ok (a, [])"
  using Account_reads [of R a] unfolding reads_def by (metis append_Nil2)

interpretation account_rlp: stream_codec rlp_encodes "\<lambda>_ _. True" Account_encode Account_decode
  by unfold_locales (rule Account_reads)

lemma storage_key_inject: "storage_key a s = storage_key a' s' \<longleftrightarrow> a = a' \<and> s = s'"
proof
  assume "storage_key a s = storage_key a' s'"
  then have "address_bytes a = address_bytes a'" "h256_bytes s = h256_bytes s'"
    by (auto simp: storage_key_def)
  then have "(from_be_bytes (address_bytes a) :: address) = from_be_bytes (address_bytes a')"
      "(from_be_bytes (h256_bytes s) :: h256) = from_be_bytes (h256_bytes s')" by simp_all
  then show "a = a' \<and> s = s'" by simp
qed simp

subsection \<open>StateDb over any backend that keeps the contract\<close>

text \<open>The entries of the state column are encoded accounts.\<close>

definition world_ok :: "rlp \<Rightarrow> contents \<Rightarrow> bool" where
  "world_ok R m \<longleftrightarrow> (\<forall>k v. m State k = Some v \<longrightarrow> (\<exists>acc. v = Account_encode R acc))"

lemma root_pairs_encoded:
  assumes R: "rlp_encodes R" and "\<forall>p \<in> set m. \<exists>acc. snd p = Account_encode R acc"
  shows "root_pairs R (map Ok m) = Ok m"
  using assms(2)
proof (induction m)
  case (Cons p m)
  then obtain k acc where "p = (k, Account_encode R acc)" by (cases p) auto
  with Cons show ?case by (simp add: Account_decode_encode [OF R])
qed simp

context kv_store
begin

lemma set_account_effect:
  "opened b \<Longrightarrow> \<exists>b'. set_account K C R b a acc = (Ok (), b') \<and> opened b' \<and>
     contents b' = apply_op (contents b) (OpPut State (state_key C a) (Account_encode R acc))"
  using put_spec [of b State "state_key C a" "Account_encode R acc"] by (auto simp: set_account_def)

lemma remove_account_effect:
  "opened b \<Longrightarrow> \<exists>b'. remove_account K C b a = (Ok (), b') \<and> opened b' \<and>
     contents b' = apply_op (contents b) (OpDelete State (state_key C a))"
  using delete_spec [of b State "state_key C a"] by (auto simp: remove_account_def)

lemma storage_put_effect:
  "opened b \<Longrightarrow> \<exists>b'. storage_put K b a slot v = (Ok (), b') \<and> opened b' \<and>
     contents b' = apply_op (contents b)
       (if v = 0 then OpDelete AccountStorage (storage_key a slot)
        else OpPut AccountStorage (storage_key a slot) (h256_bytes v))"
  using put_spec [of b AccountStorage "storage_key a slot" "h256_bytes v"]
    delete_spec [of b AccountStorage "storage_key a slot"] by (auto simp: storage_put_def)

lemma account_spec:
  "opened b \<Longrightarrow> db_account K C R b a =
     (case contents b State (state_key C a) of
        None \<Rightarrow> Ok None
      | Some bytes \<Rightarrow> and_then (map_err Rlp (Account_decode R bytes)) (\<lambda>(acc, _). Ok (Some acc)))"
  by (simp add: db_account_def get_spec split: option.split)

lemma storage_spec:
  "opened b \<Longrightarrow> storage_get K b a slot =
     (case contents b AccountStorage (storage_key a slot) of
        None \<Rightarrow> Ok 0
      | Some v \<Rightarrow> if length v = 32 then Ok (from_be_bytes v) else Err (Decode (length v)))"
  by (simp add: storage_get_def get_spec split: option.split)

lemma account_after_set:
  assumes R: "rlp_encodes R" and b: "opened b"
  shows "db_account K C R (snd (set_account K C R b a acc)) a' =
    (if state_key C a' = state_key C a then Ok (Some acc) else db_account K C R b a')"
proof -
  obtain b' where "set_account K C R b a acc = (Ok (), b')" "opened b'"
    "contents b' = apply_op (contents b) (OpPut State (state_key C a) (Account_encode R acc))"
    using set_account_effect [OF b] by blast
  then show ?thesis by (simp add: account_spec b Account_decode_encode [OF R])
qed

lemma account_after_remove:
  assumes b: "opened b"
  shows "db_account K C R (snd (remove_account K C b a)) a' =
    (if state_key C a' = state_key C a then Ok None else db_account K C R b a')"
proof -
  obtain b' where "remove_account K C b a = (Ok (), b')" "opened b'"
    "contents b' = apply_op (contents b) (OpDelete State (state_key C a))"
    using remove_account_effect [OF b] by blast
  then show ?thesis by (simp add: account_spec b)
qed

lemma storage_after_put:
  assumes b: "opened b"
  shows "storage_get K (snd (storage_put K b a slot v)) a' slot' =
    (if a' = a \<and> slot' = slot then Ok v else storage_get K b a' slot')"
proof -
  obtain b' where "storage_put K b a slot v = (Ok (), b')" "opened b'"
    "contents b' = apply_op (contents b) (if v = 0 then OpDelete AccountStorage (storage_key a slot)
        else OpPut AccountStorage (storage_key a slot) (h256_bytes v))"
    using storage_put_effect [OF b] by blast
  then show ?thesis by (simp add: storage_spec b storage_key_inject)
qed

lemma storage_after_set:
  assumes b: "opened b"
  shows "storage_get K (snd (set_account K C R b a acc)) a' s = storage_get K b a' s"
proof -
  obtain b' where "set_account K C R b a acc = (Ok (), b')" "opened b'"
    "contents b' = apply_op (contents b) (OpPut State (state_key C a) (Account_encode R acc))"
    using set_account_effect [OF b] by blast
  then show ?thesis by (simp add: storage_spec b)
qed

lemma account_after_storage:
  assumes b: "opened b"
  shows "db_account K C R (snd (storage_put K b a s v)) a' = db_account K C R b a'"
proof -
  obtain b' where "storage_put K b a s v = (Ok (), b')" "opened b'"
    "contents b' = apply_op (contents b) (if v = 0 then OpDelete AccountStorage (storage_key a s)
        else OpPut AccountStorage (storage_key a s) (h256_bytes v))"
    using storage_put_effect [OF b] by blast
  then show ?thesis by (simp add: account_spec b)
qed

lemma code_put_effect:
  "opened b \<Longrightarrow> \<exists>b'. code_put K b h bytes = (Ok (), b') \<and> opened b' \<and>
     contents b' = apply_op (contents b) (OpPut Code (h256_bytes h) bytes)"
  using put_spec [of b Code "h256_bytes h" bytes] by (auto simp: code_put_def)

lemma code_spec: "opened b \<Longrightarrow> code_get K b h = Ok (contents b Code (h256_bytes h))"
  by (simp add: code_get_def get_spec)

text \<open>Each read depends on its own column family.\<close>

lemma reads_frame:
  assumes "opened b" and "opened b'"
  shows "contents b' State = contents b State \<Longrightarrow> db_account K C R b' a = db_account K C R b a"
    and "contents b' AccountStorage = contents b AccountStorage \<Longrightarrow> storage_get K b' a slot = storage_get K b a slot"
    and "contents b' Code = contents b Code \<Longrightarrow> code_get K b' h = code_get K b h"
  using assms by (simp_all add: account_spec storage_spec code_spec)

lemma code_after_put:
  assumes b: "opened b"
  shows "code_get K (snd (code_put K b h bytes)) h' = (if h' = h then Ok (Some bytes) else code_get K b h')"
proof -
  obtain b' where "code_put K b h bytes = (Ok (), b')" "opened b'"
    "contents b' = apply_op (contents b) (OpPut Code (h256_bytes h) bytes)"
    using code_put_effect [OF b] by blast
  then show ?thesis by (auto simp: code_spec b h256_bytes_inject)
qed

lemma statedb_frames:
  assumes b: "opened b"
  shows "storage_get K (snd (remove_account K C b a)) a' s = storage_get K b a' s"
    "code_get K (snd (set_account K C R b a acc)) h = code_get K b h"
    "code_get K (snd (remove_account K C b a)) h = code_get K b h"
    "code_get K (snd (storage_put K b a s v)) h = code_get K b h"
    "db_account K C R (snd (code_put K b h bytes)) a = db_account K C R b a"
    "storage_get K (snd (code_put K b h bytes)) a s = storage_get K b a s"
  using set_account_effect [OF b, of C R a acc] remove_account_effect [OF b, of C a] storage_put_effect [OF b, of a s v]
    code_put_effect [OF b, of h bytes] reads_frame [OF b] by auto

lemma state_root_spec:
  assumes R: "rlp_encodes R" and m: "kv_iter K b State = map Ok m" "btree_ok m" "map_of m = contents b State"
    and w: "world_ok R (contents b)"
  shows "db_state_root K C R b = Ok (mpt_root C R m) \<and> items_ok m"
proof -
  have enc: "\<exists>acc. snd p = Account_encode R acc" if "p \<in> set m" for p
  proof -
    have "map_of m (fst p) = Some (snd p)" using m(2) that by (simp add: btree_ok_def)
    with w m(3) show ?thesis by (simp add: world_ok_def)
  qed
  then have "\<forall>p \<in> set m. snd p \<noteq> []" using Account_encode_nonempty [OF R] by metis
  then have "items_ok m" using m(2) by (simp add: items_ok_def btree_ok_def)
  then show ?thesis
    using root_pairs_encoded [OF R, of m] enc m(1) by (simp add: db_state_root_def)
qed

end

lemma mem_state_root:
  assumes R: "rlp_encodes R" and s: "mem_opened s" "world_ok R (mem_contents s)" and m: "s State = Some m"
  shows "db_state_root MemoryBackend C R s = Ok (mpt_root C R m)" and "items_ok m"
    and "map_of m = mem_contents s State"
proof -
  have ok: "btree_ok m" using s(1) m by (metis mem_opened_def option.inject)
  show c: "map_of m = mem_contents s State" using m by (simp add: mem_contents_def)
  have "kv_iter MemoryBackend s State = map Ok m" using m by (simp add: MemoryBackend_def mem_iter_def)
  from mem.state_root_spec [OF R this ok c s(2)]
  show "db_state_root MemoryBackend C R s = Ok (mpt_root C R m)" "items_ok m" by simp_all
qed

definition demo_store :: "account \<Rightarrow> store" where
  "demo_store acc = snd (set_account MemoryBackend demo_crypto rlp_format MemoryBackend_new 5 acc)"

lemma demo_store_facts:
  "mem_opened (demo_store acc)" "world_ok rlp_format (mem_contents (demo_store acc))"
  "demo_store acc State = Some [(state_key demo_crypto 5, Account_encode rlp_format acc)]"
proof -
  obtain s where s: "set_account MemoryBackend demo_crypto rlp_format MemoryBackend_new 5 acc = (Ok (), s)"
      "mem_opened s" "mem_contents s = apply_op (mem_contents MemoryBackend_new)
        (OpPut State (state_key demo_crypto 5) (Account_encode rlp_format acc))"
    using mem.set_account_effect [OF mem_new_opened] by blast
  then show "mem_opened (demo_store acc)" "world_ok rlp_format (mem_contents (demo_store acc))"
    by (auto simp: demo_store_def world_ok_def mem_new_contents)
  have "MemoryBackend_new State = Some []" by (simp add: MemoryBackend_new_def ColumnFamily_ALL_def)
  then show "demo_store acc State = Some [(state_key demo_crypto 5, Account_encode rlp_format acc)]"
    by (simp add: demo_store_def set_account_def MemoryBackend_def mem_put_def)
qed

subsection \<open>Properties\<close>

text \<open>
  (C28) \<open>StateDb\<close> reads back what was written. On any open store that meets the contract of the storage trait, \<open>set_account\<close>,
  \<open>remove_account\<close>, \<open>storage_put\<close> and \<open>code_put\<close> return \<open>Ok\<close>. Afterwards an account read gives the account last set at that
  (hashed) address or none after a removal; a storage read gives the value last put in that slot of that address, where
  putting zero clears the slot and reads as zero; a code read gives the bytes last put under that hash. Reads at other hashed
  addresses, slots and hashes, and reads of the other two kinds, give what they gave before.
\<close>

theorem statedb_reads_last_write:
  assumes K: "kv_store K opened contents" and R: "rlp_encodes R" and b: "opened b"
    and "set_account K C R b a acc = (r1, b1)" and "remove_account K C b a = (r2, b2)"
    and "storage_put K b a slot v = (r3, b3)" and "code_put K b h bytes = (r4, b4)"
  shows "r1 = Ok () \<and> r2 = Ok () \<and> r3 = Ok () \<and> r4 = Ok () \<and>
    db_account K C R b1 a' = (if state_key C a' = state_key C a then Ok (Some acc) else db_account K C R b a') \<and>
    db_account K C R b2 a' = (if state_key C a' = state_key C a then Ok None else db_account K C R b a') \<and>
    db_account K C R b3 a' = db_account K C R b a' \<and> db_account K C R b4 a' = db_account K C R b a' \<and>
    storage_get K b3 a' slot' = (if a' = a \<and> slot' = slot then Ok v else storage_get K b a' slot') \<and>
    storage_get K b1 a' slot' = storage_get K b a' slot' \<and> storage_get K b2 a' slot' = storage_get K b a' slot' \<and>
    storage_get K b4 a' slot' = storage_get K b a' slot' \<and>
    code_get K b4 h' = (if h' = h then Ok (Some bytes) else code_get K b h') \<and>
    code_get K b1 h' = code_get K b h' \<and> code_get K b2 h' = code_get K b h' \<and> code_get K b3 h' = code_get K b h'"
proof -
  have ok: "r1 = Ok ()" "r2 = Ok ()" "r3 = Ok ()" "r4 = Ok ()"
    using kv_store.set_account_effect [OF K b, of C R a acc] kv_store.remove_account_effect [OF K b, of C a]
      kv_store.storage_put_effect [OF K b, of a slot v] kv_store.code_put_effect [OF K b, of h bytes] assms(4-7) by auto
  have snds: "b1 = snd (set_account K C R b a acc)" "b2 = snd (remove_account K C b a)" "b3 = snd (storage_put K b a slot v)"
      "b4 = snd (code_put K b h bytes)"
    using assms(4-7) by simp_all
  show ?thesis
    unfolding snds
    by (simp only: ok kv_store.account_after_set [OF K R b] kv_store.account_after_remove [OF K b] kv_store.storage_after_put [OF K b]
        kv_store.storage_after_set [OF K b] kv_store.account_after_storage [OF K b] kv_store.code_after_put [OF K b]
        kv_store.statedb_frames [OF K b] simp_thms)
qed

theorem statedb_reads_last_write_witness:
  "let a = Account_EMPTY\<lparr>balance := 9\<rparr>;
       b = snd (set_account MemoryBackend demo_crypto rlp_format MemoryBackend_new 5 a);
       b' = snd (storage_put MemoryBackend b 5 1 8);
       b'' = snd (code_put MemoryBackend b' 3 [0x60])
   in fst (set_account MemoryBackend demo_crypto rlp_format MemoryBackend_new 5 a) = Ok () \<and>
      db_account MemoryBackend demo_crypto rlp_format b'' 5 = Ok (Some a) \<and>
      storage_get MemoryBackend b'' 5 1 = Ok 8 \<and> code_get MemoryBackend b'' 3 = Ok (Some [0x60])"
proof -
  let ?a = "Account_EMPTY\<lparr>balance := 9\<rparr>"
  let ?b = "snd (set_account MemoryBackend demo_crypto rlp_format MemoryBackend_new 5 ?a)"
  let ?b' = "snd (storage_put MemoryBackend ?b 5 1 8)"
  have open1: "mem_opened ?b" using mem.set_account_effect [OF mem_new_opened] by (metis snd_conv)
  have open2: "mem_opened ?b'" using mem.storage_put_effect [OF open1] by (metis snd_conv)
  note read = statedb_reads_last_write [OF mem.kv_store_axioms rlp_format_encodes _ surjective_pairing surjective_pairing surjective_pairing surjective_pairing]
  show ?thesis
    unfolding Let_def
    using read [OF mem_new_opened, of demo_crypto 5 ?a 0 0 0 "[]" 5 0 0] read [OF open1, of demo_crypto 5 ?a 1 8 0 "[]" 5 1 0]
      read [OF open2, of demo_crypto 5 ?a 0 0 3 "[0x60]" 5 1 3] by simp
qed

text \<open>
  (C29) The state root commits to the accounts: for two stores of encoded accounts, \<open>state_root\<close>
  succeeds on both, and the two roots are equal if and only if the stores hold the same accounts
  under the same keys, however the writes were ordered, as long as Keccak-256 does not collide on the
  trie nodes.
\<close>

theorem state_root_binds:
  assumes "rlp_encodes R" and "mem_opened s" and "mem_opened s'"
    and "world_ok R (mem_contents s)" and "world_ok R (mem_contents s')"
    and "s State = Some m" and "trie_fits C R m" and "s' State = Some m'" and "trie_fits C R m'"
    and "EMPTY_TRIE_HASH = keccak256 C [0x80]"
    and "inj_on (keccak256 C) ({[0x80]} \<union> node_encs C R (items_trie m) \<union> node_encs C R (items_trie m'))"
  shows "\<exists>r r'. db_state_root MemoryBackend C R s = Ok r \<and> db_state_root MemoryBackend C R s' = Ok r' \<and>
    (r = r' \<longleftrightarrow> mem_contents s State = mem_contents s' State)"
proof -
  note left = mem_state_root [OF assms(1,2,4,6)]
  note right = mem_state_root [OF assms(1,3,5,8)]
  have "mpt_root C R m = mpt_root C R m' \<longleftrightarrow> set m = set m'"
    by (rule mpt_root_eq_iff [OF assms(1) left(2) right(2) assms(7,9-11)])
  also have "\<dots> \<longleftrightarrow> mem_contents s State = mem_contents s' State"
    unfolding left(3) [symmetric] right(3) [symmetric]
    using left(2) right(2) map_of_inject_set [of m m'] by (simp add: items_ok_def)
  finally show ?thesis using left(1) right(1) by blast
qed

theorem state_root_binds_witness:
  "let C = demo_hash (rlp_leaf_or_extension rlp_format (key_to_nibbles (state_key demo_crypto 5))
         (Account_encode rlp_format Account_EMPTY) True)
   in db_state_root MemoryBackend C rlp_format (demo_store Account_EMPTY) \<noteq>
      db_state_root MemoryBackend C rlp_format (demo_store (Account_EMPTY\<lparr>balance := 7\<rparr>))"
proof -
  let ?v = "Account_encode rlp_format"
  let ?k = "state_key demo_crypto 5"
  let ?a = Account_EMPTY and ?a' = "Account_EMPTY\<lparr>balance := 7\<rparr>"
  let ?C = "demo_hash (rlp_leaf_or_extension rlp_format (key_to_nibbles ?k) (?v ?a) True)"
  note R = rlp_format_encodes and facts = demo_store_facts
  have fits: "trie_fits ?C rlp_format [(?k, ?v acc)]" for acc
    using Account_length_bound [OF R, of acc] by (intro leaf_fits [OF R]) (simp_all add: state_key_def)
  have empty: "EMPTY_TRIE_HASH = keccak256 ?C [0x80]" by (simp add: demo_hash_empty)
  have "?a \<noteq> ?a'" by (simp add: Account_EMPTY_def)
  then have "?v ?a \<noteq> ?v ?a'" using account_rlp.enc_inject [OF R] by blast
  then have differ: "mem_contents (demo_store ?a) State \<noteq> mem_contents (demo_store ?a') State"
    using facts(3) [of ?a] facts(3) [of ?a'] by (auto simp: mem_contents_def dest: fun_cong [of _ _ ?k])
  from state_root_binds [OF R facts(1) facts(1) facts(2) facts(2) facts(3) fits facts(3) fits empty leaf_hash_inj]
  obtain r r' where "db_state_root MemoryBackend ?C rlp_format (demo_store ?a) = Ok r"
    "db_state_root MemoryBackend ?C rlp_format (demo_store ?a') = Ok r'"
    "r = r' \<longleftrightarrow> mem_contents (demo_store ?a) State = mem_contents (demo_store ?a') State" by blast
  with differ show ?thesis by (simp add: Let_def)
qed

end
