(* ===== verification/Genesis.thy ===== *)
theory Genesis
  imports Validators WorldState
begin

section \<open>Chain parameters and genesis\<close>

text \<open>
  \<open>aii-config/src/chain_spec.rs\<close> and \<open>genesis.rs\<close>: the parameters of a chain, their validation, the
  block subsidy and the genesis header. Reading the files as JSON is serde's and is not modelled. The
  property of this theory is that the halving schedule bounds the money ever minted.
\<close>

subsection \<open>chain_spec.rs\<close>

definition AII_CHAIN_ID :: u64 where
  "AII_CHAIN_ID = 99"

definition AII_TESTNET_CHAIN_ID :: u64 where
  "AII_TESTNET_CHAIN_ID = 9999"

definition MAX_ACTIVE_VALIDATORS :: u32 where
  "MAX_ACTIVE_VALIDATORS = 128"

record chain_spec =
  spec_chain_id :: u64
  network :: string
  block_time_seconds :: u64
  initial_gas_limit :: u64
  min_base_fee_per_gas :: u64
  block_reward_initial_wei :: u128
  block_reward_halving_interval :: u64
  unbonding_period_blocks :: u64
  min_validator_stake_wei :: u128
  epoch_length_blocks :: u64
  validators_per_epoch :: u32

definition default_epoch_length :: u64 where
  "default_epoch_length = 4800"

definition default_validators_per_epoch :: u32 where
  "default_validators_per_epoch = 21"

definition default_unbonding_period :: u64 where
  "default_unbonding_period = 100800"

definition default_min_validator_stake :: u128 where
  "default_min_validator_stake = 100000000000000000000"

definition default_block_reward :: u128 where
  "default_block_reward = 2000000000000000000"

definition default_halving_interval :: u64 where
  "default_halving_interval = 42048000"

definition block_reward_at :: "chain_spec \<Rightarrow> u64 \<Rightarrow> u128" where
  "block_reward_at s n =
     (if block_reward_halving_interval s = 0 \<or> block_reward_halving_interval s = max_word_val
      then block_reward_initial_wei s
      else let halvings = n div block_reward_halving_interval s in
        if 128 \<le> halvings then 0 else shr (block_reward_initial_wei s) (unat halvings))"

definition spec_validate :: "chain_spec \<Rightarrow> (string, unit) result" where
  "spec_validate s =
     (if spec_chain_id s = 0 then Err ''chain_id must be > 0''
      else if block_time_seconds s = 0 then Err ''block_time_seconds must be > 0''
      else if 30 < block_time_seconds s then Err ''block_time_seconds must be <= 30''
      else if initial_gas_limit s < 5000000 then Err ''initial_gas_limit must be >= 5_000_000''
      else if epoch_length_blocks s = 0 then Err ''epoch_length_blocks must be > 0''
      else if validators_per_epoch s = 0 then Err ''validators_per_epoch must be > 0''
      else if MAX_ACTIVE_VALIDATORS < validators_per_epoch s
        then Err ''validators_per_epoch must be <= MAX_ACTIVE_VALIDATORS''
      else if min_validator_stake_wei s = 0 then Err ''min_validator_stake_wei must be > 0''
      else Ok ())"

definition AII_MAINNET :: chain_spec where
  "AII_MAINNET =
     \<lparr>spec_chain_id = AII_CHAIN_ID, network = [], block_time_seconds = 3,
      initial_gas_limit = 30000000, min_base_fee_per_gas = 1000000000,
      block_reward_initial_wei = 2000000000000000000, block_reward_halving_interval = 42048000,
      unbonding_period_blocks = 100800, min_validator_stake_wei = 100000000000000000000,
      epoch_length_blocks = 4800, validators_per_epoch = 21\<rparr>"

definition AII_TESTNET :: chain_spec where
  "AII_TESTNET =
     \<lparr>spec_chain_id = AII_TESTNET_CHAIN_ID, network = [], block_time_seconds = 3,
      initial_gas_limit = 30000000, min_base_fee_per_gas = 100000000,
      block_reward_initial_wei = 2000000000000000000, block_reward_halving_interval = 42048000,
      unbonding_period_blocks = 100800, min_validator_stake_wei = 100000000000000000000,
      epoch_length_blocks = 4800, validators_per_epoch = 21\<rparr>"

definition mainnet :: chain_spec where
  "mainnet = AII_MAINNET\<lparr>network := ''aii-mainnet''\<rparr>"

definition testnet :: chain_spec where
  "testnet = AII_TESTNET\<lparr>network := ''aii-testnet''\<rparr>"

subsection \<open>genesis.rs\<close>

record genesis_validator =
  gv_bls_pubkey :: "384 word"
  gv_vrf_pubkey :: "256 word"
  gv_stake :: u64

record genesis_alloc =
  ga_address :: address
  ga_balance :: u256
  ga_code_hash :: "h256 option"

definition to_account :: "genesis_alloc \<Rightarrow> account" where
  "to_account a =
     \<lparr>acc_nonce = 0, balance = ga_balance a, storage_root = EMPTY_TRIE_HASH,
      code_hash = (case ga_code_hash a of Some h \<Rightarrow> h | None \<Rightarrow> EMPTY_CODE_HASH)\<rparr>"

record genesis =
  gen_chain_spec :: chain_spec
  gen_timestamp :: u64
  gen_extra_data :: "byte list"
  gen_alloc :: "genesis_alloc list"
  gen_validators :: "genesis_validator list"
  gen_initial_seed :: h256

definition to_header :: "genesis \<Rightarrow> h256 \<Rightarrow> header" where
  "to_header g sroot =
     \<lparr>parent_hash = 0, ommers_hash = EMPTY_LIST_HASH, beneficiary = 0, state_root = sroot,
      transactions_root = EMPTY_TRIE_HASH, receipts_root = EMPTY_TRIE_HASH, logs_bloom = Bloom_ZERO,
      difficulty = 0, number = 0, header_gas_limit = initial_gas_limit (gen_chain_spec g), gas_used = 0,
      timestamp = gen_timestamp g, extra_data = gen_extra_data g, mix_hash = 0, header_nonce = 0,
      base_fee_per_gas = ucast (min_base_fee_per_gas (gen_chain_spec g)),
      withdrawals_root = EMPTY_TRIE_HASH, blob_gas_used = None, excess_blob_gas = None,
      parent_beacon_block_root = None\<rparr>"

subsection \<open>The subsidy\<close>

lemma mainnet_validates: "spec_validate mainnet = Ok ()" "spec_validate testnet = Ok ()"
  by (simp_all add: spec_validate_def mainnet_def testnet_def AII_MAINNET_def AII_TESTNET_def
      AII_CHAIN_ID_def AII_TESTNET_CHAIN_ID_def MAX_ACTIVE_VALIDATORS_def)

text \<open>The elected set of a valid specification fits the vote bitmaps of the BFT engine.\<close>

lemma validated_set_fits:
  "spec_validate s = Ok () \<Longrightarrow> unat (validators_per_epoch s) \<in> {1..MAX_VALIDATORS}"
  by (auto simp: spec_validate_def MAX_ACTIVE_VALIDATORS_def MAX_VALIDATORS_def word_le_nat_alt not_less
      Suc_le_eq unat_gt_0 split: if_splits)

definition halves :: "chain_spec \<Rightarrow> bool" where
  "halves s \<longleftrightarrow> block_reward_halving_interval s \<noteq> 0 \<and> block_reward_halving_interval s \<noteq> max_word_val"

lemma div_pow_large: "x < 2 ^ k \<Longrightarrow> k \<le> n \<Longrightarrow> x div 2 ^ n = (0 :: nat)"
  by (simp add: le_less_trans less_le_trans power_increasing)

lemma block_reward_unat:
  assumes "halves s"
  shows "unat (block_reward_at s n) =
     unat (block_reward_initial_wei s) div 2 ^ (unat n div unat (block_reward_halving_interval s))"
proof (cases "128 \<le> n div block_reward_halving_interval s")
  case True
  then have "128 \<le> unat n div unat (block_reward_halving_interval s)"
    by (simp add: word_le_nat_alt unat_div)
  then show ?thesis
    using assms True unat_less_pow [of "block_reward_initial_wei s"]
    by (simp add: block_reward_at_def halves_def Let_def div_pow_large [of _ 128])
next
  case False
  then have "unat (n div block_reward_halving_interval s) < 128"
    by (simp add: word_le_nat_alt not_le)
  then show ?thesis
    using assms False take_bit_nat_eq_self [OF unat_less_pow [of "block_reward_initial_wei s"]]
    by (simp add: block_reward_at_def halves_def Let_def shr_def unat_div unsigned_drop_bit_eq drop_bit_nat_def)
qed

lemma halved_sum: "(\<Sum>j<m. x div 2 ^ j) + 2 * (x div 2 ^ m) \<le> 2 * (x :: nat)"
proof (induction m)
  case (Suc m)
  have "x div 2 ^ Suc m = x div 2 ^ m div 2" by (simp add: div_mult2_eq power_Suc2 del: power_Suc)
  then have "2 * (x div 2 ^ Suc m) \<le> x div 2 ^ m" by simp
  with Suc show ?case by simp
qed simp

lemma sum_blocks_div:
  assumes "0 < (k :: nat)"
  shows "(\<Sum>n<m * k. f (n div k)) = k * (\<Sum>j<m. f j :: nat)"
proof -
  have "n div k = j" if "n \<in> {j * k..<j * k + k}" for n j
    using that by (intro div_nat_eqI) (simp_all add: mult.commute)
  then have "(\<Sum>n = j * k..<j * k + k. f (n div k)) = k * f j" for j by simp
  then show ?thesis
    using sum.nat_group [of "\<lambda>n. f (n div k)" k m] by (simp add: sum_distrib_left)
qed

subsection \<open>Properties\<close>

text \<open>
  The money supply is bounded. With halving switched on, the subsidies of any blocks from height 0 on add up
  to at most twice the initial subsidy times the halving interval; the sum is taken over the integers,
  so that nothing wraps.
\<close>

theorem minted_supply_is_bounded:
  assumes "block_reward_halving_interval s \<noteq> 0" and "block_reward_halving_interval s \<noteq> max_word_val"
    and "N \<le> 2 ^ 64"
  shows "(\<Sum>n<N. unat (block_reward_at s (word_of_nat n))) \<le>
    2 * unat (block_reward_initial_wei s) * unat (block_reward_halving_interval s)"
proof -
  let ?k = "unat (block_reward_halving_interval s)" and ?x = "unat (block_reward_initial_wei s)"
  have k: "0 < ?k" using assms(1) by (simp add: unat_gt_0)
  have reward: "unat (block_reward_at s (word_of_nat n)) = ?x div 2 ^ (n div ?k)" if "n < N" for n
  proof -
    have "unat (word_of_nat n :: u64) = n" using that assms(3) by (intro unat_word_of_nat_small) simp
    then show ?thesis using assms(1,2) by (subst block_reward_unat) (simp_all add: halves_def)
  qed
  have "(\<Sum>n<N. unat (block_reward_at s (word_of_nat n))) = (\<Sum>n<N. ?x div 2 ^ (n div ?k))"
    using reward by (intro sum.cong) auto
  also have "\<dots> \<le> (\<Sum>n<N * ?k. ?x div 2 ^ (n div ?k))"
    using k by (intro sum_mono2) auto
  also have "\<dots> = ?k * (\<Sum>j<N. ?x div 2 ^ j)" using sum_blocks_div [OF k, of "\<lambda>j. ?x div 2 ^ j" N] by simp
  also have "\<dots> \<le> ?k * (2 * ?x)" using halved_sum [of ?x N] by (intro mult_left_mono) simp_all
  finally show ?thesis by (simp add: mult_ac)
qed

theorem minted_supply_is_bounded_witness:
  "(\<Sum>n<100000000. unat (block_reward_at mainnet (word_of_nat n))) \<le> 2 * 2000000000000000000 * 42048000"
proof -
  have "block_reward_initial_wei mainnet = 2000000000000000000"
      "block_reward_halving_interval mainnet = 42048000"
    by (simp_all add: mainnet_def AII_MAINNET_def)
  then show ?thesis
    using minted_supply_is_bounded [of mainnet 100000000] by (simp add: max_word_val_def)
qed

end
