(* ===== verification/BftEngine.thy ===== *)
theory BftEngine
  imports Coordinator Consensus Genesis
begin

section \<open>The BFT chain engine\<close>

text \<open>
  \<open>aii-consensus-bft/src/engine.rs\<close>: the engine owns the chain head, the cross-height seed and, while
  a height is open, a round coordinator with the proposal it accepted. The record \<open>bft_engine\<close> is
  \<open>BftEngine\<close> together with the \<open>BftEngineState\<close> behind its mutex and the staged transactions; every
  method takes the lock for its whole body, so that one definition is one atomic step. A method
  returns its result and the engine after it. The entropy of a VRF proof is an argument.
\<close>

subsection \<open>Configuration and state\<close>

definition PLACEHOLDER_TX_GAS :: u64 where
  "PLACEHOLDER_TX_GAS = 21000"

record bft_config =
  cfg_validator_set :: validator_set
  cfg_my_index :: u32
  my_bls_sk :: bls_secret_key
  my_vrf_sk :: vrf_secret_key
  initial_seed :: h256
  cfg_coinbase :: address
  cfg_gas_limit :: u64
  cfg_base_fee_per_gas :: u256
  slot_seconds :: u64
  executor :: "block_executor option"

fun runtime_validators ::
    "crypto \<Rightarrow> nat \<Rightarrow> genesis_validator list \<Rightarrow> (bft_error, validator list) result" where
  "runtime_validators C i [] = Ok []"
| "runtime_validators C i (gv # gvs) =
     and_then (map_err (\<lambda>_. InvalidValidatorPubkey i ''bls'') (bls_pk_from_compressed C (gv_bls_pubkey gv))) (\<lambda>bls.
     and_then (map_err (\<lambda>_. InvalidValidatorPubkey i ''vrf'') (vrf_pk_from_bytes C (gv_vrf_pubkey gv))) (\<lambda>vrf.
     and_then (runtime_validators C (i + 1) gvs) (\<lambda>rest.
     Ok (\<lparr>bls_pubkey = bls, vrf_pubkey = vrf, stake = gv_stake gv\<rparr> # rest))))"

definition from_genesis ::
    "crypto \<Rightarrow> genesis \<Rightarrow> u32 \<Rightarrow> bls_secret_key \<Rightarrow> vrf_secret_key \<Rightarrow> address \<Rightarrow>
     (bft_error, bft_config) result" where
  "from_genesis C g idx bls_sk vrf_sk cb =
     (if gen_validators g = [] then Err EmptyValidatorSet
      else
        and_then (runtime_validators C 0 (gen_validators g)) (\<lambda>runtime.
        and_then (ValidatorSet_new runtime) (\<lambda>vs.
        if vs_size vs \<le> unat idx then Err (ValidatorIndexOutOfBounds idx (vs_size vs))
        else Ok \<lparr>cfg_validator_set = vs, cfg_my_index = idx, my_bls_sk = bls_sk, my_vrf_sk = vrf_sk,
                 initial_seed = gen_initial_seed g, cfg_coinbase = cb,
                 cfg_gas_limit = initial_gas_limit (gen_chain_spec g),
                 cfg_base_fee_per_gas = ucast (min_base_fee_per_gas (gen_chain_spec g)),
                 slot_seconds = block_time_seconds (gen_chain_spec g), executor = None\<rparr>)))"

record advance_output =
  ao_block :: block
  ao_block_hash :: h256
  ao_certificate :: certificate

record recent_committed_block =
  rb_block :: block
  rb_certificate :: certificate

type_synonym recent_cache = "(u64 \<times> recent_committed_block) list"

record bft_engine =
  config :: bft_config
  active_set :: validator_set
  my_index :: u32
  head_hash :: h256
  head_number :: u64
  head_timestamp :: u64
  engine_seed :: h256
  coordinator :: "round_coordinator option"
  proposal :: "(block \<times> leader_proof) option"
  detector :: equivocation_detector
  pending_evidence :: "equivocation_evidence list"
  pending_prevotes :: "vote list"
  pending_precommits :: "vote list"
  recent_blocks :: recent_cache
  pending_txs :: "tx list"

definition RECENT_BLOCKS_CAP :: nat where
  "RECENT_BLOCKS_CAP = 64"

fun evict_oldest :: "recent_cache \<Rightarrow> recent_cache" where
  "evict_oldest [] = []"
| "evict_oldest (x # m) = (if RECENT_BLOCKS_CAP < length (x # m) then evict_oldest m else x # m)"

definition cache_recent_block :: "recent_cache \<Rightarrow> block \<Rightarrow> certificate \<Rightarrow> recent_cache" where
  "cache_recent_block m b cert =
     evict_oldest (btree_insert (number (block_header b)) \<lparr>rb_block = b, rb_certificate = cert\<rparr> m)"

definition BftEngine_new :: "crypto \<Rightarrow> rlp \<Rightarrow> bft_config \<Rightarrow> block \<Rightarrow> bft_engine" where
  "BftEngine_new C R cfg genesis =
     \<lparr>config = cfg, active_set = cfg_validator_set cfg, my_index = cfg_my_index cfg,
      head_hash = Block_hash C R genesis, head_number = number (block_header genesis),
      head_timestamp = timestamp (block_header genesis), engine_seed = initial_seed cfg,
      coordinator = None, proposal = None, detector = EquivocationDetector_new,
      pending_evidence = [], pending_prevotes = [], pending_precommits = [], recent_blocks = [],
      pending_txs = []\<rparr>"

definition from_recovered :: "crypto \<Rightarrow> rlp \<Rightarrow> bft_config \<Rightarrow> block \<Rightarrow> bft_engine" where
  "from_recovered C R cfg blk =
     \<lparr>config = cfg, active_set = cfg_validator_set cfg, my_index = cfg_my_index cfg,
      head_hash = Block_hash C R blk, head_number = number (block_header blk),
      head_timestamp = timestamp (block_header blk),
      engine_seed = (if number (block_header blk) = 0 then initial_seed cfg else mix_hash (block_header blk)),
      coordinator = None, proposal = None, detector = EquivocationDetector_new,
      pending_evidence = [], pending_prevotes = [], pending_precommits = [], recent_blocks = [],
      pending_txs = []\<rparr>"

definition set_pending_txs :: "bft_engine \<Rightarrow> tx list \<Rightarrow> bft_engine" where
  "set_pending_txs e txs = e\<lparr>pending_txs := txs\<rparr>"

definition extend_pending_txs :: "bft_engine \<Rightarrow> tx list \<Rightarrow> bft_engine" where
  "extend_pending_txs e txs = (if txs = [] then e else e\<lparr>pending_txs := pending_txs e @ txs\<rparr>)"

definition pending_tx_count :: "bft_engine \<Rightarrow> nat" where
  "pending_tx_count e = length (pending_txs e)"

definition head :: "bft_engine \<Rightarrow> h256 \<times> u64" where
  "head e = (head_hash e, head_number e)"

definition is_single_validator :: "bft_engine \<Rightarrow> bool" where
  "is_single_validator e \<longleftrightarrow> vs_size (active_set e) = 1"

definition my_bls_pubkey :: "crypto \<Rightarrow> bft_engine \<Rightarrow> 384 word" where
  "my_bls_pubkey C e = bls_pk_to_compressed C (bls_public_key_of C (my_bls_sk (config e)))"

definition current_round_state :: "bft_engine \<Rightarrow> (u64 \<times> u32 \<times> phase) option" where
  "current_round_state e = map_option (\<lambda>c. (rc_height c, rc_round c, rc_phase c)) (coordinator e)"

definition current_leader_index :: "crypto \<Rightarrow> bft_engine \<Rightarrow> nat option" where
  "current_leader_index C e = map_option (leader_index C) (coordinator e)"

definition would_be_leader_next_height :: "crypto \<Rightarrow> bft_engine \<Rightarrow> bool" where
  "would_be_leader_next_height C e \<longleftrightarrow>
     select_leader C (active_set e) (saturating_add (head_number e) 1) 0 (engine_seed e) = unat (my_index e)"

definition fast_forward_to_round :: "bft_engine \<Rightarrow> u32 \<Rightarrow> (bft_error, unit) result \<times> bft_engine" where
  "fast_forward_to_round e target =
     (let next_height = head_number e + 1;
          fresh = e\<lparr>coordinator :=
            Some ((fire_timeout ^^ unat target) (RoundCoordinator_new next_height (engine_seed e) (active_set e)))\<rparr>
      in case coordinator e of
           Some existing \<Rightarrow> if rc_height existing \<noteq> next_height then (Err WrongHeight, e) else (Ok (), fresh)
         | None \<Rightarrow> (Ok (), fresh))"

definition rotate_validator_set ::
    "bft_engine \<Rightarrow> validator_set \<Rightarrow> u32 \<Rightarrow> (bft_error, unit) result \<times> bft_engine" where
  "rotate_validator_set e vs idx =
     (if vs_size vs \<le> unat idx then (Err (ValidatorIndexOutOfBounds idx (vs_size vs)), e)
      else if coordinator e \<noteq> None \<or> proposal e \<noteq> None then (Err ActiveRoundInProgress, e)
      else (Ok (), e\<lparr>pending_prevotes := [], pending_precommits := [], active_set := vs, my_index := idx\<rparr>))"

subsection \<open>Building blocks\<close>

definition post_roots ::
    "bft_config \<Rightarrow> block_body \<Rightarrow> address \<Rightarrow> u64 \<Rightarrow> h256 \<times> h256 \<times> bloom \<times> u64" where
  "post_roots cfg bdy cb hgt =
     (let placeholder = (EMPTY_TRIE_HASH, EMPTY_TRIE_HASH, Bloom_ZERO,
            word_of_nat (length (transactions bdy)) * PLACEHOLDER_TX_GAS)
      in case executor cfg of
           None \<Rightarrow> placeholder
         | Some ex \<Rightarrow>
             (case ex bdy cb hgt of
                Inl _ \<Rightarrow> placeholder
              | Inr r \<Rightarrow> (pr_state_root r, pr_receipts_root r, pr_logs_bloom r, pr_gas_used r)))"

definition build_block_with_body ::
    "crypto \<Rightarrow> rlp \<Rightarrow> bft_config \<Rightarrow> h256 \<Rightarrow> u64 \<Rightarrow> u64 \<Rightarrow> leader_proof \<Rightarrow> address \<Rightarrow> block_body \<Rightarrow> block" where
  "build_block_with_body C R cfg parent parent_ts hgt prf cb bdy =
     (let tx_root = transactions_root_of C R bdy;
          (sroot, rroot, blm, used) = post_roots cfg bdy cb hgt;
          hdr = \<lparr>parent_hash = parent, ommers_hash = EMPTY_LIST_HASH, beneficiary = cb,
                 state_root = sroot, transactions_root = tx_root, receipts_root = rroot,
                 logs_bloom = blm, difficulty = 0, number = hgt,
                 header_gas_limit = cfg_gas_limit cfg, gas_used = used,
                 timestamp = parent_ts + slot_seconds cfg, extra_data = ascii ''aii-bft'',
                 mix_hash = vrf_output prf, header_nonce = 0,
                 base_fee_per_gas = cfg_base_fee_per_gas cfg, withdrawals_root = EMPTY_TRIE_HASH,
                 blob_gas_used = None, excess_blob_gas = None, parent_beacon_block_root = None\<rparr>
      in \<lparr>block_header = hdr, body = bdy\<rparr>)"

definition reconstruct_proposed_block_with_body ::
    "crypto \<Rightarrow> rlp \<Rightarrow> bft_engine \<Rightarrow> u64 \<Rightarrow> leader_proof \<Rightarrow> address \<Rightarrow> block_body \<Rightarrow> block" where
  "reconstruct_proposed_block_with_body C R e hgt prf cb bdy =
     build_block_with_body C R (config e) (head_hash e) (head_timestamp e) hgt prf cb bdy"

definition reconstruct_proposed_block ::
    "crypto \<Rightarrow> rlp \<Rightarrow> bft_engine \<Rightarrow> u64 \<Rightarrow> leader_proof \<Rightarrow> block" where
  "reconstruct_proposed_block C R e hgt prf =
     reconstruct_proposed_block_with_body C R e hgt prf (cfg_coinbase (config e)) BlockBody_default"

definition drain_pending_txs_into_body :: "bft_engine \<Rightarrow> block_body \<times> bft_engine" where
  "drain_pending_txs_into_body e =
     (let max_txs = unat (cfg_gas_limit (config e) div PLACEHOLDER_TX_GAS);
          n = min (length (pending_txs e)) max_txs
      in (\<lparr>transactions = take n (pending_txs e), ommers = [], withdrawals = []\<rparr>,
          e\<lparr>pending_txs := drop n (pending_txs e)\<rparr>))"

subsection \<open>Rounds\<close>

definition ensure_coordinator :: "bft_engine \<Rightarrow> bft_engine" where
  "ensure_coordinator e =
     (case coordinator e of
        None \<Rightarrow> e\<lparr>coordinator := Some (RoundCoordinator_new (head_number e + 1) (engine_seed e) (active_set e))\<rparr>
      | Some _ \<Rightarrow> e)"

definition cast_proposal ::
    "crypto \<Rightarrow> rlp \<Rightarrow> nat \<Rightarrow> bft_engine \<Rightarrow> (bft_error, block \<times> leader_proof) result \<times> bft_engine" where
  "cast_proposal C R entropy e0 =
     (let e = ensure_coordinator e0 in
      case coordinator e of
        None \<Rightarrow> (Panic, e)
      | Some coord \<Rightarrow>
          let leader_idx = leader_index C coord in
          if leader_idx \<noteq> unat (my_index e)
          then (Err (NotLeader (rc_round coord)
                  (if leader_idx < 2 ^ 32 then word_of_nat leader_idx else max_word_val)), e)
          else
            let hgt = rc_height coord;
                prf = LeaderProof_produce C entropy (my_vrf_sk (config e)) hgt (rc_round coord) (engine_seed e);
                (bdy, e1) = drain_pending_txs_into_body e;
                blk = build_block_with_body C R (config e1) (head_hash e1) (head_timestamp e1) hgt prf
                        (cfg_coinbase (config e1)) bdy
            in (case submit_proposal C coord (Block_hash C R blk) prf of
                  (Ok _, coord') \<Rightarrow>
                    (Ok (blk, prf), e1\<lparr>coordinator := Some coord', proposal := Some (blk, prf)\<rparr>)
                | (Err x, coord') \<Rightarrow> (Err x, e1\<lparr>coordinator := Some coord'\<rparr>)
                | (Panic, coord') \<Rightarrow> (Panic, e1\<lparr>coordinator := Some coord'\<rparr>)))"

definition cast_prevote :: "crypto \<Rightarrow> bft_engine \<Rightarrow> (bft_error, vote) result \<times> bft_engine" where
  "cast_prevote C e =
     (case coordinator e of
        None \<Rightarrow> (Err NoActiveCoordinator, e)
      | Some coord \<Rightarrow>
          (case proposed_block coord of
             None \<Rightarrow> (Err (WrongPhase Prevoting (rc_phase coord)), e)
           | Some bh \<Rightarrow>
               let v = PrevoteVote_sign C (my_bls_sk (config e)) bh (rc_height coord) (rc_round coord) (my_index e)
               in (case submit_prevote C coord v of
                     (Ok _, coord') \<Rightarrow> (Ok v, e\<lparr>coordinator := Some coord'\<rparr>)
                   | (Err x, coord') \<Rightarrow> (Err x, e\<lparr>coordinator := Some coord'\<rparr>)
                   | (Panic, coord') \<Rightarrow> (Panic, e\<lparr>coordinator := Some coord'\<rparr>))))"

definition cast_precommit :: "crypto \<Rightarrow> bft_engine \<Rightarrow> (bft_error, vote) result \<times> bft_engine" where
  "cast_precommit C e =
     (case coordinator e of
        None \<Rightarrow> (Err NoActiveCoordinator, e)
      | Some coord \<Rightarrow>
          if rc_phase coord \<noteq> Precommitting then (Err (WrongPhase Precommitting (rc_phase coord)), e)
          else
            (case proposed_block coord of
               None \<Rightarrow> (Panic, e)
             | Some bh \<Rightarrow>
                 let v = PrecommitVote_sign C (my_bls_sk (config e)) bh (rc_height coord) (rc_round coord) (my_index e)
                 in (case submit_precommit C coord v of
                       (Ok _, coord') \<Rightarrow> (Ok v, e\<lparr>coordinator := Some coord'\<rparr>)
                     | (Err x, coord') \<Rightarrow> (Err x, e\<lparr>coordinator := Some coord'\<rparr>)
                     | (Panic, coord') \<Rightarrow> (Panic, e\<lparr>coordinator := Some coord'\<rparr>))))"

text \<open>The errors after which a vote is kept for later.\<close>

fun is_early :: "bft_error \<Rightarrow> bool" where
  "is_early (WrongPhase _ _) = True"
| "is_early WrongRound = True"
| "is_early WrongHeight = True"
| "is_early _ = False"

text \<open>
  One pass over a buffer: the votes left over, whether any was applied, and the coordinator. \<open>None\<close>
  is a panic inside the coordinator.
\<close>

fun replay_votes ::
    "(round_coordinator \<Rightarrow> vote \<Rightarrow> (bft_error, unit) result \<times> round_coordinator) \<Rightarrow>
     round_coordinator \<Rightarrow> vote list \<Rightarrow> (vote list \<times> bool \<times> round_coordinator) option" where
  "replay_votes submit c [] = Some ([], False, c)"
| "replay_votes submit c (v # vs) =
     (case submit c v of
        (Panic, c') \<Rightarrow> None
      | (Ok _, c') \<Rightarrow> map_option (\<lambda>(left, _, c''). (left, True, c'')) (replay_votes submit c' vs)
      | (Err x, c') \<Rightarrow>
          map_option (\<lambda>(left, applied, c''). (if is_early x then v # left else left, applied, c''))
            (replay_votes submit c' vs))"

lemma replay_votes_length:
  "replay_votes submit c vs = Some (left, applied, c') \<Longrightarrow>
     length left \<le> length vs \<and> (applied \<longrightarrow> length left < length vs)"
proof (induction vs arbitrary: c left applied)
  case (Cons v vs)
  obtain r c1 where "submit c v = (r, c1)" by fastforce
  with Cons show ?case by (cases r) (fastforce split: if_splits)+
qed simp

definition drop_stale :: "bft_engine \<Rightarrow> bft_engine" where
  "drop_stale e =
     e\<lparr>pending_prevotes := filter (\<lambda>v. head_number e < height v) (pending_prevotes e),
       pending_precommits := filter (\<lambda>v. head_number e < height v) (pending_precommits e)\<rparr>"

function drain_pending_votes :: "crypto \<Rightarrow> bft_engine \<Rightarrow> (bft_error, unit) result \<times> bft_engine" where
  "drain_pending_votes C e0 =
     (let e = drop_stale e0 in
      case coordinator e of
        None \<Rightarrow> (Ok (), e)
      | Some coord \<Rightarrow>
          (case replay_votes (submit_prevote C) coord (pending_prevotes e) of
             None \<Rightarrow> (Panic, e)
           | Some (left_prev, applied_prev, coord1) \<Rightarrow>
               (case replay_votes (submit_precommit C) coord1 (pending_precommits e) of
                  None \<Rightarrow> (Panic, e)
                | Some (left_pc, applied_pc, coord2) \<Rightarrow>
                    let e' = e\<lparr>coordinator := Some coord2, pending_prevotes := left_prev,
                               pending_precommits := left_pc\<rparr>
                    in if applied_prev \<or> applied_pc then drain_pending_votes C e' else (Ok (), e'))))"
  by pat_completeness auto

termination
proof (relation "measure (\<lambda>(C, e). length (pending_prevotes e) + length (pending_precommits e))", goal_cases)
  case (2 C e0 e coord x left_prev y applied_prev coord1 z left_pc w applied_pc coord2 e')
  have "length (pending_prevotes e) \<le> length (pending_prevotes e0)"
      "length (pending_precommits e) \<le> length (pending_precommits e0)"
    using 2(1) by (simp_all add: drop_stale_def)
  then show ?case
    using 2 replay_votes_length by (fastforce dest: replay_votes_length)
qed simp

declare drain_pending_votes.simps [simp del]

definition submit_remote_proposal ::
    "crypto \<Rightarrow> rlp \<Rightarrow> bft_engine \<Rightarrow> block \<Rightarrow> leader_proof \<Rightarrow> (bft_error, unit) result \<times> bft_engine" where
  "submit_remote_proposal C R e0 blk prf =
     (let e = ensure_coordinator e0 in
      case coordinator e of
        None \<Rightarrow> (Panic, e)
      | Some coord \<Rightarrow>
          (case submit_proposal C coord (Block_hash C R blk) prf of
             (Ok _, coord') \<Rightarrow>
               drain_pending_votes C (e\<lparr>coordinator := Some coord', proposal := Some (blk, prf)\<rparr>)
           | (Err x, coord') \<Rightarrow> (Err x, e\<lparr>coordinator := Some coord'\<rparr>)
           | (Panic, coord') \<Rightarrow> (Panic, e\<lparr>coordinator := Some coord'\<rparr>)))"

definition park_evidence ::
    "(equivocation_detector \<Rightarrow> vote \<Rightarrow> equivocation_evidence option \<times> equivocation_detector) \<Rightarrow>
     bft_engine \<Rightarrow> vote \<Rightarrow> bft_engine" where
  "park_evidence rec e v =
     (case rec (detector e) v of
        (Some ev, d) \<Rightarrow> e\<lparr>detector := d, pending_evidence := pending_evidence e @ [ev]\<rparr>
      | (None, d) \<Rightarrow> e\<lparr>detector := d\<rparr>)"

definition submit_remote_prevote ::
    "crypto \<Rightarrow> bft_engine \<Rightarrow> vote \<Rightarrow> (bft_error, unit) result \<times> bft_engine" where
  "submit_remote_prevote C e0 v =
     (let e = park_evidence record_prevote e0 v in
      if height v \<le> head_number e then (Ok (), e)
      else case coordinator e of
        None \<Rightarrow> (Ok (), e\<lparr>pending_prevotes := pending_prevotes e @ [v]\<rparr>)
      | Some coord \<Rightarrow>
          (case submit_prevote C coord v of
             (Ok _, coord') \<Rightarrow> drain_pending_votes C (e\<lparr>coordinator := Some coord'\<rparr>)
           | (Err x, coord') \<Rightarrow>
               let e' = e\<lparr>coordinator := Some coord'\<rparr> in
               if is_early x then (Ok (), e'\<lparr>pending_prevotes := pending_prevotes e' @ [v]\<rparr>)
               else (Err x, e')
           | (Panic, coord') \<Rightarrow> (Panic, e\<lparr>coordinator := Some coord'\<rparr>)))"

definition submit_remote_precommit ::
    "crypto \<Rightarrow> bft_engine \<Rightarrow> vote \<Rightarrow> (bft_error, unit) result \<times> bft_engine" where
  "submit_remote_precommit C e0 v =
     (let e = park_evidence record_precommit e0 v in
      if height v \<le> head_number e then (Ok (), e)
      else case coordinator e of
        None \<Rightarrow> (Ok (), e\<lparr>pending_precommits := pending_precommits e @ [v]\<rparr>)
      | Some coord \<Rightarrow>
          (case submit_precommit C coord v of
             (Ok _, coord') \<Rightarrow> drain_pending_votes C (e\<lparr>coordinator := Some coord'\<rparr>)
           | (Err x, coord') \<Rightarrow>
               let e' = e\<lparr>coordinator := Some coord'\<rparr> in
               if is_early x then (Ok (), e'\<lparr>pending_precommits := pending_precommits e' @ [v]\<rparr>)
               else (Err x, e')
           | (Panic, coord') \<Rightarrow> (Panic, e\<lparr>coordinator := Some coord'\<rparr>)))"

definition drain_evidence :: "bft_engine \<Rightarrow> equivocation_evidence list \<times> bft_engine" where
  "drain_evidence e = (pending_evidence e, e\<lparr>pending_evidence := []\<rparr>)"

definition tick_timeout :: "crypto \<Rightarrow> bft_engine \<Rightarrow> (bft_error, unit) result \<times> bft_engine" where
  "tick_timeout C e0 =
     (let e = ensure_coordinator e0 in
      case coordinator e of
        None \<Rightarrow> (Panic, e)
      | Some coord \<Rightarrow>
          drain_pending_votes C (e\<lparr>coordinator := Some (fire_timeout coord), proposal := None\<rparr>))"

subsection \<open>Committing\<close>

definition commit_block ::
    "crypto \<Rightarrow> rlp \<Rightarrow> bft_engine \<Rightarrow> block \<Rightarrow> h256 \<Rightarrow> certificate \<Rightarrow> bft_engine" where
  "commit_block C R e blk seed cert =
     e\<lparr>head_hash := Block_hash C R blk, head_number := number (block_header blk),
       head_timestamp := timestamp (block_header blk), engine_seed := seed, coordinator := None,
       proposal := None, recent_blocks := cache_recent_block (recent_blocks e) blk cert\<rparr>"

definition try_harvest_committed :: "crypto \<Rightarrow> rlp \<Rightarrow> bft_engine \<Rightarrow> block option \<times> bft_engine" where
  "try_harvest_committed C R e =
     (case coordinator e of
        None \<Rightarrow> (None, e)
      | Some coord \<Rightarrow>
          if rc_phase coord \<noteq> Committed then (None, e)
          else (case proposal e of
                  None \<Rightarrow> (None, e)
                | Some (blk, prf) \<Rightarrow>
                    (case final_cert coord of
                       None \<Rightarrow> (None, e)
                     | Some cert \<Rightarrow> (Some blk, commit_block C R e blk (vrf_output prf) cert))))"

definition committed_block_at :: "bft_engine \<Rightarrow> u64 \<Rightarrow> (block \<times> certificate) option" where
  "committed_block_at e hgt =
     map_option (\<lambda>entry. (rb_block entry, rb_certificate entry)) (map_of (recent_blocks e) hgt)"

definition adopt_synced_block ::
    "crypto \<Rightarrow> rlp \<Rightarrow> bft_engine \<Rightarrow> block \<Rightarrow> certificate \<Rightarrow> (bft_error, block) result \<times> bft_engine" where
  "adopt_synced_block C R e blk cert =
     (if number (block_header blk) \<noteq> head_number e + 1 \<or> c_height cert \<noteq> number (block_header blk)
      then (Err WrongHeight, e)
      else if parent_hash (block_header blk) \<noteq> head_hash e \<or> c_block_hash cert \<noteq> Block_hash C R blk
      then (Err ProposalHashMismatch, e)
      else case PrecommitCertificate_verify C cert (active_set e) of
        Err x \<Rightarrow> (Err x, e)
      | Panic \<Rightarrow> (Panic, e)
      | Ok _ \<Rightarrow>
          (Ok blk, commit_block C R (e\<lparr>pending_prevotes := [], pending_precommits := []\<rparr>) blk
             (mix_hash (block_header blk)) cert))"

definition advance_single ::
    "crypto \<Rightarrow> rlp \<Rightarrow> nat \<Rightarrow> bft_engine \<Rightarrow> (bft_error, advance_output) result \<times> bft_engine" where
  "advance_single C R entropy e =
     (let size = vs_size (active_set e) in
      if size \<noteq> 1 then (Err (NotSingleValidator size), e)
      else case checked_add (head_number e) 1 of
        None \<Rightarrow> (Err Overflow, e)
      | Some new_number \<Rightarrow>
          let cfg = config e;
              new_timestamp = head_timestamp e + slot_seconds cfg;
              seed = engine_seed e;
              prf = LeaderProof_produce C entropy (my_vrf_sk cfg) new_number 0 seed;
              max_txs = unat (cfg_gas_limit cfg div PLACEHOLDER_TX_GAS);
              n = min (length (pending_txs e)) max_txs;
              bdy = \<lparr>transactions = take n (pending_txs e), ommers = [], withdrawals = []\<rparr>;
              e1 = e\<lparr>pending_txs := drop n (pending_txs e)\<rparr>;
              tx_root = transactions_root_of C R bdy;
              (sroot, rroot, blm, used) = post_roots cfg bdy (cfg_coinbase cfg) new_number;
              hdr = \<lparr>parent_hash = head_hash e1, ommers_hash = EMPTY_LIST_HASH,
                     beneficiary = cfg_coinbase cfg, state_root = sroot, transactions_root = tx_root,
                     receipts_root = rroot, logs_bloom = blm, difficulty = 0, number = new_number,
                     header_gas_limit = cfg_gas_limit cfg, gas_used = used, timestamp = new_timestamp,
                     extra_data = ascii ''aii-bft'', mix_hash = vrf_output prf, header_nonce = 0,
                     base_fee_per_gas = cfg_base_fee_per_gas cfg, withdrawals_root = EMPTY_TRIE_HASH,
                     blob_gas_used = None, excess_blob_gas = None, parent_beacon_block_root = None\<rparr>;
              blk = \<lparr>block_header = hdr, body = bdy\<rparr>;
              bh = Block_hash C R blk;
              coord0 = RoundCoordinator_new new_number seed (active_set e1);
              (r1, coord1) = submit_proposal C coord0 bh prf;
              (r2, coord2) = submit_prevote C coord1 (PrevoteVote_sign C (my_bls_sk cfg) bh new_number 0 (my_index e1));
              (r3, coord3) = submit_precommit C coord2 (PrecommitVote_sign C (my_bls_sk cfg) bh new_number 0 (my_index e1));
              outcome = and_then r1 (\<lambda>_. and_then r2 (\<lambda>_. and_then r3 (\<lambda>_.
                ok_or (NotSingleValidator size) (final_cert coord3))))
          in (case outcome of
                Ok cert \<Rightarrow>
                  (Ok \<lparr>ao_block = blk, ao_block_hash = bh, ao_certificate = cert\<rparr>,
                   e1\<lparr>head_hash := bh, head_number := new_number, head_timestamp := new_timestamp,
                      engine_seed := vrf_output prf,
                      recent_blocks := cache_recent_block (recent_blocks e1) blk cert\<rparr>)
              | Err x \<Rightarrow> (Err x, e1)
              | Panic \<Rightarrow> (Panic, e1)))"

subsection \<open>The Engine trait\<close>

definition bft_init :: "crypto \<Rightarrow> rlp \<Rightarrow> bft_engine \<Rightarrow> block \<Rightarrow> (consensus_error, h256) result \<times> bft_engine" where
  "bft_init C R e genesis =
     (let e' = e\<lparr>head_hash := Block_hash C R genesis, head_number := number (block_header genesis),
                head_timestamp := timestamp (block_header genesis), engine_seed := initial_seed (config e)\<rparr>
      in (Ok (head_hash e'), e'))"

definition bft_step ::
    "crypto \<Rightarrow> rlp \<Rightarrow> nat \<Rightarrow> bft_engine \<Rightarrow> (consensus_error, engine_progress) result \<times> bft_engine" where
  "bft_step C R entropy e =
     (if is_single_validator e
      then (case advance_single C R entropy e of
              (r, e') \<Rightarrow> (and_then (map_err (\<lambda>_. InvalidBlock ''BFT advance failed'') r)
                           (\<lambda>out. Ok (NewBlock (ao_block_hash out))), e'))
      else case coordinator e of
        None \<Rightarrow> (Ok Idle, e)
      | Some coord \<Rightarrow>
          if rc_phase coord \<noteq> Committed then (Ok Idle, e)
          else (case proposal e of
                  None \<Rightarrow> (Err (InvalidBlock ''committed with no proposal''), e)
                | Some (blk, prf) \<Rightarrow>
                    (case final_cert coord of
                       None \<Rightarrow> (Err (InvalidBlock ''committed with no certificate''), e)
                     | Some cert \<Rightarrow>
                         (Ok (NewBlock (Block_hash C R blk)), commit_block C R e blk (vrf_output prf) cert))))"

definition BftEngine_ops :: "crypto \<Rightarrow> rlp \<Rightarrow> bft_engine engine_ops" where
  "BftEngine_ops C R =
     \<lparr>eng_init = bft_init C R, eng_step = bft_step C R, eng_head = head_hash,
      eng_coinbase = (\<lambda>e. Some (cfg_coinbase (config e)))\<rparr>"

end
