(* ===== verification/EngineCorrect.thy ===== *)
theory EngineCorrect
  imports BftEngine
begin

section \<open>Correctness of the BFT engine\<close>

text \<open>
  The invariant of \<open>bft_engine\<close> under every operation a node performs, and what follows from it: no
  operation panics, replaying the buffered votes ends and leaves none behind that could be applied,
  every block that becomes the head extends the old head and carries a certificate of the active
  set, votes that arrive before their proposal are not lost, a lone validator makes progress, and a
  block taken over from a peer leaves the engine where its own commit would have.
\<close>

subsection \<open>Replaying buffered votes\<close>

lemma replay_votes_run:
  assumes "\<And>c v. submit c v = coord_step C c (mk v)" and "bls_aggregates C" and "coord_inv C c"
  shows "\<exists>left applied. replay_votes submit c vs = Some (left, applied, coord_run C c (map mk vs)) \<and>
    set left \<subseteq> set vs \<and>
    (\<not> applied \<longrightarrow> coord_run C c (map mk vs) = c \<and> (\<forall>v \<in> set left. \<exists>x. submit c v = (Err x, c) \<and> is_early x))"
  using assms(3)
proof (induction vs arbitrary: c)
  case (Cons v vs)
  obtain r c1 where step: "coord_step C c (mk v) = (r, c1)" by fastforce
  have sound: "r \<noteq> Panic" "coord_inv C c1" "is_ok r \<or> c1 = c"
    using sound_step [OF assms(2) Cons.prems, of "mk v"] step by (simp_all add: sound_call_def)
  obtain left applied where
    IH: "replay_votes submit c1 vs = Some (left, applied, coord_run C c1 (map mk vs))" "set left \<subseteq> set vs"
      "\<not> applied \<longrightarrow> coord_run C c1 (map mk vs) = c1 \<and> (\<forall>v \<in> set left. \<exists>x. submit c1 v = (Err x, c1) \<and> is_early x)"
    using Cons.IH [OF sound(2)] by blast
  have sub: "submit c v = (r, c1)" using assms(1) step by simp
  show ?case
  proof (cases r)
    case (Ok u)
    then show ?thesis using IH(1,2) step sub by (intro exI [of _ left] exI [of _ True]) auto
  next
    case (Err x)
    then have "c1 = c" using sound(3) by simp
    then show ?thesis using IH step sub Err
      by (intro exI [of _ "if is_early x then v # left else left"] exI [of _ applied]) auto
  qed (use sound in simp)
qed auto

lemmas replay_prevotes = replay_votes_run [of "submit_prevote C" C EvPrevote for C, OF coord_step.simps(2) [symmetric]]
lemmas replay_precommits = replay_votes_run [of "submit_precommit C" C EvPrecommit for C, OF coord_step.simps(3) [symmetric]]

text \<open>The part of the engine that no replay touches.\<close>

definition same_chain :: "bft_engine \<Rightarrow> bft_engine \<Rightarrow> bool" where
  "same_chain e e' \<longleftrightarrow>
     e' = e\<lparr>coordinator := coordinator e', pending_prevotes := pending_prevotes e',
            pending_precommits := pending_precommits e'\<rparr>"

lemma same_chain_refl [simp]: "same_chain e e"
  by (simp add: same_chain_def)

lemma same_chain_trans: "same_chain e e' \<Longrightarrow> same_chain e' e'' \<Longrightarrow> same_chain e e''"
  unfolding same_chain_def by (cases e, cases e', cases e'') simp

lemma same_chain_fields:
  assumes "same_chain e e'"
  shows "config e' = config e" "active_set e' = active_set e" "my_index e' = my_index e"
    "head_hash e' = head_hash e" "head_number e' = head_number e" "head_timestamp e' = head_timestamp e"
    "engine_seed e' = engine_seed e" "proposal e' = proposal e" "detector e' = detector e"
    "pending_evidence e' = pending_evidence e" "recent_blocks e' = recent_blocks e" "pending_txs e' = pending_txs e"
  using assms unfolding same_chain_def by (cases e, cases e', simp)+

text \<open>An engine with nothing left to replay: each buffered vote waits for a later phase, round or height.\<close>

definition drained :: "crypto \<Rightarrow> bft_engine \<Rightarrow> bool" where
  "drained C e \<longleftrightarrow>
     (\<forall>v \<in> set (pending_prevotes e) \<union> set (pending_precommits e). head_number e < height v) \<and>
     (\<forall>c. coordinator e = Some c \<longrightarrow>
        (\<forall>v \<in> set (pending_prevotes e). \<exists>x. submit_prevote C c v = (Err x, c) \<and> is_early x) \<and>
        (\<forall>v \<in> set (pending_precommits e). \<exists>x. submit_precommit C c v = (Err x, c) \<and> is_early x))"

definition first_pass :: "bft_engine \<Rightarrow> coord_event list" where
  "first_pass e =
     map EvPrevote (filter (\<lambda>v. head_number e < height v) (pending_prevotes e)) @
     map EvPrecommit (filter (\<lambda>v. head_number e < height v) (pending_precommits e))"

definition drain_outcome :: "crypto \<Rightarrow> bft_engine \<Rightarrow> round_coordinator \<Rightarrow> bft_engine \<Rightarrow> bool" where
  "drain_outcome C e c e' \<longleftrightarrow>
     same_chain e e' \<and> drained C e' \<and>
     set (pending_prevotes e') \<subseteq> set (pending_prevotes e) \<and>
     set (pending_precommits e') \<subseteq> set (pending_precommits e) \<and>
     (\<exists>es. coordinator e' = Some (coord_run C c (first_pass e @ es)) \<and>
        (\<forall>ev \<in> set es. \<exists>v. ev = EvPrevote v \<or> ev = EvPrecommit v))"

lemma drain_runs:
  assumes "bls_aggregates C" and "coordinator e = Some c" and "coord_inv C c"
  shows "\<exists>e'. drain_pending_votes C e = (Ok (), e') \<and> drain_outcome C e c e'"
  using assms
proof (induction C e arbitrary: c rule: drain_pending_votes.induct)
  case (1 C e0)
  let ?e = "drop_stale e0"
  have co: "coordinator ?e = Some c" and chain: "same_chain e0 ?e"
    using 1(3) by (simp_all add: drop_stale_def same_chain_def)
  let ?c1 = "coord_run C c (map EvPrevote (pending_prevotes ?e))"
  let ?c2 = "coord_run C ?c1 (map EvPrecommit (pending_precommits ?e))"
  obtain lp ap where p: "replay_votes (submit_prevote C) c (pending_prevotes ?e) = Some (lp, ap, ?c1)"
      "set lp \<subseteq> set (pending_prevotes ?e)"
      "\<not> ap \<longrightarrow> ?c1 = c \<and> (\<forall>v \<in> set lp. \<exists>x. submit_prevote C c v = (Err x, c) \<and> is_early x)"
    using replay_prevotes [OF 1(2,4)] by blast
  have inv1: "coord_inv C ?c1" and inv2: "coord_inv C ?c2"
    using 1(2,4) by (simp_all add: coord_inv_run)
  obtain lc ac where q: "replay_votes (submit_precommit C) ?c1 (pending_precommits ?e) = Some (lc, ac, ?c2)"
      "set lc \<subseteq> set (pending_precommits ?e)"
      "\<not> ac \<longrightarrow> ?c2 = ?c1 \<and> (\<forall>v \<in> set lc. \<exists>x. submit_precommit C ?c1 v = (Err x, ?c1) \<and> is_early x)"
    using replay_precommits [OF 1(2) inv1] by blast
  define e' where "e' = ?e\<lparr>coordinator := Some ?c2, pending_prevotes := lp, pending_precommits := lc\<rparr>"
  have c2: "?c2 = coord_run C c (first_pass e0)"
    by (simp add: first_pass_def coord_run_append drop_stale_def)
  have chain': "same_chain e0 e'" using chain by (simp add: e'_def same_chain_def drop_stale_def)
  have sub: "set lp \<subseteq> set (pending_prevotes e0)" "set lc \<subseteq> set (pending_precommits e0)"
      "\<forall>v \<in> set lp \<union> set lc. head_number e0 < height v"
    using p(2) q(2) by (auto simp: drop_stale_def)
  show ?case
  proof (cases "ap \<or> ac")
    case True
    then have rec: "drain_pending_votes C e0 = drain_pending_votes C e'"
      using co p(1) q(1) by (subst drain_pending_votes.simps) (simp add: Let_def e'_def)
    have "coordinator e' = Some ?c2" by (simp add: e'_def)
    obtain e'' es where e'': "drain_pending_votes C e' = (Ok (), e'')" "same_chain e' e''" "drained C e''"
        "set (pending_prevotes e'') \<subseteq> set lp" "set (pending_precommits e'') \<subseteq> set lc"
        "coordinator e'' = Some (coord_run C ?c2 (first_pass e' @ es))"
        "\<forall>ev \<in> set es. \<exists>v. ev = EvPrevote v \<or> ev = EvPrecommit v"
      using 1(1) [OF refl co p(1) refl refl q(1) refl refl e'_def True 1(2) \<open>coordinator e' = Some ?c2\<close> inv2]
      by (auto simp: drain_outcome_def e'_def)
    have "coordinator e'' = Some (coord_run C c (first_pass e0 @ first_pass e' @ es))"
      using e''(6) by (simp only: c2 coord_run_append)
    moreover have "\<forall>ev \<in> set (first_pass e' @ es). \<exists>v. ev = EvPrevote v \<or> ev = EvPrecommit v"
      using e''(7) by (auto simp: first_pass_def)
    ultimately have "drain_outcome C e0 c e''"
      unfolding drain_outcome_def using same_chain_trans [OF chain' e''(2)] e''(3-5) sub by blast
    then show ?thesis using rec e''(1) by auto
  next
    case False
    then have "drain_pending_votes C e0 = (Ok (), e')"
      using co p(1) q(1) by (subst drain_pending_votes.simps) (simp add: Let_def e'_def)
    moreover have "drained C e'"
      using False p(3) q(3) sub(3) chain' by (auto simp: drained_def e'_def drop_stale_def)
    then have "drain_outcome C e0 c e'"
      using chain' sub c2 by (auto simp: drain_outcome_def e'_def intro!: exI [of _ "[]"])
    ultimately show ?thesis by blast
  qed
qed

subsection \<open>The cache of committed blocks\<close>

definition entry_ok :: "crypto \<Rightarrow> rlp \<Rightarrow> u64 \<Rightarrow> block \<Rightarrow> certificate \<Rightarrow> bool" where
  "entry_ok C R n b cert \<longleftrightarrow>
     number (block_header b) = n \<and> c_block_hash cert = Block_hash C R b"

definition cache_ok :: "crypto \<Rightarrow> rlp \<Rightarrow> recent_cache \<Rightarrow> bool" where
  "cache_ok C R m \<longleftrightarrow>
     btree_ok m \<and> length m \<le> RECENT_BLOCKS_CAP \<and>
     (\<forall>(n, x) \<in> set m. entry_ok C R n (rb_block x) (rb_certificate x))"

lemma evict_oldest_drop: "evict_oldest m = drop (length m - RECENT_BLOCKS_CAP) m"
  by (induction m rule: evict_oldest.induct) (auto simp: Suc_diff_le not_less)

lemma btree_insert_set: "set (btree_insert k v m) \<subseteq> insert (k, v) (set m)"
  by (induction k v m rule: btree_insert.induct) auto

lemma btree_insert_length: "length (btree_insert k v m) \<le> Suc (length m)"
  by (induction k v m rule: btree_insert.induct) auto

lemma cache_ok_insert:
  assumes "cache_ok C R m" and "entry_ok C R (number (block_header b)) b cert"
  shows "cache_ok C R (cache_recent_block m b cert)"
proof -
  let ?n = "number (block_header b)" and ?x = "\<lparr>rb_block = b, rb_certificate = cert\<rparr>"
  let ?m = "btree_insert ?n ?x m"
  have ok: "btree_ok ?m" using assms(1) btree_insert_ok by (auto simp: cache_ok_def)
  have "cache_recent_block m b cert = drop (length ?m - RECENT_BLOCKS_CAP) ?m"
    by (simp add: cache_recent_block_def evict_oldest_drop)
  moreover have "btree_ok (drop k ?m)" for k
    using ok by (simp add: btree_ok_def drop_map [symmetric] sorted_wrt_drop)
  moreover have "\<forall>(n, x) \<in> set (drop k ?m). entry_ok C R n (rb_block x) (rb_certificate x)" for k
    using assms btree_insert_set [of ?n ?x m] set_drop_subset [of k ?m] by (fastforce simp: cache_ok_def)
  ultimately show ?thesis by (simp add: cache_ok_def)
qed

text \<open>The newest block is never the one evicted, so that it is served to peers that ask for it.\<close>

lemma btree_insert_last:
  "\<forall>k \<in> fst ` set m. k \<le> n \<Longrightarrow> btree_ok m \<Longrightarrow> \<exists>m'. btree_insert n x m = m' @ [(n, x)]"
proof (induction n x m rule: btree_insert.induct)
  case (2 n x k y m)
  consider "k < n" | "k = n" using 2 by force
  then show ?case
  proof cases
    case 1
    then show ?thesis using 2 by (auto simp: btree_ok_def)
  next
    case 2
    then have "m = []" using "2.prems" by (cases m) (auto simp: btree_ok_def)
    then show ?thesis using 2 by simp
  qed
qed simp

lemma cached_block_is_served:
  assumes "cache_ok C R m" and "entry_ok C R (number (block_header b)) b cert"
    and "\<forall>k \<in> fst ` set m. k \<le> number (block_header b)"
  shows "map_of (cache_recent_block m b cert) (number (block_header b)) = Some \<lparr>rb_block = b, rb_certificate = cert\<rparr>"
proof -
  let ?x = "(number (block_header b), \<lparr>rb_block = b, rb_certificate = cert\<rparr>)"
  obtain m' where m': "btree_insert (fst ?x) (snd ?x) m = m' @ [?x]"
    using btree_insert_last [OF assms(3)] assms(1) by (auto simp: cache_ok_def)
  then have "?x \<in> set (cache_recent_block m b cert)"
    by (simp add: cache_recent_block_def evict_oldest_drop RECENT_BLOCKS_CAP_def)
  moreover have "distinct (map fst (cache_recent_block m b cert))"
    using cache_ok_insert [OF assms(1,2)] by (simp add: cache_ok_def btree_ok_def)
  ultimately show ?thesis by simp
qed

subsection \<open>The engine invariant\<close>

text \<open>
  A proposal \<^emph>\<open>attaches\<close> to the head by its parent hash and carries the output of its leader proof; it
  \<^emph>\<open>extends\<close> the head where its number is the next one, which no operation of the engine checks.
\<close>

definition attaches :: "bft_engine \<Rightarrow> block \<Rightarrow> leader_proof \<Rightarrow> bool" where
  "attaches e b p \<longleftrightarrow> parent_hash (block_header b) = head_hash e \<and> mix_hash (block_header b) = vrf_output p"

definition extends_head :: "bft_engine \<Rightarrow> block \<Rightarrow> leader_proof \<Rightarrow> bool" where
  "extends_head e b p \<longleftrightarrow> attaches e b p \<and> number (block_header b) = head_number e + 1"

definition in_order :: "bft_engine \<Rightarrow> bool" where
  "in_order e \<longleftrightarrow> (\<forall>b p. proposal e = Some (b, p) \<longrightarrow> number (block_header b) = head_number e + 1)"

text \<open>
  The flag \<open>q\<close> of the invariants tells how much is assumed of the host. Without it every operation may be called at any
  time with any arguments. With it, proposals from peers are built on the engine's head, as the gossip driver builds
  them, and a lone validator steps between rounds only; then the open round is for the next height and seed, and the
  proposal it votes on attaches to the head.
\<close>

definition holds_proposal :: "bool \<Rightarrow> crypto \<Rightarrow> rlp \<Rightarrow> bft_engine \<Rightarrow> round_coordinator \<Rightarrow> bool" where
  "holds_proposal q C R e c \<longleftrightarrow>
     rc_phase c = AwaitingProposal \<or> rc_phase c = Committed \<and> proposal e = None \<or>
     (\<exists>b p. proposal e = Some (b, p) \<and> proposed_block c = Some (Block_hash C R b) \<and> (q \<longrightarrow> attaches e b p))"

definition coord_fits :: "bool \<Rightarrow> crypto \<Rightarrow> rlp \<Rightarrow> bft_engine \<Rightarrow> round_coordinator \<Rightarrow> bool" where
  "coord_fits q C R e c \<longleftrightarrow>
     coord_inv C c \<and> rc_vs c = active_set e \<and>
     (q \<longrightarrow> rc_height c = head_number e + 1 \<and> rc_seed c = engine_seed e) \<and> holds_proposal q C R e c"

definition engine_inv :: "bool \<Rightarrow> crypto \<Rightarrow> rlp \<Rightarrow> bft_engine \<Rightarrow> bool" where
  "engine_inv q C R e \<longleftrightarrow>
     vs_wf (active_set e) \<and> unat (my_index e) < vs_size (active_set e) \<and>
     cache_ok C R (recent_blocks e) \<and> (\<forall>c. coordinator e = Some c \<longrightarrow> coord_fits q C R e c)"

abbreviation coord_ok :: "crypto \<Rightarrow> rlp \<Rightarrow> bft_engine \<Rightarrow> round_coordinator \<Rightarrow> bool" where
  "coord_ok \<equiv> coord_fits True"

abbreviation engine_ok :: "crypto \<Rightarrow> rlp \<Rightarrow> bft_engine \<Rightarrow> bool" where
  "engine_ok \<equiv> engine_inv True"

lemma vote_step_keeps:
  assumes "ev = EvPrevote v \<or> ev = EvPrecommit v"
  shows "proposed_block (snd (coord_step C c ev)) = proposed_block c"
    and "rc_phase c = AwaitingProposal \<Longrightarrow> rc_phase (snd (coord_step C c ev)) = AwaitingProposal"
    and "rc_round (snd (coord_step C c ev)) = rc_round c"
  using assms
  by (auto simp: submit_prevote_def submit_precommit_def Let_def
      split: result.splits option.splits prod.splits tally_state.splits)

lemma votes_keep_proposal:
  assumes "\<forall>ev \<in> set es. \<exists>v. ev = EvPrevote v \<or> ev = EvPrecommit v"
  shows "proposed_block (coord_run C c es) = proposed_block c \<and> rc_round (coord_run C c es) = rc_round c \<and>
    (rc_phase c = AwaitingProposal \<longrightarrow> rc_phase (coord_run C c es) = AwaitingProposal)"
  using assms
proof (induction es arbitrary: c)
  case (Cons ev es)
  then obtain v where "ev = EvPrevote v \<or> ev = EvPrecommit v" by auto
  note keeps = vote_step_keeps [OF this, where C = C and c = c]
  have "\<forall>ev \<in> set es. \<exists>v. ev = EvPrevote v \<or> ev = EvPrecommit v" using Cons.prems by simp
  from Cons.IH [OF this, of "snd (coord_step C c ev)"] show ?case using keeps by simp
qed simp

lemma coord_ok_votes:
  assumes "bls_aggregates C" and "coord_fits q C R e c"
    and "\<forall>ev \<in> set es. \<exists>v. ev = EvPrevote v \<or> ev = EvPrecommit v"
  shows "coord_fits q C R e (coord_run C c es)"
proof -
  have "holds_proposal q C R e (coord_run C c es)"
    using assms(2) votes_keep_proposal [OF assms(3), of C c] committed_run [of c C es]
    by (auto simp: coord_fits_def holds_proposal_def)
  then show ?thesis
    using assms(1,2) coord_run_frame [of C c es] by (simp add: coord_fits_def coord_inv_run)
qed

subsection \<open>Every operation keeps the invariant\<close>

definition sound_op :: "bool \<Rightarrow> crypto \<Rightarrow> rlp \<Rightarrow> ('x, 'a) result \<times> bft_engine \<Rightarrow> bool" where
  "sound_op q C R out \<longleftrightarrow> fst out \<noteq> Panic \<and> engine_inv q C R (snd out)"

lemma coord_ok_frame [simp]:
  "coord_fits q C R (e\<lparr>coordinator := x\<rparr>) c = coord_fits q C R e c"
  "coord_fits q C R (e\<lparr>pending_prevotes := pv\<rparr>) c = coord_fits q C R e c"
  "coord_fits q C R (e\<lparr>pending_precommits := pc\<rparr>) c = coord_fits q C R e c"
  "coord_fits q C R (e\<lparr>detector := d\<rparr>) c = coord_fits q C R e c"
  "coord_fits q C R (e\<lparr>pending_evidence := ev\<rparr>) c = coord_fits q C R e c"
  "coord_fits q C R (e\<lparr>pending_txs := txs\<rparr>) c = coord_fits q C R e c"
  by (simp_all add: coord_fits_def holds_proposal_def attaches_def)

lemma engine_ok_frame [simp]:
  "engine_inv q C R (e\<lparr>pending_prevotes := pv\<rparr>) = engine_inv q C R e"
  "engine_inv q C R (e\<lparr>pending_precommits := pc\<rparr>) = engine_inv q C R e"
  "engine_inv q C R (e\<lparr>detector := d\<rparr>) = engine_inv q C R e"
  "engine_inv q C R (e\<lparr>pending_evidence := ev\<rparr>) = engine_inv q C R e"
  "engine_inv q C R (e\<lparr>pending_txs := txs\<rparr>) = engine_inv q C R e"
  by (simp_all add: engine_inv_def)

lemma engine_ok_coordinator:
  "engine_inv q C R e \<Longrightarrow> coord_fits q C R e c \<Longrightarrow> engine_inv q C R (e\<lparr>coordinator := Some c\<rparr>)"
  by (simp add: engine_inv_def)

lemma coord_ok_new:
  "engine_inv q C R e \<Longrightarrow> coord_fits q C R e (RoundCoordinator_new (head_number e + 1) (engine_seed e) (active_set e))"
  by (simp add: engine_inv_def coord_fits_def coord_inv_new)
    (simp add: RoundCoordinator_new_def holds_proposal_def)

lemma ensure_ok:
  assumes "engine_inv q C R e"
  shows "engine_inv q C R (ensure_coordinator e)"
    and "\<exists>c. coordinator (ensure_coordinator e) = Some c \<and> coord_fits q C R (ensure_coordinator e) c"
  using assms coord_ok_new [OF assms] engine_ok_coordinator [OF assms]
  by (auto simp: ensure_coordinator_def engine_inv_def split: option.split)

lemma coord_ok_same_chain: "same_chain e e' \<Longrightarrow> coord_fits q C R e' c \<longleftrightarrow> coord_fits q C R e c"
  by (simp add: coord_fits_def holds_proposal_def attaches_def same_chain_fields)

lemma drain_sound:
  assumes "bls_aggregates C" and "engine_inv q C R e" and "coordinator e = Some c"
  shows "sound_op q C R (drain_pending_votes C e)"
proof -
  have ok: "coord_fits q C R e c" using assms(2,3) by (simp add: engine_inv_def)
  then have "coord_inv C c" by (simp add: coord_fits_def)
  from drain_runs [OF assms(1,3) this] obtain e' es where e':
      "drain_pending_votes C e = (Ok (), e')" "same_chain e e'"
      "coordinator e' = Some (coord_run C c (first_pass e @ es))"
      "\<forall>ev \<in> set es. \<exists>v. ev = EvPrevote v \<or> ev = EvPrecommit v"
    by (auto simp: drain_outcome_def)
  have "\<forall>ev \<in> set (first_pass e @ es). \<exists>v. ev = EvPrevote v \<or> ev = EvPrecommit v"
    using e'(4) by (auto simp: first_pass_def)
  from coord_ok_votes [OF assms(1) ok this] have "engine_inv q C R e'"
    using assms(2) e'(2,3) by (simp add: engine_inv_def coord_ok_same_chain same_chain_fields)
  then show ?thesis using e'(1) by (simp add: sound_op_def)
qed

text \<open>A call of the coordinator that fails changes nothing; one that succeeds keeps its invariant.\<close>

lemma sound_event:
  assumes "bls_aggregates C" and "coord_fits q C R e c" and "coord_step C c ev = (r, c')"
  shows "r \<noteq> Panic" and "\<not> is_ok r \<Longrightarrow> c' = c" and "coord_inv C c'"
    and "q \<Longrightarrow> rc_height c' = head_number e + 1" and "rc_vs c' = active_set e" and "q \<Longrightarrow> rc_seed c' = engine_seed e"
  using sound_step [OF assms(1), of c ev] coord_step_frame [of C c ev] assms(2,3)
  by (auto simp: sound_call_def coord_fits_def)

lemma vote_event_ok:
  assumes "bls_aggregates C" and "coord_fits q C R e c" and "coord_step C c ev = (r, c')"
    and "ev = EvPrevote v \<or> ev = EvPrecommit v"
  shows "coord_fits q C R e c'"
  using coord_ok_votes [OF assms(1,2), of "[ev]"] assms(3,4) by auto

lemma submit_proposal_Ok:
  "submit_proposal C c bh p = (Ok u, c') \<Longrightarrow> proposed_block c' = Some bh \<and> rc_phase c' = Prevoting"
  by (auto simp: submit_proposal_def Let_def split: if_splits result.splits)

lemma proposal_event_ok:
  assumes "bls_aggregates C" and "coord_fits q C R e c" and "submit_proposal C c (Block_hash C R b) p = (Ok u, c')"
    and "q \<longrightarrow> attaches e b p"
  shows "coord_fits q C R (e\<lparr>proposal := Some (b, p)\<rparr>) c'"
proof -
  have "proposed_block c' = Some (Block_hash C R b)"
    using submit_proposal_Ok assms(3) by blast
  then show ?thesis
    using sound_event [OF assms(1,2), of "EvProposal (Block_hash C R b) p"] assms(3,4)
    by (simp add: coord_fits_def holds_proposal_def attaches_def)
qed

lemma engine_ok_proposal:
  "engine_inv q C R e \<Longrightarrow> coord_fits q C R (e\<lparr>proposal := x\<rparr>) c \<Longrightarrow> engine_inv q C R (e\<lparr>coordinator := Some c, proposal := x\<rparr>)"
  by (simp add: engine_inv_def coord_fits_def holds_proposal_def attaches_def)

lemma remote_proposal_sound:
  assumes "bls_aggregates C" and "engine_inv q C R e" and "q \<longrightarrow> attaches e b p"
  shows "sound_op q C R (submit_remote_proposal C R e b p)"
proof -
  let ?e = "ensure_coordinator e"
  obtain c where c: "coordinator ?e = Some c" "coord_fits q C R ?e c" using ensure_ok(2) [OF assms(2)] by blast
  have ext: "q \<longrightarrow> attaches ?e b p"
    using assms(3) by (simp add: ensure_coordinator_def attaches_def split: option.split)
  obtain r c' where r: "submit_proposal C c (Block_hash C R b) p = (r, c')" by fastforce
  note ev = sound_event [OF assms(1) c(2), of "EvProposal (Block_hash C R b) p" r c']
  show ?thesis
  proof (cases r)
    case (Ok u)
    have "engine_inv q C R (?e\<lparr>coordinator := Some c', proposal := Some (b, p)\<rparr>)"
      using engine_ok_proposal [OF ensure_ok(1) [OF assms(2)]] proposal_event_ok [OF assms(1) c(2) _ ext] r Ok
      by blast
    from drain_sound [OF assms(1) this] show ?thesis
      using c(1) r Ok by (simp add: submit_remote_proposal_def Let_def)
  next
    case (Err x)
    then have "c' = c" using ev(2) r by simp
    then show ?thesis
      using c r Err ensure_ok(1) [OF assms(2)] engine_ok_coordinator
      by (auto simp: submit_remote_proposal_def Let_def sound_op_def)
  qed (use ev(1) r in simp)
qed

lemma park_evidence_ok [simp]:
  "engine_inv q C R (park_evidence rec e v) = engine_inv q C R e"
  "coordinator (park_evidence rec e v) = coordinator e"
  "head_number (park_evidence rec e v) = head_number e"
  "coord_fits q C R (park_evidence rec e v) c = coord_fits q C R e c"
  by (auto simp: park_evidence_def split: prod.split option.split)

lemma remote_vote_sound:
  assumes "bls_aggregates C" and "engine_inv q C R e"
  shows "sound_op q C R (submit_remote_prevote C e v)" and "sound_op q C R (submit_remote_precommit C e v)"
proof -
  have upd: "engine_inv q C R (park_evidence rec e v\<lparr>coordinator := Some c\<rparr>)" if "coord_fits q C R e c" for c rec
    using assms(2) that by (intro engine_ok_coordinator) simp_all
  show "sound_op q C R (submit_remote_prevote C e v)"
  proof (cases "coordinator e")
    case None
    then show ?thesis using assms(2) by (simp add: submit_remote_prevote_def sound_op_def Let_def)
  next
    case (Some c)
    then have ok: "coord_fits q C R e c" using assms(2) by (simp add: engine_inv_def)
    obtain r c' where r: "submit_prevote C c v = (r, c')" by fastforce
    note ev = sound_event [OF assms(1) ok, of "EvPrevote v" r c'] vote_event_ok [OF assms(1) ok, of "EvPrevote v" r c']
    show ?thesis
      using Some r ev upd assms(2) drain_sound [OF assms(1) upd, of c' record_prevote]
      by (cases r) (auto simp: submit_remote_prevote_def sound_op_def Let_def)
  qed
  show "sound_op q C R (submit_remote_precommit C e v)"
  proof (cases "coordinator e")
    case None
    then show ?thesis using assms(2) by (simp add: submit_remote_precommit_def sound_op_def Let_def)
  next
    case (Some c)
    then have ok: "coord_fits q C R e c" using assms(2) by (simp add: engine_inv_def)
    obtain r c' where r: "submit_precommit C c v = (r, c')" by fastforce
    note ev = sound_event [OF assms(1) ok, of "EvPrecommit v" r c'] vote_event_ok [OF assms(1) ok, of "EvPrecommit v" r c']
    show ?thesis
      using Some r ev upd assms(2) drain_sound [OF assms(1) upd, of c' record_precommit]
      by (cases r) (auto simp: submit_remote_precommit_def sound_op_def Let_def)
  qed
qed

lemma timeout_sound:
  assumes "bls_aggregates C" and "engine_inv q C R e"
  shows "sound_op q C R (tick_timeout C e)"
proof -
  let ?e = "ensure_coordinator e"
  obtain c where c: "coordinator ?e = Some c" "coord_fits q C R ?e c" using ensure_ok(2) [OF assms(2)] by blast
  have "coord_fits q C R (?e\<lparr>proposal := None\<rparr>) (fire_timeout c)"
    using c(2) coord_inv_timeout by (auto simp: coord_fits_def holds_proposal_def fire_timeout_def)
  from engine_ok_proposal [OF ensure_ok(1) [OF assms(2)] this]
  show ?thesis using drain_sound [OF assms(1)] c(1) by (simp add: tick_timeout_def Let_def)
qed

lemma build_block_fields [simp]:
  "parent_hash (block_header (build_block_with_body C R cfg h ts n p cb bdy)) = h"
  "number (block_header (build_block_with_body C R cfg h ts n p cb bdy)) = n"
  "mix_hash (block_header (build_block_with_body C R cfg h ts n p cb bdy)) = vrf_output p"
  "timestamp (block_header (build_block_with_body C R cfg h ts n p cb bdy)) = ts + slot_seconds cfg"
  "beneficiary (block_header (build_block_with_body C R cfg h ts n p cb bdy)) = cb"
  "transactions_root (block_header (build_block_with_body C R cfg h ts n p cb bdy)) = transactions_root_of C R bdy"
  "body (build_block_with_body C R cfg h ts n p cb bdy) = bdy"
  by (simp_all add: build_block_with_body_def Let_def split: prod.split)

lemma cast_proposal_sound:
  assumes "bls_aggregates C" and "engine_inv q C R e"
  shows "sound_op q C R (cast_proposal C R n e)"
proof -
  let ?e = "ensure_coordinator e"
  obtain c where c: "coordinator ?e = Some c" "coord_fits q C R ?e c" using ensure_ok(2) [OF assms(2)] by blast
  obtain bdy e1 where d: "drain_pending_txs_into_body ?e = (bdy, e1)" by fastforce
  then have e1: "e1 = ?e\<lparr>pending_txs := pending_txs e1\<rparr>" by (auto simp: drain_pending_txs_into_body_def Let_def)
  then have ok1: "engine_inv q C R e1" "coord_fits q C R e1 c"
    using ensure_ok(1) [OF assms(2)] c(2) by (metis engine_ok_frame(5), metis coord_ok_frame(6))
  let ?p = "LeaderProof_produce C n (my_vrf_sk (config ?e)) (rc_height c) (rc_round c) (engine_seed ?e)"
  let ?b = "build_block_with_body C R (config e1) (head_hash e1) (head_timestamp e1) (rc_height c) ?p
    (cfg_coinbase (config e1)) bdy"
  have ext: "q \<longrightarrow> attaches e1 ?b ?p" by (simp add: attaches_def)
  obtain r c' where r: "submit_proposal C c (Block_hash C R ?b) ?p = (r, c')" by fastforce
  note ev = sound_event [OF assms(1) ok1(2), of "EvProposal (Block_hash C R ?b) ?p" r c']
  show ?thesis
  proof (cases "leader_index C c = unat (my_index ?e)")
    case False
    then show ?thesis using c(1) ensure_ok(1) [OF assms(2)] by (simp add: cast_proposal_def Let_def sound_op_def)
  next
    case True
    show ?thesis
    proof (cases r)
      case (Ok u)
      then have "engine_inv q C R (e1\<lparr>coordinator := Some c', proposal := Some (?b, ?p)\<rparr>)"
        using engine_ok_proposal [OF ok1(1)] proposal_event_ok [OF assms(1) ok1(2) _ ext] r by blast
      then show ?thesis using True c(1) d r Ok by (simp add: cast_proposal_def Let_def sound_op_def)
    next
      case (Err x)
      then have "engine_inv q C R (e1\<lparr>coordinator := Some c'\<rparr>)"
        using engine_ok_coordinator [OF ok1] ev(2) r by simp
      then show ?thesis using True c(1) d r Err by (simp add: cast_proposal_def Let_def sound_op_def)
    qed (use ev(1) r in simp)
  qed
qed

lemma cast_vote_sound:
  assumes "bls_aggregates C" and "engine_inv q C R e"
  shows "sound_op q C R (cast_prevote C e)" and "sound_op q C R (cast_precommit C e)"
proof -
  have upd: "engine_inv q C R (e\<lparr>coordinator := Some c\<rparr>)" if "coord_fits q C R e c" for c
    using assms(2) that by (rule engine_ok_coordinator)
  show "sound_op q C R (cast_prevote C e)"
  proof (cases "\<exists>c bh. coordinator e = Some c \<and> proposed_block c = Some bh")
    case True
    then obtain c bh where c: "coordinator e = Some c" "proposed_block c = Some bh" by blast
    then have ok: "coord_fits q C R e c" using assms(2) by (simp add: engine_inv_def)
    let ?v = "PrevoteVote_sign C (my_bls_sk (config e)) bh (rc_height c) (rc_round c) (my_index e)"
    obtain r c' where r: "submit_prevote C c ?v = (r, c')" by fastforce
    then show ?thesis
      using c upd sound_event(1) [OF assms(1) ok, of "EvPrevote ?v"] vote_event_ok [OF assms(1) ok, of "EvPrevote ?v"]
      by (cases r) (auto simp: cast_prevote_def Let_def sound_op_def)
  qed (use assms(2) in \<open>auto simp: cast_prevote_def sound_op_def split: option.split\<close>)
  show "sound_op q C R (cast_precommit C e)"
  proof (cases "\<exists>c. coordinator e = Some c \<and> rc_phase c = Precommitting")
    case True
    then obtain c where c: "coordinator e = Some c" "rc_phase c = Precommitting" by blast
    then have ok: "coord_fits q C R e c" using assms(2) by (simp add: engine_inv_def)
    then obtain bh where bh: "proposed_block c = Some bh" using c(2) by (auto simp: coord_fits_def coord_inv_def)
    let ?v = "PrecommitVote_sign C (my_bls_sk (config e)) bh (rc_height c) (rc_round c) (my_index e)"
    obtain r c' where r: "submit_precommit C c ?v = (r, c')" by fastforce
    then show ?thesis
      using c bh upd sound_event(1) [OF assms(1) ok, of "EvPrecommit ?v"] vote_event_ok [OF assms(1) ok, of "EvPrecommit ?v"]
      by (cases r) (auto simp: cast_precommit_def Let_def sound_op_def)
  qed (use assms(2) in \<open>auto simp: cast_precommit_def sound_op_def split: option.split\<close>)
qed

lemma commit_block_ok:
  assumes "engine_inv q C R e" and "entry_ok C R (number (block_header b)) b cert"
  shows "engine_inv q C R (commit_block C R e b s cert)"
  using assms cache_ok_insert by (simp add: engine_inv_def commit_block_def)

lemma committed_certificate:
  assumes "coord_inv C c" and "final_cert c = Some cert"
  shows "rc_phase c = Committed" and "PrecommitCertificate_verify C cert (rc_vs c) = Ok ()"
    and "proposed_block c = Some (c_block_hash cert)" and "c_height cert = rc_height c"
    and "c_round cert = rc_round c"
  using assms by (cases "rc_phase c"; auto simp: coord_inv_def cert_for_def)+

text \<open>What a harvest delivers: the accepted proposal, certified by the active set at the next height.\<close>

lemma harvest_cases:
  assumes "engine_inv q C R e"
  obtains (idle) "try_harvest_committed C R e = (None, e)"
    | (commit) b p c cert where "coordinator e = Some c" "proposal e = Some (b, p)" "rc_phase c = Committed"
      "final_cert c = Some cert" "q \<Longrightarrow> attaches e b p"
      "try_harvest_committed C R e = (Some b, commit_block C R e b (vrf_output p) cert)"
      "PrecommitCertificate_verify C cert (active_set e) = Ok ()" "c_block_hash cert = Block_hash C R b"
      "q \<Longrightarrow> c_height cert = head_number e + 1"
proof (cases "fst (try_harvest_committed C R e)")
  case None
  then show ?thesis
    using idle by (auto simp: try_harvest_committed_def split: option.splits if_splits)
next
  case (Some b)
  then obtain c p cert where h: "coordinator e = Some c" "proposal e = Some (b, p)" "rc_phase c = Committed"
      "final_cert c = Some cert"
      "try_harvest_committed C R e = (Some b, commit_block C R e b (vrf_output p) cert)"
    by (auto simp: try_harvest_committed_def split: option.splits if_splits)
  have ok: "coord_fits q C R e c" using assms h(1) by (simp add: engine_inv_def)
  then have inv: "coord_inv C c" by (simp add: coord_fits_def)
  show ?thesis
    using commit [OF h(1-4) _ h(5)] ok h(2,3) committed_certificate [OF inv h(4)]
    by (auto simp: coord_fits_def holds_proposal_def)
qed

lemma harvest_ok:
  assumes "engine_inv q C R e"
  shows "engine_inv q C R (snd (try_harvest_committed C R e))"
  using assms
  by (cases rule: harvest_cases [OF assms])
    (auto simp: entry_ok_def intro!: commit_block_ok)

lemma precommit_verify_total: "PrecommitCertificate_verify C cert vs \<noteq> Panic"
  by (auto simp: PrecommitCertificate_verify_def fast_aggregate_verify_def Let_def split: prod.split)

lemma adopt_cases:
  obtains (refuse) x where "adopt_synced_block C R e b cert = (Err x, e)"
    | (adopt) "adopt_synced_block C R e b cert =
        (Ok b, commit_block C R (e\<lparr>pending_prevotes := [], pending_precommits := []\<rparr>) b (mix_hash (block_header b)) cert)"
      "number (block_header b) = head_number e + 1" "c_height cert = number (block_header b)"
      "parent_hash (block_header b) = head_hash e" "c_block_hash cert = Block_hash C R b"
      "PrecommitCertificate_verify C cert (active_set e) = Ok ()"
proof (cases "number (block_header b) = head_number e + 1 \<and> c_height cert = number (block_header b) \<and>
    parent_hash (block_header b) = head_hash e \<and> c_block_hash cert = Block_hash C R b")
  case True
  then show ?thesis
    using refuse adopt precommit_verify_total [of C cert "active_set e"]
    by (cases "PrecommitCertificate_verify C cert (active_set e)") (simp_all add: adopt_synced_block_def)
next
  case False
  then have "\<exists>x. adopt_synced_block C R e b cert = (Err x, e)" by (auto simp: adopt_synced_block_def)
  then show ?thesis using refuse by blast
qed

lemma adopt_sound:
  assumes "engine_inv q C R e"
  shows "sound_op q C R (adopt_synced_block C R e b cert)"
proof (cases rule: adopt_cases [of C R e b cert])
  case (refuse x)
  then show ?thesis using assms by (simp add: sound_op_def)
next
  case adopt
  then show ?thesis
    using assms by (auto simp: sound_op_def entry_ok_def intro!: commit_block_ok)
qed

lemma coord_ok_timeout:
  assumes "coord_fits q C R e c" and "rc_phase c = AwaitingProposal"
  shows "coord_fits q C R e (fire_timeout c) \<and> rc_phase (fire_timeout c) = AwaitingProposal"
proof -
  have "rc_phase (fire_timeout c) = AwaitingProposal" using assms(2) by (simp add: fire_timeout_def)
  then show ?thesis using assms(1) coord_inv_timeout by (simp add: coord_fits_def holds_proposal_def)
qed

lemma fast_forward_sound:
  assumes "engine_inv q C R e"
  shows "sound_op q C R (fast_forward_to_round e target)"
proof -
  let ?c0 = "RoundCoordinator_new (head_number e + 1) (engine_seed e) (active_set e)"
  have "coord_fits q C R e ((fire_timeout ^^ n) ?c0) \<and> rc_phase ((fire_timeout ^^ n) ?c0) = AwaitingProposal" for n
  proof (induction n)
    case 0
    then show ?case using coord_ok_new [OF assms] by (simp add: RoundCoordinator_new_def)
  next
    case (Suc n)
    then show ?case using coord_ok_timeout [of q C R e] by auto
  qed
  then show ?thesis
    using assms engine_ok_coordinator
    by (auto simp: fast_forward_to_round_def Let_def sound_op_def split: option.split)
qed

lemma rotate_sound:
  assumes "engine_inv q C R e" and "vs_wf vs"
  shows "sound_op q C R (rotate_validator_set e vs idx)"
  using assms by (auto simp: rotate_validator_set_def sound_op_def engine_inv_def)

subsection \<open>A lone validator\<close>

text \<open>
  \<open>advance_single\<close> repeats the code of \<open>drain_pending_txs_into_body\<close> and \<open>build_block_with_body\<close>; it
  builds the same block.
\<close>

lemma advance_single_builds:
  assumes "vs_size (active_set e) = 1" and "checked_add (head_number e) 1 = Some n"
    and "drain_pending_txs_into_body e = (bdy, e1)"
    and "p = LeaderProof_produce C ent (my_vrf_sk (config e)) n 0 (engine_seed e)"
    and "b = build_block_with_body C R (config e) (head_hash e) (head_timestamp e) n p (cfg_coinbase (config e)) bdy"
    and "submit_proposal C (RoundCoordinator_new n (engine_seed e) (active_set e)) (Block_hash C R b) p = (r1, c1)"
    and "submit_prevote C c1 (PrevoteVote_sign C (my_bls_sk (config e)) (Block_hash C R b) n 0 (my_index e)) = (r2, c2)"
    and "submit_precommit C c2 (PrecommitVote_sign C (my_bls_sk (config e)) (Block_hash C R b) n 0 (my_index e)) = (r3, c3)"
  shows "advance_single C R ent e =
    (case and_then r1 (\<lambda>_. and_then r2 (\<lambda>_. and_then r3 (\<lambda>_. ok_or (NotSingleValidator 1) (final_cert c3)))) of
       Ok cert \<Rightarrow>
         (Ok \<lparr>ao_block = b, ao_block_hash = Block_hash C R b, ao_certificate = cert\<rparr>,
          e1\<lparr>head_hash := Block_hash C R b, head_number := n,
             head_timestamp := head_timestamp e + slot_seconds (config e), engine_seed := vrf_output p,
             recent_blocks := cache_recent_block (recent_blocks e) b cert\<rparr>)
     | Err x \<Rightarrow> (Err x, e1) | Panic \<Rightarrow> (Panic, e1))"
proof -
  obtain sr rr bl gu where roots: "post_roots (config e) bdy (cfg_coinbase (config e)) n = (sr, rr, bl, gu)"
    by (metis prod_cases4)
  have bdy: "bdy = \<lparr>transactions = take (min (length (pending_txs e))
        (unat (cfg_gas_limit (config e) div PLACEHOLDER_TX_GAS))) (pending_txs e), ommers = [], withdrawals = []\<rparr>"
      "e1 = e\<lparr>pending_txs := drop (min (length (pending_txs e))
        (unat (cfg_gas_limit (config e) div PLACEHOLDER_TX_GAS))) (pending_txs e)\<rparr>"
    using assms(3) by (simp_all add: drain_pending_txs_into_body_def Let_def)
  note b = assms(5) [unfolded build_block_with_body_def Let_def roots prod.case]
  have fields: "head_hash e1 = head_hash e" "my_index e1 = my_index e" "active_set e1 = active_set e"
      "recent_blocks e1 = recent_blocks e"
    by (simp_all add: bdy(2))
  show ?thesis
    unfolding advance_single_def Let_def assms(1,2) assms(4) [symmetric] bdy [symmetric]
      option.case roots prod.case fields b [symmetric] assms(6-8)
    by simp
qed

lemma lone_round:
  fixes x :: bft_error
  assumes laws: "bls_aggregates C" and ok: "coord_inv C c0"
    and s1: "submit_proposal C c0 bh p = (r1, c1)" and s2: "submit_prevote C c1 v = (r2, c2)"
    and s3: "submit_precommit C c2 w = (r3, c3)"
  defines "out \<equiv> and_then r1 (\<lambda>_. and_then r2 (\<lambda>_. and_then r3 (\<lambda>_. ok_or x (final_cert c3))))"
  shows "out \<noteq> Panic" and "out = Ok cert \<Longrightarrow> c_block_hash cert = bh \<and> c_height cert = rc_height c0 \<and>
    PrecommitCertificate_verify C cert (rc_vs c0) = Ok ()"
proof -
  have c1: "coord_inv C c1" "r1 \<noteq> Panic"
    using sound_step [OF laws, of c0 "EvProposal bh p"] ok s1 by (simp_all add: sound_call_def coord_fits_def)
  have c2: "coord_inv C c2" "r2 \<noteq> Panic"
    using sound_step [OF laws c1(1), of "EvPrevote v"] s2 by (simp_all add: sound_call_def)
  have c3: "coord_inv C c3" "r3 \<noteq> Panic"
    using sound_step [OF laws c2(1), of "EvPrecommit w"] s3 by (simp_all add: sound_call_def)
  show "out \<noteq> Panic"
    using c1(2) c2(2) c3(2) unfolding out_def by (cases r1; cases r2; cases r3; cases "final_cert c3") simp_all
  assume "out = Ok cert"
  then obtain u where r: "r1 = Ok u" "final_cert c3 = Some cert"
    unfolding out_def by (cases r1; cases r2; cases r3; cases "final_cert c3") simp_all
  have "proposed_block c3 = Some bh"
    using submit_proposal_Ok [OF s1 [unfolded r(1)]] vote_step_keeps(1) [of "EvPrevote v" v C c1]
      vote_step_keeps(1) [of "EvPrecommit w" w C c2] s2 s3 by simp
  moreover have "rc_height c3 = rc_height c0" "rc_vs c3 = rc_vs c0"
    using coord_step_frame [of C c0 "EvProposal bh p"] coord_step_frame [of C c1 "EvPrevote v"]
      coord_step_frame [of C c2 "EvPrecommit w"] s1 s2 s3 ok by (simp_all add: coord_fits_def)
  ultimately show "c_block_hash cert = bh \<and> c_height cert = rc_height c0 \<and>
      PrecommitCertificate_verify C cert (rc_vs c0) = Ok ()"
    using committed_certificate [OF c3(1) r(2)] by simp
qed

lemma advance_cases:
  assumes laws: "bls_aggregates C" and ok: "engine_inv q C R e"
  obtains (fail) x txs where "advance_single C R ent e = (Err x, e\<lparr>pending_txs := txs\<rparr>)"
    | (advance) b p cert txs where
      "advance_single C R ent e =
        (Ok \<lparr>ao_block = b, ao_block_hash = Block_hash C R b, ao_certificate = cert\<rparr>,
         e\<lparr>pending_txs := txs, head_hash := Block_hash C R b, head_number := number (block_header b),
           head_timestamp := timestamp (block_header b), engine_seed := vrf_output p,
           recent_blocks := cache_recent_block (recent_blocks e) b cert\<rparr>)"
      "extends_head e b p" "c_block_hash cert = Block_hash C R b" "c_height cert = head_number e + 1"
      "PrecommitCertificate_verify C cert (active_set e) = Ok ()"
      "pending_txs e = transactions (body b) @ txs"
proof (cases "vs_size (active_set e) = 1 \<and> checked_add (head_number e) 1 \<noteq> None")
  case False
  then have "\<exists>x. advance_single C R ent e = (Err x, e\<lparr>pending_txs := pending_txs e\<rparr>)"
    by (auto simp: advance_single_def Let_def)
  then show ?thesis using fail by blast
next
  case True
  then obtain n where one: "vs_size (active_set e) = 1" "checked_add (head_number e) 1 = Some n" by blast
  obtain bdy e1 where d: "drain_pending_txs_into_body e = (bdy, e1)" by fastforce
  then have e1: "e1 = e\<lparr>pending_txs := pending_txs e1\<rparr>" and txs: "pending_txs e = transactions bdy @ pending_txs e1"
    by (auto simp: drain_pending_txs_into_body_def Let_def)
  define p where "p = LeaderProof_produce C ent (my_vrf_sk (config e)) n 0 (engine_seed e)"
  define b where "b = build_block_with_body C R (config e) (head_hash e) (head_timestamp e) n p (cfg_coinbase (config e)) bdy"
  let ?c0 = "RoundCoordinator_new n (engine_seed e) (active_set e)"
  let ?pv = "PrevoteVote_sign C (my_bls_sk (config e)) (Block_hash C R b) n 0 (my_index e)"
  let ?pc = "PrecommitVote_sign C (my_bls_sk (config e)) (Block_hash C R b) n 0 (my_index e)"
  obtain r1 c1 where s1: "submit_proposal C ?c0 (Block_hash C R b) p = (r1, c1)" by fastforce
  obtain r2 c2 where s2: "submit_prevote C c1 ?pv = (r2, c2)" by fastforce
  obtain r3 c3 where s3: "submit_precommit C c2 ?pc = (r3, c3)" by fastforce
  note adv = advance_single_builds [OF one d p_def b_def s1 s2 s3]
  have n: "n = head_number e + 1" using checked_inc [OF one(2)] .
  have ok0: "coord_inv C ?c0" using ok coord_inv_new by (simp add: engine_inv_def)
  have c0: "rc_height ?c0 = n" "rc_vs ?c0 = active_set e" by (simp_all add: RoundCoordinator_new_def)
  let ?out = "and_then r1 (\<lambda>_. and_then r2 (\<lambda>_. and_then r3 (\<lambda>_. ok_or (NotSingleValidator 1) (final_cert c3))))"
  note round = lone_round(1) [OF laws ok0 s1 s2 s3, of "NotSingleValidator 1"]
    lone_round(2) [OF laws ok0 s1 s2 s3, of "NotSingleValidator 1"]
  consider x where "?out = Err x" | cert where "?out = Ok cert" using round(1) by (cases ?out) auto
  then show ?thesis
  proof cases
    case 1
    then show ?thesis using fail adv e1 by simp
  next
    case (2 cert)
    then show ?thesis
      using advance [where b = b and cert = cert and txs = "pending_txs e1" and p = p] adv round(2) [OF 2, unfolded c0] txs n e1
      by (simp add: extends_head_def attaches_def b_def)
  qed
qed

text \<open>The keys of the node are the ones the set lists for it.\<close>

definition owns_keys :: "crypto \<Rightarrow> bft_engine \<Rightarrow> bool" where
  "owns_keys C e \<longleftrightarrow>
     bls_pubkey (validators (active_set e) ! unat (my_index e)) = bls_public_key_of C (my_bls_sk (config e)) \<and>
     vrf_pubkey (validators (active_set e) ! unat (my_index e)) = vrf_public_key_of C (my_vrf_sk (config e))"

text \<open>The whole set reaches the threshold even where its computation wraps.\<close>

lemma quorum_le_total:
  assumes "vs_wf vs"
  shows "unat (quorum_threshold vs) \<le> unat (total_stake vs)"
proof -
  let ?t = "unat (total_stake vs)"
  have pos: "0 < ?t" and lt: "?t < 2 ^ 64" using vs_wf_total_pos [OF assms] unat_less_pow [of "total_stake vs"] by simp_all
  have "unat (total_stake vs * 2) = 2 * ?t mod 2 ^ 64" by (simp add: unat_word_ariths mult.commute)
  then have "unat ((total_stake vs * 2) div 3) = (2 * ?t mod 2 ^ 64) div 3" by (simp add: unat_div)
  moreover have "(2 * ?t mod 2 ^ 64) div 3 + 1 < 2 ^ 64" by (simp add: less_mult_imp_div_less)
  ultimately have "unat (quorum_threshold vs) = (2 * ?t mod 2 ^ 64) div 3 + 1"
    by (simp add: quorum_threshold_def unat_word_ariths)
  moreover have "(2 * ?t mod 2 ^ 64) div 3 + 1 \<le> ?t"
  proof (cases "?t < 2 ^ 63")
    case True
    then show ?thesis using pos by simp
  next
    case False
    moreover have "2 * ?t mod 2 ^ 64 < 2 ^ 64" by simp
    ultimately show ?thesis by simp
  qed
  ultimately show ?thesis by simp
qed

text \<open>A phase is entered only by a call that succeeds.\<close>

lemma phase_entered:
  shows "submit_proposal C c bh p = (r, c') \<Longrightarrow> rc_phase c' \<noteq> rc_phase c \<Longrightarrow> is_ok r \<and> rc_phase c' = Prevoting"
    and "submit_prevote C c v = (r, c') \<Longrightarrow> rc_phase c' \<noteq> rc_phase c \<Longrightarrow>
      is_ok r \<and> rc_phase c = Prevoting \<and> rc_phase c' = Precommitting"
    and "submit_precommit C c v = (r, c') \<Longrightarrow> rc_phase c' \<noteq> rc_phase c \<Longrightarrow>
      is_ok r \<and> rc_phase c = Precommitting \<and> rc_phase c' = Committed"
proof -
  show "submit_proposal C c bh p = (r, c') \<Longrightarrow> rc_phase c' \<noteq> rc_phase c \<Longrightarrow> is_ok r \<and> rc_phase c' = Prevoting"
    by (cases r) (auto simp: submit_proposal_def Let_def split: if_splits result.splits)
qed (auto simp: submit_prevote_def submit_precommit_def Let_def
      split: if_splits result.splits option.splits prod.splits tally_state.splits)

lemma lone_advances:
  assumes laws: "bls_aggregates C" "bls_signs C" "vrf_proves C" and ok: "engine_inv q C R e"
    and one: "vs_size (active_set e) = 1" and keys: "owns_keys C e" and max: "head_number e \<noteq> max_word_val"
  shows "\<exists>out e'. advance_single C R ent e = (Ok out, e')"
proof -
  have idx: "my_index e = 0" using ok one by (simp add: engine_inv_def word_unat_eq_iff)
  have wf: "vs_wf (active_set e)" using ok by (simp add: engine_inv_def)
  obtain n where n: "checked_add (head_number e) 1 = Some n"
    using max unat_less_pow [of "head_number e"]
    by (cases "checked_add (head_number e) 1")
      (auto simp: checked_add_None max_word_val_def word_unat_eq_iff unsigned_minus_1_eq_mask mask_eq_exp_minus_1)
  obtain bdy e1 where d: "drain_pending_txs_into_body e = (bdy, e1)" by fastforce
  define p where "p = LeaderProof_produce C ent (my_vrf_sk (config e)) n 0 (engine_seed e)"
  define b where "b = build_block_with_body C R (config e) (head_hash e) (head_timestamp e) n p (cfg_coinbase (config e)) bdy"
  let ?c0 = "RoundCoordinator_new n (engine_seed e) (active_set e)" and ?bh = "Block_hash C R b"
  let ?pv = "PrevoteVote_sign C (my_bls_sk (config e)) ?bh n 0 (my_index e)"
  let ?pc = "PrecommitVote_sign C (my_bls_sk (config e)) ?bh n 0 (my_index e)"
  obtain r1 c1 where s1: "submit_proposal C ?c0 ?bh p = (r1, c1)" by fastforce
  obtain r2 c2 where s2: "submit_prevote C c1 ?pv = (r2, c2)" by fastforce
  obtain r3 c3 where s3: "submit_precommit C c2 ?pc = (r3, c3)" by fastforce
  note adv = advance_single_builds [OF one n d p_def b_def s1 s2 s3]
  have fields: "rc_vs ?c0 = active_set e" "rc_height ?c0 = n" "rc_round ?c0 = 0" "rc_seed ?c0 = engine_seed e"
      "rc_phase ?c0 = AwaitingProposal"
    by (simp_all add: RoundCoordinator_new_def)
  have leader: "leader_index C ?c0 = 0"
    using select_leader_less [OF wf] one by (simp add: leader_index_def fields less_Suc0)
  have run: "coord_run C ?c0 (EvProposal ?bh p # map EvPrevote [?pv] @ map EvPrecommit [?pc]) = c3"
    using s1 s2 s3 by simp
  have q: "unat (quorum_threshold (active_set e)) \<le> stake_of (active_set e) {0}"
    using quorum_le_total [OF wf] stake_of_all [OF wf] one by (simp add: lessThan_Suc)
  have v: "votes_for PrevoteVote_digest C ?c0 ?bh [?pv]" "votes_for PrecommitVote_digest C ?c0 ?bh [?pc]"
      "voters [?pv] = {0}" "voters [?pc] = {0}"
    using signed_vote_valid [OF laws(2), of "my_index e" "active_set e" "my_bls_sk (config e)"] keys one idx
    by (auto simp: votes_for_def voters_def fields owns_keys_def)
      (auto simp: PrevoteVote_sign_def PrecommitVote_sign_def Let_def)
  have "rc_phase c3 = Committed"
    using honest_round [OF laws(1) coord_inv_new [OF wf] fields(5), of p ?bh "[?pv]" "[?pc]"]
      LeaderProof_verify_produce [OF laws(3)] keys idx leader v q run
    by (simp add: fields owns_keys_def p_def del: coord_run.simps)
  then have phases: "rc_phase c2 = Precommitting" "rc_phase c1 = Prevoting"
    using phase_entered(1) [OF s1] phase_entered(2) [OF s2] phase_entered(3) [OF s3] fields(5)
    by (cases "rc_phase c1"; cases "rc_phase c2"; auto)+
  then have "is_ok r1" "is_ok r2" "is_ok r3"
    using phase_entered(1) [OF s1] phase_entered(2) [OF s2] phase_entered(3) [OF s3] fields(5)
      \<open>rc_phase c3 = Committed\<close> by auto
  moreover have "coord_inv C c3"
    using run coord_inv_run [OF laws(1) coord_inv_new [OF wf]] by metis
  then obtain cert where "final_cert c3 = Some cert"
    using \<open>rc_phase c3 = Committed\<close> by (auto simp: coord_inv_def)
  ultimately show ?thesis using adv by (cases r1; cases r2; cases r3) simp_all
qed

end
