(* ===== verification/EngineProps.thy ===== *)
theory EngineProps
  imports EngineCorrect
begin

section \<open>What the BFT engine guarantees\<close>

text \<open>
  The engine as an instance of the \<open>chain_engine\<close> contract, its runs over arbitrary sequences of
  events, and the properties of \<open>engine.rs\<close>. Executions are lists of the events a host, a clock and the
  peers can cause. A remote proposal reaches the engine as a block the gossip layer has rebuilt on
  the engine's own head, which \<open>admissible\<close> states; everything else is unrestricted.
\<close>

subsection \<open>Events\<close>

datatype engine_event =
    Propose nat
  | CastPrevote
  | CastPrecommit
  | RemoteProposal block leader_proof
  | RemotePrevote vote
  | RemotePrecommit vote
  | Timeout
  | Harvest
  | Adopt block certificate
  | FastForward u32
  | Rotate validator_set u32
  | StageTxs "tx list"
  | ExtendTxs "tx list"
  | DrainEvidence
  | EngineStep nat

definition erase :: "('x, 'a) result \<times> bft_engine \<Rightarrow> (unit, unit) result \<times> bft_engine" where
  "erase out = (and_then (map_err (\<lambda>_. ()) (fst out)) (\<lambda>_. Ok ()), snd out)"

primrec run_event ::
    "crypto \<Rightarrow> rlp \<Rightarrow> bft_engine \<Rightarrow> engine_event \<Rightarrow> (unit, unit) result \<times> bft_engine" where
  "run_event C R e (Propose n) = erase (cast_proposal C R n e)"
| "run_event C R e CastPrevote = erase (cast_prevote C e)"
| "run_event C R e CastPrecommit = erase (cast_precommit C e)"
| "run_event C R e (RemoteProposal b p) = erase (submit_remote_proposal C R e b p)"
| "run_event C R e (RemotePrevote v) = erase (submit_remote_prevote C e v)"
| "run_event C R e (RemotePrecommit v) = erase (submit_remote_precommit C e v)"
| "run_event C R e Timeout = erase (tick_timeout C e)"
| "run_event C R e Harvest = (Ok (), snd (try_harvest_committed C R e))"
| "run_event C R e (Adopt b cert) = erase (adopt_synced_block C R e b cert)"
| "run_event C R e (FastForward r) = erase (fast_forward_to_round e r)"
| "run_event C R e (Rotate vs i) = erase (rotate_validator_set e vs i)"
| "run_event C R e (StageTxs txs) = (Ok (), set_pending_txs e txs)"
| "run_event C R e (ExtendTxs txs) = (Ok (), extend_pending_txs e txs)"
| "run_event C R e DrainEvidence = (Ok (), snd (drain_evidence e))"
| "run_event C R e (EngineStep n) = erase (bft_step C R n e)"

text \<open>
  What is assumed of an event. A rotation hands over a \<open>ValidatorSet\<close>, a type whose values all come from
  \<open>ValidatorSet::new\<close>. With the flag \<open>q\<close>, moreover, a proposal from a peer is built on the engine's head, as the
  gossip driver builds it from the message, and a host steps a single-validator engine only between rounds:
  \<open>advance_single\<close> runs its own coordinator and leaves one that is open behind at the old height.
\<close>

fun admissible :: "bool \<Rightarrow> bft_engine \<Rightarrow> engine_event \<Rightarrow> bool" where
  "admissible q e (RemoteProposal b p) \<longleftrightarrow> (q \<longrightarrow> attaches e b p)"
| "admissible q e (Rotate vs i) \<longleftrightarrow> vs_wf vs"
| "admissible q e (EngineStep n) \<longleftrightarrow> (q \<longrightarrow> is_single_validator e \<longrightarrow> coordinator e = None)"
| "admissible q e _ \<longleftrightarrow> True"

inductive engine_runs :: "bool \<Rightarrow> crypto \<Rightarrow> rlp \<Rightarrow> bft_engine \<Rightarrow> bool" for q C R where
  created: "vs_wf (cfg_validator_set cfg) \<Longrightarrow> unat (cfg_my_index cfg) < vs_size (cfg_validator_set cfg) \<Longrightarrow>
     engine_runs q C R (BftEngine_new C R cfg genesis)"
| recovered: "vs_wf (cfg_validator_set cfg) \<Longrightarrow> unat (cfg_my_index cfg) < vs_size (cfg_validator_set cfg) \<Longrightarrow>
     engine_runs q C R (from_recovered C R cfg blk)"
| event: "engine_runs q C R e \<Longrightarrow> admissible q e ev \<Longrightarrow> engine_runs q C R (snd (run_event C R e ev))"

abbreviation engine_reach :: "crypto \<Rightarrow> rlp \<Rightarrow> bft_engine \<Rightarrow> bool" where
  "engine_reach \<equiv> engine_runs True"

lemma reach_runs: "engine_runs True C R e \<Longrightarrow> engine_runs False C R e"
proof (induction rule: engine_runs.induct)
  case (event e ev)
  then have "admissible False e ev" by (cases ev) simp_all
  then show ?case using event by (intro engine_runs.event)
qed (auto intro: engine_runs.created engine_runs.recovered)

lemma erase_sound: "sound_op q C R out \<Longrightarrow> sound_op q C R (erase out)"
  by (cases "fst out") (simp_all add: sound_op_def erase_def)

lemma sound_op_value: "sound_op q C R (Ok x, e) \<longleftrightarrow> engine_inv q C R e"
  by (simp add: sound_op_def)

lemma bft_step_multi:
  assumes "\<not> is_single_validator e" and "engine_inv q C R e"
  shows "fst (bft_step C R n e) \<noteq> Panic" and "snd (bft_step C R n e) = snd (try_harvest_committed C R e)"
  using assms(1)
  by (auto simp: bft_step_def try_harvest_committed_def split: option.split)

lemma bft_step_sound:
  assumes "bls_aggregates C" and "engine_inv q C R e" and "q \<longrightarrow> is_single_validator e \<longrightarrow> coordinator e = None"
  shows "sound_op q C R (bft_step C R n e)"
proof (cases "is_single_validator e")
  case True
  then have none: "q \<longrightarrow> coordinator e = None" using assms(3) by simp
  show ?thesis
  proof (cases rule: advance_cases [OF assms(1,2), where ent = n, case_names fail advance])
    case (fail x txs)
    then show ?thesis using True assms(2) by (simp add: bft_step_def sound_op_def)
  next
    case (advance b p cert txs)
    then have "cache_ok C R (cache_recent_block (recent_blocks e) b cert)"
      using assms(2) by (intro cache_ok_insert) (simp_all add: entry_ok_def engine_inv_def)
    then show ?thesis
      using True none advance(1) assms(2)
      by (cases q) (simp_all add: bft_step_def sound_op_def engine_inv_def coord_fits_def holds_proposal_def)
  qed
next
  case False
  then show ?thesis
    using bft_step_multi [OF False assms(2)] harvest_ok [OF assms(2)] by (simp add: sound_op_def)
qed

lemma event_sound:
  assumes laws: "bls_aggregates C" and ok: "engine_inv q C R e" and adm: "admissible q e ev"
  shows "sound_op q C R (run_event C R e ev)"
proof (cases ev)
  case (RemoteProposal b p)
  then show ?thesis using adm erase_sound [OF remote_proposal_sound [OF laws ok]] by simp
next
  case (Rotate vs i)
  then show ?thesis using adm erase_sound [OF rotate_sound [OF ok]] by simp
next
  case (EngineStep n)
  then show ?thesis using adm erase_sound [OF bft_step_sound [OF laws ok]] by simp
next
  case (ExtendTxs txs)
  then show ?thesis using ok by (simp add: extend_pending_txs_def sound_op_def)
qed (use ok in \<open>simp_all add: erase_sound sound_op_value cast_proposal_sound [OF laws] cast_vote_sound [OF laws]
      remote_vote_sound [OF laws] timeout_sound [OF laws] harvest_ok adopt_sound fast_forward_sound
      set_pending_txs_def drain_evidence_def\<close>)

lemma created_ok:
  assumes "vs_wf (cfg_validator_set cfg)" and "unat (cfg_my_index cfg) < vs_size (cfg_validator_set cfg)"
  shows "engine_inv q C R (BftEngine_new C R cfg blk)" and "engine_inv q C R (from_recovered C R cfg blk)"
  using assms by (simp_all add: engine_inv_def BftEngine_new_def from_recovered_def cache_ok_def btree_ok_def)

lemma engine_runs_inv: "bls_aggregates C \<Longrightarrow> engine_runs q C R e \<Longrightarrow> engine_inv q C R e"
  by (erule engine_runs.induct) (use event_sound in \<open>auto simp: created_ok sound_op_def\<close>)

lemmas engine_reach_ok = engine_runs_inv [where q = True]

subsection \<open>The engine as a chain engine\<close>

lemma step_cases:
  assumes laws: "bls_aggregates C" and ok: "engine_inv q C R e"
  obtains (stay) "head_hash (snd (bft_step C R n e)) = head_hash e" "head_number (snd (bft_step C R n e)) = head_number e"
      "fst (bft_step C R n e) = Ok Idle \<or> (\<exists>x. fst (bft_step C R n e) = Err x)"
      "proposal (snd (bft_step C R n e)) = proposal e"
    | (move) b p cert where "fst (bft_step C R n e) = Ok (NewBlock (Block_hash C R b))" "q \<Longrightarrow> attaches e b p"
      "head_hash (snd (bft_step C R n e)) = Block_hash C R b" "head_number (snd (bft_step C R n e)) = number (block_header b)"
      "PrecommitCertificate_verify C cert (active_set e) = Ok ()" "c_block_hash cert = Block_hash C R b"
      "q \<Longrightarrow> c_height cert = head_number e + 1" "in_order e \<Longrightarrow> number (block_header b) = head_number e + 1"
      "proposal (snd (bft_step C R n e)) = (if is_single_validator e then proposal e else None)"
proof (cases "is_single_validator e")
  case True
  show ?thesis
  proof (cases rule: advance_cases [OF laws ok, where ent = n, case_names fail advance])
    case (fail x txs)
    then show ?thesis using True stay by (simp add: bft_step_def)
  next
    case (advance b p cert txs)
    then show ?thesis using True move [of b p cert] by (simp add: bft_step_def extends_head_def)
  qed
next
  case False
  show ?thesis
  proof (cases rule: harvest_cases [OF ok, case_names idle commit])
    case idle
    then have "fst (bft_step C R n e) = Ok Idle \<or> (\<exists>x. fst (bft_step C R n e) = Err x)"
      using False by (auto simp: bft_step_def try_harvest_committed_def split: option.splits if_splits)
    then show ?thesis using stay idle bft_step_multi(2) [OF False ok, of n] by simp
  next
    case (commit b p c cert)
    then have "bft_step C R n e = (Ok (NewBlock (Block_hash C R b)), commit_block C R e b (vrf_output p) cert)"
      using False by (simp add: bft_step_def)
    then show ?thesis using move [of b p cert] commit False by (simp add: commit_block_def in_order_def)
  qed
qed

definition bft_ready :: "crypto \<Rightarrow> rlp \<Rightarrow> bft_engine \<Rightarrow> bool" where
  "bft_ready C R e \<longleftrightarrow>
     bls_aggregates C \<and> engine_ok C R e \<and> in_order e \<and>
     (is_single_validator e \<longrightarrow> coordinator e = None \<and> proposal e = None)"

definition bft_fresh :: "crypto \<Rightarrow> rlp \<Rightarrow> bft_engine \<Rightarrow> bool" where
  "bft_fresh C R e \<longleftrightarrow> bft_ready C R e \<and> coordinator e = None \<and> proposal e = None"

lemma step_ready: "bft_ready C R e \<Longrightarrow> bft_ready C R (snd (bft_step C R n e))"
proof -
  assume r: "bft_ready C R e"
  then have laws: "bls_aggregates C" and ok: "engine_ok C R e" and order: "in_order e"
      and c: "is_single_validator e \<longrightarrow> coordinator e = None \<and> proposal e = None"
    by (simp_all add: bft_ready_def)
  have ok': "engine_ok C R (snd (bft_step C R n e))"
    using bft_step_sound [OF laws ok, of n] c by (simp add: sound_op_def)
  have "in_order (snd (bft_step C R n e))"
    by (cases rule: step_cases [OF laws ok, of n]) (use order c in \<open>auto simp: in_order_def split: if_splits\<close>)
  moreover have "is_single_validator (snd (bft_step C R n e)) \<longrightarrow>
      coordinator (snd (bft_step C R n e)) = None \<and> proposal (snd (bft_step C R n e)) = None"
  proof (cases "is_single_validator e")
    case True
    show ?thesis
      by (cases rule: advance_cases [OF laws ok, where ent = n])
        (use True c in \<open>simp_all add: bft_step_def is_single_validator_def\<close>)
  next
    case False
    show ?thesis
      by (cases rule: harvest_cases [OF ok])
        (use False bft_step_multi(2) [OF False ok, of n] in \<open>simp_all add: is_single_validator_def commit_block_def\<close>)
  qed
  ultimately show ?thesis using laws ok' by (simp add: bft_ready_def)
qed

interpretation bft: chain_engine "BftEngine_ops C R" "Block_hash C R" "bft_fresh C R" "bft_ready C R" head_number
proof
  fix e r e' n g
  show "bft_fresh C R e \<Longrightarrow> eng_init (BftEngine_ops C R) e g = (r, e') \<Longrightarrow>
      r = Ok (Block_hash C R g) \<and> bft_ready C R e' \<and> eng_head (BftEngine_ops C R) e' = Block_hash C R g \<and>
      head_number e' = number (block_header g)"
    by (auto simp: BftEngine_ops_def bft_init_def Let_def bft_fresh_def bft_ready_def engine_inv_def in_order_def
        is_single_validator_def)
  show "step_contract (BftEngine_ops C R) (Block_hash C R) head_number e (eng_step (BftEngine_ops C R) n e)"
    if "bft_ready C R e"
  proof -
    have r: "bls_aggregates C" "engine_ok C R e" "in_order e" using that by (simp_all add: bft_ready_def)
    show ?thesis
      by (cases rule: step_cases [OF r(1,2), of n])
        (use r(3) in \<open>cases "bft_step C R n e", auto simp: step_contract_def BftEngine_ops_def attaches_def\<close>)+
  qed
  show "bft_ready C R e'" if "bft_ready C R e" "eng_step (BftEngine_ops C R) n e = (q, e')" for q
    using step_ready [OF that(1), of n] that(2) by (simp add: BftEngine_ops_def)
qed

subsection \<open>How the head moves\<close>

definition same_head :: "bft_engine \<Rightarrow> bft_engine \<Rightarrow> bool" where
  "same_head e e' \<longleftrightarrow> head_hash e' = head_hash e \<and> head_number e' = head_number e"

lemma drain_frame: "same_chain e (snd (drain_pending_votes C e))"
proof (induction C e rule: drain_pending_votes.induct)
  case (1 C e)
  let ?e = "drop_stale e"
  have chain: "same_chain e ?e" by (simp add: drop_stale_def same_chain_def)
  show ?case
  proof (cases "\<exists>c lp ap c1 lc ac c2. coordinator ?e = Some c \<and>
      replay_votes (submit_prevote C) c (pending_prevotes ?e) = Some (lp, ap, c1) \<and>
      replay_votes (submit_precommit C) c1 (pending_precommits ?e) = Some (lc, ac, c2)")
    case True
    then obtain c lp ap c1 lc ac c2 where r: "coordinator ?e = Some c"
      "replay_votes (submit_prevote C) c (pending_prevotes ?e) = Some (lp, ap, c1)"
      "replay_votes (submit_precommit C) c1 (pending_precommits ?e) = Some (lc, ac, c2)" by blast
    let ?e' = "?e\<lparr>coordinator := Some c2, pending_prevotes := lp, pending_precommits := lc\<rparr>"
    have chain': "same_chain e ?e'" using chain by (simp add: same_chain_def drop_stale_def)
    have "drain_pending_votes C e = (if ap \<or> ac then drain_pending_votes C ?e' else (Ok (), ?e'))"
      using r by (subst drain_pending_votes.simps) (simp add: Let_def)
    then show ?thesis
      using chain' same_chain_trans [OF chain' 1 [OF refl r(1,2) refl refl r(3) refl refl refl]] by simp
  next
    case False
    then have "snd (drain_pending_votes C e) = ?e"
      by (subst drain_pending_votes.simps) (auto simp: Let_def split: option.splits prod.splits)
    then show ?thesis using chain by simp
  qed
qed

lemma drain_same_head: "same_head e (snd (drain_pending_votes C e))"
  using drain_frame by (simp add: same_head_def same_chain_fields)

lemma ensure_same_head: "same_head e (ensure_coordinator e)"
  by (simp add: same_head_def ensure_coordinator_def split: option.split)

lemma park_same_head: "same_head e (park_evidence rec e v)"
  by (auto simp: same_head_def park_evidence_def split: prod.split option.split)

lemma cast_same_head:
  "same_head e (snd (cast_prevote C e))" "same_head e (snd (cast_precommit C e))"
  "same_head e (snd (fast_forward_to_round e r))" "same_head e (snd (rotate_validator_set e vs i))"
  "same_head e (snd (cast_proposal C R n e))"
  using ensure_same_head [of e]
  by (auto simp: same_head_def cast_prevote_def cast_precommit_def fast_forward_to_round_def
      rotate_validator_set_def cast_proposal_def drain_pending_txs_into_body_def Let_def
      split: option.splits result.splits prod.splits if_splits)

lemma same_head_trans: "same_head e e' \<Longrightarrow> same_head e' e'' \<Longrightarrow> same_head e e''"
  by (simp add: same_head_def)

lemma drain_after_update:
  "same_head e (e'\<lparr>coordinator := x, proposal := y\<rparr>) \<Longrightarrow>
     same_head e (snd (drain_pending_votes C (e'\<lparr>coordinator := x, proposal := y\<rparr>)))"
  "same_head e (e'\<lparr>coordinator := x\<rparr>) \<Longrightarrow> same_head e (snd (drain_pending_votes C (e'\<lparr>coordinator := x\<rparr>)))"
  using same_head_trans [OF _ drain_same_head] by blast+

lemma remote_same_head:
  "same_head e (snd (submit_remote_prevote C e v))" "same_head e (snd (submit_remote_precommit C e v))"
  "same_head e (snd (submit_remote_proposal C R e b p))" "same_head e (snd (tick_timeout C e))"
  using ensure_same_head [of e] park_same_head [of e record_prevote v] park_same_head [of e record_precommit v]
  by (auto simp: submit_remote_prevote_def submit_remote_precommit_def submit_remote_proposal_def
      tick_timeout_def Let_def split: option.splits result.splits prod.splits if_splits intro!: drain_after_update)
    (simp_all add: same_head_def)

text \<open>The head moves by one certified block or not at all.\<close>

definition certified_move :: "bool \<Rightarrow> crypto \<Rightarrow> rlp \<Rightarrow> bft_engine \<Rightarrow> bft_engine \<Rightarrow> block \<Rightarrow> certificate \<Rightarrow> bool" where
  "certified_move q C R e e' b cert \<longleftrightarrow>
     head_hash e' = Block_hash C R b \<and> (q \<longrightarrow> parent_hash (block_header b) = head_hash e) \<and>
     head_number e' = number (block_header b) \<and> (in_order e \<longrightarrow> number (block_header b) = head_number e + 1) \<and>
     c_block_hash cert = head_hash e' \<and> (q \<longrightarrow> c_height cert = head_number e + 1) \<and>
     PrecommitCertificate_verify C cert (active_set e) = Ok ()"

lemma event_moves_head:
  assumes laws: "bls_aggregates C" and ok: "engine_inv q C R e" and adm: "admissible q e ev"
  shows "same_head e (snd (run_event C R e ev)) \<or> (\<exists>b cert. certified_move q C R e (snd (run_event C R e ev)) b cert)"
proof (cases ev)
  case Harvest
  show ?thesis
    by (cases rule: harvest_cases [OF ok])
      (use Harvest in \<open>auto simp: same_head_def certified_move_def commit_block_def attaches_def in_order_def\<close>)
next
  case (Adopt b cert)
  show ?thesis
    by (cases rule: adopt_cases [of C R e b cert])
      (use Adopt in \<open>auto simp: same_head_def certified_move_def commit_block_def erase_def\<close>)
next
  case (EngineStep n)
  then show ?thesis
    by (cases rule: step_cases [OF laws ok, where n = n]; auto simp: same_head_def certified_move_def erase_def attaches_def)
next
  case (ExtendTxs txs)
  then show ?thesis by (simp add: extend_pending_txs_def same_head_def)
qed (simp_all add: erase_def cast_same_head remote_same_head,
     simp_all add: same_head_def set_pending_txs_def drain_evidence_def)

text \<open>The numbering of the held proposal is kept where proposals from peers carry the next number.\<close>

fun timely :: "bft_engine \<Rightarrow> engine_event \<Rightarrow> bool" where
  "timely e (RemoteProposal b p) \<longleftrightarrow> number (block_header b) = head_number e + 1"
| "timely e (EngineStep n) \<longleftrightarrow> (is_single_validator e \<longrightarrow> proposal e = None)"
| "timely e _ \<longleftrightarrow> True"

lemma in_order_cong: "proposal e' = proposal e \<or> proposal e' = None \<Longrightarrow> same_head e e' \<Longrightarrow> in_order e \<Longrightarrow> in_order e'"
  by (auto simp: in_order_def same_head_def)

lemma drain_in_order: "in_order (snd (drain_pending_votes C e)) = in_order e"
  using same_chain_fields(5,8) [OF drain_frame [of e C]] by (simp add: in_order_def)

lemma cast_proposal_in_order:
  assumes ok: "engine_ok C R e" and order: "in_order e"
  shows "in_order (snd (cast_proposal C R n e))"
proof -
  obtain c where c: "coordinator (ensure_coordinator e) = Some c" "coord_ok C R (ensure_coordinator e) c"
    using ensure_ok(2) [OF ok] by blast
  have same: "proposal (ensure_coordinator e) = proposal e" "head_number (ensure_coordinator e) = head_number e"
    by (simp_all add: ensure_coordinator_def split: option.split)
  show ?thesis
    using order c same
    by (auto simp: cast_proposal_def Let_def in_order_def drain_pending_txs_into_body_def coord_fits_def
        split: prod.splits result.splits)
qed

lemma event_in_order:
  assumes laws: "bls_aggregates C" and ok: "engine_ok C R e" and order: "in_order e" and "timely e ev"
  shows "in_order (snd (run_event C R e ev))"
proof (cases ev)
  case (Propose n)
  then show ?thesis using cast_proposal_in_order [OF ok order] by (simp add: erase_def)
next
  case Harvest
  then show ?thesis
    by (cases rule: harvest_cases [OF ok]) (use order in \<open>simp_all add: in_order_def commit_block_def\<close>)
next
  case (Adopt b cert)
  then show ?thesis
    by (cases rule: adopt_cases [of C R e b cert]) (use order in \<open>simp_all add: in_order_def commit_block_def erase_def\<close>)
next
  case (EngineStep n)
  then show ?thesis
    by (cases rule: step_cases [OF laws ok, where n = n])
      (use order assms(4) in \<open>auto simp: in_order_def erase_def split: if_splits\<close>)
next
  case (RemoteProposal b p)
  then show ?thesis
    using order assms(4) drain_in_order
    by (auto simp: erase_def submit_remote_proposal_def Let_def in_order_def ensure_coordinator_def
        split: option.splits result.splits prod.splits)
next
  case Timeout
  then show ?thesis
    using order drain_in_order
    by (auto simp: erase_def tick_timeout_def Let_def in_order_def ensure_coordinator_def split: option.splits)
next
  case (RemotePrevote v)
  then show ?thesis
    using order drain_in_order
    by (auto simp: erase_def submit_remote_prevote_def Let_def in_order_def park_evidence_def
        split: option.splits result.splits prod.splits)
next
  case (RemotePrecommit v)
  then show ?thesis
    using order drain_in_order
    by (auto simp: erase_def submit_remote_precommit_def Let_def in_order_def park_evidence_def
        split: option.splits result.splits prod.splits)
qed (use order in \<open>auto simp: erase_def in_order_def cast_prevote_def cast_precommit_def fast_forward_to_round_def
      rotate_validator_set_def set_pending_txs_def extend_pending_txs_def drain_evidence_def Let_def
      split: option.splits result.splits prod.splits if_splits\<close>)

subsection \<open>Votes that arrive early\<close>

lemma prevote_progress_any:
  assumes laws: "bls_aggregates C" and inv: "coord_inv C c'" and prog: "prevote_progress c b A c'"
  shows "prevote_progress c b A (snd (coord_step C c' (EvPrevote v)))"
proof (cases "rc_phase c' = Prevoting")
  case False
  with prog show ?thesis by (simp add: submit_prevote_def prevote_progress_def)
next
  case phase: True
  then obtain t where t: "prevote_tally c' = Some t" "A \<subseteq> unat ` received t" "tally_inv PrevoteVote_digest C t"
    using inv prog by (auto simp: coord_inv_def prevote_progress_def)
  note pv = prog [unfolded prevote_progress_def]
  show ?thesis
  proof (cases rule: prevote.submit_cases [of C t v])
    case (reject e)
    then show ?thesis using phase t pv by (auto simp: submit_prevote_def prevote_progress_def)
  next
    case admit
    have "tally_inv PrevoteVote_digest C (tally_add t v)"
      using prevote.inv_submit [OF t(3), of v] admit by simp
    then have "\<exists>p. try_form_polc C (tally_add t v) = Some p" if "has_quorum (tally_add t v)"
      using prevote.certificate_verifies [OF laws _ that] by blast
    then show ?thesis using admit phase t pv
      by (auto simp: submit_prevote_def prevote_progress_def Let_def tally_add_def)
  qed
qed

lemma precommit_progress_any:
  assumes laws: "bls_aggregates C" and inv: "coord_inv C c'" and prog: "precommit_progress c b A c'"
  shows "precommit_progress c b A (snd (coord_step C c' (EvPrecommit v)))"
proof (cases "rc_phase c' = Precommitting")
  case False
  with prog show ?thesis by (simp add: submit_precommit_def precommit_progress_def)
next
  case phase: True
  then obtain t where t: "precommit_tally c' = Some t" "A \<subseteq> unat ` received t" "tally_inv PrecommitVote_digest C t"
    using inv prog by (auto simp: coord_inv_def precommit_progress_def)
  note pv = prog [unfolded precommit_progress_def]
  show ?thesis
  proof (cases rule: precommit.submit_cases [of C t v])
    case (reject e)
    then show ?thesis using phase t pv by (auto simp: submit_precommit_def precommit_progress_def)
  next
    case admit
    have "tally_inv PrecommitVote_digest C (tally_add t v)"
      using precommit.inv_submit [OF t(3), of v] admit by simp
    then have "\<exists>p. try_finalize C (tally_add t v) = Some p" if "has_quorum (tally_add t v)"
      using precommit.certificate_verifies [OF laws _ that] by blast
    then show ?thesis using admit phase t pv
      by (auto simp: submit_precommit_def precommit_progress_def Let_def tally_add_def)
  qed
qed

text \<open>The votes of a list that count for a block; all others are noise.\<close>

definition good_votes :: "digest_fun \<Rightarrow> crypto \<Rightarrow> round_coordinator \<Rightarrow> h256 \<Rightarrow> vote list \<Rightarrow> nat set" where
  "good_votes digest C c b vs = voters (filter (\<lambda>v. votes_for digest C c b [v]) vs)"

lemma good_votes_Cons:
  "good_votes digest C c b (v # vs) =
     (if votes_for digest C c b [v] then insert (unat (validator_index v)) (good_votes digest C c b vs)
      else good_votes digest C c b vs)"
  by (simp add: good_votes_def voters_def)

lemma noisy_prevotes:
  assumes "bls_aggregates C" and "coord_inv C c'" and "prevote_progress c b A c'"
  shows "prevote_progress c b (A \<union> good_votes PrevoteVote_digest C c b vs) (coord_run C c' (map EvPrevote vs))"
  using assms(2,3)
proof (induction vs arbitrary: c' A)
  case (Cons v vs)
  note inv = coord_inv_step [OF assms(1) Cons.prems(1), of "EvPrevote v"]
  show ?case
  proof (cases "votes_for PrevoteVote_digest C c b [v]")
    case True
    from Cons.IH [OF inv prevote_progress_step [OF assms(1) Cons.prems True]] True
    show ?thesis by (simp add: good_votes_Cons)
  next
    case False
    from Cons.IH [OF inv prevote_progress_any [OF assms(1) Cons.prems]] False
    show ?thesis by (simp add: good_votes_Cons)
  qed
qed (simp add: good_votes_def voters_def)

lemma noisy_precommits:
  assumes "bls_aggregates C" and "coord_inv C c'" and "precommit_progress c b A c'"
  shows "precommit_progress c b (A \<union> good_votes PrecommitVote_digest C c b vs) (coord_run C c' (map EvPrecommit vs))"
  using assms(2,3)
proof (induction vs arbitrary: c' A)
  case (Cons v vs)
  note inv = coord_inv_step [OF assms(1) Cons.prems(1), of "EvPrecommit v"]
  show ?case
  proof (cases "votes_for PrecommitVote_digest C c b [v]")
    case True
    from Cons.IH [OF inv precommit_progress_step [OF assms(1) Cons.prems True]] True
    show ?thesis by (simp add: good_votes_Cons)
  next
    case False
    from Cons.IH [OF inv precommit_progress_any [OF assms(1) Cons.prems]] False
    show ?thesis by (simp add: good_votes_Cons)
  qed
qed (simp add: good_votes_def voters_def)

text \<open>A round with quorums among arbitrary other votes commits.\<close>

lemma noisy_round:
  assumes laws: "bls_aggregates C" and inv: "coord_inv C c" and phase: "rc_phase c = AwaitingProposal"
    and submitted: "submit_proposal C c b prf = (Ok u, c1)"
    and pre: "unat (quorum_threshold (rc_vs c)) \<le> stake_of (rc_vs c) (good_votes PrevoteVote_digest C c b ps)"
    and com: "unat (quorum_threshold (rc_vs c)) \<le> stake_of (rc_vs c) (good_votes PrecommitVote_digest C c b ws)"
  defines "c' \<equiv> coord_run C c1 (map EvPrevote ps @ map EvPrecommit ws)"
  shows "rc_phase c' = Committed"
proof -
  let ?c2 = "coord_run C c1 (map EvPrevote ps)"
  have inv1: "coord_inv C c1" using sound_step [OF laws inv, of "EvProposal b prf"] submitted by (simp add: sound_call_def)
  then have inv2: "coord_inv C ?c2" using laws by (simp add: coord_inv_run)
  have "prevote_progress c b {} c1"
    using submit_proposal_Ok [OF submitted] submitted phase
    by (auto simp: prevote_progress_def submit_proposal_def Let_def split: if_splits result.splits)
  from noisy_prevotes [OF laws inv1 this, of ps]
  have prog2: "prevote_progress c b (good_votes PrevoteVote_digest C c b ps) ?c2" by simp
  then have "rc_phase ?c2 = Precommitting" using prevote_quorum_moves inv2 pre by blast
  then have "precommit_progress c b {} ?c2"
    using prog2 inv2 by (auto simp: prevote_progress_def precommit_progress_def coord_inv_def)
  from noisy_precommits [OF laws inv2 this, of ws]
  have "precommit_progress c b (good_votes PrecommitVote_digest C c b ws) c'"
    by (simp add: c'_def coord_run_append)
  moreover have "coord_inv C c'" unfolding c'_def using laws inv1 by (rule coord_inv_run)
  ultimately show ?thesis using precommit_quorum_moves com by blast
qed

fun run_events :: "crypto \<Rightarrow> rlp \<Rightarrow> bft_engine \<Rightarrow> engine_event list \<Rightarrow> bft_engine" where
  "run_events C R e [] = e"
| "run_events C R e (ev # evs) = run_events C R (snd (run_event C R e ev)) evs"

lemma run_events_append: "run_events C R e (evs @ evs') = run_events C R (run_events C R e evs) evs'"
  by (induction evs arbitrary: e) simp_all

fun is_vote_event :: "engine_event \<Rightarrow> bool" where
  "is_vote_event (RemotePrevote v) = True"
| "is_vote_event (RemotePrecommit v) = True"
| "is_vote_event _ = False"

definition event_prevotes :: "engine_event list \<Rightarrow> vote list" where
  "event_prevotes evs = concat (map (\<lambda>ev. case ev of RemotePrevote v \<Rightarrow> [v] | _ \<Rightarrow> []) evs)"

definition event_precommits :: "engine_event list \<Rightarrow> vote list" where
  "event_precommits evs = concat (map (\<lambda>ev. case ev of RemotePrecommit v \<Rightarrow> [v] | _ \<Rightarrow> []) evs)"

text \<open>Before any round is open, votes only fill the buffers.\<close>

definition buffered_only :: "bft_engine \<Rightarrow> bft_engine \<Rightarrow> bool" where
  "buffered_only e e' \<longleftrightarrow>
     coordinator e' = None \<and> same_head e e' \<and> active_set e' = active_set e \<and> engine_seed e' = engine_seed e \<and>
     config e' = config e \<and> head_timestamp e' = head_timestamp e \<and> recent_blocks e' = recent_blocks e"

lemma early_vote:
  assumes "coordinator e = None"
  shows "buffered_only e (snd (submit_remote_prevote C e v))"
    and "buffered_only e (snd (submit_remote_precommit C e v))"
    and "pending_prevotes (snd (submit_remote_prevote C e v)) =
      pending_prevotes e @ (if head_number e < height v then [v] else [])"
    and "pending_precommits (snd (submit_remote_prevote C e v)) = pending_precommits e"
    and "pending_precommits (snd (submit_remote_precommit C e v)) =
      pending_precommits e @ (if head_number e < height v then [v] else [])"
    and "pending_prevotes (snd (submit_remote_precommit C e v)) = pending_prevotes e"
  using assms
  by (auto simp: submit_remote_prevote_def submit_remote_precommit_def Let_def buffered_only_def same_head_def
      park_evidence_def split: prod.splits option.splits)

lemma early_votes_buffered:
  fixes C :: crypto and R :: rlp
  assumes "coordinator e = None" and "list_all is_vote_event evs"
  defines "e' \<equiv> run_events C R e evs"
  shows "buffered_only e e' \<and>
    pending_prevotes e' = pending_prevotes e @ filter (\<lambda>v. head_number e < height v) (event_prevotes evs) \<and>
    pending_precommits e' = pending_precommits e @ filter (\<lambda>v. head_number e < height v) (event_precommits evs)"
  unfolding e'_def using assms(1,2)
proof (induction evs arbitrary: e)
  case Nil
  then show ?case by (simp add: buffered_only_def same_head_def event_prevotes_def event_precommits_def)
next
  case (Cons ev evs)
  obtain v where "ev = RemotePrevote v \<or> ev = RemotePrecommit v"
    using Cons.prems(2) by (cases ev) simp_all
  then have first: "buffered_only e (snd (run_event C R e ev))"
      "pending_prevotes (snd (run_event C R e ev)) = pending_prevotes e @ filter (\<lambda>v. head_number e < height v) (event_prevotes [ev])"
      "pending_precommits (snd (run_event C R e ev)) = pending_precommits e @ filter (\<lambda>v. head_number e < height v) (event_precommits [ev])"
    using early_vote [OF Cons.prems(1), of C v]
    by (auto simp: erase_def event_prevotes_def event_precommits_def)
  have split: "event_prevotes (ev # evs) = event_prevotes [ev] @ event_prevotes evs"
      "event_precommits (ev # evs) = event_precommits [ev] @ event_precommits evs"
    by (simp_all add: event_prevotes_def event_precommits_def)
  from Cons.IH [of "snd (run_event C R e ev)"] show ?case
    using first Cons.prems(2) unfolding split by (auto simp: buffered_only_def same_head_def)
qed

lemma run_votes_ok:
  assumes "bls_aggregates C"
  shows "engine_ok C R e \<Longrightarrow> list_all is_vote_event evs \<Longrightarrow> engine_ok C R (run_events C R e evs)"
proof (induction evs arbitrary: e)
  case (Cons ev evs)
  then have "admissible True e ev" by (cases ev) simp_all
  then show ?case using Cons event_sound [OF assms, of True R e ev] by (simp add: sound_op_def)
qed simp

lemma less_next:
  assumes "x \<noteq> max_word_val"
  shows "x < x + (1 :: 'a::len word)"
proof -
  have "unat x \<noteq> 2 ^ LENGTH('a) - 1"
    using assms by (auto simp: max_word_val_def word_unat_eq_iff unsigned_minus_1_eq_mask mask_eq_exp_minus_1)
  then have "unat x + 1 < 2 ^ LENGTH('a)" using unat_less_pow [of x] by linarith
  then show ?thesis by (simp add: word_less_nat_alt unat_word_ariths)
qed

lemma run_votes_reach: "engine_reach C R e \<Longrightarrow> list_all is_vote_event evs \<Longrightarrow> engine_reach C R (run_events C R e evs)"
proof (induction evs arbitrary: e)
  case (Cons ev evs)
  then have "admissible True e ev" by (cases ev) simp_all
  then show ?case using Cons engine_runs.event [of True C R e ev] by simp
qed simp

text \<open>The votes of a quorum are among those that count, and a superset of a quorum is one.\<close>

lemma quorum_is_good:
  fixes seed :: h256
  assumes "bls_signs C" and wf: "vs_wf vs" and sub: "set q \<subseteq> {..<vs_size vs}"
    and keys: "\<And>i. i < vs_size vs \<Longrightarrow> bls_pubkey (validators vs ! i) = bls_public_key_of C (sk i)"
    and sent: "\<And>i. i \<in> set q \<Longrightarrow>
       RemotePrevote (PrevoteVote_sign C (sk i) bh hgt 0 (word_of_nat i)) \<in> set evs \<and>
       RemotePrecommit (PrecommitVote_sign C (sk i) bh hgt 0 (word_of_nat i)) \<in> set evs"
    and "n < hgt"
  defines "c0 \<equiv> RoundCoordinator_new hgt seed vs"
  shows "set q \<subseteq> good_votes PrevoteVote_digest C c0 bh (filter (\<lambda>v. n < height v) (event_prevotes evs)) \<and>
    set q \<subseteq> good_votes PrecommitVote_digest C c0 bh (filter (\<lambda>v. n < height v) (event_precommits evs))"
proof -
  have c0: "rc_vs c0 = vs" "rc_height c0 = hgt" "rc_round c0 = 0" by (simp_all add: c0_def RoundCoordinator_new_def)
  have "i \<in> good_votes PrevoteVote_digest C c0 bh (filter (\<lambda>v. n < height v) (event_prevotes evs)) \<and>
      i \<in> good_votes PrecommitVote_digest C c0 bh (filter (\<lambda>v. n < height v) (event_precommits evs))" if "i \<in> set q" for i
  proof -
    let ?v = "PrevoteVote_sign C (sk i) bh hgt 0 (word_of_nat i)" and ?w = "PrecommitVote_sign C (sk i) bh hgt 0 (word_of_nat i)"
    have i: "set [i] \<subseteq> {..<vs_size vs}" using sub that by auto
    have v: "votes_for PrevoteVote_digest C c0 bh [?v]" "votes_for PrecommitVote_digest C c0 bh [?w]"
      using signed_votes(3,4) [OF assms(1) wf c0(1,2) i keys, of bh] by (simp_all add: c0(3))
    have "?v \<in> set (event_prevotes evs)" "?w \<in> set (event_precommits evs)"
      using sent [OF that] by (force simp: event_prevotes_def event_precommits_def)+
    moreover have "height ?v = hgt" "height ?w = hgt" "unat (validator_index ?v) = i" "unat (validator_index ?w) = i"
      using index_small [OF wf] i by (simp_all add: PrevoteVote_sign_def PrecommitVote_sign_def Let_def)
    ultimately show ?thesis using v \<open>n < hgt\<close> by (force simp: good_votes_def voters_def image_iff)
  qed
  then show ?thesis by blast
qed

lemma good_votes_quorum:
  assumes "q \<le> stake_of vs A" and "A \<subseteq> good_votes digest C c b ws"
  shows "q \<le> stake_of vs (good_votes digest C c b ws)"
proof -
  have "finite (good_votes digest C c b ws)" by (simp add: good_votes_def voters_def)
  then have "stake_of vs A \<le> stake_of vs (good_votes digest C c b ws)"
    using assms(2) unfolding stake_of_def by (intro sum_mono2) simp_all
  then show ?thesis using assms(1) by simp
qed

text \<open>The proposal finds the buffered votes and the round commits at once.\<close>

lemma proposal_commits:
  assumes laws: "bls_aggregates C" and ok: "engine_ok C R e" and none: "coordinator e = None"
    and ext: "attaches e b p"
    and leader: "LeaderProof_verify C p
       (vrf_pubkey (validators (active_set e) ! select_leader C (active_set e) (head_number e + 1) 0 (engine_seed e)))
       (head_number e + 1) 0 (engine_seed e) = Ok ()"
    and fresh: "\<forall>v \<in> set (pending_prevotes e) \<union> set (pending_precommits e). head_number e < height v"
  defines "c0 \<equiv> RoundCoordinator_new (head_number e + 1) (engine_seed e) (active_set e)"
  assumes pre: "unat (quorum_threshold (active_set e)) \<le>
      stake_of (active_set e) (good_votes PrevoteVote_digest C c0 (Block_hash C R b) (pending_prevotes e))"
    and com: "unat (quorum_threshold (active_set e)) \<le>
      stake_of (active_set e) (good_votes PrecommitVote_digest C c0 (Block_hash C R b) (pending_precommits e))"
  shows "\<exists>e' cert. submit_remote_proposal C R e b p = (Ok (), e') \<and>
    try_harvest_committed C R e' = (Some b, commit_block C R e' b (vrf_output p) cert) \<and> same_head e e' \<and>
    recent_blocks e' = recent_blocks e \<and> active_set e' = active_set e"
proof -
  have fields: "rc_vs c0 = active_set e" "rc_phase c0 = AwaitingProposal" "rc_height c0 = head_number e + 1"
      "rc_round c0 = 0" "rc_seed c0 = engine_seed e"
    by (simp_all add: c0_def RoundCoordinator_new_def)
  have inv0: "coord_inv C c0" using ok coord_inv_new by (simp add: c0_def engine_inv_def)
  obtain c1 where c1: "submit_proposal C c0 (Block_hash C R b) p = (Ok (), c1)"
    using leader by (simp add: submit_proposal_def fields leader_index_def)
  let ?e = "ensure_coordinator e" and ?e1 = "(ensure_coordinator e)\<lparr>coordinator := Some c1, proposal := Some (b, p)\<rparr>"
  have ens: "?e = e\<lparr>coordinator := Some c0\<rparr>" using none by (simp add: ensure_coordinator_def c0_def)
  have inv1: "coord_inv C c1"
    using sound_step [OF laws inv0, of "EvProposal (Block_hash C R b) p"] c1 by (simp add: sound_call_def)
  obtain e' es where e': "drain_pending_votes C ?e1 = (Ok (), e')" "same_chain ?e1 e'"
      "coordinator e' = Some (coord_run C c1 (first_pass ?e1 @ es))"
    using drain_runs [OF laws _ inv1, of ?e1] by (auto simp: drain_outcome_def)
  have pass: "first_pass ?e1 = map EvPrevote (pending_prevotes e) @ map EvPrecommit (pending_precommits e)"
    using fresh by (simp add: first_pass_def ens)
  have "rc_phase (coord_run C c1 (first_pass ?e1)) = Committed"
    unfolding pass using noisy_round [OF laws inv0 fields(2) c1] pre com by (simp add: fields)
  then have phase: "coord_run C c1 (first_pass ?e1 @ es) = coord_run C c1 (first_pass ?e1)"
    by (simp add: coord_run_append committed_run)
  let ?c = "coord_run C c1 (first_pass ?e1)"
  have "coord_inv C ?c" using laws inv1 by (rule coord_inv_run)
  then obtain cert where cert: "final_cert ?c = Some cert"
    using \<open>rc_phase ?c = Committed\<close> by (auto simp: coord_inv_def)
  have "submit_remote_proposal C R e b p = (Ok (), e')"
    using e'(1) c1 by (simp add: submit_remote_proposal_def ens)
  moreover have "try_harvest_committed C R e' = (Some b, commit_block C R e' b (vrf_output p) cert)"
    using e'(2,3) phase cert \<open>rc_phase ?c = Committed\<close>
    by (simp add: try_harvest_committed_def same_chain_fields)
  moreover have "same_head e e'" "recent_blocks e' = recent_blocks e" "active_set e' = active_set e"
    using same_chain_fields [OF e'(2)] by (simp_all add: same_head_def ens)
  ultimately show ?thesis by blast
qed

lemma early_round:
  assumes "bls_aggregates C" and "bls_signs C" and "engine_reach C R e" and "coordinator e = None"
    and "pending_prevotes e = []" and "pending_precommits e = []" and "head_number e \<noteq> max_word_val"
    and "list_all is_vote_event evs" and "attaches e b p"
    and "LeaderProof_verify C p
       (vrf_pubkey (validators (active_set e) ! select_leader C (active_set e) (head_number e + 1) 0 (engine_seed e)))
       (head_number e + 1) 0 (engine_seed e) = Ok ()"
    and "set q \<subseteq> {..<vs_size (active_set e)}" and "unat (quorum_threshold (active_set e)) \<le> stake_of (active_set e) (set q)"
    and "\<And>i. i < vs_size (active_set e) \<Longrightarrow> bls_pubkey (validators (active_set e) ! i) = bls_public_key_of C (sk i)"
    and "\<And>i. i \<in> set q \<Longrightarrow>
       RemotePrevote (PrevoteVote_sign C (sk i) (Block_hash C R b) (head_number e + 1) 0 (word_of_nat i)) \<in> set evs \<and>
       RemotePrecommit (PrecommitVote_sign C (sk i) (Block_hash C R b) (head_number e + 1) 0 (word_of_nat i)) \<in> set evs"
  shows "\<exists>cert. try_harvest_committed C R (run_events C R e (evs @ [RemoteProposal b p])) =
      (Some b, commit_block C R (run_events C R e (evs @ [RemoteProposal b p])) b (vrf_output p) cert) \<and>
    same_head e (run_events C R e (evs @ [RemoteProposal b p])) \<and>
    recent_blocks (run_events C R e (evs @ [RemoteProposal b p])) = recent_blocks e \<and>
    active_set (run_events C R e (evs @ [RemoteProposal b p])) = active_set e \<and>
    engine_reach C R (run_events C R e (evs @ [RemoteProposal b p]))"
proof -
  let ?vs = "active_set e" and ?bh = "Block_hash C R b"
  let ?c0 = "RoundCoordinator_new (head_number e + 1) (engine_seed e) ?vs"
  let ?e1 = "run_events C R e evs"
  note ok = engine_reach_ok [OF assms(1,3)]
  have wf: "vs_wf ?vs" using ok by (simp add: engine_inv_def)
  have next_lt: "head_number e < head_number e + 1" using assms(7) by (rule less_next)
  have buf: "buffered_only e ?e1"
      "pending_prevotes ?e1 = filter (\<lambda>v. head_number e < height v) (event_prevotes evs)"
      "pending_precommits ?e1 = filter (\<lambda>v. head_number e < height v) (event_precommits evs)"
    using early_votes_buffered [OF assms(4,8), of C R] assms(5,6) by simp_all
  have ok1: "engine_ok C R ?e1" using run_votes_ok [OF assms(1) ok assms(8)] .
  have good: "set q \<subseteq> good_votes PrevoteVote_digest C ?c0 ?bh (pending_prevotes ?e1)"
      "set q \<subseteq> good_votes PrecommitVote_digest C ?c0 ?bh (pending_precommits ?e1)"
    using quorum_is_good [OF assms(2) wf assms(11,13,14) next_lt] unfolding buf by blast+
  have same: "coordinator ?e1 = None" "active_set ?e1 = ?vs" "head_number ?e1 = head_number e"
      "engine_seed ?e1 = engine_seed e" "attaches ?e1 b p"
    using buf(1) assms(9) by (simp_all add: buffered_only_def same_head_def attaches_def)
  have fresh: "\<forall>v \<in> set (pending_prevotes ?e1) \<union> set (pending_precommits ?e1). head_number ?e1 < height v"
    unfolding buf same by auto
  obtain e2 cert where fin: "submit_remote_proposal C R ?e1 b p = (Ok (), e2)"
      "try_harvest_committed C R e2 = (Some b, commit_block C R e2 b (vrf_output p) cert)" "same_head ?e1 e2"
      "recent_blocks e2 = recent_blocks ?e1" "active_set e2 = ?vs"
    using proposal_commits [OF assms(1) ok1 same(1,5) _ fresh, unfolded same(2-4),
        OF assms(10) good_votes_quorum [OF assms(12) good(1)] good_votes_quorum [OF assms(12) good(2)]] by blast
  have "engine_reach C R (run_events C R e (evs @ [RemoteProposal b p]))"
    using engine_runs.event [OF run_votes_reach [OF assms(3,8)], of "RemoteProposal b p"] same(5)
    by (simp add: run_events_append)
  then show ?thesis
    using fin buf(1) by (auto simp: run_events_append erase_def buffered_only_def same_head_def)
qed

text \<open>A drained engine has nothing to replay.\<close>

lemma early_replay:
  assumes "\<forall>v \<in> set vs. \<exists>x. f c v = (Err x, c) \<and> is_early x"
  shows "replay_votes f c vs = Some (vs, False, c)"
  using assms by (induction vs) auto

lemma drained_stays:
  assumes "drained C e" and "coordinator e = Some c"
  shows "drain_pending_votes C e = (Ok (), e)"
proof -
  have stale: "drop_stale e = e" using assms(1) by (simp add: drop_stale_def drained_def)
  have "replay_votes (submit_prevote C) c (pending_prevotes e) = Some (pending_prevotes e, False, c)"
      "replay_votes (submit_precommit C) c (pending_precommits e) = Some (pending_precommits e, False, c)"
    using assms by (auto simp: drained_def intro!: early_replay)
  then show ?thesis using assms(2) by (subst drain_pending_votes.simps) (simp add: stale Let_def)
qed

lemma harvest_then_sync:
  assumes "bls_aggregates C" and "engine_ok C R e" and "in_order e" and "try_harvest_committed C R e = (Some b, e')"
    and "list_all (\<lambda>k. k \<le> head_number e) (map fst (recent_blocks e))" and "head_number e \<noteq> max_word_val"
    and "head_hash f = head_hash e" and "head_number f = head_number e" and "active_set f = active_set e"
  shows "\<exists>cert f'. committed_block_at e' (head_number e') = Some (b, cert) \<and>
    adopt_synced_block C R f b cert = (Ok b, f') \<and> head_hash f' = head_hash e' \<and> head_number f' = head_number e' \<and>
    head_timestamp f' = head_timestamp e' \<and> engine_seed f' = engine_seed e'"
proof -
  note ok = assms(2)
  show ?thesis
  proof (cases rule: harvest_cases [OF ok, case_names idle commit])
    case idle
    then show ?thesis using assms(4) by simp
  next
    case (commit b' p c cert)
    then have b: "b' = b" "e' = commit_block C R e b (vrf_output p) cert" using assms(4) by simp_all
    have hgt: "number (block_header b) = head_number e + 1" using commit b assms(3) by (simp add: in_order_def)
    have "\<forall>k \<in> fst ` set (recent_blocks e). k \<le> number (block_header b)"
      using assms(5) less_next [OF assms(6)] unfolding hgt by (fastforce simp: list_all_iff)
    moreover have "entry_ok C R (number (block_header b)) b cert"
      using commit b hgt by (simp add: entry_ok_def)
    ultimately have "committed_block_at e' (head_number e') = Some (b, cert)"
      using cached_block_is_served [of C R "recent_blocks e" b cert] ok
      by (simp add: b committed_block_at_def commit_block_def engine_inv_def)
    moreover have "adopt_synced_block C R f b cert =
        (Ok b, commit_block C R (f\<lparr>pending_prevotes := [], pending_precommits := []\<rparr>) b (mix_hash (block_header b)) cert)"
      using commit b assms(7-9) hgt by (simp add: adopt_synced_block_def attaches_def)
    ultimately show ?thesis using commit b by (auto simp: commit_block_def attaches_def)
  qed
qed

subsection \<open>A commit that a timeout overtakes\<close>

definition stuck :: "bft_engine \<Rightarrow> bool" where
  "stuck e \<longleftrightarrow> (\<exists>c. coordinator e = Some c \<and> rc_phase c = Committed) \<and> proposal e = None"

text \<open>The events of ordinary operation: everything but taking over a block from a peer, jumping rounds and stepping alone.\<close>

fun ordinary :: "bft_engine \<Rightarrow> engine_event \<Rightarrow> bool" where
  "ordinary e (Adopt b cert) = False"
| "ordinary e (FastForward r) = False"
| "ordinary e (EngineStep n) = (\<not> is_single_validator e)"
| "ordinary e _ = True"

lemma committed_replay:
  assumes "rc_phase c = Committed"
  shows "\<exists>l. replay_votes (submit_prevote C) c vs = Some (l, False, c)"
    and "\<exists>l. replay_votes (submit_precommit C) c vs = Some (l, False, c)"
  using assms by (induction vs) (auto simp: submit_prevote_def submit_precommit_def)

lemma committed_drain:
  assumes "coordinator e = Some c" and "rc_phase c = Committed"
  shows "coordinator (snd (drain_pending_votes C e)) = Some c"
proof -
  have "coordinator (drop_stale e) = Some c" using assms(1) by (simp add: drop_stale_def)
  moreover obtain l l' where
    "replay_votes (submit_prevote C) c (pending_prevotes (drop_stale e)) = Some (l, False, c)"
    "replay_votes (submit_precommit C) c (pending_precommits (drop_stale e)) = Some (l', False, c)"
    using committed_replay [OF assms(2)] by blast
  ultimately show ?thesis by (subst drain_pending_votes.simps) (simp add: Let_def)
qed

lemma stuck_event:
  assumes "stuck e" and "ordinary e ev"
  shows "stuck (snd (run_event C R e ev)) \<and> same_head e (snd (run_event C R e ev)) \<and>
    active_set (snd (run_event C R e ev)) = active_set e"
proof -
  obtain c where c: "coordinator e = Some c" "rc_phase c = Committed" "proposal e = None"
    using assms(1) by (auto simp: stuck_def)
  have ens: "ensure_coordinator e = e" using c(1) by (simp add: ensure_coordinator_def)
  have calls: "submit_proposal C c bh p = (Err (WrongPhase AwaitingProposal Committed), c)"
      "submit_prevote C c v = (Err (WrongPhase Prevoting Committed), c)"
      "submit_precommit C c v = (Err (WrongPhase Precommitting Committed), c)" "fire_timeout c = c" for bh p v
    using c(2) by (simp_all add: submit_proposal_def submit_prevote_def submit_precommit_def fire_timeout_def)
  have upd: "e\<lparr>coordinator := Some c\<rparr> = e" "e\<lparr>coordinator := Some c, proposal := None\<rparr> = e"
    using c by (cases e; simp)+
  have drain: "stuck (snd (drain_pending_votes C e)) \<and> same_head e (snd (drain_pending_votes C e)) \<and>
      active_set (snd (drain_pending_votes C e)) = active_set e"
    using committed_drain [OF c(1,2), of C] drain_same_head [of e C] same_chain_fields(2,8) [OF drain_frame [of e C]] c
    by (simp add: stuck_def)
  have park: "coordinator (park_evidence rec e v) = Some c" "proposal (park_evidence rec e v) = None"
      "active_set (park_evidence rec e v) = active_set e" for rec v
    using c by (auto simp: park_evidence_def split: prod.split option.split)
  have timeout: "tick_timeout C e = drain_pending_votes C e"
    using c(1) calls(4) upd(2) by (simp add: tick_timeout_def ens)
  show ?thesis
    using assms(2) c calls ens drain park park_same_head timeout
    by (cases ev)
      (auto simp: erase_def cast_proposal_def cast_prevote_def cast_precommit_def submit_remote_proposal_def
        submit_remote_prevote_def submit_remote_precommit_def try_harvest_committed_def
        rotate_validator_set_def set_pending_txs_def extend_pending_txs_def drain_evidence_def bft_step_def
        drain_pending_txs_into_body_def stuck_def same_head_def Let_def split: option.splits prod.splits if_splits)
qed

lemma stuck_run:
  assumes "stuck e" and "list_all (ordinary e) evs"
  shows "stuck (run_events C R e evs) \<and> same_head e (run_events C R e evs)"
  using assms
proof (induction evs arbitrary: e)
  case (Cons ev evs)
  let ?e = "snd (run_event C R e ev)"
  have step: "stuck ?e" "same_head e ?e" "active_set ?e = active_set e"
    using stuck_event [of e ev C R] Cons.prems by simp_all
  have "ordinary ?e = ordinary e"
  proof
    show "ordinary ?e ev' = ordinary e ev'" for ev'
      using step(3) by (cases ev') (simp_all add: is_single_validator_def)
  qed
  then show ?case using Cons.IH [OF step(1)] Cons.prems(2) step(2) same_head_trans [of e ?e] by simp
qed (simp add: same_head_def)

lemma harvestable_timeout:
  assumes "try_harvest_committed C R e = (Some b, e')"
  shows "stuck (snd (tick_timeout C e)) \<and> same_head e (snd (tick_timeout C e)) \<and>
    active_set (snd (tick_timeout C e)) = active_set e"
proof -
  obtain c where c: "coordinator e = Some c" "rc_phase c = Committed"
    using assms by (auto simp: try_harvest_committed_def split: option.splits if_splits)
  let ?e = "e\<lparr>coordinator := Some c, proposal := None\<rparr>"
  have "tick_timeout C e = drain_pending_votes C ?e"
    using c by (simp add: tick_timeout_def ensure_coordinator_def fire_timeout_def)
  moreover have "coordinator (snd (drain_pending_votes C ?e)) = Some c"
    using c by (intro committed_drain) simp_all
  ultimately show ?thesis
    using c(2) same_chain_fields [OF drain_frame [of ?e C]] by (simp add: stuck_def same_head_def)
qed

subsection \<open>A lock that does not bind\<close>

text \<open>
  The votes that every validator sends in one round for the block proposed there: \<open>cast_prevote\<close> and
  \<open>cast_precommit\<close> sign the proposal the engine holds, whatever the coordinator is locked on.
\<close>

definition round_prevotes :: "crypto \<Rightarrow> (nat \<Rightarrow> bls_secret_key) \<Rightarrow> nat \<Rightarrow> h256 \<Rightarrow> u64 \<Rightarrow> u32 \<Rightarrow> vote list" where
  "round_prevotes C sk n b hgt r = map (\<lambda>i. PrevoteVote_sign C (sk i) b hgt r (word_of_nat i)) [0..<n]"

definition round_precommits :: "crypto \<Rightarrow> (nat \<Rightarrow> bls_secret_key) \<Rightarrow> nat \<Rightarrow> h256 \<Rightarrow> u64 \<Rightarrow> u32 \<Rightarrow> vote list" where
  "round_precommits C sk n b hgt r = map (\<lambda>i. PrecommitVote_sign C (sk i) b hgt r (word_of_nat i)) [0..<n]"

lemma prevotes_lock:
  assumes laws: "bls_aggregates C" and inv: "coord_inv C c" and phase: "rc_phase c = AwaitingProposal"
    and leader: "LeaderProof_verify C prf (vrf_pubkey (validators (rc_vs c) ! leader_index C c))
       (rc_height c) (rc_round c) (rc_seed c) = Ok ()"
    and pre: "votes_for PrevoteVote_digest C c b prevotes"
      "unat (quorum_threshold (rc_vs c)) \<le> stake_of (rc_vs c) (voters prevotes)"
  defines "c' \<equiv> coord_run C c (EvProposal b prf # map EvPrevote prevotes @ [EvTimeout])"
  shows "rc_phase c' = AwaitingProposal \<and> rc_round c' = saturating_add (rc_round c) 1 \<and>
    (\<exists>l. locked c' = Some l \<and> l_block_hash l = b \<and> l_round l = rc_round c)"
proof -
  let ?c1 = "snd (coord_step C c (EvProposal b prf))"
  let ?c2 = "coord_run C ?c1 (map EvPrevote prevotes)"
  have inv1: "coord_inv C ?c1" and inv2: "coord_inv C ?c2"
    using laws inv by (simp_all add: coord_inv_step coord_inv_run del: coord_step.simps)
  have "prevote_progress c b {} ?c1"
    using phase leader by (simp add: submit_proposal_def prevote_progress_def)
  from prevote_progress_run [OF laws inv1 this pre(1)]
  have prog: "prevote_progress c b (voters prevotes) ?c2" by simp
  then have moved: "rc_phase ?c2 = Precommitting" using prevote_quorum_moves inv2 pre(2) by blast
  then have "locked ?c2 \<noteq> None" "l_block_hash (the (locked ?c2)) = b" "l_round (the (locked ?c2)) = rc_round c"
    using inv2 prog by (auto simp: coord_inv_def prevote_progress_def has_polc_def)
  moreover have "c' = fire_timeout ?c2" by (simp add: c'_def coord_run_append)
  ultimately show ?thesis using moved prog by (auto simp: fire_timeout_def prevote_progress_def)
qed

lemma no_round_conflict:
  assumes "v \<in> set (round_precommits C sk n b hgt r @ round_precommits C sk n b' hgt r')"
    and "v' \<in> set (round_precommits C sk n b hgt r @ round_precommits C sk n b' hgt r')" and "r \<noteq> r'"
  shows "\<not> conflicting v v'"
  using assms by (auto simp: round_precommits_def PrecommitVote_sign_def conflicting_def vote_key_def Let_def)

text \<open>A node that commits in round \<open>0\<close>, and one that sees the same prevotes but not the precommits.\<close>

definition fork_proposal :: "crypto \<Rightarrow> (nat \<Rightarrow> vrf_secret_key) \<Rightarrow> validator_set \<Rightarrow> u64 \<Rightarrow> h256 \<Rightarrow> u32 \<Rightarrow> h256 \<Rightarrow> coord_event" where
  "fork_proposal C lsk vs hgt seed r b =
     EvProposal b (LeaderProof_produce C 0 (lsk (select_leader C vs hgt r seed)) hgt r seed)"

definition fork_round ::
    "crypto \<Rightarrow> (nat \<Rightarrow> bls_secret_key) \<Rightarrow> (nat \<Rightarrow> vrf_secret_key) \<Rightarrow> validator_set \<Rightarrow> u64 \<Rightarrow> h256 \<Rightarrow> u32 \<Rightarrow> h256 \<Rightarrow>
       coord_event list" where
  "fork_round C sk lsk vs hgt seed r b =
     fork_proposal C lsk vs hgt seed r b # map EvPrevote (round_prevotes C sk (vs_size vs) b hgt r) @
     map EvPrecommit (round_precommits C sk (vs_size vs) b hgt r)"

lemma fork_round_commits:
  fixes b :: h256
  assumes laws: "bls_aggregates C" "bls_signs C" "vrf_proves C" and wf: "vs_wf vs"
    and reach: "coord_reach C vs hgt c" "rc_phase c = AwaitingProposal" "rc_seed c = seed"
    and keys: "\<And>i. i < vs_size vs \<Longrightarrow> bls_pubkey (validators vs ! i) = bls_public_key_of C (sk i)"
      "\<And>i. i < vs_size vs \<Longrightarrow> vrf_pubkey (validators vs ! i) = vrf_public_key_of C (lsk i)"
  defines "c' \<equiv> coord_run C c (fork_round C sk lsk vs hgt seed (rc_round c) b)"
  shows "rc_phase c' = Committed \<and> proposed_block c' = Some b \<and> rc_round c' = rc_round c"
proof -
  have frame: "rc_vs c = vs" "rc_height c = hgt" using coord_reach_frame [OF reach(1)] by simp_all
  then have idx: "leader_index C c = select_leader C vs hgt (rc_round c) seed"
    using reach(3) by (simp add: leader_index_def)
  have quorum: "unat (quorum_threshold vs) \<le> stake_of vs (set [0..<vs_size vs])"
    using quorum_le_total [OF wf] stake_of_all [OF wf] by (simp add: lessThan_atLeast0)
  have leader: "vrf_pubkey (validators vs ! leader_index C c) = vrf_public_key_of C (lsk (leader_index C c))"
    using keys(2) select_leader_less [OF wf] unfolding idx by blast
  show ?thesis
    using honest_signed_round [OF laws wf reach(1,2) keys(1) leader _ quorum _ quorum, of b 0] reach(3)
    by (simp add: c'_def fork_round_def fork_proposal_def round_prevotes_def round_precommits_def idx lessThan_atLeast0
        del: coord_run.simps)
qed

lemma fork_locks:
  fixes b :: h256
  assumes laws: "bls_aggregates C" "bls_signs C" "vrf_proves C" and wf: "vs_wf vs"
    and reach: "coord_reach C vs hgt c" "rc_phase c = AwaitingProposal" "rc_seed c = seed"
    and keys: "\<And>i. i < vs_size vs \<Longrightarrow> bls_pubkey (validators vs ! i) = bls_public_key_of C (sk i)"
      "\<And>i. i < vs_size vs \<Longrightarrow> vrf_pubkey (validators vs ! i) = vrf_public_key_of C (lsk i)"
  defines "c' \<equiv> coord_run C c (fork_proposal C lsk vs hgt seed (rc_round c) b #
     map EvPrevote (round_prevotes C sk (vs_size vs) b hgt (rc_round c)) @ [EvTimeout])"
  shows "rc_phase c' = AwaitingProposal \<and> rc_round c' = saturating_add (rc_round c) 1 \<and>
    (\<exists>l. locked c' = Some l \<and> l_block_hash l = b)"
proof -
  have frame: "rc_vs c = vs" "rc_height c = hgt" using coord_reach_frame [OF reach(1)] by simp_all
  then have idx: "leader_index C c = select_leader C vs hgt (rc_round c) seed"
    using reach(3) by (simp add: leader_index_def)
  have all: "set [0..<vs_size vs] \<subseteq> {..<vs_size vs}" by auto
  note votes = signed_votes(1) [OF laws(2) wf frame all keys(1), folded round_prevotes_def]
    signed_votes(3) [OF laws(2) wf frame all keys(1), folded round_prevotes_def]
  have quorum: "unat (quorum_threshold vs) \<le> stake_of vs (set [0..<vs_size vs])"
    using quorum_le_total [OF wf] stake_of_all [OF wf] by (simp add: lessThan_atLeast0)
  have "vrf_pubkey (validators vs ! leader_index C c) = vrf_public_key_of C (lsk (leader_index C c))"
    using keys(2) select_leader_less [OF wf] unfolding idx by blast
  then have leader: "LeaderProof_verify C (LeaderProof_produce C 0 (lsk (leader_index C c)) hgt (rc_round c) seed)
      (vrf_pubkey (validators (rc_vs c) ! leader_index C c)) (rc_height c) (rc_round c) (rc_seed c) = Ok ()"
    using LeaderProof_verify_produce [OF laws(3)] frame reach(3) by simp
  have inv: "coord_inv C c" using coord_reach_inv [OF laws(1) wf reach(1)] .
  have q: "unat (quorum_threshold (rc_vs c)) \<le>
      stake_of (rc_vs c) (voters (round_prevotes C sk (vs_size vs) b hgt (rc_round c)))"
    using quorum by (simp only: frame votes(1))
  show ?thesis
    using prevotes_lock [OF laws(1) inv reach(2) leader votes(2) q]
    unfolding c'_def fork_proposal_def idx by blast
qed

text \<open>The votes are those of the engines: what \<open>cast_prevote\<close> and \<open>cast_precommit\<close> return in the open round \<open>c\<close>.\<close>

definition casts :: "(bft_engine \<Rightarrow> (bft_error, vote) result \<times> bft_engine) \<Rightarrow> bft_engine list \<Rightarrow> round_coordinator \<Rightarrow>
    (bft_error, vote) result list" where
  "casts f es c = map (\<lambda>e. fst (f (e\<lparr>coordinator := Some c\<rparr>))) es"

definition engines_of :: "crypto \<Rightarrow> validator_set \<Rightarrow> bft_engine list \<Rightarrow> bool" where
  "engines_of C vs es \<longleftrightarrow> length es = vs_size vs \<and>
     (\<forall>i < vs_size vs. my_index (es ! i) = word_of_nat i \<and>
        bls_pubkey (validators vs ! i) = bls_public_key_of C (my_bls_sk (config (es ! i))) \<and>
        vrf_pubkey (validators vs ! i) = vrf_public_key_of C (my_vrf_sk (config (es ! i))))"

lemma fresh_prevote_counts:
  assumes laws: "bls_aggregates C" and inv: "coord_inv C c" and c: "rc_phase c = Prevoting" "proposed_block c = Some b"
    and t: "prevote_tally c = Some t" "received t = {}" and v: "votes_for PrevoteVote_digest C c b [v]"
  shows "fst (submit_prevote C c v) = Ok ()"
proof -
  have "bound_tally c b t" using inv c t(1) by (auto simp: coord_inv_def)
  then have "vote_admissible PrevoteVote_digest C t v"
    using v t(2) by (auto simp: vote_admissible_def votes_for_def bound_tally_def)
  then show ?thesis
    using sound_step [OF laws inv, of "EvPrevote v"] prevote.submit_admits [of C t v] c t
    by (auto simp: submit_prevote_def sound_call_def Let_def split: option.splits)
qed

lemma fresh_precommit_counts:
  assumes laws: "bls_aggregates C" and inv: "coord_inv C c" and c: "rc_phase c = Precommitting" "proposed_block c = Some b"
    and t: "precommit_tally c = Some t" "received t = {}" and v: "votes_for PrecommitVote_digest C c b [v]"
  shows "fst (submit_precommit C c v) = Ok ()"
proof -
  have "bound_tally c b t" using inv c t(1) by (auto simp: coord_inv_def)
  then have "vote_admissible PrecommitVote_digest C t v"
    using v t(2) by (auto simp: vote_admissible_def votes_for_def bound_tally_def)
  then show ?thesis
    using sound_step [OF laws inv, of "EvPrecommit v"] precommit.submit_admits [of C t v] c t
    by (auto simp: submit_precommit_def sound_call_def Let_def split: option.splits)
qed

text \<open>Prevotes alone leave the precommit tally of a round that they move on empty.\<close>

definition awaits_precommits :: "round_coordinator \<Rightarrow> bool" where
  "awaits_precommits c \<longleftrightarrow>
     rc_phase c = Prevoting \<or> rc_phase c = Precommitting \<and> (\<exists>t. precommit_tally c = Some t \<and> received t = {})"

lemma prevotes_await:
  "awaits_precommits c \<Longrightarrow> awaits_precommits (coord_run C c (map EvPrevote vs))"
proof (induction vs arbitrary: c)
  case (Cons v vs)
  have "awaits_precommits (snd (submit_prevote C c v))"
    using Cons.prems
    by (auto simp: awaits_precommits_def submit_prevote_def Let_def PrecommitTallier_new_def
        split: option.split result.split prod.split tally_state.split)
  then show ?case using Cons.IH by simp
qed simp

lemma cast_prevote_Ok:
  assumes "coordinator e = Some c" and "proposed_block c = Some b"
    and "v = PrevoteVote_sign C (my_bls_sk (config e)) b (rc_height c) (rc_round c) (my_index e)"
    and "fst (submit_prevote C c v) = Ok ()"
  shows "fst (cast_prevote C e) = Ok v"
  using assms by (cases "submit_prevote C c v") (simp add: cast_prevote_def)

lemma cast_precommit_Ok:
  assumes "coordinator e = Some c" and "rc_phase c = Precommitting" and "proposed_block c = Some b"
    and "v = PrecommitVote_sign C (my_bls_sk (config e)) b (rc_height c) (rc_round c) (my_index e)"
    and "fst (submit_precommit C c v) = Ok ()"
  shows "fst (cast_precommit C e) = Ok v"
  using assms by (cases "submit_precommit C c v") (simp add: cast_precommit_def)

lemma casts_Ok:
  assumes "length es = length votes"
    and "\<And>i. i < length votes \<Longrightarrow> fst (f ((es ! i)\<lparr>coordinator := Some c\<rparr>)) = Ok (votes ! i)"
  shows "casts f es c = map Ok votes"
  using assms by (simp add: casts_def list_eq_iff_nth_eq)

lemma votes_for_member: "votes_for digest C c b votes \<Longrightarrow> v \<in> set votes \<Longrightarrow> votes_for digest C c b [v]"
  by (simp add: votes_for_def)

lemma fork_phases:
  fixes b :: h256
  assumes laws: "bls_aggregates C" "bls_signs C" "vrf_proves C" and wf: "vs_wf vs"
    and reach: "coord_reach C vs hgt c" "rc_phase c = AwaitingProposal" "rc_seed c = seed"
    and keys: "\<And>i. i < vs_size vs \<Longrightarrow> bls_pubkey (validators vs ! i) = bls_public_key_of C (sk i)"
      "\<And>i. i < vs_size vs \<Longrightarrow> vrf_pubkey (validators vs ! i) = vrf_public_key_of C (lsk i)"
  defines "ps \<equiv> round_prevotes C sk (vs_size vs) b hgt (rc_round c)"
  defines "c1 \<equiv> coord_run C c [fork_proposal C lsk vs hgt seed (rc_round c) b]"
  defines "c2 \<equiv> coord_run C c1 (map EvPrevote ps)"
  shows "rc_phase c1 = Prevoting" "proposed_block c1 = Some b" "rc_vs c1 = vs" "rc_height c1 = hgt" "rc_round c1 = rc_round c"
    and "prevote_tally c1 = Some (PrevoteTallier_new b hgt (rc_round c) vs)"
    and "rc_phase c2 = Precommitting" "proposed_block c2 = Some b" "rc_vs c2 = vs" "rc_height c2 = hgt" "rc_round c2 = rc_round c"
    and "\<exists>t. precommit_tally c2 = Some t \<and> received t = {}" and "coord_inv C c1" and "coord_inv C c2"
proof -
  have frame: "rc_vs c = vs" "rc_height c = hgt" using coord_reach_frame [OF reach(1)] by simp_all
  have inv: "coord_inv C c" using coord_reach_inv [OF laws(1) wf reach(1)] .
  have idx: "leader_index C c = select_leader C vs hgt (rc_round c) seed"
    using reach(3) frame by (simp add: leader_index_def)
  have leader: "LeaderProof_verify C (LeaderProof_produce C 0 (lsk (leader_index C c)) hgt (rc_round c) seed)
      (vrf_pubkey (validators vs ! leader_index C c)) hgt (rc_round c) seed = Ok ()"
    using LeaderProof_verify_produce [OF laws(3)] keys(2) select_leader_less [OF wf] unfolding idx by simp
  show c1: "rc_phase c1 = Prevoting" "proposed_block c1 = Some b" "rc_vs c1 = vs" "rc_height c1 = hgt" "rc_round c1 = rc_round c"
      "prevote_tally c1 = Some (PrevoteTallier_new b hgt (rc_round c) vs)"
    using reach(2,3) leader frame by (simp_all add: c1_def fork_proposal_def submit_proposal_def idx)
  show inv1: "coord_inv C c1" and inv2: "coord_inv C c2" unfolding c2_def c1_def by (intro coord_inv_run [OF laws(1)] inv)+
  have all: "set [0..<vs_size vs] \<subseteq> {..<vs_size vs}" by auto
  note votes = signed_votes [OF laws(2) wf frame all keys(1)]
  have "prevote_progress c b {} c1" using c1 frame by (simp add: prevote_progress_def)
  from prevote_progress_run [OF laws(1) inv1 this, of ps]
  have prog: "prevote_progress c b (voters ps) c2" using votes(3) by (simp add: c2_def ps_def round_prevotes_def)
  then show c2: "proposed_block c2 = Some b" "rc_vs c2 = vs" "rc_height c2 = hgt" "rc_round c2 = rc_round c"
    using frame by (simp_all add: prevote_progress_def)
  have "unat (quorum_threshold vs) \<le> stake_of vs (voters ps)"
    using quorum_le_total [OF wf] stake_of_all [OF wf] votes(1) by (simp add: ps_def round_prevotes_def lessThan_atLeast0)
  then show p2: "rc_phase c2 = Precommitting" using prog prevote_quorum_moves inv2 frame by metis
  have "awaits_precommits c2" unfolding c2_def by (rule prevotes_await) (simp add: awaits_precommits_def c1(1))
  then show "\<exists>t. precommit_tally c2 = Some t \<and> received t = {}" using p2 by (auto simp: awaits_precommits_def)
qed

lemma fork_votes_are_cast:
  fixes b :: h256
  assumes laws: "bls_aggregates C" "bls_signs C" "vrf_proves C" and wf: "vs_wf vs"
    and reach: "coord_reach C vs hgt c" "rc_phase c = AwaitingProposal" "rc_seed c = seed" and es: "engines_of C vs es"
  defines "sk \<equiv> \<lambda>i. my_bls_sk (config (es ! i))" and "lsk \<equiv> \<lambda>i. my_vrf_sk (config (es ! i))"
  defines "P \<equiv> fork_proposal C lsk vs hgt seed (rc_round c) b"
    and "ps \<equiv> round_prevotes C sk (vs_size vs) b hgt (rc_round c)"
    and "cs \<equiv> round_precommits C sk (vs_size vs) b hgt (rc_round c)"
  shows "casts (cast_prevote C) es (coord_run C c [P]) = map Ok ps"
    and "casts (cast_precommit C) es (coord_run C c (P # map EvPrevote ps)) = map Ok cs"
proof -
  let ?c1 = "coord_run C c [P]" and ?c2 = "coord_run C (coord_run C c [P]) (map EvPrevote ps)"
  have n: "length es = vs_size vs" and idx: "\<And>i. i < vs_size vs \<Longrightarrow> my_index (es ! i) = word_of_nat i"
    and keys: "\<And>i. i < vs_size vs \<Longrightarrow> bls_pubkey (validators vs ! i) = bls_public_key_of C (sk i)"
      "\<And>i. i < vs_size vs \<Longrightarrow> vrf_pubkey (validators vs ! i) = vrf_public_key_of C (lsk i)"
    using es by (auto simp: engines_of_def sk_def lsk_def)
  have ph: "rc_phase ?c1 = Prevoting" "proposed_block ?c1 = Some b" "rc_vs ?c1 = vs" "rc_height ?c1 = hgt" "rc_round ?c1 = rc_round c"
    "prevote_tally ?c1 = Some (PrevoteTallier_new b hgt (rc_round c) vs)"
    "rc_phase ?c2 = Precommitting" "proposed_block ?c2 = Some b" "rc_vs ?c2 = vs" "rc_height ?c2 = hgt" "rc_round ?c2 = rc_round c"
    "\<exists>t. precommit_tally ?c2 = Some t \<and> received t = {}" "coord_inv C ?c1" "coord_inv C ?c2"
    unfolding P_def ps_def by (rule fork_phases [OF laws wf reach keys]; assumption)+
  have all: "set [0..<vs_size vs] \<subseteq> {..<vs_size vs}" by auto
  show "casts (cast_prevote C) es ?c1 = map Ok ps"
  proof (rule casts_Ok)
    fix i assume "i < length ps"
    then have v: "ps ! i = PrevoteVote_sign C (sk i) b hgt (rc_round c) (my_index (es ! i))" "ps ! i \<in> set ps"
      using idx by (simp_all add: ps_def round_prevotes_def)
    then have "votes_for PrevoteVote_digest C ?c1 b [ps ! i]"
      using signed_votes(3) [OF laws(2) wf ph(3,4) all keys(1), of b]
      by (intro votes_for_member [of _ _ _ _ ps]) (simp_all add: ps_def round_prevotes_def ph(5) del: coord_run.simps)
    then have "fst (submit_prevote C ?c1 (ps ! i)) = Ok ()"
      using fresh_prevote_counts [OF laws(1) ph(13,1,2,6)] by (simp add: PrevoteTallier_new_def del: coord_run.simps)
    then show "fst (cast_prevote C ((es ! i)\<lparr>coordinator := Some ?c1\<rparr>)) = Ok (ps ! i)"
      using ph v by (intro cast_prevote_Ok [where c = ?c1 and b = b]) (simp_all add: sk_def del: coord_run.simps)
  qed (simp add: n ps_def round_prevotes_def)
  have "casts (cast_precommit C) es ?c2 = map Ok cs"
  proof (rule casts_Ok)
    fix i assume "i < length cs"
    then have v: "cs ! i = PrecommitVote_sign C (sk i) b hgt (rc_round c) (my_index (es ! i))" "cs ! i \<in> set cs"
      using idx by (simp_all add: cs_def round_precommits_def)
    then have "votes_for PrecommitVote_digest C ?c2 b [cs ! i]"
      using signed_votes(4) [OF laws(2) wf ph(9,10) all keys(1), of b]
      by (intro votes_for_member [of _ _ _ _ cs]) (simp_all add: cs_def round_precommits_def ph(11) del: coord_run.simps)
    then have "fst (submit_precommit C ?c2 (cs ! i)) = Ok ()"
      using fresh_precommit_counts [OF laws(1) ph(14,7,8)] ph(12) by blast
    then show "fst (cast_precommit C ((es ! i)\<lparr>coordinator := Some ?c2\<rparr>)) = Ok (cs ! i)"
      using ph v by (intro cast_precommit_Ok [where c = ?c2 and b = b]) (simp_all add: sk_def del: coord_run.simps)
  qed (simp add: n cs_def round_precommits_def)
  then show "casts (cast_precommit C) es (coord_run C c (P # map EvPrevote ps)) = map Ok cs" by simp
qed

subsection \<open>A concrete engine\<close>

text \<open>The lone validator of \<open>demo_vs\<close>, freshly created on a genesis block.\<close>

definition demo_genesis :: block where
  "demo_genesis =
     \<lparr>block_header = to_header \<lparr>gen_chain_spec = mainnet, gen_timestamp = 1700000000, gen_extra_data = [],
        gen_alloc = [], gen_validators = [], gen_initial_seed = 0\<rparr> EMPTY_TRIE_HASH, body = BlockBody_default\<rparr>"

definition demo_cfg :: bft_config where
  "demo_cfg =
     \<lparr>cfg_validator_set = demo_vs, cfg_my_index = 0, my_bls_sk = demo_sk, my_vrf_sk = demo_vrf_sk,
      initial_seed = 0, cfg_coinbase = 5, cfg_gas_limit = 30000000, cfg_base_fee_per_gas = 1,
      slot_seconds = 3, executor = None\<rparr>"

definition demo_engine :: bft_engine where
  "demo_engine = BftEngine_new demo_crypto rlp_format demo_cfg demo_genesis"

definition demo_proposal :: block where
  "demo_proposal = reconstruct_proposed_block demo_crypto rlp_format demo_engine 1 demo_proof"

lemma demo_engine_fields:
  "active_set demo_engine = demo_vs" "my_index demo_engine = 0" "head_number demo_engine = 0"
  "engine_seed demo_engine = 0" "coordinator demo_engine = None" "proposal demo_engine = None"
  "pending_prevotes demo_engine = []" "pending_precommits demo_engine = []" "recent_blocks demo_engine = []"
  "config demo_engine = demo_cfg"
  by (simp_all add: demo_engine_def BftEngine_new_def demo_cfg_def demo_genesis_def to_header_def)

lemma demo_reach: "engine_reach demo_crypto rlp_format demo_engine"
  unfolding demo_engine_def
  by (rule engine_runs.created) (simp_all add: demo_cfg_def demo_wf demo_quorum)

lemma demo_extends: "extends_head demo_engine demo_proposal demo_proof"
  by (simp add: extends_head_def attaches_def demo_proposal_def reconstruct_proposed_block_def
      reconstruct_proposed_block_with_body_def demo_engine_fields)

lemma demo_owns_keys: "owns_keys demo_crypto demo_engine"
  by (simp add: owns_keys_def demo_engine_fields demo_cfg_def) (simp add: demo_vs_def)

text \<open>The validator's own votes, received before its proposal, and the engine they leave ready to harvest.\<close>

definition demo_votes_for :: "block \<Rightarrow> engine_event list" where
  "demo_votes_for b =
     [RemotePrecommit (PrecommitVote_sign demo_crypto demo_sk (Block_hash demo_crypto rlp_format b) 1 0 0),
      RemotePrevote (PrevoteVote_sign demo_crypto demo_sk (Block_hash demo_crypto rlp_format b) 1 0 0)]"

definition demo_ready :: bft_engine where
  "demo_ready = run_events demo_crypto rlp_format demo_engine (demo_votes_for demo_proposal @ [RemoteProposal demo_proposal demo_proof])"

lemma demo_early:
  "coordinator demo_engine = None" "pending_prevotes demo_engine = []" "pending_precommits demo_engine = []"
  "head_number demo_engine \<noteq> max_word_val" "list_all is_vote_event (demo_votes_for b)"
  "LeaderProof_verify demo_crypto demo_proof (vrf_pubkey (validators (active_set demo_engine) !
     select_leader demo_crypto (active_set demo_engine) (head_number demo_engine + 1) 0 (engine_seed demo_engine)))
     (head_number demo_engine + 1) 0 (engine_seed demo_engine) = Ok ()"
  "set [0] \<subseteq> {..<vs_size (active_set demo_engine)}"
  "unat (quorum_threshold (active_set demo_engine)) \<le> stake_of (active_set demo_engine) (set [0])"
  "i < vs_size (active_set demo_engine) \<Longrightarrow>
     bls_pubkey (validators (active_set demo_engine) ! i) = bls_public_key_of demo_crypto demo_sk"
  "i \<in> set [0] \<Longrightarrow>
     RemotePrevote (PrevoteVote_sign demo_crypto demo_sk (Block_hash demo_crypto rlp_format b)
       (head_number demo_engine + 1) 0 (word_of_nat i)) \<in> set (demo_votes_for b) \<and>
     RemotePrecommit (PrecommitVote_sign demo_crypto demo_sk (Block_hash demo_crypto rlp_format b)
       (head_number demo_engine + 1) 0 (word_of_nat i)) \<in> set (demo_votes_for b)"
  using demo_leader_proof demo_leader
  by (simp_all add: demo_engine_fields max_word_val_def demo_votes_for_def demo_quorum stake_of_def
      leader_index_def RoundCoordinator_new_def)
    (simp add: demo_vs_def)

lemma demo_ready_harvest:
  "\<exists>e'. try_harvest_committed demo_crypto rlp_format demo_ready = (Some demo_proposal, e') \<and> head_number e' = 1"
  and demo_ready_fields: "head_hash demo_ready = head_hash demo_engine" "head_number demo_ready = 0"
    "recent_blocks demo_ready = []" "active_set demo_ready = demo_vs"
  and demo_ready_reach: "engine_reach demo_crypto rlp_format demo_ready"
  using early_round [where b = demo_proposal, OF demo_bls_aggregates demo_bls_signs demo_reach demo_early(1-5) _ demo_early(6-10)]
    demo_extends
  by (auto simp: demo_ready_def [symmetric] commit_block_def same_head_def demo_engine_fields extends_head_def)

lemma demo_ready_in_order: "in_order demo_ready"
proof -
  obtain p where "proposal demo_ready = Some (demo_proposal, p)"
    using demo_ready_harvest by (auto simp: try_harvest_committed_def split: option.splits if_splits)
  then show ?thesis
    using demo_extends by (simp add: in_order_def demo_ready_fields extends_head_def demo_engine_fields)
qed

subsection \<open>Properties\<close>

text \<open>
  (C21) No engine panics. Start from a new or recovered engine whose own index lies in its validator set and call its operations
  (every one but \<open>init\<close>) any number of times, in any order and with any arguments, rotations to sets built by the constructor:
  every \<open>expect\<close> and \<open>unwrap\<close> succeeds, and the invariant holds. The open round runs under the active set; once past the
  wait for a proposal, either the engine holds the block the round votes on, or the round has committed and its proposal
  was dropped; the cache of at most 64 blocks pairs every block with a certificate for it. This is the case \<open>q = False\<close>. If
  all along proposals from peers are built on the engine's head and a lone validator steps only between rounds (\<open>q\<close>),
  moreover the open round is for the next height and the current seed, and the block held attaches to the head; where
  each such proposal also carries the next number, so does the one held.
\<close>

theorem engine_never_panics:
  assumes "bls_aggregates C" and "engine_runs q C R e" and "admissible q e ev" and "e' = snd (run_event C R e ev)"
  shows "fst (run_event C R e ev) \<noteq> Panic \<and> engine_inv q C R e' \<and> (q \<and> in_order e \<and> timely e ev \<longrightarrow> in_order e')"
  using event_sound [OF assms(1) engine_runs_inv [OF assms(1,2)] assms(3)]
    event_in_order [OF assms(1), of R e ev] engine_runs_inv [OF assms(1,2)] assms(4) by (cases q) (simp_all add: sound_op_def)

text \<open>The witness: a proposal on the head, and then, without the assumption, an unrelated block in the committed round.\<close>

definition demo_foreign :: block where
  "demo_foreign = demo_proposal\<lparr>block_header := (block_header demo_proposal)\<lparr>parent_hash := head_hash demo_ready + 1\<rparr>\<rparr>"

theorem engine_never_panics_witness:
  "engine_inv True demo_crypto rlp_format (snd (run_event demo_crypto rlp_format demo_engine (RemoteProposal demo_proposal demo_proof))) \<and>
   \<not> attaches demo_ready demo_foreign demo_proof \<and>
   fst (run_event demo_crypto rlp_format demo_ready (RemoteProposal demo_foreign demo_proof)) \<noteq> Panic"
  using engine_never_panics [OF demo_bls_aggregates demo_reach _ refl, of "RemoteProposal demo_proposal demo_proof"] demo_extends
    engine_never_panics [OF demo_bls_aggregates reach_runs [OF demo_ready_reach] _ refl, of "RemoteProposal demo_foreign demo_proof"]
  by (simp add: extends_head_def attaches_def demo_foreign_def del: run_event.simps)

text \<open>
  (C19) The head moves only by certified blocks. Whatever operation but \<open>init\<close> is called on an engine that a run of such calls led
  to, with any arguments (\<open>q = False\<close>; rotations to sets built by the constructor), the head stays where it is, or moves to
  the hash and number of a block for which a precommit certificate names exactly this block and verifies against the
  engine's active validator set; the number is the next one if the proposal that the engine holds, if any, is numbered so.
  Where all along proposals from peers are built on the engine's head and a lone validator steps only between rounds
  (\<open>q\<close>), the block's parent is the old head and the certificate is for the height after it.
\<close>

theorem head_moves_by_certified_blocks:
  assumes "bls_aggregates C" and "engine_runs q C R e" and "admissible q e ev" and "e' = snd (run_event C R e ev)"
  shows "head_hash e' = head_hash e \<and> head_number e' = head_number e \<or>
    (\<exists>b cert. head_hash e' = Block_hash C R b \<and> head_number e' = number (block_header b) \<and>
       c_block_hash cert = head_hash e' \<and> PrecommitCertificate_verify C cert (active_set e) = Ok () \<and>
       (in_order e \<longrightarrow> head_number e' = head_number e + 1) \<and>
       (q \<longrightarrow> parent_hash (block_header b) = head_hash e \<and> c_height cert = head_number e + 1))"
  using event_moves_head [OF assms(1) engine_runs_inv [OF assms(1,2)] assms(3)] assms(4)
  unfolding same_head_def certified_move_def by metis

text \<open>The witness: the head of the engine that has committed a round moves from \<open>0\<close> to \<open>1\<close>.\<close>

theorem head_moves_by_certified_blocks_witness:
  "let e' = snd (run_event demo_crypto rlp_format demo_ready Harvest)
   in head_number demo_ready = 0 \<and> head_number e' = 1 \<and>
     (\<exists>b cert. head_hash e' = Block_hash demo_crypto rlp_format b \<and> parent_hash (block_header b) = head_hash demo_ready \<and>
        c_block_hash cert = head_hash e' \<and> PrecommitCertificate_verify demo_crypto cert demo_vs = Ok ())"
proof -
  have "head_number (snd (run_event demo_crypto rlp_format demo_ready Harvest)) = 1" using demo_ready_harvest by auto
  then show ?thesis
    using head_moves_by_certified_blocks [OF demo_bls_aggregates demo_ready_reach _ refl, of Harvest] demo_ready_fields
    by (auto simp: Let_def simp del: run_event.simps)
qed

text \<open>
  A lone validator makes progress. An engine that is the only validator of its set and holds the keys
  listed for it commits a block in every step: the block extends the head by one, carries the longest
  prefix of the staged transactions that the gas limit allows, and comes with a certificate that
  verifies against the set. The staged transactions it leaves are exactly the others.
\<close>

theorem lone_validator_advances:
  assumes "bls_aggregates C" and "bls_signs C" and "vrf_proves C" and "engine_reach C R e"
    and "vs_size (active_set e) = 1" and "owns_keys C e" and "head_number e \<noteq> max_word_val"
  shows "\<exists>b cert e'. advance_single C R n e = (Ok \<lparr>ao_block = b, ao_block_hash = Block_hash C R b, ao_certificate = cert\<rparr>, e') \<and>
    certified_move True C R e e' b cert \<and> head_number e' = head_number e + 1 \<and> pending_txs e = transactions (body b) @ pending_txs e' \<and>
    length (transactions (body b)) = min (length (pending_txs e)) (unat (cfg_gas_limit (config e) div PLACEHOLDER_TX_GAS))"
proof -
  note ok = engine_reach_ok [OF assms(1,4)]
  obtain out e' where out: "advance_single C R n e = (Ok out, e')"
    using lone_advances [OF assms(1-3) ok assms(5-7), of n] by blast
  show ?thesis
  proof (cases rule: advance_cases [OF assms(1) ok, where ent = n, case_names fail advance])
    case (fail x txs)
    then show ?thesis using out by simp
  next
    case (advance b p cert txs)
    then have "certified_move True C R e e' b cert" "head_number e' = head_number e + 1" "pending_txs e' = txs"
      using out by (auto simp: certified_move_def extends_head_def attaches_def)
    moreover have "length (transactions (body b)) =
        min (length (pending_txs e)) (unat (cfg_gas_limit (config e) div PLACEHOLDER_TX_GAS))"
      using advance(1) assms(5)
      by (auto simp: advance_single_def Let_def split: option.splits prod.splits result.splits)
    ultimately show ?thesis using out advance by auto
  qed
qed

theorem lone_validator_advances_witness:
  "\<exists>b cert e'. advance_single demo_crypto rlp_format 7 demo_engine =
     (Ok \<lparr>ao_block = b, ao_block_hash = Block_hash demo_crypto rlp_format b, ao_certificate = cert\<rparr>, e') \<and>
     head_number e' = 1"
  using lone_validator_advances [OF demo_bls_aggregates demo_bls_signs demo_vrf_proves demo_reach, of 7]
    demo_owns_keys demo_quorum
  by (auto simp: demo_engine_fields certified_move_def max_word_val_def)

text \<open>
  (C20) Votes may overtake the proposal. Between two rounds an engine receives any sequence of prevotes and
  precommits, forged ones included, in any interleaving; if it contains the prevotes and precommits of
  validators holding a quorum for a block, then the leader's proposal of that block and one harvest
  move the head to it.
\<close>

theorem early_votes_commit:
  assumes "bls_aggregates C" and "bls_signs C" and "engine_reach C R e" and "coordinator e = None"
    and "pending_prevotes e = []" and "pending_precommits e = []" and "head_number e \<noteq> max_word_val"
    and "list_all is_vote_event evs" and "extends_head e b p"
    and "LeaderProof_verify C p
       (vrf_pubkey (validators (active_set e) ! select_leader C (active_set e) (head_number e + 1) 0 (engine_seed e)))
       (head_number e + 1) 0 (engine_seed e) = Ok ()"
    and "set q \<subseteq> {..<vs_size (active_set e)}" and "unat (quorum_threshold (active_set e)) \<le> stake_of (active_set e) (set q)"
    and "\<And>i. i < vs_size (active_set e) \<Longrightarrow> bls_pubkey (validators (active_set e) ! i) = bls_public_key_of C (sk i)"
    and "\<And>i. i \<in> set q \<Longrightarrow>
       RemotePrevote (PrevoteVote_sign C (sk i) (Block_hash C R b) (head_number e + 1) 0 (word_of_nat i)) \<in> set evs \<and>
       RemotePrecommit (PrecommitVote_sign C (sk i) (Block_hash C R b) (head_number e + 1) 0 (word_of_nat i)) \<in> set evs"
    and "e' = run_events C R e (evs @ [RemoteProposal b p, Harvest])"
  shows "head_hash e' = Block_hash C R b \<and> head_number e' = head_number e + 1 \<and> engine_seed e' = vrf_output p"
  using early_round [OF assms(1-8) _ assms(10-14)] assms(9,15)
  by (auto simp: run_events_append commit_block_def extends_head_def)

theorem early_votes_commit_witness:
  "head_number (run_events demo_crypto rlp_format demo_engine (demo_votes_for demo_proposal @ [RemoteProposal demo_proposal demo_proof, Harvest])) = 1"
  using early_votes_commit [OF demo_bls_aggregates demo_bls_signs demo_reach _ _ _ _ _ demo_extends _ _ _ _ _ refl,
      of "demo_votes_for demo_proposal" "[0]" "\<lambda>_. demo_sk"] demo_early(1-4,6-9)
    demo_early(5,10) [where b = demo_proposal]
  by (simp add: demo_engine_fields(3))

text \<open>
  (C33) Syncing a block is the same as having voted it through. Take an engine whose run met only proposals built on
  its head and, as a lone validator, steps between rounds; whose proposal carries the next number, whose cache holds no number above its head and whose head is not the
  last number. A block that it harvests is then served by it, with its certificate, at the new head, and any
  engine with the same head hash, head number and validator set that adopts what was served ends with the same head,
  number, timestamp and seed as the first.
\<close>

theorem sync_equals_harvest:
  assumes "bls_aggregates C" and "engine_reach C R e" and "in_order e" and "try_harvest_committed C R e = (Some b, e')"
    and "list_all (\<lambda>k. k \<le> head_number e) (map fst (recent_blocks e))" and "head_number e \<noteq> max_word_val"
    and "head_hash f = head_hash e" and "head_number f = head_number e" and "active_set f = active_set e"
  shows "\<exists>cert f'. committed_block_at e' (head_number e') = Some (b, cert) \<and>
    adopt_synced_block C R f b cert = (Ok b, f') \<and> head_hash f' = head_hash e' \<and> head_number f' = head_number e' \<and>
    head_timestamp f' = head_timestamp e' \<and> engine_seed f' = engine_seed e'"
  using harvest_then_sync [OF assms(1) engine_reach_ok [OF assms(1,2)] assms(3-9)] .

theorem sync_equals_harvest_witness:
  "\<exists>cert f'. adopt_synced_block demo_crypto rlp_format demo_engine demo_proposal cert = (Ok demo_proposal, f') \<and>
    head_number f' = 1"
proof -
  obtain e' where h: "try_harvest_committed demo_crypto rlp_format demo_ready = (Some demo_proposal, e')"
      "head_number e' = 1" using demo_ready_harvest by blast
  show ?thesis
    using sync_equals_harvest [OF demo_bls_aggregates demo_ready_reach demo_ready_in_order h(1), of demo_engine] demo_ready_fields h(2)
    by (fastforce simp: demo_engine_fields max_word_val_def)
qed

text \<open>
  (C36) A timer that fires between commit and harvest loses the block. Where the open round has committed
  and the next harvest would hand out its block, one \<open>tick_timeout\<close> in between discards the proposal and keeps the
  committed round: whatever proposals, votes, further timeouts, rotations or harvests follow, every later
  harvest yields nothing and the head does not move, until a peer serves the block or the round is
  skipped by force.
\<close>

theorem timeout_after_commit_loses_block:
  assumes "try_harvest_committed C R e = (Some b, e1)" and "list_all (ordinary e) evs"
    and "e' = run_events C R e (Timeout # evs)"
  shows "fst (try_harvest_committed C R e') = None \<and> head_hash e' = head_hash e \<and> head_number e' = head_number e"
proof -
  let ?e = "snd (tick_timeout C e)"
  note late = harvestable_timeout [OF assms(1)]
  have "ordinary ?e ev = ordinary e ev" for ev
    using late by (cases ev) (simp_all add: is_single_validator_def)
  then have "list_all (ordinary ?e) evs" using assms(2) by (simp add: list_all_iff)
  then have "stuck e'" "same_head ?e e'" using stuck_run [of ?e evs C R] late assms(3) by (simp_all add: erase_def)
  then show ?thesis using late by (auto simp: stuck_def same_head_def try_harvest_committed_def)
qed

theorem timeout_after_commit_loses_block_witness:
  "fst (try_harvest_committed demo_crypto rlp_format
     (run_events demo_crypto rlp_format demo_ready [Timeout, RemoteProposal demo_proposal demo_proof, Harvest, Timeout])) = None"
  using demo_ready_harvest timeout_after_commit_loses_block [OF _ _ refl, where e = demo_ready and
      evs = "[RemoteProposal demo_proposal demo_proof, Harvest, Timeout]" and C = demo_crypto and R = rlp_format]
  by auto

text \<open>
  (C34) Replaying the buffered votes ends, and ends at a fixpoint. In every reachable engine with an open round
  the loop of \<open>drain_pending_votes\<close> returns without an error; each vote it keeps is for a future height and would again be
  refused as too early by the round it leaves, so a second replay changes nothing.
\<close>

theorem drain_reaches_fixpoint:
  assumes "bls_aggregates C" and "engine_reach C R e" and "coordinator e = Some c"
  shows "\<exists>e'. drain_pending_votes C e = (Ok (), e') \<and> drained C e' \<and> drain_pending_votes C e' = (Ok (), e')"
proof -
  have inv: "coord_inv C c"
    using engine_reach_ok [OF assms(1,2)] assms(3) by (simp add: engine_inv_def coord_fits_def)
  obtain e' where e': "drain_pending_votes C e = (Ok (), e')" "drain_outcome C e c e'"
    using drain_runs [OF assms(1,3) inv] by blast
  then obtain c' where "coordinator e' = Some c'" by (auto simp: drain_outcome_def)
  then have "drain_pending_votes C e' = (Ok (), e')"
    using drained_stays e'(2) by (simp add: drain_outcome_def)
  then show ?thesis using e' by (auto simp: drain_outcome_def)
qed

theorem drain_reaches_fixpoint_witness:
  "\<exists>e'. drain_pending_votes demo_crypto demo_ready = (Ok (), e') \<and> drain_pending_votes demo_crypto e' = (Ok (), e')"
proof -
  obtain c where "coordinator demo_ready = Some c"
    using demo_ready_harvest by (auto simp: try_harvest_committed_def split: option.splits)
  then show ?thesis using drain_reaches_fixpoint [OF demo_bls_aggregates demo_ready_reach] by blast
qed

text \<open>
  (C35) The lock does not keep honest validators from forking. Take any validator set built by
  \<open>ValidatorSet_new\<close> and one engine per validator that holds its keys (\<open>engines_of\<close>), rounds \<open>0\<close> and \<open>1\<close> of one
  height, and two proposals by the rounds' leaders, \<open>b\<close> and \<open>b'\<close>. Asked in round \<open>0\<close>, each engine's
  \<open>cast_prevote\<close> and, after the prevotes, its \<open>cast_precommit\<close> succeed and return the votes \<open>ps0\<close> and \<open>cs0\<close>; a node that
  receives them all commits \<open>b\<close>. A node that misses only \<open>cs0\<close> is locked on \<open>b\<close> when its timer fires. With
  that locked round as their own round state the engines' \<open>cast_prevote\<close> and \<open>cast_precommit\<close> still vote for \<open>b'\<close>
  in round \<open>1\<close> (\<open>ps1\<close>, \<open>cs1\<close>), and the locked node commits \<open>b'\<close>. No two of the precommits sent are evidence of
  equivocation.
\<close>

theorem lock_does_not_prevent_fork:
  assumes "bls_aggregates C" and "bls_signs C" and "vrf_proves C" and "ValidatorSet_new ws = Ok vs" and "engines_of C vs es"
    and "c0 = RoundCoordinator_new hgt seed vs" and "lsk = (\<lambda>i. my_vrf_sk (config (es ! i)))"
    and "P0 = fork_proposal C lsk vs hgt seed 0 b" and "P1 = fork_proposal C lsk vs hgt seed 1 b'"
  shows "\<exists>ps0 cs0 ps1 cs1 cL.
    casts (cast_prevote C) es (coord_run C c0 [P0]) = map Ok ps0 \<and>
    casts (cast_precommit C) es (coord_run C c0 (P0 # map EvPrevote ps0)) = map Ok cs0 \<and>
    (let cA = coord_run C c0 (P0 # map EvPrevote ps0 @ map EvPrecommit cs0)
     in rc_phase cA = Committed \<and> proposed_block cA = Some b) \<and>
    cL = coord_run C c0 (P0 # map EvPrevote ps0 @ [EvTimeout]) \<and> (\<exists>l. locked cL = Some l \<and> l_block_hash l = b) \<and>
    casts (cast_prevote C) es (coord_run C cL [P1]) = map Ok ps1 \<and>
    casts (cast_precommit C) es (coord_run C cL (P1 # map EvPrevote ps1)) = map Ok cs1 \<and>
    (let cB = coord_run C cL (P1 # map EvPrevote ps1 @ map EvPrecommit cs1)
     in rc_phase cB = Committed \<and> proposed_block cB = Some b') \<and>
    (\<forall>v v'. {v, v'} \<subseteq> set (cs0 @ cs1) \<longrightarrow> EquivocationEvidence_verify C (Precommit v v') vs \<noteq> Ok ())"
proof -
  let ?sk = "\<lambda>i. my_bls_sk (config (es ! i))" and ?n = "vs_size vs"
  let ?ps = "\<lambda>b. round_prevotes C ?sk ?n b hgt" and ?cs = "\<lambda>b. round_precommits C ?sk ?n b hgt"
  define cL where "cL = coord_run C c0 (P0 # map EvPrevote (?ps b 0) @ [EvTimeout])"
  have wf: "vs_wf vs" using ValidatorSet_new_wf [OF assms(4)] by simp
  have keys: "\<And>i. i < ?n \<Longrightarrow> bls_pubkey (validators vs ! i) = bls_public_key_of C (?sk i)"
      "\<And>i. i < ?n \<Longrightarrow> vrf_pubkey (validators vs ! i) = vrf_public_key_of C (lsk i)"
    using assms(5) by (simp_all add: engines_of_def assms(7))
  have c0: "coord_reach C vs hgt c0" "rc_phase c0 = AwaitingProposal" "rc_seed c0 = seed" "rc_round c0 = 0"
    using coord_reach.start by (simp_all add: assms(6)) (simp_all add: RoundCoordinator_new_def)
  note laws = assms(1-3) wf
  have lock: "rc_phase cL = AwaitingProposal" "rc_round cL = 1" "\<exists>l. locked cL = Some l \<and> l_block_hash l = b"
    using fork_locks [OF laws c0(1-3) keys, of b]
    by (simp_all add: cL_def assms(8) c0(4) saturating_add_def del: coord_run.simps)
  have cL: "coord_reach C vs hgt cL" "rc_seed cL = seed" unfolding cL_def using c0 coord_run_reach coord_run_frame by metis+
  note casts0 = fork_votes_are_cast [OF laws c0(1-3) assms(5), of b, folded assms(7), unfolded c0(4), folded assms(8)]
  note casts1 = fork_votes_are_cast [OF laws cL(1) lock(1) cL(2) assms(5), of b', folded assms(7), unfolded lock(2), folded assms(9)]
  let ?A = "coord_run C c0 (P0 # map EvPrevote (?ps b 0) @ map EvPrecommit (?cs b 0))"
  let ?B = "coord_run C cL (P1 # map EvPrevote (?ps b' 1) @ map EvPrecommit (?cs b' 1))"
  have A: "rc_phase ?A = Committed" "proposed_block ?A = Some b"
    using fork_round_commits [OF laws c0(1-3) keys, of b] unfolding c0(4) fork_round_def assms(8) by blast+
  have B: "rc_phase ?B = Committed" "proposed_block ?B = Some b'"
    using fork_round_commits [OF laws cL(1) lock(1) cL(2) keys, of b'] unfolding lock(2) fork_round_def assms(9) by blast+
  have evidence: "\<forall>v v'. {v, v'} \<subseteq> set (?cs b 0 @ ?cs b' 1) \<longrightarrow> EquivocationEvidence_verify C (Precommit v v') vs \<noteq> Ok ()"
    using no_round_conflict [of _ C ?sk ?n b hgt 0 b' 1] verify_Precommit_iff [of C _ _ vs] by auto
  show ?thesis
    unfolding Let_def
    by (rule exI [of _ "?ps b 0"], rule exI [of _ "?cs b 0"], rule exI [of _ "?ps b' 1"],
        rule exI [of _ "?cs b' 1"], rule exI [of _ cL], intro conjI) (fact casts0 casts1 A B lock(3) cL_def evidence)+
qed

text \<open>The witness: the one engine of the demonstration set, with two different blocks.\<close>

lemma demo_engines_of: "engines_of demo_crypto demo_vs [demo_engine]"
  by (simp add: engines_of_def demo_quorum demo_engine_fields)
    (simp add: demo_vs_def demo_engine_def BftEngine_new_def demo_cfg_def)

theorem lock_does_not_prevent_fork_witness:
  "let lsk = (\<lambda>i. my_vrf_sk (config ([demo_engine] ! i))); c0 = RoundCoordinator_new 1 0 demo_vs;
       P0 = fork_proposal demo_crypto lsk demo_vs 1 0 0 3; P1 = fork_proposal demo_crypto lsk demo_vs 1 0 1 4
   in \<exists>ps0 cs0 ps1 cs1 cL.
     casts (cast_prevote demo_crypto) [demo_engine] (coord_run demo_crypto c0 [P0]) = map Ok ps0 \<and> length ps0 = 1 \<and>
     proposed_block (coord_run demo_crypto c0 (P0 # map EvPrevote ps0 @ map EvPrecommit cs0)) = Some 3 \<and>
     (\<exists>l. locked cL = Some l \<and> l_block_hash l = 3) \<and>
     casts (cast_prevote demo_crypto) [demo_engine] (coord_run demo_crypto cL [P1]) = map Ok ps1 \<and>
     rc_phase (coord_run demo_crypto cL (P1 # map EvPrevote ps1 @ map EvPrecommit cs1)) = Committed \<and>
     proposed_block (coord_run demo_crypto cL (P1 # map EvPrevote ps1 @ map EvPrecommit cs1)) = Some 4"
proof -
  have one: "length ps = 1" if "casts f [demo_engine] c = map Ok ps" for f c ps
    using arg_cong [OF that, of length] by (simp add: casts_def)
  show ?thesis
    using lock_does_not_prevent_fork [OF demo_bls_aggregates demo_bls_signs demo_vrf_proves demo_new demo_engines_of refl refl refl refl,
        of 1 0 3 4] one
    unfolding Let_def by blast
qed

end
