(* ===== verification/Gossip.thy ===== *)
theory Gossip
  imports EngineProps Wire
begin

section \<open>The gossip driver\<close>

text \<open>
  \<open>aii-consensus-bft/src/gossip.rs\<close>: the pump between an engine and a transport. A transport is the
  inbox that \<open>try_recv\<close> pops and the list of payloads handed to \<open>broadcast\<close>, oldest first; what
  arrives while a tick runs is part of the next tick. The mutexes guard single accesses and leave no
  trace in the state. The random nonce of a proposal is an argument of the driver.
\<close>

record round_flags =
  proposed :: "(u64 \<times> u32) option"
  prevoted :: "(u64 \<times> u32) option"
  precommitted :: "(u64 \<times> u32) option"
  last_proposal :: "byte list option"
  last_prevote :: "byte list option"
  last_precommit :: "byte list option"
  requested_blocks :: "u64 set"

definition RoundFlags_default :: round_flags where
  "RoundFlags_default =
     \<lparr>proposed = None, prevoted = None, precommitted = None, last_proposal = None, last_prevote = None,
      last_precommit = None, requested_blocks = {}\<rparr>"

definition already_proposed :: "round_flags \<Rightarrow> u64 \<Rightarrow> u32 \<Rightarrow> bool" where
  "already_proposed f h r \<longleftrightarrow> proposed f = Some (h, r)"

definition already_prevoted :: "round_flags \<Rightarrow> u64 \<Rightarrow> u32 \<Rightarrow> bool" where
  "already_prevoted f h r \<longleftrightarrow> prevoted f = Some (h, r)"

definition already_precommitted :: "round_flags \<Rightarrow> u64 \<Rightarrow> u32 \<Rightarrow> bool" where
  "already_precommitted f h r \<longleftrightarrow> precommitted f = Some (h, r)"

record bft_gossip =
  engine :: bft_engine
  inbox :: "byte list list"
  outbox :: "byte list list"
  flags :: round_flags
  harvested_blocks :: "block list"

definition BftGossip_new :: "bft_engine \<Rightarrow> byte list list \<Rightarrow> bft_gossip" where
  "BftGossip_new e inb =
     \<lparr>engine = e, inbox = inb, outbox = [], flags = RoundFlags_default, harvested_blocks = []\<rparr>"

definition broadcast :: "bft_gossip \<Rightarrow> byte list \<Rightarrow> bft_gossip" where
  "broadcast g bytes = g\<lparr>outbox := outbox g @ [bytes]\<rparr>"

definition try_recv :: "bft_gossip \<Rightarrow> byte list option \<times> bft_gossip" where
  "try_recv g = (case inbox g of [] \<Rightarrow> (None, g) | b # bs \<Rightarrow> (Some b, g\<lparr>inbox := bs\<rparr>))"

definition drain_harvested :: "bft_gossip \<Rightarrow> block list \<times> bft_gossip" where
  "drain_harvested g = (harvested_blocks g, g\<lparr>harvested_blocks := []\<rparr>)"

text \<open>The loop ends because a harvest closes the round.\<close>

function auto_harvest :: "crypto \<Rightarrow> rlp \<Rightarrow> bft_gossip \<Rightarrow> bft_gossip" where
  "auto_harvest C R g =
     (case try_harvest_committed C R (engine g) of
        (None, e) \<Rightarrow> g\<lparr>engine := e\<rparr>
      | (Some blk, e) \<Rightarrow> auto_harvest C R (g\<lparr>engine := e, harvested_blocks := harvested_blocks g @ [blk]\<rparr>))"
  by auto
termination
  by (relation "measure (\<lambda>(C, R, g). if coordinator (engine g) = None then 0 else 1)")
    (auto simp: try_harvest_committed_def commit_block_def split: option.splits if_splits)

declare auto_harvest.simps [simp del]

subsection \<open>Bodies on the wire\<close>

definition encode_block_body :: "rlp \<Rightarrow> block_body \<Rightarrow> byte list" where
  "encode_block_body R bdy = BlockBody_encode R bdy"

definition decode_block_body :: "rlp \<Rightarrow> byte list \<Rightarrow> (bft_error, block_body) result" where
  "decode_block_body R bytes =
     and_then (map_err (\<lambda>x. InvalidProposalBody (rlp_error_str R x)) (BlockBody_decode R bytes))
       (\<lambda>(bdy, _). Ok bdy)"

subsection \<open>Inbound messages\<close>

definition request_catchup_if_future_height :: "crypto \<Rightarrow> bft_gossip \<Rightarrow> u64 \<Rightarrow> bool \<times> bft_gossip" where
  "request_catchup_if_future_height C g remote_height =
     (let next_height = saturating_add (head_number (engine g)) 1 in
      if remote_height \<le> next_height then (False, g)
      else if next_height \<in> requested_blocks (flags g) then (True, g)
      else (True, broadcast
              (g\<lparr>flags := (flags g)\<lparr>requested_blocks := insert next_height (requested_blocks (flags g))\<rparr>\<rparr>)
              (encode C (BlockRequest next_height))))"

definition handle_block_response ::
    "crypto \<Rightarrow> rlp \<Rightarrow> bft_gossip \<Rightarrow> byte list \<Rightarrow> certificate \<Rightarrow> (bft_error, unit) result \<times> bft_gossip" where
  "handle_block_response C R g block_bytes cert =
     (case map_err (\<lambda>x. InvalidProposalBody (rlp_error_str R x)) (Block_decode R block_bytes) of
        Err x \<Rightarrow> (Err x, g)
      | Panic \<Rightarrow> (Panic, g)
      | Ok (blk, rest) \<Rightarrow>
          if rest \<noteq> [] then (Err (InvalidProposalBody ''trailing bytes after synced block''), g)
          else
            (case adopt_synced_block C R (engine g) blk cert of
               (Err x, e) \<Rightarrow> (Err x, g\<lparr>engine := e\<rparr>)
             | (Panic, e) \<Rightarrow> (Panic, g\<lparr>engine := e\<rparr>)
             | (Ok adopted, e) \<Rightarrow>
                 (Ok (), g\<lparr>engine := e,
                    flags := (flags g)\<lparr>requested_blocks :=
                      requested_blocks (flags g) - {number (block_header adopted)}\<rparr>,
                    harvested_blocks := harvested_blocks g @ [adopted]\<rparr>)))"

definition should_fast_forward :: "bft_engine \<Rightarrow> u64 \<Rightarrow> u32 \<Rightarrow> bool" where
  "should_fast_forward e hgt r \<longleftrightarrow>
     (case current_round_state e of
        None \<Rightarrow> True
      | Some (active_height, active_round, _) \<Rightarrow> active_height = hgt \<and> r > active_round)"

definition handle_proposal_msg ::
    "crypto \<Rightarrow> rlp \<Rightarrow> bft_gossip \<Rightarrow> u64 \<Rightarrow> u32 \<Rightarrow> h256 \<Rightarrow> leader_proof \<Rightarrow> address \<Rightarrow> byte list \<Rightarrow>
       (bft_error, unit) result \<times> bft_gossip" where
  "handle_proposal_msg C R g hgt r bh prf cb body_bytes =
     (let (ff, e1) =
        (if hgt = saturating_add (head_number (engine g)) 1 \<and> should_fast_forward (engine g) hgt r \<and> r > 0
         then fast_forward_to_round (engine g) r else (Ok (), engine g));
        g1 = g\<lparr>engine := e1\<rparr>
      in case and_then ff (\<lambda>_. decode_block_body R body_bytes) of
           Err x \<Rightarrow> (Err x, g1)
         | Panic \<Rightarrow> (Panic, g1)
         | Ok bdy \<Rightarrow>
             let blk = reconstruct_proposed_block_with_body C R e1 hgt prf cb bdy in
             if Block_hash C R blk \<noteq> bh then (Err ProposalHashMismatch, g1)
             else let (res, e2) = submit_remote_proposal C R e1 blk prf in (res, g1\<lparr>engine := e2\<rparr>))"

fun dispatch_inbound ::
    "crypto \<Rightarrow> rlp \<Rightarrow> bft_gossip \<Rightarrow> bft_message \<Rightarrow> (bft_error, unit) result \<times> bft_gossip" where
  "dispatch_inbound C R g (Proposal hgt r bh prf cb body_bytes) =
     (let (future, g1) = request_catchup_if_future_height C g hgt in
      if future then (Ok (), g1) else handle_proposal_msg C R g1 hgt r bh prf cb body_bytes)"
| "dispatch_inbound C R g (MsgPrevote v) =
     (let (future, g1) = request_catchup_if_future_height C g (height v) in
      if future then (Ok (), g1)
      else let (res, e) = submit_remote_prevote C (engine g1) v in (res, g1\<lparr>engine := e\<rparr>))"
| "dispatch_inbound C R g (MsgPrecommit v) =
     (let (future, g1) = request_catchup_if_future_height C g (height v) in
      if future then (Ok (), g1)
      else let (res, e) = submit_remote_precommit C (engine g1) v in (res, g1\<lparr>engine := e\<rparr>))"
| "dispatch_inbound C R g (BlockRequest hgt) =
     (case committed_block_at (engine g) hgt of
        None \<Rightarrow> (Ok (), g)
      | Some (blk, cert) \<Rightarrow> (Ok (), broadcast g (encode C (BlockResponse (Block_encode R blk) cert))))"
| "dispatch_inbound C R g (BlockResponse block_bytes cert) = handle_block_response C R g block_bytes cert"

text \<open>The body of the inbox loop: an undecodable payload is skipped, an error of the handler is dropped.\<close>

definition receive :: "crypto \<Rightarrow> rlp \<Rightarrow> bft_gossip \<Rightarrow> byte list \<Rightarrow> (bft_error, nat) result \<times> bft_gossip" where
  "receive C R g bytes =
     (case decode C bytes of
        Ok msg \<Rightarrow>
          (case dispatch_inbound C R g msg of
             (Panic, g1) \<Rightarrow> (Panic, g1)
           | (_, g1) \<Rightarrow> (Ok 1, auto_harvest C R g1))
      | Err _ \<Rightarrow> (Ok 0, auto_harvest C R g)
      | Panic \<Rightarrow> (Panic, g))"

subsection \<open>Outbound messages\<close>

type_synonym gossip_action = "bft_gossip \<Rightarrow> (bft_error, nat) result \<times> bft_gossip"

text \<open>\<open>activity += first; activity += second;\<close>\<close>

definition also_do :: "gossip_action \<Rightarrow> gossip_action \<Rightarrow> gossip_action" where
  "also_do a b g =
     (case a g of
        (Ok n, g1) \<Rightarrow> (let (res, g2) = b g1 in (and_then res (\<lambda>m. Ok (n + m)), g2))
      | (Err x, g1) \<Rightarrow> (Err x, g1)
      | (Panic, g1) \<Rightarrow> (Panic, g1))"

definition rebroadcast :: "(round_flags \<Rightarrow> byte list option) \<Rightarrow> gossip_action" where
  "rebroadcast sel g =
     (case sel (flags g) of Some b \<Rightarrow> (Ok 1, broadcast g b) | None \<Rightarrow> (Ok 0, g))"

definition retransmit_proposal :: gossip_action where
  "retransmit_proposal = rebroadcast last_proposal"

definition retransmit_prevote :: gossip_action where
  "retransmit_prevote = rebroadcast last_prevote"

definition retransmit_precommit :: gossip_action where
  "retransmit_precommit = rebroadcast last_precommit"

definition send_proposal :: "crypto \<Rightarrow> rlp \<Rightarrow> u64 \<Rightarrow> u32 \<Rightarrow> block \<Rightarrow> leader_proof \<Rightarrow> gossip_action" where
  "send_proposal C R h r blk prf g =
     (let bytes = encode C (Proposal h r (Block_hash C R blk) prf (cfg_coinbase (config (engine g)))
            (encode_block_body R (body blk)))
      in (Ok 1, broadcast (g\<lparr>flags := (flags g)\<lparr>proposed := Some (h, r), last_proposal := Some bytes\<rparr>\<rparr>) bytes))"

definition bootstrap_propose :: "crypto \<Rightarrow> rlp \<Rightarrow> nat \<Rightarrow> gossip_action" where
  "bootstrap_propose C R entropy g =
     (case cast_proposal C R entropy (engine g) of
        (Err _, e) \<Rightarrow> (Ok 0, g\<lparr>engine := e\<rparr>)
      | (Panic, e) \<Rightarrow> (Panic, g\<lparr>engine := e\<rparr>)
      | (Ok (blk, prf), e) \<Rightarrow>
          (case current_round_state e of
             None \<Rightarrow> (Panic, g\<lparr>engine := e\<rparr>)
           | Some (h, r, _) \<Rightarrow> send_proposal C R h r blk prf (g\<lparr>engine := e\<rparr>)))"

definition maybe_propose :: "crypto \<Rightarrow> rlp \<Rightarrow> nat \<Rightarrow> u64 \<Rightarrow> u32 \<Rightarrow> gossip_action" where
  "maybe_propose C R entropy h r g =
     (if already_proposed (flags g) h r then (Ok 0, g)
      else case current_leader_index C (engine g) of
        None \<Rightarrow> (Ok 0, g)
      | Some leader_idx \<Rightarrow>
          if leader_idx \<noteq> unat (my_index (engine g)) then (Ok 0, g)
          else (case cast_proposal C R entropy (engine g) of
                  (Err _, e) \<Rightarrow> (Ok 0, g\<lparr>engine := e\<rparr>)
                | (Panic, e) \<Rightarrow> (Panic, g\<lparr>engine := e\<rparr>)
                | (Ok (blk, prf), e) \<Rightarrow> send_proposal C R h r blk prf (g\<lparr>engine := e\<rparr>)))"

definition maybe_prevote :: "crypto \<Rightarrow> u64 \<Rightarrow> u32 \<Rightarrow> gossip_action" where
  "maybe_prevote C h r g =
     (if already_prevoted (flags g) h r then (Ok 0, g)
      else case cast_prevote C (engine g) of
        (Err _, e) \<Rightarrow> (Ok 0, g\<lparr>engine := e\<rparr>)
      | (Panic, e) \<Rightarrow> (Panic, g\<lparr>engine := e\<rparr>)
      | (Ok v, e) \<Rightarrow>
          let bytes = encode C (MsgPrevote v) in
          (Ok 1, broadcast
             (g\<lparr>engine := e, flags := (flags g)\<lparr>prevoted := Some (h, r), last_prevote := Some bytes\<rparr>\<rparr>) bytes))"

definition maybe_precommit :: "crypto \<Rightarrow> u64 \<Rightarrow> u32 \<Rightarrow> gossip_action" where
  "maybe_precommit C h r g =
     (if already_precommitted (flags g) h r then (Ok 0, g)
      else case cast_precommit C (engine g) of
        (Err _, e) \<Rightarrow> (Ok 0, g\<lparr>engine := e\<rparr>)
      | (Panic, e) \<Rightarrow> (Panic, g\<lparr>engine := e\<rparr>)
      | (Ok v, e) \<Rightarrow>
          let bytes = encode C (MsgPrecommit v) in
          (Ok 1, broadcast
             (g\<lparr>engine := e, flags := (flags g)\<lparr>precommitted := Some (h, r), last_precommit := Some bytes\<rparr>\<rparr>) bytes))"

fun drive_phase :: "crypto \<Rightarrow> rlp \<Rightarrow> nat \<Rightarrow> u64 \<Rightarrow> u32 \<Rightarrow> phase \<Rightarrow> gossip_action" where
  "drive_phase C R entropy h r AwaitingProposal = also_do (maybe_propose C R entropy h r) retransmit_proposal"
| "drive_phase C R entropy h r Prevoting =
     also_do (maybe_prevote C h r) (also_do retransmit_proposal retransmit_prevote)"
| "drive_phase C R entropy h r Precommitting =
     also_do (maybe_precommit C h r) (also_do retransmit_prevote retransmit_precommit)"
| "drive_phase C R entropy h r Committed = (\<lambda>g. (Ok 0, g))"

definition drive :: "crypto \<Rightarrow> rlp \<Rightarrow> nat \<Rightarrow> gossip_action" where
  "drive C R entropy g =
     (case current_round_state (engine g) of
        Some (h, r, ph) \<Rightarrow> drive_phase C R entropy h r ph g
      | None \<Rightarrow>
          if would_be_leader_next_height C (engine g) then bootstrap_propose C R entropy g else (Ok 0, g))"

subsection \<open>One tick\<close>

lemma auto_harvest_frame:
  "inbox (auto_harvest C R g) = inbox g" "outbox (auto_harvest C R g) = outbox g" "flags (auto_harvest C R g) = flags g"
  by (induction C R g rule: auto_harvest.induct; subst auto_harvest.simps; simp split: prod.split option.split)+

lemma catchup_inbox: "request_catchup_if_future_height C g n = (future, g') \<Longrightarrow> inbox g' = inbox g"
  by (auto simp: request_catchup_if_future_height_def broadcast_def Let_def split: if_splits)

lemma dispatch_inbox: "dispatch_inbound C R g msg = (r, g') \<Longrightarrow> inbox g' = inbox g"
  by (cases msg)
    (auto simp: handle_proposal_msg_def handle_block_response_def broadcast_def Let_def
      dest!: catchup_inbox split: prod.splits result.splits option.splits if_splits)

lemma receive_inbox: "receive C R g bytes = (r, g') \<Longrightarrow> inbox g' = inbox g"
  by (auto simp: receive_def auto_harvest_frame dest: dispatch_inbox split: result.splits prod.splits)

function drain_inbox :: "crypto \<Rightarrow> rlp \<Rightarrow> gossip_action" where
  "drain_inbox C R g =
     (case try_recv g of
        (None, g1) \<Rightarrow> (Ok 0, g1)
      | (Some bytes, g1) \<Rightarrow>
          (case receive C R g1 bytes of
             (Ok n, g2) \<Rightarrow> (let (res, g3) = drain_inbox C R g2 in (and_then res (\<lambda>m. Ok (n + m)), g3))
           | (Err x, g2) \<Rightarrow> (Err x, g2)
           | (Panic, g2) \<Rightarrow> (Panic, g2)))"
  by auto
termination
  by (relation "measure (\<lambda>(C, R, g). length (inbox g))")
    (auto simp: try_recv_def dest!: receive_inbox [OF sym] split: list.splits)

declare drain_inbox.simps [simp del]

definition tick :: "crypto \<Rightarrow> rlp \<Rightarrow> nat \<Rightarrow> gossip_action" where
  "tick C R entropy g =
     (case also_do (drain_inbox C R) (drive C R entropy) g of
        (Panic, g1) \<Rightarrow> (Panic, g1)
      | (res, g1) \<Rightarrow> (res, auto_harvest C R g1))"

end
