(* ===== verification/GossipSafe.thy ===== *)
theory GossipSafe
  imports Gossip
begin

section \<open>Correctness of the gossip driver\<close>

text \<open>
  Every action of the driver is a sequence of the engine's events, so the engine's invariant carries
  over; the driver never panics on any bytes. The position of an engine, its next height and round,
  only moves forward as long as proposals carry the next height, and with it the driver's flags keep
  an honest node from voting twice in one round.
\<close>

subsection \<open>Positions\<close>

definition round_of :: "bft_engine \<Rightarrow> u32" where
  "round_of e = (case coordinator e of None \<Rightarrow> 0 | Some c \<Rightarrow> rc_round c)"

lemma round_of_simps [simp]:
  "round_of (e\<lparr>coordinator := Some c\<rparr>) = rc_round c"
  "round_of (e\<lparr>pending_prevotes := x\<rparr>) = round_of e" "round_of (e\<lparr>pending_precommits := x\<rparr>) = round_of e"
  "round_of (e\<lparr>pending_txs := y\<rparr>) = round_of e" "round_of (e\<lparr>pending_evidence := z\<rparr>) = round_of e"
  "round_of (e\<lparr>active_set := a\<rparr>) = round_of e" "round_of (e\<lparr>my_index := i\<rparr>) = round_of e"
  "round_of (e\<lparr>proposal := q\<rparr>) = round_of e"
  by (simp_all add: round_of_def)

lemma round_of_open: "coordinator e = Some c \<Longrightarrow> round_of e = rc_round c"
  by (simp add: round_of_def)

definition pos_le :: "bft_engine \<Rightarrow> bft_engine \<Rightarrow> bool" where
  "pos_le e e' \<longleftrightarrow> head_number e < head_number e' \<or> head_number e' = head_number e \<and> round_of e \<le> round_of e'"

lemma pos_le_refl [simp]: "pos_le e e"
  by (simp add: pos_le_def)

lemma pos_le_trans: "pos_le e e' \<Longrightarrow> pos_le e' e'' \<Longrightarrow> pos_le e e''"
  by (auto simp: pos_le_def)

lemma pos_le_same: "same_head e e' \<Longrightarrow> round_of e \<le> round_of e' \<Longrightarrow> pos_le e e'"
  by (simp add: pos_le_def same_head_def)

lemma coord_run_round: "rc_round c \<le> rc_round (coord_run C c es)"
proof (induction es arbitrary: c)
  case (Cons ev es)
  then show ?case using coord_step_round [of c C ev] order_trans by auto
qed simp

lemma drain_round:
  assumes "bls_aggregates C" and "coordinator e = Some c" and "coord_inv C c"
  shows "rc_round c \<le> round_of (snd (drain_pending_votes C e))"
  using drain_runs [OF assms] coord_run_round [of c C] by (auto simp: drain_outcome_def round_of_def)

lemma ensure_round [simp]: "round_of (ensure_coordinator e) = round_of e"
  by (simp add: round_of_def ensure_coordinator_def RoundCoordinator_new_def split: option.split)

lemma timeouts_round:
  assumes "rc_phase c = AwaitingProposal" and "rc_round c = 0" and "n < 2 ^ 32"
  shows "rc_phase ((fire_timeout ^^ n) c) = AwaitingProposal \<and> rc_round ((fire_timeout ^^ n) c) = word_of_nat n"
  using assms(3)
proof (induction n)
  case (Suc n)
  then have "unat (word_of_nat n :: u32) = n" by (intro unat_word_of_nat_small) simp
  then have "unat (word_of_nat n :: u32) + 1 < 2 ^ 32" using Suc.prems by simp
  then show ?case using Suc
    by (simp add: fire_timeout_def saturating_add_def)
qed (use assms in simp)

lemma fast_forward_round:
  assumes "round_of e \<le> r"
  shows "round_of e \<le> round_of (snd (fast_forward_to_round e r))"
proof -
  let ?c0 = "RoundCoordinator_new (head_number e + 1) (engine_seed e) (active_set e)"
  have "rc_round ((fire_timeout ^^ unat r) ?c0) = r"
    using timeouts_round [of ?c0 "unat r"] unat_less_pow [of r] by (simp add: RoundCoordinator_new_def)
  then show ?thesis using assms
    by (auto simp: fast_forward_to_round_def round_of_def Let_def split: option.splits)
qed

text \<open>The events that keep the order: no step of a lone validator, and no jump to an earlier round.\<close>

fun forward :: "bft_engine \<Rightarrow> engine_event \<Rightarrow> bool" where
  "forward e (FastForward r) \<longleftrightarrow> round_of e \<le> r"
| "forward e (EngineStep n) \<longleftrightarrow> False"
| "forward e _ \<longleftrightarrow> True"

lemma cast_round:
  "round_of e \<le> round_of (snd (cast_prevote C e))" "round_of e \<le> round_of (snd (cast_precommit C e))"
  "round_of e \<le> round_of (snd (cast_proposal C R n e))"
proof -
  show "round_of e \<le> round_of (snd (cast_prevote C e))"
    using coord_step_round [of _ C "EvPrevote _"]
    by (auto simp: cast_prevote_def round_of_def Let_def split: option.split prod.split result.split) (metis snd_conv coord_step.simps(2))+
  show "round_of e \<le> round_of (snd (cast_precommit C e))"
    using coord_step_round [of _ C "EvPrecommit _"]
    by (auto simp: cast_precommit_def round_of_def Let_def split: option.split prod.split result.split) (metis snd_conv coord_step.simps(3))+
  have "round_of (ensure_coordinator e) \<le> round_of (snd (cast_proposal C R n e))"
    using coord_step_round [of _ C "EvProposal _ _"]
    by (auto simp: cast_proposal_def round_of_def Let_def drain_pending_txs_into_body_def
        split: option.split prod.split result.split) (metis snd_conv coord_step.simps(1))+
  then show "round_of e \<le> round_of (snd (cast_proposal C R n e))" by simp
qed

lemma step_then_drain:
  assumes "bls_aggregates C" and "coord_inv C c" and "coord_step C c ev = (r, c')"
  shows "rc_round c \<le> rc_round c'"
    and "coordinator e = Some c' \<Longrightarrow> rc_round c \<le> round_of (snd (drain_pending_votes C e))"
proof -
  show le: "rc_round c \<le> rc_round c'" using coord_step_round [of c C ev] assms(3) by simp
  have "coord_inv C c'" using coord_inv_step [OF assms(1,2), of ev] assms(3) by simp
  then show "coordinator e = Some c' \<Longrightarrow> rc_round c \<le> round_of (snd (drain_pending_votes C e))"
    using drain_round [OF assms(1), of e c'] le by (meson order_trans)
qed

lemma remote_round:
  assumes laws: "bls_aggregates C" and ok: "engine_ok C R e"
  shows "round_of e \<le> round_of (snd (submit_remote_proposal C R e b p))"
    and "round_of e \<le> round_of (snd (tick_timeout C e))"
    and "round_of e \<le> round_of (snd (submit_remote_prevote C e v))"
    and "round_of e \<le> round_of (snd (submit_remote_precommit C e v))"
proof -
  obtain c where c: "coordinator (ensure_coordinator e) = Some c" "coord_inv C c"
    using ensure_ok(2) [OF ok] by (auto simp: coord_fits_def)
  have r: "round_of e = rc_round c" using ensure_round [of e] c(1) by (simp add: round_of_def del: ensure_round)
  show "round_of e \<le> round_of (snd (submit_remote_proposal C R e b p))"
    using c(1) step_then_drain [OF laws c(2), of "EvProposal (Block_hash C R b) p"] unfolding r
    by (auto simp: submit_remote_proposal_def Let_def round_of_def split: prod.split result.split)
  show "round_of e \<le> round_of (snd (tick_timeout C e))"
    using c(1) step_then_drain [OF laws c(2), of EvTimeout] unfolding r
    by (auto simp: tick_timeout_def Let_def)
  have inv: "coord_inv C c'" if "coordinator e = Some c'" for c'
    using ok that by (simp add: engine_inv_def coord_fits_def)
  have park: "round_of (park_evidence rec e v) = round_of e" for rec by (simp add: round_of_def)
  show "round_of e \<le> round_of (snd (submit_remote_prevote C e v))"
  proof (cases "coordinator e")
    case (Some c)
    note step = step_then_drain [OF laws inv [OF Some], of "EvPrevote v"]
    show ?thesis
      using Some step park [of record_prevote] round_of_open [OF Some]
      by (auto simp: submit_remote_prevote_def Let_def split: prod.split result.split)
  qed (use park [of record_prevote] in \<open>simp add: submit_remote_prevote_def Let_def\<close>)
  show "round_of e \<le> round_of (snd (submit_remote_precommit C e v))"
  proof (cases "coordinator e")
    case (Some c)
    note step = step_then_drain [OF laws inv [OF Some], of "EvPrecommit v"]
    show ?thesis
      using Some step park [of record_precommit] round_of_open [OF Some]
      by (auto simp: submit_remote_precommit_def Let_def split: prod.split result.split)
  qed (use park [of record_precommit] in \<open>simp add: submit_remote_precommit_def Let_def\<close>)
qed

text \<open>What an orderly event does to the engine.\<close>

definition orderly_move :: "crypto \<Rightarrow> rlp \<Rightarrow> bft_engine \<Rightarrow> bft_engine \<Rightarrow> bool" where
  "orderly_move C R e e' \<longleftrightarrow>
     engine_ok C R e' \<and> in_order e' \<and> pos_le e e' \<and> unat (head_number e') \<le> unat (head_number e) + 1"

lemma unat_next: "unat (x + 1 :: 'a::len word) \<le> unat x + (1 :: nat)"
  by (simp add: unat_word_ariths)

lemma head_event_pos:
  assumes laws: "bls_aggregates C" and ok: "engine_ok C R e" and order: "in_order e"
    and "head_number e \<noteq> max_word_val" and "ev = Harvest \<or> (\<exists>b cert. ev = Adopt b cert)"
  shows "pos_le e (snd (run_event C R e ev)) \<and> unat (head_number (snd (run_event C R e ev))) \<le> unat (head_number e) + 1"
proof -
  note incr = less_next [OF assms(4)] unat_next [of "head_number e"]
  show ?thesis using assms(5)
  proof (elim disjE exE)
    assume "ev = Harvest"
    then show ?thesis
      by (cases rule: harvest_cases [OF ok]) (use order incr in \<open>auto simp: in_order_def commit_block_def pos_le_def\<close>)
  next
    fix b cert assume "ev = Adopt b cert"
    then show ?thesis
      by (cases rule: adopt_cases [of C R e b cert]) (use incr in \<open>auto simp: commit_block_def pos_le_def erase_def\<close>)
  qed
qed

lemma event_orderly:
  assumes laws: "bls_aggregates C" and ok: "engine_ok C R e" and order: "in_order e" and max: "head_number e \<noteq> max_word_val"
    and ev: "admissible True e ev" "timely e ev" "forward e ev"
  shows "fst (run_event C R e ev) \<noteq> Panic \<and> orderly_move C R e (snd (run_event C R e ev))"
proof -
  let ?e = "snd (run_event C R e ev)"
  have "pos_le e ?e \<and> unat (head_number ?e) \<le> unat (head_number e) + 1"
  proof (cases "ev = Harvest \<or> (\<exists>b cert. ev = Adopt b cert)")
    case True
    then show ?thesis using head_event_pos [OF laws ok order max] by blast
  next
    case False
    then have "round_of e \<le> round_of ?e" using ev(3)
      by (cases ev) (auto simp: erase_def cast_round remote_round [OF laws ok] fast_forward_round
          rotate_validator_set_def set_pending_txs_def extend_pending_txs_def drain_evidence_def)
    moreover have "same_head e ?e" using False ev(3)
      by (cases ev) (simp_all add: erase_def cast_same_head remote_same_head,
        simp_all add: same_head_def set_pending_txs_def extend_pending_txs_def drain_evidence_def)
    ultimately show ?thesis by (simp add: pos_le_same) (simp add: same_head_def)
  qed
  then show ?thesis
    using event_sound [OF laws ok ev(1)] event_in_order [OF laws ok order ev(2)]
    by (simp add: orderly_move_def sound_op_def)
qed

subsection \<open>Every action is a sequence of events\<close>

definition safe_result :: "crypto \<Rightarrow> rlp \<Rightarrow> ('x, 'a) result \<times> bft_gossip \<Rightarrow> bool" where
  "safe_result C R out \<longleftrightarrow> fst out \<noteq> Panic \<and> engine_reach C R (engine (snd out))"

definition safe_action :: "crypto \<Rightarrow> rlp \<Rightarrow> gossip_action \<Rightarrow> bool" where
  "safe_action C R a \<longleftrightarrow> (\<forall>g. engine_reach C R (engine g) \<longrightarrow> safe_result C R (a g))"

lemma safe_result_Ok [simp]: "safe_result C R (Ok x, g) \<longleftrightarrow> engine_reach C R (engine g)"
  "safe_result C R (Err y, g) \<longleftrightarrow> engine_reach C R (engine g)" "\<not> safe_result C R (Panic, g)"
  by (simp_all add: safe_result_def)

lemma engine_broadcast [simp]: "engine (broadcast g b) = engine g"
  by (simp add: broadcast_def)

lemma event_reach:
  assumes "bls_aggregates C" and "engine_reach C R e" and "admissible True e ev"
  shows "fst (run_event C R e ev) \<noteq> Panic" and "engine_reach C R (snd (run_event C R e ev))"
  using event_sound [OF assms(1) engine_reach_ok [OF assms(1,2)] assms(3)] engine_runs.event [OF assms(2,3)]
  by (simp_all add: sound_op_def)

lemma erase_Panic: "fst (erase out) = Panic \<longleftrightarrow> fst out = Panic" and erase_snd: "snd (erase out) = snd out"
  by (cases "fst out"; simp add: erase_def)+

lemma call_reach:
  assumes laws: "bls_aggregates C" and reach: "engine_reach C R e"
  shows "cast_proposal C R n e = (r1, e1) \<Longrightarrow> r1 \<noteq> Panic \<and> engine_reach C R e1"
    and "cast_prevote C e = (r2, e2) \<Longrightarrow> r2 \<noteq> Panic \<and> engine_reach C R e2"
    and "cast_precommit C e = (r3, e3) \<Longrightarrow> r3 \<noteq> Panic \<and> engine_reach C R e3"
    and "submit_remote_prevote C e v = (r4, e4) \<Longrightarrow> r4 \<noteq> Panic \<and> engine_reach C R e4"
    and "submit_remote_precommit C e v = (r5, e5) \<Longrightarrow> r5 \<noteq> Panic \<and> engine_reach C R e5"
    and "adopt_synced_block C R e b cert = (r6, e6) \<Longrightarrow> r6 \<noteq> Panic \<and> engine_reach C R e6"
    and "fast_forward_to_round e rd = (r7, e7) \<Longrightarrow> r7 \<noteq> Panic \<and> engine_reach C R e7"
    and "attaches e b p \<Longrightarrow> submit_remote_proposal C R e b p = (r8, e8) \<Longrightarrow> r8 \<noteq> Panic \<and> engine_reach C R e8"
    and "engine_reach C R (snd (try_harvest_committed C R e))"
  using event_reach [OF laws reach, of "Propose n"] event_reach [OF laws reach, of CastPrevote]
    event_reach [OF laws reach, of CastPrecommit] event_reach [OF laws reach, of "RemotePrevote v"]
    event_reach [OF laws reach, of "RemotePrecommit v"] event_reach [OF laws reach, of "Adopt b cert"]
    event_reach [OF laws reach, of "FastForward rd"] event_reach [OF laws reach, of "RemoteProposal b p"]
    event_reach [OF laws reach, of Harvest]
  by (simp_all add: erase_Panic erase_snd)

lemma auto_harvest_reach:
  "bls_aggregates C \<Longrightarrow> engine_reach C R (engine g) \<Longrightarrow> engine_reach C R (engine (auto_harvest C R g))"
proof (induction C R g rule: auto_harvest.induct)
  case (1 C R g)
  obtain x e where h: "try_harvest_committed C R (engine g) = (x, e)" by fastforce
  then have "engine_reach C R e" using call_reach(9) [OF 1(2,3)] by simp
  then show ?case using 1(1) [OF h [symmetric]] 1(2) h by (subst auto_harvest.simps) (auto split: option.split)
qed

lemma catchup_engine: "request_catchup_if_future_height C g n = (future, g') \<Longrightarrow> engine g' = engine g"
  by (auto simp: request_catchup_if_future_height_def Let_def split: if_splits)

lemma decode_body_total: "rlp_total R \<Longrightarrow> decode_block_body R bs \<noteq> Panic"
  using BlockBody_decoder(1) [of R]
  by (auto simp: decode_block_body_def total_decoder_def) (cases "BlockBody_decode R bs"; auto)

lemma reconstruct_attaches: "attaches e (reconstruct_proposed_block_with_body C R e n p cb bdy) p"
  by (simp add: attaches_def reconstruct_proposed_block_with_body_def)

lemma proposal_msg_safe:
  assumes laws: "bls_aggregates C" "rlp_total R" and reach: "engine_reach C R (engine g)"
  shows "safe_result C R (handle_proposal_msg C R g n r bh p cb bs)"
proof -
  obtain ff e1 where ff: "(if n = saturating_add (head_number (engine g)) 1 \<and> should_fast_forward (engine g) n r \<and> r > 0
      then fast_forward_to_round (engine g) r else (Ok (), engine g)) = (ff, e1)" by fastforce
  then have e1: "ff \<noteq> Panic" "engine_reach C R e1"
    using call_reach(7) [OF laws(1) reach, of r] reach by (auto split: if_splits)
  show ?thesis
  proof (cases "and_then ff (\<lambda>_. decode_block_body R bs)")
    case (Ok bdy)
    let ?b = "reconstruct_proposed_block_with_body C R e1 n p cb bdy"
    obtain r8 e8 where "submit_remote_proposal C R e1 ?b p = (r8, e8)" by fastforce
    then show ?thesis
      using call_reach(8) [OF laws(1) e1(2) reconstruct_attaches] ff Ok e1(2)
      by (auto simp: handle_proposal_msg_def Let_def safe_result_def)
  next
    case (Err x)
    then show ?thesis using ff e1(2) by (simp add: handle_proposal_msg_def Let_def)
  next
    case Panic
    then show ?thesis using e1(1) decode_body_total [OF laws(2)] by (cases ff) auto
  qed
qed

lemma block_response_safe:
  assumes laws: "bls_aggregates C" "rlp_total R" and reach: "engine_reach C R (engine g)"
  shows "safe_result C R (handle_block_response C R g bs cert)"
  using reach call_reach(6) [OF laws(1) reach] Block_decoder [OF laws(2)]
  by (auto simp: handle_block_response_def total_decoder_def split: result.split prod.split)
    (cases "Block_decode R bs"; auto)+

lemma dispatch_safe:
  assumes laws: "bls_aggregates C" "rlp_total R" and reach: "engine_reach C R (engine g)"
  shows "safe_result C R (dispatch_inbound C R g msg)"
proof (cases msg)
  case (Proposal n r bh p cb bs)
  obtain future g' where g': "request_catchup_if_future_height C g n = (future, g')" by fastforce
  then show ?thesis
    using Proposal proposal_msg_safe [OF laws, of g'] reach catchup_engine [OF g'] by simp
next
  case (MsgPrevote v)
  obtain future g' where g': "request_catchup_if_future_height C g (height v) = (future, g')" by fastforce
  then show ?thesis
    using MsgPrevote call_reach(4) [OF laws(1) reach] reach catchup_engine [OF g']
    by (auto simp: safe_result_def split: prod.split)
next
  case (MsgPrecommit v)
  obtain future g' where g': "request_catchup_if_future_height C g (height v) = (future, g')" by fastforce
  then show ?thesis
    using MsgPrecommit call_reach(5) [OF laws(1) reach] reach catchup_engine [OF g']
    by (auto simp: safe_result_def split: prod.split)
next
  case (BlockRequest n)
  then show ?thesis using reach by (auto split: option.split)
next
  case (BlockResponse bs cert)
  then show ?thesis using block_response_safe [OF laws reach] by simp
qed

lemma receive_safe:
  assumes laws: "bls_aggregates C" "rlp_total R" and reach: "engine_reach C R (engine g)"
  shows "safe_result C R (receive C R g bytes)" and "\<And>x. fst (receive C R g bytes) \<noteq> Err x"
  using dispatch_safe [OF laws reach] decode_no_panic [of C bytes] auto_harvest_reach [OF laws(1)] reach
  by (auto simp: receive_def safe_result_def split: result.split prod.split) (metis fst_conv snd_conv)+

lemma drain_inbox_safe:
  "bls_aggregates C \<Longrightarrow> rlp_total R \<Longrightarrow> engine_reach C R (engine g) \<Longrightarrow>
     safe_result C R (drain_inbox C R g) \<and> is_ok (fst (drain_inbox C R g)) \<and> inbox (snd (drain_inbox C R g)) = []"
proof (induction C R g rule: drain_inbox.induct)
  case (1 C R g)
  show ?case
  proof (cases "inbox g")
    case Nil
    then show ?thesis using 1(4) by (subst (1 2 3) drain_inbox.simps) (simp add: try_recv_def)
  next
    case (Cons b bs)
    let ?g1 = "g\<lparr>inbox := bs\<rparr>"
    have recv: "try_recv g = (Some b, ?g1)" using Cons by (simp add: try_recv_def)
    obtain r g2 where r: "receive C R ?g1 b = (r, g2)" by fastforce
    have "engine_reach C R (engine ?g1)" using 1(4) by simp
    note safe = receive_safe [OF 1(2,3) this, of b, unfolded r]
    then obtain n where n: "r = Ok n" by (cases r) auto
    then have "engine_reach C R (engine g2)" using safe(1) by simp
    note IH = 1(1) [OF recv [symmetric] refl r [symmetric] n 1(2,3) this]
    show ?thesis using IH recv r n
      by (subst (1 2 3) drain_inbox.simps) (auto simp: safe_result_def Let_def split: prod.split; cases "fst (drain_inbox C R g2)"; auto)
  qed
qed

lemma also_do_safe: "safe_action C R a \<Longrightarrow> safe_action C R b \<Longrightarrow> safe_action C R (also_do a b)"
  unfolding safe_action_def
proof (intro allI impI)
  fix g :: bft_gossip
  assume a: "\<forall>g. engine_reach C R (engine g) \<longrightarrow> safe_result C R (a g)"
    and b: "\<forall>g. engine_reach C R (engine g) \<longrightarrow> safe_result C R (b g)" and "engine_reach C R (engine g)"
  then have safe: "safe_result C R (a g)" by blast
  obtain r g1 where r: "a g = (r, g1)" by fastforce
  obtain r' g2 where r': "b g1 = (r', g2)" by fastforce
  show "safe_result C R (also_do a b g)"
    using safe b [rule_format, of g1] r r'
    by (cases r; cases r') (auto simp: also_do_def)
qed

lemma rebroadcast_safe: "safe_action C R (rebroadcast sel)"
  by (simp add: safe_action_def rebroadcast_def split: option.split)

lemma send_proposal_safe: "safe_result C R (send_proposal C R h r b p g) \<longleftrightarrow> engine_reach C R (engine g)"
  by (simp add: send_proposal_def Let_def)

lemma cast_proposal_opens: "cast_proposal C R n e = (Ok x, e') \<Longrightarrow> coordinator e' \<noteq> None"
  by (auto simp: cast_proposal_def Let_def split: option.splits if_splits prod.splits result.splits)

lemma vote_actions_safe:
  assumes laws: "bls_aggregates C"
  shows "safe_action C R (maybe_prevote C h r)" and "safe_action C R (maybe_precommit C h r)"
  unfolding safe_action_def
proof (safe)
  fix g :: bft_gossip assume reach: "engine_reach C R (engine g)"
  obtain r2 e2 where r2: "cast_prevote C (engine g) = (r2, e2)" by fastforce
  show "safe_result C R (maybe_prevote C h r g)"
    using call_reach(2) [OF laws reach r2] reach r2 by (cases r2) (simp_all add: maybe_prevote_def Let_def)
  obtain r3 e3 where r3: "cast_precommit C (engine g) = (r3, e3)" by fastforce
  show "safe_result C R (maybe_precommit C h r g)"
    using call_reach(3) [OF laws reach r3] reach r3 by (cases r3) (simp_all add: maybe_precommit_def Let_def)
qed

lemma propose_actions_safe:
  assumes laws: "bls_aggregates C"
  shows "safe_action C R (maybe_propose C R n h r)" and "safe_action C R (bootstrap_propose C R n)"
  unfolding safe_action_def
proof (safe)
  fix g :: bft_gossip assume reach: "engine_reach C R (engine g)"
  obtain r1 e1 where r1: "cast_proposal C R n (engine g) = (r1, e1)" by fastforce
  note safe = call_reach(1) [OF laws reach r1]
  show "safe_result C R (maybe_propose C R n h r g)"
    using safe reach r1 by (cases r1) (auto simp: maybe_propose_def send_proposal_safe split: option.split)
  show "safe_result C R (bootstrap_propose C R n g)"
    using safe r1 cast_proposal_opens [of C R n "engine g" _ e1]
    by (cases r1) (auto simp: bootstrap_propose_def send_proposal_safe current_round_state_def split: option.split)
qed

lemma drive_safe:
  assumes "bls_aggregates C"
  shows "safe_action C R (drive C R n)"
proof -
  note acts = vote_actions_safe [OF assms] propose_actions_safe [OF assms] rebroadcast_safe also_do_safe
  have "safe_action C R (drive_phase C R n h r ph)" for h r ph
    by (cases ph) (simp_all add: retransmit_proposal_def retransmit_prevote_def retransmit_precommit_def acts,
      simp add: safe_action_def)
  then show ?thesis
    using acts(4) [of R n] by (auto simp: safe_action_def drive_def split: option.split)
qed

lemma tick_safe:
  assumes laws: "bls_aggregates C" "rlp_total R" and reach: "engine_reach C R (engine g)"
  shows "safe_result C R (tick C R n g)"
proof -
  obtain r g1 where r: "drain_inbox C R g = (r, g1)" by fastforce
  obtain r' g2 where r': "drive C R n g1 = (r', g2)" by fastforce
  have "is_ok r" "engine_reach C R (engine g1)"
    using drain_inbox_safe [OF laws reach] r by (simp_all add: safe_result_def)
  moreover from this have "safe_result C R (r', g2)"
    using drive_safe [OF laws(1), of R n] r' by (metis safe_action_def)
  ultimately show ?thesis
    using auto_harvest_reach [OF laws(1), of R g2] r r'
    by (cases r; cases r') (simp_all add: tick_def also_do_def safe_result_def)
qed

subsection \<open>Catching up\<close>

lemma next_fits: "x \<noteq> max_word_val \<Longrightarrow> saturating_add x 1 = x + (1 :: 'a::len word)"
proof -
  assume "x \<noteq> max_word_val"
  then have "unat x \<noteq> 2 ^ LENGTH('a) - 1"
    by (auto simp: max_word_val_def word_unat_eq_iff unsigned_minus_1_eq_mask mask_eq_exp_minus_1)
  then have "unat x + 1 < 2 ^ LENGTH('a)" using unat_less_pow [of x] by linarith
  then show ?thesis by (simp add: saturating_add_def)
qed

lemma harvest_none: "coordinator (engine g) = None \<Longrightarrow> auto_harvest C R g = g"
  by (subst auto_harvest.simps) (simp add: try_harvest_committed_def)

lemma request_missing:
  assumes C: "bls_canonical C" "sig_point C (bls_sig v)" and "coordinator (engine f) = None" and "n = head_number (engine f) + 1"
    and "head_number (engine f) \<noteq> max_word_val" and "n < height v" and "n \<notin> requested_blocks (flags f)"
  shows "receive C R f (encode C (MsgPrevote v)) =
    (Ok 1, f\<lparr>flags := (flags f)\<lparr>requested_blocks := insert n (requested_blocks (flags f))\<rparr>,
       outbox := outbox f @ [encode C (BlockRequest n)]\<rparr>)"
proof -
  have "decode C (encode C (MsgPrevote v)) = Ok (MsgPrevote v)"
    by (rule wire_decode_encode [OF C(1)]) (simp_all add: wire_sized_def wire_points_def C(2))
  moreover have "saturating_add (head_number (engine f)) 1 = n"
    using next_fits [OF assms(5)] assms(4) by simp
  moreover have "\<not> height v \<le> n" using assms(6) by simp
  ultimately show ?thesis
    using assms(3,7)
    by (simp add: receive_def request_catchup_if_future_height_def Let_def broadcast_def harvest_none del: encode.simps)
qed

lemma serve_block:
  assumes "bls_canonical C" and "committed_block_at (engine g) n = Some (b, cert)" and "coordinator (engine g) = None"
  shows "receive C R g (encode C (BlockRequest n)) =
    (Ok 1, g\<lparr>outbox := outbox g @ [encode C (BlockResponse (Block_encode R b) cert)]\<rparr>)"
proof -
  have "decode C (encode C (BlockRequest n)) = Ok (BlockRequest n)"
    by (rule wire_decode_encode [OF assms(1)]) (simp_all add: wire_sized_def wire_points_def)
  then show ?thesis using assms(2,3) by (simp add: receive_def broadcast_def harvest_none del: encode.simps)
qed

lemma adopted_point:
  assumes "bls_checks_points C" and "adopt_synced_block C R e b cert = (Ok b', e')"
  shows "sig_point C (aggregated_sig cert)"
proof -
  have "PrecommitCertificate_verify C cert (active_set e) = Ok ()"
    using assms(2) by (auto simp: adopt_synced_block_def split: if_splits result.splits)
  then show ?thesis
    using verified_point [OF assms(1)]
    by (auto simp: PrecommitCertificate_verify_def Let_def map_err_Ok split: if_splits prod.splits)
qed

lemma adopt_response:
  assumes C: "bls_canonical C" "bls_checks_points C" and "rlp_encodes R" and "block_wf R b" and "length (Block_encode R b) \<le> MAX_BLOCK_RESPONSE_LEN"
    and adopt: "adopt_synced_block C R (engine f) b cert = (Ok b, e')" and "coordinator e' = None"
  shows "\<exists>f'. receive C R f (encode C (BlockResponse (Block_encode R b) cert)) = (Ok 1, f') \<and> engine f' = e' \<and>
    harvested_blocks f' = harvested_blocks f @ [b] \<and>
    requested_blocks (flags f') = requested_blocks (flags f) - {number (block_header b)}"
proof -
  have "decode C (encode C (BlockResponse (Block_encode R b) cert)) = Ok (BlockResponse (Block_encode R b) cert)"
    by (rule wire_decode_encode [OF C(1)])
      (use assms(5) adopted_point [OF C(2) adopt] in \<open>simp_all add: wire_sized_def wire_points_def\<close>)
  moreover have "Block_decode R (Block_encode R b) = Ok (b, [])"
    using Block_reads [OF assms(3,4)] unfolding reads_def by (metis append_Nil2)
  ultimately show ?thesis
    using adopt assms(7) by (simp add: receive_def handle_block_response_def harvest_none del: encode.simps)
qed

lemma adopt_closes: "adopt_synced_block C R e b cert = (Ok b', e') \<Longrightarrow> coordinator e' = None"
  by (auto simp: adopt_synced_block_def commit_block_def split: if_splits result.splits)

lemma decode_encode_body:
  assumes "rlp_encodes R" and "body_wf R bdy"
  shows "decode_block_body R (encode_block_body R bdy) = Ok bdy"
proof -
  have "BlockBody_decode R (BlockBody_encode R bdy) = Ok (bdy, [])"
    using BlockBody_reads [OF assms] unfolding reads_def by (metis append_Nil2)
  then show ?thesis by (simp add: decode_block_body_def encode_block_body_def)
qed

text \<open>The block that the concrete engine commits fits a response.\<close>

lemma empty_block_length:
  assumes R: "rlp_encodes R" and "header_wf (block_header b)" and "body b = BlockBody_default"
  shows "length (Block_encode R b) \<le> 2100" and "block_wf R b"
proof -
  have upper: "length (enc_list_header R n) \<le> 9" for n
    using list_header_upper [OF R, of n] by (simp only: rlp_length_simps(1) [OF R])
  have "length (BlockBody_encode R BlockBody_default) \<le> 36"
    using upper [of "BlockBody_payload_length R BlockBody_default"] upper [of 0]
    by (simp add: BlockBody_encode_def BlockBody_default_def)
  then show len: "length (Block_encode R b) \<le> 2100"
    using upper [of "Header_length R (block_header b) + BlockBody_length R (body b)"] header_length_bound [OF R assms(2)]
    by (simp add: Block_encode_def assms(3))
  then show "block_wf R b" using assms(2,3) by (simp add: block_wf_def BlockBody_default_def)
qed

lemma default_body_wf: "rlp_encodes R \<Longrightarrow> body_wf R BlockBody_default"
  using empty_block_length(2) [of R "\<lparr>block_header = demo_header, body = BlockBody_default\<rparr>"] block_wf_body
    demo_header_wf by fastforce

lemma demo_proposal_sized:
  "block_wf rlp_format demo_proposal" "length (Block_encode rlp_format demo_proposal) \<le> MAX_BLOCK_RESPONSE_LEN"
proof -
  have "header_wf (block_header demo_proposal)" "body demo_proposal = BlockBody_default"
    by (simp_all add: demo_proposal_def reconstruct_proposed_block_def reconstruct_proposed_block_with_body_def
        build_block_with_body_def Let_def header_wf_def ascii_def split: prod.split)
  from empty_block_length [OF rlp_format_encodes this]
  show "block_wf rlp_format demo_proposal" "length (Block_encode rlp_format demo_proposal) \<le> MAX_BLOCK_RESPONSE_LEN"
    by (simp_all add: MAX_BLOCK_RESPONSE_LEN_def MAX_PROPOSAL_BODY_LEN_def)
qed

subsection \<open>Properties\<close>

text \<open>
  (C30) The gossip driver cannot be crashed. From every reachable engine, one tick over any inbox, whatever
  bytes the peers have put there, returns normally, has consumed the whole inbox where it stops, and
  leaves a reachable engine, so the engine's invariants and guarantees carry over to the running node.
\<close>

theorem gossip_never_panics:
  assumes "bls_aggregates C" and "rlp_total R" and "engine_reach C R (engine g)"
  shows "\<exists>r g'. tick C R n g = (r, g') \<and> r \<noteq> Panic \<and> engine_reach C R (engine g') \<and>
    inbox (snd (drain_inbox C R g)) = []"
  using tick_safe [OF assms, of n] drain_inbox_safe [OF assms] by (cases "tick C R n g") (simp add: safe_result_def)

theorem gossip_never_panics_witness:
  "\<exists>r g'. tick demo_crypto rlp_format 0 (BftGossip_new demo_engine [[], [0, 1, 2], [3, 0, 0, 0, 0, 0, 0, 0, 9]]) = (r, g') \<and>
     r \<noteq> Panic"
  using gossip_never_panics [OF demo_bls_aggregates rlp_format_total, of
      "BftGossip_new demo_engine [[], [0, 1, 2], [3, 0, 0, 0, 0, 0, 0, 0, 9]]" 0] demo_reach
  by (auto simp: BftGossip_new_def)

text \<open>
  A node moves forward only. Under events in which proposals from peers carry the next height, and
  jumps go to later rounds, every step leaves the pair of height and round where it is or increases it, and raises
  the head by at most one block: an engine never returns to a round in which it may already have voted.
\<close>

theorem position_advances:
  assumes "bls_aggregates C" and "engine_reach C R e" and "in_order e" and "head_number e \<noteq> max_word_val"
    and "admissible True e ev" and "timely e ev" and "forward e ev" and "e' = snd (run_event C R e ev)"
  shows "(head_number e < head_number e' \<or> head_number e' = head_number e \<and> round_of e \<le> round_of e') \<and>
    unat (head_number e') \<le> unat (head_number e) + 1"
  using event_orderly [OF assms(1) engine_reach_ok [OF assms(1,2)] assms(3-7)] assms(8)
  by (auto simp: orderly_move_def pos_le_def)

theorem position_advances_witness:
  "round_of demo_engine \<le> round_of (snd (run_event demo_crypto rlp_format demo_engine Timeout)) \<or>
   0 < head_number (snd (run_event demo_crypto rlp_format demo_engine Timeout))"
  using position_advances [OF demo_bls_aggregates demo_reach _ _ _ _ _ refl, of Timeout]
  by (auto simp: demo_engine_fields in_order_def max_word_val_def simp del: run_event.simps)

text \<open>
  (C31) A node that is one block behind catches up in three messages. Node \<open>g\<close> has harvested a block from an engine
  \<open>e\<close> whose run met only proposals built on its head, whose proposal carried the next number and whose cache held no number above its head, below the last number; the
  block is well formed and fits a response. Node \<open>f\<close> has the head and the validator set that \<open>g\<close> had
  before, no open round and no open request for the block. Then a well-formed vote for a later height makes \<open>f\<close>
  broadcast a block request, which makes \<open>g\<close> broadcast the block with its certificate, and on receiving
  these bytes \<open>f\<close> has the head of \<open>g\<close>, hands the block to its host and has no request left open for it. Of
  the BLS library it is used that an encoding which decompresses is the compressed form of its result, and that a signature
  which verifies is one that decompression yields; the vote's signature is assumed to be such a value.
\<close>

theorem late_node_catches_up:
  assumes "bls_aggregates C" and C: "bls_canonical C" "bls_checks_points C" "sig_point C (bls_sig v)" and "rlp_encodes R"
    and "engine_reach C R e" and "in_order e" and "try_harvest_committed C R e = (Some b, engine g)"
    and "list_all (\<lambda>k. k \<le> head_number e) (map fst (recent_blocks e))" and "head_number e \<noteq> max_word_val"
    and "block_wf R b" and "length (Block_encode R b) \<le> MAX_BLOCK_RESPONSE_LEN"
    and "head_hash (engine f) = head_hash e" and "head_number (engine f) = head_number e"
    and "active_set (engine f) = active_set e" and "coordinator (engine f) = None"
    and "head_number e + 1 < height v" and "head_number e + 1 \<notin> requested_blocks (flags f)"
    and "f1 = snd (receive C R f (encode C (MsgPrevote v)))" and "g1 = snd (receive C R g (last (outbox f1)))"
    and "f2 = snd (receive C R f1 (last (outbox g1)))"
  shows "head_hash (engine f2) = head_hash (engine g) \<and> head_number (engine f2) = head_number (engine g) \<and>
    engine_seed (engine f2) = engine_seed (engine g) \<and> harvested_blocks f2 = harvested_blocks f @ [b] \<and>
    head_number e + 1 \<notin> requested_blocks (flags f2)"
proof -
  let ?n = "head_number e + 1"
  note ok = engine_reach_ok [OF assms(1,6)]
  have f1: "f1 = f\<lparr>flags := (flags f)\<lparr>requested_blocks := insert ?n (requested_blocks (flags f))\<rparr>,
      outbox := outbox f @ [encode C (BlockRequest ?n)]\<rparr>"
    using request_missing [OF C(1,3) assms(16), of ?n R] assms(10,14,17-19) by simp
  obtain cert f' where sync: "committed_block_at (engine g) (head_number (engine g)) = Some (b, cert)"
      "adopt_synced_block C R (engine f) b cert = (Ok b, f')" "head_hash f' = head_hash (engine g)"
      "head_number f' = head_number (engine g)" "engine_seed f' = engine_seed (engine g)"
    using harvest_then_sync [OF assms(1) ok assms(7-10) assms(13-15)] by blast
  have new: "head_number (engine g) = ?n" "coordinator (engine g) = None" "number (block_header b) = ?n"
    by (rule harvest_cases [OF ok]; use assms(7,8) in \<open>auto simp: commit_block_def in_order_def\<close>)+
  have g1: "g1 = g\<lparr>outbox := outbox g @ [encode C (BlockResponse (Block_encode R b) cert)]\<rparr>"
    using serve_block [OF C(1) sync(1) new(2), of R] f1 assms(20) new(1) by (simp del: encode.simps)
  have closed: "coordinator f' = None" using sync(2) by (rule adopt_closes)
  have same: "engine f1 = engine f" "harvested_blocks f1 = harvested_blocks f" by (simp_all add: f1)
  obtain f'' where f'': "receive C R f1 (encode C (BlockResponse (Block_encode R b) cert)) = (Ok 1, f'')" "engine f'' = f'"
      "harvested_blocks f'' = harvested_blocks f @ [b]" "?n \<notin> requested_blocks (flags f'')"
    using adopt_response [OF C(1,2) assms(5,11,12), of f1 cert f'] sync(2) closed new(3) unfolding same by auto
  have "last (outbox g1) = encode C (BlockResponse (Block_encode R b) cert)" by (simp add: g1 del: encode.simps)
  then have "f2 = f''" using f''(1) assms(21) by simp
  then show ?thesis using f''(2-4) sync(3-5) by simp
qed

theorem late_node_catches_up_witness:
  "\<exists>g. try_harvest_committed demo_crypto rlp_format demo_ready = (Some demo_proposal, engine g) \<and>
     (let v = PrevoteVote_sign demo_crypto demo_sk 0 5 0 0;
          f1 = snd (receive demo_crypto rlp_format (BftGossip_new demo_engine []) (encode demo_crypto (MsgPrevote v)));
          g1 = snd (receive demo_crypto rlp_format g (last (outbox f1)));
          f2 = snd (receive demo_crypto rlp_format f1 (last (outbox g1)))
      in head_hash (engine f2) = head_hash (engine g) \<and> head_number (engine f2) = 1)"
proof -
  let ?v = "PrevoteVote_sign demo_crypto demo_sk 0 5 0 0"
  obtain e' where h: "try_harvest_committed demo_crypto rlp_format demo_ready = (Some demo_proposal, e')" "head_number e' = 1"
    using demo_ready_harvest by blast
  let ?g = "BftGossip_new e' []"
  have g: "try_harvest_committed demo_crypto rlp_format demo_ready = (Some demo_proposal, engine ?g)" "head_number (engine ?g) = 1"
    using h by (simp_all add: BftGossip_new_def)
  let ?f = "BftGossip_new demo_engine []"
  have pre: "list_all (\<lambda>k. k \<le> head_number demo_ready) (map fst (recent_blocks demo_ready))"
      "head_number demo_ready \<noteq> max_word_val" "head_hash (engine ?f) = head_hash demo_ready"
      "head_number (engine ?f) = head_number demo_ready" "active_set (engine ?f) = active_set demo_ready"
      "coordinator (engine ?f) = None" "head_number demo_ready + 1 < height ?v"
      "head_number demo_ready + 1 \<notin> requested_blocks (flags ?f)"
    by (simp_all add: demo_ready_fields demo_engine_fields BftGossip_new_def RoundFlags_default_def max_word_val_def
        PrevoteVote_sign_def Let_def)
  have v: "sig_point demo_crypto (bls_sig ?v)"
    using signed_point [OF demo_bls_checks_points demo_bls_signs] by (simp add: PrevoteVote_sign_def)
  show ?thesis
    unfolding Let_def
    using late_node_catches_up [OF demo_bls_aggregates demo_bls_canonical demo_bls_checks_points v rlp_format_encodes demo_ready_reach
        demo_ready_in_order g(1) pre(1,2) demo_proposal_sized pre(3-8) refl refl refl] g by metis
qed

text \<open>
  (C32) A proposal may carry any earlier height. Of the height field of a proposal the driver only refuses
  values above the next height, and the engine votes on the hash alone. If the leader of the next height
  proposes a block numbered with a height \<open>n\<close> at or below the head, and validators holding a quorum vote for it,
  as their drivers do for any proposal, then the node commits it and its head number falls to \<open>n\<close>.
\<close>

theorem stale_height_is_committed:
  assumes "bls_aggregates C" and "bls_signs C" and "engine_reach C R e" and "coordinator e = None"
    and "pending_prevotes e = []" and "pending_precommits e = []" and "head_number e \<noteq> max_word_val"
    and "list_all is_vote_event evs" and "n \<le> head_number e" and "decode_block_body R bs = Ok bdy"
    and "b = reconstruct_proposed_block_with_body C R e n p cb bdy"
    and "LeaderProof_verify C p
       (vrf_pubkey (validators (active_set e) ! select_leader C (active_set e) (head_number e + 1) 0 (engine_seed e)))
       (head_number e + 1) 0 (engine_seed e) = Ok ()"
    and "set q \<subseteq> {..<vs_size (active_set e)}" and "unat (quorum_threshold (active_set e)) \<le> stake_of (active_set e) (set q)"
    and "\<And>i. i < vs_size (active_set e) \<Longrightarrow> bls_pubkey (validators (active_set e) ! i) = bls_public_key_of C (sk i)"
    and "\<And>i. i \<in> set q \<Longrightarrow>
       RemotePrevote (PrevoteVote_sign C (sk i) (Block_hash C R b) (head_number e + 1) 0 (word_of_nat i)) \<in> set evs \<and>
       RemotePrecommit (PrecommitVote_sign C (sk i) (Block_hash C R b) (head_number e + 1) 0 (word_of_nat i)) \<in> set evs"
    and "engine g = run_events C R e evs"
    and "g' = auto_harvest C R (snd (dispatch_inbound C R g (Proposal n 0 (Block_hash C R b) p cb bs)))"
  shows "head_number (engine g') = n \<and> head_hash (engine g') = Block_hash C R b"
proof -
  let ?e1 = "run_events C R e evs"
  have buf: "buffered_only e ?e1" using early_votes_buffered [OF assms(4,8), of C R] by simp
  then have same: "head_number ?e1 = head_number e" "reconstruct_proposed_block_with_body C R ?e1 n p cb bdy = b"
    by (simp_all add: buffered_only_def same_head_def assms(11) reconstruct_proposed_block_with_body_def)
  have att: "attaches e b p" unfolding assms(11) by (rule reconstruct_attaches)
  let ?e2 = "run_events C R e (evs @ [RemoteProposal b p])"
  obtain cert where h: "try_harvest_committed C R ?e2 = (Some b, commit_block C R ?e2 b (vrf_output p) cert)"
    using early_round [OF assms(1-8) att assms(12-16)] by blast
  have e2: "snd (submit_remote_proposal C R ?e1 b p) = ?e2" by (simp add: run_events_append erase_snd)
  have "n \<le> saturating_add (head_number e) 1" using assms(9) saturating_add_mono order_trans by blast
  then have "engine (snd (dispatch_inbound C R g (Proposal n 0 (Block_hash C R b) p cb bs))) = ?e2"
    using assms(10,17) same e2
    by (auto simp: request_catchup_if_future_height_def handle_proposal_msg_def Let_def split: prod.split)
  moreover have "number (block_header b) = n"
    by (simp add: assms(11) reconstruct_proposed_block_with_body_def)
  ultimately show ?thesis
    unfolding assms(18) using h by (subst (1 2) auto_harvest.simps) (simp add: harvest_none commit_block_def)
qed

theorem stale_height_is_committed_witness:
  "let b = reconstruct_proposed_block_with_body demo_crypto rlp_format demo_engine 0 demo_proof 5 BlockBody_default;
       g = BftGossip_new (run_events demo_crypto rlp_format demo_engine (demo_votes_for b)) []
   in head_hash (engine (auto_harvest demo_crypto rlp_format (snd (dispatch_inbound demo_crypto rlp_format g
        (Proposal 0 0 (Block_hash demo_crypto rlp_format b) demo_proof 5 (BlockBody_encode rlp_format BlockBody_default)))))) =
      Block_hash demo_crypto rlp_format b"
proof -
  let ?b = "reconstruct_proposed_block_with_body demo_crypto rlp_format demo_engine 0 demo_proof 5 BlockBody_default"
  let ?e = "run_events demo_crypto rlp_format demo_engine (demo_votes_for ?b)"
  have body: "decode_block_body rlp_format (BlockBody_encode rlp_format BlockBody_default) = Ok BlockBody_default"
    using decode_encode_body [OF rlp_format_encodes default_body_wf [OF rlp_format_encodes]] by (simp add: encode_block_body_def)
  have "engine (BftGossip_new ?e []) = ?e" by (simp add: BftGossip_new_def)
  from stale_height_is_committed [where n = 0 and cb = 5, OF demo_bls_aggregates demo_bls_signs demo_reach demo_early(1-5) _ body refl
      demo_early(6-10) this refl]
  show ?thesis by (simp add: Let_def)
qed

end
