(* ===== verification/Secp.thy ===== *)
theory Secp
  imports Block
begin

section \<open>Secp256k1 signatures and the sender of a transaction\<close>

text \<open>
  \<open>aii-crypto/src/secp.rs\<close> and \<open>aii-block/src/tx/signer.rs\<close>. The curve is the third-party crate
  \<open>k256\<close>: the record \<open>secp\<close> holds what the wrappers call of it, and \<open>ecdsa_signs\<close> what they rely on. A
  public key is its affine point \<open>X\<close> and \<open>Y\<close>, 64 bytes. The lemmas show that a signed transaction
  recovers to its signer, that a replay-protected transaction is valid on one chain only, and that
  the bytes that are signed determine the kind of the transaction and every field of it.
\<close>

record secp =
  k_sk_ok :: "256 word \<Rightarrow> bool"
  k_public :: "256 word \<Rightarrow> 512 word"
  k_from_compressed :: "264 word \<Rightarrow> 512 word option"
  k_from_uncompressed :: "520 word \<Rightarrow> 512 word option"
  k_compressed :: "512 word \<Rightarrow> 264 word"
  k_uncompressed :: "512 word \<Rightarrow> 520 word"
  k_sig_ok :: "512 word \<Rightarrow> bool"
  k_recid_ok :: "u8 \<Rightarrow> bool"
  k_sign :: "256 word \<Rightarrow> h256 \<Rightarrow> (512 word \<times> u8) option"
  k_verify :: "512 word \<Rightarrow> h256 \<Rightarrow> 512 word \<Rightarrow> bool"
  k_recover :: "h256 \<Rightarrow> 512 word \<Rightarrow> u8 \<Rightarrow> 512 word option"

definition ecdsa_signs :: "secp \<Rightarrow> bool" where
  "ecdsa_signs K \<longleftrightarrow>
     (\<forall>sk h sg v. k_sk_ok K sk \<longrightarrow> k_sign K sk h = Some (sg, v) \<longrightarrow>
        k_sig_ok K sg \<and> v \<le> 1 \<and> k_recover K h sg v = Some (k_public K sk) \<and> k_verify K (k_public K sk) h sg) \<and>
     (\<forall>v. v \<le> 1 \<longrightarrow> k_recid_ok K v)"

subsection \<open>secp.rs\<close>

datatype secp_secret_key = SecpSecretKey "256 word"
datatype secp_public_key = SecpPublicKey "512 word"

record secp_signature =
  sig_inner :: "512 word"
  recovery_id :: u8

definition secp_sk_from_bytes :: "secp \<Rightarrow> 256 word \<Rightarrow> (crypto_error, secp_secret_key) result" where
  "secp_sk_from_bytes K b =
     (if k_sk_ok K b then Ok (SecpSecretKey b)
      else Err (InvalidEncoding ''secp256k1 secret key out of range''))"

primrec secp_sk_to_bytes :: "secp_secret_key \<Rightarrow> 256 word" where
  "secp_sk_to_bytes (SecpSecretKey b) = b"

primrec secp_public_key_of :: "secp \<Rightarrow> secp_secret_key \<Rightarrow> secp_public_key" where
  "secp_public_key_of K (SecpSecretKey b) = SecpPublicKey (k_public K b)"

definition secp_pk_from_compressed :: "secp \<Rightarrow> 264 word \<Rightarrow> (crypto_error, secp_public_key) result" where
  "secp_pk_from_compressed K b =
     (case k_from_compressed K b of Some p \<Rightarrow> Ok (SecpPublicKey p)
      | None \<Rightarrow> Err (InvalidEncoding ''secp256k1 compressed pubkey invalid''))"

definition secp_pk_from_uncompressed :: "secp \<Rightarrow> 520 word \<Rightarrow> (crypto_error, secp_public_key) result" where
  "secp_pk_from_uncompressed K b =
     (case k_from_uncompressed K b of Some p \<Rightarrow> Ok (SecpPublicKey p)
      | None \<Rightarrow> Err (InvalidEncoding ''secp256k1 uncompressed pubkey invalid''))"

primrec secp_to_compressed :: "secp \<Rightarrow> secp_public_key \<Rightarrow> 264 word" where
  "secp_to_compressed K (SecpPublicKey p) = k_compressed K p"

primrec secp_to_uncompressed :: "secp \<Rightarrow> secp_public_key \<Rightarrow> 520 word" where
  "secp_to_uncompressed K (SecpPublicKey p) = k_uncompressed K p"

definition from_pubkey_hash :: "h256 \<Rightarrow> address" where
  "from_pubkey_hash h = from_be_bytes (drop 12 (h256_bytes h))"

definition secp_address :: "crypto \<Rightarrow> secp \<Rightarrow> secp_public_key \<Rightarrow> address" where
  "secp_address C K pk =
     from_pubkey_hash (keccak256 C (drop 1 (to_be_bytes 65 (secp_to_uncompressed K pk))))"

definition secp_sig_from_bytes :: "secp \<Rightarrow> byte list \<Rightarrow> (crypto_error, secp_signature) result" where
  "secp_sig_from_bytes K bs =
     (let inner = from_be_bytes (take 64 bs) in
      if \<not> k_sig_ok K inner then Err (InvalidEncoding ''secp256k1 signature scalars invalid'')
      else if \<not> k_recid_ok K (bs ! 64) then Err (InvalidEncoding ''secp256k1 recovery id not in {0,1}'')
      else Ok \<lparr>sig_inner = inner, recovery_id = bs ! 64\<rparr>)"

definition secp_sig_to_bytes :: "secp_signature \<Rightarrow> byte list" where
  "secp_sig_to_bytes s = to_be_bytes 64 (sig_inner s) @ [recovery_id s]"

primrec secp_sign :: "secp \<Rightarrow> secp_secret_key \<Rightarrow> h256 \<Rightarrow> (crypto_error, secp_signature) result" where
  "secp_sign K (SecpSecretKey sk) h =
     (case k_sign K sk h of
        None \<Rightarrow> Err (InvalidEncoding ''secp256k1 signing failed'')
      | Some (sg, v) \<Rightarrow> Ok \<lparr>sig_inner = sg, recovery_id = v\<rparr>)"

primrec secp_verify :: "secp \<Rightarrow> secp_signature \<Rightarrow> h256 \<Rightarrow> secp_public_key \<Rightarrow> (crypto_error, unit) result" where
  "secp_verify K s h (SecpPublicKey p) =
     (if k_verify K p h (sig_inner s) then Ok () else Err BadSignature)"

definition secp_recover :: "secp \<Rightarrow> secp_signature \<Rightarrow> h256 \<Rightarrow> (crypto_error, secp_public_key) result" where
  "secp_recover K s h =
     (case k_recover K h (sig_inner s) (recovery_id s) of
        Some p \<Rightarrow> Ok (SecpPublicKey p) | None \<Rightarrow> Err BadSignature)"

subsection \<open>signer.rs\<close>

datatype recovery_error =
    NotSecp256k1 algo_id
  | InvalidV u64
  | SecpError crypto_error
  | Eip4844Unsupported

definition recover_from_rs ::
    "crypto \<Rightarrow> secp \<Rightarrow> u8 \<Rightarrow> h256 \<Rightarrow> h256 \<Rightarrow> h256 \<Rightarrow> (recovery_error, address) result" where
  "recover_from_rs C K recid r s hash =
     (let bytes = h256_bytes r @ h256_bytes s @ [recid] in
      and_then (map_err SecpError (secp_sig_from_bytes K bytes)) (\<lambda>sig.
      and_then (map_err SecpError (secp_recover K sig hash)) (\<lambda>pk.
      Ok (secp_address C K pk))))"

definition pre155_bytes :: "rlp \<Rightarrow> tx_legacy \<Rightarrow> byte list" where
  "pre155_bytes R t =
     enc_list_header R
       (len_u64 R (nonce t) + u256_length R (gas_price t) + len_u64 R (gas_limit t) +
        encoded_to_length R (to_addr t) + u256_length R (tx_value t) + len_str R (tx_data t)) @
     enc_u64 R (nonce t) @ encode_u256 R (gas_price t) @ enc_u64 R (gas_limit t) @
     encode_to R (to_addr t) @ encode_u256 R (tx_value t) @ enc_str R (tx_data t)"

definition legacy_signing_hash_pre155 :: "crypto \<Rightarrow> rlp \<Rightarrow> tx_legacy \<Rightarrow> h256" where
  "legacy_signing_hash_pre155 C R t = keccak256 C (pre155_bytes R t)"

definition eip155_bytes :: "rlp \<Rightarrow> tx_legacy \<Rightarrow> u64 \<Rightarrow> byte list" where
  "eip155_bytes R t cid =
     enc_list_header R
       (len_u64 R (nonce t) + u256_length R (gas_price t) + len_u64 R (gas_limit t) +
        encoded_to_length R (to_addr t) + u256_length R (tx_value t) + len_str R (tx_data t) +
        len_u64 R cid + u256_length R 0 + u256_length R 0) @
     enc_u64 R (nonce t) @ encode_u256 R (gas_price t) @ enc_u64 R (gas_limit t) @
     encode_to R (to_addr t) @ encode_u256 R (tx_value t) @ enc_str R (tx_data t) @
     enc_u64 R cid @ encode_u256 R 0 @ encode_u256 R 0"

definition legacy_signing_hash_eip155 :: "crypto \<Rightarrow> rlp \<Rightarrow> tx_legacy \<Rightarrow> u64 \<Rightarrow> h256" where
  "legacy_signing_hash_eip155 C R t cid = keccak256 C (eip155_bytes R t cid)"

definition eip1559_bytes :: "rlp \<Rightarrow> tx_eip1559 \<Rightarrow> byte list" where
  "eip1559_bytes R t =
     (let access_list_inner = access_list_length R (access_list t);
          access_list_outer = length_of_length R access_list_inner + access_list_inner
      in [0x02] @
         enc_list_header R
           (len_u64 R (chain_id t) + len_u64 R (nonce_1559 t) +
            u256_length R (max_priority_fee_per_gas t) + u256_length R (max_fee_per_gas t) +
            len_u64 R (gas_limit_1559 t) + encoded_to_length R (to_1559 t) +
            u256_length R (value_1559 t) + len_str R (data_1559 t) + access_list_outer) @
         enc_u64 R (chain_id t) @ enc_u64 R (nonce_1559 t) @
         encode_u256 R (max_priority_fee_per_gas t) @ encode_u256 R (max_fee_per_gas t) @
         enc_u64 R (gas_limit_1559 t) @ encode_to R (to_1559 t) @ encode_u256 R (value_1559 t) @
         enc_str R (data_1559 t) @
         enc_list_header R access_list_inner @ concat (map (enc_access R) (access_list t)))"

definition eip1559_signing_hash :: "crypto \<Rightarrow> rlp \<Rightarrow> tx_eip1559 \<Rightarrow> h256" where
  "eip1559_signing_hash C R t = keccak256 C (eip1559_bytes R t)"

definition recover_legacy ::
    "crypto \<Rightarrow> secp \<Rightarrow> rlp \<Rightarrow> tx_legacy \<Rightarrow> u64 \<Rightarrow> (recovery_error, address) result" where
  "recover_legacy C K R t cid =
     (if algo t \<noteq> Secp256k1 then Err (NotSecp256k1 (algo t))
      else if tx_v t = 27 \<or> tx_v t = 28 then
        recover_from_rs C K (ucast (tx_v t - 27)) (tx_r t) (tx_s t) (legacy_signing_hash_pre155 C R t)
      else if 35 \<le> tx_v t then
        and_then (ok_or (InvalidV (tx_v t))
            (case checked_mul cid 2 of None \<Rightarrow> None | Some x \<Rightarrow> checked_add x 35)) (\<lambda>expected_base.
        and_then (ok_or (InvalidV (tx_v t)) (checked_sub (tx_v t) expected_base)) (\<lambda>delta.
        if 1 < delta then Err (InvalidV (tx_v t))
        else recover_from_rs C K (ucast delta) (tx_r t) (tx_s t) (legacy_signing_hash_eip155 C R t cid)))
      else Err (InvalidV (tx_v t)))"

definition recover_eip1559 ::
    "crypto \<Rightarrow> secp \<Rightarrow> rlp \<Rightarrow> tx_eip1559 \<Rightarrow> (recovery_error, address) result" where
  "recover_eip1559 C K R t =
     (if algo_1559 t \<noteq> Secp256k1 then Err (NotSecp256k1 (algo_1559 t))
      else if 1 < v_1559 t then Err (InvalidV (ucast (v_1559 t)))
      else recover_from_rs C K (v_1559 t) (r_1559 t) (s_1559 t) (eip1559_signing_hash C R t))"

primrec recover_signer ::
    "crypto \<Rightarrow> secp \<Rightarrow> rlp \<Rightarrow> tx \<Rightarrow> u64 \<Rightarrow> (recovery_error, address) result" where
  "recover_signer C K R (Legacy t) cid = recover_legacy C K R t cid"
| "recover_signer C K R (Eip1559 t) cid = recover_eip1559 C K R t"
| "recover_signer C K R (Eip4844 t) cid = Err Eip4844Unsupported"

subsection \<open>Recovering a signer\<close>

text \<open>What a wallet does with a signature: the 65 bytes become the fields \<open>r\<close>, \<open>s\<close> and \<open>v\<close>.\<close>

definition seal_legacy :: "tx_legacy \<Rightarrow> u64 \<Rightarrow> secp_signature \<Rightarrow> tx_legacy" where
  "seal_legacy t base sg =
     (let raw = secp_sig_to_bytes sg in
      t\<lparr>tx_v := base + ucast (raw ! 64), tx_r := from_be_bytes (take 32 raw),
        tx_s := from_be_bytes (take 32 (drop 32 raw)), algo := Secp256k1\<rparr>)"

definition seal_1559 :: "tx_eip1559 \<Rightarrow> secp_signature \<Rightarrow> tx_eip1559" where
  "seal_1559 t sg =
     (let raw = secp_sig_to_bytes sg in
      t\<lparr>v_1559 := raw ! 64, r_1559 := from_be_bytes (take 32 raw),
        s_1559 := from_be_bytes (take 32 (drop 32 raw)), algo_1559 := Secp256k1\<rparr>)"

lemma raw_parts:
  "h256_bytes (from_be_bytes (take 32 (to_be_bytes 64 (w :: 512 word)))) @
   h256_bytes (from_be_bytes (drop 32 (to_be_bytes 64 w))) = to_be_bytes 64 w"
  by (simp add: to_from_be_bytes)

lemma recover_sealed:
  assumes K: "ecdsa_signs K" and sk: "k_sk_ok K sk" and sg: "secp_sign K (SecpSecretKey sk) h = Ok sg"
  defines "raw \<equiv> secp_sig_to_bytes sg"
  shows "recover_from_rs C K (raw ! 64) (from_be_bytes (take 32 raw)) (from_be_bytes (take 32 (drop 32 raw))) h =
     Ok (secp_address C K (secp_public_key_of K (SecpSecretKey sk)))"
    and "raw ! 64 \<le> 1"
proof -
  obtain w v where wv: "k_sign K sk h = Some (w, v)" "sg = \<lparr>sig_inner = w, recovery_id = v\<rparr>"
    using sg by (auto split: option.splits)
  have laws: "k_sig_ok K w" "v \<le> 1" "k_recover K h w v = Some (k_public K sk)" "k_recid_ok K v"
    using K sk wv(1) unfolding ecdsa_signs_def by blast+
  have raw: "raw = to_be_bytes 64 w @ [v]" by (simp add: raw_def secp_sig_to_bytes_def wv(2))
  have v: "raw ! 64 = v" by (simp add: raw nth_append)
  then show "raw ! 64 \<le> 1" using laws(2) by simp
  have parts: "h256_bytes (from_be_bytes (take 32 raw)) @ h256_bytes (from_be_bytes (take 32 (drop 32 raw))) =
      to_be_bytes 64 w"
    using raw_parts [of w] by (simp add: raw)
  have sig: "secp_sig_from_bytes K (to_be_bytes 64 w @ [v]) = Ok \<lparr>sig_inner = w, recovery_id = v\<rparr>"
    using laws(1,4) by (simp add: secp_sig_from_bytes_def nth_append)
  show "recover_from_rs C K (raw ! 64) (from_be_bytes (take 32 raw)) (from_be_bytes (take 32 (drop 32 raw))) h =
     Ok (secp_address C K (secp_public_key_of K (SecpSecretKey sk)))"
    unfolding recover_from_rs_def Let_def append_assoc [symmetric] parts v sig
    using laws(3) by (simp add: secp_recover_def)
qed

lemma sealed_hashes [simp]:
  "pre155_bytes R (seal_legacy t b sg) = pre155_bytes R t"
  "eip155_bytes R (seal_legacy t b sg) cid = eip155_bytes R t cid"
  "eip1559_bytes R (seal_1559 u sg) = eip1559_bytes R u"
  by (simp_all add: pre155_bytes_def eip155_bytes_def eip1559_bytes_def seal_legacy_def seal_1559_def Let_def)

text \<open>The replay-protected \<open>v\<close>, read over the integers: \<open>2 * chain_id + 35\<close> or one more.\<close>

lemma chain_base:
  "(case checked_mul cid 2 of None \<Rightarrow> None | Some x \<Rightarrow> checked_add x (35 :: u64)) =
     (if 2 * unat cid + 35 < 2 ^ 64 then Some (cid * 2 + 35) else None)"
  "2 * unat (cid :: u64) + 35 < 2 ^ 64 \<Longrightarrow> unat (cid * 2 + 35) = 2 * unat cid + 35"
  by (auto simp: checked_mul_def checked_add_def unat_word_ariths)

lemma recover_eip155:
  assumes "algo t = Secp256k1" and "35 \<le> tx_v t"
  shows "recover_legacy C K R t cid =
     (if unat (tx_v t) \<in> {2 * unat cid + 35, 2 * unat cid + 36}
      then recover_from_rs C K (ucast (tx_v t - (cid * 2 + 35))) (tx_r t) (tx_s t)
             (legacy_signing_hash_eip155 C R t cid)
      else Err (InvalidV (tx_v t)))"
proof -
  have v: "tx_v t \<noteq> 27" "tx_v t \<noteq> 28" using assms(2) by auto
  show ?thesis
  proof (cases "2 * unat cid + 35 < 2 ^ 64")
    case True
    note base = chain_base(2) [OF True]
    have le: "cid * 2 + 35 \<le> tx_v t \<longleftrightarrow> 2 * unat cid + 35 \<le> unat (tx_v t)"
      by (simp only: word_le_nat_alt base)
    have sub: "cid * 2 + 35 \<le> tx_v t \<Longrightarrow> unat (tx_v t - (cid * 2 + 35)) = unat (tx_v t) - (2 * unat cid + 35)"
      by (simp only: unat_sub base)
    have "unat (tx_v t) \<in> {2 * unat cid + 35, 2 * unat cid + 36} \<longleftrightarrow>
        cid * 2 + 35 \<le> tx_v t \<and> \<not> 1 < tx_v t - (cid * 2 + 35)"
      using le sub by (auto simp: word_less_nat_alt)
    then show ?thesis
      using assms v True by (auto simp: recover_legacy_def chain_base(1) checked_sub_def)
  next
    case False
    then have "unat (tx_v t) \<notin> {2 * unat cid + 35, 2 * unat cid + 36}"
      using unat_less_pow [of "tx_v t"] by auto
    then show ?thesis
      using assms v False unfolding recover_legacy_def chain_base(1) by auto
  qed
qed

lemma recover_seal_legacy:
  fixes C :: crypto
  assumes K: "ecdsa_signs K" and sk: "k_sk_ok K sk"
  defines "signer \<equiv> secp_address C K (secp_public_key_of K (SecpSecretKey sk))"
  shows "secp_sign K (SecpSecretKey sk) (legacy_signing_hash_pre155 C R t) = Ok sg \<Longrightarrow>
      recover_legacy C K R (seal_legacy t 27 sg) cid = Ok signer"
    and "2 * unat cid + 36 < 2 ^ 64 \<Longrightarrow>
      secp_sign K (SecpSecretKey sk) (legacy_signing_hash_eip155 C R t cid) = Ok sg \<Longrightarrow>
      recover_legacy C K R (seal_legacy t (cid * 2 + 35) sg) cid = Ok signer"
    and "secp_sign K (SecpSecretKey sk) (eip1559_signing_hash C R u) = Ok sg \<Longrightarrow>
      recover_eip1559 C K R (seal_1559 u sg) = Ok signer"
proof -
  have bit: "v = 0 \<or> v = 1" if "v \<le> 1" for v :: u8
    using that by (simp add: word_le_nat_alt word_unat_eq_iff) arith
  {
    assume sg: "secp_sign K (SecpSecretKey sk) (legacy_signing_hash_pre155 C R t) = Ok sg"
    note rec = recover_sealed(1) [OF K sk sg, of C] recover_sealed(2) [OF K sk sg]
    show "recover_legacy C K R (seal_legacy t 27 sg) cid = Ok signer"
      using rec(1) bit [OF rec(2)]
      by (auto simp: recover_legacy_def legacy_signing_hash_pre155_def signer_def)
        (auto simp: seal_legacy_def Let_def)
  next
    assume small: "2 * unat cid + 36 < 2 ^ 64"
      and sg: "secp_sign K (SecpSecretKey sk) (legacy_signing_hash_eip155 C R t cid) = Ok sg"
    note rec = recover_sealed(1) [OF K sk sg, of C] recover_sealed(2) [OF K sk sg]
    let ?v = "ucast (secp_sig_to_bytes sg ! 64) :: u64"
    have v: "?v = 0 \<or> ?v = 1" using bit [OF rec(2)] by auto
    have base: "unat (cid * 2 + 35) = 2 * unat cid + 35" using small by (intro chain_base(2)) simp
    have plus: "unat (cid * 2 + 35 + ?v) = 2 * unat cid + 35 + unat ?v"
      using v small base by (auto simp: unat_word_ariths)
    have fields: "algo (seal_legacy t (cid * 2 + 35) sg) = Secp256k1"
        "tx_v (seal_legacy t (cid * 2 + 35) sg) = cid * 2 + 35 + ?v"
        "tx_r (seal_legacy t (cid * 2 + 35) sg) = from_be_bytes (take 32 (secp_sig_to_bytes sg))"
        "tx_s (seal_legacy t (cid * 2 + 35) sg) = from_be_bytes (take 32 (drop 32 (secp_sig_to_bytes sg)))"
      by (simp_all add: seal_legacy_def Let_def)
    have "35 \<le> cid * 2 + 35 + ?v" using plus by (simp add: word_le_nat_alt)
    moreover have "unat (cid * 2 + 35 + ?v) \<in> {2 * unat cid + 35, 2 * unat cid + 36}"
      using plus v by auto
    moreover have "ucast ?v = secp_sig_to_bytes sg ! 64" using bit [OF rec(2)] by auto
    ultimately show "recover_legacy C K R (seal_legacy t (cid * 2 + 35) sg) cid = Ok signer"
      using rec(1) recover_eip155 [OF fields(1), of C K R cid]
      by (simp add: fields legacy_signing_hash_eip155_def signer_def)
  next
    assume sg: "secp_sign K (SecpSecretKey sk) (eip1559_signing_hash C R u) = Ok sg"
    note rec = recover_sealed(1) [OF K sk sg, of C] recover_sealed(2) [OF K sk sg]
    show "recover_eip1559 C K R (seal_1559 u sg) = Ok signer"
      using rec
      by (auto simp: recover_eip1559_def eip1559_signing_hash_def signer_def not_less)
        (auto simp: seal_1559_def Let_def)
  }
qed

subsection \<open>What a signature covers\<close>

text \<open>
  The content a signature commits to: the transaction without its signature fields and, for a
  replay-protected legacy transaction, the chain it was recovered for.
\<close>

datatype sig_content = Pre155 tx_legacy | Eip155 tx_legacy u64 | Typed1559 tx_eip1559 | Unsigned

definition strip_legacy :: "tx_legacy \<Rightarrow> tx_legacy" where
  "strip_legacy t = t\<lparr>tx_v := 0, tx_r := 0, tx_s := 0, algo := Secp256k1\<rparr>"

definition strip_1559 :: "tx_eip1559 \<Rightarrow> tx_eip1559" where
  "strip_1559 t = t\<lparr>v_1559 := 0, r_1559 := 0, s_1559 := 0, algo_1559 := Secp256k1\<rparr>"

primrec signed_content :: "tx \<Rightarrow> u64 \<Rightarrow> sig_content" where
  "signed_content (Legacy t) cid =
     (if tx_v t = 27 \<or> tx_v t = 28 then Pre155 (strip_legacy t) else Eip155 (strip_legacy t) cid)"
| "signed_content (Eip1559 t) cid = Typed1559 (strip_1559 t)"
| "signed_content (Eip4844 t) cid = Unsigned"

primrec signed_bytes :: "rlp \<Rightarrow> sig_content \<Rightarrow> byte list" where
  "signed_bytes R (Pre155 t) = pre155_bytes R t"
| "signed_bytes R (Eip155 t cid) = eip155_bytes R t cid"
| "signed_bytes R (Typed1559 t) = eip1559_bytes R t"
| "signed_bytes R Unsigned = []"

lemma recover_signer_hash:
  assumes "recover_signer C K R t cid = Ok a"
  shows "\<exists>recid r s. recid \<le> 1 \<and>
     recover_from_rs C K recid r s (keccak256 C (signed_bytes R (signed_content t cid))) = Ok a"
proof (cases t)
  case (Legacy l)
  then have algo: "algo l = Secp256k1" using assms by (simp add: recover_legacy_def split: if_splits)
  have strip: "pre155_bytes R (strip_legacy l) = pre155_bytes R l"
      "eip155_bytes R (strip_legacy l) cid = eip155_bytes R l cid"
    by (simp_all add: strip_legacy_def pre155_bytes_def eip155_bytes_def)
  show ?thesis
  proof (cases "tx_v l = 27 \<or> tx_v l = 28")
    case True
    then have "recover_from_rs C K (ucast (tx_v l - 27)) (tx_r l) (tx_s l) (legacy_signing_hash_pre155 C R l) = Ok a"
      using assms Legacy algo by (simp add: recover_legacy_def)
    moreover have "(ucast (tx_v l - 27) :: u8) \<le> 1" using True by auto
    ultimately show ?thesis
      using Legacy True by (auto simp: legacy_signing_hash_pre155_def strip)
  next
    case False
    then have v: "35 \<le> tx_v l" using assms Legacy algo by (simp add: recover_legacy_def split: if_splits)
    then have rng: "unat (tx_v l) \<in> {2 * unat cid + 35, 2 * unat cid + 36}"
      and ok: "recover_from_rs C K (ucast (tx_v l - (cid * 2 + 35))) (tx_r l) (tx_s l)
        (legacy_signing_hash_eip155 C R l cid) = Ok a"
      using assms Legacy recover_eip155 [OF algo v] by (simp_all split: if_splits)
    have base: "unat (cid * 2 + 35) = 2 * unat cid + 35"
      using rng unat_less_pow [of "tx_v l"] by (intro chain_base(2)) auto
    have "cid * 2 + 35 \<le> tx_v l" using rng by (auto simp: word_le_nat_alt base)
    then have "unat (tx_v l - (cid * 2 + 35)) \<le> 1" using rng by (auto simp: unat_sub base)
    then have "tx_v l - (cid * 2 + 35) = 0 \<or> tx_v l - (cid * 2 + 35) = 1"
      by (simp only: word_unat_eq_iff unsigned_0 unsigned_1) arith
    moreover have "x = 0 \<or> x = 1 \<Longrightarrow> (ucast x :: u8) \<le> 1" for x :: u64 by auto
    ultimately have "(ucast (tx_v l - (cid * 2 + 35)) :: u8) \<le> 1" by blast
    then show ?thesis using ok Legacy False by (auto simp: legacy_signing_hash_eip155_def strip)
  qed
next
  case (Eip1559 u)
  then have "v_1559 u \<le> 1"
      "recover_from_rs C K (v_1559 u) (r_1559 u) (s_1559 u) (eip1559_signing_hash C R u) = Ok a"
    using assms by (auto simp: recover_eip1559_def split: if_splits)
  moreover have "eip1559_bytes R (strip_1559 u) = eip1559_bytes R u"
    by (simp add: strip_1559_def eip1559_bytes_def Let_def)
  ultimately show ?thesis using Eip1559 by (auto simp: eip1559_signing_hash_def)
qed (use assms in simp)

lemma reads_cancel:
  "reads dec enc x \<Longrightarrow> reads dec enc y \<Longrightarrow> enc x @ r = enc y @ r' \<Longrightarrow> x = y \<and> r = r'"
  by (metis Pair_inject reads_def result.inject(1))

definition core_bytes :: "rlp \<Rightarrow> tx_legacy \<Rightarrow> byte list" where
  "core_bytes R t =
     enc_u64 R (nonce t) @ encode_u256 R (gas_price t) @ enc_u64 R (gas_limit t) @
     encode_to R (to_addr t) @ encode_u256 R (tx_value t) @ enc_str R (tx_data t)"

lemma header_cancel:
  assumes R: "rlp_encodes R" and "enc_list_header R m @ r = enc_list_header R n @ r'"
    and "m < 2 ^ 64" and "n < 2 ^ 64" and "m \<le> length r" and "n \<le> length r'"
  shows "m = n \<and> r = r'"
proof -
  have law: "k < 2 ^ 64 \<Longrightarrow> k \<le> length rest \<Longrightarrow>
      dec_header R (enc_list_header R k @ rest) = Ok ((True, k), rest)" for k rest
    using R by (simp add: rlp_encodes_def rlp_round_trips_def)
  from law [OF assms(3,5)] law [OF assms(4,6)] show ?thesis unfolding assms(2) by simp
qed

lemma core_cancel:
  assumes R: "rlp_encodes R" and "length (tx_data t) < 2 ^ 64" and "length (tx_data t') < 2 ^ 64"
    and eq: "core_bytes R t @ r = core_bytes R t' @ r'"
  shows "strip_legacy t = strip_legacy t' \<and> r = r'"
proof -
  note f = rlp_field_reads [OF R]
  have a: "nonce t = nonce t'" and 1: "encode_u256 R (gas_price t) @ enc_u64 R (gas_limit t) @
      encode_to R (to_addr t) @ encode_u256 R (tx_value t) @ enc_str R (tx_data t) @ r =
      encode_u256 R (gas_price t') @ enc_u64 R (gas_limit t') @
      encode_to R (to_addr t') @ encode_u256 R (tx_value t') @ enc_str R (tx_data t') @ r'"
    using reads_cancel [OF f(2) f(2) eq [unfolded core_bytes_def append_assoc]] by blast+
  have b: "gas_price t = gas_price t'" and 2: "enc_u64 R (gas_limit t) @
      encode_to R (to_addr t) @ encode_u256 R (tx_value t) @ enc_str R (tx_data t) @ r =
      enc_u64 R (gas_limit t') @ encode_to R (to_addr t') @ encode_u256 R (tx_value t') @
      enc_str R (tx_data t') @ r'"
    using reads_cancel [OF f(7) f(7) 1] by blast+
  have c: "gas_limit t = gas_limit t'" and 3: "encode_to R (to_addr t) @
      encode_u256 R (tx_value t) @ enc_str R (tx_data t) @ r =
      encode_to R (to_addr t') @ encode_u256 R (tx_value t') @ enc_str R (tx_data t') @ r'"
    using reads_cancel [OF f(2) f(2) 2] by blast+
  have d: "to_addr t = to_addr t'" and 4: "encode_u256 R (tx_value t) @ enc_str R (tx_data t) @ r =
      encode_u256 R (tx_value t') @ enc_str R (tx_data t') @ r'"
    using reads_cancel [OF f(8) f(8) 3] by blast+
  have e: "tx_value t = tx_value t'" and 5: "enc_str R (tx_data t) @ r = enc_str R (tx_data t') @ r'"
    using reads_cancel [OF f(7) f(7) 4] by blast+
  have g: "tx_data t = tx_data t' \<and> r = r'"
    using reads_cancel [OF f(1) f(1) 5] assms(2,3) by blast
  from a b c d e g show ?thesis by (simp add: strip_legacy_def)
qed

text \<open>Sizes: the bytes that are hashed fit in 64-bit lengths, as any transaction of the wire does.\<close>

lemma data_fits:
  assumes "rlp_encodes R" and "length (core_bytes R t) < 2 ^ 64"
  shows "length (tx_data t) < 2 ^ 64"
  using assms str_bound [OF assms(1), of "tx_data t"] by (simp add: core_bytes_def)

lemma pre155_shape:
  assumes "rlp_encodes R"
  shows "pre155_bytes R t = enc_list_header R (length (core_bytes R t)) @ core_bytes R t"
  by (simp add: pre155_bytes_def core_bytes_def tx_length_simps [OF assms] add.assoc)

definition chain_tail :: "rlp \<Rightarrow> u64 \<Rightarrow> byte list" where
  "chain_tail R cid = enc_u64 R cid @ encode_u256 R 0 @ encode_u256 R 0"

lemma eip155_shape:
  assumes "rlp_encodes R"
  shows "eip155_bytes R t cid =
     enc_list_header R (length (core_bytes R t) + length (chain_tail R cid)) @ core_bytes R t @ chain_tail R cid"
  by (simp add: eip155_bytes_def core_bytes_def chain_tail_def tx_length_simps [OF assms] add.assoc)

lemma chain_tail_inject:
  assumes R: "rlp_encodes R"
  shows "chain_tail R cid \<noteq> []" and "chain_tail R cid = chain_tail R cid' \<longleftrightarrow> cid = cid'"
proof -
  have "length (enc_u64 R cid) \<ge> 1" using R by (simp add: rlp_encodes_def rlp_shapes_def)
  then show "chain_tail R cid \<noteq> []" by (auto simp: chain_tail_def)
  show "chain_tail R cid = chain_tail R cid' \<longleftrightarrow> cid = cid'"
    using reads_cancel [OF rlp_field_reads(2) [OF R] rlp_field_reads(2) [OF R]]
    unfolding chain_tail_def by blast
qed

text \<open>A typed body is read back by the decoder of signed transactions, once a signature is appended.\<close>

definition core_1559 :: "rlp \<Rightarrow> tx_eip1559 \<Rightarrow> byte list" where
  "core_1559 R t =
     enc_u64 R (chain_id t) @ enc_u64 R (nonce_1559 t) @
     encode_u256 R (max_priority_fee_per_gas t) @ encode_u256 R (max_fee_per_gas t) @
     enc_u64 R (gas_limit_1559 t) @ encode_to R (to_1559 t) @ encode_u256 R (value_1559 t) @
     enc_str R (data_1559 t) @
     enc_list_header R (access_list_length R (access_list t)) @ concat (map (enc_access R) (access_list t))"

definition null_signature :: "rlp \<Rightarrow> byte list" where
  "null_signature R = enc_u8 R 0 @ enc_h256 R 0 @ enc_h256 R 0"

lemma eip1559_shape:
  assumes "rlp_encodes R"
  shows "eip1559_bytes R t = 0x02 # enc_list_header R (length (core_1559 R t)) @ core_1559 R t"
  by (simp add: eip1559_bytes_def core_1559_def Let_def tx_length_simps [OF assms] add.assoc)

lemma stripped_encoding:
  assumes "rlp_encodes R"
  shows "TxEip1559_payload_length R (strip_1559 t) = length (core_1559 R t) + length (null_signature R)"
    and "TxEip1559_encode R (strip_1559 t) =
      enc_list_header R (length (core_1559 R t) + length (null_signature R)) @ core_1559 R t @ null_signature R"
  by (simp_all add: TxEip1559_encode_def TxEip1559_payload_length_def core_1559_def null_signature_def
      strip_1559_def Let_def tx_length_simps [OF assms] encode_algo_def add.assoc)

lemma null_signature_small: "rlp_encodes R \<Longrightarrow> length (null_signature R) \<le> 84"
proof -
  assume R: "rlp_encodes R"
  then have shapes: "length (enc_u8 R w) \<in> {1..2}" "length (enc_str R bs) \<le> length bs + 9" for w bs
    by (simp_all add: rlp_encodes_def rlp_shapes_def)
  have "length (enc_u8 R 0) \<le> 2" "length (enc_h256 R 0) \<le> 41"
    using shapes(1) [of 0] shapes(2) [of "h256_bytes 0"] by (simp_all add: enc_h256_def)
  then show ?thesis by (simp add: null_signature_def)
qed

lemma eip1559_bytes_inject:
  assumes R: "rlp_encodes R" and small: "length (eip1559_bytes R t) < 2 ^ 63"
    and eq: "eip1559_bytes R t = eip1559_bytes R t'"
  shows "strip_1559 t = strip_1559 t'"
proof -
  have sizes: "length (core_1559 R t) < 2 ^ 63" "length (core_1559 R t') < 2 ^ 63"
    using small small [unfolded eq] by (simp_all add: eip1559_shape [OF R])
  have "enc_list_header R (length (core_1559 R t)) @ core_1559 R t =
      enc_list_header R (length (core_1559 R t')) @ core_1559 R t'"
    using eq [unfolded eip1559_shape [OF R]] by (rule list.inject [THEN iffD1, THEN conjunct2])
  from header_cancel [OF R this] have core: "core_1559 R t = core_1559 R t'" using sizes by simp
  then have "TxEip1559_encode R (strip_1559 t) = TxEip1559_encode R (strip_1559 t')"
    by (simp add: stripped_encoding [OF R])
  moreover have "TxEip1559_payload_length R (strip_1559 u) < 2 ^ 64" if "length (core_1559 R u) < 2 ^ 63" for u
    using that null_signature_small [OF R] by (simp add: stripped_encoding [OF R])
  ultimately show ?thesis
    using reads_cancel [OF TxEip1559_reads TxEip1559_reads, OF R _ R, of _ _ "[]" "[]"] sizes by auto
qed

lemma pre155_first: "rlp_encodes R \<Longrightarrow> \<exists>b bs. enc_list_header R n = b # bs \<and> 0xc0 \<le> b"
  unfolding rlp_encodes_def rlp_shapes_def by blast

lemma legacy_bytes_inject:
  assumes R: "rlp_encodes R" and small: "length (core_bytes R t @ x) < 2 ^ 64" "length (core_bytes R t' @ y) < 2 ^ 64"
    and eq: "enc_list_header R (length (core_bytes R t @ x)) @ core_bytes R t @ x =
      enc_list_header R (length (core_bytes R t' @ y)) @ core_bytes R t' @ y"
  shows "strip_legacy t = strip_legacy t' \<and> x = y"
proof -
  have "core_bytes R t @ x = core_bytes R t' @ y"
    using header_cancel [OF R eq small] by simp
  moreover have "length (tx_data t) < 2 ^ 64" "length (tx_data t') < 2 ^ 64"
    using data_fits [OF R, of t] data_fits [OF R, of t'] small by simp_all
  ultimately show ?thesis using core_cancel [OF R] by blast
qed

definition legacy_tail :: "rlp \<Rightarrow> tx_legacy \<Rightarrow> u64 \<Rightarrow> byte list" where
  "legacy_tail R t cid = (if tx_v t = 27 \<or> tx_v t = 28 then [] else chain_tail R cid)"

lemma legacy_view:
  assumes "rlp_encodes R"
  shows "signed_bytes R (signed_content (Legacy t) cid) =
     enc_list_header R (length (core_bytes R t @ legacy_tail R t cid)) @ core_bytes R t @ legacy_tail R t cid"
proof -
  have "core_bytes R (strip_legacy t) = core_bytes R t" by (simp add: core_bytes_def strip_legacy_def)
  then show ?thesis
    by (simp add: legacy_tail_def pre155_shape [OF assms] eip155_shape [OF assms])
qed

lemma legacy_content_eq:
  assumes "rlp_encodes R" and "strip_legacy t = strip_legacy u" and "legacy_tail R t cid = legacy_tail R u cid'"
  shows "signed_content (Legacy t) cid = signed_content (Legacy u) cid'"
  using assms(2,3) chain_tail_inject [OF assms(1)] chain_tail_inject(1) [OF assms(1), symmetric]
  by (auto simp: legacy_tail_def split: if_splits)

lemma legacy_signed_bound:
  assumes R: "rlp_encodes R"
  shows "length (signed_bytes R (signed_content (Legacy t) cid)) \<le> 300 + length (tx_data t)"
proof -
  have to: "length (encode_to R (to_addr t)) \<le> 29"
    using field_upper(2) [OF R] str_upper [OF R, of "[]"]
    by (cases "to_addr t") (simp_all add: encode_to_def)
  have "length (core_bytes R t) \<le> 150 + length (tx_data t)"
    using u64_upper [OF R, of "nonce t"] field_upper(3) [OF R, of "gas_price t"] u64_upper [OF R, of "gas_limit t"]
      to field_upper(3) [OF R, of "tx_value t"] str_upper [OF R, of "tx_data t"]
    by (simp add: core_bytes_def)
  moreover have "length (legacy_tail R t cid) \<le> 91"
    using u64_upper [OF R, of cid] field_upper(3) [OF R, of 0] by (simp add: legacy_tail_def chain_tail_def)
  moreover have "length (enc_list_header R n) \<le> 9" for n
    using list_header_upper [OF R, of n] by (simp add: rlp_length_simps(1) [OF R])
  note this [of "length (core_bytes R t @ legacy_tail R t cid)"]
  ultimately show ?thesis unfolding legacy_view [OF R] by simp
qed

definition bytes_kind :: "byte list \<Rightarrow> nat" where
  "bytes_kind bs = (case bs of [] \<Rightarrow> 2 | b # _ \<Rightarrow> if b = 0x02 then 1 else 0)"

lemma bytes_kind_signed:
  assumes "rlp_encodes R"
  shows "bytes_kind (signed_bytes R (signed_content t cid)) =
     (case t of Legacy _ \<Rightarrow> 0 | Eip1559 _ \<Rightarrow> 1 | Eip4844 _ \<Rightarrow> 2)"
proof (cases t)
  case (Legacy l)
  obtain b bs where b: "enc_list_header R (length (core_bytes R l @ legacy_tail R l cid)) = b # bs" "0xc0 \<le> b"
    using pre155_first [OF assms] by blast
  then have "b \<noteq> 0x02" by auto
  then show ?thesis unfolding Legacy legacy_view [OF assms] b(1) by (simp add: bytes_kind_def)
qed (simp_all add: bytes_kind_def eip1559_shape [OF assms])

lemma signed_bytes_inject:
  assumes R: "rlp_encodes R" and small: "length (signed_bytes R (signed_content t cid)) < 2 ^ 63"
    and eq: "signed_bytes R (signed_content t cid) = signed_bytes R (signed_content u cid')"
  shows "signed_content t cid = signed_content u cid'"
proof -
  have small': "length (signed_bytes R (signed_content u cid')) < 2 ^ 63" using small eq by simp
  consider (legacy) l m where "t = Legacy l" "u = Legacy m"
    | (typed) v w where "t = Eip1559 v" "u = Eip1559 w" | (blob) x y where "t = Eip4844 x" "u = Eip4844 y"
    using arg_cong [OF eq, of bytes_kind] unfolding bytes_kind_signed [OF R]
    by (cases t; cases u) simp_all
  then show ?thesis
  proof cases
    case legacy
    note sizes = small [unfolded legacy legacy_view [OF R]] small' [unfolded legacy legacy_view [OF R]]
    have "strip_legacy l = strip_legacy m \<and> legacy_tail R l cid = legacy_tail R m cid'"
      by (rule legacy_bytes_inject [OF R _ _ eq [unfolded legacy legacy_view [OF R]]]) (use sizes in simp_all)
    then show ?thesis unfolding legacy using legacy_content_eq [OF R] by blast
  next
    case typed
    then have "strip_1559 (strip_1559 v) = strip_1559 (strip_1559 w)"
      using eq small by (intro eip1559_bytes_inject [OF R]) simp_all
    then show ?thesis using typed by (simp add: strip_1559_def)
  qed simp
qed

subsection \<open>A concrete key\<close>

definition demo_secp :: secp where
  "demo_secp =
     \<lparr>k_sk_ok = (\<lambda>sk. sk \<noteq> 0), k_public = ucast, k_from_compressed = (\<lambda>_. None),
      k_from_uncompressed = (\<lambda>_. None), k_compressed = ucast, k_uncompressed = ucast,
      k_sig_ok = (\<lambda>_. True), k_recid_ok = (\<lambda>v. v \<le> 3), k_sign = (\<lambda>sk h. Some (ucast sk, 1)),
      k_verify = (\<lambda>p h s. p = s), k_recover = (\<lambda>h s v. Some s)\<rparr>"

lemma demo_ecdsa: "ecdsa_signs demo_secp"
  by (auto simp: ecdsa_signs_def demo_secp_def intro: order_trans)

definition demo_legacy :: "byte list \<Rightarrow> u64 \<Rightarrow> tx_legacy" where
  "demo_legacy d v =
     \<lparr>nonce = 0, gas_price = 1, gas_limit = 21000, to_addr = Some 5, tx_value = 7, tx_data = d,
      tx_v = v, tx_r = 0, tx_s = 9, algo = Secp256k1\<rparr>"

definition demo_1559 :: tx_eip1559 where
  "demo_1559 =
     \<lparr>chain_id = 9999, nonce_1559 = 0, max_priority_fee_per_gas = 1, max_fee_per_gas = 20,
      gas_limit_1559 = 21000, to_1559 = Some 5, value_1559 = 1, data_1559 = [], access_list = [],
      v_1559 = 0, r_1559 = 0, s_1559 = 0, algo_1559 = Secp256k1\<rparr>"

lemma demo_recovery:
  assumes "v \<le> 3"
  shows "recover_from_rs C demo_secp v 0 9 h = Ok (secp_address C demo_secp (SecpPublicKey 9))"
proof -
  have rs: "h256_bytes 0 @ h256_bytes 9 = to_be_bytes 64 (9 :: 512 word)" by code_simp
  have sig: "secp_sig_from_bytes demo_secp (to_be_bytes 64 (9 :: 512 word) @ [v]) = Ok \<lparr>sig_inner = 9, recovery_id = v\<rparr>"
    using assms by (simp add: secp_sig_from_bytes_def demo_secp_def nth_append)
  have "secp_recover demo_secp \<lparr>sig_inner = 9, recovery_id = v\<rparr> h = Ok (SecpPublicKey 9)"
    by (simp add: secp_recover_def demo_secp_def)
  then show ?thesis unfolding recover_from_rs_def Let_def append_assoc [symmetric] rs sig by simp
qed

lemma demo_signers:
  "recover_signer demo_crypto demo_secp rlp_format (Legacy (demo_legacy d 37)) 1 =
     Ok (secp_address demo_crypto demo_secp (SecpPublicKey 9))"
  "recover_signer demo_crypto demo_secp rlp_format (Legacy (demo_legacy d 38)) 1 =
     Ok (secp_address demo_crypto demo_secp (SecpPublicKey 9))"
  by (simp_all add: recover_eip155 demo_recovery demo_legacy_def)

subsection \<open>Properties\<close>

text \<open>
  (C37) Signing round trip. A legacy transaction signed over its pre-EIP-155 hash or over its EIP-155
  hash for a chain, and an EIP-1559 transaction signed over its own hash, recover to the address of
  the signer, whichever recovery bit the signature has.
\<close>

theorem signed_transaction_recovers:
  assumes "ecdsa_signs K" and "k_sk_ok K sk" and "2 * unat cid + 36 < 2 ^ 64"
    and "secp_sign K (SecpSecretKey sk) (legacy_signing_hash_pre155 C R t) = Ok sg1"
    and "secp_sign K (SecpSecretKey sk) (legacy_signing_hash_eip155 C R t cid) = Ok sg2"
    and "secp_sign K (SecpSecretKey sk) (eip1559_signing_hash C R u) = Ok sg3"
    and "signer = secp_address C K (secp_public_key_of K (SecpSecretKey sk))"
  shows "recover_signer C K R (Legacy (seal_legacy t 27 sg1)) other = Ok signer \<and>
    recover_signer C K R (Legacy (seal_legacy t (cid * 2 + 35) sg2)) cid = Ok signer \<and>
    recover_signer C K R (Eip1559 (seal_1559 u sg3)) other = Ok signer"
  using recover_seal_legacy [OF assms(1,2)] assms(3-7) by simp

theorem signed_transaction_recovers_witness:
  "recover_signer demo_crypto demo_secp rlp_format
     (Legacy (seal_legacy (demo_legacy [] 0) (9999 * 2 + 35) \<lparr>sig_inner = 3, recovery_id = 1\<rparr>)) 9999 =
   Ok (secp_address demo_crypto demo_secp (SecpPublicKey 3))"
  using signed_transaction_recovers [OF demo_ecdsa, of 3 9999 demo_crypto rlp_format "demo_legacy [] 0"
      "\<lparr>sig_inner = 3, recovery_id = 1\<rparr>" "\<lparr>sig_inner = 3, recovery_id = 1\<rparr>" demo_1559
      "\<lparr>sig_inner = 3, recovery_id = 1\<rparr>"]
  by (simp add: demo_secp_def)

text \<open>
  Replay protection. A legacy transaction whose \<open>v\<close> is not 27 or 28 recovers to a signer for at
  most one chain id: for every other chain the node refuses it with \<open>InvalidV\<close>.
\<close>

theorem eip155_valid_on_one_chain:
  assumes "recover_signer C K R (Legacy t) cid = Ok a" and "tx_v t \<noteq> 27" and "tx_v t \<noteq> 28"
    and "cid' \<noteq> cid"
  shows "recover_signer C K R (Legacy t) cid' = Err (InvalidV (tx_v t))"
proof -
  have ok: "algo t = Secp256k1" "35 \<le> tx_v t"
    using assms(1-3) by (auto simp: recover_legacy_def split: if_splits)
  have "unat (tx_v t) \<in> {2 * unat cid + 35, 2 * unat cid + 36}"
    using assms(1) recover_eip155 [OF ok] by (simp split: if_splits)
  moreover have "unat cid' \<noteq> unat cid" using assms(4) by (simp add: word_unat_eq_iff)
  ultimately have "unat (tx_v t) \<notin> {2 * unat cid' + 35, 2 * unat cid' + 36}" by auto
  then show ?thesis using recover_eip155 [OF ok] by simp
qed

theorem eip155_valid_on_one_chain_witness:
  "recover_signer demo_crypto demo_secp rlp_format (Legacy (demo_legacy [1] 37)) 1 =
     Ok (secp_address demo_crypto demo_secp (SecpPublicKey 9)) \<and>
   recover_signer demo_crypto demo_secp rlp_format (Legacy (demo_legacy [1] 37)) 2 = Err (InvalidV 37)"
  using eip155_valid_on_one_chain [OF demo_signers(1) [of "[1]"], of 2] demo_signers(1) [of "[1]"]
  by (simp add: demo_legacy_def)

text \<open>
  What a signature covers. If two transactions recover to a signer over the same signing hash, and
  the hash does not collide on the two byte strings, then they are of the same kind and agree in every
  field but the signature, and replay-protected ones were read for the same chain: a signature cannot
  be moved to another transaction, to another kind of transaction or to another chain.
\<close>

theorem signature_covers_transaction:
  assumes "rlp_encodes R" and "recover_signer C K R t cid = Ok a" and "recover_signer C K R u cid' = Ok b"
    and "length (signed_bytes R (signed_content t cid)) < 2 ^ 63"
    and "keccak256 C (signed_bytes R (signed_content t cid)) = keccak256 C (signed_bytes R (signed_content u cid'))"
    and "inj_on (keccak256 C) {signed_bytes R (signed_content t cid), signed_bytes R (signed_content u cid')}"
  shows "signed_content t cid = signed_content u cid' \<and>
    (\<exists>recid r s. recover_from_rs C K recid r s (keccak256 C (signed_bytes R (signed_content t cid))) = Ok a) \<and>
    (\<exists>recid r s. recover_from_rs C K recid r s (keccak256 C (signed_bytes R (signed_content t cid))) = Ok b)"
proof -
  have "signed_bytes R (signed_content t cid) = signed_bytes R (signed_content u cid')"
    using assms(5,6) by (auto dest: inj_onD)
  from signed_bytes_inject [OF assms(1,4) this] show ?thesis
    using recover_signer_hash [OF assms(2)] recover_signer_hash [OF assms(3)] by metis
qed

theorem signature_covers_transaction_witness:
  "signed_content (Legacy (demo_legacy [1] 37)) 1 = signed_content (Legacy (demo_legacy [1] 38)) 1"
proof -
  have "signed_bytes rlp_format (signed_content (Legacy (demo_legacy [1] 37)) 1) =
      signed_bytes rlp_format (signed_content (Legacy (demo_legacy [1] 38)) 1)"
    by (simp add: demo_legacy_def strip_legacy_def)
  moreover have "length (signed_bytes rlp_format (signed_content (Legacy (demo_legacy [1] 37)) 1)) < 2 ^ 63"
    using legacy_signed_bound [OF rlp_format_encodes, of "demo_legacy [1] 37" 1] by (simp add: demo_legacy_def)
  ultimately show ?thesis
    using signature_covers_transaction [OF rlp_format_encodes demo_signers(1) [of "[1]"] demo_signers(2) [of "[1]"]]
    by simp
qed

end
