(* ===== verification/PoaEngine.thy ===== *)
theory PoaEngine
  imports Consensus Secp TrieRoot
begin

section \<open>The proof-of-authority engine\<close>

text \<open>
  \<open>aii-consensus-poa/src/lib.rs\<close>: a fixed list of authorities takes turns by height. The engine meets
  the contract \<open>chain_engine\<close>; it produces a block in a step exactly when it is its turn, and the seal
  it puts on a block is the one peers accept for that height.
\<close>

definition POA_PLACEHOLDER_TX_GAS :: u64 where
  "POA_PLACEHOLDER_TX_GAS = 21000"

datatype poa_error = EmptyAuthorities | PoaOverflow | SealSignFailed

record poa_config =
  authorities :: "address list"
  poa_coinbase :: address
  poa_slot_seconds :: u64
  poa_gas_limit :: u64
  poa_base_fee_per_gas :: u256
  signer_sk :: "secp_secret_key option"

definition verify_poa_seal ::
    "crypto \<Rightarrow> secp \<Rightarrow> h256 \<Rightarrow> secp_signature \<Rightarrow> address list \<Rightarrow> u64 \<Rightarrow> (crypto_error, bool) result" where
  "verify_poa_seal C K bh sig auths height =
     (if auths = [] then Ok False
      else and_then (secp_recover K sig bh) (\<lambda>recovered.
        let expected = auths ! (unat height mod length auths)
        in Ok (secp_address C K recovered = expected)))"

record poa_engine =
  poa_config :: poa_config
  poa_head_hash :: h256
  poa_head_number :: u64
  poa_head_timestamp :: u64
  poa_pending_txs :: "tx list"

definition PoaEngine_new :: "crypto \<Rightarrow> rlp \<Rightarrow> poa_config \<Rightarrow> block \<Rightarrow> (poa_error, poa_engine) result" where
  "PoaEngine_new C R cfg genesis =
     (if authorities cfg = [] then Err EmptyAuthorities
      else Ok \<lparr>poa_config = cfg, poa_head_hash = Block_hash C R genesis,
               poa_head_number = number (block_header genesis),
               poa_head_timestamp = timestamp (block_header genesis), poa_pending_txs = []\<rparr>)"

definition poa_set_pending_txs :: "poa_engine \<Rightarrow> tx list \<Rightarrow> poa_engine" where
  "poa_set_pending_txs e txs = e\<lparr>poa_pending_txs := txs\<rparr>"

text \<open>A list of at least \<open>2 ^ 64\<close> authorities cannot be held in memory; the source then falls back to 1.\<close>

definition next_authority_index :: "poa_engine \<Rightarrow> nat" where
  "next_authority_index e =
     (let nxt = poa_head_number e + 1;
          n = length (authorities (poa_config e));
          len = (if n < 2 ^ 64 then word_of_nat n else 1) :: u64
      in unat (nxt mod len))"

definition is_my_turn :: "poa_engine \<Rightarrow> bool" where
  "is_my_turn e \<longleftrightarrow>
     authorities (poa_config e) ! next_authority_index e = poa_coinbase (poa_config e)"

definition poa_produce_block ::
    "crypto \<Rightarrow> rlp \<Rightarrow> poa_engine \<Rightarrow> (poa_error, h256 \<times> u64 \<times> block) result \<times> poa_engine" where
  "poa_produce_block C R e =
     (case checked_add (poa_head_number e) 1 of
        None \<Rightarrow> (Err PoaOverflow, e)
      | Some new_number \<Rightarrow>
          let cfg = poa_config e;
              new_timestamp = poa_head_timestamp e + poa_slot_seconds cfg;
              max_txs = unat (poa_gas_limit cfg div POA_PLACEHOLDER_TX_GAS);
              n = min (length (poa_pending_txs e)) max_txs;
              txs = take n (poa_pending_txs e);
              e1 = e\<lparr>poa_pending_txs := drop n (poa_pending_txs e)\<rparr>;
              used = word_of_nat (length txs) * POA_PLACEHOLDER_TX_GAS;
              bdy = \<lparr>transactions = txs, ommers = [], withdrawals = []\<rparr>;
              hdr = \<lparr>parent_hash = poa_head_hash e1, ommers_hash = EMPTY_LIST_HASH,
                     beneficiary = poa_coinbase cfg, state_root = EMPTY_TRIE_HASH,
                     transactions_root = transactions_root_of C R bdy, receipts_root = EMPTY_TRIE_HASH,
                     logs_bloom = Bloom_ZERO, difficulty = 0, number = new_number,
                     header_gas_limit = poa_gas_limit cfg, gas_used = used,
                     timestamp = new_timestamp, extra_data = ascii ''aii-poa'', mix_hash = 0,
                     header_nonce = 0, base_fee_per_gas = poa_base_fee_per_gas cfg,
                     withdrawals_root = EMPTY_TRIE_HASH, blob_gas_used = None,
                     excess_blob_gas = None, parent_beacon_block_root = None\<rparr>;
              blk = \<lparr>block_header = hdr, body = bdy\<rparr>;
              hash = Block_hash C R blk
          in (Ok (hash, new_number, blk),
              e1\<lparr>poa_head_hash := hash, poa_head_number := new_number,
                 poa_head_timestamp := new_timestamp\<rparr>))"

definition produce_block_signed ::
    "crypto \<Rightarrow> secp \<Rightarrow> rlp \<Rightarrow> poa_engine \<Rightarrow>
     (poa_error, h256 \<times> u64 \<times> block \<times> secp_signature option) result \<times> poa_engine" where
  "produce_block_signed C K R e =
     (case poa_produce_block C R e of
        (r, e') \<Rightarrow>
          (and_then r (\<lambda>(hash, num, blk).
             case signer_sk (poa_config e') of
               None \<Rightarrow> Ok (hash, num, blk, None)
             | Some sk \<Rightarrow> and_then (map_err (\<lambda>_. SealSignFailed) (secp_sign K sk hash))
                           (\<lambda>sig. Ok (hash, num, blk, Some sig))), e'))"

definition poa_init :: "crypto \<Rightarrow> rlp \<Rightarrow> poa_engine \<Rightarrow> block \<Rightarrow> (consensus_error, h256) result \<times> poa_engine" where
  "poa_init C R e genesis =
     (let e' = e\<lparr>poa_head_hash := Block_hash C R genesis,
                poa_head_number := number (block_header genesis),
                poa_head_timestamp := timestamp (block_header genesis)\<rparr>
      in (Ok (poa_head_hash e'), e'))"

definition poa_step ::
    "crypto \<Rightarrow> rlp \<Rightarrow> poa_engine \<Rightarrow> (consensus_error, engine_progress) result \<times> poa_engine" where
  "poa_step C R e =
     (if \<not> is_my_turn e then (Ok Idle, e)
      else case poa_produce_block C R e of
        (r, e') \<Rightarrow> (and_then (map_err (\<lambda>_. InvalidBlock ''PoA produce failed'') r) (\<lambda>(h, _, _). Ok (NewBlock h)), e'))"

definition PoaEngine_ops :: "crypto \<Rightarrow> rlp \<Rightarrow> poa_engine engine_ops" where
  "PoaEngine_ops C R =
     \<lparr>eng_init = poa_init C R, eng_step = (\<lambda>_. poa_step C R), eng_head = poa_head_hash,
      eng_coinbase = (\<lambda>e. Some (poa_coinbase (poa_config e)))\<rparr>"

subsection \<open>Turns\<close>

definition poa_wf :: "poa_engine \<Rightarrow> bool" where
  "poa_wf e \<longleftrightarrow> authorities (poa_config e) \<noteq> [] \<and> length (authorities (poa_config e)) < 2 ^ 64"

text \<open>The index is in range, so that the indexing in \<open>is_my_turn\<close> cannot panic.\<close>

lemma next_authority_index:
  assumes "poa_wf e"
  shows "next_authority_index e = unat (poa_head_number e + 1) mod length (authorities (poa_config e))"
    and "next_authority_index e < length (authorities (poa_config e))"
proof -
  let ?n = "length (authorities (poa_config e))"
  have "unat (word_of_nat ?n :: u64) = ?n"
    using assms by (intro unat_word_of_nat_small) (simp add: poa_wf_def)
  then show "next_authority_index e = unat (poa_head_number e + 1) mod ?n"
    using assms by (simp add: next_authority_index_def poa_wf_def unat_mod)
  then show "next_authority_index e < ?n" using assms by (simp add: poa_wf_def)
qed

lemma poa_produce_frame:
  assumes "poa_produce_block C R e = (r, e')"
  shows "poa_config e' = poa_config e"
    and "r = Err PoaOverflow \<and> e' = e \<and> poa_head_number e = - 1 \<or>
      (\<exists>b. r = Ok (Block_hash C R b, poa_head_number e + 1, b) \<and>
         parent_hash (block_header b) = poa_head_hash e \<and> number (block_header b) = poa_head_number e + 1 \<and>
         poa_head_hash e' = Block_hash C R b \<and> poa_head_number e' = poa_head_number e + 1 \<and>
         poa_pending_txs e = transactions (body b) @ poa_pending_txs e' \<and>
         length (transactions (body b)) \<le> unat (poa_gas_limit (poa_config e) div POA_PLACEHOLDER_TX_GAS))"
proof -
  show "poa_config e' = poa_config e"
    using assms by (auto simp: poa_produce_block_def Let_def split: option.splits)
  have max: "checked_add a 1 = None \<Longrightarrow> a = - 1" for a :: u64
    using unat_less_pow [of a]
    by (simp add: checked_add_None word_unat_eq_iff unsigned_minus_1_eq_mask mask_eq_exp_minus_1)
  show "r = Err PoaOverflow \<and> e' = e \<and> poa_head_number e = - 1 \<or>
      (\<exists>b. r = Ok (Block_hash C R b, poa_head_number e + 1, b) \<and>
         parent_hash (block_header b) = poa_head_hash e \<and> number (block_header b) = poa_head_number e + 1 \<and>
         poa_head_hash e' = Block_hash C R b \<and> poa_head_number e' = poa_head_number e + 1 \<and>
         poa_pending_txs e = transactions (body b) @ poa_pending_txs e' \<and>
         length (transactions (body b)) \<le> unat (poa_gas_limit (poa_config e) div POA_PLACEHOLDER_TX_GAS))"
  proof (cases "checked_add (poa_head_number e) 1")
    case None
    then show ?thesis using assms max by (simp add: poa_produce_block_def)
  next
    case (Some m)
    then show ?thesis
      using assms checked_inc [OF Some] by (auto simp: poa_produce_block_def Let_def)
  qed
qed

interpretation poa: chain_engine "PoaEngine_ops C R" "Block_hash C R" "\<lambda>_. True" "\<lambda>_. True" poa_head_number
proof
  show "step_contract (PoaEngine_ops C R) (Block_hash C R) poa_head_number s (eng_step (PoaEngine_ops C R) n s)"
    for s n
  proof (cases "is_my_turn s")
    case True
    obtain r s' where p: "poa_produce_block C R s = (r, s')" by fastforce
    show ?thesis
      using True p poa_produce_frame(2) [OF p]
      by (auto simp: step_contract_def PoaEngine_ops_def poa_step_def)
  qed (simp add: step_contract_def PoaEngine_ops_def poa_step_def)
qed (auto simp: PoaEngine_ops_def poa_init_def Let_def)

text \<open>One authority with the key 3, at height 0.\<close>

definition demo_authority :: address where
  "demo_authority = secp_address demo_crypto demo_secp (SecpPublicKey 3)"

definition demo_poa :: poa_engine where
  "demo_poa =
     \<lparr>poa_config = \<lparr>authorities = [demo_authority, 0], poa_coinbase = demo_authority, poa_slot_seconds = 3,
        poa_gas_limit = 30000000, poa_base_fee_per_gas = 1, signer_sk = Some (SecpSecretKey 3)\<rparr>,
      poa_head_hash = 0, poa_head_number = 1, poa_head_timestamp = 0, poa_pending_txs = []\<rparr>"

lemma demo_poa_turn: "poa_wf demo_poa" "is_my_turn demo_poa"
  by (simp_all add: poa_wf_def demo_poa_def is_my_turn_def next_authority_index_def)

subsection \<open>Properties\<close>

text \<open>
  A sealed block is accepted by the peers. When it is this node's turn and its signing key belongs
  to its coinbase, the block it produces and signs carries a seal that \<open>verify_poa_seal\<close> accepts for the
  block's hash and height; at a height of another authority the same seal is refused.
\<close>

theorem poa_seal_is_accepted:
  assumes "ecdsa_signs K" and "poa_wf e" and "is_my_turn e" and "k_sk_ok K sk"
    and "signer_sk (poa_config e) = Some (SecpSecretKey sk)"
    and "secp_address C K (secp_public_key_of K (SecpSecretKey sk)) = poa_coinbase (poa_config e)"
    and "produce_block_signed C K R e = (Ok (h, n, b, seal), e')"
  shows "\<exists>sig. seal = Some sig \<and> h = Block_hash C R b \<and> n = number (block_header b) \<and>
    (\<forall>m. verify_poa_seal C K h sig (authorities (poa_config e)) m =
       Ok (authorities (poa_config e) ! (unat m mod length (authorities (poa_config e))) = poa_coinbase (poa_config e))) \<and>
    verify_poa_seal C K h sig (authorities (poa_config e)) n = Ok True"
proof -
  obtain r e1 where p: "poa_produce_block C R e = (r, e1)" by fastforce
  have "e1 = e'" and cfg: "poa_config e1 = poa_config e"
    using assms(7) p poa_produce_frame(1) [OF p] by (simp_all add: produce_block_signed_def)
  obtain sig where sig: "secp_sign K (SecpSecretKey sk) h = Ok sig" "seal = Some sig" "r = Ok (h, n, b)"
  proof (cases r)
    case (Ok x)
    then show ?thesis
      using assms(5,7) p cfg that
      by (cases "secp_sign K (SecpSecretKey sk) (fst x)")
        (auto simp: produce_block_signed_def simp del: secp_sign.simps split: prod.splits)
  qed (use assms(7) p in \<open>auto simp: produce_block_signed_def\<close>)
  have blk: "h = Block_hash C R b" "n = poa_head_number e + 1" "number (block_header b) = n"
    using poa_produce_frame(2) [OF p] sig(3) by auto
  have rec: "secp_recover K sig h = Ok (secp_public_key_of K (SecpSecretKey sk))"
    using assms(1,4) sig(1) by (auto simp: ecdsa_signs_def secp_recover_def split: option.splits)
  have seal: "verify_poa_seal C K h sig (authorities (poa_config e)) m =
      Ok (authorities (poa_config e) ! (unat m mod length (authorities (poa_config e))) = poa_coinbase (poa_config e))" for m
    using assms(2,6) by (auto simp: verify_poa_seal_def rec poa_wf_def)
  moreover have "authorities (poa_config e) ! (unat n mod length (authorities (poa_config e))) = poa_coinbase (poa_config e)"
    using assms(3) next_authority_index(1) [OF assms(2)] by (simp add: is_my_turn_def blk(2))
  ultimately show ?thesis using sig(2) blk by simp
qed

theorem poa_seal_is_accepted_witness:
  "\<exists>h n b sig e'. produce_block_signed demo_crypto demo_secp rlp_format demo_poa = (Ok (h, n, b, Some sig), e') \<and>
     n = 2 \<and> verify_poa_seal demo_crypto demo_secp h sig [demo_authority, 0] 2 = Ok True"
proof -
  obtain r e' where p: "poa_produce_block demo_crypto rlp_format demo_poa = (r, e')" by fastforce
  have cfg: "poa_config e' = poa_config demo_poa" using poa_produce_frame(1) [OF p] .
  obtain b where b: "r = Ok (Block_hash demo_crypto rlp_format b, 2, b)" "number (block_header b) = 2"
    using poa_produce_frame(2) [OF p] by (auto simp: demo_poa_def)
  have made: "produce_block_signed demo_crypto demo_secp rlp_format demo_poa =
      (Ok (Block_hash demo_crypto rlp_format b, 2, b, Some \<lparr>sig_inner = 3, recovery_id = 1\<rparr>), e')"
    using cfg by (simp add: produce_block_signed_def p b(1)) (simp add: demo_poa_def demo_secp_def)
  have key: "k_sk_ok demo_secp 3" "signer_sk (poa_config demo_poa) = Some (SecpSecretKey 3)"
      "secp_address demo_crypto demo_secp (secp_public_key_of demo_secp (SecpSecretKey 3)) = poa_coinbase (poa_config demo_poa)"
    by (simp_all add: demo_poa_def demo_authority_def) (simp_all add: demo_secp_def)
  have "authorities (poa_config demo_poa) = [demo_authority, 0]" by (simp add: demo_poa_def)
  then show ?thesis
    using poa_seal_is_accepted [OF demo_ecdsa demo_poa_turn key made] made b(2) by auto
qed

end
