(* ===== verification/Tables.thy ===== *)
theory Tables
  imports WorldState
begin

section \<open>Tables of the node\<close>

text \<open>
  What the tables of \<open>aii-node\<close> share: records kept in the column family \<open>Meta\<close> under a textual prefix and
  a big-endian index, read back by a scan of the prefix. Byte strings of one length are ordered as the numbers
  they denote, so a scan lists the records in ascending order of their index. The stable sort of the standard
  library is here as well, with the laws the election and the transaction pool use.
\<close>

subsection \<open>The order of big-endian keys\<close>

lemma be_val_cons: "be_val (b # bs) = unat b * 256 ^ length bs + be_val bs"
proof (induction bs rule: rev_induct)
  case Nil
  then show ?case by (simp add: be_val_def)
next
  case (snoc c bs)
  have "be_val (b # bs @ [c]) = be_val (b # bs) * 256 + unat c"
    using be_val_snoc [of "b # bs" c] by simp
  with snoc show ?case by (simp add: be_val_snoc algebra_simps)
qed

lemma be_val_less: "length bs = length cs \<Longrightarrow> bs < cs \<longleftrightarrow> be_val bs < be_val cs"
proof (induction bs cs rule: list_induct2)
  case (Cons b bs c cs)
  have bounds: "be_val bs < 256 ^ length cs" "be_val cs < 256 ^ length cs"
    using be_val_bound [of bs] be_val_bound [of cs] Cons.hyps by simp_all
  consider "b = c" | "b < c" | "c < b" by fastforce
  then show ?case
  proof cases
    case 2
    then have "Suc (unat b) * 256 ^ length cs \<le> unat c * 256 ^ length cs"
      by (intro mult_le_mono1) (simp add: word_less_nat_alt)
    with 2 bounds Cons.hyps show ?thesis by (simp add: be_val_cons)
  next
    case 3
    then have "Suc (unat c) * 256 ^ length cs \<le> unat b * 256 ^ length cs"
      by (intro mult_le_mono1) (simp add: word_less_nat_alt)
    with 3 bounds Cons.hyps show ?thesis by (auto simp: be_val_cons)
  qed (use Cons in \<open>simp add: be_val_cons\<close>)
qed simp

lemma to_be_bytes_less:
  fixes v w :: "'a::len word"
  assumes "LENGTH('a) \<le> 8 * n"
  shows "to_be_bytes n v < to_be_bytes n w \<longleftrightarrow> v < w"
proof -
  have "be_val (to_be_bytes n u) = unat u" for u :: "'a word"
  proof -
    have "unat u < 256 ^ n" using unat_less_pow [of u] assms
      by (metis less_le_trans one_le_numeral pow_256 power_increasing)
    then show ?thesis by (simp add: to_be_bytes_def be_val_be_nat)
  qed
  then show ?thesis by (simp add: be_val_less word_less_nat_alt)
qed

lemma append_less: "p @ x < p @ y \<longleftrightarrow> x < (y :: 'a::linorder list)"
  by (induction p) auto

lemma starts_with_append [simp]: "starts_with p (p @ k)"
  by (simp add: starts_with_def)

lemma starts_with_split: "starts_with p k \<Longrightarrow> k = p @ drop (length p) k"
  by (simp add: starts_with_def) (metis append_take_drop_id)

text \<open>A prefix and an index of fixed width.\<close>

lemma keyed:
  assumes "starts_with p k" and "length k = length p + n" and "8 * n \<le> LENGTH('a::len)"
  shows "p @ to_be_bytes n (from_be_bytes (drop (length p) k) :: 'a word) = k"
  using assms starts_with_split [of p k] by (simp add: to_from_be_bytes)

subsection \<open>Scans\<close>

text \<open>The records that the entries of a scan decode to, in order of their index.\<close>

lemma scan_sorted:
  assumes "btree_ok m" and keys: "\<And>p r. p \<in> set m \<Longrightarrow> f p = Some r \<Longrightarrow> fst p = pre @ to_be_bytes n (index r)"
    and n: "LENGTH('a::len) \<le> 8 * n"
  shows "sorted_wrt (<) (map index (List.map_filter f m) :: 'a word list)"
  using assms(1) keys
proof (induction m)
  case (Cons p m)
  have less: "index r < index r'" if "f p = Some r" "q \<in> set m" "f q = Some r'" for r q r'
  proof -
    have "fst p < fst q" using Cons.prems(1) that(2) by (force simp: btree_ok_def order_less_le)
    then show ?thesis
      using that Cons.prems(2) [of p r] Cons.prems(2) [of q r'] to_be_bytes_less [OF n]
      by (simp add: append_less)
  qed
  have "sorted_wrt (<) (map index (List.map_filter f m))"
    using Cons.prems by (intro Cons.IH) (auto simp: btree_ok_def)
  then show ?case using less
    by (cases "f p") (force simp: List.map_filter_def)+
qed (simp add: List.map_filter_def)

text \<open>The 64-bit indices among the keys of a scan.\<close>

definition entry_indices :: "byte list \<Rightarrow> (byte list \<times> byte list) list \<Rightarrow> u64 set" where
  "entry_indices pre m = {from_be_bytes (drop (length pre) k) |k v. (k, v) \<in> set m \<and> length k = length pre + 8}"

lemma entry_indices_simps:
  "entry_indices pre [] = {}"
  "entry_indices pre ((k, v) # m) =
     (if length k = length pre + 8 then {from_be_bytes (drop (length pre) k)} else {}) \<union> entry_indices pre m"
  by (auto simp: entry_indices_def)

lemma entry_indices_scan:
  assumes "\<And>k v. (k, v) \<in> set m \<longleftrightarrow> starts_with pre k \<and> c k = Some v"
  shows "entry_indices pre m = {e. c (pre @ to_be_bytes 8 e) \<noteq> None}"
proof -
  have "e \<in> entry_indices pre m" if "c (pre @ to_be_bytes 8 e) = Some v" for e v
    using that assms [of "pre @ to_be_bytes 8 e" v] by (force simp: entry_indices_def)
  moreover have "c (pre @ to_be_bytes 8 (from_be_bytes (drop (length pre) k) :: u64)) \<noteq> None"
    if "(k, v) \<in> set m" "length k = length pre + 8" for k v
    using that assms [of k v] keyed [of pre k 8, where 'a = 64] by simp
  ultimately show ?thesis by (auto simp: entry_indices_def)
qed

context kv_store
begin

lemma scan_spec:
  assumes "opened b"
  obtains m where "kv_iter_prefix K b cf pre = map Ok m" "btree_ok m"
    "\<And>k v. (k, v) \<in> set m \<longleftrightarrow> starts_with pre k \<and> contents b cf k = Some v"
proof -
  obtain m where m: "kv_iter_prefix K b cf pre = map Ok m" "btree_ok m"
      "map_of m = (\<lambda>k. if starts_with pre k then contents b cf k else None)"
    using iter_prefix_spec [OF assms] by blast
  have "(k, v) \<in> set m \<longleftrightarrow> map_of m k = Some v" for k v
    using m(2) by (simp add: btree_ok_def)
  with m show ?thesis by (intro that [of m]) (simp_all split: if_splits)
qed

end

text \<open>A sum over a list of records with distinct indices is a sum over the indices.\<close>

lemma sum_by_index:
  assumes "distinct (map f xs)" and "set (map f xs) = A" and "\<And>x. x \<in> set xs \<Longrightarrow> g x = h (f x)"
  shows "(\<Sum>x\<leftarrow>xs. g x :: nat) = (\<Sum>a\<in>A. h a)"
proof -
  have "map g xs = map h (map f xs)" using assms(3) by simp
  then have "(\<Sum>x\<leftarrow>xs. g x) = (\<Sum>a\<leftarrow>map f xs. h a)" by (simp only:)
  then show ?thesis by (simp only: sum.distinct_set_conv_list [OF assms(1)] assms(2) [symmetric])
qed

subsection \<open>The stable sort of the standard library\<close>

text \<open>\<open>sort_by\<close> with a comparison that says whether its first argument may stand before the second.\<close>

fun insert_by :: "('a \<Rightarrow> 'a \<Rightarrow> bool) \<Rightarrow> 'a \<Rightarrow> 'a list \<Rightarrow> 'a list" where
  "insert_by le x [] = [x]"
| "insert_by le x (y # ys) = (if le x y then x # y # ys else y # insert_by le x ys)"

definition sort_by :: "('a \<Rightarrow> 'a \<Rightarrow> bool) \<Rightarrow> 'a list \<Rightarrow> 'a list" where
  "sort_by le xs = foldr (insert_by le) xs []"

lemma mset_insert_by [simp]: "mset (insert_by le x ys) = add_mset x (mset ys)"
  by (induction ys) auto

lemma mset_sort_by [simp]: "mset (sort_by le xs) = mset xs"
  by (induction xs) (auto simp: sort_by_def)

lemma set_sort_by [simp]: "set (sort_by le xs) = set xs"
  by (metis mset_sort_by set_mset_mset)

lemma length_sort_by [simp]: "length (sort_by le xs) = length xs"
  by (metis mset_sort_by size_mset)

lemma distinct_sort_by: "distinct (map f (sort_by le xs)) \<longleftrightarrow> distinct (map f xs)"
  by (rule mset_eq_imp_distinct_iff) simp

lemma sorted_insert_by:
  assumes "\<And>x y. le x y \<or> le y x" and "\<And>x y z. le x y \<Longrightarrow> le y z \<Longrightarrow> le x z"
  shows "sorted_wrt le ys \<Longrightarrow> sorted_wrt le (insert_by le x ys)"
proof (induction ys)
  case (Cons y ys)
  have "set (insert_by le x ys) = insert x (set ys)"
    by (metis mset_insert_by set_mset_add_mset_insert set_mset_mset)
  then show ?case using Cons assms by (auto intro: assms(2))
qed simp

lemma sorted_sort_by:
  assumes "\<And>x y. le x y \<or> le y x" and "\<And>x y z. le x y \<Longrightarrow> le y z \<Longrightarrow> le x z"
  shows "sorted_wrt le (sort_by le xs)"
  by (induction xs) (auto simp: sort_by_def intro: sorted_insert_by [OF assms])

text \<open>The first entries of a sorted list come before all the others.\<close>

lemma take_sorted_before:
  assumes "sorted_wrt le xs" and "x \<in> set (take n xs)" and "y \<in> set (drop n xs)"
  shows "le x y"
  using assms(1) sorted_wrt_append [of le "take n xs" "drop n xs"] assms(2,3) by simp

end
