(* ===== verification/Staking.thy ===== *)
theory Staking
  imports Tables
begin

section \<open>The stake table\<close>

text \<open>
  \<open>aii-node/src/staking.rs\<close>: the bonds of validators, kept under the key \<open>stake:\<close> and the address in the
  column family \<open>Meta\<close>. The table is written over any backend that meets the contract \<open>kv_store\<close>. Its
  meaning is a ledger, a map from addresses to an amount and the height at which it may be withdrawn;
  each operation is shown to be the corresponding step of the ledger. A boxed error is kept as its cause: the
  storage error, or the operation and the address that the message names.
\<close>

subsection \<open>staking.rs\<close>

definition STAKE_PREFIX :: "byte list" where
  "STAKE_PREFIX = ascii ''stake:''"

record stake_record =
  staker :: address
  amount_wei :: u256
  unbond_at :: u64

datatype node_error = NodeStorage storage_error | NoStake string address | NodeMsg string

definition is_bonded :: "stake_record \<Rightarrow> bool" where
  "is_bonded r \<longleftrightarrow> unbond_at r = 0 \<and> amount_wei r \<noteq> 0"

definition stake_key :: "address \<Rightarrow> byte list" where
  "stake_key a = STAKE_PREFIX @ address_bytes a"

definition stake_encode_value :: "u256 \<Rightarrow> u64 \<Rightarrow> byte list" where
  "stake_encode_value amount unb = to_be_bytes 32 amount @ to_be_bytes 8 unb"

definition stake_decode_value :: "byte list \<Rightarrow> (u256 \<times> u64) option" where
  "stake_decode_value bytes =
     (if length bytes \<noteq> 40 then None
      else Some (from_be_bytes (slice 0 32 bytes), from_be_bytes (slice 32 40 bytes)))"

definition stake_get :: "'b kv_backend \<Rightarrow> 'b \<Rightarrow> address \<Rightarrow> (node_error, stake_record option) result" where
  "stake_get K b a =
     and_then (map_err NodeStorage (kv_get K b Meta (stake_key a))) (\<lambda>got.
       Ok (case got of
             None \<Rightarrow> None
           | Some bytes \<Rightarrow>
               (case stake_decode_value bytes of
                  None \<Rightarrow> None
                | Some (amount, unb) \<Rightarrow> Some \<lparr>staker = a, amount_wei = amount, unbond_at = unb\<rparr>)))"

definition stake_put :: "'b kv_backend \<Rightarrow> 'b \<Rightarrow> address \<Rightarrow> u256 \<Rightarrow> u64 \<Rightarrow> (node_error, unit) result \<times> 'b" where
  "stake_put K b a amount unb =
     (let (r, b') = kv_put K b Meta (stake_key a) (stake_encode_value amount unb) in (map_err NodeStorage r, b'))"

definition bond :: "'b kv_backend \<Rightarrow> 'b \<Rightarrow> address \<Rightarrow> u256 \<Rightarrow> (node_error, unit) result \<times> 'b" where
  "bond K b a delta =
     (case stake_get K b a of
        Err x \<Rightarrow> (Err x, b)
      | Panic \<Rightarrow> (Panic, b)
      | Ok prev \<Rightarrow>
          let old = (case prev of None \<Rightarrow> 0 | Some r \<Rightarrow> amount_wei r) in
          stake_put K b a (saturating_add old delta) 0)"

definition begin_unbond ::
    "'b kv_backend \<Rightarrow> 'b \<Rightarrow> address \<Rightarrow> u64 \<Rightarrow> u64 \<Rightarrow> (node_error, unit) result \<times> 'b" where
  "begin_unbond K b a current_height unbonding_period =
     (case stake_get K b a of
        Err x \<Rightarrow> (Err x, b)
      | Panic \<Rightarrow> (Panic, b)
      | Ok None \<Rightarrow> (Err (NoStake ''begin_unbond'' a), b)
      | Ok (Some prev) \<Rightarrow> stake_put K b a (amount_wei prev) (saturating_add current_height unbonding_period))"

definition withdraw ::
    "'b kv_backend \<Rightarrow> 'b \<Rightarrow> address \<Rightarrow> u64 \<Rightarrow> (node_error, u256 option) result \<times> 'b" where
  "withdraw K b a current_height =
     (case stake_get K b a of
        Err x \<Rightarrow> (Err x, b)
      | Panic \<Rightarrow> (Panic, b)
      | Ok None \<Rightarrow> (Ok None, b)
      | Ok (Some r) \<Rightarrow>
          if unbond_at r = 0 \<or> current_height < unbond_at r then (Ok None, b)
          else let (res, b') = kv_delete K b Meta (stake_key a)
               in (and_then (map_err NodeStorage res) (\<lambda>_. Ok (Some (amount_wei r))), b'))"

definition slash :: "'b kv_backend \<Rightarrow> 'b \<Rightarrow> address \<Rightarrow> u256 \<Rightarrow> (node_error, unit) result \<times> 'b" where
  "slash K b a delta =
     (case stake_get K b a of
        Err x \<Rightarrow> (Err x, b)
      | Panic \<Rightarrow> (Panic, b)
      | Ok None \<Rightarrow> (Err (NoStake ''slash'' a), b)
      | Ok (Some prev) \<Rightarrow> stake_put K b a (saturating_sub (amount_wei prev) delta) (unbond_at prev))"

text \<open>The loop of \<open>list_all\<close>: keys of another length and values that do not decode are skipped.\<close>

fun stake_records :: "kv_item list \<Rightarrow> (node_error, stake_record list) result" where
  "stake_records [] = Ok []"
| "stake_records (item # items) =
     and_then (map_err NodeStorage item) (\<lambda>(k, v).
     and_then (stake_records items) (\<lambda>rs.
       Ok (if length k \<noteq> length STAKE_PREFIX + 20 then rs
           else case stake_decode_value v of
             None \<Rightarrow> rs
           | Some (amount, unb) \<Rightarrow>
               \<lparr>staker = from_be_bytes (drop (length STAKE_PREFIX) k), amount_wei = amount, unbond_at = unb\<rparr> # rs)))"

definition stake_list_all :: "'b kv_backend \<Rightarrow> 'b \<Rightarrow> (node_error, stake_record list) result" where
  "stake_list_all K b = stake_records (kv_iter_prefix K b Meta STAKE_PREFIX)"

definition sum_bonded :: "stake_record list \<Rightarrow> u256" where
  "sum_bonded rs = foldl (\<lambda>total r. if is_bonded r then saturating_add total (amount_wei r) else total) 0 rs"

definition total_bonded :: "'b kv_backend \<Rightarrow> 'b \<Rightarrow> (node_error, u256) result" where
  "total_bonded K b = and_then (stake_list_all K b) (\<lambda>rs. Ok (sum_bonded rs))"


subsection \<open>The ledger\<close>

text \<open>
  The abstract table: for each address the amount held and the height from which it may be withdrawn, zero while
  it is bonded. Requests carry the arguments of the operations; a request answers with the amount paid out.
\<close>

type_synonym ledger = "address \<rightharpoonup> u256 \<times> u64"

datatype stake_op =
    Bond address u256
  | BeginUnbond address u64 u64
  | Withdraw address u64
  | Slash address u256

primrec ledger_op :: "ledger \<Rightarrow> stake_op \<Rightarrow> (node_error, u256 option) result \<times> ledger" where
  "ledger_op l (Bond a delta) =
     (Ok None, l(a \<mapsto> (saturating_add (case l a of None \<Rightarrow> 0 | Some (x, _) \<Rightarrow> x) delta, 0)))"
| "ledger_op l (BeginUnbond a h p) =
     (case l a of
        None \<Rightarrow> (Err (NoStake ''begin_unbond'' a), l)
      | Some (x, _) \<Rightarrow> (Ok None, l(a \<mapsto> (x, saturating_add h p))))"
| "ledger_op l (Withdraw a h) =
     (case l a of
        None \<Rightarrow> (Ok None, l)
      | Some (x, u) \<Rightarrow> if u = 0 \<or> h < u then (Ok None, l) else (Ok (Some x), l(a := None)))"
| "ledger_op l (Slash a delta) =
     (case l a of
        None \<Rightarrow> (Err (NoStake ''slash'' a), l)
      | Some (x, u) \<Rightarrow> (Ok None, l(a \<mapsto> (saturating_sub x delta, u))))"

definition no_payout :: "('e, unit) result \<times> 'b \<Rightarrow> ('e, u256 option) result \<times> 'b" where
  "no_payout = map_prod (\<lambda>r. and_then r (\<lambda>_. Ok None)) id"

primrec run_stake_op :: "'b kv_backend \<Rightarrow> 'b \<Rightarrow> stake_op \<Rightarrow> (node_error, u256 option) result \<times> 'b" where
  "run_stake_op K b (Bond a delta) = no_payout (bond K b a delta)"
| "run_stake_op K b (BeginUnbond a h p) = no_payout (begin_unbond K b a h p)"
| "run_stake_op K b (Withdraw a h) = withdraw K b a h"
| "run_stake_op K b (Slash a delta) = no_payout (slash K b a delta)"

text \<open>A sequence of requests, with the answer to each.\<close>

primrec run_requests :: "('s \<Rightarrow> 'op \<Rightarrow> 'r \<times> 's) \<Rightarrow> 's \<Rightarrow> 'op list \<Rightarrow> 'r list \<times> 's" where
  "run_requests step s [] = ([], s)"
| "run_requests step s (op # ops) =
     (let (r, s') = step s op; (rs, s'') = run_requests step s' ops in (r # rs, s''))"

text \<open>The ledger that the contents of a backend stand for.\<close>

definition stakes :: "contents \<Rightarrow> ledger" where
  "stakes m a = Option.bind (m Meta (stake_key a)) stake_decode_value"

definition stake_area :: "column_family \<Rightarrow> byte list \<Rightarrow> bool" where
  "stake_area cf k \<longleftrightarrow> cf = Meta \<and> starts_with STAKE_PREFIX k"

subsection \<open>Keys and values\<close>

lemma stake_decode_encode [simp]: "stake_decode_value (stake_encode_value x u) = Some (x, u)"
  by (simp add: stake_decode_value_def stake_encode_value_def slice_def)

lemma stake_key_inject [simp]: "stake_key a = stake_key a' \<longleftrightarrow> a = a'"
  by (simp add: stake_key_def to_be_bytes_inject)

lemma stake_area_key [simp]: "stake_area Meta (stake_key a)"
  by (simp add: stake_area_def stake_key_def)

lemma stakes_put [simp]:
  "stakes (m(Meta := (m Meta)(stake_key a \<mapsto> stake_encode_value x u))) = (stakes m)(a \<mapsto> (x, u))"
  by (auto simp: stakes_def fun_eq_iff)

lemma stakes_delete [simp]: "stakes (m(Meta := (m Meta)(stake_key a := None))) = (stakes m)(a := None)"
  by (auto simp: stakes_def fun_eq_iff)

context kv_store
begin

lemma stake_get_spec:
  "opened b \<Longrightarrow> stake_get K b a =
     Ok (map_option (\<lambda>(x, u). \<lparr>staker = a, amount_wei = x, unbond_at = u\<rparr>) (stakes (contents b) a))"
  by (auto simp: stake_get_def get_spec stakes_def split: option.splits)

lemma stake_put_spec:
  assumes "opened b"
  obtains b' where "stake_put K b a x u = (Ok (), b')" "opened b'"
    "stakes (contents b') = (stakes (contents b))(a \<mapsto> (x, u))"
    "\<And>cf k. \<not> stake_area cf k \<Longrightarrow> contents b' cf k = contents b cf k"
proof -
  obtain b' where b': "kv_put K b Meta (stake_key a) (stake_encode_value x u) = (Ok (), b')" "opened b'"
      "contents b' = apply_op (contents b) (OpPut Meta (stake_key a) (stake_encode_value x u))"
    using put_spec [OF assms, of Meta "stake_key a" "stake_encode_value x u"] by blast
  then show ?thesis by (intro that [of b']) (auto simp: stake_put_def)
qed

lemma stake_delete_spec:
  assumes "opened b"
  obtains b' where "kv_delete K b Meta (stake_key a) = (Ok (), b')" "opened b'"
    "stakes (contents b') = (stakes (contents b))(a := None)"
    "\<And>cf k. \<not> stake_area cf k \<Longrightarrow> contents b' cf k = contents b cf k"
proof -
  obtain b' where b': "kv_delete K b Meta (stake_key a) = (Ok (), b')" "opened b'"
      "contents b' = apply_op (contents b) (OpDelete Meta (stake_key a))"
    using delete_spec [OF assms, of Meta "stake_key a"] by blast
  then show ?thesis by (intro that [of b']) auto
qed

lemma run_stake_op_refines:
  assumes b: "opened b"
  obtains b' where "run_stake_op K b op = (fst (ledger_op (stakes (contents b)) op), b')" "opened b'"
    "stakes (contents b') = snd (ledger_op (stakes (contents b)) op)"
    "\<And>cf k. \<not> stake_area cf k \<Longrightarrow> contents b' cf k = contents b cf k"
proof (cases op)
  case (Bond a d)
  let ?x = "saturating_add (case stakes (contents b) a of None \<Rightarrow> 0 | Some (x, _) \<Rightarrow> x) d"
  obtain b' where "stake_put K b a ?x 0 = (Ok (), b')" "opened b'"
      "stakes (contents b') = (stakes (contents b))(a \<mapsto> (?x, 0))"
      "\<And>cf k. \<not> stake_area cf k \<Longrightarrow> contents b' cf k = contents b cf k"
    using stake_put_spec [OF b] by blast
  then show ?thesis
    by (intro that [of b'])
      (auto simp: Bond bond_def no_payout_def stake_get_spec [OF b] split: option.splits)
next
  case (BeginUnbond a h p)
  show ?thesis
  proof (cases "stakes (contents b) a")
    case None
    then show ?thesis by (intro that [of b])
      (auto simp: BeginUnbond begin_unbond_def no_payout_def stake_get_spec [OF b] b)
  next
    case (Some q)
    obtain b' where "stake_put K b a (fst q) (saturating_add h p) = (Ok (), b')" "opened b'"
        "stakes (contents b') = (stakes (contents b))(a \<mapsto> (fst q, saturating_add h p))"
        "\<And>cf k. \<not> stake_area cf k \<Longrightarrow> contents b' cf k = contents b cf k"
      using stake_put_spec [OF b] by blast
    then show ?thesis
      by (intro that [of b'])
        (auto simp: BeginUnbond Some begin_unbond_def no_payout_def stake_get_spec [OF b] split: prod.splits)
  qed
next
  case (Withdraw a h)
  obtain b' where "kv_delete K b Meta (stake_key a) = (Ok (), b')" "opened b'"
      "stakes (contents b') = (stakes (contents b))(a := None)"
      "\<And>cf k. \<not> stake_area cf k \<Longrightarrow> contents b' cf k = contents b cf k"
    using stake_delete_spec [OF b] by blast
  then show ?thesis
    by (intro that [of "snd (run_stake_op K b op)"])
      (auto simp: Withdraw withdraw_def stake_get_spec [OF b] b split: option.splits)
next
  case (Slash a d)
  show ?thesis
  proof (cases "stakes (contents b) a")
    case None
    then show ?thesis by (intro that [of b])
      (auto simp: Slash slash_def no_payout_def stake_get_spec [OF b] b)
  next
    case (Some q)
    obtain b' where "stake_put K b a (saturating_sub (fst q) d) (snd q) = (Ok (), b')" "opened b'"
        "stakes (contents b') = (stakes (contents b))(a \<mapsto> (saturating_sub (fst q) d, snd q))"
        "\<And>cf k. \<not> stake_area cf k \<Longrightarrow> contents b' cf k = contents b cf k"
      using stake_put_spec [OF b] by blast
    then show ?thesis
      by (intro that [of b'])
        (auto simp: Slash Some slash_def no_payout_def stake_get_spec [OF b] split: prod.splits)
  qed
qed

lemma run_stake_ops_refine:
  assumes "opened b"
  shows "fst (run_requests (run_stake_op K) b ops) = fst (run_requests ledger_op (stakes (contents b)) ops) \<and>
    opened (snd (run_requests (run_stake_op K) b ops)) \<and>
    stakes (contents (snd (run_requests (run_stake_op K) b ops))) =
      snd (run_requests ledger_op (stakes (contents b)) ops) \<and>
    (\<forall>cf k. \<not> stake_area cf k \<longrightarrow>
      contents (snd (run_requests (run_stake_op K) b ops)) cf k = contents b cf k)"
  using assms
proof (induction ops arbitrary: b)
  case (Cons op ops)
  obtain b' where b': "run_stake_op K b op = (fst (ledger_op (stakes (contents b)) op), b')" "opened b'"
      "stakes (contents b') = snd (ledger_op (stakes (contents b)) op)"
      "\<And>cf k. \<not> stake_area cf k \<Longrightarrow> contents b' cf k = contents b cf k"
    using run_stake_op_refines [OF Cons.prems] by blast
  with Cons.IH [OF b'(2)] show ?case by (auto simp: Let_def split_beta)
qed simp

end

subsection \<open>The scan\<close>

definition stake_of_entry :: "byte list \<times> byte list \<Rightarrow> stake_record option" where
  "stake_of_entry p =
     (if length (fst p) \<noteq> length STAKE_PREFIX + 20 then None
      else map_option (\<lambda>(x, u). \<lparr>staker = from_be_bytes (drop (length STAKE_PREFIX) (fst p)),
        amount_wei = x, unbond_at = u\<rparr>) (stake_decode_value (snd p)))"

lemma stake_records_filter: "stake_records (map Ok m) = Ok (List.map_filter stake_of_entry m)"
  by (induction m) (auto simp: List.map_filter_def stake_of_entry_def split: option.split)

lemma stake_of_entry_key:
  assumes "starts_with STAKE_PREFIX k" and "stake_of_entry (k, v) = Some r"
  shows "k = stake_key (staker r) \<and> stake_decode_value v = Some (amount_wei r, unbond_at r)"
  using assms keyed [of STAKE_PREFIX k 20, where 'a = 160]
  by (auto simp: stake_of_entry_def stake_key_def split: if_splits)

lemma stake_of_entry_at:
  "stake_decode_value v = Some (amount_wei r, unbond_at r) \<Longrightarrow> stake_of_entry (stake_key (staker r), v) = Some r"
  by (simp add: stake_of_entry_def stake_key_def)

text \<open>What \<open>list_all\<close> returns: the ledger, one record per address, in ascending order of the addresses.\<close>

definition lists_ledger :: "ledger \<Rightarrow> stake_record list \<Rightarrow> bool" where
  "lists_ledger l rs \<longleftrightarrow> sorted_wrt (<) (map staker rs) \<and>
     (\<forall>r. r \<in> set rs \<longleftrightarrow> l (staker r) = Some (amount_wei r, unbond_at r))"

definition bonded_stakers :: "ledger \<Rightarrow> address set" where
  "bonded_stakers l = {a. \<exists>x. l a = Some (x, 0) \<and> x \<noteq> 0}"

definition ledger_bonded :: "ledger \<Rightarrow> nat" where
  "ledger_bonded l = (\<Sum>a\<in>bonded_stakers l. unat (fst (the (l a))))"

lemma lists_ledger_unique:
  assumes "lists_ledger l rs" and "lists_ledger l rs'"
  shows "rs = rs'"
proof (rule map_sorted_distinct_set_unique [of staker])
  show "inj_on staker (set rs \<union> set rs')"
    using assms by (auto simp: lists_ledger_def inj_on_def)
qed (use assms in \<open>auto simp: lists_ledger_def strict_sorted_iff\<close>)

lemma unat_sum_bonded:
  "unat (sum_bonded rs) = min (\<Sum>r\<leftarrow>filter is_bonded rs. unat (amount_wei r)) (2 ^ 256 - 1)"
proof -
  have "unat (foldl (\<lambda>total r. if is_bonded r then saturating_add total (amount_wei r) else total) t rs) =
      min (unat t + (\<Sum>r\<leftarrow>filter is_bonded rs. unat (amount_wei r))) (2 ^ 256 - 1)" for t :: u256
  proof (induction rs arbitrary: t)
    case Nil
    then show ?case using unat_less_pow [of t] by simp
  qed (auto simp: arith_unat min_def)
  from this [of 0] show ?thesis by (simp add: sum_bonded_def)
qed

lemma sum_of_listed:
  assumes "lists_ledger l rs"
  shows "(\<Sum>r\<leftarrow>filter is_bonded rs. unat (amount_wei r)) = ledger_bonded l"
  unfolding ledger_bonded_def
proof (rule sum_by_index [of staker])
  have "distinct (map staker rs)" using assms by (auto simp: lists_ledger_def strict_sorted_iff)
  then show "distinct (map staker (filter is_bonded rs))" by (rule distinct_map_filter)
  have "a \<in> staker ` set (filter is_bonded rs)" if "l a = Some (x, 0)" "x \<noteq> 0" for a x
    using assms that by (intro rev_image_eqI [of "\<lparr>staker = a, amount_wei = x, unbond_at = 0\<rparr>"])
      (auto simp: lists_ledger_def is_bonded_def)
  then show "set (map staker (filter is_bonded rs)) = bonded_stakers l"
    using assms by (auto simp: lists_ledger_def is_bonded_def bonded_stakers_def)
qed (use assms in \<open>auto simp: lists_ledger_def\<close>)

context kv_store
begin

lemma stake_list_all_spec:
  assumes "opened b"
  obtains rs where "stake_list_all K b = Ok rs" "lists_ledger (stakes (contents b)) rs"
proof -
  obtain m where m: "kv_iter_prefix K b Meta STAKE_PREFIX = map Ok m" "btree_ok m"
      "\<And>k v. (k, v) \<in> set m \<longleftrightarrow> starts_with STAKE_PREFIX k \<and> contents b Meta k = Some v"
    using scan_spec [OF assms] by blast
  have "sorted_wrt (<) (map staker (List.map_filter stake_of_entry m))"
    using m(3) stake_of_entry_key by (intro scan_sorted [OF m(2), of _ STAKE_PREFIX 20]) (force simp: stake_key_def)+
  moreover have "r \<in> set (List.map_filter stake_of_entry m) \<longleftrightarrow>
      stakes (contents b) (staker r) = Some (amount_wei r, unbond_at r)" for r
  proof
    assume "r \<in> set (List.map_filter stake_of_entry m)"
    then obtain k v where "(k, v) \<in> set m" "stake_of_entry (k, v) = Some r"
      by (auto simp: List.map_filter_def)
    then show "stakes (contents b) (staker r) = Some (amount_wei r, unbond_at r)"
      using m(3) [of k v] stake_of_entry_key [of k v r] by (auto simp: stakes_def)
  next
    assume "stakes (contents b) (staker r) = Some (amount_wei r, unbond_at r)"
    then obtain v where v: "contents b Meta (stake_key (staker r)) = Some v"
        "stake_decode_value v = Some (amount_wei r, unbond_at r)"
      by (auto simp: stakes_def bind_eq_Some_conv)
    then have "(stake_key (staker r), v) \<in> set m" by (simp add: m(3) stake_key_def)
    then show "r \<in> set (List.map_filter stake_of_entry m)"
      using stake_of_entry_at [OF v(2)] by (force simp: List.map_filter_def)
  qed
  ultimately show ?thesis
    by (intro that [of "List.map_filter stake_of_entry m"])
      (simp_all add: stake_list_all_def m(1) stake_records_filter lists_ledger_def)
qed

lemma total_bonded_spec:
  assumes "opened b"
  obtains t where "total_bonded K b = Ok t" "unat t = min (ledger_bonded (stakes (contents b))) (2 ^ 256 - 1)"
proof -
  obtain rs where "stake_list_all K b = Ok rs" "lists_ledger (stakes (contents b)) rs"
    using stake_list_all_spec [OF assms] .
  then show ?thesis by (intro that [of "sum_bonded rs"])
    (simp_all add: total_bonded_def unat_sum_bonded sum_of_listed)
qed

end

subsection \<open>Value and time\<close>

definition held :: "ledger \<Rightarrow> address \<Rightarrow> nat" where
  "held l a = (case l a of None \<Rightarrow> 0 | Some (x, _) \<Rightarrow> unat x)"

fun deposit_of :: "address \<Rightarrow> stake_op \<Rightarrow> nat" where
  "deposit_of a (Bond a' d) = (if a' = a then unat d else 0)"
| "deposit_of a _ = 0"

fun payout_of :: "address \<Rightarrow> stake_op \<times> (node_error, u256 option) result \<Rightarrow> nat" where
  "payout_of a (Withdraw a' h, Ok (Some x)) = (if a' = a then unat x else 0)"
| "payout_of a _ = 0"

definition deposited :: "address \<Rightarrow> stake_op list \<Rightarrow> nat" where
  "deposited a ops = (\<Sum>op\<leftarrow>ops. deposit_of a op)"

definition paid :: "address \<Rightarrow> stake_op list \<Rightarrow> (node_error, u256 option) result list \<Rightarrow> nat" where
  "paid a ops rs = (\<Sum>p\<leftarrow>zip ops rs. payout_of a p)"

fun slashes :: "address \<Rightarrow> stake_op \<Rightarrow> bool" where
  "slashes a (Slash a' d) \<longleftrightarrow> a' = a"
| "slashes a _ \<longleftrightarrow> False"

lemma ledger_op_value:
  "held (snd (ledger_op l op)) a + payout_of a (op, fst (ledger_op l op)) \<le> held l a + deposit_of a op"
  by (cases op) (auto simp: held_def arith_unat split: option.split)

lemma ledger_op_value_exact:
  assumes "held l a + deposit_of a op < 2 ^ 256" and "\<not> slashes a op"
  shows "held (snd (ledger_op l op)) a + payout_of a (op, fst (ledger_op l op)) = held l a + deposit_of a op"
  using assms by (cases op) (auto simp: held_def arith_unat split: option.split)

lemma ledger_value:
  "held (snd (run_requests ledger_op l ops)) a + paid a ops (fst (run_requests ledger_op l ops)) \<le>
     held l a + deposited a ops"
proof (induction ops arbitrary: l)
  case (Cons op ops)
  show ?case using Cons [of "snd (ledger_op l op)"] ledger_op_value [of l op a]
    by (simp add: Let_def split_beta paid_def deposited_def)
qed (simp add: paid_def deposited_def)

lemma ledger_value_exact:
  assumes "held l a + deposited a ops < 2 ^ 256" and "list_all (\<lambda>op. \<not> slashes a op) ops"
  shows "held (snd (run_requests ledger_op l ops)) a + paid a ops (fst (run_requests ledger_op l ops)) =
     held l a + deposited a ops"
  using assms
proof (induction ops arbitrary: l)
  case (Cons op ops)
  have step: "held (snd (ledger_op l op)) a + payout_of a (op, fst (ledger_op l op)) = held l a + deposit_of a op"
    using Cons.prems by (intro ledger_op_value_exact) (auto simp: deposited_def)
  have "held (snd (ledger_op l op)) a + deposited a ops < 2 ^ 256"
    using Cons.prems(1) step by (simp add: deposited_def)
  from Cons.IH [OF this] Cons.prems(2) step show ?case
    by (simp add: Let_def split_beta paid_def deposited_def)
qed (simp add: paid_def deposited_def)

text \<open>Requests that restart the clock of an address.\<close>

fun resets_clock :: "address \<Rightarrow> stake_op \<Rightarrow> bool" where
  "resets_clock a (Bond a' d) \<longleftrightarrow> a' = a"
| "resets_clock a (BeginUnbond a' h p) \<longleftrightarrow> a' = a"
| "resets_clock a _ \<longleftrightarrow> False"

definition last_unbond :: "address \<Rightarrow> stake_op list \<Rightarrow> u64 \<Rightarrow> u64 \<Rightarrow> bool" where
  "last_unbond a ops h p \<longleftrightarrow>
     (\<exists>before after. ops = before @ BeginUnbond a h p # after \<and> list_all (\<lambda>op. \<not> resets_clock a op) after)"

lemma run_requests_append:
  "run_requests step s (xs @ ys) =
     (let (rs, s') = run_requests step s xs; (rs', s'') = run_requests step s' ys in (rs @ rs', s''))"
  by (induction xs arbitrary: s) (simp_all add: Let_def split_beta)

lemma last_unbond_snoc:
  "last_unbond a ops h p \<Longrightarrow> \<not> resets_clock a op \<Longrightarrow> last_unbond a (ops @ [op]) h p"
  "last_unbond a (ops @ [BeginUnbond a h p]) h p"
  unfolding last_unbond_def by force+

text \<open>One step: the clock of an address keeps its value or was set by this request.\<close>

lemma ledger_op_clock:
  assumes "snd (ledger_op l op) a = Some (x, u)" and "u \<noteq> 0"
  shows "(\<exists>h p. op = BeginUnbond a h p \<and> u = saturating_add h p) \<or>
    (\<not> resets_clock a op \<and> (\<exists>x'. l a = Some (x', u)))"
  using assms by (cases op) (auto split: option.splits if_splits)

lemma clock_set_by_request:
  assumes "snd (run_requests ledger_op Map.empty ops) a = Some (x, u)" and "u \<noteq> 0"
  shows "\<exists>h p. u = saturating_add h p \<and> last_unbond a ops h p"
  using assms
proof (induction ops arbitrary: x rule: rev_induct)
  case (snoc op ops)
  let ?l = "snd (run_requests ledger_op Map.empty ops)"
  have "snd (ledger_op ?l op) a = Some (x, u)"
    using snoc.prems(1) by (simp add: run_requests_append split_beta)
  from ledger_op_clock [OF this snoc.prems(2)] snoc.IH snoc.prems(2) show ?case
    by (metis last_unbond_snoc)
qed simp

lemma paid_means_due:
  assumes "fst (ledger_op l (Withdraw a t)) = Ok (Some x)"
  obtains u where "l a = Some (x, u)" "u \<noteq> 0" "u \<le> t"
  using assms by (auto split: option.splits if_splits)

subsection \<open>Properties\<close>

text \<open>
  (C5) The stake table implements its ledger on every backend that meets the storage contract: a sequence of
  bond, unbond, withdraw and slash requests returns the answers of the abstract ledger, errors included, leaves
  the contents standing for the abstract result and touches no key outside the \<open>stake:\<close> area; afterwards
  \<open>list_all\<close> lists exactly the ledger in ascending order of addresses, and \<open>total_bonded\<close> is the sum of the
  stakes not in unbonding, capped at the largest 256-bit number.
\<close>

theorem stake_table_refines_ledger:
  assumes K: "kv_store K opened contents" and b: "opened b"
    and run: "run_requests (run_stake_op K) b ops = (rs, b')"
    and spec: "run_requests ledger_op (stakes (contents b)) ops = (rs', l')"
  shows "rs = rs' \<and> stakes (contents b') = l' \<and>
    (\<forall>cf k. \<not> stake_area cf k \<longrightarrow> contents b' cf k = contents b cf k) \<and>
    (\<exists>xs. stake_list_all K b' = Ok xs \<and> lists_ledger l' xs) \<and>
    (\<exists>t. total_bonded K b' = Ok t \<and> unat t = min (ledger_bonded l') (2 ^ 256 - 1))"
proof -
  have "rs = rs'" "opened b'" "stakes (contents b') = l'"
      "\<forall>cf k. \<not> stake_area cf k \<longrightarrow> contents b' cf k = contents b cf k"
    using kv_store.run_stake_ops_refine [OF K b, of ops] run spec by simp_all
  then show ?thesis
    by (metis kv_store.stake_list_all_spec [OF K \<open>opened b'\<close>] kv_store.total_bonded_spec [OF K \<open>opened b'\<close>])
qed

theorem stake_table_refines_ledger_witness:
  "\<exists>rs b'. run_requests (run_stake_op MemoryBackend) MemoryBackend_new
      [Bond 7 100, Slash 7 30, BeginUnbond 7 5 10, Withdraw 7 14, Withdraw 7 15, Slash 7 1] = (rs, b') \<and>
    rs = [Ok None, Ok None, Ok None, Ok None, Ok (Some 70), Err (NoStake ''slash'' 7)] \<and>
    stakes (mem_contents b') = Map.empty"
proof -
  let ?ops = "[Bond 7 100, Slash 7 30, BeginUnbond 7 5 10, Withdraw 7 14, Withdraw 7 15, Slash 7 1]"
  have new: "stakes (mem_contents MemoryBackend_new) = Map.empty"
    by (simp add: mem_new_contents stakes_def fun_eq_iff)
  have spec: "run_requests ledger_op Map.empty ?ops =
      ([Ok None, Ok None, Ok None, Ok None, Ok (Some 70), Err (NoStake ''slash'' 7)], Map.empty)"
    by (simp add: saturating_add_def saturating_sub_def word_less_nat_alt word_le_nat_alt)
  obtain rs b' where run: "run_requests (run_stake_op MemoryBackend) MemoryBackend_new ?ops = (rs, b')"
    by (cases "run_requests (run_stake_op MemoryBackend) MemoryBackend_new ?ops")
  show ?thesis
    using stake_table_refines_ledger [OF mem.kv_store_axioms mem_new_opened run, unfolded new, OF spec] run by blast
qed

text \<open>
  (C7) No stake is created or lost: over any sequence of requests, what an address holds in the table and what
  was paid out to it never exceed what it held before and what was bonded for it; the two are equal when it was
  not slashed and the bonds stay below the range of the amounts.
\<close>

theorem stake_is_conserved:
  assumes K: "kv_store K opened contents" and b: "opened b"
    and run: "run_requests (run_stake_op K) b ops = (rs, b')"
  shows "held (stakes (contents b')) a + paid a ops rs \<le> held (stakes (contents b)) a + deposited a ops \<and>
    (list_all (\<lambda>op. \<not> slashes a op) ops \<longrightarrow> held (stakes (contents b)) a + deposited a ops < 2 ^ 256 \<longrightarrow>
      held (stakes (contents b')) a + paid a ops rs = held (stakes (contents b)) a + deposited a ops)"
  using kv_store.run_stake_ops_refine [OF K b, of ops] run
    ledger_value [of "stakes (contents b)" ops a] ledger_value_exact [of "stakes (contents b)" a ops]
  by simp

theorem stake_is_conserved_witness:
  "\<exists>rs b'. run_requests (run_stake_op MemoryBackend) MemoryBackend_new
      [Bond 7 100, BeginUnbond 7 5 10, Withdraw 7 15, Bond 7 40] = (rs, b') \<and>
    held (stakes (mem_contents b')) 7 + paid 7 [Bond 7 100, BeginUnbond 7 5 10, Withdraw 7 15, Bond 7 40] rs = 140"
proof -
  let ?ops = "[Bond 7 100, BeginUnbond 7 5 10, Withdraw 7 15, Bond 7 40]"
  have "held (stakes (mem_contents MemoryBackend_new)) 7 + deposited 7 ?ops = 140"
    by (simp add: mem_new_contents stakes_def held_def deposited_def)
  moreover obtain rs b' where run: "run_requests (run_stake_op MemoryBackend) MemoryBackend_new ?ops = (rs, b')"
    by (cases "run_requests (run_stake_op MemoryBackend) MemoryBackend_new ?ops")
  ultimately show ?thesis
    using stake_is_conserved [OF mem.kv_store_axioms mem_new_opened run, of 7] by simp
qed

text \<open>
  (C8) Stake leaves the table only through the unbonding period: when a withdrawal at height \<open>t\<close> pays, the last
  request that set the clock of that address was a \<open>begin_unbond\<close> at some height \<open>h\<close> with a period \<open>p\<close> such
  that \<open>h + p\<close> (saturating) is at most \<open>t\<close>, and the address did not bond again since.
\<close>

theorem withdrawal_waits_for_the_period:
  assumes K: "kv_store K opened contents" and b: "opened b" and fresh: "stakes (contents b) = Map.empty"
    and run: "run_requests (run_stake_op K) b (ops @ [Withdraw a t]) = (rs @ [Ok (Some x)], b')"
  shows "\<exists>h p. last_unbond a ops h p \<and> saturating_add h p \<le> t \<and> unat h \<le> unat t"
proof -
  let ?l = "snd (run_requests ledger_op Map.empty ops)"
  have "fst (run_requests ledger_op Map.empty (ops @ [Withdraw a t])) = rs @ [Ok (Some x)]"
    using kv_store.run_stake_ops_refine [OF K b, of "ops @ [Withdraw a t]"] run fresh by simp
  then have "fst (ledger_op ?l (Withdraw a t)) = Ok (Some x)"
    by (simp add: run_requests_append split_beta)
  then obtain u where u: "?l a = Some (x, u)" "u \<noteq> 0" "u \<le> t" by (rule paid_means_due)
  obtain h p where hp: "u = saturating_add h p" "last_unbond a ops h p"
    using clock_set_by_request [OF u(1,2)] by blast
  have "unat h \<le> unat u" using hp(1) unat_less_pow [of h] by (simp add: arith_unat)
  also have "\<dots> \<le> unat t" using u(3) by (simp add: word_le_nat_alt)
  finally have "unat h \<le> unat t" .
  with hp u(3) show ?thesis by blast
qed

theorem withdrawal_waits_for_the_period_witness:
  "\<exists>b' h p. run_requests (run_stake_op MemoryBackend) MemoryBackend_new
      ([Bond 7 100, BeginUnbond 7 5 10] @ [Withdraw 7 15]) = ([Ok None, Ok None] @ [Ok (Some 100)], b') \<and>
    last_unbond 7 [Bond 7 100, BeginUnbond 7 5 10] h p \<and> saturating_add h p \<le> 15"
proof -
  let ?ops = "[Bond 7 100, BeginUnbond 7 5 10] @ [Withdraw 7 15]"
  have new: "stakes (mem_contents MemoryBackend_new) = Map.empty"
    by (simp add: mem_new_contents stakes_def fun_eq_iff)
  have "fst (run_requests ledger_op Map.empty ?ops) = [Ok None, Ok None] @ [Ok (Some 100)]"
    by (simp add: saturating_add_def word_less_nat_alt)
  then have "fst (run_requests (run_stake_op MemoryBackend) MemoryBackend_new ?ops) =
      [Ok None, Ok None] @ [Ok (Some 100)]"
    using mem.run_stake_ops_refine [OF mem_new_opened, of ?ops] by (simp only: new)
  then obtain b' where run: "run_requests (run_stake_op MemoryBackend) MemoryBackend_new ?ops =
      ([Ok None, Ok None] @ [Ok (Some 100)], b')"
    by (simp only: prod_eq_iff fst_conv snd_conv)
  show ?thesis
    using withdrawal_waits_for_the_period [OF mem.kv_store_axioms mem_new_opened new run] run by blast
qed

end
