(* ===== verification/Dpos.thy ===== *)
theory Dpos
  imports Staking Validators
begin

section \<open>The key registry and the election of validators\<close>

text \<open>
  \<open>aii-node/src/validator_registry.rs\<close> (the voting keys of each staker), \<open>aii-node/src/dpos.rs\<close> (election
  by stake and the record of each epoch's set) and the conversion of such a record into the validator set of
  the consensus engine (\<open>bft_validator_set_from_entries\<close> of \<open>aii-node/src/lib.rs\<close>).
\<close>

subsection \<open>validator\_registry.rs\<close>

definition REGISTRY_PREFIX :: "byte list" where
  "REGISTRY_PREFIX = ascii ''validator_key:''"

record validator_keys =
  reg_bls :: "384 word"
  reg_vrf :: "256 word"

definition registry_key :: "address \<Rightarrow> byte list" where
  "registry_key a = REGISTRY_PREFIX @ address_bytes a"

definition registry_encode_value :: "validator_keys \<Rightarrow> byte list" where
  "registry_encode_value ks = to_be_bytes 48 (reg_bls ks) @ to_be_bytes 32 (reg_vrf ks)"

definition registry_decode_value :: "byte list \<Rightarrow> validator_keys option" where
  "registry_decode_value bytes =
     (if length bytes \<noteq> 80 then None
      else Some \<lparr>reg_bls = from_be_bytes (slice 0 48 bytes), reg_vrf = from_be_bytes (slice 48 80 bytes)\<rparr>)"

definition registry_register ::
    "'b kv_backend \<Rightarrow> 'b \<Rightarrow> address \<Rightarrow> validator_keys \<Rightarrow> (node_error, unit) result \<times> 'b" where
  "registry_register K b a ks =
     (let (r, b') = kv_put K b Meta (registry_key a) (registry_encode_value ks) in (map_err NodeStorage r, b'))"

definition registry_get ::
    "'b kv_backend \<Rightarrow> 'b \<Rightarrow> address \<Rightarrow> (node_error, validator_keys option) result" where
  "registry_get K b a =
     and_then (map_err NodeStorage (kv_get K b Meta (registry_key a))) (\<lambda>got.
       Ok (case got of None \<Rightarrow> None | Some bytes \<Rightarrow> registry_decode_value bytes))"

subsection \<open>dpos.rs\<close>

definition SET_PREFIX :: "byte list" where
  "SET_PREFIX = ascii ''validator_set:''"

record validator_entry =
  entry_address :: address
  entry_stake :: u256
  entry_bls :: "384 word option"
  entry_vrf :: "256 word option"

text \<open>The comparison of the sort: descending by stake, then ascending by address.\<close>

definition ranks_before :: "stake_record \<Rightarrow> stake_record \<Rightarrow> bool" where
  "ranks_before r s \<longleftrightarrow> amount_wei s < amount_wei r \<or>
     amount_wei r = amount_wei s \<and> address_bytes (staker r) \<le> address_bytes (staker s)"

definition candidates :: "u256 \<Rightarrow> stake_record list \<Rightarrow> stake_record list" where
  "candidates min_stake rs =
     sort_by ranks_before (filter (\<lambda>r. is_bonded r \<and> min_stake \<le> amount_wei r) rs)"

definition elect_active_set ::
    "'b kv_backend \<Rightarrow> 'b \<Rightarrow> u256 \<Rightarrow> u32 \<Rightarrow> (node_error, validator_entry list) result" where
  "elect_active_set K b min_stake validators_per_epoch =
     and_then (stake_list_all K b) (\<lambda>rs.
       Ok (map (\<lambda>r. \<lparr>entry_address = staker r, entry_stake = amount_wei r, entry_bls = None, entry_vrf = None\<rparr>)
         (take (unat validators_per_epoch) (candidates min_stake rs))))"

primrec elect_registered_loop ::
    "'b kv_backend \<Rightarrow> 'b \<Rightarrow> nat \<Rightarrow> validator_entry list \<Rightarrow> stake_record list
      \<Rightarrow> (node_error, validator_entry list) result" where
  "elect_registered_loop K b cap out [] = Ok out"
| "elect_registered_loop K b cap out (r # rs) =
     (if cap \<le> length out then Ok out
      else and_then (registry_get K b (staker r)) (\<lambda>got.
        case got of
          None \<Rightarrow> elect_registered_loop K b cap out rs
        | Some ks \<Rightarrow> elect_registered_loop K b cap
            (out @ [\<lparr>entry_address = staker r, entry_stake = amount_wei r,
                     entry_bls = Some (reg_bls ks), entry_vrf = Some (reg_vrf ks)\<rparr>]) rs))"

definition elect_registered_active_set ::
    "'b kv_backend \<Rightarrow> 'b \<Rightarrow> u256 \<Rightarrow> u32 \<Rightarrow> (node_error, validator_entry list) result" where
  "elect_registered_active_set K b min_stake validators_per_epoch =
     and_then (stake_list_all K b) (\<lambda>rs.
       elect_registered_loop K b (unat validators_per_epoch) [] (candidates min_stake rs))"

definition set_key :: "u64 \<Rightarrow> byte list" where
  "set_key epoch = SET_PREFIX @ to_be_bytes 8 epoch"

definition entry_keyed :: "validator_entry \<Rightarrow> bool" where
  "entry_keyed v \<longleftrightarrow> entry_bls v \<noteq> None \<and> entry_vrf v \<noteq> None"

definition encode_entry :: "bool \<Rightarrow> validator_entry \<Rightarrow> byte list" where
  "encode_entry has_keys v =
     address_bytes (entry_address v) @ to_be_bytes 32 (entry_stake v) @
     (if has_keys then to_be_bytes 48 (the (entry_bls v)) @ to_be_bytes 32 (the (entry_vrf v)) else [])"

definition encode_validator_set :: "validator_entry list \<Rightarrow> byte list" where
  "encode_validator_set vs =
     (let has_keys = list_all entry_keyed vs;
          count = (if length vs < 2 ^ 32 then word_of_nat (length vs) else max_word_val) :: u32
      in to_be_bytes 4 count @ concat (map (encode_entry has_keys) vs))"

definition persist_validator_set ::
    "'b kv_backend \<Rightarrow> 'b \<Rightarrow> u64 \<Rightarrow> validator_entry list \<Rightarrow> (node_error, unit) result \<times> 'b" where
  "persist_validator_set K b epoch vs =
     (let (r, b') = kv_put K b Meta (set_key epoch) (encode_validator_set vs) in (map_err NodeStorage r, b'))"

definition decode_entry :: "bool \<Rightarrow> byte list \<Rightarrow> nat \<Rightarrow> validator_entry" where
  "decode_entry has_keys bdy off =
     \<lparr>entry_address = from_be_bytes (slice off (off + 20) bdy),
      entry_stake = from_be_bytes (slice (off + 20) (off + 52) bdy),
      entry_bls = (if has_keys then Some (from_be_bytes (slice (off + 52) (off + 100) bdy)) else None),
      entry_vrf = (if has_keys then Some (from_be_bytes (slice (off + 100) (off + 132) bdy)) else None)\<rparr>"

definition decode_validator_set :: "byte list \<Rightarrow> validator_entry list option" where
  "decode_validator_set bytes =
     (if length bytes < 4 then None
      else let count = unat (from_be_bytes (slice 0 4 bytes) :: u32);
               bdy = drop 4 bytes;
               legacy_len = count * (20 + 32);
               keyed_len = count * (20 + 32 + 48 + 32)
           in if length bdy \<noteq> legacy_len \<and> length bdy \<noteq> keyed_len then None
              else let has_keys = (length bdy = keyed_len);
                       entry_len = (if has_keys then 20 + 32 + 48 + 32 else 20 + 32)
                   in Some (map (\<lambda>i. decode_entry has_keys bdy (i * entry_len)) [0..<count]))"

definition read_validator_set ::
    "'b kv_backend \<Rightarrow> 'b \<Rightarrow> u64 \<Rightarrow> (node_error, validator_entry list option) result" where
  "read_validator_set K b epoch =
     and_then (map_err NodeStorage (kv_get K b Meta (set_key epoch))) (\<lambda>got.
       Ok (case got of None \<Rightarrow> None | Some bytes \<Rightarrow> decode_validator_set bytes))"

primrec latest_epoch :: "u64 option \<Rightarrow> kv_item list \<Rightarrow> (node_error, u64 option) result" where
  "latest_epoch best [] = Ok best"
| "latest_epoch best (item # items) =
     and_then (map_err NodeStorage item) (\<lambda>(k, _).
       let suffix = drop (length SET_PREFIX) k; epoch = from_be_bytes suffix in
       if length suffix \<noteq> 8 then latest_epoch best items
       else latest_epoch (if (case best of None \<Rightarrow> True | Some c \<Rightarrow> c < epoch) then Some epoch else best) items)"

definition latest_validator_set ::
    "'b kv_backend \<Rightarrow> 'b \<Rightarrow> (node_error, (u64 \<times> validator_entry list) option) result" where
  "latest_validator_set K b =
     and_then (latest_epoch None (kv_iter_prefix K b Meta SET_PREFIX)) (\<lambda>best.
       case best of
         None \<Rightarrow> Ok None
       | Some epoch \<Rightarrow>
           and_then (read_validator_set K b epoch) (\<lambda>got.
             Ok (Some (epoch, case got of None \<Rightarrow> [] | Some vs \<Rightarrow> vs))))"

subsection \<open>The validator set of an epoch (lib.rs)\<close>

definition BFT_STAKE_WEIGHT_UNIT_WEI :: u256 where
  "BFT_STAKE_WEIGHT_UNIT_WEI = 1000000000000000000"

definition bft_stake_weight_from_wei :: "u256 \<Rightarrow> (bft_error, u64) result" where
  "bft_stake_weight_from_wei stake_wei =
     (let w = stake_wei div BFT_STAKE_WEIGHT_UNIT_WEI; w' = (if w = 0 then 1 else w)
      in if unat w' < 2 ^ 64 then Ok (word_of_nat (unat w')) else Err TotalStakeOverflow)"

primrec bft_validators_of :: "crypto \<Rightarrow> nat \<Rightarrow> validator_entry list \<Rightarrow> (bft_error, validator list) result" where
  "bft_validators_of C i [] = Ok []"
| "bft_validators_of C i (e # es) =
     (case entry_bls e of
        None \<Rightarrow> Err (InvalidValidatorPubkey i ''bls'')
      | Some bls \<Rightarrow>
     (case entry_vrf e of
        None \<Rightarrow> Err (InvalidValidatorPubkey i ''vrf'')
      | Some vrf \<Rightarrow>
          and_then (map_err (\<lambda>_. InvalidValidatorPubkey i ''bls'') (bls_pk_from_compressed C bls)) (\<lambda>bpk.
          and_then (map_err (\<lambda>_. InvalidValidatorPubkey i ''vrf'') (vrf_pk_from_bytes C vrf)) (\<lambda>vpk.
          and_then (bft_stake_weight_from_wei (entry_stake e)) (\<lambda>w.
          and_then (bft_validators_of C (Suc i) es) (\<lambda>vs.
            Ok (\<lparr>bls_pubkey = bpk, vrf_pubkey = vpk, stake = w\<rparr> # vs)))))))"

definition bft_validator_set_from_entries ::
    "crypto \<Rightarrow> validator_entry list \<Rightarrow> (bft_error, validator_set) result" where
  "bft_validator_set_from_entries C es = and_then (bft_validators_of C 0 es) ValidatorSet_new"

primrec position_from :: "nat \<Rightarrow> ('a \<Rightarrow> bool) \<Rightarrow> 'a list \<Rightarrow> nat option" where
  "position_from i P [] = None"
| "position_from i P (x # xs) = (if P x then Some i else position_from (Suc i) P xs)"

definition bft_my_index_from_entries :: "validator_entry list \<Rightarrow> 384 word \<Rightarrow> u32 option" where
  "bft_my_index_from_entries es local_key =
     (case position_from 0 (\<lambda>e. entry_bls e = Some local_key) es of
        None \<Rightarrow> None
      | Some i \<Rightarrow> if i < 2 ^ 32 then Some (word_of_nat i) else None)"

subsection \<open>The registry\<close>

definition registered :: "contents \<Rightarrow> address \<rightharpoonup> validator_keys" where
  "registered m a = Option.bind (m Meta (registry_key a)) registry_decode_value"

lemma registry_decode_encode [simp]: "registry_decode_value (registry_encode_value ks) = Some ks"
  by (simp add: registry_decode_value_def registry_encode_value_def slice_def)

lemma registry_key_inject [simp]: "registry_key a = registry_key a' \<longleftrightarrow> a = a'"
  by (simp add: registry_key_def to_be_bytes_inject)

text \<open>The areas of the tables are disjoint: their prefixes differ.\<close>

lemma prefixes_differ [simp]:
  "\<not> starts_with STAKE_PREFIX (registry_key a)" "\<not> starts_with STAKE_PREFIX (set_key e)"
  "registry_key a \<noteq> set_key e" "set_key e \<noteq> registry_key a" "stake_key a \<noteq> registry_key c"
  "registry_key c \<noteq> stake_key a" "stake_key a \<noteq> set_key e" "set_key e \<noteq> stake_key a"
  by (simp_all add: STAKE_PREFIX_def registry_key_def set_key_def stake_key_def REGISTRY_PREFIX_def SET_PREFIX_def
      ascii_def)

context kv_store
begin

lemma registry_get_spec: "opened b \<Longrightarrow> registry_get K b a = Ok (registered (contents b) a)"
  by (auto simp: registry_get_def get_spec registered_def split: option.splits)

lemma registry_register_spec:
  assumes "opened b"
  obtains b' where "registry_register K b a ks = (Ok (), b')" "opened b'"
    "contents b' = apply_op (contents b) (OpPut Meta (registry_key a) (registry_encode_value ks))"
    "registered (contents b') = (registered (contents b))(a \<mapsto> ks)" "stakes (contents b') = stakes (contents b)"
proof -
  obtain b' where b': "kv_put K b Meta (registry_key a) (registry_encode_value ks) = (Ok (), b')" "opened b'"
      "contents b' = apply_op (contents b) (OpPut Meta (registry_key a) (registry_encode_value ks))"
    using put_spec [OF assms, of Meta "registry_key a" "registry_encode_value ks"] by blast
  then show ?thesis
    by (intro that [of b']) (auto simp: registry_register_def registered_def stakes_def fun_eq_iff)
qed

end

subsection \<open>The election\<close>

text \<open>
  What an election promises: from a pool of eligible stakes it picks, in descending order of stake and ascending
  order of address among equals, as many as the cap allows, and whoever is left out ranks behind everyone elected.
\<close>

fun outranks :: "address \<times> u256 \<Rightarrow> address \<times> u256 \<Rightarrow> bool" where
  "outranks (a, x) (c, y) \<longleftrightarrow> y < x \<or> x = y \<and> a < c"

definition elects :: "(address \<rightharpoonup> u256) \<Rightarrow> nat \<Rightarrow> (address \<times> u256) list \<Rightarrow> bool" where
  "elects pool cap ws \<longleftrightarrow> length ws \<le> cap \<and> sorted_wrt outranks ws \<and>
     (\<forall>(a, x) \<in> set ws. pool a = Some x) \<and>
     (\<forall>a x. pool a = Some x \<longrightarrow> (a, x) \<notin> set ws \<longrightarrow> length ws = cap \<and> (\<forall>w \<in> set ws. outranks w (a, x)))"

definition eligible :: "ledger \<Rightarrow> u256 \<Rightarrow> address \<rightharpoonup> u256" where
  "eligible l min_stake a =
     (case l a of
        None \<Rightarrow> None
      | Some (x, u) \<Rightarrow> if u = 0 \<and> x \<noteq> 0 \<and> min_stake \<le> x then Some x else None)"

definition seat :: "validator_entry \<Rightarrow> address \<times> u256" where
  "seat v = (entry_address v, entry_stake v)"

lemma elects_take:
  assumes "sorted_wrt outranks ws" and "\<And>a x. (a, x) \<in> set ws \<longleftrightarrow> pool a = Some x"
  shows "elects pool cap (take cap ws)"
proof -
  have "outranks w v" if "w \<in> set (take cap ws)" "v \<in> set ws" "v \<notin> set (take cap ws)" for w v
  proof -
    have "v \<in> set (drop cap ws)" using that(2,3) by (metis Un_iff append_take_drop_id set_append)
    then show ?thesis using take_sorted_before [OF assms(1) that(1)] by blast
  qed
  moreover have "length (take cap ws) = cap" if "v \<in> set ws" "v \<notin> set (take cap ws)" for v
    using that by (cases "cap \<le> length ws") auto
  ultimately show ?thesis
    using assms sorted_wrt_take [OF assms(1)] by (auto simp: elects_def dest: in_set_takeD)
qed

text \<open>The candidates in the order of the sort.\<close>

abbreviation standing :: "stake_record \<Rightarrow> address \<times> u256" where
  "standing r \<equiv> (staker r, amount_wei r)"

lemma ranks_before_total: "ranks_before x y \<or> ranks_before y x"
  using linorder_less_linear [of "amount_wei x" "amount_wei y"]
    linorder_linear [of "address_bytes (staker x)" "address_bytes (staker y)"]
  by (auto simp: ranks_before_def)

lemma ranks_before_trans: "ranks_before x y \<Longrightarrow> ranks_before y z \<Longrightarrow> ranks_before x z"
  using order_less_trans [of "amount_wei z" "amount_wei y" "amount_wei x"]
    order_trans [of "address_bytes (staker x)" "address_bytes (staker y)" "address_bytes (staker z)"]
  by (auto simp: ranks_before_def)

lemma ranks_before_outranks:
  "ranks_before r s \<Longrightarrow> staker r \<noteq> staker s \<Longrightarrow> outranks (standing r) (standing s)"
  using to_be_bytes_less [of 20 "staker r" "staker s"] to_be_bytes_inject [of 20 "staker r" "staker s"]
  by (auto simp: ranks_before_def order_less_le)

lemma sorted_outranks:
  "distinct (map staker cs) \<Longrightarrow> sorted_wrt ranks_before cs \<Longrightarrow> sorted_wrt outranks (map standing cs)"
proof (induction cs)
  case (Cons r cs)
  have "outranks (standing r) (standing s)" if "s \<in> set cs" for s
    using Cons.prems that by (intro ranks_before_outranks) auto
  with Cons show ?case by simp
qed simp

lemma candidates_sorted:
  assumes "distinct (map staker rs)"
  shows "sorted_wrt outranks (map standing (filter P (candidates m rs)))"
proof (rule sorted_outranks)
  have "distinct (map staker (candidates m rs))"
    using assms by (simp add: candidates_def distinct_sort_by distinct_map_filter)
  then show "distinct (map staker (filter P (candidates m rs)))" by (rule distinct_map_filter)
  show "sorted_wrt ranks_before (filter P (candidates m rs))"
    unfolding candidates_def
    by (intro sorted_wrt_filter sorted_sort_by ranks_before_total) (rule ranks_before_trans)
qed

lemma candidates_set:
  assumes "lists_ledger l rs"
  shows "(a, x) \<in> set (map standing (filter (\<lambda>r. P (staker r)) (candidates m rs))) \<longleftrightarrow>
    P a \<and> eligible l m a = Some x"
proof
  assume "(a, x) \<in> set (map standing (filter (\<lambda>r. P (staker r)) (candidates m rs)))"
  then show "P a \<and> eligible l m a = Some x"
    using assms by (auto simp: candidates_def lists_ledger_def is_bonded_def eligible_def)
next
  assume e: "P a \<and> eligible l m a = Some x"
  then have "l a = Some (x, 0)" "x \<noteq> 0" "m \<le> x"
    by (auto simp: eligible_def split: option.splits if_splits)
  then have "\<lparr>staker = a, amount_wei = x, unbond_at = 0\<rparr> \<in> set (filter (\<lambda>r. P (staker r)) (candidates m rs))"
    using assms e by (simp add: candidates_def lists_ledger_def is_bonded_def)
  then show "(a, x) \<in> set (map standing (filter (\<lambda>r. P (staker r)) (candidates m rs)))" by force
qed

lemma lists_ledger_distinct: "lists_ledger l rs \<Longrightarrow> distinct (map staker rs)"
  by (simp add: lists_ledger_def strict_sorted_iff)

definition keyed_entry :: "contents \<Rightarrow> stake_record \<Rightarrow> validator_entry" where
  "keyed_entry m r = \<lparr>entry_address = staker r, entry_stake = amount_wei r,
     entry_bls = Some (reg_bls (the (registered m (staker r)))),
     entry_vrf = Some (reg_vrf (the (registered m (staker r))))\<rparr>"

context kv_store
begin

lemma elect_registered_loop_spec:
  assumes "opened b"
  shows "elect_registered_loop K b cap out rs = Ok (out @ map (keyed_entry (contents b))
    (take (cap - length out) (filter (\<lambda>r. registered (contents b) (staker r) \<noteq> None) rs)))"
proof (induction rs arbitrary: out)
  case (Cons r rs)
  show ?case
  proof (cases "cap \<le> length out")
    case False
    then have "cap - length out = Suc (cap - Suc (length out))" by simp
    then show ?thesis using False Cons
      by (auto simp: registry_get_spec [OF assms] keyed_entry_def split: option.split)
  qed simp
qed simp

lemma elect_registered_spec:
  assumes "opened b"
  obtains es where "elect_registered_active_set K b m n = Ok es"
    "elects (eligible (stakes (contents b)) m |` dom (registered (contents b))) (unat n) (map seat es)"
    "\<And>e. e \<in> set es \<Longrightarrow> \<exists>ks. registered (contents b) (entry_address e) = Some ks \<and>
       entry_bls e = Some (reg_bls ks) \<and> entry_vrf e = Some (reg_vrf ks)"
proof -
  let ?reg = "\<lambda>r. registered (contents b) (staker r) \<noteq> None"
  obtain rs where rs: "stake_list_all K b = Ok rs" "lists_ledger (stakes (contents b)) rs"
    using stake_list_all_spec [OF assms] .
  let ?cs = "filter ?reg (candidates m rs)"
  let ?es = "map (keyed_entry (contents b)) (take (unat n) ?cs)"
  have "map seat ?es = take (unat n) (map standing ?cs)"
    by (simp add: take_map seat_def keyed_entry_def)
  moreover have "elects (eligible (stakes (contents b)) m |` dom (registered (contents b))) (unat n)
      (take (unat n) (map standing ?cs))"
    using candidates_sorted [OF lists_ledger_distinct [OF rs(2)], of ?reg m]
      candidates_set [OF rs(2), of _ _ "\<lambda>a. registered (contents b) a \<noteq> None" m]
    by (intro elects_take) (auto simp: restrict_map_def dom_def)
  ultimately show ?thesis
    by (intro that [of ?es])
      (auto simp: elect_registered_active_set_def rs(1) elect_registered_loop_spec [OF assms] keyed_entry_def
        dest!: in_set_takeD)
qed

lemma elect_active_spec:
  assumes "opened b"
  obtains es where "elect_active_set K b m n = Ok es"
    "elects (eligible (stakes (contents b)) m) (unat n) (map seat es)"
    "\<And>e. e \<in> set es \<Longrightarrow> entry_bls e = None \<and> entry_vrf e = None"
proof -
  obtain rs where rs: "stake_list_all K b = Ok rs" "lists_ledger (stakes (contents b)) rs"
    using stake_list_all_spec [OF assms] .
  have "elects (eligible (stakes (contents b)) m) (unat n) (take (unat n) (map standing (candidates m rs)))"
    using candidates_sorted [OF lists_ledger_distinct [OF rs(2)], of "\<lambda>_. True" m]
      candidates_set [OF rs(2), of _ _ "\<lambda>_. True" m]
    by (intro elects_take) auto
  then show ?thesis
    by (intro that) (auto simp: elect_active_set_def rs(1) seat_def take_map o_def)
qed

end

subsection \<open>The record of an epoch\<close>

text \<open>What a record keeps of a set: everything when each entry has both keys, addresses and stakes otherwise.\<close>

definition recorded :: "validator_entry list \<Rightarrow> validator_entry list" where
  "recorded vs = (if list_all entry_keyed vs then vs else map (\<lambda>v. v\<lparr>entry_bls := None, entry_vrf := None\<rparr>) vs)"

definition entry_len :: "bool \<Rightarrow> nat" where
  "entry_len has_keys = (if has_keys then 132 else 52)"

lemma length_encode_entry [simp]: "length (encode_entry hk v) = entry_len hk"
  by (simp add: encode_entry_def entry_len_def)

lemma length_concat_entries: "length (concat (map (encode_entry hk) vs)) = length vs * entry_len hk"
  by (induction vs) simp_all

lemma drop_concat_entries:
  "i \<le> length vs \<Longrightarrow> drop (i * entry_len hk) (concat (map (encode_entry hk) vs)) =
     concat (map (encode_entry hk) (drop i vs))"
proof (induction vs arbitrary: i)
  case (Cons v vs)
  then show ?case by (cases i) simp_all
qed simp

lemma slice_shift: "slice (off + i) (off + j) xs = slice i j (drop off xs)"
  by (simp add: slice_def drop_take add.commute)

lemma decode_entry_shift: "decode_entry hk bdy off = decode_entry hk (drop off bdy) 0"
  using slice_shift [of off 0 20 bdy] slice_shift [of off 20 52 bdy] slice_shift [of off 52 100 bdy]
    slice_shift [of off 100 132 bdy]
  by (simp add: decode_entry_def)

lemma decode_encode_entry:
  "decode_entry True (encode_entry True v @ rest) 0 =
     v\<lparr>entry_bls := Some (the (entry_bls v)), entry_vrf := Some (the (entry_vrf v))\<rparr>"
  "decode_entry False (encode_entry False v @ rest) 0 = v\<lparr>entry_bls := None, entry_vrf := None\<rparr>"
  by (cases v, simp add: decode_entry_def encode_entry_def slice_def)+

lemma decode_concat_entries:
  assumes "i < length vs" and "hk \<Longrightarrow> list_all entry_keyed vs"
  shows "decode_entry hk (concat (map (encode_entry hk) vs)) (i * entry_len hk) =
    (if hk then vs ! i else (vs ! i)\<lparr>entry_bls := None, entry_vrf := None\<rparr>)"
proof -
  have "drop (i * entry_len hk) (concat (map (encode_entry hk) vs)) =
      encode_entry hk (vs ! i) @ concat (map (encode_entry hk) (drop (Suc i) vs))"
    using assms(1) by (simp add: drop_concat_entries flip: Cons_nth_drop_Suc)
  then have "decode_entry hk (concat (map (encode_entry hk) vs)) (i * entry_len hk) =
      decode_entry hk (encode_entry hk (vs ! i) @ concat (map (encode_entry hk) (drop (Suc i) vs))) 0"
    by (subst decode_entry_shift) simp
  moreover have "hk \<Longrightarrow> entry_keyed (vs ! i)" using assms by (simp add: list_all_length)
  ultimately show ?thesis
    by (cases hk; cases "vs ! i") (auto simp: decode_encode_entry entry_keyed_def)
qed

lemma decode_encode_validator_set:
  assumes "length vs < 2 ^ 32"
  shows "decode_validator_set (encode_validator_set vs) = Some (recorded vs)"
proof -
  define hk where "hk = list_all entry_keyed vs"
  let ?bdy = "concat (map (encode_entry hk) vs)"
  have enc: "encode_validator_set vs = to_be_bytes 4 (word_of_nat (length vs) :: u32) @ ?bdy"
    using assms by (simp add: encode_validator_set_def hk_def)
  have count: "unat (word_of_nat (length vs) :: u32) = length vs"
    using assms by (simp add: unat_of_nat)
  have len: "length ?bdy = length vs * entry_len hk" by (rule length_concat_entries)
  have hk: "(length ?bdy = length vs * 132) = (hk \<or> vs = [])"
    unfolding len by (auto simp: entry_len_def)
  have "hk \<Longrightarrow> list_all entry_keyed vs" by (simp add: hk_def)
  note dec = decode_concat_entries [OF _ this]
  have map: "map (\<lambda>i. decode_entry hk ?bdy (i * entry_len hk)) [0..<length vs] = recorded vs"
    unfolding recorded_def hk_def [symmetric] by (rule nth_equalityI) (simp_all add: dec)
  have "decode_validator_set (encode_validator_set vs) = Some (map (\<lambda>i. decode_entry (hk \<or> vs = []) ?bdy
      (i * (if hk \<or> vs = [] then 132 else 52))) [0..<length vs])"
    using len hk by (simp add: enc decode_validator_set_def slice_def count Let_def entry_len_def split: if_splits)
  also have "\<dots> = Some (recorded vs)"
    using map by (cases "vs = []") (simp_all add: entry_len_def if_distrib)
  finally show ?thesis .
qed

lemma recorded_keyed: "list_all entry_keyed vs \<Longrightarrow> recorded vs = vs"
  by (simp add: recorded_def)

lemma set_key_inject [simp]: "set_key e = set_key e' \<longleftrightarrow> e = e'"
  by (simp add: set_key_def to_be_bytes_inject)

text \<open>The newest record.\<close>

definition epochs :: "contents \<Rightarrow> u64 set" where
  "epochs m = {e. m Meta (set_key e) \<noteq> None}"

definition sets :: "contents \<Rightarrow> u64 \<rightharpoonup> validator_entry list" where
  "sets m e = Option.bind (m Meta (set_key e)) decode_validator_set"

lemma latest_epoch_spec:
  "\<exists>r. latest_epoch best (map Ok m) = Ok r \<and>
     (case r of
        None \<Rightarrow> best = None \<and> entry_indices SET_PREFIX m = {}
      | Some e \<Rightarrow> e \<in> set_option best \<union> entry_indices SET_PREFIX m \<and> (\<forall>e' \<in> set_option best \<union> entry_indices SET_PREFIX m. e' \<le> e))"
proof (induction m arbitrary: best)
  case Nil
  then show ?case by (cases best) (simp_all add: entry_indices_simps)
next
  case (Cons p m)
  obtain k v where p: "p = (k, v)" by (cases p)
  let ?e = "from_be_bytes (drop (length SET_PREFIX) k) :: u64"
  let ?best = "if length k = length SET_PREFIX + 8 then
      (if (case best of None \<Rightarrow> True | Some c \<Rightarrow> c < ?e) then Some ?e else best) else best"
  have step: "latest_epoch best (map Ok (p # m)) = latest_epoch ?best (map Ok m)"
  proof -
    have "length (drop (length SET_PREFIX) k) = 8 \<longleftrightarrow> length k = length SET_PREFIX + 8" by auto
    then show ?thesis by (simp del: length_drop add: p Let_def)
  qed
  obtain r where r: "latest_epoch ?best (map Ok m) = Ok r"
      "case r of None \<Rightarrow> ?best = None \<and> entry_indices SET_PREFIX m = {}
       | Some e \<Rightarrow> e \<in> set_option ?best \<union> entry_indices SET_PREFIX m \<and> (\<forall>e' \<in> set_option ?best \<union> entry_indices SET_PREFIX m. e' \<le> e)"
    using Cons.IH [of ?best] by blast
  have "case r of None \<Rightarrow> best = None \<and> entry_indices SET_PREFIX (p # m) = {}
     | Some e \<Rightarrow> e \<in> set_option best \<union> entry_indices SET_PREFIX (p # m) \<and>
         (\<forall>e' \<in> set_option best \<union> entry_indices SET_PREFIX (p # m). e' \<le> e)"
    using r(2) by (auto simp: p entry_indices_simps split: option.splits if_splits)
  with r(1) show ?case unfolding step by (intro exI [of _ r] conjI)
qed

context kv_store
begin

lemma read_validator_set_spec: "opened b \<Longrightarrow> read_validator_set K b e = Ok (sets (contents b) e)"
  by (auto simp: read_validator_set_def get_spec sets_def split: option.splits)

lemma latest_validator_set_spec:
  assumes "opened b"
  obtains "latest_validator_set K b = Ok None" "epochs (contents b) = {}"
  | e where "latest_validator_set K b = Ok (Some (e, case sets (contents b) e of None \<Rightarrow> [] | Some vs \<Rightarrow> vs))"
      "e \<in> epochs (contents b)" "\<And>e'. e' \<in> epochs (contents b) \<Longrightarrow> e' \<le> e"
proof -
  obtain m where m: "kv_iter_prefix K b Meta SET_PREFIX = map Ok m" "btree_ok m"
      "\<And>k v. (k, v) \<in> set m \<longleftrightarrow> starts_with SET_PREFIX k \<and> contents b Meta k = Some v"
    using scan_spec [OF assms] by blast
  have e: "entry_indices SET_PREFIX m = epochs (contents b)" 
    unfolding epochs_def set_key_def by (rule entry_indices_scan) (rule m(3))
  from latest_epoch_spec [of None m] obtain r where r: "latest_epoch None (map Ok m) = Ok r"
      "case r of None \<Rightarrow> (None :: u64 option) = None \<and> entry_indices SET_PREFIX m = {}
       | Some e \<Rightarrow> e \<in> set_option None \<union> entry_indices SET_PREFIX m \<and> (\<forall>e' \<in> set_option None \<union> entry_indices SET_PREFIX m. e' \<le> e)"
    by (elim exE conjE)
  show ?thesis
  proof (cases r)
    case None
    have "latest_validator_set K b = Ok None" by (simp add: latest_validator_set_def m(1) r(1) None)
    then show ?thesis using that(1) r(2) None e by simp
  next
    case (Some x)
    have "latest_validator_set K b = Ok (Some (x, case sets (contents b) x of None \<Rightarrow> [] | Some vs \<Rightarrow> vs))"
      by (simp add: latest_validator_set_def m(1) r(1) Some read_validator_set_spec [OF assms])
    then show ?thesis using that(2) [of x] r(2) Some e by simp
  qed
qed

lemma latest_is_max:
  assumes "opened b" and "e \<in> epochs (contents b)" and "\<And>e'. e' \<in> epochs (contents b) \<Longrightarrow> e' \<le> e"
    and "sets (contents b) e = Some vs"
  shows "latest_validator_set K b = Ok (Some (e, vs))"
proof (rule latest_validator_set_spec [OF assms(1)])
  assume "epochs (contents b) = {}"
  then show ?thesis using assms(2) by simp
next
  fix x
  assume x: "latest_validator_set K b = Ok (Some (x, case sets (contents b) x of None \<Rightarrow> [] | Some vs \<Rightarrow> vs))"
    "x \<in> epochs (contents b)" "\<And>e'. e' \<in> epochs (contents b) \<Longrightarrow> e' \<le> x"
  have "x = e" using x(3) [OF assms(2)] assms(3) [OF x(2)] by (rule order_antisym [rotated])
  with x(1) assms(4) show ?thesis by simp
qed

lemma persist_validator_set_spec:
  assumes "opened b" and "length vs < 2 ^ 32"
  obtains b' where "persist_validator_set K b e vs = (Ok (), b')" "opened b'"
    "contents b' = apply_op (contents b) (OpPut Meta (set_key e) (encode_validator_set vs))"
    "sets (contents b') = (sets (contents b))(e \<mapsto> recorded vs)"
    "epochs (contents b') = insert e (epochs (contents b))"
    "stakes (contents b') = stakes (contents b)" "registered (contents b') = registered (contents b)"
proof -
  obtain b' where b': "kv_put K b Meta (set_key e) (encode_validator_set vs) = (Ok (), b')" "opened b'"
      "contents b' = apply_op (contents b) (OpPut Meta (set_key e) (encode_validator_set vs))"
    using put_spec [OF assms(1), of Meta "set_key e" "encode_validator_set vs"] by blast
  then show ?thesis
    using decode_encode_validator_set [OF assms(2)]
    by (intro that [of b'])
      (auto simp: persist_validator_set_def registered_def stakes_def sets_def epochs_def fun_eq_iff)
qed

end

subsection \<open>The weights of the consensus engine\<close>

lemma stake_weight_spec:
  "bft_stake_weight_from_wei x = (let w = max 1 (unat x div 10 ^ 18) in
     if w < 2 ^ 64 then Ok (word_of_nat w) else Err TotalStakeOverflow)"
proof -
  let ?w = "x div BFT_STAKE_WEIGHT_UNIT_WEI"
  have "unat ?w = unat x div 10 ^ 18"
    by (simp add: BFT_STAKE_WEIGHT_UNIT_WEI_def unat_div)
  then have "unat (if ?w = 0 then 1 else ?w) = max 1 (unat x div 10 ^ 18)"
    by (cases "?w = 0") (simp_all add: unat_gt_0 max_def flip: unat_eq_zero)
  then show ?thesis by (simp only: bft_stake_weight_from_wei_def Let_def)
qed

text \<open>The validator that an entry of the record becomes.\<close>

definition seats_as :: "crypto \<Rightarrow> validator_entry \<Rightarrow> validator \<Rightarrow> bool" where
  "seats_as C e v \<longleftrightarrow>
     (\<exists>k. entry_bls e = Some k \<and> bls_pk_from_compressed C k = Ok (bls_pubkey v)) \<and>
     (\<exists>k. entry_vrf e = Some k \<and> vrf_pk_from_bytes C k = Ok (vrf_pubkey v)) \<and>
     unat (stake v) = max 1 (unat (entry_stake e) div 10 ^ 18)"

lemma stake_weight_unat:
  "bft_stake_weight_from_wei x = Ok w \<Longrightarrow> unat w = max 1 (unat x div 10 ^ 18)"
  by (auto simp: stake_weight_spec Let_def unat_of_nat split: if_splits)

lemma bft_validators_of_sound:
  "bft_validators_of C i es = Ok vs \<Longrightarrow> list_all2 (seats_as C) es vs"
proof (induction es arbitrary: i vs)
  case (Cons e es)
  then obtain bls vrf bpk vpk w ws where e: "entry_bls e = Some bls" "entry_vrf e = Some vrf"
      "bls_pk_from_compressed C bls = Ok bpk" "vrf_pk_from_bytes C vrf = Ok vpk"
      "bft_stake_weight_from_wei (entry_stake e) = Ok w"
    and ws: "bft_validators_of C (Suc i) es = Ok ws"
      "vs = \<lparr>bls_pubkey = bpk, vrf_pubkey = vpk, stake = w\<rparr> # ws"
    by (auto simp: and_then_Ok map_err_Ok split: option.splits)
  have "seats_as C e \<lparr>bls_pubkey = bpk, vrf_pubkey = vpk, stake = w\<rparr>"
    unfolding seats_as_def using e(1-4) stake_weight_unat [OF e(5)]
    by (simp only: validator.select_convs) blast
  with Cons.IH [OF ws(1)] ws(2) show ?case by simp
qed simp

lemma bft_validators_of_complete:
  "list_all2 (seats_as C) es vs \<Longrightarrow> bft_validators_of C i es = Ok vs"
proof (induction es vs arbitrary: i rule: list_all2_induct)
  case (Cons e es v vs)
  let ?w = "max 1 (unat (entry_stake e) div 10 ^ 18)"
  have w: "unat (stake v) = ?w" using Cons.hyps(1) by (simp only: seats_as_def)
  have "?w < 2 ^ 64" using unat_less_pow [of "stake v"] unfolding w by simp
  moreover have "word_of_nat ?w = stake v" unfolding w [symmetric] by simp
  ultimately have "bft_stake_weight_from_wei (entry_stake e) = Ok (stake v)"
    by (simp only: stake_weight_spec Let_def if_True)
  with Cons show ?case by (cases v) (auto simp: seats_as_def)
qed simp

lemma position_from_spec:
  "position_from n P xs = Some i \<Longrightarrow> n \<le> i \<and> i - n < length xs \<and> P (xs ! (i - n)) \<and> (\<forall>j < i - n. \<not> P (xs ! j))"
proof (induction xs arbitrary: n)
  case (Cons x xs)
  show ?case
  proof (cases "P x")
    case False
    with Cons.prems have "position_from (Suc n) P xs = Some i" by simp
    from Cons.IH [OF this] have *: "i - n = Suc (i - Suc n)" "n \<le> i" "i - Suc n < length xs" "P (xs ! (i - Suc n))"
        "\<forall>j < i - Suc n. \<not> P (xs ! j)" by auto
    from * False show ?thesis by (auto simp: less_Suc_eq_0_disj)
  qed (use Cons.prems in simp)
qed simp

subsection \<open>An election is a function of the stakes\<close>

lemma outranks_asym: "outranks w v \<Longrightarrow> \<not> outranks v w"
  by (cases w; cases v) auto

lemma sorted_asym_unique:
  assumes asym: "\<And>x y. R x y \<Longrightarrow> \<not> R y x"
  shows "sorted_wrt R xs \<Longrightarrow> sorted_wrt R ys \<Longrightarrow> set xs = set ys \<Longrightarrow> xs = ys"
proof (induction xs arbitrary: ys)
  case (Cons x xs)
  then obtain y ys' where ys: "ys = y # ys'" by (cases ys) auto
  have irrefl: "\<not> R z z" for z using asym by blast
  have "x = y"
  proof (rule ccontr)
    assume "x \<noteq> y"
    then have "R x y" "R y x" using Cons.prems ys by auto
    then show False using asym by blast
  qed
  moreover have "x \<notin> set xs" "y \<notin> set ys'" using Cons.prems irrefl by (auto simp: ys)
  ultimately show ?case using Cons.IH [of ys'] Cons.prems by (auto simp: ys insert_ident)
qed simp

lemma elects_subset:
  assumes "elects pool cap ws" and "elects pool cap vs"
  shows "set ws \<subseteq> set vs"
proof (rule ccontr)
  assume "\<not> set ws \<subseteq> set vs"
  then obtain w where w: "w \<in> set ws" "w \<notin> set vs" by blast
  then have pool_w: "pool (fst w) = Some (snd w)" using assms(1) by (auto simp: elects_def)
  have vs: "length vs = cap" "\<forall>v \<in> set vs. outranks v w"
    using assms(2) pool_w w(2) by (auto simp: elects_def split_beta)
      (metis prod.collapse)+
  have distinct: "distinct us" if "elects pool cap us" for us
  proof -
    have "sorted_wrt outranks us" using that by (simp add: elects_def)
    then show ?thesis by (induction us) (use outranks_asym in auto)
  qed
  have "\<not> set vs \<subseteq> set ws"
  proof
    assume "set vs \<subseteq> set ws"
    with w have "set vs \<subset> set ws" by blast
    then have "card (set vs) < card (set ws)" by (intro psubset_card_mono) auto
    then show False
      using vs(1) distinct [OF assms(1)] distinct [OF assms(2)] assms(1) by (simp add: distinct_card elects_def)
  qed
  then obtain v where v: "v \<in> set vs" "v \<notin> set ws" by blast
  then have "pool (fst v) = Some (snd v)" using assms(2) by (auto simp: elects_def)
  then have "outranks w v" using assms(1) v(2) w(1) by (auto simp: elects_def) (metis prod.collapse)+
  then show False using vs(2) v(1) outranks_asym by blast
qed

lemma elects_unique:
  assumes "elects pool cap ws" and "elects pool cap vs"
  shows "ws = vs"
proof (rule sorted_asym_unique [of outranks])
  show "set ws = set vs" using elects_subset [OF assms] elects_subset [OF assms(2,1)] by blast
qed (use assms in \<open>simp_all add: elects_def outranks_asym\<close>)

subsection \<open>Properties\<close>

text \<open>
  (C6) The election of an epoch is determined by the stakes and the registered keys: among the bonded stakers
  with registered keys and at least the minimal stake, the elected are the first of the order by descending
  stake and ascending address, as many as the cap allows, each with the keys registered for the address; no
  other choice satisfies this. Nobody left out ranks before anybody elected.
\<close>

theorem election_is_by_stake:
  assumes K: "kv_store K opened contents" and b: "opened b"
    and pool: "pool = eligible (stakes (contents b)) min_stake |` dom (registered (contents b))"
  shows "\<exists>es. elect_registered_active_set K b min_stake n = Ok es \<and>
    elects pool (unat n) (map seat es) \<and> (\<forall>ws. elects pool (unat n) ws \<longrightarrow> ws = map seat es) \<and>
    list_all (\<lambda>e. \<exists>ks. registered (contents b) (entry_address e) = Some ks \<and>
      entry_bls e = Some (reg_bls ks) \<and> entry_vrf e = Some (reg_vrf ks)) es"
proof -
  obtain es where "elect_registered_active_set K b min_stake n = Ok es" "elects pool (unat n) (map seat es)"
      "\<And>e. e \<in> set es \<Longrightarrow> \<exists>ks. registered (contents b) (entry_address e) = Some ks \<and>
        entry_bls e = Some (reg_bls ks) \<and> entry_vrf e = Some (reg_vrf ks)"
    using kv_store.elect_registered_spec [OF K b, of min_stake n] unfolding pool by blast
  moreover from this(2) have "ws = map seat es" if "elects pool (unat n) ws" for ws
    using that by (rule elects_unique [rotated])
  ultimately show ?thesis unfolding list_all_iff by blast
qed

text \<open>A table with two registered stakers, one staker without keys and one below the minimum.\<close>

definition demo_stakes :: "stake_op list" where
  "demo_stakes = [Bond 1 500, Bond 2 900, Bond 3 700, Bond 4 10]"

definition demo_keys :: "nat \<Rightarrow> validator_keys" where
  "demo_keys i = \<lparr>reg_bls = word_of_nat i, reg_vrf = word_of_nat i\<rparr>"

definition demo_table :: store where
  "demo_table =
     (let b = snd (run_requests (run_stake_op MemoryBackend) MemoryBackend_new demo_stakes);
          b = snd (registry_register MemoryBackend b 1 (demo_keys 1));
          b = snd (registry_register MemoryBackend b 2 (demo_keys 2))
      in snd (registry_register MemoryBackend b 4 (demo_keys 4)))"

lemma registered_run:
  assumes "mem_opened b"
  shows "registered (mem_contents (snd (run_requests (run_stake_op MemoryBackend) b ops))) =
    registered (mem_contents b)"
proof
  fix a
  have "\<not> stake_area Meta (registry_key a)" by (simp add: stake_area_def)
  then have "mem_contents (snd (run_requests (run_stake_op MemoryBackend) b ops)) Meta (registry_key a) =
      mem_contents b Meta (registry_key a)"
    using mem.run_stake_ops_refine [OF assms, of ops] by blast
  then show "registered (mem_contents (snd (run_requests (run_stake_op MemoryBackend) b ops))) a =
      registered (mem_contents b) a"
    by (simp only: registered_def)
qed

lemma register_step:
  assumes "mem_opened b"
  shows "mem_opened (snd (registry_register MemoryBackend b a ks))"
    "registered (mem_contents (snd (registry_register MemoryBackend b a ks))) =
      (registered (mem_contents b))(a \<mapsto> ks)"
    "stakes (mem_contents (snd (registry_register MemoryBackend b a ks))) = stakes (mem_contents b)"
proof -
  obtain b' where "registry_register MemoryBackend b a ks = (Ok (), b')" "mem_opened b'"
      "registered (mem_contents b') = (registered (mem_contents b))(a \<mapsto> ks)"
      "stakes (mem_contents b') = stakes (mem_contents b)"
    using mem.registry_register_spec [OF assms] by blast
  then show "mem_opened (snd (registry_register MemoryBackend b a ks))"
    "registered (mem_contents (snd (registry_register MemoryBackend b a ks))) =
      (registered (mem_contents b))(a \<mapsto> ks)"
    "stakes (mem_contents (snd (registry_register MemoryBackend b a ks))) = stakes (mem_contents b)"
    by (simp_all only: snd_conv)
qed

lemma demo_table_facts:
  "mem_opened demo_table"
  "stakes (mem_contents demo_table) = [1 \<mapsto> (500, 0), 2 \<mapsto> (900, 0), 3 \<mapsto> (700, 0), 4 \<mapsto> (10, 0)]"
  "registered (mem_contents demo_table) = [1 \<mapsto> demo_keys 1, 2 \<mapsto> demo_keys 2, 4 \<mapsto> demo_keys 4]"
proof -
  let ?b = "snd (run_requests (run_stake_op MemoryBackend) MemoryBackend_new demo_stakes)"
  have new: "stakes (mem_contents MemoryBackend_new) = Map.empty"
      "registered (mem_contents MemoryBackend_new) = Map.empty"
    by (simp_all add: mem_new_contents stakes_def registered_def fun_eq_iff)
  have ledger: "snd (run_requests ledger_op Map.empty demo_stakes) =
      [1 \<mapsto> (500, 0), 2 \<mapsto> (900, 0), 3 \<mapsto> (700, 0), 4 \<mapsto> (10, 0)]"
    by (simp add: demo_stakes_def saturating_add_def)
  have b: "mem_opened ?b"
      "stakes (mem_contents ?b) = [1 \<mapsto> (500, 0), 2 \<mapsto> (900, 0), 3 \<mapsto> (700, 0), 4 \<mapsto> (10, 0)]"
      "registered (mem_contents ?b) = Map.empty"
    using mem.run_stake_ops_refine [OF mem_new_opened, of demo_stakes, unfolded new ledger]
      registered_run [OF mem_new_opened, of demo_stakes] new(2) by (blast, blast, simp only:)
  show "mem_opened demo_table"
    "stakes (mem_contents demo_table) = [1 \<mapsto> (500, 0), 2 \<mapsto> (900, 0), 3 \<mapsto> (700, 0), 4 \<mapsto> (10, 0)]"
    "registered (mem_contents demo_table) = [1 \<mapsto> demo_keys 1, 2 \<mapsto> demo_keys 2, 4 \<mapsto> demo_keys 4]"
    unfolding demo_table_def Let_def by (simp_all only: register_step b)
qed

lemma demo_pool:
  "(eligible (stakes (mem_contents demo_table)) 100 |` dom (registered (mem_contents demo_table))) =
     [1 \<mapsto> 500, 2 \<mapsto> 900]"
  unfolding demo_table_facts by (rule ext) (simp add: eligible_def restrict_map_def)

theorem election_is_by_stake_witness:
  "\<exists>es. elect_registered_active_set MemoryBackend demo_table 100 1 = Ok es \<and> map seat es = [(2, 900)]"
proof -
  have seats: "elects [1 \<mapsto> 500, 2 \<mapsto> 900] (unat (1 :: u32)) [(2, 900)]"
    by (simp add: elects_def)
  note spec = election_is_by_stake [where b = demo_table and n = 1,
    OF mem.kv_store_axioms demo_table_facts(1) demo_pool [symmetric]]
  from spec obtain es where es: "elect_registered_active_set MemoryBackend demo_table 100 1 = Ok es"
      and unique: "\<forall>ws. elects [1 \<mapsto> 500, 2 \<mapsto> 900] (unat (1 :: u32)) ws \<longrightarrow> ws = map seat es"
    by (elim exE conjE)
  have "map seat es = [(2, 900)]" using unique [rule_format, OF seats] by (rule sym)
  with es show ?thesis by (intro exI [of _ es] conjI)
qed

text \<open>
  The record of an epoch reads back as it was written: the addresses and stakes in order, with the keys
  when every entry has both and without any keys otherwise; records of other epochs, the stakes and the registry
  do not change, and the newest record is the one of the largest epoch.
\<close>

theorem validator_set_round_trip:
  assumes K: "kv_store K opened contents" and b: "opened b" and "length vs < 2 ^ 32"
  shows "\<exists>b'. persist_validator_set K b e vs = (Ok (), b') \<and>
    read_validator_set K b' e = Ok (Some (recorded vs)) \<and>
    (\<forall>e'. e' \<noteq> e \<longrightarrow> read_validator_set K b' e' = read_validator_set K b e') \<and>
    ((\<forall>e' \<in> epochs (contents b). e' \<le> e) \<longrightarrow> latest_validator_set K b' = Ok (Some (e, recorded vs))) \<and>
    stakes (contents b') = stakes (contents b) \<and> registered (contents b') = registered (contents b)"
proof -
  obtain b' where b': "persist_validator_set K b e vs = (Ok (), b')" "opened b'"
      "contents b' = apply_op (contents b) (OpPut Meta (set_key e) (encode_validator_set vs))"
      "sets (contents b') = (sets (contents b))(e \<mapsto> recorded vs)"
      "epochs (contents b') = insert e (epochs (contents b))"
      "stakes (contents b') = stakes (contents b)" "registered (contents b') = registered (contents b)"
    using kv_store.persist_validator_set_spec [OF K b assms(3)] by blast
  have "latest_validator_set K b' = Ok (Some (e, recorded vs))" if "\<forall>e' \<in> epochs (contents b). e' \<le> e"
    using that b'(4,5) by (intro kv_store.latest_is_max [OF K b'(2)]) auto
  with b' show ?thesis
    by (auto simp: kv_store.read_validator_set_spec [OF K b'(2)] kv_store.read_validator_set_spec [OF K b])
qed

theorem validator_set_round_trip_witness:
  "\<exists>b'. persist_validator_set MemoryBackend MemoryBackend_new 3
      [\<lparr>entry_address = 7, entry_stake = 900, entry_bls = Some 5, entry_vrf = Some 6\<rparr>] = (Ok (), b') \<and>
    latest_validator_set MemoryBackend b' = Ok (Some (3,
      [\<lparr>entry_address = 7, entry_stake = 900, entry_bls = Some 5, entry_vrf = Some 6\<rparr>]))"
proof -
  let ?vs = "[\<lparr>entry_address = 7, entry_stake = 900, entry_bls = Some 5, entry_vrf = Some 6\<rparr>]"
  have "\<forall>e' \<in> epochs (mem_contents MemoryBackend_new). e' \<le> 3"
    by (simp add: epochs_def mem_new_contents)
  moreover have "recorded ?vs = ?vs" by (simp add: recorded_def entry_keyed_def)
  moreover have "length ?vs < 2 ^ 32" by simp
  note trip = validator_set_round_trip [where b = MemoryBackend_new and e = 3, OF mem.kv_store_axioms mem_new_opened this]
  ultimately show ?thesis using trip by auto
qed

end
