(* ===== verification/Rotation.thy ===== *)
theory Rotation
  imports Dpos EngineProps
begin

section \<open>Rotation of the engine to the elected set\<close>

text \<open>
  \<open>rotate_bft_engine_to_latest_dpos\<close> of \<open>aii-node/src/lib.rs\<close>: a node that starts takes the newest epoch record
  from storage, finds its own key in it and hands the set to the consensus engine. The theory joins the
  election of \<open>Dpos\<close> with the engine of \<open>BftEngine\<close>.
\<close>

datatype bft_dpos_rotation = NoActiveSet | LocalKeyMissing u64 nat | Rotated u64 nat u32

datatype rotation_error = RotationStorage node_error | RotationBft bft_error

definition rotate_bft_engine_to_latest_dpos ::
    "crypto \<Rightarrow> 'b kv_backend \<Rightarrow> 'b \<Rightarrow> bft_engine \<Rightarrow> (rotation_error, bft_dpos_rotation) result \<times> bft_engine" where
  "rotate_bft_engine_to_latest_dpos C K b e =
     (case latest_validator_set K b of
        Err x \<Rightarrow> (Err (RotationStorage x), e)
      | Panic \<Rightarrow> (Panic, e)
      | Ok None \<Rightarrow> (Ok NoActiveSet, e)
      | Ok (Some (epoch, entries)) \<Rightarrow>
          (case bft_my_index_from_entries entries (my_bls_pubkey C e) of
             None \<Rightarrow> (Ok (LocalKeyMissing epoch (length entries)), e)
           | Some idx \<Rightarrow>
               (case bft_validator_set_from_entries C entries of
                  Err x \<Rightarrow> (Err (RotationBft x), e)
                | Panic \<Rightarrow> (Panic, e)
                | Ok vs \<Rightarrow>
                    let (r, e') = rotate_validator_set e vs idx
                    in (and_then (map_err RotationBft r) (\<lambda>_. Ok (Rotated epoch (vs_size vs) idx)), e'))))"

lemma from_entries_sound:
  assumes "bft_validator_set_from_entries C es = Ok vs"
  shows "vs_wf vs" and "list_all2 (seats_as C) es (validators vs)"
proof -
  obtain ws where ws: "bft_validators_of C 0 es = Ok ws" "ValidatorSet_new ws = Ok vs"
    using assms by (auto simp: bft_validator_set_from_entries_def and_then_Ok)
  then show "vs_wf vs" "list_all2 (seats_as C) es (validators vs)"
    using ValidatorSet_new_wf [OF ws(2)] bft_validators_of_sound [OF ws(1)] by simp_all
qed

lemma my_index_sound:
  assumes "bft_my_index_from_entries es k = Some i"
  shows "unat i < length es" and "entry_bls (es ! unat i) = Some k"
proof -
  obtain n where n: "position_from 0 (\<lambda>e. entry_bls e = Some k) es = Some n" "n < 2 ^ 32" "i = word_of_nat n"
    using assms by (auto simp: bft_my_index_from_entries_def split: option.splits if_splits)
  have "unat i = n" using n(2,3) by (simp add: unat_of_nat)
  then show "unat i < length es" "entry_bls (es ! unat i) = Some k"
    using position_from_spec [OF n(1)] by simp_all
qed

lemma own_key_at_index:
  assumes C: "bls_canonical C" "pk_point C pk" and es: "list_all2 (seats_as C) es ws"
    and i: "bft_my_index_from_entries es (bls_pk_to_compressed C pk) = Some i"
  shows "unat i < length ws" and "bls_pubkey (ws ! unat i) = pk"
proof -
  show l: "unat i < length ws" using my_index_sound(1) [OF i] list_all2_lengthD [OF es] by simp
  have "seats_as C (es ! unat i) (ws ! unat i)"
    using es my_index_sound(1) [OF i] by (simp add: list_all2_conv_all_nth)
  then have "bls_pk_from_compressed C (bls_pk_to_compressed C pk) = Ok (bls_pubkey (ws ! unat i))"
    using my_index_sound(2) [OF i] by (auto simp: seats_as_def)
  moreover have "bls_pk_from_compressed C (bls_pk_to_compressed C pk) = Ok pk"
    using C by simp
  ultimately show "bls_pubkey (ws ! unat i) = pk" by simp
qed

lemma rotate_accepted:
  assumes "rotate_validator_set e vs i = (Ok (), e')"
  shows "active_set e' = vs \<and> my_index e' = i \<and> head e' = head e \<and> engine_seed e' = engine_seed e \<and>
    coordinator e' = None \<and> proposal e' = None \<and> config e' = config e"
  using assms by (cases "proposal e") (auto simp: rotate_validator_set_def head_def split: if_splits)

lemma rotate_rejected: "fst (rotate_validator_set e vs i) \<noteq> Ok () \<Longrightarrow> snd (rotate_validator_set e vs i) = e"
  by (auto simp: rotate_validator_set_def)

text \<open>
  (C9) A node rotates to exactly what was elected: when the rotation is accepted, the engine's validators are,
  in order, the entries of the record of the largest epoch in storage, weighted by whole tokens of stake and at
  least one, and the engine's own index holds the engine's own voting key; the head and the seed do not move. When
  it is not accepted, the engine does not change. Of the BLS library it is used that an encoding which decompresses is the
  compressed form of its result, and that public keys of secret keys do decompress.
\<close>

theorem rotation_installs_the_newest_record:
  assumes K: "kv_store K opened contents" and b: "opened b" and C: "bls_canonical C" "bls_checks_points C"
    and run: "rotate_bft_engine_to_latest_dpos C K b e = (r, e')"
  shows "(case r of
      Ok (Rotated epoch n i) \<Rightarrow>
        epoch \<in> epochs (contents b) \<and> (\<forall>x \<in> epochs (contents b). x \<le> epoch) \<and>
        (\<exists>es. sets (contents b) epoch = Some es \<and> list_all2 (seats_as C) es (validators (active_set e'))) \<and>
        vs_wf (active_set e') \<and> n = vs_size (active_set e') \<and> i = my_index e' \<and> unat i < n \<and>
        bls_pubkey (validators (active_set e') ! unat i) = bls_public_key_of C (my_bls_sk (config e)) \<and>
        head e' = head e \<and> engine_seed e' = engine_seed e
    | _ \<Rightarrow> e' = e)"
proof (rule kv_store.latest_validator_set_spec [OF K b])
  assume "latest_validator_set K b = Ok None"
  then show ?thesis using run by (auto simp: rotate_bft_engine_to_latest_dpos_def)
next
  fix x
  let ?es = "case sets (contents b) x of None \<Rightarrow> [] | Some vs \<Rightarrow> vs"
  assume l: "latest_validator_set K b = Ok (Some (x, ?es))" and x: "x \<in> epochs (contents b)"
    and top: "\<And>y. y \<in> epochs (contents b) \<Longrightarrow> y \<le> x"
  show ?thesis
  proof (cases "bft_my_index_from_entries ?es (my_bls_pubkey C e)")
    case None
    then show ?thesis using run by (auto simp: rotate_bft_engine_to_latest_dpos_def l)
  next
    case (Some i)
    show ?thesis
    proof (cases "bft_validator_set_from_entries C ?es")
      case (Ok vs)
      obtain q e1 where q: "rotate_validator_set e vs i = (q, e1)"
        by (cases "rotate_validator_set e vs i")
      have step: "r = and_then (map_err RotationBft q) (\<lambda>_. Ok (Rotated x (vs_size vs) i))" "e' = e1"
        using run by (simp_all add: rotate_bft_engine_to_latest_dpos_def l Some Ok q)
      show ?thesis
      proof (cases "q = Ok ()")
        case True
        note acc = rotate_accepted [OF q [unfolded True]]
        have i: "bft_my_index_from_entries ?es
            (bls_pk_to_compressed C (bls_public_key_of C (my_bls_sk (config e)))) = Some i"
          using Some by (simp add: my_bls_pubkey_def)
        note key = own_key_at_index [OF C(1) own_key_point [OF C(2)] from_entries_sound(2) [OF Ok] i]
        have "sets (contents b) x = Some ?es"
          using my_index_sound(1) [OF i] by (auto split: option.splits)
        then show ?thesis
          using step acc key x top from_entries_sound [OF Ok] by (auto simp: True vs_size_def)
      next
        case False
        then have "e1 = e" using rotate_rejected [of e vs i] q by simp
        with step False show ?thesis by (cases q) auto
      qed
    qed (use run in \<open>auto simp: rotate_bft_engine_to_latest_dpos_def l Some\<close>)
  qed
qed

definition demo_record :: "validator_entry list" where
  "demo_record = [\<lparr>entry_address = 7, entry_stake = 5000000000000000000,
     entry_bls = Some (my_bls_pubkey demo_crypto demo_engine), entry_vrf = Some 6\<rparr>]"

lemma demo_record_converts:
  "\<exists>vs. bft_validator_set_from_entries demo_crypto demo_record = Ok vs \<and> vs_size vs = 1"
proof -
  have "bls_pk_from_compressed demo_crypto (my_bls_pubkey demo_crypto demo_engine) =
      Ok (bls_public_key_of demo_crypto (my_bls_sk (config demo_engine)))"
    using bls_pk_compress_roundtrip [OF demo_bls_canonical own_key_point [OF demo_bls_checks_points]]
    by (simp add: my_bls_pubkey_def)
  moreover have "vrf_pk_from_bytes demo_crypto 6 = Ok (VrfPublicKey 6)"
    by (simp add: vrf_pk_from_bytes_def demo_crypto_def)
  ultimately show ?thesis
    by (simp add: demo_record_def bft_validator_set_from_entries_def stake_weight_spec ValidatorSet_new_def
        MAX_VALIDATORS_def vs_size_def checked_add_def)
qed

theorem rotation_installs_the_newest_record_witness:
  "\<exists>b' e'. persist_validator_set MemoryBackend MemoryBackend_new 3 demo_record = (Ok (), b') \<and>
    rotate_bft_engine_to_latest_dpos demo_crypto MemoryBackend b' demo_engine = (Ok (Rotated 3 1 0), e') \<and>
    3 \<in> epochs (mem_contents b') \<and> bls_pubkey (validators (active_set e') ! 0) =
      bls_public_key_of demo_crypto (my_bls_sk (config demo_engine))"
proof -
  have "length demo_record < 2 ^ 32" by (simp add: demo_record_def)
  then obtain b' where b': "persist_validator_set MemoryBackend MemoryBackend_new 3 demo_record = (Ok (), b')"
      "mem_opened b'" "sets (mem_contents b') = (sets (mem_contents MemoryBackend_new))(3 \<mapsto> recorded demo_record)"
      "epochs (mem_contents b') = insert 3 (epochs (mem_contents MemoryBackend_new))"
    by (rule mem.persist_validator_set_spec [OF mem_new_opened])
  have e: "epochs (mem_contents b') = {3}" using b'(4) by (simp add: epochs_def mem_new_contents)
  have "recorded demo_record = demo_record" by (simp add: recorded_def demo_record_def entry_keyed_def)
  then have "latest_validator_set MemoryBackend b' = Ok (Some (3, demo_record))"
    using b'(3) e by (intro mem.latest_is_max [OF b'(2)]) simp_all
  moreover have "bft_my_index_from_entries demo_record (my_bls_pubkey demo_crypto demo_engine) = Some 0"
    by (simp add: bft_my_index_from_entries_def demo_record_def)
  moreover obtain vs where "bft_validator_set_from_entries demo_crypto demo_record = Ok vs" "vs_size vs = 1"
    using demo_record_converts by blast
  moreover have "fst (rotate_validator_set demo_engine vs 0) = Ok ()"
    using calculation(4) by (simp add: rotate_validator_set_def demo_engine_fields)
  ultimately obtain e' where run:
      "rotate_bft_engine_to_latest_dpos demo_crypto MemoryBackend b' demo_engine = (Ok (Rotated 3 1 0), e')"
    by (cases "rotate_validator_set demo_engine vs 0") (simp add: rotate_bft_engine_to_latest_dpos_def)
  have "bls_pubkey (validators (active_set e') ! 0) = bls_public_key_of demo_crypto (my_bls_sk (config demo_engine))"
    using rotation_installs_the_newest_record [where b = b', OF mem.kv_store_axioms b'(2) demo_bls_canonical demo_bls_checks_points run]
    by simp
  with b'(1) run e show ?thesis by (intro exI [of _ b'] exI [of _ e'] conjI) simp_all
qed

end
