(* ===== verification/Governance.thy ===== *)
theory Governance
  imports Dpos
begin

section \<open>Governance\<close>

text \<open>
  \<open>aii-node/src/governance.rs\<close>: proposals, votes weighted by stake and the tally, kept in the column family
  \<open>Meta\<close> beside the stake table. A Rust string is the list of its UTF-8 bytes; the check of \<open>String::from_utf8\<close>
  is written out. The meaning of the store is a map of proposals, for each proposal a map of ballots, and the
  cached tallies.
\<close>

subsection \<open>UTF-8\<close>

definition utf8_cont :: "byte \<Rightarrow> bool" where
  "utf8_cont b \<longleftrightarrow> 0x80 \<le> b \<and> b \<le> 0xBF"

definition utf8_len :: "byte list \<Rightarrow> nat option" where
  "utf8_len bs =
     (case bs of
        [] \<Rightarrow> None
      | b # rest \<Rightarrow>
          if b < 0x80 then Some 1
          else if 0xC2 \<le> b \<and> b \<le> 0xDF then
            (case rest of b1 # _ \<Rightarrow> if utf8_cont b1 then Some 2 else None | _ \<Rightarrow> None)
          else if 0xE0 \<le> b \<and> b \<le> 0xEF then
            (case rest of
               b1 # b2 # _ \<Rightarrow>
                 if utf8_cont b1 \<and> utf8_cont b2 \<and> (b = 0xE0 \<longrightarrow> 0xA0 \<le> b1) \<and> (b = 0xED \<longrightarrow> b1 \<le> 0x9F)
                 then Some 3 else None
             | _ \<Rightarrow> None)
          else if 0xF0 \<le> b \<and> b \<le> 0xF4 then
            (case rest of
               b1 # b2 # b3 # _ \<Rightarrow>
                 if utf8_cont b1 \<and> utf8_cont b2 \<and> utf8_cont b3 \<and> (b = 0xF0 \<longrightarrow> 0x90 \<le> b1) \<and> (b = 0xF4 \<longrightarrow> b1 \<le> 0x8F)
                 then Some 4 else None
             | _ \<Rightarrow> None)
          else None)"

lemma utf8_len_pos: "utf8_len bs = Some n \<Longrightarrow> 0 < n \<and> bs \<noteq> []"
  by (auto simp: utf8_len_def split: list.splits if_splits)

function utf8_valid :: "byte list \<Rightarrow> bool" where
  "utf8_valid bs =
     (if bs = [] then True
      else case utf8_len bs of None \<Rightarrow> False | Some n \<Rightarrow> utf8_valid (drop n bs))"
  by pat_completeness auto
termination
  by (relation "measure length") (auto dest: utf8_len_pos)

declare utf8_valid.simps [simp del]

subsection \<open>governance.rs\<close>

definition PROP_PREFIX :: "byte list" where
  "PROP_PREFIX = ascii ''prop:''"

definition VOTE_PREFIX :: "byte list" where
  "VOTE_PREFIX = ascii ''vote:''"

definition TALLY_PREFIX :: "byte list" where
  "TALLY_PREFIX = ascii ''tally:''"

datatype proposal_status = Pending | Passed | Rejected | Executed

primrec status_byte :: "proposal_status \<Rightarrow> byte" where
  "status_byte Pending = 0"
| "status_byte Passed = 1"
| "status_byte Rejected = 2"
| "status_byte Executed = 3"

definition status_from_byte :: "byte \<Rightarrow> proposal_status" where
  "status_from_byte b = (if b = 1 then Passed else if b = 2 then Rejected else if b = 3 then Executed else Pending)"

record gov_proposal =
  prop_id :: u64
  prop_title :: "byte list"
  voting_ends_at :: u64
  prop_status :: proposal_status
  proposer :: address

record gov_vote =
  gv_proposal :: u64
  gv_voter :: address
  gv_support :: bool
  gv_weight :: u256

definition prop_key :: "u64 \<Rightarrow> byte list" where
  "prop_key pid = PROP_PREFIX @ to_be_bytes 8 pid"

definition vote_prefix :: "u64 \<Rightarrow> byte list" where
  "vote_prefix pid = VOTE_PREFIX @ to_be_bytes 8 pid"

definition gov_vote_key :: "u64 \<Rightarrow> address \<Rightarrow> byte list" where
  "gov_vote_key pid voter = VOTE_PREFIX @ to_be_bytes 8 pid @ address_bytes voter"

definition tally_key :: "u64 \<Rightarrow> byte list" where
  "tally_key pid = TALLY_PREFIX @ to_be_bytes 8 pid"

definition encode_proposal :: "gov_proposal \<Rightarrow> byte list" where
  "encode_proposal p =
     to_be_bytes 8 (prop_id p) @ to_be_bytes 8 (voting_ends_at p) @ [status_byte (prop_status p)] @
     address_bytes (proposer p) @
     to_be_bytes 4 (if length (prop_title p) < 2 ^ 32 then word_of_nat (length (prop_title p)) else max_word_val :: u32) @
     prop_title p"

definition decode_proposal_record :: "byte list \<Rightarrow> gov_proposal option" where
  "decode_proposal_record bytes =
     (if length bytes < 8 + 8 + 1 + 20 + 4 then None
      else let title_len = unat (from_be_bytes (slice 37 41 bytes) :: u32) in
           if length bytes < 41 + title_len then None
           else let title = slice 41 (41 + title_len) bytes in
                if \<not> utf8_valid title then None
                else Some \<lparr>prop_id = from_be_bytes (slice 0 8 bytes), prop_title = title,
                  voting_ends_at = from_be_bytes (slice 8 16 bytes), prop_status = status_from_byte (bytes ! 16),
                  proposer = from_be_bytes (slice 17 37 bytes)\<rparr>)"

definition encode_gov_vote :: "gov_vote \<Rightarrow> byte list" where
  "encode_gov_vote v = (if gv_support v then 1 else 0) # to_be_bytes 32 (gv_weight v)"

definition decode_gov_vote :: "u64 \<Rightarrow> address \<Rightarrow> byte list \<Rightarrow> gov_vote option" where
  "decode_gov_vote pid voter bytes =
     (if length bytes \<noteq> 1 + 32 then None
      else Some \<lparr>gv_proposal = pid, gv_voter = voter, gv_support = (bytes ! 0 \<noteq> 0),
        gv_weight = from_be_bytes (drop 1 bytes)\<rparr>)"

primrec max_proposal_id :: "u64 \<Rightarrow> kv_item list \<Rightarrow> (node_error, u64) result" where
  "max_proposal_id best [] = Ok best"
| "max_proposal_id best (item # items) =
     and_then (map_err NodeStorage item) (\<lambda>(k, _).
       let suffix = drop (length PROP_PREFIX) k; pid = from_be_bytes suffix in
       if length suffix \<noteq> 8 then max_proposal_id best items
       else max_proposal_id (if best < pid then pid else best) items)"

definition next_proposal_id :: "'b kv_backend \<Rightarrow> 'b \<Rightarrow> (node_error, u64) result" where
  "next_proposal_id K b =
     and_then (max_proposal_id 0 (kv_iter_prefix K b Meta PROP_PREFIX)) (\<lambda>best. Ok (best + 1))"

definition gov_put :: "'b kv_backend \<Rightarrow> 'b \<Rightarrow> byte list \<Rightarrow> byte list \<Rightarrow> (node_error, unit) result \<times> 'b" where
  "gov_put K b k v = (let (r, b') = kv_put K b Meta k v in (map_err NodeStorage r, b'))"

definition propose :: "'b kv_backend \<Rightarrow> 'b \<Rightarrow> address \<Rightarrow> byte list \<Rightarrow> u64 \<Rightarrow> (node_error, u64) result \<times> 'b" where
  "propose K b who title ends =
     (case next_proposal_id K b of
        Err x \<Rightarrow> (Err x, b)
      | Panic \<Rightarrow> (Panic, b)
      | Ok pid \<Rightarrow>
          let p = \<lparr>prop_id = pid, prop_title = title, voting_ends_at = ends, prop_status = Pending, proposer = who\<rparr>;
              (r, b') = gov_put K b (prop_key pid) (encode_proposal p)
          in (and_then r (\<lambda>_. Ok pid), b'))"

definition gov_get :: "'b kv_backend \<Rightarrow> 'b \<Rightarrow> u64 \<Rightarrow> (node_error, gov_proposal option) result" where
  "gov_get K b pid =
     and_then (map_err NodeStorage (kv_get K b Meta (prop_key pid))) (\<lambda>got.
       Ok (case got of None \<Rightarrow> None | Some bytes \<Rightarrow> decode_proposal_record bytes))"

definition cast_gov_vote ::
    "'b kv_backend \<Rightarrow> 'b \<Rightarrow> u64 \<Rightarrow> address \<Rightarrow> bool \<Rightarrow> u64 \<Rightarrow> (node_error, gov_vote) result \<times> 'b" where
  "cast_gov_vote K b pid voter support block_height =
     (case and_then (gov_get K b pid) (\<lambda>got. ok_or (NodeMsg ''proposal not found'') got) of
        Err x \<Rightarrow> (Err x, b)
      | Panic \<Rightarrow> (Panic, b)
      | Ok p \<Rightarrow>
          if voting_ends_at p \<le> block_height then (Err (NodeMsg ''voting window closed''), b)
          else (case and_then (stake_get K b voter) (\<lambda>got. ok_or (NodeMsg ''voter has no bonded stake'') got) of
                  Err x \<Rightarrow> (Err x, b)
                | Panic \<Rightarrow> (Panic, b)
                | Ok st \<Rightarrow>
                    if \<not> is_bonded st then (Err (NodeMsg ''voter is unbonding''), b)
                    else let v = \<lparr>gv_proposal = pid, gv_voter = voter, gv_support = support,
                               gv_weight = amount_wei st\<rparr>;
                             (r, b') = gov_put K b (gov_vote_key pid voter) (encode_gov_vote v)
                         in (and_then r (\<lambda>_. Ok v), b')))"

text \<open>The loop of \<open>tally\<close> over the votes of one proposal.\<close>

primrec sum_votes :: "u64 \<Rightarrow> u256 \<times> u256 \<Rightarrow> kv_item list \<Rightarrow> (node_error, u256 \<times> u256) result" where
  "sum_votes pid acc [] = Ok acc"
| "sum_votes pid acc (item # items) =
     and_then (map_err NodeStorage item) (\<lambda>(k, v).
       let suffix = drop (length (vote_prefix pid)) k in
       if length suffix \<noteq> 20 then sum_votes pid acc items
       else case decode_gov_vote pid (from_be_bytes suffix) v of
              None \<Rightarrow> sum_votes pid acc items
            | Some w \<Rightarrow>
                sum_votes pid
                  (if gv_support w then (saturating_add (fst acc) (gv_weight w), snd acc)
                   else (fst acc, saturating_add (snd acc) (gv_weight w))) items)"

definition passes :: "u256 \<Rightarrow> u256 \<Rightarrow> bool" where
  "passes yes bonded \<longleftrightarrow> saturating_mul bonded 2 < saturating_mul yes 3 \<and> bonded \<noteq> 0"

definition gov_tally ::
    "'b kv_backend \<Rightarrow> 'b \<Rightarrow> u64 \<Rightarrow> u64 \<Rightarrow> (node_error, proposal_status) result \<times> 'b" where
  "gov_tally K b pid block_height =
     (case and_then (gov_get K b pid) (\<lambda>got. ok_or (NodeMsg ''proposal not found'') got) of
        Err x \<Rightarrow> (Err x, b)
      | Panic \<Rightarrow> (Panic, b)
      | Ok p \<Rightarrow>
          if prop_status p \<noteq> Pending then (Ok (prop_status p), b)
          else if block_height < voting_ends_at p then (Ok (prop_status p), b)
          else (case and_then (sum_votes pid (0, 0) (kv_iter_prefix K b Meta (vote_prefix pid))) (\<lambda>sums.
                       and_then (total_bonded K b) (\<lambda>bonded. Ok (sums, bonded))) of
                  Err x \<Rightarrow> (Err x, b)
                | Panic \<Rightarrow> (Panic, b)
                | Ok ((yes, no), bonded) \<Rightarrow>
                    let p' = p\<lparr>prop_status := (if passes yes bonded then Passed else Rejected)\<rparr>;
                        (r, b') = gov_put K b (prop_key pid) (encode_proposal p')
                    in (case r of
                          Err x \<Rightarrow> (Err x, b')
                        | Panic \<Rightarrow> (Panic, b')
                        | Ok _ \<Rightarrow>
                            let (r', b'') = gov_put K b' (tally_key pid) (to_be_bytes 32 yes @ to_be_bytes 32 no)
                            in (and_then r' (\<lambda>_. Ok (prop_status p')), b''))))"

definition decode_tally :: "byte list \<Rightarrow> (u256 \<times> u256) option" where
  "decode_tally bytes =
     (if length bytes \<noteq> 64 then None
      else Some (from_be_bytes (slice 0 32 bytes), from_be_bytes (slice 32 64 bytes)))"

definition tally_of :: "'b kv_backend \<Rightarrow> 'b \<Rightarrow> u64 \<Rightarrow> (node_error, (u256 \<times> u256) option) result" where
  "tally_of K b pid =
     and_then (map_err NodeStorage (kv_get K b Meta (tally_key pid))) (\<lambda>got.
       Ok (case got of None \<Rightarrow> None | Some bytes \<Rightarrow> decode_tally bytes))"

primrec proposal_records :: "kv_item list \<Rightarrow> (node_error, gov_proposal list) result" where
  "proposal_records [] = Ok []"
| "proposal_records (item # items) =
     and_then (map_err NodeStorage item) (\<lambda>(_, v).
     and_then (proposal_records items) (\<lambda>ps.
       Ok (case decode_proposal_record v of None \<Rightarrow> ps | Some p \<Rightarrow> p # ps)))"

definition gov_list_all :: "'b kv_backend \<Rightarrow> 'b \<Rightarrow> (node_error, gov_proposal list) result" where
  "gov_list_all K b = proposal_records (kv_iter_prefix K b Meta PROP_PREFIX)"

subsection \<open>Records and keys\<close>

definition proposals :: "contents \<Rightarrow> u64 \<rightharpoonup> gov_proposal" where
  "proposals m pid = Option.bind (m Meta (prop_key pid)) decode_proposal_record"

definition ballots :: "contents \<Rightarrow> u64 \<Rightarrow> address \<rightharpoonup> bool \<times> u256" where
  "ballots m pid a =
     map_option (\<lambda>v. (gv_support v, gv_weight v)) (Option.bind (m Meta (gov_vote_key pid a)) (decode_gov_vote pid a))"

definition tallies :: "contents \<Rightarrow> u64 \<rightharpoonup> u256 \<times> u256" where
  "tallies m pid = Option.bind (m Meta (tally_key pid)) decode_tally"

definition proposal_wf :: "gov_proposal \<Rightarrow> bool" where
  "proposal_wf p \<longleftrightarrow> utf8_valid (prop_title p) \<and> length (prop_title p) < 2 ^ 32"

lemma status_from_as_byte [simp]: "status_from_byte (status_byte st) = st"
  by (cases st) (simp_all add: status_from_byte_def)

lemma decode_encode_proposal_record:
  assumes "proposal_wf p"
  shows "decode_proposal_record (encode_proposal p) = Some p"
proof -
  let ?n = "length (prop_title p)"
  have n: "unat (word_of_nat ?n :: u32) = ?n" using assms by (simp add: proposal_wf_def unat_of_nat)
  have enc: "encode_proposal p = to_be_bytes 8 (prop_id p) @ to_be_bytes 8 (voting_ends_at p) @
      [status_byte (prop_status p)] @ address_bytes (proposer p) @ to_be_bytes 4 (word_of_nat ?n :: u32) @ prop_title p"
    using assms by (simp add: encode_proposal_def proposal_wf_def)
  have "slice 37 41 (encode_proposal p) = to_be_bytes 4 (word_of_nat ?n :: u32)"
      "slice 0 8 (encode_proposal p) = to_be_bytes 8 (prop_id p)"
      "slice 8 16 (encode_proposal p) = to_be_bytes 8 (voting_ends_at p)"
      "slice 17 37 (encode_proposal p) = address_bytes (proposer p)"
      "encode_proposal p ! 16 = status_byte (prop_status p)"
      "slice 41 (41 + ?n) (encode_proposal p) = prop_title p" "length (encode_proposal p) = 41 + ?n"
    by (simp_all add: enc slice_def nth_append)
  then show ?thesis
    using assms n by (cases p) (simp add: decode_proposal_record_def proposal_wf_def)
qed

lemma decoded_proposal_wf:
  assumes "decode_proposal_record bytes = Some p"
  shows "proposal_wf p"
proof -
  let ?n = "unat (from_be_bytes (slice 37 41 bytes) :: u32)"
  have "prop_title p = slice 41 (41 + ?n) bytes" "utf8_valid (prop_title p)" "41 + ?n \<le> length bytes"
    using assms by (auto simp: decode_proposal_record_def Let_def split: if_splits)
  moreover have "?n < 2 ^ 32" using unat_less_pow [of "from_be_bytes (slice 37 41 bytes) :: u32"] by simp
  ultimately show ?thesis by (simp add: proposal_wf_def length_slice)
qed

lemma decode_encode_gov_vote [simp]:
  "decode_gov_vote pid a (encode_gov_vote v) =
     Some \<lparr>gv_proposal = pid, gv_voter = a, gv_support = gv_support v, gv_weight = gv_weight v\<rparr>"
  by (simp add: decode_gov_vote_def encode_gov_vote_def)

lemma decode_tally_bytes [simp]: "decode_tally (to_be_bytes 32 yes @ to_be_bytes 32 no) = Some (yes, no)"
  by (simp add: decode_tally_def slice_def)

lemma gov_keys_inject [simp]:
  "prop_key p = prop_key q \<longleftrightarrow> p = q" "tally_key p = tally_key q \<longleftrightarrow> p = q"
  "gov_vote_key p a = gov_vote_key q c \<longleftrightarrow> p = q \<and> a = c"
  by (auto simp: prop_key_def tally_key_def gov_vote_key_def to_be_bytes_inject)

lemma gov_keys_differ [simp]:
  "prop_key p \<noteq> gov_vote_key q a" "gov_vote_key q a \<noteq> prop_key p"
  "prop_key p \<noteq> tally_key q" "tally_key q \<noteq> prop_key p"
  "gov_vote_key p a \<noteq> tally_key q" "tally_key q \<noteq> gov_vote_key p a"
  "stake_key c \<noteq> prop_key p" "stake_key c \<noteq> gov_vote_key p a" "stake_key c \<noteq> tally_key p"
  "registry_key c \<noteq> prop_key p" "registry_key c \<noteq> gov_vote_key p a" "registry_key c \<noteq> tally_key p"
  "\<not> starts_with STAKE_PREFIX (prop_key p)" "\<not> starts_with STAKE_PREFIX (gov_vote_key p a)"
  "\<not> starts_with STAKE_PREFIX (tally_key p)"
  by (simp_all add: prop_key_def gov_vote_key_def tally_key_def stake_key_def registry_key_def
      PROP_PREFIX_def VOTE_PREFIX_def TALLY_PREFIX_def STAKE_PREFIX_def REGISTRY_PREFIX_def ascii_def)

lemmas gov_views = proposals_def ballots_def tallies_def stakes_def registered_def

context kv_store
begin

lemma gov_get_spec: "opened b \<Longrightarrow> gov_get K b pid = Ok (proposals (contents b) pid)"
  by (auto simp: gov_get_def get_spec proposals_def split: option.splits)

lemma tally_of_spec: "opened b \<Longrightarrow> tally_of K b pid = Ok (tallies (contents b) pid)"
  by (auto simp: tally_of_def get_spec tallies_def split: option.splits)

lemma gov_put_spec:
  assumes "opened b"
  obtains b' where "gov_put K b k v = (Ok (), b')" "opened b'"
    "contents b' = apply_op (contents b) (OpPut Meta k v)"
  using put_spec [OF assms, of Meta k v] by (auto simp: gov_put_def)

lemma gov_put_proposal:
  assumes "opened b" and "proposal_wf p"
  obtains b' where "gov_put K b (prop_key pid) (encode_proposal p) = (Ok (), b')" "opened b'"
    "proposals (contents b') = (proposals (contents b))(pid \<mapsto> p)" "ballots (contents b') = ballots (contents b)"
    "tallies (contents b') = tallies (contents b)" "stakes (contents b') = stakes (contents b)"
    "registered (contents b') = registered (contents b)"
  using assms(1)
proof (rule gov_put_spec [of b "prop_key pid" "encode_proposal p"])
  fix b'
  assume "gov_put K b (prop_key pid) (encode_proposal p) = (Ok (), b')" "opened b'"
    "contents b' = apply_op (contents b) (OpPut Meta (prop_key pid) (encode_proposal p))"
  then show ?thesis
    by (intro that [of b']) (auto simp: gov_views fun_eq_iff decode_encode_proposal_record [OF assms(2)])
qed

lemma gov_put_vote:
  assumes "opened b"
  obtains b' where "gov_put K b (gov_vote_key pid a) (encode_gov_vote v) = (Ok (), b')" "opened b'"
    "proposals (contents b') = proposals (contents b)"
    "ballots (contents b') = (ballots (contents b))(pid := (ballots (contents b) pid)(a \<mapsto> (gv_support v, gv_weight v)))"
    "tallies (contents b') = tallies (contents b)" "stakes (contents b') = stakes (contents b)"
    "registered (contents b') = registered (contents b)"
  using assms(1)
proof (rule gov_put_spec [of b "gov_vote_key pid a" "encode_gov_vote v"])
  fix b'
  assume "gov_put K b (gov_vote_key pid a) (encode_gov_vote v) = (Ok (), b')" "opened b'"
    "contents b' = apply_op (contents b) (OpPut Meta (gov_vote_key pid a) (encode_gov_vote v))"
  then show ?thesis by (intro that [of b']) (auto simp: gov_views fun_eq_iff)
qed

lemma gov_put_tally:
  assumes "opened b"
  obtains b' where "gov_put K b (tally_key pid) (to_be_bytes 32 yes @ to_be_bytes 32 no) = (Ok (), b')" "opened b'"
    "proposals (contents b') = proposals (contents b)" "ballots (contents b') = ballots (contents b)"
    "tallies (contents b') = (tallies (contents b))(pid \<mapsto> (yes, no))" "stakes (contents b') = stakes (contents b)"
    "registered (contents b') = registered (contents b)"
  using assms(1)
proof (rule gov_put_spec [of b "tally_key pid" "to_be_bytes 32 yes @ to_be_bytes 32 no"])
  fix b'
  assume "gov_put K b (tally_key pid) (to_be_bytes 32 yes @ to_be_bytes 32 no) = (Ok (), b')" "opened b'"
    "contents b' = apply_op (contents b) (OpPut Meta (tally_key pid) (to_be_bytes 32 yes @ to_be_bytes 32 no))"
  then show ?thesis by (intro that [of b']) (auto simp: gov_views fun_eq_iff)
qed

end

subsection \<open>Casting and counting\<close>

text \<open>The weight with which a vote is accepted, or the reason why it is refused.\<close>

definition vote_outcome :: "contents \<Rightarrow> u64 \<Rightarrow> address \<Rightarrow> u64 \<Rightarrow> (node_error, u256) result" where
  "vote_outcome m pid a h =
     (case proposals m pid of
        None \<Rightarrow> Err (NodeMsg ''proposal not found'')
      | Some p \<Rightarrow>
          if voting_ends_at p \<le> h then Err (NodeMsg ''voting window closed'')
          else (case stakes m a of
                  None \<Rightarrow> Err (NodeMsg ''voter has no bonded stake'')
                | Some (x, u) \<Rightarrow> if u \<noteq> 0 \<or> x = 0 then Err (NodeMsg ''voter is unbonding'') else Ok x))"

definition ballot_sum :: "contents \<Rightarrow> u64 \<Rightarrow> bool \<Rightarrow> nat" where
  "ballot_sum m pid s = (\<Sum>a\<in>{a. \<exists>w. ballots m pid a = Some (s, w)}. unat (snd (the (ballots m pid a))))"

definition vote_of_entry :: "u64 \<Rightarrow> byte list \<times> byte list \<Rightarrow> gov_vote option" where
  "vote_of_entry pid p =
     (if length (fst p) \<noteq> length (vote_prefix pid) + 20 then None
      else decode_gov_vote pid (from_be_bytes (drop (length (vote_prefix pid)) (fst p))) (snd p))"

lemma sum_votes_list:
  "\<exists>yes no. sum_votes pid acc (map Ok m) = Ok (yes, no) \<and>
     unat yes = min (unat (fst acc) + (\<Sum>v\<leftarrow>filter gv_support (List.map_filter (vote_of_entry pid) m). unat (gv_weight v)))
       (2 ^ 256 - 1) \<and>
     unat no = min (unat (snd acc) +
       (\<Sum>v\<leftarrow>filter (\<lambda>v. \<not> gv_support v) (List.map_filter (vote_of_entry pid) m). unat (gv_weight v))) (2 ^ 256 - 1)"
proof (induction m arbitrary: acc)
  case Nil
  have "unat w \<le> 2 ^ 256 - 1" for w :: u256 using unat_less_pow [of w] by simp
  then show ?case by (cases acc) (simp add: List.map_filter_def min_absorb1)
next
  case (Cons p m)
  obtain k v where p: "p = (k, v)" by (cases p)
  have len: "length (drop (length (vote_prefix pid)) k) = 20 \<longleftrightarrow> length k = length (vote_prefix pid) + 20" by auto
  show ?case
  proof (cases "vote_of_entry pid p")
    case None
    then have "sum_votes pid acc (map Ok (p # m)) = sum_votes pid acc (map Ok m)"
      using len by (auto simp: p vote_of_entry_def Let_def simp del: length_drop split: if_splits)
    then show ?thesis using Cons.IH [of acc] None by (simp add: List.map_filter_def)
  next
    case (Some w)
    let ?acc = "if gv_support w then (saturating_add (fst acc) (gv_weight w), snd acc)
      else (fst acc, saturating_add (snd acc) (gv_weight w))"
    have "sum_votes pid acc (map Ok (p # m)) = sum_votes pid ?acc (map Ok m)"
      using Some len by (auto simp: p vote_of_entry_def Let_def simp del: length_drop split: if_splits)
    moreover have "min (min x M + y) M = min (x + y) M" for x y M :: nat by simp
    ultimately show ?thesis using Cons.IH [of ?acc] Some
      by (cases "gv_support w") (simp_all add: List.map_filter_def unat_saturating_add add.assoc)
  qed
qed

lemma vote_of_entry_key:
  assumes "starts_with (vote_prefix pid) k" and "vote_of_entry pid (k, v) = Some w"
  shows "k = gov_vote_key pid (gv_voter w) \<and> decode_gov_vote pid (gv_voter w) v = Some w"
proof -
  have "length k = length (vote_prefix pid) + 20"
      "decode_gov_vote pid (from_be_bytes (drop (length (vote_prefix pid)) k)) v = Some w"
    using assms(2) by (simp_all add: vote_of_entry_def split: if_splits)
  moreover from this(2) have "gv_voter w = from_be_bytes (drop (length (vote_prefix pid)) k)"
    by (auto simp: decode_gov_vote_def split: if_splits)
  ultimately show ?thesis
    using keyed [OF assms(1), of 20, where 'a = 160] by (simp add: gov_vote_key_def vote_prefix_def)
qed

lemma vote_of_entry_at:
  "decode_gov_vote pid a v = Some w \<Longrightarrow> vote_of_entry pid (gov_vote_key pid a, v) = Some w"
  by (simp add: vote_of_entry_def gov_vote_key_def vote_prefix_def)

lemma scanned_votes:
  assumes m: "btree_ok m" "\<And>k v. (k, v) \<in> set m \<longleftrightarrow> starts_with (vote_prefix pid) k \<and> c Meta k = Some v"
  shows "(\<Sum>v\<leftarrow>filter (\<lambda>v. gv_support v = s) (List.map_filter (vote_of_entry pid) m). unat (gv_weight v)) =
    ballot_sum c pid s"
  unfolding ballot_sum_def
proof (rule sum_by_index [of gv_voter])
  let ?vs = "List.map_filter (vote_of_entry pid) m"
  have vs: "w \<in> set ?vs \<longleftrightarrow> Option.bind (c Meta (gov_vote_key pid (gv_voter w))) (decode_gov_vote pid (gv_voter w)) = Some w" for w
  proof
    assume "w \<in> set ?vs"
    then obtain k v where "(k, v) \<in> set m" "vote_of_entry pid (k, v) = Some w" by (auto simp: List.map_filter_def)
    then show "Option.bind (c Meta (gov_vote_key pid (gv_voter w))) (decode_gov_vote pid (gv_voter w)) = Some w"
      using m(2) [of k v] vote_of_entry_key [of pid k v w] by auto
  next
    assume "Option.bind (c Meta (gov_vote_key pid (gv_voter w))) (decode_gov_vote pid (gv_voter w)) = Some w"
    then obtain v where v: "c Meta (gov_vote_key pid (gv_voter w)) = Some v" "decode_gov_vote pid (gv_voter w) v = Some w"
      by (auto simp: bind_eq_Some_conv)
    then have "(gov_vote_key pid (gv_voter w), v) \<in> set m" by (simp add: m(2) gov_vote_key_def vote_prefix_def starts_with_def)
    then show "w \<in> set ?vs" using vote_of_entry_at [OF v(2)] by (force simp: List.map_filter_def)
  qed
  have "sorted_wrt (<) (map gv_voter ?vs)"
    using m(2) vote_of_entry_key
    by (intro scan_sorted [OF m(1), of _ "vote_prefix pid" 20]) (force simp: gov_vote_key_def vote_prefix_def)+
  then show "distinct (map gv_voter (filter (\<lambda>v. gv_support v = s) ?vs))"
    by (simp add: strict_sorted_iff distinct_map_filter)
  show "unat (gv_weight w) = unat (snd (the (ballots c pid (gv_voter w))))"
    if "w \<in> set (filter (\<lambda>v. gv_support v = s) ?vs)" for w
    using that vs [of w] by (simp add: ballots_def)
  have "a \<in> gv_voter ` {v \<in> set ?vs. gv_support v = s}" if eq: "ballots c pid a = Some (s, x)" for a x
  proof -
    obtain w where w: "Option.bind (c Meta (gov_vote_key pid a)) (decode_gov_vote pid a) = Some w" "gv_support w = s"
      using eq by (auto simp: ballots_def)
    then have "gv_voter w = a" by (auto simp: bind_eq_Some_conv decode_gov_vote_def split: if_splits)
    with w vs [of w] show ?thesis by force
  qed
  then show "set (map gv_voter (filter (\<lambda>v. gv_support v = s) ?vs)) = {a. \<exists>w. ballots c pid a = Some (s, w)}"
    using vs by (auto simp: ballots_def)
qed

context kv_store
begin

lemma sum_votes_spec:
  assumes "opened b"
  obtains yes no where "sum_votes pid (0, 0) (kv_iter_prefix K b Meta (vote_prefix pid)) = Ok (yes, no)"
    "unat yes = min (ballot_sum (contents b) pid True) (2 ^ 256 - 1)"
    "unat no = min (ballot_sum (contents b) pid False) (2 ^ 256 - 1)"
proof -
  obtain m where m: "kv_iter_prefix K b Meta (vote_prefix pid) = map Ok m" "btree_ok m"
      "\<And>k v. (k, v) \<in> set m \<longleftrightarrow> starts_with (vote_prefix pid) k \<and> contents b Meta k = Some v"
    using scan_spec [OF assms] by blast
  obtain yes no where y: "sum_votes pid (0, 0) (map Ok m) = Ok (yes, no)"
      "unat yes = min (0 + (\<Sum>v\<leftarrow>filter gv_support (List.map_filter (vote_of_entry pid) m). unat (gv_weight v))) (2 ^ 256 - 1)"
      "unat no = min (0 + (\<Sum>v\<leftarrow>filter (\<lambda>v. \<not> gv_support v) (List.map_filter (vote_of_entry pid) m). unat (gv_weight v)))
        (2 ^ 256 - 1)"
    using sum_votes_list [of pid "(0, 0)" m] by (elim exE conjE) simp
  have "(\<Sum>v\<leftarrow>filter gv_support (List.map_filter (vote_of_entry pid) m). unat (gv_weight v)) =
      ballot_sum (contents b) pid True"
    using scanned_votes [OF m(2), of pid "contents b" True] m(3) by simp
  moreover have "(\<Sum>v\<leftarrow>filter (\<lambda>v. \<not> gv_support v) (List.map_filter (vote_of_entry pid) m). unat (gv_weight v)) =
      ballot_sum (contents b) pid False"
    using scanned_votes [OF m(2), of pid "contents b" False] m(3) by simp
  ultimately show ?thesis using y m(1) by (intro that [of yes no]) simp_all
qed

lemma cast_gov_vote_spec:
  assumes b: "opened b"
  shows "case vote_outcome (contents b) pid a h of
      Ok x \<Rightarrow> \<exists>b'. cast_gov_vote K b pid a s h =
          (Ok \<lparr>gv_proposal = pid, gv_voter = a, gv_support = s, gv_weight = x\<rparr>, b') \<and> opened b' \<and>
        ballots (contents b') = (ballots (contents b))(pid := (ballots (contents b) pid)(a \<mapsto> (s, x))) \<and>
        proposals (contents b') = proposals (contents b) \<and> tallies (contents b') = tallies (contents b) \<and>
        stakes (contents b') = stakes (contents b) \<and> registered (contents b') = registered (contents b)
    | Err x \<Rightarrow> cast_gov_vote K b pid a s h = (Err x, b)
    | Panic \<Rightarrow> False"
proof (cases "vote_outcome (contents b) pid a h")
  case (Ok x)
  then obtain p where p: "proposals (contents b) pid = Some p" "\<not> voting_ends_at p \<le> h"
      "stakes (contents b) a = Some (x, 0)" "x \<noteq> 0"
    by (auto simp: vote_outcome_def split: option.splits if_splits)
  let ?v = "\<lparr>gv_proposal = pid, gv_voter = a, gv_support = s, gv_weight = x\<rparr>"
  obtain b' where b': "gov_put K b (gov_vote_key pid a) (encode_gov_vote ?v) = (Ok (), b')" "opened b'"
      "proposals (contents b') = proposals (contents b)"
      "ballots (contents b') = (ballots (contents b))(pid := (ballots (contents b) pid)(a \<mapsto> (gv_support ?v, gv_weight ?v)))"
      "tallies (contents b') = tallies (contents b)" "stakes (contents b') = stakes (contents b)"
      "registered (contents b') = registered (contents b)"
    by (rule gov_put_vote [OF b])
  have "cast_gov_vote K b pid a s h = (Ok ?v, b')"
    using p b'(1) by (simp add: cast_gov_vote_def gov_get_spec [OF b] stake_get_spec [OF b] is_bonded_def)
  with b' Ok show ?thesis by simp
next
  case (Err x)
  then have "cast_gov_vote K b pid a s h = (Err x, b)"
    by (auto simp: vote_outcome_def cast_gov_vote_def gov_get_spec [OF b] stake_get_spec [OF b] is_bonded_def
      split: option.splits if_splits)
  with Err show ?thesis by simp
next
  case Panic
  then show ?thesis by (auto simp: vote_outcome_def split: option.splits if_splits)
qed

lemma tally_decides:
  assumes b: "opened b" and p: "proposals (contents b) pid = Some p" "prop_status p = Pending" "voting_ends_at p \<le> h"
  obtains yes no bonded b' where "unat yes = min (ballot_sum (contents b) pid True) (2 ^ 256 - 1)"
    "unat no = min (ballot_sum (contents b) pid False) (2 ^ 256 - 1)"
    "unat bonded = min (ledger_bonded (stakes (contents b))) (2 ^ 256 - 1)"
    "gov_tally K b pid h = (Ok (if passes yes bonded then Passed else Rejected), b')" "opened b'"
    "proposals (contents b') =
      (proposals (contents b))(pid \<mapsto> p\<lparr>prop_status := (if passes yes bonded then Passed else Rejected)\<rparr>)"
    "tallies (contents b') = (tallies (contents b))(pid \<mapsto> (yes, no))"
    "ballots (contents b') = ballots (contents b)" "stakes (contents b') = stakes (contents b)"
proof -
  obtain yes no where y: "sum_votes pid (0, 0) (kv_iter_prefix K b Meta (vote_prefix pid)) = Ok (yes, no)"
      "unat yes = min (ballot_sum (contents b) pid True) (2 ^ 256 - 1)"
      "unat no = min (ballot_sum (contents b) pid False) (2 ^ 256 - 1)"
    by (rule sum_votes_spec [OF b])
  obtain bonded where t: "total_bonded K b = Ok bonded"
      "unat bonded = min (ledger_bonded (stakes (contents b))) (2 ^ 256 - 1)"
    by (rule total_bonded_spec [OF b])
  let ?p = "p\<lparr>prop_status := (if passes yes bonded then Passed else Rejected)\<rparr>"
  have "proposal_wf p" using p(1) decoded_proposal_wf by (auto simp: proposals_def bind_eq_Some_conv)
  then have "proposal_wf ?p" by (simp add: proposal_wf_def)
  from gov_put_proposal [OF b this] obtain b1 where b1: "gov_put K b (prop_key pid) (encode_proposal ?p) = (Ok (), b1)"
      "opened b1" "proposals (contents b1) = (proposals (contents b))(pid \<mapsto> ?p)"
      "ballots (contents b1) = ballots (contents b)" "tallies (contents b1) = tallies (contents b)"
      "stakes (contents b1) = stakes (contents b)" "registered (contents b1) = registered (contents b)" .
  from gov_put_tally [OF b1(2)] obtain b2 where b2:
      "gov_put K b1 (tally_key pid) (to_be_bytes 32 yes @ to_be_bytes 32 no) = (Ok (), b2)" "opened b2"
      "proposals (contents b2) = proposals (contents b1)" "ballots (contents b2) = ballots (contents b1)"
      "tallies (contents b2) = (tallies (contents b1))(pid \<mapsto> (yes, no))" "stakes (contents b2) = stakes (contents b1)"
      "registered (contents b2) = registered (contents b1)" .
  have "gov_tally K b pid h = (Ok (if passes yes bonded then Passed else Rejected), b2)"
    using p y(1) t(1) b1(1) b2(1) by (simp add: gov_tally_def gov_get_spec [OF b])
  then show ?thesis
    using b1 b2 y t by (intro that [of yes no bonded b2]) simp_all
qed

lemma tally_waits:
  assumes b: "opened b"
  shows "proposals (contents b) pid = None \<Longrightarrow> gov_tally K b pid h = (Err (NodeMsg ''proposal not found''), b)"
    "proposals (contents b) pid = Some p \<Longrightarrow> prop_status p \<noteq> Pending \<or> h < voting_ends_at p \<Longrightarrow>
      gov_tally K b pid h = (Ok (prop_status p), b)"
  by (auto simp: gov_tally_def gov_get_spec [OF b])

end

lemma passes_exact:
  assumes "unat yes = min y (2 ^ 256 - 1)" and "unat bonded = min t (2 ^ 256 - 1)"
  shows "passes yes bonded \<longleftrightarrow> 0 < t \<and> min (2 * t) (2 ^ 256 - 1) < min (3 * y) (2 ^ 256 - 1)"
proof -
  have "unat (saturating_mul bonded 2) = min (2 * t) (2 ^ 256 - 1)" "unat (saturating_mul yes 3) = min (3 * y) (2 ^ 256 - 1)"
    using assms by (simp_all add: unat_saturating_mul min_def)
  moreover have "bonded \<noteq> 0 \<longleftrightarrow> 0 < t" using assms(2) by (simp add: unat_eq_zero [symmetric] min_def)
  ultimately show ?thesis by (auto simp: passes_def word_less_nat_alt)
qed

subsection \<open>Proposing\<close>

definition proposal_ids :: "contents \<Rightarrow> u64 set" where
  "proposal_ids m = {pid. m Meta (prop_key pid) \<noteq> None}"

lemma max_proposal_id_spec:
  "\<exists>r. max_proposal_id best (map Ok m) = Ok r \<and> best \<le> r \<and> (r = best \<or> r \<in> entry_indices PROP_PREFIX m) \<and>
     (\<forall>e \<in> entry_indices PROP_PREFIX m. e \<le> r)"
proof (induction m arbitrary: best)
  case Nil
  then show ?case by (simp add: entry_indices_simps)
next
  case (Cons p m)
  obtain k v where p: "p = (k, v)" by (cases p)
  let ?e = "from_be_bytes (drop (length PROP_PREFIX) k) :: u64"
  let ?best = "if length k = length PROP_PREFIX + 8 \<and> best < ?e then ?e else best"
  have "length (drop (length PROP_PREFIX) k) = 8 \<longleftrightarrow> length k = length PROP_PREFIX + 8" by auto
  then have step: "max_proposal_id best (map Ok (p # m)) = max_proposal_id ?best (map Ok m)"
    by (simp del: length_drop add: p Let_def)
  obtain r where r: "max_proposal_id ?best (map Ok m) = Ok r" "?best \<le> r"
      "r = ?best \<or> r \<in> entry_indices PROP_PREFIX m" "\<forall>e \<in> entry_indices PROP_PREFIX m. e \<le> r"
    using Cons.IH [of ?best] by (elim exE conjE)
  have "best \<le> r" "r = best \<or> r \<in> entry_indices PROP_PREFIX (p # m)"
      "\<forall>e \<in> entry_indices PROP_PREFIX (p # m). e \<le> r"
    using r(2-4) by (auto simp: p entry_indices_simps split: if_splits)
  with r(1) show ?case unfolding step by (intro exI [of _ r] conjI)
qed

context kv_store
begin

lemma next_proposal_id_spec:
  assumes "opened b"
  obtains r where "next_proposal_id K b = Ok (r + 1)" "r = 0 \<or> r \<in> proposal_ids (contents b)"
    "\<And>e. e \<in> proposal_ids (contents b) \<Longrightarrow> e \<le> r"
proof -
  obtain m where m: "kv_iter_prefix K b Meta PROP_PREFIX = map Ok m" "btree_ok m"
      "\<And>k v. (k, v) \<in> set m \<longleftrightarrow> starts_with PROP_PREFIX k \<and> contents b Meta k = Some v"
    using scan_spec [OF assms] by blast
  have e: "entry_indices PROP_PREFIX m = proposal_ids (contents b)"
    unfolding proposal_ids_def prop_key_def by (rule entry_indices_scan) (rule m(3))
  from max_proposal_id_spec [of 0 m] obtain r where "max_proposal_id 0 (map Ok m) = Ok r"
      "r = 0 \<or> r \<in> entry_indices PROP_PREFIX m" "\<forall>e \<in> entry_indices PROP_PREFIX m. e \<le> r"
    by (elim exE conjE)
  then show ?thesis by (intro that [of r]) (simp_all add: next_proposal_id_def m(1) e)
qed

text \<open>A proposal gets an identifier above all others, as long as the largest one is not the last number.\<close>

lemma propose_spec:
  assumes b: "opened b" and "utf8_valid title" and "length title < 2 ^ 32" and top: "max_word_val \<notin> proposal_ids (contents b)"
  obtains pid b' where "propose K b who title ends = (Ok pid, b')" "opened b'" "pid \<notin> proposal_ids (contents b)"
    "\<forall>e \<in> proposal_ids (contents b). e < pid" "pid = 1 \<or> proposal_ids (contents b) \<noteq> {}"
    "proposals (contents b') = (proposals (contents b))(pid \<mapsto> \<lparr>prop_id = pid, prop_title = title,
       voting_ends_at = ends, prop_status = Pending, proposer = who\<rparr>)"
    "ballots (contents b') = ballots (contents b)" "stakes (contents b') = stakes (contents b)"
proof -
  obtain r where r: "next_proposal_id K b = Ok (r + 1)" "r = 0 \<or> r \<in> proposal_ids (contents b)"
      "\<And>e. e \<in> proposal_ids (contents b) \<Longrightarrow> e \<le> r"
    using next_proposal_id_spec [OF b] by blast
  have "r \<noteq> max_word_val" using r(2) top unat_max_word_val [where 'a = 64] by (cases "r = 0") auto
  then have "unat r \<noteq> 2 ^ 64 - 1" using unat_max_word_val [where 'a = 64] by (simp add: word_unat_eq_iff)
  then have "unat r + 1 < 2 ^ 64" using unat_less_pow [of r] by simp
  then have less: "r < r + 1" by (simp add: word_less_nat_alt unat_word_ariths)
  let ?p = "\<lparr>prop_id = r + 1, prop_title = title, voting_ends_at = ends, prop_status = Pending, proposer = who\<rparr>"
  have "proposal_wf ?p" using assms(2,3) by (simp add: proposal_wf_def)
  from gov_put_proposal [OF b this] obtain b' where b':
      "gov_put K b (prop_key (r + 1)) (encode_proposal ?p) = (Ok (), b')" "opened b'"
      "proposals (contents b') = (proposals (contents b))(r + 1 \<mapsto> ?p)"
      "ballots (contents b') = ballots (contents b)" "tallies (contents b') = tallies (contents b)"
      "stakes (contents b') = stakes (contents b)" "registered (contents b') = registered (contents b)" .
  have "propose K b who title ends = (Ok (r + 1), b')" by (simp add: propose_def r(1) b'(1))
  moreover have "\<forall>e \<in> proposal_ids (contents b). e < r + 1"
    using r(3) less by (blast intro: order_le_less_trans)
  ultimately show ?thesis using b' r(2) by (intro that [of "r + 1" b']) auto
qed

end

subsection \<open>Properties\<close>

lemma stake_frame:
  assumes "\<And>cf k. \<not> stake_area cf k \<Longrightarrow> m' cf k = m cf k"
  shows "proposals m' = proposals m" "ballots m' = ballots m" "tallies m' = tallies m" "registered m' = registered m"
  using assms by (simp_all add: gov_views fun_eq_iff stake_area_def)

text \<open>
  (C14) A tally after the voting window is the two-thirds rule, computed with saturation at \<open>2 ^ 256 - 1\<close>. Let \<open>Y\<close> and \<open>N\<close> be
  the weights of the recorded yes and no votes, each voter counted once with the last vote, and \<open>T\<close> the stake bonded at the
  tally. The proposal passes exactly when \<open>0 < T\<close> and \<open>2 * T < 3 * Y\<close>, both sides cut off at \<open>2 ^ 256 - 1\<close>, and is rejected
  otherwise; the cut makes no difference while \<open>3 * Y\<close> fits 256 bits. The outcome is stored, and so are both sums, cut off
  in the same way; every later tally returns the same outcome without a change, and every later vote is refused.
\<close>

theorem tally_is_two_thirds:
  assumes K: "kv_store K opened contents" and b: "opened b"
    and p: "proposals (contents b) pid = Some p" "prop_status p = Pending" "voting_ends_at p \<le> h"
    and Y: "Y = ballot_sum (contents b) pid True" and N: "N = ballot_sum (contents b) pid False"
    and T: "T = ledger_bonded (stakes (contents b))" and M: "M = 2 ^ 256 - 1"
    and st: "st = (if 0 < T \<and> min (2 * T) M < min (3 * Y) M then Passed else Rejected)"
  shows "(3 * Y \<le> M \<longrightarrow> st = (if 0 < T \<and> 2 * T < 3 * Y then Passed else Rejected)) \<and>
    (\<exists>b'. gov_tally K b pid h = (Ok st, b') \<and> gov_get K b' pid = Ok (Some (p\<lparr>prop_status := st\<rparr>)) \<and>
       (\<exists>yes no. tally_of K b' pid = Ok (Some (yes, no)) \<and> unat yes = min Y M \<and> unat no = min N M) \<and>
       (\<forall>h'. gov_tally K b' pid h' = (Ok st, b')) \<and>
       (\<forall>a s h'. h \<le> h' \<longrightarrow> cast_gov_vote K b' pid a s h' = (Err (NodeMsg ''voting window closed''), b')))"
proof -
  obtain yes no bonded b' where v: "unat yes = min Y M" "unat bonded = min T M"
      "gov_tally K b pid h = (Ok (if passes yes bonded then Passed else Rejected), b')" "opened b'"
      "proposals (contents b') = (proposals (contents b))(pid \<mapsto>
        p\<lparr>prop_status := (if passes yes bonded then Passed else Rejected)\<rparr>)"
      "tallies (contents b') = (tallies (contents b))(pid \<mapsto> (yes, no))" "unat no = min N M"
    by (rule kv_store.tally_decides [OF K b p, folded Y N T M])
  have "st = (if passes yes bonded then Passed else Rejected)"
    using passes_exact [OF v(1,2) [unfolded M]] by (simp only: st M)
  then have props: "gov_tally K b pid h = (Ok st, b')"
      "proposals (contents b') = (proposals (contents b))(pid \<mapsto> p\<lparr>prop_status := st\<rparr>)"
    using v(3,5) by simp_all
  have "st \<noteq> Pending" using st by simp
  then have again: "gov_tally K b' pid h' = (Ok st, b')" for h'
    using kv_store.tally_waits(2) [OF K v(4), of pid "p\<lparr>prop_status := st\<rparr>" h'] props(2) by simp
  have closed: "cast_gov_vote K b' pid a s h' = (Err (NodeMsg ''voting window closed''), b')" if "h \<le> h'" for a s h'
    using kv_store.cast_gov_vote_spec [OF K v(4), of pid a s h'] props(2) order_trans [OF p(3) that]
    by (simp add: vote_outcome_def)
  have "3 * Y \<le> M \<longrightarrow> st = (if 0 < T \<and> 2 * T < 3 * Y then Passed else Rejected)" by (auto simp: st)
  with props again closed v(1,4,6,7) show ?thesis
    by (auto simp: kv_store.gov_get_spec [OF K v(4)] kv_store.tally_of_spec [OF K v(4)])
qed

text \<open>
  (C15) Stake that has left still decides: two stakers vote on a proposal, one for and one against, and the one in
  favour starts to unbond before the tally. The yes vote keeps the weight it was cast with while the unbonding
  stake no longer counts in the total. If the yes weight is more than two thirds of the other stake (and twice that stake is
  below \<open>2 ^ 256 - 1\<close>), the proposal passes although the only stake still bonded voted against it.
\<close>

theorem unbonded_votes_decide:
  assumes K: "kv_store K opened contents" and b: "opened b"
    and p: "proposals (contents b) pid = Some p" "prop_status p = Pending" "h < voting_ends_at p" "voting_ends_at p \<le> h'"
    and s: "stakes (contents b) = [a \<mapsto> (x, 0), c \<mapsto> (y, 0)]" "a \<noteq> c" "x \<noteq> 0" "y \<noteq> 0"
    and w: "2 * unat y < 3 * unat x" "2 * unat y < 2 ^ 256 - 1"
    and t: "ballots (contents b) pid = Map.empty" "0 < h"
  shows "\<exists>b1 b2 b3 b4 v1 v2.
    cast_gov_vote K b pid a True h = (Ok v1, b1) \<and> cast_gov_vote K b1 pid c False h = (Ok v2, b2) \<and>
    begin_unbond K b2 a h period = (Ok (), b3) \<and> gov_tally K b3 pid h' = (Ok Passed, b4) \<and>
    bonded_stakers (stakes (contents b3)) = {c} \<and> ballots (contents b3) pid c = Some (False, y)"
proof -
  have o1: "vote_outcome (contents b) pid a h = Ok x" using p s by (simp add: vote_outcome_def)
  obtain b1 v1 where b1: "cast_gov_vote K b pid a True h = (Ok v1, b1)" "opened b1"
      "ballots (contents b1) pid = [a \<mapsto> (True, x)]" "proposals (contents b1) = proposals (contents b)"
      "stakes (contents b1) = stakes (contents b)"
    using kv_store.cast_gov_vote_spec [OF K b, of pid a True h] t(1) unfolding o1 by auto
  have o2: "vote_outcome (contents b1) pid c h = Ok y" using p s b1 by (simp add: vote_outcome_def)
  obtain b2 v2 where b2: "cast_gov_vote K b1 pid c False h = (Ok v2, b2)" "opened b2"
      "ballots (contents b2) pid = [a \<mapsto> (True, x), c \<mapsto> (False, y)]"
      "proposals (contents b2) = proposals (contents b)" "stakes (contents b2) = stakes (contents b)"
    using kv_store.cast_gov_vote_spec [OF K b1(2), of pid c False h] b1(3-5) unfolding o2 by auto
  let ?u = "saturating_add h period"
  obtain b3 where b3: "run_stake_op K b2 (BeginUnbond a h period) = (Ok None, b3)" "opened b3"
      "stakes (contents b3) = [a \<mapsto> (x, ?u), c \<mapsto> (y, 0)]"
      "\<And>cf k. \<not> stake_area cf k \<Longrightarrow> contents b3 cf k = contents b2 cf k"
    using kv_store.run_stake_op_refines [OF K b2(2), of "BeginUnbond a h period"] b2(5) s(1,2)
    by (auto simp: fun_upd_twist)
  have run: "begin_unbond K b2 a h period = (Ok (), b3)"
    using b3(1) by (cases "begin_unbond K b2 a h period") (auto simp: no_payout_def and_then_Ok)
  have u: "?u \<noteq> 0" using t(2) unat_saturating_add [of h period] unat_less_pow [of h]
    by (auto simp: word_less_nat_alt unat_eq_zero)
  have frame: "proposals (contents b3) = proposals (contents b)"
      "ballots (contents b3) pid = [a \<mapsto> (True, x), c \<mapsto> (False, y)]"
    using stake_frame(1,2) [OF b3(4)] b2(3,4) by simp_all
  have bonded: "bonded_stakers (stakes (contents b3)) = {c}"
    using u s(2,4) by (auto simp: bonded_stakers_def b3(3))
  then have T: "ledger_bonded (stakes (contents b3)) = unat y" by (simp add: ledger_bonded_def b3(3))
  have "{v. \<exists>z. ballots (contents b3) pid v = Some (True, z)} = {a}"
    using s(2) by (auto simp: frame(2))
  then have Y: "ballot_sum (contents b3) pid True = unat x" using s(2) by (simp add: ballot_sum_def frame(2))
  obtain yes bonded b4 where v: "unat yes = min (unat x) (2 ^ 256 - 1)" "unat bonded = min (unat y) (2 ^ 256 - 1)"
      "gov_tally K b3 pid h' = (Ok (if passes yes bonded then Passed else Rejected), b4)"
    using kv_store.tally_decides [OF K b3(2), of pid p h'] p frame(1) unfolding Y T by metis
  have "gov_tally K b3 pid h' = (Ok Passed, b4)"
    using v(3) passes_exact [OF v(1,2)] w s(4) by (auto simp: unat_gt_0 min_def)
  then show ?thesis using b1(1) b2(1) run bonded frame(2) s(2) by fastforce
qed

text \<open>A store with two stakers, and one with a proposal besides.\<close>

definition demo_stakers :: store where
  "demo_stakers = snd (run_requests (run_stake_op MemoryBackend) MemoryBackend_new [Bond 1 100, Bond 2 60])"

lemma demo_stakers_facts:
  "mem_opened demo_stakers" "stakes (mem_contents demo_stakers) = [1 \<mapsto> (100, 0), 2 \<mapsto> (60, 0)]"
  "\<not> stake_area cf k \<Longrightarrow> mem_contents demo_stakers cf k = None"
proof -
  let ?ops = "[Bond 1 100, Bond 2 60]"
  have new: "stakes (mem_contents MemoryBackend_new) = Map.empty"
    by (simp add: mem_new_contents stakes_def fun_eq_iff)
  have ledger: "snd (run_requests ledger_op Map.empty ?ops) = [1 \<mapsto> (100, 0), 2 \<mapsto> (60, 0)]"
    by (simp add: saturating_add_def)
  note run = mem.run_stake_ops_refine [OF mem_new_opened, of ?ops, unfolded new ledger, folded demo_stakers_def]
  show "mem_opened demo_stakers" "stakes (mem_contents demo_stakers) = [1 \<mapsto> (100, 0), 2 \<mapsto> (60, 0)]"
    using run by (simp_all only:)
  show "mem_contents demo_stakers cf k = None" if "\<not> stake_area cf k"
    using run that by (simp only: mem_new_contents) blast
qed

lemma demo_governance:
  obtains b pid p where "mem_opened b" "stakes (mem_contents b) = [1 \<mapsto> (100, 0), 2 \<mapsto> (60, 0)]"
    "proposals (mem_contents b) pid = Some p" "prop_status p = Pending" "voting_ends_at p = 10"
    "ballots (mem_contents b) pid = Map.empty"
proof -
  let ?b = demo_stakers
  note frame = demo_stakers_facts(3) and opened = demo_stakers_facts(1) and st = demo_stakers_facts(2)
  have ids: "proposal_ids (mem_contents ?b) = {}"
    using frame [of Meta] by (simp add: proposal_ids_def stake_area_def)
  have utf: "utf8_valid (ascii ''x'')" "length (ascii ''x'') < 2 ^ 32"
    by (simp_all add: ascii_def utf8_valid.simps utf8_len_def)
  have "max_word_val \<notin> proposal_ids (mem_contents ?b)" by (simp only: ids empty_iff simp_thms)
  from mem.propose_spec [OF opened utf this, of 1 10] obtain pid b' where
      "propose MemoryBackend ?b 1 (ascii ''x'') 10 = (Ok pid, b')" "mem_opened b'" "pid \<notin> proposal_ids (mem_contents ?b)"
      "\<forall>e \<in> proposal_ids (mem_contents ?b). e < pid" "pid = 1 \<or> proposal_ids (mem_contents ?b) \<noteq> {}"
      "proposals (mem_contents b') = (proposals (mem_contents ?b))(pid \<mapsto> \<lparr>prop_id = pid, prop_title = ascii ''x'',
       voting_ends_at = 10, prop_status = Pending, proposer = 1\<rparr>)"
      "ballots (mem_contents b') = ballots (mem_contents ?b)" "stakes (mem_contents b') = stakes (mem_contents ?b)" .
  moreover have "ballots (mem_contents ?b) pid = Map.empty"
    using frame [of Meta] by (simp add: ballots_def stake_area_def fun_eq_iff)
  ultimately show ?thesis using st
    by (intro that [of b' pid "\<lparr>prop_id = pid, prop_title = ascii ''x'', voting_ends_at = 10,
      prop_status = Pending, proposer = 1\<rparr>"]) simp_all
qed

theorem tally_is_two_thirds_witness:
  "\<exists>b pid v b1 b' yes no. cast_gov_vote MemoryBackend b pid 1 True 5 = (Ok v, b1) \<and>
    gov_tally MemoryBackend b1 pid 10 = (Ok Rejected, b') \<and> gov_tally MemoryBackend b' pid 11 = (Ok Rejected, b') \<and>
    tally_of MemoryBackend b' pid = Ok (Some (yes, no)) \<and> unat yes = 100 \<and> unat no = 0"
proof -
  obtain b pid p where d: "mem_opened b" "stakes (mem_contents b) = [1 \<mapsto> (100, 0), 2 \<mapsto> (60, 0)]"
      "proposals (mem_contents b) pid = Some p" "prop_status p = Pending" "voting_ends_at p = 10"
      "ballots (mem_contents b) pid = Map.empty"
    by (rule demo_governance)
  have o: "vote_outcome (mem_contents b) pid 1 5 = Ok 100" using d by (simp add: vote_outcome_def)
  obtain b1 v where b1: "cast_gov_vote MemoryBackend b pid 1 True 5 = (Ok v, b1)" "mem_opened b1"
      "ballots (mem_contents b1) pid = [1 \<mapsto> (True, 100)]" "proposals (mem_contents b1) = proposals (mem_contents b)"
      "stakes (mem_contents b1) = stakes (mem_contents b)"
    using mem.cast_gov_vote_spec [OF d(1), of pid 1 True 5] d(6) unfolding o by auto
  have "{a. \<exists>w. ballots (mem_contents b1) pid a = Some (True, w)} = {1}" by (auto simp: b1(3))
  then have Y: "100 = ballot_sum (mem_contents b1) pid True" by (simp add: ballot_sum_def b1(3))
  have N: "0 = ballot_sum (mem_contents b1) pid False" by (simp add: ballot_sum_def b1(3))
  have stakers: "bonded_stakers (stakes (mem_contents b1)) = {1, 2}" by (auto simp: bonded_stakers_def b1(5) d(2))
  have T: "160 = ledger_bonded (stakes (mem_contents b1))"
    unfolding ledger_bonded_def stakers by (simp add: b1(5) d(2))
  have p: "proposals (mem_contents b1) pid = Some p" "voting_ends_at p \<le> 10" by (simp_all add: b1(4) d(3,5))
  from tally_is_two_thirds [where b = b1, OF mem.kv_store_axioms b1(2) p(1) d(4) p(2) Y N T refl refl]
  obtain b' yes no where "gov_tally MemoryBackend b1 pid 10 = (Ok Rejected, b')"
      "\<forall>h'. gov_tally MemoryBackend b' pid h' = (Ok Rejected, b')"
      "tally_of MemoryBackend b' pid = Ok (Some (yes, no))" "unat yes = 100" "unat no = 0"
    by auto
  with b1(1) show ?thesis by blast
qed

theorem unbonded_votes_decide_witness:
  "\<exists>b pid b3 b4. mem_opened b \<and> gov_tally MemoryBackend b3 pid 10 = (Ok Passed, b4) \<and>
    bonded_stakers (stakes (mem_contents b3)) = {2} \<and> ballots (mem_contents b3) pid 2 = Some (False, 60)"
proof -
  obtain b pid p where d: "mem_opened b" "stakes (mem_contents b) = [1 \<mapsto> (100, 0), 2 \<mapsto> (60, 0)]"
      "proposals (mem_contents b) pid = Some p" "prop_status p = Pending" "voting_ends_at p = 10"
      "ballots (mem_contents b) pid = Map.empty"
    by (rule demo_governance)
  have w: "5 < voting_ends_at p" "voting_ends_at p \<le> 10" by (simp_all add: d(5))
  note run = unbonded_votes_decide [where b = b and period = 20, OF mem.kv_store_axioms d(1,3,4) w d(2) _ _ _ _ _ d(6)]
  from run show ?thesis using d(1) by auto
qed

end
