(* ===== verification/Precompile.thy ===== *)
theory Precompile
  imports Governance
begin

section \<open>The staking and governance precompile\<close>

text \<open>
  \<open>aii-node/src/precompile.rs\<close>: the calls of the reserved address, told apart by the first four bytes of the
  call data, and their effect on the stake table, the key registry and the governance store. Error texts keep
  their constant part.
\<close>

definition PRECOMPILE_ADDR :: address where
  "PRECOMPILE_ADDR = 0x99"

definition OP_BOND :: "byte list" where "OP_BOND = [0x64, 0xc9, 0xec, 0x6f]"

definition OP_BEGIN_UNBOND :: "byte list" where "OP_BEGIN_UNBOND = [0x3f, 0x17, 0x2c, 0xef]"

definition OP_WITHDRAW :: "byte list" where "OP_WITHDRAW = [0x3c, 0xcf, 0xd6, 0x0b]"

definition OP_PROPOSE :: "byte list" where "OP_PROPOSE = [0x37, 0x03, 0x8a, 0x1d]"

definition OP_VOTE :: "byte list" where "OP_VOTE = [0xc7, 0xf2, 0x15, 0x60]"

definition OP_REGISTER_VALIDATOR :: "byte list" where "OP_REGISTER_VALIDATOR = [0x22, 0x6f, 0x26, 0x45]"

datatype precompile_outcome =
    Bonded address u256
  | UnbondStarted address
  | Withdrawn address u256
  | Proposed u64
  | Voted u64 bool
  | ValidatorRegistered address

datatype precompile_error = InvalidOpcode | InvalidArgs string | BackendFailed node_error

definition dispatch_bond ::
    "'b kv_backend \<Rightarrow> 'b \<Rightarrow> address \<Rightarrow> u256 \<Rightarrow> (precompile_error, precompile_outcome) result \<times> 'b" where
  "dispatch_bond K b sender value =
     (if value = 0 then (Err (InvalidArgs ''bond value is zero''), b)
      else let (r, b') = bond K b sender value
           in (and_then (map_err BackendFailed r) (\<lambda>_. Ok (Bonded sender value)), b'))"

definition dispatch_begin_unbond ::
    "'b kv_backend \<Rightarrow> 'b \<Rightarrow> address \<Rightarrow> u64 \<Rightarrow> u64 \<Rightarrow> (precompile_error, precompile_outcome) result \<times> 'b" where
  "dispatch_begin_unbond K b sender block_height period =
     (let (r, b') = begin_unbond K b sender block_height period
      in (and_then (map_err BackendFailed r) (\<lambda>_. Ok (UnbondStarted sender)), b'))"

definition dispatch_withdraw ::
    "'b kv_backend \<Rightarrow> 'b \<Rightarrow> address \<Rightarrow> u64 \<Rightarrow> (precompile_error, precompile_outcome) result \<times> 'b" where
  "dispatch_withdraw K b sender block_height =
     (let (r, b') = withdraw K b sender block_height
      in (and_then (map_err BackendFailed r) (\<lambda>swept. Ok (Withdrawn sender (case swept of None \<Rightarrow> 0 | Some x \<Rightarrow> x))), b'))"

definition dispatch_propose ::
    "'b kv_backend \<Rightarrow> 'b \<Rightarrow> address \<Rightarrow> byte list \<Rightarrow> (precompile_error, precompile_outcome) result \<times> 'b" where
  "dispatch_propose K b sender args =
     (if length args < 8 + 4 then (Err (InvalidArgs ''propose args truncated''), b)
      else let ends = from_be_bytes (slice 0 8 args);
               title_len = unat (from_be_bytes (slice 8 12 args) :: u32)
           in if length args < 12 + title_len then (Err (InvalidArgs ''propose title length overflows args''), b)
              else let title = slice 12 (12 + title_len) args
                   in if \<not> utf8_valid title then (Err (InvalidArgs ''propose title''), b)
                      else let (r, b') = propose K b sender title ends
                           in (and_then (map_err BackendFailed r) (\<lambda>pid. Ok (Proposed pid)), b'))"

definition dispatch_vote ::
    "'b kv_backend \<Rightarrow> 'b \<Rightarrow> address \<Rightarrow> byte list \<Rightarrow> u64 \<Rightarrow> (precompile_error, precompile_outcome) result \<times> 'b" where
  "dispatch_vote K b sender args block_height =
     (if length args \<noteq> 8 + 1 then (Err (InvalidArgs ''vote args must be 9 bytes''), b)
      else let pid = from_be_bytes (slice 0 8 args);
               support = (args ! 8 \<noteq> 0);
               (r, b') = cast_gov_vote K b pid sender support block_height
           in (and_then (map_err BackendFailed r) (\<lambda>_. Ok (Voted pid support)), b'))"

definition dispatch_register ::
    "crypto \<Rightarrow> 'b kv_backend \<Rightarrow> 'b \<Rightarrow> address \<Rightarrow> u256 \<Rightarrow> byte list
      \<Rightarrow> (precompile_error, precompile_outcome) result \<times> 'b" where
  "dispatch_register C K b sender value args =
     (if value \<noteq> 0 then (Err (InvalidArgs ''registerValidator value must be zero''), b)
      else if length args \<noteq> 48 + 32 then (Err (InvalidArgs ''registerValidator args must be 80 bytes''), b)
      else let bls = from_be_bytes (slice 0 48 args); vrf = from_be_bytes (drop 48 args)
           in case and_then (map_err (\<lambda>_. InvalidArgs ''bls_pubkey'') (bls_pk_from_compressed C bls)) (\<lambda>_.
                     map_err (\<lambda>_. InvalidArgs ''vrf_pubkey'') (vrf_pk_from_bytes C vrf)) of
                Err x \<Rightarrow> (Err x, b)
              | Panic \<Rightarrow> (Panic, b)
              | Ok _ \<Rightarrow>
                  let (r, b') = registry_register K b sender \<lparr>reg_bls = bls, reg_vrf = vrf\<rparr>
                  in (and_then (map_err BackendFailed r) (\<lambda>_. Ok (ValidatorRegistered sender)), b'))"

definition dispatch ::
    "crypto \<Rightarrow> 'b kv_backend \<Rightarrow> 'b \<Rightarrow> address \<Rightarrow> u256 \<Rightarrow> byte list \<Rightarrow> u64 \<Rightarrow> u64
      \<Rightarrow> (precompile_error, precompile_outcome) result \<times> 'b" where
  "dispatch C K b sender value data block_height period =
     (if length data < 4 then (Err InvalidOpcode, b)
      else let opcode = take 4 data; args = drop 4 data
           in if opcode = OP_BOND then dispatch_bond K b sender value
              else if opcode = OP_BEGIN_UNBOND then dispatch_begin_unbond K b sender block_height period
              else if opcode = OP_WITHDRAW then dispatch_withdraw K b sender block_height
              else if opcode = OP_PROPOSE then dispatch_propose K b sender args
              else if opcode = OP_VOTE then dispatch_vote K b sender args block_height
              else if opcode = OP_REGISTER_VALIDATOR then dispatch_register C K b sender value args
              else (Err InvalidOpcode, b))"

subsection \<open>What a call may touch\<close>

text \<open>
  A call only writes the tables of the node in the column family \<open>Meta\<close>, never an account; storage stays
  usable, and a refused call writes nothing.
\<close>

definition table_area :: "column_family \<Rightarrow> byte list \<Rightarrow> bool" where
  "table_area cf k \<longleftrightarrow> cf = Meta \<and> (starts_with STAKE_PREFIX k \<or> starts_with REGISTRY_PREFIX k \<or>
     starts_with PROP_PREFIX k \<or> starts_with VOTE_PREFIX k)"

lemma table_area_keys [simp]:
  "table_area Meta (stake_key a)" "table_area Meta (registry_key a)" "table_area Meta (prop_key p)"
  "table_area Meta (gov_vote_key p a)" "stake_area cf k \<Longrightarrow> table_area cf k"
  by (simp_all add: table_area_def stake_area_def stake_key_def registry_key_def prop_key_def gov_vote_key_def)

definition confined :: "('b \<Rightarrow> bool) \<Rightarrow> ('b \<Rightarrow> contents) \<Rightarrow> 'b \<Rightarrow> ('e, 'a) result \<times> 'b \<Rightarrow> bool" where
  "confined opened contents b out \<longleftrightarrow> opened (snd out) \<and> fst out \<noteq> Panic \<and>
     (\<forall>cf k. \<not> table_area cf k \<longrightarrow> contents (snd out) cf k = contents b cf k) \<and>
     (\<not> is_ok (fst out) \<longrightarrow> snd out = b)"

context kv_store
begin

lemma confined_refused: "opened b \<Longrightarrow> confined opened contents b (Err x, b)"
  by (simp add: confined_def)

lemma put_confined:
  assumes "opened b" and "table_area Meta k"
  shows "confined opened contents b (kv_put K b Meta k v)" "\<exists>b'. kv_put K b Meta k v = (Ok (), b')"
  using put_spec [OF assms(1), of Meta k v] assms(2) by (auto simp: confined_def)

lemma delete_confined:
  assumes "opened b" and "table_area Meta k"
  shows "confined opened contents b (kv_delete K b Meta k)" "\<exists>b'. kv_delete K b Meta k = (Ok (), b')"
  using delete_spec [OF assms(1), of Meta k] assms(2) by (auto simp: confined_def)

lemma confined_Ok: "confined opened contents b (Ok x, b') \<Longrightarrow> confined opened contents b (Ok y, b')"
  by (simp add: confined_def)

lemma stake_put_confined: "opened b \<Longrightarrow> confined opened contents b (stake_put K b a x u)"
  using put_confined [of b "stake_key a" "stake_encode_value x u"] by (auto simp: stake_put_def intro: confined_Ok)

lemma gov_put_confined:
  assumes "opened b" and "table_area Meta k"
  shows "\<exists>b'. gov_put K b k v = (Ok (), b') \<and> (\<forall>y. confined opened contents b (Ok y, b'))"
  using put_confined [OF assms, of v] by (auto simp: gov_put_def intro: confined_Ok)

lemma stake_ops_confined:
  assumes b: "opened b"
  shows "confined opened contents b (bond K b a d)" "confined opened contents b (begin_unbond K b a h p)"
    "confined opened contents b (withdraw K b a h)"
  using stake_put_confined [OF b] confined_refused [OF b] delete_confined [OF b, of "stake_key a"] b
  by (auto simp: bond_def begin_unbond_def withdraw_def stake_get_spec [OF b] Let_def confined_def
    split: option.split)

lemma confined_map: "confined opened contents b out \<Longrightarrow>
    confined opened contents b (and_then (map_err f (fst out)) (\<lambda>x. Ok (g x)), snd out)"
  by (cases "fst out") (auto simp: confined_def)

lemma registry_confined: "opened b \<Longrightarrow> confined opened contents b (registry_register K b a ks)"
  using put_confined [of b "registry_key a" "registry_encode_value ks"] by (auto simp: registry_register_def intro: confined_Ok)

lemma vote_confined:
  assumes b: "opened b"
  shows "confined opened contents b (cast_gov_vote K b pid a s h)"
proof (cases "vote_outcome (contents b) pid a h")
  case (Err x)
  then show ?thesis using cast_gov_vote_spec [OF b, of pid a s h] confined_refused [OF b] by simp
next
  case Panic
  then show ?thesis using cast_gov_vote_spec [OF b, of pid a s h] by simp
next
  case (Ok x)
  then obtain p where "proposals (contents b) pid = Some p" "\<not> voting_ends_at p \<le> h"
      "stakes (contents b) a = Some (x, 0)" "x \<noteq> 0"
    by (auto simp: vote_outcome_def split: option.splits if_splits)
  then show ?thesis
    using gov_put_confined [OF b, of "gov_vote_key pid a"
        "encode_gov_vote \<lparr>gv_proposal = pid, gv_voter = a, gv_support = s, gv_weight = x\<rparr>"]
    by (auto simp: cast_gov_vote_def gov_get_spec [OF b] stake_get_spec [OF b] is_bonded_def)
qed

lemma propose_confined:
  assumes b: "opened b"
  shows "confined opened contents b (propose K b who title ends)"
proof -
  obtain r where r: "next_proposal_id K b = Ok (r + 1)" using next_proposal_id_spec [OF b] by blast
  show ?thesis
    using gov_put_confined [OF b, of "prop_key (r + 1)" "encode_proposal \<lparr>prop_id = r + 1, prop_title = title,
      voting_ends_at = ends, prop_status = Pending, proposer = who\<rparr>"]
    by (auto simp: propose_def r)
qed

lemma dispatch_confined:
  assumes b: "opened b"
  shows "confined opened contents b (dispatch C K b sender value data h period)"
proof -
  note ops = confined_map [OF stake_ops_confined(1) [OF b, of sender "value"]]
    confined_map [OF stake_ops_confined(2) [OF b, of sender h period]]
    confined_map [OF stake_ops_confined(3) [OF b, of sender h]] confined_refused [OF b]
  have "confined opened contents b (dispatch_bond K b sender value)"
    using ops by (auto simp: dispatch_bond_def Let_def split_beta)
  moreover have "confined opened contents b (dispatch_begin_unbond K b sender h period)"
    using ops by (auto simp: dispatch_begin_unbond_def Let_def split_beta)
  moreover have "confined opened contents b (dispatch_withdraw K b sender h)"
    using ops by (auto simp: dispatch_withdraw_def Let_def split_beta)
  moreover have "confined opened contents b (dispatch_propose K b sender args)" for args
    using ops confined_map [OF propose_confined [OF b]] by (auto simp: dispatch_propose_def Let_def split_beta)
  moreover have "confined opened contents b (dispatch_vote K b sender args h)" for args
    using ops confined_map [OF vote_confined [OF b]] by (auto simp: dispatch_vote_def Let_def split_beta)
  moreover have "confined opened contents b (dispatch_register C K b sender value args)" for args
    using ops confined_map [OF registry_confined [OF b]]
    by (auto simp: dispatch_register_def Let_def split_beta bls_pk_from_compressed_def vrf_pk_from_bytes_def
      split: option.splits)
  ultimately show ?thesis using ops by (auto simp: dispatch_def Let_def)
qed

end

end
