(* ===== verification/Evm.thy ===== *)
theory Evm
  imports WorldState
begin

section \<open>Execution of transactions\<close>

text \<open>
  \<open>aii-evm\<close>: the direct value transfer of \<open>lib.rs\<close>, the database adapter of \<open>revm_db.rs\<close> and the two drivers of
  \<open>revm_exec.rs\<close>. The interpreter itself is the third-party crate \<open>revm\<close>: a function that reads the state through
  the adapter and returns a result and the changed accounts, taken here as an argument. The drivers set the
  fields of its transaction environment named in \<open>tx_env\<close> and leave the others at their defaults; in
  particular the nonce of the transaction is not passed on.
\<close>

subsection \<open>lib.rs\<close>

datatype exec_error =
    StateFailed state_error
  | NonceMismatch u64 u64
  | InsufficientBalance
  | ContractCallsNotYetSupported
  | Revm string

definition unpack_tx :: "tx \<Rightarrow> (exec_error, u64 \<times> u64 \<times> address option \<times> u256 \<times> u256) result" where
  "unpack_tx tx =
     (case tx of
        Legacy t \<Rightarrow> Ok (nonce t, gas_limit t, to_addr t, tx_value t, gas_price t)
      | Eip1559 t \<Rightarrow> Ok (nonce_1559 t, gas_limit_1559 t, to_1559 t, value_1559 t, max_fee_per_gas t)
      | Eip4844 _ \<Rightarrow> Err ContractCallsNotYetSupported)"

definition account_or_empty ::
    "'b kv_backend \<Rightarrow> crypto \<Rightarrow> rlp \<Rightarrow> 'b \<Rightarrow> address \<Rightarrow> (state_error, account) result" where
  "account_or_empty K C R b a =
     and_then (db_account K C R b a) (\<lambda>got. Ok (case got of None \<Rightarrow> Account_EMPTY | Some acc \<Rightarrow> acc))"

text \<open>The reads and checks of \<open>execute_transfer\<close>; both accounts are read before either is written.\<close>

definition transfer_plan ::
    "'b kv_backend \<Rightarrow> crypto \<Rightarrow> rlp \<Rightarrow> 'b \<Rightarrow> address \<Rightarrow> tx \<Rightarrow> (exec_error, address \<times> u64 \<times> account \<times> account) result" where
  "transfer_plan K C R b sender tx =
     and_then (unpack_tx tx) (\<lambda>(n, limit, dest, amount, _).
     and_then (ok_or ContractCallsNotYetSupported dest) (\<lambda>dst.
     and_then (map_err StateFailed (account_or_empty K C R b sender)) (\<lambda>from_acc.
       if acc_nonce from_acc \<noteq> n then Err (NonceMismatch (acc_nonce from_acc) n)
       else if balance from_acc < amount then Err InsufficientBalance
       else and_then (map_err StateFailed (account_or_empty K C R b dst)) (\<lambda>to_acc.
         if \<not> is_eoa to_acc then Err ContractCallsNotYetSupported
         else Ok (dst, limit,
           from_acc\<lparr>balance := balance from_acc - amount, acc_nonce := acc_nonce from_acc + 1\<rparr>,
           to_acc\<lparr>balance := balance to_acc + amount\<rparr>)))))"

definition execute_transfer ::
    "'b kv_backend \<Rightarrow> crypto \<Rightarrow> rlp \<Rightarrow> 'b \<Rightarrow> address \<Rightarrow> tx \<Rightarrow> (exec_error, receipt) result \<times> 'b" where
  "execute_transfer K C R b sender tx =
     (case transfer_plan K C R b sender tx of
        Err x \<Rightarrow> (Err x, b)
      | Panic \<Rightarrow> (Panic, b)
      | Ok (dst, limit, from_acc, to_acc) \<Rightarrow>
          (let (r, b1) = set_account K C R b sender from_acc in
           (case map_err StateFailed r of
              Err x \<Rightarrow> (Err x, b1)
            | Panic \<Rightarrow> (Panic, b1)
            | Ok _ \<Rightarrow>
                (let (r', b2) = set_account K C R b1 dst to_acc in
                 (and_then (map_err StateFailed r') (\<lambda>_.
                    Ok \<lparr>rc_tx_type = tx_ty tx, status = True, cumulative_gas_used = min 21000 limit,
                        rc_logs_bloom = Bloom_ZERO, logs = []\<rparr>), b2)))))"

subsection \<open>The interface of revm\<close>

record account_info =
  info_balance :: u256
  info_nonce :: u64
  info_code_hash :: h256

record revm_database =
  db_basic :: "address \<Rightarrow> account_info option"
  db_code_by_hash :: "h256 \<Rightarrow> byte list"
  db_storage :: "address \<Rightarrow> u256 \<Rightarrow> u256"
  db_block_hash :: "u64 \<Rightarrow> h256"

record tx_env =
  env_caller :: address
  env_transact_to :: "address option"
  env_value :: u256
  env_data :: "byte list"
  env_gas_limit :: u64
  env_gas_price :: u256

record storage_slot =
  original_value :: u256
  present_value :: u256

record revm_account =
  ra_nonce :: u64
  ra_balance :: u256
  ra_code_hash :: h256
  ra_code :: "byte list option"
  ra_storage :: "(u256 \<times> storage_slot) list"

datatype revm_output = OutCall "byte list" | OutCreate "byte list" "address option"

datatype execution_result =
    Success u64 "log list" revm_output
  | Revert u64 "byte list"
  | Halt u64 string

type_synonym revm_changes = "(address \<times> revm_account) list"

type_synonym revm = "revm_database \<Rightarrow> tx_env \<Rightarrow> string + execution_result \<times> revm_changes"

subsection \<open>revm\_db.rs\<close>

definition revm_basic :: "'b kv_backend \<Rightarrow> crypto \<Rightarrow> rlp \<Rightarrow> 'b \<Rightarrow> address \<Rightarrow> account_info option" where
  "revm_basic K C R b a =
     (case db_account K C R b a of
        Ok (Some acc) \<Rightarrow>
          Some \<lparr>info_balance = balance acc, info_nonce = acc_nonce acc, info_code_hash = code_hash acc\<rparr>
      | _ \<Rightarrow> None)"

definition revm_code_by_hash :: "'b kv_backend \<Rightarrow> 'b \<Rightarrow> h256 \<Rightarrow> byte list" where
  "revm_code_by_hash K b h = (case code_get K b h of Ok (Some bytes) \<Rightarrow> bytes | _ \<Rightarrow> [])"

definition revm_storage :: "'b kv_backend \<Rightarrow> 'b \<Rightarrow> address \<Rightarrow> u256 \<Rightarrow> u256" where
  "revm_storage K b a index =
     (case storage_get K b a (from_be_bytes (to_be_bytes 32 index)) of
        Ok v \<Rightarrow> from_be_bytes (h256_bytes v)
      | _ \<Rightarrow> 0)"

definition revm_block_hash :: "u64 \<Rightarrow> h256" where
  "revm_block_hash n = from_be_bytes (replicate 24 0 @ to_be_bytes 8 n)"

definition RevmDb :: "'b kv_backend \<Rightarrow> crypto \<Rightarrow> rlp \<Rightarrow> 'b \<Rightarrow> revm_database" where
  "RevmDb K C R b =
     \<lparr>db_basic = revm_basic K C R b, db_code_by_hash = revm_code_by_hash K b, db_storage = revm_storage K b,
      db_block_hash = revm_block_hash\<rparr>"

subsection \<open>revm\_exec.rs\<close>

record execution_summary =
  es_success :: bool
  es_gas_used :: u64
  es_output :: "byte list"
  deployed_contract :: "address option"
  es_logs :: "log list"

record simulation_result =
  sim_success :: bool
  sim_gas_used :: u64
  return_data :: "byte list"
  revert_reason :: "string option"
  sim_logs :: "log list"

primrec result_gas_used :: "execution_result \<Rightarrow> u64" where
  "result_gas_used (Success g _ _) = g"
| "result_gas_used (Revert g _) = g"
| "result_gas_used (Halt g _) = g"

text \<open>The slots that changed, written one by one.\<close>

primrec apply_slots ::
    "'b kv_backend \<Rightarrow> 'b \<Rightarrow> address \<Rightarrow> (u256 \<times> storage_slot) list \<Rightarrow> (state_error, unit) result \<times> 'b" where
  "apply_slots K b a [] = (Ok (), b)"
| "apply_slots K b a (s # ss) =
     (if original_value (snd s) = present_value (snd s) then apply_slots K b a ss
      else let (r, b') = storage_put K b a (from_be_bytes (to_be_bytes 32 (fst s)))
             (from_be_bytes (to_be_bytes 32 (present_value (snd s))))
           in case r of Ok _ \<Rightarrow> apply_slots K b' a ss | Err x \<Rightarrow> (Err x, b') | Panic \<Rightarrow> (Panic, b'))"

definition apply_code :: "'b kv_backend \<Rightarrow> 'b \<Rightarrow> revm_account \<Rightarrow> (state_error, unit) result \<times> 'b" where
  "apply_code K b acc =
     (case ra_code acc of
        Some code \<Rightarrow> if code \<noteq> [] then code_put K b (ra_code_hash acc) code else (Ok (), b)
      | None \<Rightarrow> (Ok (), b))"

primrec apply_changes ::
    "'b kv_backend \<Rightarrow> crypto \<Rightarrow> rlp \<Rightarrow> 'b \<Rightarrow> revm_changes \<Rightarrow> (state_error, unit) result \<times> 'b" where
  "apply_changes K C R b [] = (Ok (), b)"
| "apply_changes K C R b (ch # chs) =
     (case account_or_empty K C R b (fst ch) of
        Err x \<Rightarrow> (Err x, b)
      | Panic \<Rightarrow> (Panic, b)
      | Ok out \<Rightarrow>
          let out' = out\<lparr>acc_nonce := ra_nonce (snd ch), balance := ra_balance (snd ch),
                code_hash := ra_code_hash (snd ch)\<rparr>;
              (r, b1) = set_account K C R b (fst ch) out'
          in case r of
               Err x \<Rightarrow> (Err x, b1)
             | Panic \<Rightarrow> (Panic, b1)
             | Ok _ \<Rightarrow>
                 let (r1, b2) = apply_code K b1 (snd ch)
                 in case r1 of
                      Err x \<Rightarrow> (Err x, b2)
                    | Panic \<Rightarrow> (Panic, b2)
                    | Ok _ \<Rightarrow>
                        let (r2, b3) = apply_slots K b2 (fst ch) (ra_storage (snd ch))
                        in case r2 of
                             Err x \<Rightarrow> (Err x, b3)
                           | Panic \<Rightarrow> (Panic, b3)
                           | Ok _ \<Rightarrow> apply_changes K C R b3 chs)"

definition summary_of :: "execution_result \<Rightarrow> execution_summary" where
  "summary_of res =
     (let success = (case res of Success _ _ _ \<Rightarrow> True | _ \<Rightarrow> False);
          gas = result_gas_used res;
          ls = (case res of Success _ ls _ \<Rightarrow> ls | _ \<Rightarrow> []);
          (out, deployed) = (case res of
              Success _ _ out \<Rightarrow> (case out of OutCall bytes \<Rightarrow> (bytes, None) | OutCreate bytes a \<Rightarrow> (bytes, a))
            | _ \<Rightarrow> ([], None))
      in \<lparr>es_success = success, es_gas_used = gas, es_output = out, deployed_contract = deployed, es_logs = ls\<rparr>)"

definition execute_with_revm ::
    "revm \<Rightarrow> 'b kv_backend \<Rightarrow> crypto \<Rightarrow> rlp \<Rightarrow> 'b \<Rightarrow> address \<Rightarrow> address option \<Rightarrow> u256 \<Rightarrow> byte list \<Rightarrow> u64 \<Rightarrow> u256
      \<Rightarrow> (exec_error, execution_summary) result \<times> 'b" where
  "execute_with_revm V K C R b sender dest amount data limit price =
     (case V (RevmDb K C R b)
          \<lparr>env_caller = sender, env_transact_to = dest, env_value = amount, env_data = data, env_gas_limit = limit,
           env_gas_price = price\<rparr> of
        Inl msg \<Rightarrow> (Err (Revm msg), b)
      | Inr (res, changes) \<Rightarrow>
          let (r, b') = apply_changes K C R b changes
          in (and_then (map_err StateFailed r) (\<lambda>_. Ok (summary_of res)), b'))"

definition simulate_with_revm ::
    "revm \<Rightarrow> 'b kv_backend \<Rightarrow> crypto \<Rightarrow> rlp \<Rightarrow> 'b \<Rightarrow> address \<Rightarrow> address option \<Rightarrow> u256 \<Rightarrow> byte list \<Rightarrow> u64 \<Rightarrow> u256
      \<Rightarrow> (exec_error, simulation_result) result" where
  "simulate_with_revm V K C R b sender dest amount data limit price =
     (case V (RevmDb K C R b)
          \<lparr>env_caller = sender, env_transact_to = dest, env_value = amount, env_data = data, env_gas_limit = limit,
           env_gas_price = price\<rparr> of
        Inl msg \<Rightarrow> Err (Revm msg)
      | Inr (res, _) \<Rightarrow>
          let success = (case res of Success _ _ _ \<Rightarrow> True | _ \<Rightarrow> False);
              gas = result_gas_used res;
              (ret, reason) = (case res of
                  Success _ _ out \<Rightarrow> ((case out of OutCall bytes \<Rightarrow> bytes | OutCreate bytes _ \<Rightarrow> bytes), None)
                | Revert _ out \<Rightarrow> (out, Some ''revert'')
                | Halt _ reason \<Rightarrow> ([], Some (''halt: '' @ reason)));
              ls = (case res of Success _ ls _ \<Rightarrow> ls | _ \<Rightarrow> [])
          in Ok \<lparr>sim_success = success, sim_gas_used = gas, return_data = ret, revert_reason = reason, sim_logs = ls\<rparr>)"

subsection \<open>Transfers\<close>

context kv_store
begin

lemma set_account_Ok:
  assumes "opened b"
  obtains b' where "set_account K C R b a acc = (Ok (), b')" "opened b'"
    "contents b' = apply_op (contents b) (OpPut State (state_key C a) (Account_encode R acc))"
  using set_account_effect [OF assms] by blast

lemma set_account_reads:
  assumes "rlp_encodes R" and "opened b" and "set_account K C R b a acc = (r, b')"
  shows "db_account K C R b' a' = (if state_key C a' = state_key C a then Ok (Some acc) else db_account K C R b a')"
  using account_after_set [OF assms(1,2), of C a acc a'] assms(3) by simp

lemma transfer_runs:
  assumes b: "opened b" and tx: "unpack_tx tx = Ok (n, limit, Some dst, v, price)"
    and fr: "account_or_empty K C R b sender = Ok fa" "acc_nonce fa = n" "v \<le> balance fa"
    and dst: "account_or_empty K C R b dst = Ok ta" "is_eoa ta"
  obtains b1 b2 where
    "set_account K C R b sender (fa\<lparr>balance := balance fa - v, acc_nonce := acc_nonce fa + 1\<rparr>) = (Ok (), b1)" "opened b1"
    "set_account K C R b1 dst (ta\<lparr>balance := balance ta + v\<rparr>) = (Ok (), b2)" "opened b2"
    "execute_transfer K C R b sender tx = (Ok \<lparr>rc_tx_type = tx_ty tx, status = True,
       cumulative_gas_used = min 21000 limit, rc_logs_bloom = Bloom_ZERO, logs = []\<rparr>, b2)"
proof -
  obtain b1 where b1: "set_account K C R b sender (fa\<lparr>balance := balance fa - v, acc_nonce := acc_nonce fa + 1\<rparr>) = (Ok (), b1)"
      "opened b1" using set_account_Ok [OF b] by blast
  obtain b2 where b2: "set_account K C R b1 dst (ta\<lparr>balance := balance ta + v\<rparr>) = (Ok (), b2)" "opened b2"
    using set_account_Ok [OF b1(2)] by blast
  show ?thesis
    using b1 b2 fr dst by (intro that [of b1 b2]) (simp_all add: execute_transfer_def transfer_plan_def tx linorder_not_less)
qed

end

lemma transfer_checks:
  assumes "execute_transfer K C R b sender tx = (Ok rc, b')"
  obtains n limit dst v price fa ta where "unpack_tx tx = Ok (n, limit, Some dst, v, price)"
    "account_or_empty K C R b sender = Ok fa" "acc_nonce fa = n" "v \<le> balance fa"
    "account_or_empty K C R b dst = Ok ta" "is_eoa ta"
proof -
  obtain plan where "transfer_plan K C R b sender tx = Ok plan"
    using assms by (cases "transfer_plan K C R b sender tx") (simp_all add: execute_transfer_def)
  then show ?thesis
    using that by (auto simp: transfer_plan_def and_then_Ok map_err_Ok ok_or_Ok linorder_not_less split: if_splits)
qed

subsection \<open>Properties\<close>

definition empty_or :: "account option \<Rightarrow> account" where
  "empty_or got = (case got of None \<Rightarrow> Account_EMPTY | Some acc \<Rightarrow> acc)"

lemma account_or_empty_iff:
  "account_or_empty K C R b a = Ok acc \<longleftrightarrow> (\<exists>got. db_account K C R b a = Ok got \<and> acc = empty_or got)"
  by (auto simp: account_or_empty_def empty_or_def and_then_Ok)

text \<open>A store with one funded account and two transfers from it.\<close>

definition demo_funded :: store where
  "demo_funded =
     snd (set_account MemoryBackend demo_crypto rlp_format MemoryBackend_new 1 (Account_EMPTY\<lparr>balance := 100\<rparr>))"

definition demo_pay :: "address \<Rightarrow> tx" where
  "demo_pay dst = Legacy \<lparr>nonce = 0, gas_price = 1, gas_limit = 21000, to_addr = Some dst, tx_value = 30, tx_data = [],
     tx_v = 27, tx_r = 1, tx_s = 1, algo = Secp256k1\<rparr>"

lemma demo_keys_differ: "state_key demo_crypto a = state_key demo_crypto c \<longleftrightarrow> a = c"
proof -
  have v: "unat (from_be_bytes (address_bytes x) :: h256) = unat x" for x :: address
  proof -
    have "unat x < 2 ^ 160" using unat_less_pow [of x] by simp
    moreover from this have "be_val (address_bytes x) = unat x"
      by (simp add: to_be_bytes_def be_val_be_nat pow_256)
    ultimately show ?thesis unfolding from_be_bytes_def by (simp only: unat_of_nat) simp
  qed
  have "(from_be_bytes (address_bytes a) :: h256) = from_be_bytes (address_bytes c) \<longleftrightarrow> a = c"
    by (metis v word_unat_eq_iff)
  then show ?thesis by (simp add: state_key_def keccak256_def demo_crypto_def to_be_bytes_inject)
qed

lemma demo_funded_facts:
  "mem_opened demo_funded"
  "db_account MemoryBackend demo_crypto rlp_format demo_funded 1 = Ok (Some (Account_EMPTY\<lparr>balance := 100\<rparr>))"
  "a \<noteq> 1 \<Longrightarrow> db_account MemoryBackend demo_crypto rlp_format demo_funded a = Ok None"
proof -
  have "db_account MemoryBackend demo_crypto rlp_format MemoryBackend_new c = Ok None" for c
    by (simp add: mem.account_spec [OF mem_new_opened] mem_new_contents)
  then show "mem_opened demo_funded"
    "db_account MemoryBackend demo_crypto rlp_format demo_funded 1 = Ok (Some (Account_EMPTY\<lparr>balance := 100\<rparr>))"
    "a \<noteq> 1 \<Longrightarrow> db_account MemoryBackend demo_crypto rlp_format demo_funded a = Ok None"
    using mem.set_account_effect [OF mem_new_opened, of demo_crypto rlp_format 1 "Account_EMPTY\<lparr>balance := 100\<rparr>"]
    by (auto simp: demo_funded_def demo_keys_differ
      mem.account_after_set [OF rlp_format_encodes mem_new_opened])
qed

lemma demo_pay_plan: "unpack_tx (demo_pay dst) = Ok (0, 21000, Some dst, 30, 1)"
  by (simp add: unpack_tx_def demo_pay_def)

lemma demo_pay_runs:
  "\<exists>rc b'. execute_transfer MemoryBackend demo_crypto rlp_format demo_funded 1 (demo_pay 2) = (Ok rc, b')"
proof -
  have e: "account_or_empty MemoryBackend demo_crypto rlp_format demo_funded 1 = Ok (Account_EMPTY\<lparr>balance := 100\<rparr>)"
      "account_or_empty MemoryBackend demo_crypto rlp_format demo_funded 2 = Ok Account_EMPTY"
    by (simp_all add: account_or_empty_def demo_funded_facts(2) demo_funded_facts(3) [of 2])
  have c: "acc_nonce (Account_EMPTY\<lparr>balance := 100\<rparr>) = 0" "30 \<le> balance (Account_EMPTY\<lparr>balance := 100\<rparr>)" "is_eoa Account_EMPTY"
    by (simp_all add: Account_EMPTY_def is_eoa_def)
  show ?thesis
    by (rule mem.transfer_runs [OF demo_funded_facts(1) demo_pay_plan e(1) c(1,2) e(2) c(3)]) blast
qed

text \<open>
  (C16) A direct transfer moves exactly its value: when it succeeds between two different accounts, the sender
  had the nonce of the transaction and at least the value, afterwards the sender has the value less and the next
  nonce, the receiver the value more, every other account is as before, and the sum of the two balances is the
  same unless the receiver's balance wraps.
\<close>

theorem transfer_moves_value:
  assumes K: "kv_store K opened contents" and R: "rlp_encodes R" and b: "opened b"
    and run: "execute_transfer K C R b sender tx = (Ok rc, b')"
    and tx: "unpack_tx tx = Ok (n, limit, Some dst, v, price)" and diff: "state_key C sender \<noteq> state_key C dst"
  shows "\<exists>got got'. db_account K C R b sender = Ok got \<and> db_account K C R b dst = Ok got' \<and>
    acc_nonce (empty_or got) = n \<and> v \<le> balance (empty_or got) \<and>
    db_account K C R b' sender = Ok (Some ((empty_or got)\<lparr>balance := balance (empty_or got) - v, acc_nonce := n + 1\<rparr>)) \<and>
    db_account K C R b' dst = Ok (Some ((empty_or got')\<lparr>balance := balance (empty_or got') + v\<rparr>)) \<and>
    (\<forall>a. state_key C a \<notin> {state_key C sender, state_key C dst} \<longrightarrow> db_account K C R b' a = db_account K C R b a) \<and>
    (unat (balance (empty_or got')) + unat v < 2 ^ 256 \<longrightarrow>
      unat (balance (empty_or got) - v) + unat (balance (empty_or got') + v) =
      unat (balance (empty_or got)) + unat (balance (empty_or got')))"
proof -
  from transfer_checks [OF run] obtain n' limit' dst' v' price' fa ta where
      "unpack_tx tx = Ok (n', limit', Some dst', v', price')" "account_or_empty K C R b sender = Ok fa" "acc_nonce fa = n'"
      "v' \<le> balance fa" "account_or_empty K C R b dst' = Ok ta" "is_eoa ta" .
  then have acc: "account_or_empty K C R b sender = Ok fa" "acc_nonce fa = n" "v \<le> balance fa"
      "account_or_empty K C R b dst = Ok ta" "is_eoa ta"
    using tx by simp_all
  obtain b1 b2 where w: "set_account K C R b sender (fa\<lparr>balance := balance fa - v, acc_nonce := acc_nonce fa + 1\<rparr>) = (Ok (), b1)"
      "opened b1" "set_account K C R b1 dst (ta\<lparr>balance := balance ta + v\<rparr>) = (Ok (), b2)" "opened b2"
      "execute_transfer K C R b sender tx = (Ok \<lparr>rc_tx_type = tx_ty tx, status = True,
        cumulative_gas_used = min 21000 limit, rc_logs_bloom = Bloom_ZERO, logs = []\<rparr>, b2)"
    by (rule kv_store.transfer_runs [OF K b tx acc])
  have "b' = b2" using w(5) run by simp
  note reads = kv_store.set_account_reads [OF K R b w(1)] kv_store.set_account_reads [OF K R w(2,3)]
  have "unat (balance fa - v) = unat (balance fa) - unat v" "unat v \<le> unat (balance fa)"
    using acc(3) by (simp_all add: unat_sub word_le_nat_alt)
  moreover have "unat (balance ta + v) = unat (balance ta) + unat v" if "unat (balance ta) + unat v < 2 ^ 256"
    using that by (simp add: unat_add_small)
  moreover obtain got got' where "db_account K C R b sender = Ok got" "fa = empty_or got"
      "db_account K C R b dst = Ok got'" "ta = empty_or got'"
    using acc(1,4) by (auto simp: account_or_empty_iff)
  ultimately show ?thesis
    using acc(2,3) diff reads \<open>b' = b2\<close> by (intro exI [of _ got] exI [of _ got']) auto
qed

theorem transfer_moves_value_witness:
  "\<exists>rc b'. execute_transfer MemoryBackend demo_crypto rlp_format demo_funded 1 (demo_pay 2) = (Ok rc, b') \<and>
    db_account MemoryBackend demo_crypto rlp_format b' 2 = Ok (Some (Account_EMPTY\<lparr>balance := 30\<rparr>))"
proof -
  obtain rc b' where run: "execute_transfer MemoryBackend demo_crypto rlp_format demo_funded 1 (demo_pay 2) = (Ok rc, b')"
    using demo_pay_runs by blast
  have "state_key demo_crypto 1 \<noteq> state_key demo_crypto 2" by (simp add: demo_keys_differ)
  note moved = transfer_moves_value [where b = demo_funded, OF mem.kv_store_axioms rlp_format_encodes demo_funded_facts(1) run
    demo_pay_plan this]
  have "db_account MemoryBackend demo_crypto rlp_format b' 2 = Ok (Some (Account_EMPTY\<lparr>balance := 30\<rparr>))"
    using moved by (auto simp: demo_funded_facts(3) [of 2] empty_or_def Account_EMPTY_def)
  with run show ?thesis by blast
qed

text \<open>
  (C17) A direct transfer to oneself creates money: the receiver's account was read before the sender's was
  written, so the second write undoes the first. The balance grows by the value and the nonce stays, and the
  same transaction can be executed again.
\<close>

theorem self_transfer_mints:
  assumes K: "kv_store K opened contents" and R: "rlp_encodes R" and b: "opened b"
    and tx: "unpack_tx tx = Ok (n, limit, Some sender, v, price)"
    and acc: "db_account K C R b sender = Ok (Some acc)" "acc_nonce acc = n" "v \<le> balance acc" "is_eoa acc"
    and fits: "unat (balance acc) + 2 * unat v < 2 ^ 256"
  shows "\<exists>rc b1 b2. execute_transfer K C R b sender tx = (Ok rc, b1) \<and>
    db_account K C R b1 sender = Ok (Some (acc\<lparr>balance := balance acc + v\<rparr>)) \<and>
    execute_transfer K C R b1 sender tx = (Ok rc, b2) \<and>
    db_account K C R b2 sender = Ok (Some (acc\<lparr>balance := balance acc + v + v\<rparr>)) \<and>
    unat (balance acc + v + v) = unat (balance acc) + 2 * unat v"
proof -
  let ?rc = "\<lparr>rc_tx_type = tx_ty tx, status = True, cumulative_gas_used = min 21000 limit,
    rc_logs_bloom = Bloom_ZERO, logs = []\<rparr>"
  have once: "\<exists>b'. execute_transfer K C R b sender tx = (Ok ?rc, b') \<and> opened b' \<and>
      db_account K C R b' sender = Ok (Some (a\<lparr>balance := balance a + v\<rparr>))"
    if ob: "opened b" and a: "db_account K C R b sender = Ok (Some a)" "acc_nonce a = n" "v \<le> balance a" "is_eoa a" for b a
  proof -
    have e: "account_or_empty K C R b sender = Ok a" using a(1) by (simp add: account_or_empty_def)
    obtain b1 b2 where w: "set_account K C R b sender (a\<lparr>balance := balance a - v, acc_nonce := acc_nonce a + 1\<rparr>) = (Ok (), b1)"
        "opened b1" "set_account K C R b1 sender (a\<lparr>balance := balance a + v\<rparr>) = (Ok (), b2)" "opened b2"
        "execute_transfer K C R b sender tx = (Ok ?rc, b2)"
      by (rule kv_store.transfer_runs [OF K ob tx e a(2,3) e a(4)])
    then show ?thesis using kv_store.set_account_reads [OF K R w(2,3)] by auto
  qed
  obtain b1 where b1: "execute_transfer K C R b sender tx = (Ok ?rc, b1)" "opened b1"
      "db_account K C R b1 sender = Ok (Some (acc\<lparr>balance := balance acc + v\<rparr>))"
    using once [OF b acc] by blast
  have sum: "unat (balance acc + v) = unat (balance acc) + unat v" using fits by (simp add: unat_add_small)
  have "v \<le> balance acc + v" by (simp add: word_le_nat_alt sum)
  then obtain b2 where b2: "execute_transfer K C R b1 sender tx = (Ok ?rc, b2)"
      "db_account K C R b2 sender = Ok (Some (acc\<lparr>balance := balance acc + v + v\<rparr>))"
    using once [OF b1(2,3)] acc(2,4) by (auto simp: is_eoa_def)
  have "unat (balance acc + v + v) = unat (balance acc + v) + unat v"
    by (rule unat_add_small) (use fits sum in simp)
  then have "unat (balance acc + v + v) = unat (balance acc) + 2 * unat v" by (simp only: sum)
  with b1 b2 show ?thesis by blast
qed

theorem self_transfer_mints_witness:
  "\<exists>rc b1. execute_transfer MemoryBackend demo_crypto rlp_format demo_funded 1 (demo_pay 1) = (Ok rc, b1) \<and>
    db_account MemoryBackend demo_crypto rlp_format b1 1 = Ok (Some (Account_EMPTY\<lparr>balance := 130\<rparr>))"
proof -
  have c: "acc_nonce (Account_EMPTY\<lparr>balance := 100\<rparr>) = 0" "30 \<le> balance (Account_EMPTY\<lparr>balance := 100\<rparr>)"
      "is_eoa (Account_EMPTY\<lparr>balance := 100\<rparr>)" "unat (balance (Account_EMPTY\<lparr>balance := 100\<rparr>)) + 2 * unat (30 :: u256) < 2 ^ 256"
    by (simp_all add: Account_EMPTY_def is_eoa_def)
  note minted = self_transfer_mints [where b = demo_funded, OF mem.kv_store_axioms rlp_format_encodes demo_funded_facts(1)
    demo_pay_plan demo_funded_facts(2) c]
  from minted show ?thesis by (elim exE conjE) simp
qed

subsection \<open>Writing back what the interpreter changed\<close>

text \<open>
  The effect of one changed account on the database as the interpreter sees it: the account is the changed one, new code is
  found under its hash, and every slot whose value changed has its present value.
\<close>

definition absorb :: "revm_database \<Rightarrow> address \<times> revm_account \<Rightarrow> revm_database" where
  "absorb D ch =
     (let (a, acc) = ch in
      D\<lparr>db_basic := (db_basic D)(a \<mapsto>
          \<lparr>info_balance = ra_balance acc, info_nonce = ra_nonce acc, info_code_hash = ra_code_hash acc\<rparr>),
        db_code_by_hash := (case ra_code acc of
            Some code \<Rightarrow> if code = [] then db_code_by_hash D else (db_code_by_hash D)(ra_code_hash acc := code)
          | None \<Rightarrow> db_code_by_hash D),
        db_storage := (db_storage D)(a := foldl (\<lambda>f (i, s). if original_value s = present_value s then f else f(i := present_value s))
          (db_storage D a) (ra_storage acc))\<rparr>)"

lemma h256_of_u256 [simp]: "from_be_bytes (to_be_bytes 32 (w :: 256 word)) = w"
  by (simp add: from_to_be_bytes)

context kv_store
begin

lemma account_reads_ok:
  assumes R: "rlp_encodes R" and b: "opened b" "world_ok R (contents b)"
  shows "\<exists>got. db_account K C R b a = Ok got"
proof (cases "contents b State (state_key C a)")
  case (Some v)
  then obtain acc where "v = Account_encode R acc" using b(2) by (auto simp: world_ok_def)
  then show ?thesis using Some b(1) by (simp add: db_account_def get_spec Account_decode_encode [OF R])
qed (simp add: db_account_def get_spec b(1))

lemma set_account_view:
  assumes R: "rlp_encodes R" and b: "opened b" and inj: "inj (state_key C)"
    and w: "world_ok R (contents b)"
  obtains b' where "set_account K C R b a acc = (Ok (), b')" "opened b'" "world_ok R (contents b')"
    "RevmDb K C R b' = (RevmDb K C R b)\<lparr>db_basic := (revm_basic K C R b)(a \<mapsto>
       \<lparr>info_balance = balance acc, info_nonce = acc_nonce acc, info_code_hash = code_hash acc\<rparr>)\<rparr>"
proof -
  obtain b' where b': "set_account K C R b a acc = (Ok (), b')" "opened b'"
      "contents b' = apply_op (contents b) (OpPut State (state_key C a) (Account_encode R acc))"
    using set_account_effect [OF b] by blast
  have "db_account K C R b' a' = (if a' = a then Ok (Some acc) else db_account K C R b a')" for a'
    using set_account_reads [OF R b b'(1), of a'] inj by (simp add: inj_eq)
  moreover have "storage_get K b' = storage_get K b" "code_get K b' = code_get K b"
    using reads_frame(2,3) [OF b b'(2)] b'(3) by (simp_all add: fun_eq_iff)
  ultimately have "RevmDb K C R b' = (RevmDb K C R b)\<lparr>db_basic := (revm_basic K C R b)(a \<mapsto>
       \<lparr>info_balance = balance acc, info_nonce = acc_nonce acc, info_code_hash = code_hash acc\<rparr>)\<rparr>"
    by (simp add: RevmDb_def revm_basic_def revm_storage_def revm_code_by_hash_def fun_eq_iff)
  moreover have "world_ok R (contents b')" using w b'(3) by (auto simp: world_ok_def)
  ultimately show ?thesis using that b' by blast
qed

lemma apply_code_view:
  assumes b: "opened b" and w: "world_ok R (contents b)"
  obtains b' where "apply_code K b acc = (Ok (), b')" "opened b'" "world_ok R (contents b')"
    "RevmDb K C R b' = (RevmDb K C R b)\<lparr>db_code_by_hash := (case ra_code acc of
       Some code \<Rightarrow> if code = [] then revm_code_by_hash K b else (revm_code_by_hash K b)(ra_code_hash acc := code)
     | None \<Rightarrow> revm_code_by_hash K b)\<rparr>"
proof (cases "\<exists>code. ra_code acc = Some code \<and> code \<noteq> []")
  case True
  then obtain code where code: "ra_code acc = Some code" "code \<noteq> []" by blast
  obtain b' where b': "code_put K b (ra_code_hash acc) code = (Ok (), b')" "opened b'"
      "contents b' = apply_op (contents b) (OpPut Code (h256_bytes (ra_code_hash acc)) code)"
    using code_put_effect [OF b] by blast
  have "code_get K b' h = (if h = ra_code_hash acc then Ok (Some code) else code_get K b h)" for h
    using code_after_put [OF b, of "ra_code_hash acc" code h] b'(1) by simp
  moreover have "storage_get K b' = storage_get K b" "db_account K C R b' = db_account K C R b"
    using reads_frame(1,2) [OF b b'(2)] b'(3) by (simp_all add: fun_eq_iff)
  moreover have "world_ok R (contents b')" using w b'(3) by (simp add: world_ok_def)
  ultimately show ?thesis
    using that [of b'] b' code by (simp add: apply_code_def RevmDb_def revm_basic_def revm_storage_def revm_code_by_hash_def fun_eq_iff)
next
  case False
  then show ?thesis using that [of b] b w by (auto simp: apply_code_def RevmDb_def split: option.splits)
qed

lemma storage_put_view:
  assumes b: "opened b" and w: "world_ok R (contents b)"
  obtains b' where "storage_put K b a i v = (Ok (), b')" "opened b'" "world_ok R (contents b')"
    "RevmDb K C R b' = (RevmDb K C R b)\<lparr>db_storage := (revm_storage K b)(a := (revm_storage K b a)(i := v))\<rparr>"
proof -
  obtain b' where b': "storage_put K b a i v = (Ok (), b')" "opened b'"
      "contents b' = apply_op (contents b) (if v = 0 then OpDelete AccountStorage (storage_key a i)
       else OpPut AccountStorage (storage_key a i) (h256_bytes v))"
    using storage_put_effect [OF b] by blast
  have "storage_get K b' a' i' = (if a' = a \<and> i' = i then Ok v else storage_get K b a' i')" for a' i'
    using storage_after_put [OF b, of a i v a' i'] b'(1) by simp
  moreover have "db_account K C R b' = db_account K C R b" "code_get K b' = code_get K b"
    using reads_frame(1,3) [OF b b'(2)] b'(3) by (simp_all add: fun_eq_iff)
  moreover have "world_ok R (contents b')" using w b'(3) by (simp add: world_ok_def)
  ultimately show ?thesis
    using that [of b'] b' by (simp add: RevmDb_def revm_basic_def revm_storage_def revm_code_by_hash_def fun_eq_iff)
qed

lemma apply_slots_view:
  assumes "opened b" and "world_ok R (contents b)"
  shows "\<exists>b'. apply_slots K b a ss = (Ok (), b') \<and> opened b' \<and> world_ok R (contents b') \<and>
    RevmDb K C R b' = (RevmDb K C R b)\<lparr>db_storage := (revm_storage K b)(a :=
      foldl (\<lambda>f (i, s). if original_value s = present_value s then f else f(i := present_value s)) (revm_storage K b a) ss)\<rparr>"
  using assms
proof (induction ss arbitrary: b)
  case Nil
  then show ?case by (simp add: RevmDb_def)
next
  case (Cons s ss)
  show ?case
  proof (cases "original_value (snd s) = present_value (snd s)")
    case True
    then show ?thesis using Cons by (cases s) simp
  next
    case False
    obtain b1 where b1: "storage_put K b a (fst s) (present_value (snd s)) = (Ok (), b1)" "opened b1" "world_ok R (contents b1)"
        "RevmDb K C R b1 = (RevmDb K C R b)\<lparr>db_storage := (revm_storage K b)(a := (revm_storage K b a)(fst s := present_value (snd s)))\<rparr>"
      by (rule storage_put_view [OF Cons.prems])
    have st: "revm_storage K b1 = (revm_storage K b)(a := (revm_storage K b a)(fst s := present_value (snd s)))"
      using arg_cong [OF b1(4), of db_storage] by (simp add: RevmDb_def)
    obtain b' where b': "apply_slots K b1 a ss = (Ok (), b')" "opened b'" "world_ok R (contents b')"
        "RevmDb K C R b' = (RevmDb K C R b1)\<lparr>db_storage := (revm_storage K b1)(a :=
          foldl (\<lambda>f (i, s). if original_value s = present_value s then f else f(i := present_value s)) (revm_storage K b1 a) ss)\<rparr>"
      using Cons.IH [OF b1(2,3)] by blast
    have "RevmDb K C R b' = (RevmDb K C R b)\<lparr>db_storage := (revm_storage K b)(a :=
        foldl (\<lambda>f (i, s). if original_value s = present_value s then f else f(i := present_value s))
          ((revm_storage K b a)(fst s := present_value (snd s))) ss)\<rparr>"
      unfolding b'(4) b1(4) st by (simp del: fun_upd_apply add: fun_upd_same)
    then show ?thesis using b'(1-3) b1(1) False by (cases s) (simp add: fun_upd_def)
  qed
qed

text \<open>The loop over the changed accounts.\<close>

lemma apply_changes_view:
  assumes R: "rlp_encodes R" and inj: "inj (state_key C)"
  shows "opened b \<Longrightarrow> world_ok R (contents b) \<Longrightarrow> \<exists>b'. apply_changes K C R b chs = (Ok (), b') \<and> opened b' \<and>
    world_ok R (contents b') \<and> RevmDb K C R b' = foldl absorb (RevmDb K C R b) chs"
proof (induction chs arbitrary: b)
  case (Cons ch chs)
  obtain a acc where ch: "ch = (a, acc)" by (cases ch)
  obtain got where got: "db_account K C R b a = Ok got"
    using account_reads_ok [OF R Cons.prems] by blast
  define out where "out = (case got of None \<Rightarrow> Account_EMPTY | Some x \<Rightarrow> x)\<lparr>acc_nonce := ra_nonce acc, balance := ra_balance acc,
    code_hash := ra_code_hash acc\<rparr>"
  obtain b1 where b1: "set_account K C R b a out = (Ok (), b1)" "opened b1" "world_ok R (contents b1)"
      "RevmDb K C R b1 = (RevmDb K C R b)\<lparr>db_basic := (revm_basic K C R b)(a \<mapsto>
        \<lparr>info_balance = balance out, info_nonce = acc_nonce out, info_code_hash = code_hash out\<rparr>)\<rparr>"
    by (rule set_account_view [OF R Cons.prems(1) inj Cons.prems(2)])
  obtain b2 where b2: "apply_code K b1 acc = (Ok (), b2)" "opened b2" "world_ok R (contents b2)"
      "RevmDb K C R b2 = (RevmDb K C R b1)\<lparr>db_code_by_hash := (case ra_code acc of
         Some code \<Rightarrow> if code = [] then revm_code_by_hash K b1 else (revm_code_by_hash K b1)(ra_code_hash acc := code)
       | None \<Rightarrow> revm_code_by_hash K b1)\<rparr>"
    by (rule apply_code_view [OF b1(2,3)])
  obtain b3 where b3: "apply_slots K b2 a (ra_storage acc) = (Ok (), b3)" "opened b3" "world_ok R (contents b3)"
      "RevmDb K C R b3 = (RevmDb K C R b2)\<lparr>db_storage := (revm_storage K b2)(a :=
        foldl (\<lambda>f (i, s). if original_value s = present_value s then f else f(i := present_value s)) (revm_storage K b2 a) (ra_storage acc))\<rparr>"
    using apply_slots_view [OF b2(2,3)] by blast
  have "RevmDb K C R b3 = absorb (RevmDb K C R b) ch"
    using b1(4) b2(4) b3(4) by (simp add: absorb_def ch RevmDb_def out_def split: option.split)
  moreover have "apply_changes K C R b (ch # chs) = apply_changes K C R b3 chs"
    using got b1(1) b2(1) b3(1) by (simp add: ch account_or_empty_def out_def)
  ultimately show ?case using Cons.IH [OF b3(2,3)] by simp
qed simp

end

text \<open>
  (C18) The next execution sees what the last one changed. When the interpreter accepts a transaction, on a store whose accounts
  decode and as long as Keccak-256 separates addresses, \<open>execute_with_revm\<close> succeeds with the summary of the result, and the
  database that the adapter offers afterwards is the database before with the interpreter's changes taken in, one account
  after the other: balance, nonce and code hash, new code under its hash, and every slot whose value changed, a slot set to zero
  being deleted and read as zero. Every other account, slot and code is as before, and all accounts still decode. A
  transaction that the interpreter refuses changes nothing.
\<close>

theorem next_run_sees_the_changes:
  assumes K: "kv_store K opened contents" and R: "rlp_encodes R" and b: "opened b" "world_ok R (contents b)"
    and inj: "inj (state_key C)"
    and env: "env = \<lparr>env_caller = sender, env_transact_to = dest, env_value = amount, env_data = data, env_gas_limit = limit,
      env_gas_price = price\<rparr>"
  shows "case V (RevmDb K C R b) env of
      Inl msg \<Rightarrow> execute_with_revm V K C R b sender dest amount data limit price = (Err (Revm msg), b)
    | Inr (res, changes) \<Rightarrow> \<exists>b'. execute_with_revm V K C R b sender dest amount data limit price = (Ok (summary_of res), b') \<and>
        opened b' \<and> world_ok R (contents b') \<and> RevmDb K C R b' = foldl absorb (RevmDb K C R b) changes"
proof (cases "V (RevmDb K C R b) env")
  case (Inl msg)
  then show ?thesis by (simp add: execute_with_revm_def env)
next
  case (Inr p)
  obtain res chs where p: "p = (res, chs)" by (cases p)
  show ?thesis
    using kv_store.apply_changes_view [OF K R inj b, of chs] Inr by (auto simp: execute_with_revm_def env p)
qed

text \<open>The witness: an interpreter that moves 30 units, clears one slot and sets another.\<close>

definition demo_revm :: revm where
  "demo_revm D env =
     Inr (Success 21000 [] (OutCall [7]),
       [(1, \<lparr>ra_nonce = 1, ra_balance = 70, ra_code_hash = EMPTY_CODE_HASH, ra_code = None,
          ra_storage = [(4, \<lparr>original_value = 5, present_value = 0\<rparr>), (6, \<lparr>original_value = 0, present_value = 9\<rparr>)]\<rparr>),
        (2, \<lparr>ra_nonce = 0, ra_balance = 30, ra_code_hash = 8, ra_code = Some [0x60], ra_storage = []\<rparr>)])"

theorem next_run_sees_the_changes_witness:
  "\<exists>b'. execute_with_revm demo_revm MemoryBackend demo_crypto rlp_format demo_funded 1 (Some 2) 30 [] 21000 1 =
      (Ok \<lparr>es_success = True, es_gas_used = 21000, es_output = [7], deployed_contract = None, es_logs = []\<rparr>, b') \<and>
    revm_basic MemoryBackend demo_crypto rlp_format b' 2 = Some \<lparr>info_balance = 30, info_nonce = 0, info_code_hash = 8\<rparr> \<and>
    revm_code_by_hash MemoryBackend b' 8 = [0x60] \<and> revm_storage MemoryBackend b' 1 6 = 9 \<and> revm_storage MemoryBackend b' 1 4 = 0"
proof -
  have "inj (state_key demo_crypto)" by (simp add: inj_def demo_keys_differ)
  moreover have "world_ok rlp_format (mem_contents demo_funded)"
    using mem.set_account_effect [OF mem_new_opened, of demo_crypto rlp_format 1 "Account_EMPTY\<lparr>balance := 100\<rparr>"]
    by (auto simp: demo_funded_def world_ok_def mem_new_contents split: if_splits)
  ultimately obtain b' where b': "execute_with_revm demo_revm MemoryBackend demo_crypto rlp_format demo_funded 1 (Some 2) 30 [] 21000 1 =
        (Ok (summary_of (Success 21000 [] (OutCall [7]))), b')"
      "RevmDb MemoryBackend demo_crypto rlp_format b' = foldl absorb (RevmDb MemoryBackend demo_crypto rlp_format demo_funded)
        (snd (projr (demo_revm undefined undefined)))"
    using next_run_sees_the_changes [where V = demo_revm and b = demo_funded and sender = 1 and dest = "Some 2" and amount = 30 and data = "[]" and
        limit = 21000 and price = 1, OF mem.kv_store_axioms rlp_format_encodes demo_funded_facts(1) _ _ refl]
    by (auto simp: demo_revm_def)
  have "db_basic (RevmDb MemoryBackend demo_crypto rlp_format b') 2 = Some \<lparr>info_balance = 30, info_nonce = 0, info_code_hash = 8\<rparr>"
      "db_code_by_hash (RevmDb MemoryBackend demo_crypto rlp_format b') 8 = [0x60]"
      "db_storage (RevmDb MemoryBackend demo_crypto rlp_format b') 1 6 = 9"
      "db_storage (RevmDb MemoryBackend demo_crypto rlp_format b') 1 4 = 0"
    unfolding b'(2) by (simp_all add: demo_revm_def absorb_def)
  then show ?thesis using b'(1) by (simp add: RevmDb_def summary_of_def)
qed

end
