(* ===== verification/Execution.thy ===== *)
theory Execution
  imports Precompile Evm Secp Genesis Consensus
begin

section \<open>Execution of blocks\<close>

text \<open>
  The two executors of \<open>aii-node/src/lib.rs\<close>: \<open>execute_for_proposal\<close> runs a body on a copy of the store to
  find the roots a proposer puts into the header, \<open>execute_block_txs\<close> runs a committed block on the store
  itself. The storage backend, the cryptographic libraries, the RLP codec and the interpreter are bundled as
  one argument. An error that the code turns into a text is kept as the state error it came from.
\<close>

record 'b runtime =
  rt_kv :: "'b kv_backend"
  rt_crypto :: crypto
  rt_rlp :: rlp
  rt_secp :: secp
  rt_revm :: revm

abbreviation rt_account :: "'b runtime \<Rightarrow> 'b \<Rightarrow> address \<Rightarrow> (state_error, account option) result" where
  "rt_account W \<equiv> db_account (rt_kv W) (rt_crypto W) (rt_rlp W)"

abbreviation rt_set_account :: "'b runtime \<Rightarrow> 'b \<Rightarrow> address \<Rightarrow> account \<Rightarrow> (state_error, unit) result \<times> 'b" where
  "rt_set_account W \<equiv> set_account (rt_kv W) (rt_crypto W) (rt_rlp W)"

subsection \<open>Parts that both executors share\<close>

primrec tx_parts :: "tx \<Rightarrow> (address option \<times> u256 \<times> byte list \<times> u64 \<times> u256) option" where
  "tx_parts (Legacy t) = Some (to_addr t, tx_value t, tx_data t, gas_limit t, gas_price t)"
| "tx_parts (Eip1559 t) = Some (to_1559 t, value_1559 t, data_1559 t, gas_limit_1559 t, max_fee_per_gas t)"
| "tx_parts (Eip4844 t) = None"

definition accrue_log :: "crypto \<Rightarrow> bloom \<Rightarrow> log \<Rightarrow> bloom" where
  "accrue_log C bl l =
     foldl (\<lambda>bl t. bloom_accrue C bl (h256_bytes t)) (bloom_accrue C bl (address_bytes (log_address l))) (topics l)"

definition tx_bloom :: "crypto \<Rightarrow> log list \<Rightarrow> bloom" where
  "tx_bloom C ls = foldl (accrue_log C) Bloom_ZERO ls"

definition block_bloom :: "crypto \<Rightarrow> receipt list \<Rightarrow> bloom" where
  "block_bloom C rs = foldl (\<lambda>bl r. foldl (accrue_log C) bl (logs r)) Bloom_ZERO rs"

definition precompile_receipt :: "tx_type \<Rightarrow> bool \<Rightarrow> u64 \<Rightarrow> receipt" where
  "precompile_receipt ty success gas =
     \<lparr>rc_tx_type = ty, status = success, cumulative_gas_used = gas, rc_logs_bloom = Bloom_ZERO, logs = []\<rparr>"

definition evm_receipt :: "crypto \<Rightarrow> tx_type \<Rightarrow> execution_summary \<Rightarrow> u64 \<Rightarrow> receipt" where
  "evm_receipt C ty summary gas =
     \<lparr>rc_tx_type = ty, status = es_success summary, cumulative_gas_used = gas,
      rc_logs_bloom = tx_bloom C (es_logs summary), logs = es_logs summary\<rparr>"

definition may_receive_subsidy :: "'b kv_backend \<Rightarrow> 'b \<Rightarrow> address \<Rightarrow> bool" where
  "may_receive_subsidy K b who =
     (case latest_validator_set K b of
        Ok (Some (_, entries)) \<Rightarrow> list_ex (\<lambda>e. entry_address e = who) entries
      | Ok None \<Rightarrow> True
      | _ \<Rightarrow> False)"

definition run_precompile ::
    "'b runtime \<Rightarrow> chain_spec \<Rightarrow> u64 \<Rightarrow> 'b \<Rightarrow> address \<Rightarrow> u256 \<Rightarrow> byte list
      \<Rightarrow> (precompile_error, precompile_outcome) result \<times> 'b" where
  "run_precompile W spec height b sender amount data =
     dispatch (rt_crypto W) (rt_kv W) b sender amount data height (unbonding_period_blocks spec)"

definition run_evm ::
    "'b runtime \<Rightarrow> 'b \<Rightarrow> address \<Rightarrow> address option \<Rightarrow> u256 \<Rightarrow> byte list \<Rightarrow> u64 \<Rightarrow> u256
      \<Rightarrow> (exec_error, execution_summary) result \<times> 'b" where
  "run_evm W b sender dest amount data limit price =
     execute_with_revm (rt_revm W) (rt_kv W) (rt_crypto W) (rt_rlp W) b sender dest amount data limit price"

subsection \<open>execute\_body\_for\_roots\<close>

definition credit_state_for_roots ::
    "'b runtime \<Rightarrow> 'b \<Rightarrow> address \<Rightarrow> u256 \<Rightarrow> (state_error, unit) result \<times> 'b" where
  "credit_state_for_roots W b a delta =
     (if delta = 0 then (Ok (), b)
      else (case rt_account W b a of
              Err x \<Rightarrow> (Err x, b)
            | Panic \<Rightarrow> (Panic, b)
            | Ok got \<Rightarrow>
                let acc = (case got of None \<Rightarrow> Account_EMPTY | Some acc \<Rightarrow> acc)
                in rt_set_account W b a (acc\<lparr>balance := saturating_add (balance acc) delta\<rparr>)))"

record 'b roots_run =
  rr_store :: 'b
  rr_gas :: u64
  rr_receipts :: "receipt list"

definition roots_tx ::
    "'b runtime \<Rightarrow> chain_spec \<Rightarrow> address \<Rightarrow> u64 \<Rightarrow> 'b roots_run \<Rightarrow> tx \<Rightarrow> (state_error, unit) result \<times> 'b roots_run" where
  "roots_tx W spec coinbase height st tx =
     (case recover_signer (rt_crypto W) (rt_secp W) (rt_rlp W) tx (spec_chain_id spec) of
        Err _ \<Rightarrow> (Ok (), st)
      | Panic \<Rightarrow> (Panic, st)
      | Ok sender \<Rightarrow>
          (case tx_parts tx of
             None \<Rightarrow> (Ok (), st)
           | Some (dest, amount, data, limit, price) \<Rightarrow>
               if dest = Some PRECOMPILE_ADDR then
                 (case run_precompile W spec height (rr_store st) sender amount data of
                    (Panic, b) \<Rightarrow> (Panic, st\<lparr>rr_store := b\<rparr>)
                  | (out, b) \<Rightarrow>
                      let gas = saturating_add (rr_gas st) 21000;
                          (r, b') = credit_state_for_roots W b coinbase (saturating_mul 21000 price)
                      in (case r of
                            Ok _ \<Rightarrow> (Ok (), \<lparr>rr_store = b', rr_gas = gas,
                              rr_receipts = rr_receipts st @ [precompile_receipt (tx_ty tx) (is_ok out) gas]\<rparr>)
                          | _ \<Rightarrow> (r, st\<lparr>rr_store := b', rr_gas := gas\<rparr>)))
               else
                 (case run_evm W (rr_store st) sender dest amount data limit price of
                    (Panic, b) \<Rightarrow> (Panic, st\<lparr>rr_store := b\<rparr>)
                  | (Err _, b) \<Rightarrow> (Ok (), st\<lparr>rr_store := b\<rparr>)
                  | (Ok summary, b) \<Rightarrow>
                      let gas = saturating_add (rr_gas st) (es_gas_used summary);
                          (r, b') = credit_state_for_roots W b coinbase
                            (saturating_mul (ucast (es_gas_used summary)) price)
                      in (case r of
                            Ok _ \<Rightarrow> (Ok (), \<lparr>rr_store = b', rr_gas = gas,
                              rr_receipts = rr_receipts st @ [evm_receipt (rt_crypto W) (tx_ty tx) summary gas]\<rparr>)
                          | _ \<Rightarrow> (r, st\<lparr>rr_store := b', rr_gas := gas\<rparr>)))))"

primrec roots_txs ::
    "'b runtime \<Rightarrow> chain_spec \<Rightarrow> address \<Rightarrow> u64 \<Rightarrow> 'b roots_run \<Rightarrow> tx list \<Rightarrow> (state_error, unit) result \<times> 'b roots_run" where
  "roots_txs W spec coinbase height st [] = (Ok (), st)"
| "roots_txs W spec coinbase height st (tx # txs) =
     (case roots_tx W spec coinbase height st tx of
        (Ok _, st') \<Rightarrow> roots_txs W spec coinbase height st' txs
      | (r, st') \<Rightarrow> (r, st'))"

definition execute_body_for_roots ::
    "'b runtime \<Rightarrow> chain_spec \<Rightarrow> 'b \<Rightarrow> block_body \<Rightarrow> address \<Rightarrow> u64 \<Rightarrow> (state_error, post_block_roots) result \<times> 'b" where
  "execute_body_for_roots W spec b bdy coinbase height =
     (case roots_txs W spec coinbase height \<lparr>rr_store = b, rr_gas = 0, rr_receipts = []\<rparr> (transactions bdy) of
        (Err x, st) \<Rightarrow> (Err x, rr_store st)
      | (Panic, st) \<Rightarrow> (Panic, rr_store st)
      | (Ok _, st) \<Rightarrow>
          let subsidy = block_reward_at spec height;
              (r, b') = (if 0 < subsidy \<and> may_receive_subsidy (rt_kv W) (rr_store st) coinbase
                then credit_state_for_roots W (rr_store st) coinbase (ucast subsidy) else (Ok (), rr_store st))
          in (and_then r (\<lambda>_. and_then (db_state_root (rt_kv W) (rt_crypto W) (rt_rlp W) b') (\<lambda>root.
                Ok \<lparr>pr_state_root = root, pr_receipts_root = receipts_root_of (rt_crypto W) (rt_rlp W) (rr_receipts st),
                   pr_logs_bloom = block_bloom (rt_crypto W) (rr_receipts st), pr_gas_used = rr_gas st\<rparr>)), b'))"

subsection \<open>NodeStateExecutor\<close>

primrec copy_items :: "'b kv_backend \<Rightarrow> column_family \<Rightarrow> 'b \<Rightarrow> kv_item list \<Rightarrow> (storage_error, unit) result \<times> 'b" where
  "copy_items K cf dst [] = (Ok (), dst)"
| "copy_items K cf dst (item # items) =
     (case item of
        Err x \<Rightarrow> (Err x, dst)
      | Panic \<Rightarrow> (Panic, dst)
      | Ok (k, v) \<Rightarrow>
          (case kv_put K dst cf k v of
             (Ok _, dst') \<Rightarrow> copy_items K cf dst' items
           | (r, dst') \<Rightarrow> (r, dst')))"

primrec copy_families :: "'b kv_backend \<Rightarrow> 'b \<Rightarrow> 'b \<Rightarrow> column_family list \<Rightarrow> (storage_error, unit) result \<times> 'b" where
  "copy_families K src dst [] = (Ok (), dst)"
| "copy_families K src dst (cf # cfs) =
     (case copy_items K cf dst (kv_iter K src cf) of
        (Ok _, dst') \<Rightarrow> copy_families K src dst' cfs
      | (r, dst') \<Rightarrow> (r, dst'))"

definition copy_execution_backend :: "'b kv_backend \<Rightarrow> 'b \<Rightarrow> 'b \<Rightarrow> (storage_error, unit) result \<times> 'b" where
  "copy_execution_backend K src dst = copy_families K src dst [State, Code, AccountStorage, Meta]"

text \<open>The temporary database that the executor opens is an argument.\<close>

definition execute_for_proposal ::
    "'b runtime \<Rightarrow> chain_spec \<Rightarrow> 'b \<Rightarrow> 'b \<Rightarrow> block_body \<Rightarrow> address \<Rightarrow> u64 \<Rightarrow> (state_error, post_block_roots) result" where
  "execute_for_proposal W spec b temp bdy coinbase height =
     (case copy_execution_backend (rt_kv W) b temp of
        (Err x, _) \<Rightarrow> Err (Storage x)
      | (Panic, _) \<Rightarrow> Panic
      | (Ok _, copy) \<Rightarrow> fst (execute_body_for_roots W spec copy bdy coinbase height))"

subsection \<open>execute\_block\_txs\<close>

definition credit :: "'b runtime \<Rightarrow> 'b \<Rightarrow> address \<Rightarrow> u256 \<Rightarrow> 'b" where
  "credit W b a delta =
     (let acc = (case rt_account W b a of Ok (Some acc) \<Rightarrow> acc | _ \<Rightarrow> Account_EMPTY)
      in snd (rt_set_account W b a (acc\<lparr>balance := saturating_add (balance acc) delta\<rparr>)))"

definition credit_fee :: "'b runtime \<Rightarrow> 'b \<Rightarrow> address \<Rightarrow> u256 \<Rightarrow> 'b" where
  "credit_fee W b a fee = (if fee = 0 then b else credit W b a fee)"

record 'b commit_run =
  cr_store :: 'b
  cr_gas :: u64
  cr_receipts :: "(h256 \<times> receipt) list"

definition commit_tx ::
    "'b runtime \<Rightarrow> chain_spec \<Rightarrow> address \<Rightarrow> u64 \<Rightarrow> 'b commit_run \<Rightarrow> tx \<Rightarrow> (unit, unit) result \<times> 'b commit_run" where
  "commit_tx W spec who height st tx =
     (case recover_signer (rt_crypto W) (rt_secp W) (rt_rlp W) tx (spec_chain_id spec) of
        Err _ \<Rightarrow> (Ok (), st)
      | Panic \<Rightarrow> (Panic, st)
      | Ok sender \<Rightarrow>
          (case tx_parts tx of
             None \<Rightarrow> (Ok (), st)
           | Some (dest, amount, data, limit, price) \<Rightarrow>
               if dest = Some PRECOMPILE_ADDR then
                 (case run_precompile W spec height (cr_store st) sender amount data of
                    (Panic, b) \<Rightarrow> (Panic, st\<lparr>cr_store := b\<rparr>)
                  | (out, b) \<Rightarrow>
                      let gas = saturating_add (cr_gas st) 21000
                      in (Ok (), \<lparr>cr_store = credit_fee W b who (saturating_mul 21000 price), cr_gas = gas,
                           cr_receipts = cr_receipts st @
                             [(Tx_hash (rt_crypto W) (rt_rlp W) tx, precompile_receipt (tx_ty tx) (is_ok out) gas)]\<rparr>))
               else
                 (case run_evm W (cr_store st) sender dest amount data limit price of
                    (Panic, b) \<Rightarrow> (Panic, st\<lparr>cr_store := b\<rparr>)
                  | (Err _, b) \<Rightarrow> (Ok (), st\<lparr>cr_store := b\<rparr>)
                  | (Ok summary, b) \<Rightarrow>
                      let gas = saturating_add (cr_gas st) (es_gas_used summary)
                      in (Ok (), \<lparr>cr_store = credit_fee W b who (saturating_mul (ucast (es_gas_used summary)) price),
                           cr_gas = gas,
                           cr_receipts = cr_receipts st @
                             [(Tx_hash (rt_crypto W) (rt_rlp W) tx, evm_receipt (rt_crypto W) (tx_ty tx) summary gas)]\<rparr>))))"

primrec commit_txs ::
    "'b runtime \<Rightarrow> chain_spec \<Rightarrow> address \<Rightarrow> u64 \<Rightarrow> 'b commit_run \<Rightarrow> tx list \<Rightarrow> (unit, unit) result \<times> 'b commit_run" where
  "commit_txs W spec who height st [] = (Ok (), st)"
| "commit_txs W spec who height st (tx # txs) =
     (case commit_tx W spec who height st tx of
        (Ok _, st') \<Rightarrow> commit_txs W spec who height st' txs
      | (r, st') \<Rightarrow> (r, st'))"

definition persist_receipts :: "'b runtime \<Rightarrow> 'b \<Rightarrow> (h256 \<times> receipt) list \<Rightarrow> 'b" where
  "persist_receipts W b rs =
     (if rs = [] then b
      else snd (kv_write (rt_kv W) b
        (map (\<lambda>(h, r). OpPut Receipts (h256_bytes h) (Receipt_encode_2718 (rt_rlp W) r)) rs)))"

definition POSTROOT_PREFIX :: "byte list" where
  "POSTROOT_PREFIX = ascii ''postroot:''"

record stored_roots =
  sr_state_root :: h256
  sr_receipts_root :: h256
  sr_logs_bloom :: bloom

definition persist_post_roots :: "'b kv_backend \<Rightarrow> 'b \<Rightarrow> h256 \<Rightarrow> stored_roots \<Rightarrow> 'b" where
  "persist_post_roots K b h roots =
     snd (kv_put K b Meta (POSTROOT_PREFIX @ h256_bytes h)
       (h256_bytes (sr_state_root roots) @ h256_bytes (sr_receipts_root roots) @ to_be_bytes 256 (sr_logs_bloom roots)))"

definition decode_post_roots :: "byte list \<Rightarrow> stored_roots option" where
  "decode_post_roots bytes =
     (if length bytes \<noteq> 32 + 32 + 256 then None
      else Some \<lparr>sr_state_root = from_be_bytes (slice 0 32 bytes), sr_receipts_root = from_be_bytes (slice 32 64 bytes),
        sr_logs_bloom = from_be_bytes (slice 64 320 bytes)\<rparr>)"

definition stored_post_roots :: "'b kv_backend \<Rightarrow> 'b \<Rightarrow> h256 \<Rightarrow> (node_error, stored_roots option) result" where
  "stored_post_roots K b h =
     and_then (map_err NodeStorage (kv_get K b Meta (POSTROOT_PREFIX @ h256_bytes h))) (\<lambda>got.
       Ok (case got of None \<Rightarrow> None | Some bytes \<Rightarrow> decode_post_roots bytes))"

definition execute_block_txs :: "'b runtime \<Rightarrow> chain_spec \<Rightarrow> 'b \<Rightarrow> block \<Rightarrow> (unit, unit) result \<times> 'b" where
  "execute_block_txs W spec b blk =
     (let height = number (block_header blk); who = beneficiary (block_header blk) in
      case commit_txs W spec who height \<lparr>cr_store = b, cr_gas = 0, cr_receipts = []\<rparr> (transactions (body blk)) of
        (Err x, st) \<Rightarrow> (Err x, cr_store st)
      | (Panic, st) \<Rightarrow> (Panic, cr_store st)
      | (Ok _, st) \<Rightarrow>
          let subsidy = block_reward_at spec height;
              b1 = (if 0 < subsidy \<and> may_receive_subsidy (rt_kv W) (cr_store st) who
                then credit W (cr_store st) who (ucast subsidy) else cr_store st);
              b2 = persist_receipts W b1 (cr_receipts st);
              rs = map snd (cr_receipts st);
              root = (case db_state_root (rt_kv W) (rt_crypto W) (rt_rlp W) b2 of Ok h \<Rightarrow> h | _ \<Rightarrow> EMPTY_TRIE_HASH)
          in (Ok (), persist_post_roots (rt_kv W) b2 (Block_hash (rt_crypto W) (rt_rlp W) blk)
               \<lparr>sr_state_root = root, sr_receipts_root = receipts_root_of (rt_crypto W) (rt_rlp W) rs,
                sr_logs_bloom = block_bloom (rt_crypto W) rs\<rparr>))"

subsection \<open>Two stores in step\<close>

text \<open>
  The part of a store that execution reads: the accounts, codes and slots, and the tables of the node. Two stores
  that agree there answer alike and stay in step.
\<close>

definition write_area :: "column_family \<Rightarrow> byte list \<Rightarrow> bool" where
  "write_area cf k \<longleftrightarrow> cf = State \<or> cf = Code \<or> cf = AccountStorage \<or> table_area cf k"

definition exec_area :: "column_family \<Rightarrow> byte list \<Rightarrow> bool" where
  "exec_area cf k \<longleftrightarrow> write_area cf k \<or> cf = Meta \<and> starts_with SET_PREFIX k"

definition in_step :: "('b \<Rightarrow> bool) \<Rightarrow> ('b \<Rightarrow> contents) \<Rightarrow> 'b \<Rightarrow> 'b \<Rightarrow> bool" where
  "in_step opened contents b c \<longleftrightarrow> opened b \<and> opened c \<and>
     (\<forall>cf k. exec_area cf k \<longrightarrow> contents b cf k = contents c cf k)"

definition alike :: "('b \<Rightarrow> bool) \<Rightarrow> ('b \<Rightarrow> contents) \<Rightarrow> 'r \<times> 'b \<Rightarrow> 'r \<times> 'b \<Rightarrow> bool" where
  "alike opened contents out out' \<longleftrightarrow> fst out = fst out' \<and> in_step opened contents (snd out) (snd out')"

lemma exec_area_simps [simp]:
  "write_area State k" "write_area Code k" "write_area AccountStorage k" "table_area cf k \<Longrightarrow> write_area cf k"
  "exec_area State k" "exec_area Code k" "exec_area AccountStorage k" "table_area cf k \<Longrightarrow> exec_area cf k"
  "starts_with SET_PREFIX k \<Longrightarrow> exec_area Meta k" "\<not> exec_area Receipts k" "\<not> exec_area Headers k"
  "\<not> exec_area Bodies k" "\<not> exec_area TxLookup k" "\<not> exec_area MicroChain k"
  by (simp_all add: exec_area_def write_area_def table_area_def)

primrec outside :: "batch_op \<Rightarrow> bool" where
  "outside (OpPut cf k v) \<longleftrightarrow> \<not> exec_area cf k"
| "outside (OpDelete cf k) \<longleftrightarrow> \<not> exec_area cf k"

context kv_store
begin

lemma iter_prefix_contents:
  assumes "opened b" and "opened c" and "\<And>k. starts_with pre k \<Longrightarrow> contents b cf k = contents c cf k"
  shows "kv_iter_prefix K b cf pre = kv_iter_prefix K c cf pre"
proof -
  obtain m where m: "kv_iter_prefix K b cf pre = map Ok m" "btree_ok m"
      "map_of m = (\<lambda>k. if starts_with pre k then contents b cf k else None)"
    using iter_prefix_spec [OF assms(1)] by blast
  obtain m' where m': "kv_iter_prefix K c cf pre = map Ok m'" "btree_ok m'"
      "map_of m' = (\<lambda>k. if starts_with pre k then contents c cf k else None)"
    using iter_prefix_spec [OF assms(2)] by blast
  have "map_of m = map_of m'" using m(3) m'(3) assms(3) by (simp add: fun_eq_iff)
  then have "set m = set m'" using m(2) m'(2) by (metis btree_ok_def map_of_inject_set)
  then have "m = m'"
    using m(2) m'(2) by (intro map_sorted_distinct_set_unique [of fst]) (auto simp: btree_ok_def distinct_map)
  with m m' show ?thesis by simp
qed

lemma in_step_get:
  "in_step opened contents b c \<Longrightarrow> exec_area cf k \<Longrightarrow> kv_get K b cf k = kv_get K c cf k"
  by (simp add: in_step_def get_spec)

lemma in_step_scan:
  "in_step opened contents b c \<Longrightarrow> (\<And>k. starts_with pre k \<Longrightarrow> exec_area cf k) \<Longrightarrow>
    kv_iter_prefix K b cf pre = kv_iter_prefix K c cf pre"
  by (intro iter_prefix_contents) (auto simp: in_step_def)

lemma in_step_put:
  assumes "in_step opened contents b c"
  obtains b' c' where "kv_put K b cf k v = (Ok (), b')" "kv_put K c cf k v = (Ok (), c')" "in_step opened contents b' c'"
proof -
  obtain b' c' where "kv_put K b cf k v = (Ok (), b')" "opened b'" "contents b' = apply_op (contents b) (OpPut cf k v)"
      "kv_put K c cf k v = (Ok (), c')" "opened c'" "contents c' = apply_op (contents c) (OpPut cf k v)"
    using put_spec [of b cf k v] put_spec [of c cf k v] assms by (auto simp: in_step_def)
  then show ?thesis using assms by (intro that [of b' c']) (auto simp: in_step_def)
qed

lemma in_step_delete:
  assumes "in_step opened contents b c"
  obtains b' c' where "kv_delete K b cf k = (Ok (), b')" "kv_delete K c cf k = (Ok (), c')"
    "in_step opened contents b' c'"
proof -
  obtain b' c' where "kv_delete K b cf k = (Ok (), b')" "opened b'" "contents b' = apply_op (contents b) (OpDelete cf k)"
      "kv_delete K c cf k = (Ok (), c')" "opened c'" "contents c' = apply_op (contents c) (OpDelete cf k)"
    using delete_spec [of b cf k] delete_spec [of c cf k] assms by (auto simp: in_step_def)
  then show ?thesis using assms by (intro that [of b' c']) (auto simp: in_step_def)
qed

text \<open>A write outside the area on one side only.\<close>

lemma in_step_write:
  assumes "in_step opened contents b c" and "list_all outside ops"
  shows "in_step opened contents (snd (kv_write K b ops)) c"
proof -
  have "exec_area cf k \<Longrightarrow> foldl apply_op m ops cf k = m cf k" for m cf k
    using assms(2)
  proof (induction ops arbitrary: m)
    case (Cons op ops)
    then show ?case by (cases op) auto
  qed simp
  then show ?thesis using write_spec [of b ops] assms(1) by (auto simp: in_step_def)
qed

lemma in_step_outside:
  "in_step opened contents b c \<Longrightarrow> \<not> exec_area cf k \<Longrightarrow> in_step opened contents (snd (kv_put K b cf k v)) c"
  using put_spec [of b cf k v] by (auto simp: in_step_def)

subsection \<open>The precompile in step\<close>

lemma in_step_reads:
  assumes s: "in_step opened contents b c"
  shows "stake_get K b a = stake_get K c a" "gov_get K b pid = gov_get K c pid"
    "next_proposal_id K b = next_proposal_id K c" "latest_validator_set K b = latest_validator_set K c"
proof -
  show "stake_get K b a = stake_get K c a" "gov_get K b pid = gov_get K c pid"
    using in_step_get [OF s, of Meta] by (simp_all add: stake_get_def gov_get_def)
  show "next_proposal_id K b = next_proposal_id K c"
    using in_step_scan [OF s, of PROP_PREFIX Meta] by (simp add: next_proposal_id_def table_area_def)
  have "read_validator_set K b = read_validator_set K c"
    using in_step_get [OF s, of Meta] by (simp add: fun_eq_iff read_validator_set_def set_key_def)
  moreover have "kv_iter_prefix K b Meta SET_PREFIX = kv_iter_prefix K c Meta SET_PREFIX"
    using in_step_scan [OF s, of SET_PREFIX Meta] by simp
  ultimately show "latest_validator_set K b = latest_validator_set K c"
    unfolding latest_validator_set_def by metis
qed

lemma stake_put_alike: "in_step opened contents b c \<Longrightarrow> alike opened contents (stake_put K b a x u) (stake_put K c a x u)"
  by (erule in_step_put [of _ _ Meta "stake_key a" "stake_encode_value x u"]) (simp add: stake_put_def alike_def)

lemma gov_put_alike: "in_step opened contents b c \<Longrightarrow> alike opened contents (gov_put K b k v) (gov_put K c k v)"
  by (erule in_step_put [of _ _ Meta k v]) (simp add: gov_put_def alike_def)

lemma registry_register_alike:
  "in_step opened contents b c \<Longrightarrow> alike opened contents (registry_register K b a ks) (registry_register K c a ks)"
  by (erule in_step_put [of _ _ Meta "registry_key a" "registry_encode_value ks"])
    (simp add: registry_register_def alike_def)

lemma alike_same [simp]: "alike opened contents (r, b) (r', c) \<longleftrightarrow> r = r' \<and> in_step opened contents b c"
  by (simp add: alike_def)

lemma withdraw_alike:
  assumes s: "in_step opened contents b c"
  shows "alike opened contents (withdraw K b a h) (withdraw K c a h)"
proof -
  obtain b' c' where "kv_delete K b Meta (stake_key a) = (Ok (), b')" "kv_delete K c Meta (stake_key a) = (Ok (), c')"
      "in_step opened contents b' c'"
    using in_step_delete [OF s] .
  then show ?thesis
    using s by (simp add: withdraw_def in_step_reads(1) [OF s] split: result.split option.split)
qed

lemma stake_ops_alike:
  assumes s: "in_step opened contents b c"
  shows "alike opened contents (bond K b a d) (bond K c a d)"
    "alike opened contents (begin_unbond K b a h p) (begin_unbond K c a h p)"
  using s stake_put_alike [OF s]
  by (simp_all add: bond_def begin_unbond_def in_step_reads(1) [OF s] Let_def split: result.split option.split)

lemma propose_alike:
  assumes s: "in_step opened contents b c"
  shows "alike opened contents (propose K b who title ends) (propose K c who title ends)"
  by (simp add: propose_def in_step_reads [OF s] Let_def split_beta s gov_put_alike [OF s, unfolded alike_def]
    split: result.split)

lemma vote_alike:
  assumes s: "in_step opened contents b c"
  shows "alike opened contents (cast_gov_vote K b pid a support h) (cast_gov_vote K c pid a support h)"
  by (simp add: cast_gov_vote_def in_step_reads [OF s] Let_def split_beta s gov_put_alike [OF s, unfolded alike_def]
    split: result.split)

lemma dispatch_alike:
  assumes s: "in_step opened contents b c"
  shows "alike opened contents (dispatch C K b sender amount data h period) (dispatch C K c sender amount data h period)"
proof -
  note ops = stake_ops_alike [OF s, unfolded alike_def] withdraw_alike [OF s, unfolded alike_def]
    propose_alike [OF s, unfolded alike_def] vote_alike [OF s, unfolded alike_def]
    registry_register_alike [OF s, unfolded alike_def]
  show ?thesis
    by (simp add: dispatch_def dispatch_bond_def dispatch_begin_unbond_def dispatch_withdraw_def dispatch_propose_def
      dispatch_vote_def dispatch_register_def Let_def split_beta s ops split: result.split)
qed

subsection \<open>The interpreter in step\<close>

lemma in_step_state:
  assumes s: "in_step opened contents b c"
  shows "db_account K C R b = db_account K C R c" "code_get K b = code_get K c" "storage_get K b = storage_get K c"
    "db_state_root K C R b = db_state_root K C R c" "RevmDb K C R b = RevmDb K C R c"
proof -
  show acc: "db_account K C R b = db_account K C R c" and code: "code_get K b = code_get K c"
    and slot: "storage_get K b = storage_get K c"
    using in_step_get [OF s] by (simp_all add: fun_eq_iff db_account_def code_get_def storage_get_def)
  show "db_state_root K C R b = db_state_root K C R c"
    using iter_contents [of b c State] s by (simp add: db_state_root_def in_step_def fun_eq_iff)
  show "RevmDb K C R b = RevmDb K C R c"
    by (simp add: RevmDb_def revm_basic_def revm_code_by_hash_def revm_storage_def acc code slot fun_eq_iff)
qed

lemma set_account_alike:
  assumes "in_step opened contents b c"
  obtains b' c' where "set_account K C R b a acc = (Ok (), b')" "set_account K C R c a acc = (Ok (), c')"
    "in_step opened contents b' c'"
proof -
  obtain b' c' where "kv_put K b State (state_key C a) (Account_encode R acc) = (Ok (), b')"
      "kv_put K c State (state_key C a) (Account_encode R acc) = (Ok (), c')" "in_step opened contents b' c'"
    using in_step_put [OF assms] .
  then show ?thesis by (intro that [of b' c']) (simp_all add: set_account_def)
qed

lemma apply_code_alike:
  assumes s: "in_step opened contents b c"
  obtains b' c' where "apply_code K b acc = (Ok (), b')" "apply_code K c acc = (Ok (), c')" "in_step opened contents b' c'"
proof (cases "ra_code acc")
  case None
  then show ?thesis using s by (intro that [of b c]) (simp_all add: apply_code_def)
next
  case (Some code)
  obtain b' c' where "kv_put K b Code (h256_bytes (ra_code_hash acc)) code = (Ok (), b')"
      "kv_put K c Code (h256_bytes (ra_code_hash acc)) code = (Ok (), c')" "in_step opened contents b' c'"
    using in_step_put [OF s] .
  then show ?thesis
    using s Some that [of b c] that [of b' c'] by (cases "code = []") (simp_all add: apply_code_def code_put_def)
qed

lemma storage_put_alike:
  assumes s: "in_step opened contents b c"
  obtains b' c' where "storage_put K b a i v = (Ok (), b')" "storage_put K c a i v = (Ok (), c')"
    "in_step opened contents b' c'"
proof -
  obtain b1 c1 where "kv_put K b AccountStorage (storage_key a i) (h256_bytes v) = (Ok (), b1)"
      "kv_put K c AccountStorage (storage_key a i) (h256_bytes v) = (Ok (), c1)" "in_step opened contents b1 c1"
    using in_step_put [OF s] .
  moreover obtain b2 c2 where "kv_delete K b AccountStorage (storage_key a i) = (Ok (), b2)"
      "kv_delete K c AccountStorage (storage_key a i) = (Ok (), c2)" "in_step opened contents b2 c2"
    using in_step_delete [OF s] .
  ultimately show ?thesis
    using that [of b1 c1] that [of b2 c2] by (cases "v = 0") (simp_all add: storage_put_def)
qed

lemma apply_slots_alike:
  assumes "in_step opened contents b c"
  shows "\<exists>b' c'. apply_slots K b a ss = (Ok (), b') \<and> apply_slots K c a ss = (Ok (), c') \<and> in_step opened contents b' c'"
  using assms
proof (induction ss arbitrary: b c)
  case (Cons s ss)
  obtain b' c' where "storage_put K b a (from_be_bytes (to_be_bytes 32 (fst s))) (from_be_bytes (to_be_bytes 32 (present_value (snd s)))) = (Ok (), b')"
      "storage_put K c a (from_be_bytes (to_be_bytes 32 (fst s))) (from_be_bytes (to_be_bytes 32 (present_value (snd s)))) = (Ok (), c')"
      "in_step opened contents b' c'"
    using storage_put_alike [OF Cons.prems] .
  then show ?case using Cons.IH [OF Cons.prems] Cons.IH [of b' c'] by simp
qed simp

lemma apply_changes_alike:
  assumes "in_step opened contents b c"
  shows "alike opened contents (apply_changes K C R b chs) (apply_changes K C R c chs)"
  using assms
proof (induction chs arbitrary: b c)
  case (Cons ch chs)
  note s = Cons.prems
  show ?case
  proof (cases "account_or_empty K C R c (fst ch)")
    case (Ok out)
    let ?out = "out\<lparr>acc_nonce := ra_nonce (snd ch), balance := ra_balance (snd ch), code_hash := ra_code_hash (snd ch)\<rparr>"
    obtain b1 c1 where 1: "set_account K C R b (fst ch) ?out = (Ok (), b1)" "set_account K C R c (fst ch) ?out = (Ok (), c1)"
        "in_step opened contents b1 c1" using set_account_alike [OF s] .
    obtain b2 c2 where 2: "apply_code K b1 (snd ch) = (Ok (), b2)" "apply_code K c1 (snd ch) = (Ok (), c2)"
        "in_step opened contents b2 c2" using apply_code_alike [OF 1(3)] .
    obtain b3 c3 where "apply_slots K b2 (fst ch) (ra_storage (snd ch)) = (Ok (), b3)"
        "apply_slots K c2 (fst ch) (ra_storage (snd ch)) = (Ok (), c3)" "in_step opened contents b3 c3"
      using apply_slots_alike [OF 2(3), of "fst ch" "ra_storage (snd ch)"] by (elim exE conjE)
    then show ?thesis
      using Ok 1 2 Cons.IH [of b3 c3] s by (simp add: account_or_empty_def in_step_state [OF s])
  qed (use s in \<open>simp_all add: account_or_empty_def in_step_state [OF s]\<close>)
qed simp

lemma execute_with_revm_alike:
  assumes s: "in_step opened contents b c"
  shows "alike opened contents (execute_with_revm V K C R b sender dest amount data limit price)
    (execute_with_revm V K C R c sender dest amount data limit price)"
  by (simp add: execute_with_revm_def in_step_state [OF s] split_beta s apply_changes_alike [OF s, unfolded alike_def]
    split: sum.split)

subsection \<open>The executors in step\<close>

lemma credit_in_step:
  assumes s: "in_step opened contents b c" and W: "rt_kv W = K"
    and run: "fst (credit_state_for_roots W c a d) = Ok ()"
  shows "in_step opened contents (credit_fee W b a d) (snd (credit_state_for_roots W c a d))"
proof (cases "d = 0")
  case True
  then show ?thesis using s run by (simp add: credit_state_for_roots_def credit_fee_def)
next
  case False
  then obtain got where got: "db_account K (rt_crypto W) (rt_rlp W) c a = Ok got"
    using run W by (cases "db_account K (rt_crypto W) (rt_rlp W) c a") (simp_all add: credit_state_for_roots_def)
  define acc where "acc = (case got of None \<Rightarrow> Account_EMPTY | Some acc \<Rightarrow> acc)"
  obtain b1 c1 where
      "set_account K (rt_crypto W) (rt_rlp W) b a (acc\<lparr>balance := saturating_add (balance acc) d\<rparr>) = (Ok (), b1)"
      "set_account K (rt_crypto W) (rt_rlp W) c a (acc\<lparr>balance := saturating_add (balance acc) d\<rparr>) = (Ok (), c1)"
      "in_step opened contents b1 c1" using set_account_alike [OF s] .
  then show ?thesis
    using False run W got in_step_state(1) [OF s]
    by (cases got) (simp_all add: credit_state_for_roots_def credit_fee_def credit_def acc_def)
qed

lemma subsidy_in_step:
  assumes s: "in_step opened contents b c" and W: "rt_kv W = K" and pos: "0 < (subsidy :: u128)"
    and run: "fst (credit_state_for_roots W c a (ucast subsidy)) = Ok ()"
  shows "in_step opened contents (credit W b a (ucast subsidy)) (snd (credit_state_for_roots W c a (ucast subsidy)))"
proof -
  have "(ucast (ucast subsidy :: u256) :: u128) = subsidy"
    by (rule bit_word_eqI) (auto simp: bit_ucast_iff dest: bit_imp_le_length)
  then have "(ucast subsidy :: u256) \<noteq> 0" using pos by (metis unsigned_0 word_gt_0)
  then show ?thesis using credit_in_step [OF s W run] by (simp add: credit_fee_def)
qed

lemma run_precompile_alike:
  "in_step opened contents b c \<Longrightarrow> rt_kv W = K \<Longrightarrow>
    alike opened contents (run_precompile W spec h b sender amount data) (run_precompile W spec h c sender amount data)"
  by (simp add: run_precompile_def dispatch_alike)

lemma run_evm_alike:
  "in_step opened contents b c \<Longrightarrow> rt_kv W = K \<Longrightarrow>
    alike opened contents (run_evm W b sender dest amount data limit price) (run_evm W c sender dest amount data limit price)"
  by (simp add: run_evm_def execute_with_revm_alike)

end

text \<open>The two runs correspond: stores in step, the same gas, the same receipts.\<close>

definition runs_agree :: "('b \<Rightarrow> bool) \<Rightarrow> ('b \<Rightarrow> contents) \<Rightarrow> 'b commit_run \<Rightarrow> 'b roots_run \<Rightarrow> bool" where
  "runs_agree opened contents st rt \<longleftrightarrow> in_step opened contents (cr_store st) (rr_store rt) \<and>
     cr_gas st = rr_gas rt \<and> map snd (cr_receipts st) = rr_receipts rt"

context kv_store
begin

lemma tx_agrees:
  assumes a: "runs_agree opened contents st rt" and W: "rt_kv W = K"
    and run: "roots_tx W spec who height rt tx = (Ok (), rt')"
  shows "\<exists>st'. commit_tx W spec who height st tx = (Ok (), st') \<and> runs_agree opened contents st' rt'"
proof (cases "recover_signer (rt_crypto W) (rt_secp W) (rt_rlp W) tx (spec_chain_id spec)")
  case (Ok sender)
  show ?thesis
  proof (cases "tx_parts tx")
    case None
    then show ?thesis using a run Ok by (simp add: roots_tx_def commit_tx_def)
  next
    case (Some parts)
    obtain dest amount data limit price where p: "tx_parts tx = Some (dest, amount, data, limit, price)"
      using Some by (cases parts) simp
    have s: "in_step opened contents (cr_store st) (rr_store rt)" using a by (simp add: runs_agree_def)
    show ?thesis
    proof (cases "dest = Some PRECOMPILE_ADDR")
      case True
      obtain r b c where bc: "run_precompile W spec height (cr_store st) sender amount data = (r, b)"
          "run_precompile W spec height (rr_store rt) sender amount data = (r, c)" "in_step opened contents b c"
        using run_precompile_alike [OF s W] by (metis alike_def prod.collapse)
      then show ?thesis
        using run Ok p True a credit_in_step [OF bc(3) W]
        by (auto simp: roots_tx_def commit_tx_def runs_agree_def Let_def split_beta split: result.splits)
    next
      case False
      obtain r b c where bc: "run_evm W (cr_store st) sender dest amount data limit price = (r, b)"
          "run_evm W (rr_store rt) sender dest amount data limit price = (r, c)" "in_step opened contents b c"
        using run_evm_alike [OF s W] by (metis alike_def prod.collapse)
      then show ?thesis
        using run Ok p False a credit_in_step [OF bc(3) W]
        by (auto simp: roots_tx_def commit_tx_def runs_agree_def Let_def split_beta split: result.splits)
    qed
  qed
qed (use a run in \<open>simp_all add: roots_tx_def commit_tx_def\<close>)

lemma txs_agree:
  assumes "runs_agree opened contents st rt" and "rt_kv W = K" and "roots_txs W spec who height rt txs = (Ok (), rt')"
  shows "\<exists>st'. commit_txs W spec who height st txs = (Ok (), st') \<and> runs_agree opened contents st' rt'"
  using assms(1,3)
proof (induction txs arbitrary: st rt)
  case (Cons tx txs)
  obtain rt1 where 1: "roots_tx W spec who height rt tx = (Ok (), rt1)"
    using Cons.prems(2) by (auto split: prod.splits result.splits)
  obtain st1 where "commit_tx W spec who height st tx = (Ok (), st1)" "runs_agree opened contents st1 rt1"
    using tx_agrees [OF Cons.prems(1) assms(2) 1] by (elim exE conjE)
  then show ?case using Cons.IH [of st1 rt1] Cons.prems(2) 1 by simp
qed simp

subsection \<open>The copy\<close>

lemma copy_items_spec:
  assumes "opened dst"
  shows "\<exists>dst'. copy_items K cf dst (map Ok m) = (Ok (), dst') \<and> opened dst' \<and>
    contents dst' = foldl (\<lambda>c (k, v). apply_op c (OpPut cf k v)) (contents dst) m"
  using assms
proof (induction m arbitrary: dst)
  case (Cons kv m)
  obtain d where "kv_put K dst cf (fst kv) (snd kv) = (Ok (), d)" "opened d"
      "contents d = apply_op (contents dst) (OpPut cf (fst kv) (snd kv))"
    using put_spec [OF Cons.prems, of cf "fst kv" "snd kv"] by (elim exE conjE)
  then show ?case using Cons.IH [of d] by (cases kv) simp
qed simp

lemma puts_of_map:
  "distinct (map fst m) \<Longrightarrow> foldl (\<lambda>c (k, v). apply_op c (OpPut cf k v)) c m cf' key =
     (if cf' = cf then (case map_of m key of None \<Rightarrow> c cf key | Some v \<Rightarrow> Some v) else c cf' key)"
proof (induction m arbitrary: c)
  case (Cons kv m)
  obtain k v where kv: "kv = (k, v)" by (cases kv)
  have "map_of m k = None" using Cons.prems by (simp add: kv map_of_eq_None_iff)
  then show ?case
    using Cons.IH [of "apply_op c (OpPut cf k v)"] Cons.prems by (auto simp: kv split: option.split)
qed simp

lemma copy_families_spec:
  assumes "opened src" and "opened dst"
  shows "\<exists>dst'. copy_families K src dst cfs = (Ok (), dst') \<and> opened dst' \<and>
    (\<forall>cf. contents dst' cf = (if cf \<in> set cfs then contents dst cf ++ contents src cf else contents dst cf))"
  using assms(2)
proof (induction cfs arbitrary: dst)
  case (Cons cf cfs)
  obtain m where m: "kv_iter K src cf = map Ok m" "btree_ok m" "map_of m = contents src cf"
    using iter_spec [OF assms(1)] by blast
  have "distinct (map fst m)" using m(2) by (simp add: btree_ok_def)
  then obtain d where d: "copy_items K cf dst (map Ok m) = (Ok (), d)" "opened d"
      "\<And>cf'. contents d cf' = (if cf' = cf then contents dst cf ++ contents src cf else contents dst cf')"
    using copy_items_spec [OF Cons.prems, of cf m] puts_of_map [of m cf "contents dst"] m(3)
    by (auto simp: fun_eq_iff map_add_def)
  obtain d' where "copy_families K src d cfs = (Ok (), d')" "opened d'"
      "\<forall>cf. contents d' cf = (if cf \<in> set cfs then contents d cf ++ contents src cf else contents d cf)"
    using Cons.IH [OF d(2)] by (elim exE conjE)
  moreover have "f ++ g ++ g = f ++ g" for f g :: "byte list \<rightharpoonup> byte list"
    by (simp add: fun_eq_iff map_add_def split: option.split)
  ultimately show ?case using d m(1) by auto
qed simp

lemma copy_in_step:
  assumes "opened src" and "opened temp" and "contents temp = (\<lambda>_ _. None)"
  obtains copy where "copy_execution_backend K src temp = (Ok (), copy)" "in_step opened contents src copy"
proof -
  obtain copy where "copy_execution_backend K src temp = (Ok (), copy)" "opened copy"
      "\<forall>cf. contents copy cf = (if cf \<in> set [State, Code, AccountStorage, Meta] then contents temp cf ++ contents src cf
        else contents temp cf)"
    using copy_families_spec [OF assms(1,2), of "[State, Code, AccountStorage, Meta]"]
    unfolding copy_execution_backend_def by (elim exE conjE)
  then show ?thesis
    using assms by (intro that [of copy]) (auto simp: in_step_def exec_area_def write_area_def table_area_def map_add_def split: option.split)
qed

subsection \<open>A proposal predicts the commit\<close>

lemma body_agrees:
  assumes s: "in_step opened contents b c" and W: "rt_kv W = K"
    and run: "fst (execute_body_for_roots W spec c bdy who height) = Ok roots"
  obtains st b' c' where
    "commit_txs W spec who height \<lparr>cr_store = b, cr_gas = 0, cr_receipts = []\<rparr> (transactions bdy) = (Ok (), st)"
    "b' = (if 0 < block_reward_at spec height \<and> may_receive_subsidy K (cr_store st) who
       then credit W (cr_store st) who (ucast (block_reward_at spec height)) else cr_store st)"
    "in_step opened contents b' c'" "db_state_root K (rt_crypto W) (rt_rlp W) c' = Ok (pr_state_root roots)"
    "pr_receipts_root roots = receipts_root_of (rt_crypto W) (rt_rlp W) (map snd (cr_receipts st))"
    "pr_logs_bloom roots = block_bloom (rt_crypto W) (map snd (cr_receipts st))" "pr_gas_used roots = cr_gas st"
proof -
  let ?start = "\<lparr>rr_store = c, rr_gas = 0, rr_receipts = []\<rparr>"
  obtain rt where rt: "roots_txs W spec who height ?start (transactions bdy) = (Ok (), rt)"
    using run by (auto simp: execute_body_for_roots_def split: prod.splits result.splits)
  obtain st where st: "commit_txs W spec who height \<lparr>cr_store = b, cr_gas = 0, cr_receipts = []\<rparr> (transactions bdy) = (Ok (), st)"
      "runs_agree opened contents st rt"
    using txs_agree [OF _ W rt, of "\<lparr>cr_store = b, cr_gas = 0, cr_receipts = []\<rparr>"] s by (auto simp: runs_agree_def)
  have s': "in_step opened contents (cr_store st) (rr_store rt)" using st(2) by (simp add: runs_agree_def)
  have pay: "may_receive_subsidy K (rr_store rt) who = may_receive_subsidy K (cr_store st) who"
    by (simp add: may_receive_subsidy_def in_step_reads(4) [OF s'])
  show ?thesis
  proof (cases "0 < block_reward_at spec height \<and> may_receive_subsidy K (cr_store st) who")
    case True
    let ?c = "credit_state_for_roots W (rr_store rt) who (ucast (block_reward_at spec height))"
    have "fst ?c = Ok ()"
      using run rt True W pay by (cases "fst ?c") (simp_all add: execute_body_for_roots_def split_beta Let_def)
    then show ?thesis
      using run rt True W pay st subsidy_in_step [OF s' W _ \<open>fst ?c = Ok ()\<close>]
      by (intro that [of st _ "snd ?c"]) (auto simp: execute_body_for_roots_def split_beta Let_def and_then_Ok runs_agree_def)
  next
    case False
    then show ?thesis
      using run rt W pay st s'
      by (intro that [of st _ "rr_store rt"]) (auto simp: execute_body_for_roots_def split_beta Let_def and_then_Ok runs_agree_def)
  qed
qed

lemma post_roots_outside [simp]: "\<not> exec_area Meta (POSTROOT_PREFIX @ k)"
  by (simp add: exec_area_def write_area_def table_area_def POSTROOT_PREFIX_def STAKE_PREFIX_def REGISTRY_PREFIX_def PROP_PREFIX_def
    VOTE_PREFIX_def SET_PREFIX_def ascii_def)

lemma decode_post_roots_encode:
  "decode_post_roots (h256_bytes sr @ h256_bytes rr @ to_be_bytes 256 bl) =
     Some \<lparr>sr_state_root = sr, sr_receipts_root = rr, sr_logs_bloom = bl\<rparr>"
  by (simp add: decode_post_roots_def slice_def)

lemma persist_receipts_in_step:
  assumes s: "in_step opened contents b c" and W: "rt_kv W = K"
  shows "in_step opened contents (persist_receipts W b rs) c"
  using s in_step_write [OF s] by (simp add: persist_receipts_def W list_all_iff split_beta)

lemma commit_predicted:
  assumes s: "in_step opened contents b c" and W: "rt_kv W = K"
    and run: "fst (execute_body_for_roots W spec c (body blk) (beneficiary (block_header blk)) (number (block_header blk)))
      = Ok roots"
  obtains b' c' where "execute_block_txs W spec b blk = (Ok (), b')" "in_step opened contents b' c'"
    "db_state_root K (rt_crypto W) (rt_rlp W) c' = Ok (pr_state_root roots)"
    "stored_post_roots K b' (Block_hash (rt_crypto W) (rt_rlp W) blk) = Ok (Some \<lparr>sr_state_root = pr_state_root roots,
       sr_receipts_root = pr_receipts_root roots, sr_logs_bloom = pr_logs_bloom roots\<rparr>)"
proof -
  obtain st b1 c' where 1: "commit_txs W spec (beneficiary (block_header blk)) (number (block_header blk))
        \<lparr>cr_store = b, cr_gas = 0, cr_receipts = []\<rparr> (transactions (body blk)) = (Ok (), st)"
      "b1 = (if 0 < block_reward_at spec (number (block_header blk)) \<and>
           may_receive_subsidy K (cr_store st) (beneficiary (block_header blk))
         then credit W (cr_store st) (beneficiary (block_header blk)) (ucast (block_reward_at spec (number (block_header blk))))
         else cr_store st)"
      "in_step opened contents b1 c'" "db_state_root K (rt_crypto W) (rt_rlp W) c' = Ok (pr_state_root roots)"
      "pr_receipts_root roots = receipts_root_of (rt_crypto W) (rt_rlp W) (map snd (cr_receipts st))"
      "pr_logs_bloom roots = block_bloom (rt_crypto W) (map snd (cr_receipts st))" "pr_gas_used roots = cr_gas st"
    using body_agrees [OF s W run] .
  define b2 where "b2 = persist_receipts W b1 (cr_receipts st)"
  have s2: "in_step opened contents b2 c'" unfolding b2_def using persist_receipts_in_step [OF 1(3) W] .
  define val where "val = h256_bytes (pr_state_root roots) @ h256_bytes (pr_receipts_root roots) @
    to_be_bytes 256 (pr_logs_bloom roots)"
  let ?key = "POSTROOT_PREFIX @ h256_bytes (Block_hash (rt_crypto W) (rt_rlp W) blk)"
  have root: "db_state_root K (rt_crypto W) (rt_rlp W) b2 = Ok (pr_state_root roots)"
    using in_step_state(4) [OF s2] 1(4) by simp
  have "execute_block_txs W spec b blk = (Ok (), snd (kv_put K b2 Meta ?key val))"
    using 1 root W by (simp add: execute_block_txs_def Let_def persist_post_roots_def val_def b2_def)
  moreover have "kv_get K (snd (kv_put K b2 Meta ?key val)) Meta ?key = Ok (Some val)"
    using put_get [of b2 Meta ?key val] s2 by (simp add: in_step_def)
  ultimately show ?thesis
    using 1(4) in_step_outside [OF s2, of Meta ?key val]
    by (intro that [of "snd (kv_put K b2 Meta ?key val)" c'])
      (simp_all add: stored_post_roots_def decode_post_roots_encode val_def)
qed

end

subsection \<open>Execution always succeeds\<close>

text \<open>
  On a store whose accounts decode no step of execution fails, the accounts still decode afterwards, and nothing
  outside the area it writes changes.
\<close>

definition moves :: "('b \<Rightarrow> bool) \<Rightarrow> ('b \<Rightarrow> contents) \<Rightarrow> rlp \<Rightarrow> 'b \<Rightarrow> 'b \<Rightarrow> bool" where
  "moves opened contents R b b' \<longleftrightarrow> opened b' \<and> world_ok R (contents b') \<and>
     (\<forall>cf k. \<not> write_area cf k \<longrightarrow> contents b' cf k = contents b cf k)"

lemma moves_trans: "moves opened contents R b b' \<Longrightarrow> moves opened contents R b' b'' \<Longrightarrow> moves opened contents R b b''"
  by (simp add: moves_def)

lemma moves_live: "moves opened contents R b b' \<Longrightarrow> opened b'" "moves opened contents R b b' \<Longrightarrow> world_ok R (contents b')"
  by (simp_all add: moves_def)

lemma recover_signer_no_panic: "recover_signer C S R tx cid \<noteq> Panic"
proof -
  have "recover_from_rs C S i r s h \<noteq> Panic" for i r s h
    by (simp add: recover_from_rs_def secp_sig_from_bytes_def secp_recover_def Let_def split: option.split)
  moreover have "and_then (ok_or e got) f \<noteq> Panic" if "\<And>x. f x \<noteq> Panic"
    for e :: recovery_error and got :: "u64 option" and f :: "u64 \<Rightarrow> (recovery_error, address) result"
    using that by (cases got) simp_all
  ultimately show ?thesis by (cases tx) (simp_all add: recover_legacy_def recover_eip1559_def)
qed

context kv_store
begin

lemma moves_refl: "opened b \<Longrightarrow> world_ok R (contents b) \<Longrightarrow> moves opened contents R b b"
  by (simp add: moves_def)

lemma put_moves:
  assumes b: "opened b" "world_ok R (contents b)" and k: "write_area cf k" "cf = State \<longrightarrow> v \<in> range (Account_encode R)"
  shows "\<exists>b'. kv_put K b cf k v = (Ok (), b') \<and> moves opened contents R b b'"
  using put_spec [OF b(1), of cf k v] b(2) k by (auto simp: moves_def world_ok_def)

lemma delete_moves:
  assumes b: "opened b" "world_ok R (contents b)" and k: "write_area cf k"
  shows "\<exists>b'. kv_delete K b cf k = (Ok (), b') \<and> moves opened contents R b b'"
  using delete_spec [OF b(1), of cf k] b(2) k by (auto simp: moves_def world_ok_def)

lemma set_account_moves:
  assumes b: "opened b" "world_ok R (contents b)"
  shows "\<exists>b'. set_account K C R b a acc = (Ok (), b') \<and> moves opened contents R b b'"
  using put_moves [OF b, of State "state_key C a" "Account_encode R acc"] by (auto simp: set_account_def)

lemma apply_code_moves:
  assumes b: "opened b" "world_ok R (contents b)"
  shows "\<exists>b'. apply_code K b acc = (Ok (), b') \<and> moves opened contents R b b'"
  using put_moves [OF b, of Code "h256_bytes (ra_code_hash acc)" "the (ra_code acc)"] moves_refl [OF b]
  by (auto simp: apply_code_def code_put_def split: option.split)

lemma storage_put_moves:
  assumes b: "opened b" "world_ok R (contents b)"
  shows "\<exists>b'. storage_put K b a i v = (Ok (), b') \<and> moves opened contents R b b'"
  using put_moves [OF b, of AccountStorage "storage_key a i" "h256_bytes v"]
    delete_moves [OF b, of AccountStorage "storage_key a i"]
  by (auto simp: storage_put_def)

lemma apply_slots_moves:
  assumes "opened b" "world_ok R (contents b)"
  shows "\<exists>b'. apply_slots K b a ss = (Ok (), b') \<and> moves opened contents R b b'"
  using assms
proof (induction ss arbitrary: b)
  case (Cons s ss)
  obtain b1 where b1: "storage_put K b a (from_be_bytes (to_be_bytes 32 (fst s)))
        (from_be_bytes (to_be_bytes 32 (present_value (snd s)))) = (Ok (), b1)" "moves opened contents R b b1"
    using storage_put_moves [OF Cons.prems, of a "from_be_bytes (to_be_bytes 32 (fst s))"
        "from_be_bytes (to_be_bytes 32 (present_value (snd s)))"] by (elim exE conjE)
  then show ?case
    using Cons.IH [OF Cons.prems] Cons.IH [OF moves_live [OF b1(2)]] moves_trans [OF b1(2)] by auto
qed (simp add: moves_refl)

lemma apply_changes_moves:
  assumes R: "rlp_encodes R" and "opened b" "world_ok R (contents b)"
  shows "\<exists>b'. apply_changes K C R b chs = (Ok (), b') \<and> moves opened contents R b b'"
  using assms(2,3)
proof (induction chs arbitrary: b)
  case (Cons ch chs)
  obtain got where got: "db_account K C R b (fst ch) = Ok got" using account_reads_ok [OF R Cons.prems] by blast
  define out where "out = (case got of None \<Rightarrow> Account_EMPTY | Some acc \<Rightarrow> acc)\<lparr>acc_nonce := ra_nonce (snd ch),
    balance := ra_balance (snd ch), code_hash := ra_code_hash (snd ch)\<rparr>"
  obtain b1 where b1: "set_account K C R b (fst ch) out = (Ok (), b1)" "moves opened contents R b b1"
    using set_account_moves [OF Cons.prems, of C "fst ch" out] by (elim exE conjE)
  obtain b2 where b2: "apply_code K b1 (snd ch) = (Ok (), b2)" "moves opened contents R b1 b2"
    using apply_code_moves [OF moves_live [OF b1(2)], of "snd ch"] by (elim exE conjE)
  obtain b3 where b3: "apply_slots K b2 (fst ch) (ra_storage (snd ch)) = (Ok (), b3)" "moves opened contents R b2 b3"
    using apply_slots_moves [OF moves_live [OF b2(2)], of "fst ch" "ra_storage (snd ch)"] by (elim exE conjE)
  obtain b4 where b4: "apply_changes K C R b3 chs = (Ok (), b4)" "moves opened contents R b3 b4"
    using Cons.IH [OF moves_live [OF b3(2)]] by (elim exE conjE)
  have "moves opened contents R b b4"
    using moves_trans [OF b1(2) moves_trans [OF b2(2) moves_trans [OF b3(2) b4(2)]]] .
  then show ?case using got b1(1) b2(1) b3(1) b4(1) by (simp add: account_or_empty_def out_def)
qed (simp add: moves_refl)

lemma dispatch_moves:
  assumes b: "opened b" "world_ok R (contents b)"
  obtains r b' where "dispatch C K b sender amount data h period = (r, b')" "r \<noteq> Panic" "moves opened contents R b b'"
proof -
  obtain r b' where d: "dispatch C K b sender amount data h period = (r, b')" by (cases "dispatch C K b sender amount data h period")
  have "\<not> table_area State k" for k by (simp add: table_area_def)
  then show ?thesis
    using dispatch_confined [OF b(1), of C sender amount data h period] d b(2)
    by (intro that [of r b']) (auto simp: confined_def moves_def world_ok_def write_area_def)
qed

lemma run_evm_moves:
  assumes R: "rlp_encodes (rt_rlp W)" and b: "opened b" "world_ok (rt_rlp W) (contents b)" and W: "rt_kv W = K"
  obtains r b' where "run_evm W b sender dest amount data limit price = (r, b')" "r \<noteq> Panic"
    "moves opened contents (rt_rlp W) b b'"
proof (cases "rt_revm W (RevmDb K (rt_crypto W) (rt_rlp W) b) 
    \<lparr>env_caller = sender, env_transact_to = dest, env_value = amount, env_data = data, env_gas_limit = limit,
     env_gas_price = price\<rparr>")
  case (Inl msg)
  then show ?thesis
    using W moves_refl [OF b] by (intro that [of "Err (Revm msg)" b]) (simp_all add: run_evm_def execute_with_revm_def)
next
  case (Inr out)
  obtain b' where "apply_changes K (rt_crypto W) (rt_rlp W) b (snd out) = (Ok (), b')" "moves opened contents (rt_rlp W) b b'"
    using apply_changes_moves [OF R b, of "rt_crypto W" "snd out"] by (elim exE conjE)
  then show ?thesis
    using Inr W
    by (intro that [of "Ok (summary_of (fst out))" b']) (simp_all add: run_evm_def execute_with_revm_def split_beta)
qed

lemma credit_moves:
  assumes R: "rlp_encodes (rt_rlp W)" and b: "opened b" "world_ok (rt_rlp W) (contents b)" and W: "rt_kv W = K"
  obtains b' where "credit_state_for_roots W b a d = (Ok (), b')" "moves opened contents (rt_rlp W) b b'"
    "credit_fee W b a d = b'"
proof -
  obtain got where got: "db_account K (rt_crypto W) (rt_rlp W) b a = Ok got" using account_reads_ok [OF R b] by blast
  define acc where "acc = (case got of None \<Rightarrow> Account_EMPTY | Some acc \<Rightarrow> acc)"
  obtain b' where "set_account K (rt_crypto W) (rt_rlp W) b a (acc\<lparr>balance := saturating_add (balance acc) d\<rparr>) = (Ok (), b')"
      "moves opened contents (rt_rlp W) b b'"
    using set_account_moves [OF b, of "rt_crypto W" a "acc\<lparr>balance := saturating_add (balance acc) d\<rparr>"] by (elim exE conjE)
  then show ?thesis
    using got W moves_refl [OF b] that [of b] that [of b']
    by (cases "d = 0"; cases got) (simp_all add: credit_state_for_roots_def credit_fee_def credit_def acc_def)
qed

lemma roots_tx_moves:
  assumes R: "rlp_encodes (rt_rlp W)" and b: "opened (rr_store rt)" "world_ok (rt_rlp W) (contents (rr_store rt))"
    and W: "rt_kv W = K"
  shows "\<exists>rt'. roots_tx W spec who height rt tx = (Ok (), rt') \<and> moves opened contents (rt_rlp W) (rr_store rt) (rr_store rt')"
proof (cases "recover_signer (rt_crypto W) (rt_secp W) (rt_rlp W) tx (spec_chain_id spec)")
  case (Ok sender)
  show ?thesis
  proof (cases "tx_parts tx")
    case None
    then show ?thesis using Ok moves_refl [OF b] by (simp add: roots_tx_def)
  next
    case (Some parts)
    obtain dest amount data limit price where p: "tx_parts tx = Some (dest, amount, data, limit, price)"
      using Some by (cases parts) simp
    show ?thesis
    proof (cases "dest = Some PRECOMPILE_ADDR")
      case True
      obtain r b1 where 1: "dispatch (rt_crypto W) K (rr_store rt) sender amount data height (unbonding_period_blocks spec) = (r, b1)"
          "r \<noteq> Panic" "moves opened contents (rt_rlp W) (rr_store rt) b1" using dispatch_moves [OF b] .
      obtain b2 where 2: "credit_state_for_roots W b1 who (saturating_mul 21000 price) = (Ok (), b2)"
          "moves opened contents (rt_rlp W) b1 b2" "credit_fee W b1 who (saturating_mul 21000 price) = b2"
        using credit_moves [OF R moves_live [OF 1(3)] W] .
      show ?thesis
        using Ok p True W 1 2(1) moves_trans [OF 1(3) 2(2)]
        by (cases r) (simp_all add: roots_tx_def run_precompile_def Let_def)
    next
      case False
      obtain r b1 where 1: "run_evm W (rr_store rt) sender dest amount data limit price = (r, b1)" "r \<noteq> Panic"
          "moves opened contents (rt_rlp W) (rr_store rt) b1" using run_evm_moves [OF R b W] .
      show ?thesis
      proof (cases r)
        case (Ok summary)
        obtain b2 where 2: "credit_state_for_roots W b1 who (saturating_mul (ucast (es_gas_used summary)) price) = (Ok (), b2)"
            "moves opened contents (rt_rlp W) b1 b2"
            "credit_fee W b1 who (saturating_mul (ucast (es_gas_used summary)) price) = b2"
          using credit_moves [OF R moves_live [OF 1(3)] W] .
        show ?thesis
          using \<open>recover_signer (rt_crypto W) (rt_secp W) (rt_rlp W) tx (spec_chain_id spec) = Ok sender\<close>
            p False 1 Ok 2(1) moves_trans [OF 1(3) 2(2)] by (simp add: roots_tx_def Let_def)
      qed (use Ok p False 1 in \<open>simp_all add: roots_tx_def\<close>)
    qed
  qed
qed (use moves_refl [OF b] recover_signer_no_panic in \<open>simp_all add: roots_tx_def\<close>)

lemma roots_txs_moves:
  assumes R: "rlp_encodes (rt_rlp W)" and W: "rt_kv W = K"
    and "opened (rr_store rt)" "world_ok (rt_rlp W) (contents (rr_store rt))"
  shows "\<exists>rt'. roots_txs W spec who height rt txs = (Ok (), rt') \<and> moves opened contents (rt_rlp W) (rr_store rt) (rr_store rt')"
  using assms(3,4)
proof (induction txs arbitrary: rt)
  case (Cons tx txs)
  obtain rt1 where 1: "roots_tx W spec who height rt tx = (Ok (), rt1)"
      "moves opened contents (rt_rlp W) (rr_store rt) (rr_store rt1)"
    using roots_tx_moves [OF R Cons.prems W, of spec who height tx] by (elim exE conjE)
  then show ?case using Cons.IH [OF moves_live [OF 1(2)]] moves_trans [OF 1(2)] by auto
qed (simp add: moves_refl)

lemma state_root_ok:
  assumes R: "rlp_encodes R" and b: "opened b" "world_ok R (contents b)"
  shows "\<exists>h. db_state_root K C R b = Ok h"
proof -
  obtain m where m: "kv_iter K b State = map Ok m" "btree_ok m" "map_of m = contents b State"
    using iter_spec [OF b(1)] by blast
  have "\<exists>acc. v = Account_encode R acc" if "(k, v) \<in> set m" for k v
  proof -
    have "map_of m k = Some v" using that m(2) by (simp add: btree_ok_def)
    then show ?thesis using b(2) m(3) by (simp add: world_ok_def)
  qed
  then have "\<exists>ps. root_pairs R (map Ok m) = Ok ps"
  proof (induction m)
    case (Cons kv m)
    obtain acc where acc: "snd kv = Account_encode R acc" using Cons.prems [of "fst kv" "snd kv"] by auto
    obtain ps where "root_pairs R (map Ok m) = Ok ps" using Cons.IH Cons.prems by auto
    then show ?case using acc by (cases kv) (simp add: Account_decode_encode [OF R])
  qed simp
  then show ?thesis using m(1) by (auto simp: db_state_root_def)
qed

lemma execution_succeeds:
  assumes R: "rlp_encodes (rt_rlp W)" and b: "opened b" "world_ok (rt_rlp W) (contents b)" and W: "rt_kv W = K"
  shows "\<exists>roots. fst (execute_body_for_roots W spec b bdy who height) = Ok roots"
proof -
  obtain rt where rt: "roots_txs W spec who height \<lparr>rr_store = b, rr_gas = 0, rr_receipts = []\<rparr> (transactions bdy) = (Ok (), rt)"
      "moves opened contents (rt_rlp W) b (rr_store rt)"
    using roots_txs_moves [OF R W, of "\<lparr>rr_store = b, rr_gas = 0, rr_receipts = []\<rparr>" spec who height "transactions bdy"] b
    by auto
  obtain b1 where 1: "credit_state_for_roots W (rr_store rt) who (ucast (block_reward_at spec height)) = (Ok (), b1)"
      "moves opened contents (rt_rlp W) (rr_store rt) b1"
      "credit_fee W (rr_store rt) who (ucast (block_reward_at spec height)) = b1"
    using credit_moves [OF R moves_live [OF rt(2)] W] .
  obtain h h' where "db_state_root K (rt_crypto W) (rt_rlp W) (rr_store rt) = Ok h"
      "db_state_root K (rt_crypto W) (rt_rlp W) b1 = Ok h'"
    using state_root_ok [OF R moves_live [OF rt(2)]] state_root_ok [OF R moves_live [OF 1(2)]] by blast
  then show ?thesis using rt(1) 1(1) W by (auto simp: execute_body_for_roots_def Let_def)
qed

end

text \<open>On one and the same store the two loops do the same.\<close>

definition roots_of :: "'b commit_run \<Rightarrow> 'b roots_run" where
  "roots_of st = \<lparr>rr_store = cr_store st, rr_gas = cr_gas st, rr_receipts = map snd (cr_receipts st)\<rparr>"

lemma credit_fee_same:
  "fst (credit_state_for_roots W b a d) = Ok () \<Longrightarrow> credit_fee W b a d = snd (credit_state_for_roots W b a d)"
  by (auto simp: credit_state_for_roots_def credit_fee_def credit_def Let_def split: result.splits option.splits if_splits)

lemma commit_tx_same:
  assumes "roots_tx W spec who height (roots_of st) tx = (Ok (), rt)"
  shows "\<exists>st'. commit_tx W spec who height st tx = (Ok (), st') \<and> roots_of st' = rt"
  using assms
  by (auto simp: roots_tx_def commit_tx_def roots_of_def Let_def split_beta credit_fee_same
    split: result.splits option.splits if_splits prod.splits)

lemma commit_txs_same:
  "roots_txs W spec who height (roots_of st) txs = (Ok (), rt) \<Longrightarrow>
    \<exists>st'. commit_txs W spec who height st txs = (Ok (), st') \<and> roots_of st' = rt"
proof (induction txs arbitrary: st)
  case (Cons tx txs)
  obtain rt1 where 1: "roots_tx W spec who height (roots_of st) tx = (Ok (), rt1)"
    using Cons.prems by (auto split: prod.splits result.splits)
  obtain st1 where "commit_tx W spec who height st tx = (Ok (), st1)" "roots_of st1 = rt1"
    using commit_tx_same [OF 1] by (elim exE conjE)
  then show ?case using Cons.IH [of st1] Cons.prems 1 by simp
qed simp

definition commit_area :: "column_family \<Rightarrow> byte list \<Rightarrow> bool" where
  "commit_area cf k \<longleftrightarrow> write_area cf k \<or> cf = Receipts \<or> cf = Meta \<and> starts_with POSTROOT_PREFIX k"

context kv_store
begin

lemma persist_receipts_frame:
  assumes b: "opened b" and W: "rt_kv W = K"
  shows "opened (persist_receipts W b rs)" "cf \<noteq> Receipts \<Longrightarrow> contents (persist_receipts W b rs) cf = contents b cf"
proof -
  let ?ops = "map (\<lambda>(h, r). OpPut Receipts (h256_bytes h) (Receipt_encode_2718 (rt_rlp W) r)) rs"
  have "cf \<noteq> Receipts \<Longrightarrow> foldl apply_op m ?ops cf = m cf" for m
    by (induction rs arbitrary: m) (auto simp: split_beta)
  then show "opened (persist_receipts W b rs)" "cf \<noteq> Receipts \<Longrightarrow> contents (persist_receipts W b rs) cf = contents b cf"
    using b write_spec [OF b, of ?ops] by (auto simp: persist_receipts_def W)
qed

lemma execute_block_frame:
  assumes R: "rlp_encodes (rt_rlp W)" and b: "opened b" "world_ok (rt_rlp W) (contents b)" and W: "rt_kv W = K"
  shows "\<exists>b'. execute_block_txs W spec b blk = (Ok (), b') \<and> opened b' \<and> world_ok (rt_rlp W) (contents b') \<and>
    (\<forall>cf k. \<not> commit_area cf k \<longrightarrow> contents b' cf k = contents b cf k)"
proof -
  let ?who = "beneficiary (block_header blk)" and ?n = "number (block_header blk)"
  let ?start = "\<lparr>cr_store = b, cr_gas = 0, cr_receipts = []\<rparr>"
  obtain rt where rt: "roots_txs W spec ?who ?n (roots_of ?start) (transactions (body blk)) = (Ok (), rt)"
      "moves opened contents (rt_rlp W) b (rr_store rt)"
    using roots_txs_moves [OF R W, of "roots_of ?start" spec ?who ?n "transactions (body blk)"] b by (auto simp: roots_of_def)
  obtain st where st: "commit_txs W spec ?who ?n ?start (transactions (body blk)) = (Ok (), st)" "cr_store st = rr_store rt"
    using commit_txs_same [OF rt(1)] by (auto simp: roots_of_def)
  define b1 where "b1 = (if 0 < block_reward_at spec ?n \<and> may_receive_subsidy K (cr_store st) ?who
    then credit W (cr_store st) ?who (ucast (block_reward_at spec ?n)) else cr_store st)"
  have "moves opened contents (rt_rlp W) (rr_store rt) (snd (set_account K (rt_crypto W) (rt_rlp W) (rr_store rt) a acc))" for a acc
    using set_account_moves [OF moves_live [OF rt(2)], of "rt_crypto W" a acc] by auto
  then have "moves opened contents (rt_rlp W) (rr_store rt) (credit W (rr_store rt) ?who (ucast (block_reward_at spec ?n)))"
    using W by (simp add: credit_def Let_def)
  then have m: "moves opened contents (rt_rlp W) b b1" using rt(2) st(2) moves_trans [OF rt(2)] by (simp add: b1_def)
  define b2 where "b2 = persist_receipts W b1 (cr_receipts st)"
  have b2: "opened b2" "\<And>cf. cf \<noteq> Receipts \<Longrightarrow> contents b2 cf = contents b1 cf"
    using persist_receipts_frame [OF moves_live(1) [OF m] W] by (simp_all add: b2_def)
  obtain val where e: "execute_block_txs W spec b blk =
      (Ok (), snd (kv_put K b2 Meta (POSTROOT_PREFIX @ h256_bytes (Block_hash (rt_crypto W) (rt_rlp W) blk)) val))"
    using st(1) W by (simp add: execute_block_txs_def Let_def persist_post_roots_def b1_def b2_def)
  let ?key = "POSTROOT_PREFIX @ h256_bytes (Block_hash (rt_crypto W) (rt_rlp W) blk)"
  obtain b' where b': "kv_put K b2 Meta ?key val = (Ok (), b')" "opened b'" "contents b' = apply_op (contents b2) (OpPut Meta ?key val)"
    using put_spec [OF b2(1), of Meta ?key val] by (elim exE conjE)
  have "contents b' cf k = contents b cf k" if "\<not> commit_area cf k" for cf k
    using that b'(3) b2(2) m by (auto simp: commit_area_def moves_def)
  moreover have "world_ok (rt_rlp W) (contents b')" using b'(3) b2(2) m by (simp add: moves_def world_ok_def)
  ultimately show ?thesis using e b' by simp
qed

end

subsection \<open>Properties\<close>

definition demo_runtime :: "store runtime" where
  "demo_runtime = \<lparr>rt_kv = MemoryBackend, rt_crypto = demo_crypto, rt_rlp = rlp_format, rt_secp = demo_secp,
     rt_revm = (\<lambda>db env. Inr (Success 21000 [] (OutCall []), []))\<rparr>"

definition demo_spec :: chain_spec where
  "demo_spec = \<lparr>spec_chain_id = 1, network = ''demo'', block_time_seconds = 1, initial_gas_limit = 30000000,
     min_base_fee_per_gas = 1, block_reward_initial_wei = 5, block_reward_halving_interval = 100,
     unbonding_period_blocks = 10, min_validator_stake_wei = 1, epoch_length_blocks = 2, validators_per_epoch = 3\<rparr>"

definition demo_bond :: tx where
  "demo_bond = Legacy ((demo_legacy OP_BOND 37)\<lparr>gas_price := 2, to_addr := Some PRECOMPILE_ADDR, tx_value := 70\<rparr>)"

definition demo_signer :: address where
  "demo_signer = secp_address demo_crypto demo_secp (SecpPublicKey 9)"

lemma demo_bond_facts:
  "recover_signer demo_crypto demo_secp rlp_format demo_bond 1 = Ok demo_signer"
  "tx_parts demo_bond = Some (Some PRECOMPILE_ADDR, 70, OP_BOND, gas_limit (demo_legacy OP_BOND 37), 2)"
  by (simp_all add: demo_bond_def demo_signer_def recover_eip155 demo_recovery demo_legacy_def)

text \<open>
  (C13) Bonding costs nothing. A transaction to the staking address whose data starts with the selector of
  \<open>bond()\<close> raises the stake of its signer by the value it names, whatever the signer owns: no account but the
  beneficiary's changes, so neither the value nor the fee leaves the signer's account, and the beneficiary is
  credited the fee that nobody paid.
\<close>

theorem bonding_is_free:
  assumes K: "kv_store (rt_kv W) opened contents" and R: "rlp_encodes (rt_rlp W)" and b: "opened (cr_store st)"
    and tx: "recover_signer (rt_crypto W) (rt_secp W) (rt_rlp W) tx (spec_chain_id spec) = Ok sender"
      "tx_parts tx = Some (Some PRECOMPILE_ADDR, amount, OP_BOND @ args, limit, price)" "amount \<noteq> 0"
    and who: "rt_account W (cr_store st) who = Ok got" and fee: "saturating_mul 21000 price \<noteq> 0"
  shows "\<exists>st'. commit_tx W spec who height st tx = (Ok (), st') \<and>
    stakes (contents (cr_store st')) sender =
      Some (saturating_add (case stakes (contents (cr_store st)) sender of None \<Rightarrow> 0 | Some (x, _) \<Rightarrow> x) amount, 0) \<and>
    (\<forall>a. state_key (rt_crypto W) a \<noteq> state_key (rt_crypto W) who \<longrightarrow>
      rt_account W (cr_store st') a = rt_account W (cr_store st) a) \<and>
    rt_account W (cr_store st') who = Ok (Some ((empty_or got)\<lparr>balance :=
      saturating_add (balance (empty_or got)) (saturating_mul 21000 price)\<rparr>))"
proof -
  obtain b1 where b1: "run_stake_op (rt_kv W) (cr_store st) (Bond sender amount) =
        (fst (ledger_op (stakes (contents (cr_store st))) (Bond sender amount)), b1)" "opened b1"
      "stakes (contents b1) = snd (ledger_op (stakes (contents (cr_store st))) (Bond sender amount))"
      "\<forall>cf k. \<not> stake_area cf k \<longrightarrow> contents b1 cf k = contents (cr_store st) cf k"
    by (rule kv_store.run_stake_op_refines [OF K b, where op = "Bond sender amount"]) blast
  have bond: "bond (rt_kv W) (cr_store st) sender amount = (Ok (), b1)"
    using b1(1) by (cases "bond (rt_kv W) (cr_store st) sender amount"; cases "fst (bond (rt_kv W) (cr_store st) sender amount)")
      (simp_all add: no_payout_def)
  have "length OP_BOND = 4" by (simp add: OP_BOND_def)
  then have d: "run_precompile W spec height (cr_store st) sender amount (OP_BOND @ args) = (Ok (Bonded sender amount), b1)"
    using tx(3) bond by (simp add: run_precompile_def dispatch_def dispatch_bond_def)
  have acc: "rt_account W b1 a = rt_account W (cr_store st) a" for a
    using b1(4) by (simp add: db_account_def kv_store.get_spec [OF K] b b1(2) stake_area_def)
  define b2 where "b2 = credit_fee W b1 who (saturating_mul 21000 price)"
  have b2: "b2 = snd (rt_set_account W b1 who ((empty_or got)\<lparr>balance :=
      saturating_add (balance (empty_or got)) (saturating_mul 21000 price)\<rparr>))"
    using who fee by (cases got) (simp_all add: b2_def credit_fee_def credit_def acc empty_or_def)
  have "stakes (contents (snd (rt_set_account W b1 who acc))) = stakes (contents b1)" for acc
    using kv_store.set_account_effect [OF K b1(2), of "rt_crypto W" "rt_rlp W" who acc] by (auto simp: stakes_def fun_eq_iff)
  then have "stakes (contents b2) = stakes (contents b1)" by (simp add: b2)
  moreover have "rt_account W b2 a = (if state_key (rt_crypto W) a = state_key (rt_crypto W) who
      then Ok (Some ((empty_or got)\<lparr>balance := saturating_add (balance (empty_or got)) (saturating_mul 21000 price)\<rparr>))
      else rt_account W (cr_store st) a)" for a
    unfolding b2 by (simp add: kv_store.account_after_set [OF K R b1(2)] acc)
  ultimately show ?thesis using tx d b1(3) by (simp add: commit_tx_def Let_def b2_def [symmetric])
qed

theorem bonding_is_free_witness:
  "\<exists>st'. commit_tx demo_runtime demo_spec 5 1 \<lparr>cr_store = MemoryBackend_new, cr_gas = 0, cr_receipts = []\<rparr> demo_bond = (Ok (), st') \<and>
    stakes (mem_contents (cr_store st')) demo_signer = Some (70, 0) \<and>
    rt_account demo_runtime (cr_store st') 5 = Ok (Some (Account_EMPTY\<lparr>balance := 42000\<rparr>))"
proof -
  have none: "rt_account demo_runtime MemoryBackend_new 5 = Ok None" "stakes (mem_contents MemoryBackend_new) a = None" for a
    by (simp_all add: demo_runtime_def mem.account_spec [OF mem_new_opened] mem_new_contents stakes_def)
  have bond: "recover_signer (rt_crypto demo_runtime) (rt_secp demo_runtime) (rt_rlp demo_runtime) demo_bond
      (spec_chain_id demo_spec) = Ok demo_signer"
      "tx_parts demo_bond = Some (Some PRECOMPILE_ADDR, 70, OP_BOND @ [], 21000, 2)"
    using demo_bond_facts by (simp_all add: demo_runtime_def demo_spec_def demo_legacy_def)
  have K: "kv_store (rt_kv demo_runtime) mem_opened mem_contents" and R: "rlp_encodes (rt_rlp demo_runtime)"
    using mem.kv_store_axioms rlp_format_encodes by (simp_all add: demo_runtime_def)
  have o: "mem_opened (cr_store \<lparr>cr_store = MemoryBackend_new, cr_gas = 0, cr_receipts = []\<rparr>)" using mem_new_opened by simp
  have w: "rt_account demo_runtime (cr_store \<lparr>cr_store = MemoryBackend_new, cr_gas = 0, cr_receipts = []\<rparr>) 5 = Ok None"
    using none(1) by simp
  have fee: "saturating_mul 21000 2 = (42000 :: u256)" by (simp add: saturating_mul_def)
  obtain st' where "commit_tx demo_runtime demo_spec 5 1 \<lparr>cr_store = MemoryBackend_new, cr_gas = 0, cr_receipts = []\<rparr> demo_bond
        = (Ok (), st')"
      "stakes (mem_contents (cr_store st')) demo_signer = Some (saturating_add 0 70, 0)"
      "rt_account demo_runtime (cr_store st') 5 = Ok (Some ((empty_or None)\<lparr>balance :=
        saturating_add (balance (empty_or None)) (saturating_mul 21000 2)\<rparr>))"
    using bonding_is_free [OF K R o bond _ w, of 1] none(2) fee by auto
  then show ?thesis by (simp add: fee empty_or_def Account_EMPTY_def saturating_add_def)
qed

end
