(* ===== verification/NodeState.thy ===== *)
theory NodeState
  imports Execution Slashing "HOL-Library.AList"
begin

section \<open>The state of a node\<close>

text \<open>
  \<open>NodeState\<close> of \<open>aii-node/src/lib.rs\<close>: the block cache with its indices, the commit of a block (index, persist,
  execute, record sub-chain anchors, elect), the recovery of the cache from disk, forks, slashings and receipts,
  and the registry of \<open>aii-microchain\<close>. Writes whose failure the code only logs return the store alone. The
  transaction pool and the fields of the release updater are left out of the record.
\<close>

subsection \<open>aii-microchain\<close>

definition FLUSH_TX_MAGIC :: "byte list" where
  "FLUSH_TX_MAGIC = ascii ''AII_FLUSH''"

record flush_payload =
  fp_chain :: u32
  fp_hash :: h256
  fp_number :: u64

record flush_anchor =
  sub_block_hash :: h256
  parent_block_hash :: h256
  sub_block_number :: u64

definition parse_flush_anchor :: "byte list \<Rightarrow> flush_payload option" where
  "parse_flush_anchor data =
     (if length data \<noteq> 9 + 4 + 32 + 8 \<or> \<not> starts_with FLUSH_TX_MAGIC data then None
      else let rest = drop (length FLUSH_TX_MAGIC) data
           in Some \<lparr>fp_chain = from_be_bytes (slice 0 4 rest), fp_hash = from_be_bytes (slice 4 36 rest),
             fp_number = from_be_bytes (slice 36 44 rest)\<rparr>)"

record micro_spec =
  ms_id :: u32
  ms_name :: string
  flush_interval_blocks :: u64
  ms_consensus :: consensus_kind

datatype micro_error = ReservedId | DuplicateChain | InvalidFlushInterval | UnknownChain

record micro_registry =
  specs :: "u32 \<rightharpoonup> micro_spec"
  anchors :: "u32 \<rightharpoonup> flush_anchor"

definition Registry_new :: micro_registry where
  "Registry_new = \<lparr>specs = Map.empty, anchors = Map.empty\<rparr>"

definition Registry_register :: "micro_registry \<Rightarrow> micro_spec \<Rightarrow> (micro_error, unit) result \<times> micro_registry" where
  "Registry_register r s =
     (if ms_id s = 0 then (Err ReservedId, r)
      else if specs r (ms_id s) \<noteq> None then (Err DuplicateChain, r)
      else if flush_interval_blocks s = 0 then (Err InvalidFlushInterval, r)
      else (Ok (), r\<lparr>specs := (specs r)(ms_id s \<mapsto> s)\<rparr>))"

definition record_flush :: "micro_registry \<Rightarrow> u32 \<Rightarrow> flush_anchor \<Rightarrow> (micro_error, unit) result \<times> micro_registry" where
  "record_flush r i a =
     (if specs r i = None then (Err UnknownChain, r) else (Ok (), r\<lparr>anchors := (anchors r)(i \<mapsto> a)\<rparr>))"

subsection \<open>The block cache\<close>

definition MAX_BLOCKS_IN_MEMORY :: nat where
  "MAX_BLOCKS_IN_MEMORY = 2048"

record block_store =
  by_hash :: "h256 \<rightharpoonup> header"
  by_number :: "u64 \<rightharpoonup> h256"
  order :: "h256 list"
  body_by_hash :: "h256 \<rightharpoonup> block_body"
  tx_index :: "h256 \<rightharpoonup> u64 \<times> nat"

definition BlockStore_default :: block_store where
  "BlockStore_default =
     \<lparr>by_hash = Map.empty, by_number = Map.empty, order = [], body_by_hash = Map.empty, tx_index = Map.empty\<rparr>"

primrec index_txs :: "'b runtime \<Rightarrow> u64 \<Rightarrow> nat \<Rightarrow> (h256 \<rightharpoonup> u64 \<times> nat) \<Rightarrow> tx list \<Rightarrow> (h256 \<rightharpoonup> u64 \<times> nat)" where
  "index_txs W n i m [] = m"
| "index_txs W n i m (tx # txs) =
     index_txs W n (Suc i) (m(Tx_hash (rt_crypto W) (rt_rlp W) tx \<mapsto> (n, i))) txs"

definition index_block :: "'b runtime \<Rightarrow> block_store \<Rightarrow> h256 \<Rightarrow> block \<Rightarrow> block_store" where
  "index_block W s hash blk =
     (let n = number (block_header blk) in
      \<lparr>by_hash = (by_hash s)(hash \<mapsto> block_header blk), by_number = (by_number s)(n \<mapsto> hash), order = order s @ [hash],
       body_by_hash = (body_by_hash s)(hash \<mapsto> body blk),
       tx_index = index_txs W n 0 (tx_index s) (transactions (body blk))\<rparr>)"

definition evict_block :: "'b runtime \<Rightarrow> block_store \<Rightarrow> h256 \<Rightarrow> h256 list \<Rightarrow> block_store" where
  "evict_block W s oldest rest =
     (let s1 = s\<lparr>order := rest\<rparr>;
          s2 = (case by_hash s1 oldest of
                  None \<Rightarrow> s1
                | Some hdr \<Rightarrow> s1\<lparr>by_hash := (by_hash s1)(oldest := None),
                    by_number := (by_number s1)(number hdr := None)\<rparr>)
      in case body_by_hash s2 oldest of
           None \<Rightarrow> s2
         | Some bdy \<Rightarrow> s2\<lparr>body_by_hash := (body_by_hash s2)(oldest := None),
             tx_index := foldl (\<lambda>m tx. m(Tx_hash (rt_crypto W) (rt_rlp W) tx := None)) (tx_index s2) (transactions bdy)\<rparr>)"

lemma order_evict_block [simp]: "order (evict_block W s oldest rest) = rest"
  by (simp add: evict_block_def Let_def split: option.split)

function evict :: "'b runtime \<Rightarrow> block_store \<Rightarrow> block_store" where
  "evict W s =
     (case order s of
        [] \<Rightarrow> s
      | oldest # rest \<Rightarrow>
          if MAX_BLOCKS_IN_MEMORY < length (order s) then evict W (evict_block W s oldest rest) else s)"
  by pat_completeness auto
termination
  by (relation "measure (\<lambda>(_, s). length (order s))") simp_all

declare evict.simps [simp del]

subsection \<open>Records of the node\<close>

definition META_KEY_HEAD :: "byte list" where
  "META_KEY_HEAD = ascii ''head_block_number''"

definition META_KEY_HEAD_HASH :: "byte list" where
  "META_KEY_HEAD_HASH = ascii ''head_block_hash''"

definition SLASH_PREFIX :: "byte list" where
  "SLASH_PREFIX = ascii ''slash:''"

definition FORK_PREFIX :: "byte list" where
  "FORK_PREFIX = ascii ''fork:''"

record fork_record =
  fork_height :: u64
  canonical_hash :: h256
  fork_hash :: h256

record slash_record =
  slash_validator :: u32
  slash_height :: u64
  slash_phase :: string
  slash_hashes :: "h256 \<times> h256"

definition number_key :: "u64 \<Rightarrow> byte list" where
  "number_key n = ascii ''n:'' @ to_be_bytes 8 n"

definition record_fork :: "'b kv_backend \<Rightarrow> 'b \<Rightarrow> u64 \<Rightarrow> h256 \<Rightarrow> h256 \<Rightarrow> 'b" where
  "record_fork K b hgt canonical fork =
     snd (kv_put K b Meta (FORK_PREFIX @ to_be_bytes 8 hgt @ h256_bytes fork) (h256_bytes canonical))"

primrec fork_records :: "kv_item list \<Rightarrow> (node_error, fork_record list) result" where
  "fork_records [] = Ok []"
| "fork_records (item # items) =
     and_then (map_err NodeStorage item) (\<lambda>(k, v).
     and_then (fork_records items) (\<lambda>rs.
       let suffix = drop (length FORK_PREFIX) k in
       Ok (if length suffix \<noteq> 8 + 32 \<or> length v \<noteq> 32 then rs
           else \<lparr>fork_height = from_be_bytes (slice 0 8 suffix), canonical_hash = from_be_bytes v,
                 fork_hash = from_be_bytes (slice 8 40 suffix)\<rparr> # rs)))"

definition list_forks :: "'b kv_backend \<Rightarrow> 'b \<Rightarrow> (node_error, fork_record list) result" where
  "list_forks K b = fork_records (kv_iter_prefix K b Meta FORK_PREFIX)"

definition debit_slash_stake :: "'b kv_backend \<Rightarrow> 'b \<Rightarrow> address \<Rightarrow> u256 \<Rightarrow> 'b" where
  "debit_slash_stake K b offender amount =
     (case stake_get K b offender of Ok (Some _) \<Rightarrow> snd (slash K b offender amount) | _ \<Rightarrow> b)"

definition latest_validator_address_by_index :: "'b kv_backend \<Rightarrow> 'b \<Rightarrow> u32 \<Rightarrow> (u64 \<times> address) option" where
  "latest_validator_address_by_index K b i =
     (case latest_validator_set K b of
        Ok (Some (epoch, entries)) \<Rightarrow>
          if unat i < length entries then Some (epoch, entry_address (entries ! unat i)) else None
      | _ \<Rightarrow> None)"

definition record_slashing :: "'b kv_backend \<Rightarrow> 'b \<Rightarrow> equivocation_evidence \<Rightarrow> 'b" where
  "record_slashing K b ev =
     (let (phase_byte, phase_str, h0, h1) =
        (case ev of
           Prevote v w \<Rightarrow> (0 :: byte, ascii ''prevote'', block_hash v, block_hash w)
         | Precommit v w \<Rightarrow> (1, ascii ''precommit'', block_hash v, block_hash w))
      in snd (kv_put K b Meta
           (SLASH_PREFIX @ to_be_bytes 4 (evidence_validator_index ev) @ to_be_bytes 8 (evidence_height ev) @ [phase_byte])
           (word_of_nat (length phase_str) # phase_str @ h256_bytes h0 @ h256_bytes h1)))"

primrec slash_records :: "kv_item list \<Rightarrow> (node_error, slash_record list) result" where
  "slash_records [] = Ok []"
| "slash_records (item # items) =
     and_then (map_err NodeStorage item) (\<lambda>(k, v).
     and_then (slash_records items) (\<lambda>rs.
       let suffix = drop (length SLASH_PREFIX) k in
       Ok (if length suffix \<noteq> 4 + 8 + 1 \<or> length v < 1 + 64 \<or> length v < 1 + unat (v ! 0) + 64 then rs
           else let hashes = drop (1 + unat (v ! 0)) v in
             \<lparr>slash_validator = from_be_bytes (slice 0 4 suffix), slash_height = from_be_bytes (slice 4 12 suffix),
              slash_phase = (if suffix ! 12 = 0 then ''prevote'' else ''precommit''),
              slash_hashes = (from_be_bytes (slice 0 32 hashes), from_be_bytes (slice 32 64 hashes))\<rparr> # rs)))"

definition list_slashings :: "'b kv_backend \<Rightarrow> 'b \<Rightarrow> (node_error, slash_record list) result" where
  "list_slashings K b = slash_records (kv_iter_prefix K b Meta SLASH_PREFIX)"

definition receipt_by_tx_hash :: "'b runtime \<Rightarrow> 'b \<Rightarrow> h256 \<Rightarrow> (node_error, receipt option) result" where
  "receipt_by_tx_hash W b h =
     and_then (map_err NodeStorage (kv_get (rt_kv W) b Receipts (h256_bytes h))) (\<lambda>got.
       case got of
         None \<Rightarrow> Ok None
       | Some bytes \<Rightarrow>
           and_then (map_err (\<lambda>_. NodeMsg ''rlp'') (Receipt_decode_2718 (rt_rlp W) bytes)) (\<lambda>(r, _). Ok (Some r)))"

subsection \<open>Sub-chain anchors and elections\<close>

definition tx_calldata :: "tx \<Rightarrow> byte list" where
  "tx_calldata tx = (case tx of Legacy t \<Rightarrow> tx_data t | Eip1559 t \<Rightarrow> data_1559 t | Eip4844 t \<Rightarrow> data_4844 t)"

definition tx_dest :: "tx \<Rightarrow> address option" where
  "tx_dest tx = (case tx of Legacy t \<Rightarrow> to_addr t | Eip1559 t \<Rightarrow> to_1559 t | Eip4844 t \<Rightarrow> Some (to_4844 t))"

definition anchor_key :: "u32 \<Rightarrow> byte list" where
  "anchor_key i = ascii ''anchor:'' @ to_be_bytes 4 i"

definition persist_flush_anchor :: "'b kv_backend \<Rightarrow> 'b \<Rightarrow> u32 \<Rightarrow> flush_anchor \<Rightarrow> 'b" where
  "persist_flush_anchor K b i a =
     snd (kv_put K b MicroChain (anchor_key i)
       (h256_bytes (sub_block_hash a) @ h256_bytes (parent_block_hash a) @ to_be_bytes 8 (sub_block_number a)))"

definition last_flush_anchor :: "'b kv_backend \<Rightarrow> 'b \<Rightarrow> u32 \<Rightarrow> (node_error, flush_anchor option) result" where
  "last_flush_anchor K b i =
     and_then (map_err NodeStorage (kv_get K b MicroChain (anchor_key i))) (\<lambda>got.
       Ok (case got of
             None \<Rightarrow> None
           | Some v \<Rightarrow>
               if length v \<noteq> 72 then None
               else Some \<lparr>sub_block_hash = from_be_bytes (slice 0 32 v), parent_block_hash = from_be_bytes (slice 32 64 v),
                 sub_block_number = from_be_bytes (slice 64 72 v)\<rparr>))"

text \<open>A panic of the signature library would have ended the execution of the same body before this scan.\<close>

definition scan_anchor :: "'b runtime \<Rightarrow> u64 \<Rightarrow> h256 \<Rightarrow> 'b \<Rightarrow> tx \<Rightarrow> 'b" where
  "scan_anchor W cid parent b tx =
     (case parse_flush_anchor (tx_calldata tx) of
        None \<Rightarrow> b
      | Some p \<Rightarrow>
          (case recover_signer (rt_crypto W) (rt_secp W) (rt_rlp W) tx cid of
             Ok sender \<Rightarrow>
               if Some sender \<noteq> tx_dest tx then b
               else persist_flush_anchor (rt_kv W) b (fp_chain p)
                 \<lparr>sub_block_hash = fp_hash p, parent_block_hash = parent, sub_block_number = fp_number p\<rparr>
           | _ \<Rightarrow> b))"

definition scan_microchain_anchors :: "'b runtime \<Rightarrow> chain_spec \<Rightarrow> 'b \<Rightarrow> block \<Rightarrow> h256 \<Rightarrow> 'b" where
  "scan_microchain_anchors W spec b blk parent =
     foldl (scan_anchor W (spec_chain_id spec) parent) b (transactions (body blk))"

definition maybe_elect_validator_set :: "'b kv_backend \<Rightarrow> chain_spec \<Rightarrow> 'b \<Rightarrow> u64 \<Rightarrow> 'b" where
  "maybe_elect_validator_set K spec b n =
     (let epoch_len = epoch_length_blocks spec in
      if n = 0 \<or> epoch_len = 0 \<or> n mod epoch_len \<noteq> 0 then b
      else let epoch = n div epoch_len;
               min_stake = ucast (min_validator_stake_wei spec);
               registered = (case elect_registered_active_set K b min_stake (validators_per_epoch spec) of
                   Ok vs \<Rightarrow> vs | _ \<Rightarrow> [])
           in case (if registered = [] then elect_active_set K b min_stake (validators_per_epoch spec) else Ok registered) of
                Ok elected \<Rightarrow> snd (persist_validator_set K b epoch elected)
              | _ \<Rightarrow> b)"

subsection \<open>NodeState\<close>

record 'b node_state =
  ns_spec :: chain_spec
  ns_head :: u64
  ns_store :: 'b
  ns_blocks :: block_store

definition NodeState_new :: "chain_spec \<Rightarrow> 'b \<Rightarrow> 'b node_state" where
  "NodeState_new spec b = \<lparr>ns_spec = spec, ns_head = 0, ns_store = b, ns_blocks = BlockStore_default\<rparr>"

definition set_head :: "'b kv_backend \<Rightarrow> 'b node_state \<Rightarrow> u64 \<Rightarrow> 'b node_state" where
  "set_head K ns n =
     (let b1 = snd (kv_put K (ns_store ns) Meta META_KEY_HEAD (to_be_bytes 8 n));
          b2 = (case by_number (ns_blocks ns) n of
                  None \<Rightarrow> b1
                | Some hash \<Rightarrow> snd (kv_put K b1 Meta META_KEY_HEAD_HASH (h256_bytes hash)))
      in ns\<lparr>ns_head := n, ns_store := b2\<rparr>)"

primrec lookup_ops :: "'b runtime \<Rightarrow> h256 \<Rightarrow> nat \<Rightarrow> tx list \<Rightarrow> batch_op list" where
  "lookup_ops W hash i [] = []"
| "lookup_ops W hash i (tx # txs) =
     OpPut TxLookup (h256_bytes (Tx_hash (rt_crypto W) (rt_rlp W) tx)) (h256_bytes hash @ to_be_bytes 8 (word_of_nat i :: u64))
       # lookup_ops W hash (Suc i) txs"

definition persist_block :: "'b runtime \<Rightarrow> 'b \<Rightarrow> block \<Rightarrow> h256 \<Rightarrow> 'b" where
  "persist_block W b blk hash =
     snd (kv_write (rt_kv W) b
       ([OpPut Headers (h256_bytes hash) (Header_encode (rt_rlp W) (block_header blk)),
         OpPut Bodies (h256_bytes hash) (BlockBody_encode (rt_rlp W) (body blk)),
         OpPut Meta (number_key (number (block_header blk))) (h256_bytes hash)]
        @ lookup_ops W hash 0 (transactions (body blk))))"

definition node_commit_block :: "'b runtime \<Rightarrow> 'b node_state \<Rightarrow> block \<Rightarrow> (unit, unit) result \<times> 'b node_state" where
  "node_commit_block W ns blk =
     (let hash = Block_hash (rt_crypto W) (rt_rlp W) blk;
          n = number (block_header blk);
          s = ns_blocks ns;
          fork_detected = (case by_number s n of
              None \<Rightarrow> None | Some existing \<Rightarrow> if existing \<noteq> hash then Some existing else None)
      in if by_hash s hash \<noteq> None then (Ok (), ns)
         else case fork_detected of
           Some canonical \<Rightarrow> (Ok (), ns\<lparr>ns_store := record_fork (rt_kv W) (ns_store ns) n canonical hash\<rparr>)
         | None \<Rightarrow>
             let s' = evict W (index_block W s hash blk);
                 b1 = persist_block W (ns_store ns) blk hash
             in (case execute_block_txs W (ns_spec ns) b1 blk of
                   (Ok _, b2) \<Rightarrow>
                     let b3 = scan_microchain_anchors W (ns_spec ns) b2 blk hash;
                         b4 = maybe_elect_validator_set (rt_kv W) (ns_spec ns) b3 n
                     in (Ok (), ns\<lparr>ns_blocks := s', ns_store := b4\<rparr>)
                 | (r, b2) \<Rightarrow> (r, ns\<lparr>ns_blocks := s', ns_store := b2\<rparr>)))"

definition node_block_by_number :: "'b node_state \<Rightarrow> u64 \<Rightarrow> block option" where
  "node_block_by_number ns n =
     (case by_number (ns_blocks ns) n of
        None \<Rightarrow> None
      | Some hash \<Rightarrow>
          (case by_hash (ns_blocks ns) hash of
             None \<Rightarrow> None
           | Some hdr \<Rightarrow>
               Some \<lparr>block_header = hdr, body = (case body_by_hash (ns_blocks ns) hash of
                   None \<Rightarrow> BlockBody_default | Some bdy \<Rightarrow> bdy)\<rparr>))"

definition head_block :: "'b node_state \<Rightarrow> block option" where
  "head_block ns = node_block_by_number ns (ns_head ns)"

subsection \<open>Recovery\<close>

primrec scan_numbers :: "rlp \<Rightarrow> (u64 \<times> h256) list \<Rightarrow> kv_item list \<Rightarrow> (node_error, (u64 \<times> h256) list) result" where
  "scan_numbers R acc [] = Ok acc"
| "scan_numbers R acc (item # items) =
     and_then (map_err NodeStorage item) (\<lambda>(k, v).
       if length k \<noteq> 32 then scan_numbers R acc items
       else and_then (map_err (\<lambda>_. NodeMsg ''rlp'') (Header_decode R v)) (\<lambda>(h, _).
         scan_numbers R (AList.update (number h) (from_be_bytes k) acc) items))"

primrec scan_headers :: "rlp \<Rightarrow> h256 list \<Rightarrow> (h256 \<rightharpoonup> header) \<Rightarrow> kv_item list \<Rightarrow> (node_error, h256 \<rightharpoonup> header) result" where
  "scan_headers R keep acc [] = Ok acc"
| "scan_headers R keep acc (item # items) =
     and_then (map_err NodeStorage item) (\<lambda>(k, v).
       if length k \<noteq> 32 \<or> from_be_bytes k \<notin> set keep then scan_headers R keep acc items
       else and_then (map_err (\<lambda>_. NodeMsg ''rlp'') (Header_decode R v)) (\<lambda>(h, _).
         scan_headers R keep (acc(from_be_bytes k \<mapsto> h)) items))"

primrec scan_bodies ::
    "'b runtime \<Rightarrow> h256 list \<Rightarrow> (h256 \<rightharpoonup> header) \<Rightarrow> (h256 \<rightharpoonup> block_body) \<times> (h256 \<rightharpoonup> u64 \<times> nat) \<Rightarrow> kv_item list
      \<Rightarrow> (node_error, (h256 \<rightharpoonup> block_body) \<times> (h256 \<rightharpoonup> u64 \<times> nat)) result" where
  "scan_bodies W keep hdrs acc [] = Ok acc"
| "scan_bodies W keep hdrs acc (item # items) =
     and_then (map_err NodeStorage item) (\<lambda>(k, v).
       if length k \<noteq> 32 \<or> from_be_bytes k \<notin> set keep then scan_bodies W keep hdrs acc items
       else and_then (map_err (\<lambda>_. NodeMsg ''rlp'') (BlockBody_decode (rt_rlp W) v)) (\<lambda>(bdy, _).
         scan_bodies W keep hdrs
           ((fst acc)(from_be_bytes k \<mapsto> bdy),
            case hdrs (from_be_bytes k) of
              None \<Rightarrow> snd acc
            | Some h \<Rightarrow> index_txs W (number h) 0 (snd acc) (transactions bdy)) items))"

definition head_of_bytes :: "byte list option \<Rightarrow> u64" where
  "head_of_bytes got = (case got of Some bs \<Rightarrow> if length bs = 8 then from_be_bytes bs else 0 | None \<Rightarrow> 0)"

definition recover :: "'b runtime \<Rightarrow> chain_spec \<Rightarrow> 'b \<Rightarrow> (node_error, 'b node_state) result" where
  "recover W spec b =
     and_then (scan_numbers (rt_rlp W) [] (kv_iter (rt_kv W) b Headers)) (\<lambda>nums.
       let sorted_nums = sort (map fst nums);
           keep_nums = drop (length sorted_nums - MAX_BLOCKS_IN_MEMORY) sorted_nums;
           kept = filter (\<lambda>p. fst p \<in> set keep_nums) nums;
           keep_hashes = map snd kept
       in and_then (scan_headers (rt_rlp W) keep_hashes Map.empty (kv_iter (rt_kv W) b Headers)) (\<lambda>hdrs.
          and_then (scan_bodies W keep_hashes hdrs (Map.empty, Map.empty) (kv_iter (rt_kv W) b Bodies)) (\<lambda>(bodies, txs).
          and_then (map_err NodeStorage (kv_get (rt_kv W) b Meta META_KEY_HEAD)) (\<lambda>hd.
            Ok \<lparr>ns_spec = spec, ns_head = head_of_bytes hd, ns_store = b,
               ns_blocks = \<lparr>by_hash = hdrs, by_number = map_of kept, order = map snd (sort_key fst kept),
                 body_by_hash = bodies, tx_index = txs\<rparr>\<rparr>))))"

subsection \<open>What the parts of a commit write\<close>

text \<open>The store after a step is usable and keeps every key outside the given area.\<close>

definition keeps ::
    "('b \<Rightarrow> bool) \<Rightarrow> ('b \<Rightarrow> contents) \<Rightarrow> (column_family \<Rightarrow> byte list \<Rightarrow> bool) \<Rightarrow> 'b \<Rightarrow> 'b \<Rightarrow> bool" where
  "keeps opened contents area b b' \<longleftrightarrow> opened b' \<and> (\<forall>cf k. \<not> area cf k \<longrightarrow> contents b' cf k = contents b cf k)"

lemma keeps_refl: "opened b \<Longrightarrow> keeps opened contents area b b"
  by (simp add: keeps_def)

lemma keeps_trans:
  "keeps opened contents area b b' \<Longrightarrow> keeps opened contents area b' b'' \<Longrightarrow> keeps opened contents area b b''"
  by (simp add: keeps_def)

lemma keeps_mono:
  "keeps opened contents area b b' \<Longrightarrow> (\<And>cf k. area cf k \<Longrightarrow> area' cf k) \<Longrightarrow> keeps opened contents area' b b'"
  by (auto simp: keeps_def)

definition set_area :: "column_family \<Rightarrow> byte list \<Rightarrow> bool" where
  "set_area cf k \<longleftrightarrow> cf = Meta \<and> starts_with SET_PREFIX k"

definition node_area :: "column_family \<Rightarrow> byte list \<Rightarrow> bool" where
  "node_area cf k \<longleftrightarrow> commit_area cf k \<or> cf = MicroChain"

lemma number_key_outside [simp]: "\<not> exec_area Meta (number_key n)"
  by (simp add: exec_area_def write_area_def table_area_def number_key_def STAKE_PREFIX_def REGISTRY_PREFIX_def PROP_PREFIX_def
    VOTE_PREFIX_def SET_PREFIX_def ascii_def)

lemma set_key_outside [simp]: "\<not> node_area Meta (set_key e)" "set_key e \<noteq> number_key n"
  by (simp_all add: node_area_def commit_area_def write_area_def table_area_def set_key_def number_key_def STAKE_PREFIX_def
    REGISTRY_PREFIX_def PROP_PREFIX_def VOTE_PREFIX_def SET_PREFIX_def POSTROOT_PREFIX_def ascii_def)

lemma lookup_ops_outside: "list_all outside (lookup_ops W hash i txs)"
  by (induction txs arbitrary: i) simp_all

context kv_store
begin

lemma put_keeps: "opened b \<Longrightarrow> area cf k \<Longrightarrow> keeps opened contents area b (snd (kv_put K b cf k v))"
  using put_spec [of b cf k v] by (auto simp: keeps_def)

lemma scan_keeps:
  assumes "opened b" and W: "rt_kv W = K"
  shows "keeps opened contents (\<lambda>cf k. cf = MicroChain) b (scan_microchain_anchors W spec b blk hash)"
proof -
  have step: "opened c \<Longrightarrow> keeps opened contents (\<lambda>cf k. cf = MicroChain) c (scan_anchor W cid parent c tx)" for c cid parent tx
    using put_keeps [of c "\<lambda>cf k. cf = MicroChain" MicroChain] keeps_refl [of opened c contents]
    by (simp add: scan_anchor_def persist_flush_anchor_def W split: option.split result.split)
  have "keeps opened contents (\<lambda>cf k. cf = MicroChain) b (foldl (scan_anchor W cid parent) b txs)" for cid parent txs
    using assms(1)
  proof (induction txs arbitrary: b)
    case (Cons tx txs)
    have "opened (scan_anchor W cid parent b tx)" using step [OF Cons.prems] by (simp add: keeps_def)
    then show ?case using step [OF Cons.prems] Cons.IH keeps_trans by fastforce
  qed (simp add: keeps_def)
  then show ?thesis by (simp add: scan_microchain_anchors_def)
qed

lemma elect_keeps:
  assumes "opened b"
  shows "keeps opened contents set_area b (maybe_elect_validator_set K spec b n)"
proof -
  have "keeps opened contents set_area b (snd (persist_validator_set K b e vs))" for e vs
    using put_keeps [OF assms, of set_area Meta "set_key e"]
    by (simp add: persist_validator_set_def set_area_def set_key_def split_beta)
  then show ?thesis
    using keeps_refl [of opened b contents] assms
    by (simp add: maybe_elect_validator_set_def Let_def split: result.split)
qed

lemma persist_block_in_step:
  assumes s: "in_step opened contents b c" and W: "rt_kv W = K"
  shows "in_step opened contents (persist_block W b blk hash) c"
  using in_step_write [OF s] by (simp add: persist_block_def W lookup_ops_outside)

text \<open>The tail of a commit keeps the accounts and the record of the roots.\<close>

lemma tail_keeps:
  assumes b: "opened b" and W: "rt_kv W = K"
    and b'_def: "b' = maybe_elect_validator_set K spec (scan_microchain_anchors W spec b blk hash) n"
  shows "opened b'" "db_state_root K C R b' = db_state_root K C R b" "stored_post_roots K b' h = stored_post_roots K b h"
proof -
  have k: "keeps opened contents (\<lambda>cf k. cf = MicroChain \<or> set_area cf k) b b'"
    using scan_keeps [OF b W, of spec blk hash] elect_keeps [of "scan_microchain_anchors W spec b blk hash" spec n]
    by (auto simp: keeps_def b'_def)
  then show b': "opened b'" by (simp add: keeps_def)
  have "contents b' State = contents b State" using k by (auto simp: keeps_def set_area_def)
  then show "db_state_root K C R b' = db_state_root K C R b" using iter_contents [OF b' b] by (simp add: db_state_root_def)
  have "\<not> set_area Meta (POSTROOT_PREFIX @ h256_bytes h)"
    by (simp add: set_area_def POSTROOT_PREFIX_def SET_PREFIX_def ascii_def)
  then show "stored_post_roots K b' h = stored_post_roots K b h"
    using k b b' by (simp add: stored_post_roots_def get_spec keeps_def)
qed

lemma commit_fresh:
  assumes ns: "opened (ns_store ns)" and W: "rt_kv W = K"
    and fresh: "by_hash (ns_blocks ns) (Block_hash (rt_crypto W) (rt_rlp W) blk) = None"
      "by_number (ns_blocks ns) (number (block_header blk)) = None"
    and temp: "opened temp" "contents temp = (\<lambda>_ _. None)"
    and run: "execute_for_proposal W (ns_spec ns) (ns_store ns) temp (body blk) (beneficiary (block_header blk))
      (number (block_header blk)) = Ok roots"
  shows "\<exists>ns'. node_commit_block W ns blk = (Ok (), ns') \<and>
    db_state_root K (rt_crypto W) (rt_rlp W) (ns_store ns') = Ok (pr_state_root roots) \<and>
    stored_post_roots K (ns_store ns') (Block_hash (rt_crypto W) (rt_rlp W) blk) =
      Ok (Some \<lparr>sr_state_root = pr_state_root roots, sr_receipts_root = pr_receipts_root roots,
        sr_logs_bloom = pr_logs_bloom roots\<rparr>)"
proof -
  let ?h = "Block_hash (rt_crypto W) (rt_rlp W) blk"
  obtain copy where copy: "copy_execution_backend K (ns_store ns) temp = (Ok (), copy)"
      "in_step opened contents (ns_store ns) copy" using copy_in_step [OF ns temp] .
  have run': "fst (execute_body_for_roots W (ns_spec ns) copy (body blk) (beneficiary (block_header blk))
      (number (block_header blk))) = Ok roots"
    using run copy(1) W by (simp add: execute_for_proposal_def)
  obtain b2 c' where 2: "execute_block_txs W (ns_spec ns) (persist_block W (ns_store ns) blk ?h) blk = (Ok (), b2)"
      "in_step opened contents b2 c'" "db_state_root K (rt_crypto W) (rt_rlp W) c' = Ok (pr_state_root roots)"
      "stored_post_roots K b2 ?h = Ok (Some \<lparr>sr_state_root = pr_state_root roots,
         sr_receipts_root = pr_receipts_root roots, sr_logs_bloom = pr_logs_bloom roots\<rparr>)"
    using commit_predicted [OF persist_block_in_step [OF copy(2) W, of blk ?h] W run'] .
  have b2: "opened b2" using 2(2) by (simp add: in_step_def)
  show ?thesis
    using 2 fresh W tail_keeps [OF b2 W refl] in_step_state(4) [OF 2(2)] by (simp add: node_commit_block_def Let_def)
qed

lemma proposal_succeeds:
  assumes R: "rlp_encodes (rt_rlp W)" and b: "opened b" "world_ok (rt_rlp W) (contents b)"
    and temp: "opened temp" "contents temp = (\<lambda>_ _. None)" and W: "rt_kv W = K"
  shows "\<exists>roots. execute_for_proposal W spec b temp bdy who n = Ok roots"
proof -
  obtain copy where copy: "copy_execution_backend K b temp = (Ok (), copy)" "in_step opened contents b copy"
    using copy_in_step [OF b(1) temp] .
  then have "opened copy" "world_ok (rt_rlp W) (contents copy)" using b(2) by (simp_all add: in_step_def world_ok_def)
  from execution_succeeds [OF R this W] show ?thesis using copy(1) W by (simp add: execute_for_proposal_def)
qed

lemma persist_block_spec:
  assumes b: "opened b" and W: "rt_kv W = K"
    and b'_def: "b' = persist_block W b blk hash"
  shows "opened b'" "contents b' Headers = (contents b Headers)(h256_bytes hash \<mapsto> Header_encode (rt_rlp W) (block_header blk))"
    "contents b' Bodies = (contents b Bodies)(h256_bytes hash \<mapsto> BlockBody_encode (rt_rlp W) (body blk))"
    "cf \<notin> {Headers, Bodies, TxLookup} \<Longrightarrow> cf \<noteq> Meta \<or> k \<noteq> number_key (number (block_header blk)) \<Longrightarrow>
      contents b' cf k = contents b cf k"
proof -
  have ops: "cf \<noteq> TxLookup \<Longrightarrow> foldl apply_op m (lookup_ops W hash i txs) cf = m cf" for m i txs cf
    by (induction txs arbitrary: m i) simp_all
  let ?ops = "[OpPut Headers (h256_bytes hash) (Header_encode (rt_rlp W) (block_header blk)),
    OpPut Bodies (h256_bytes hash) (BlockBody_encode (rt_rlp W) (body blk)),
    OpPut Meta (number_key (number (block_header blk))) (h256_bytes hash)] @ lookup_ops W hash 0 (transactions (body blk))"
  have b': "opened b'" "contents b' = foldl apply_op (contents b) ?ops"
    using write_spec [OF b, of ?ops] by (auto simp: b'_def persist_block_def W)
  show "opened b'" by (rule b')
  show "contents b' Headers = (contents b Headers)(h256_bytes hash \<mapsto> Header_encode (rt_rlp W) (block_header blk))"
    "contents b' Bodies = (contents b Bodies)(h256_bytes hash \<mapsto> BlockBody_encode (rt_rlp W) (body blk))"
    "cf \<notin> {Headers, Bodies, TxLookup} \<Longrightarrow> cf \<noteq> Meta \<or> k \<noteq> number_key (number (block_header blk)) \<Longrightarrow>
      contents b' cf k = contents b cf k"
    unfolding b'(2) by (auto simp: ops)
qed

lemma commit_fresh_runs:
  assumes R: "rlp_encodes (rt_rlp W)" and ns: "opened (ns_store ns)" "world_ok (rt_rlp W) (contents (ns_store ns))"
    and W: "rt_kv W = K" and h: "h = Block_hash (rt_crypto W) (rt_rlp W) blk"
    and fresh: "by_hash (ns_blocks ns) h = None" "by_number (ns_blocks ns) (number (block_header blk)) = None"
  obtains b3 where "node_commit_block W ns blk = (Ok (), ns\<lparr>ns_blocks := evict W (index_block W (ns_blocks ns) h blk),
      ns_store := maybe_elect_validator_set K (ns_spec ns) b3 (number (block_header blk))\<rparr>)"
    "opened b3" "world_ok (rt_rlp W) (contents b3)"
    "\<And>cf k. \<not> node_area cf k \<Longrightarrow> contents b3 cf k = contents (persist_block W (ns_store ns) blk h) cf k"
proof -
  let ?b1 = "persist_block W (ns_store ns) blk h"
  have b1: "opened ?b1" "world_ok (rt_rlp W) (contents ?b1)"
    using persist_block_spec(1,4) [OF ns(1) W refl, where blk = blk and hash = h] ns(2) by (simp_all add: world_ok_def)
  obtain b2 where b2: "execute_block_txs W (ns_spec ns) ?b1 blk = (Ok (), b2)" "opened b2" "world_ok (rt_rlp W) (contents b2)"
      "\<forall>cf k. \<not> commit_area cf k \<longrightarrow> contents b2 cf k = contents ?b1 cf k"
    using execute_block_frame [OF R b1 W, of "ns_spec ns" blk] by (elim exE conjE)
  have b3: "keeps opened contents (\<lambda>cf k. cf = MicroChain) b2 (scan_microchain_anchors W (ns_spec ns) b2 blk h)"
    using scan_keeps [OF b2(2) W] .
  show ?thesis
    using b2 b3 fresh W h
    by (intro that [of "scan_microchain_anchors W (ns_spec ns) b2 blk h"])
      (auto simp: node_commit_block_def Let_def keeps_def node_area_def world_ok_def)
qed

lemma elects_nothing: "elects pool cap [] \<Longrightarrow> cap \<noteq> 0 \<Longrightarrow> pool = Map.empty"
  by (auto simp: elects_def fun_eq_iff)

lemma election_recorded:
  assumes b: "opened b" and n: "n \<noteq> 0" "epoch_length_blocks spec \<noteq> 0" "n mod epoch_length_blocks spec = 0"
    and last: "\<And>e. e \<in> epochs (contents b) \<Longrightarrow> e \<le> n div epoch_length_blocks spec"
    and pool: "pool = eligible (stakes (contents b)) (ucast (min_validator_stake_wei spec))"
      "keyed = pool |` dom (registered (contents b))"
  obtains b' es where "maybe_elect_validator_set K spec b n = b'" "opened b'"
    "latest_validator_set K b' = Ok (Some (n div epoch_length_blocks spec, es))"
    "elects (if keyed = Map.empty then pool else keyed) (unat (validators_per_epoch spec)) (map seat es)"
    "stakes (contents b') = stakes (contents b)" "registered (contents b') = registered (contents b)"
proof -
  let ?min = "ucast (min_validator_stake_wei spec)" and ?v = "validators_per_epoch spec"
  obtain rs where rs: "elect_registered_active_set K b ?min ?v = Ok rs" "elects keyed (unat ?v) (map seat rs)"
    using elect_registered_spec [OF b] pool by metis
  obtain as where as: "elect_active_set K b ?min ?v = Ok as" "elects pool (unat ?v) (map seat as)"
    using elect_active_spec [OF b] pool by metis
  define vs where "vs = (if rs = [] then as else rs)"
  have seats: "elects (if keyed = Map.empty then pool else keyed) (unat ?v) (map seat vs)"
  proof (cases "rs = []")
    case True
    show ?thesis
    proof (cases "unat ?v = 0")
      case True
      then have "as = []" using as(2) by (simp add: elects_def)
      then show ?thesis using rs(2) as(2) \<open>rs = []\<close> by (simp add: vs_def)
    next
      case False
      then have "keyed = Map.empty" using elects_nothing [of keyed "unat ?v"] rs(2) True by simp
      then show ?thesis using as(2) True by (simp add: vs_def)
    qed
  next
    case False
    then have "keyed \<noteq> Map.empty" using rs(2) by (cases rs) (auto simp: elects_def split_beta)
    then show ?thesis using rs(2) False by (simp add: vs_def)
  qed
  have "length vs < 2 ^ 32"
    using seats unat_less_pow [of ?v] by (simp add: elects_def)
  from persist_validator_set_spec [OF b this, of "n div epoch_length_blocks spec"] obtain b' where b':
      "persist_validator_set K b (n div epoch_length_blocks spec) vs = (Ok (), b')" "opened b'"
      "sets (contents b') = (sets (contents b))(n div epoch_length_blocks spec \<mapsto> recorded vs)"
      "epochs (contents b') = insert (n div epoch_length_blocks spec) (epochs (contents b))"
      "stakes (contents b') = stakes (contents b)" "registered (contents b') = registered (contents b)"
    by metis
  have latest: "latest_validator_set K b' = Ok (Some (n div epoch_length_blocks spec, recorded vs))"
    by (rule latest_is_max [OF b'(2)]) (use b'(3,4) last in auto)
  have "map seat (recorded vs) = map seat vs" by (simp add: recorded_def seat_def)
  then have "elects (if keyed = Map.empty then pool else keyed) (unat ?v) (map seat (recorded vs))" using seats by (simp only:)
  moreover have "maybe_elect_validator_set K spec b n = b'"
    using n rs(1) as(1) b'(1) by (auto simp: maybe_elect_validator_set_def Let_def vs_def)
  ultimately show ?thesis using that [OF _ b'(2) latest _ b'(5,6)] by blast
qed

end

subsection \<open>Properties\<close>

definition demo_node :: "store node_state" where
  "demo_node = NodeState_new demo_spec MemoryBackend_new"

definition demo_node_block :: "u64 \<Rightarrow> block" where
  "demo_node_block n =
     \<lparr>block_header = demo_header\<lparr>number := n, beneficiary := 5\<rparr>, body = BlockBody_default\<lparr>transactions := [demo_bond]\<rparr>\<rparr>"

lemma demo_node_facts:
  "kv_store (rt_kv demo_runtime) mem_opened mem_contents" "rlp_encodes (rt_rlp demo_runtime)"
  "mem_opened (ns_store demo_node)" "world_ok R (mem_contents (ns_store demo_node))"
  "by_hash (ns_blocks demo_node) h = None" "by_number (ns_blocks demo_node) n = None"
  "mem_opened MemoryBackend_new" "mem_contents MemoryBackend_new = (\<lambda>_ _. None)"
  "epochs (mem_contents (ns_store demo_node)) = {}" "ns_spec demo_node = demo_spec"
  using mem.kv_store_axioms rlp_format_encodes mem_new_opened mem_new_contents
  by (simp_all add: demo_runtime_def demo_node_def NodeState_new_def BlockStore_default_def world_ok_def epochs_def fun_eq_iff)

text \<open>
  (C10) What a proposer computes is what a commit produces, for a block that is new to the node's block cache: neither its hash
  nor any block at its height is cached (a known block is skipped, and one whose height is taken is only recorded
  as a fork). On a store whose accounts decode, running the body of the block on a copy of the store always yields
  roots; committing the block then succeeds, the state root of the node's store is the predicted one, and the record
  written for the block holds exactly the predicted state root, receipts root and bloom filter.
\<close>

theorem proposal_roots_are_commit_roots:
  assumes K: "kv_store (rt_kv W) opened contents" and R: "rlp_encodes (rt_rlp W)"
    and ns: "opened (ns_store ns)" "world_ok (rt_rlp W) (contents (ns_store ns))"
    and fresh: "by_hash (ns_blocks ns) (Block_hash (rt_crypto W) (rt_rlp W) blk) = None"
      "by_number (ns_blocks ns) (number (block_header blk)) = None"
    and temp: "opened temp" "contents temp = (\<lambda>_ _. None)"
  shows "\<exists>roots ns'. execute_for_proposal W (ns_spec ns) (ns_store ns) temp (body blk) (beneficiary (block_header blk))
      (number (block_header blk)) = Ok roots \<and>
    node_commit_block W ns blk = (Ok (), ns') \<and>
    db_state_root (rt_kv W) (rt_crypto W) (rt_rlp W) (ns_store ns') = Ok (pr_state_root roots) \<and>
    stored_post_roots (rt_kv W) (ns_store ns') (Block_hash (rt_crypto W) (rt_rlp W) blk) =
      Ok (Some \<lparr>sr_state_root = pr_state_root roots, sr_receipts_root = pr_receipts_root roots,
        sr_logs_bloom = pr_logs_bloom roots\<rparr>)"
proof -
  obtain roots where "execute_for_proposal W (ns_spec ns) (ns_store ns) temp (body blk) (beneficiary (block_header blk))
      (number (block_header blk)) = Ok roots"
    using kv_store.proposal_succeeds [OF K R ns temp refl] by blast
  with kv_store.commit_fresh [OF K ns(1) refl fresh temp this] show ?thesis by blast
qed

theorem proposal_roots_are_commit_roots_witness:
  "\<exists>roots ns'. execute_for_proposal demo_runtime demo_spec (ns_store demo_node) MemoryBackend_new
      (body (demo_node_block 1)) 5 1 = Ok roots \<and>
    node_commit_block demo_runtime demo_node (demo_node_block 1) = (Ok (), ns') \<and>
    db_state_root MemoryBackend demo_crypto rlp_format (ns_store ns') = Ok (pr_state_root roots)"
proof -
  have "number (block_header (demo_node_block 1)) = 1" "beneficiary (block_header (demo_node_block 1)) = 5"
      "rt_kv demo_runtime = MemoryBackend" "rt_crypto demo_runtime = demo_crypto" "rt_rlp demo_runtime = rlp_format"
    by (simp_all add: demo_node_block_def demo_runtime_def)
  then show ?thesis
    using proposal_roots_are_commit_roots [where W = demo_runtime and ns = demo_node and temp = MemoryBackend_new
      and blk = "demo_node_block 1", OF demo_node_facts(1-4,5,6,7,8)] demo_node_facts(10)
    by (elim exE conjE, intro exI conjI) simp_all
qed

text \<open>
  (C11) Elections. Take a block whose height closes an epoch, where neither its hash nor any block at its height is in the
  node's block cache, the store's accounts decode and no later epoch has a recorded set. Committing it records a
  validator set for that epoch, and it is the one the node reads as the newest set: the addresses with the largest bonded stakes after the block, at
  most as many as the specification seats, taken from the stakers with registered keys if any of them has the
  minimum stake, and otherwise from all of them.
\<close>

theorem epoch_block_elects:
  assumes K: "kv_store (rt_kv W) opened contents" and R: "rlp_encodes (rt_rlp W)"
    and ns: "opened (ns_store ns)" "world_ok (rt_rlp W) (contents (ns_store ns))"
    and fresh: "by_hash (ns_blocks ns) (Block_hash (rt_crypto W) (rt_rlp W) blk) = None"
      "by_number (ns_blocks ns) (number (block_header blk)) = None"
    and n: "number (block_header blk) \<noteq> 0" "epoch_length_blocks (ns_spec ns) \<noteq> 0"
      "number (block_header blk) mod epoch_length_blocks (ns_spec ns) = 0"
    and last: "\<And>e. e \<in> epochs (contents (ns_store ns)) \<Longrightarrow> e \<le> number (block_header blk) div epoch_length_blocks (ns_spec ns)"
  shows "\<exists>ns' es. node_commit_block W ns blk = (Ok (), ns') \<and>
    latest_validator_set (rt_kv W) (ns_store ns') =
      Ok (Some (number (block_header blk) div epoch_length_blocks (ns_spec ns), es)) \<and>
    (let pool = eligible (stakes (contents (ns_store ns'))) (ucast (min_validator_stake_wei (ns_spec ns)));
         keyed = pool |` dom (registered (contents (ns_store ns')))
     in elects (if keyed = Map.empty then pool else keyed) (unat (validators_per_epoch (ns_spec ns))) (map seat es))"
proof -
  let ?h = "Block_hash (rt_crypto W) (rt_rlp W) blk"
  obtain b3 where b3: "node_commit_block W ns blk = (Ok (), ns\<lparr>ns_blocks := evict W (index_block W (ns_blocks ns) ?h blk),
        ns_store := maybe_elect_validator_set (rt_kv W) (ns_spec ns) b3 (number (block_header blk))\<rparr>)"
      "opened b3" "\<forall>cf k. \<not> node_area cf k \<longrightarrow> contents b3 cf k = contents (persist_block W (ns_store ns) blk ?h) cf k"
    by (rule kv_store.commit_fresh_runs [OF K R ns refl refl fresh]) blast
  have "contents b3 Meta (set_key e) = contents (ns_store ns) Meta (set_key e)" for e
    using b3(3) kv_store.persist_block_spec(4) [OF K ns(1) refl refl, of Meta "set_key e" blk ?h] by simp
  then have le: "e \<in> epochs (contents b3) \<Longrightarrow> e \<le> number (block_header blk) div epoch_length_blocks (ns_spec ns)" for e
    using last by (simp add: epochs_def)
  obtain b' es where "maybe_elect_validator_set (rt_kv W) (ns_spec ns) b3 (number (block_header blk)) = b'" "opened b'"
      "latest_validator_set (rt_kv W) b' = Ok (Some (number (block_header blk) div epoch_length_blocks (ns_spec ns), es))"
      "elects (if eligible (stakes (contents b3)) (ucast (min_validator_stake_wei (ns_spec ns))) |` dom (registered (contents b3)) = Map.empty
         then eligible (stakes (contents b3)) (ucast (min_validator_stake_wei (ns_spec ns)))
         else eligible (stakes (contents b3)) (ucast (min_validator_stake_wei (ns_spec ns))) |` dom (registered (contents b3)))
        (unat (validators_per_epoch (ns_spec ns))) (map seat es)"
      "stakes (contents b') = stakes (contents b3)" "registered (contents b') = registered (contents b3)"
    by (rule kv_store.election_recorded [OF K b3(2) n le refl refl])
  then show ?thesis using b3(1) by (simp add: Let_def split: if_splits)
qed

text \<open>
  The witness: a node with two stakers and one seat, and an empty block that closes the first epoch, under a specification
  without block reward. The staker with the larger stake is elected.
\<close>

definition demo_election_spec :: chain_spec where
  "demo_election_spec = demo_spec\<lparr>block_reward_initial_wei := 0, validators_per_epoch := 1\<rparr>"

definition demo_staked_node :: "store node_state" where
  "demo_staked_node = NodeState_new demo_election_spec demo_stakers"

definition demo_empty_block :: block where
  "demo_empty_block = \<lparr>block_header = demo_header\<lparr>number := 2\<rparr>, body = BlockBody_default\<rparr>"

lemma demo_staked_facts:
  "mem_opened (ns_store demo_staked_node)" "world_ok R (mem_contents (ns_store demo_staked_node))"
  "by_hash (ns_blocks demo_staked_node) h = None" "by_number (ns_blocks demo_staked_node) n = None"
  "epochs (mem_contents (ns_store demo_staked_node)) = {}" "ns_spec demo_staked_node = demo_election_spec"
  "ns_store demo_staked_node = demo_stakers"
proof -
  show st: "ns_store demo_staked_node = demo_stakers" by (simp add: demo_staked_node_def NodeState_new_def)
  show "mem_opened (ns_store demo_staked_node)" using demo_stakers_facts(1) by (simp add: st)
  show "world_ok R (mem_contents (ns_store demo_staked_node))"
    using demo_stakers_facts(3) [of State] by (simp add: st world_ok_def stake_area_def)
  show "epochs (mem_contents (ns_store demo_staked_node)) = {}"
    using demo_stakers_facts(3) [of Meta "set_key _"]
    by (simp add: st epochs_def stake_area_def set_key_def STAKE_PREFIX_def SET_PREFIX_def ascii_def)
qed (simp_all add: demo_staked_node_def NodeState_new_def BlockStore_default_def)

lemma demo_post_roots:
  assumes "mem_opened b"
  shows "mem_opened (persist_post_roots MemoryBackend b h roots)"
    and "\<not> starts_with POSTROOT_PREFIX k \<Longrightarrow>
      mem_contents (persist_post_roots MemoryBackend b h roots) Meta k = mem_contents b Meta k"
  using mem.put_spec [OF assms, of Meta "POSTROOT_PREFIX @ h256_bytes h" "h256_bytes (sr_state_root roots) @
    h256_bytes (sr_receipts_root roots) @ to_be_bytes 256 (sr_logs_bloom roots)"]
  by (auto simp: persist_post_roots_def starts_with_def)

lemma demo_empty_commit:
  assumes "node_commit_block demo_runtime demo_staked_node demo_empty_block = (Ok (), ns')"
  shows "stakes (mem_contents (ns_store ns')) = [1 \<mapsto> (100, 0), 2 \<mapsto> (60, 0)]"
    and "registered (mem_contents (ns_store ns')) = Map.empty"
proof -
  let ?h = "Block_hash demo_crypto rlp_format demo_empty_block"
  let ?b1 = "persist_block demo_runtime demo_stakers demo_empty_block ?h"
  have kv: "rt_kv demo_runtime = MemoryBackend" "rt_crypto demo_runtime = demo_crypto" "rt_rlp demo_runtime = rlp_format"
    by (simp_all add: demo_runtime_def)
  have blk: "transactions (body demo_empty_block) = []" "number (block_header demo_empty_block) = 2"
    by (simp_all add: demo_empty_block_def BlockBody_default_def)
  have reward: "block_reward_at demo_election_spec 2 = 0"
    by (simp add: block_reward_at_def demo_election_spec_def demo_spec_def shr_def)
  have b1: "mem_opened ?b1" "\<And>k. k \<noteq> number_key 2 \<Longrightarrow> mem_contents ?b1 Meta k = mem_contents demo_stakers Meta k"
    using mem.persist_block_spec(1) [OF demo_stakers_facts(1) kv(1) refl]
      mem.persist_block_spec(4) [OF demo_stakers_facts(1) kv(1) refl, where cf = Meta and blk = demo_empty_block] blk(2) by auto
  obtain roots where ex: "execute_block_txs demo_runtime demo_election_spec ?b1 demo_empty_block =
      (Ok (), persist_post_roots MemoryBackend ?b1 ?h roots)"
    by (simp add: execute_block_txs_def blk reward persist_receipts_def kv Let_def)
  define b2 where "b2 = persist_post_roots MemoryBackend ?b1 ?h roots"
  have b2: "mem_opened b2" "\<And>k. \<not> starts_with POSTROOT_PREFIX k \<Longrightarrow> mem_contents b2 Meta k = mem_contents ?b1 Meta k"
    unfolding b2_def by (rule demo_post_roots [OF b1(1)], rule demo_post_roots(2) [OF b1(1)])
  have keys: "mem_contents b2 Meta (stake_key a) = mem_contents demo_stakers Meta (stake_key a)"
      "mem_contents b2 Meta (registry_key a) = mem_contents demo_stakers Meta (registry_key a)"
      "mem_contents b2 Meta (set_key e) = mem_contents demo_stakers Meta (set_key e)" for a e
    using b1(2) b2(2)
    by (simp_all add: stake_key_def registry_key_def set_key_def number_key_def STAKE_PREFIX_def REGISTRY_PREFIX_def
        SET_PREFIX_def POSTROOT_PREFIX_def ascii_def)
  have none: "mem_contents demo_stakers Meta (registry_key a) = None" "mem_contents demo_stakers Meta (set_key e) = None" for a e
    by (rule demo_stakers_facts(3), simp add: stake_area_def registry_key_def set_key_def STAKE_PREFIX_def REGISTRY_PREFIX_def
        SET_PREFIX_def ascii_def)+
  have same: "stakes (mem_contents b2) = [1 \<mapsto> (100, 0), 2 \<mapsto> (60, 0)]" "registered (mem_contents b2) = Map.empty"
      "epochs (mem_contents b2) = {}"
    using keys none by (simp_all add: demo_stakers_facts(2) [symmetric] stakes_def registered_def epochs_def fun_eq_iff)
  have spec: "epoch_length_blocks demo_election_spec = 2" by (simp add: demo_election_spec_def demo_spec_def)
  obtain b' es where "maybe_elect_validator_set MemoryBackend demo_election_spec b2 2 = b'"
      "stakes (mem_contents b') = stakes (mem_contents b2)" "registered (mem_contents b') = registered (mem_contents b2)"
    by (rule mem.election_recorded [where n = 2 and spec = demo_election_spec, OF b2(1) _ _ _ _ refl refl]) (simp_all add: spec same(3))
  moreover have "ns_store ns' = maybe_elect_validator_set MemoryBackend demo_election_spec b2 2"
    using assms ex
    by (auto simp: node_commit_block_def demo_staked_facts(3,4,6,7) kv blk scan_microchain_anchors_def Let_def b2_def)
  ultimately show "stakes (mem_contents (ns_store ns')) = [1 \<mapsto> (100, 0), 2 \<mapsto> (60, 0)]"
    "registered (mem_contents (ns_store ns')) = Map.empty" using same by simp_all
qed

theorem epoch_block_elects_witness:
  "\<exists>ns' es. node_commit_block demo_runtime demo_staked_node demo_empty_block = (Ok (), ns') \<and>
    latest_validator_set MemoryBackend (ns_store ns') = Ok (Some (1, es)) \<and> map seat es = [(1, 100)]"
proof -
  have n: "number (block_header demo_empty_block) = 2" "rt_kv demo_runtime = MemoryBackend"
    by (simp_all add: demo_empty_block_def demo_runtime_def)
  have e: "epoch_length_blocks (ns_spec demo_staked_node) = 2" "validators_per_epoch (ns_spec demo_staked_node) = 1"
      "min_validator_stake_wei (ns_spec demo_staked_node) = 1"
    by (simp_all add: demo_staked_facts(6) demo_election_spec_def demo_spec_def)
  have d: "(2 :: u64) div 2 = 1" "(2 :: u64) mod 2 = 0" by simp_all
  obtain ns' es where ns': "node_commit_block demo_runtime demo_staked_node demo_empty_block = (Ok (), ns')"
      "latest_validator_set MemoryBackend (ns_store ns') = Ok (Some (1, es))" and
      el: "let pool = eligible (stakes (mem_contents (ns_store ns'))) (ucast (1 :: u128));
        keyed = pool |` dom (registered (mem_contents (ns_store ns')))
      in elects (if keyed = Map.empty then pool else keyed) (unat (1 :: u32)) (map seat es)"
    using epoch_block_elects [where W = demo_runtime and ns = demo_staked_node and blk = demo_empty_block,
      OF demo_node_facts(1,2) demo_staked_facts(1-4), unfolded n e d] demo_staked_facts(5) by auto
  have pool: "eligible [1 \<mapsto> (100, 0), 2 \<mapsto> (60, 0)] 1 = [1 \<mapsto> 100, 2 \<mapsto> 60]"
    by (auto simp: eligible_def fun_eq_iff)
  have "elects [1 \<mapsto> 100, 2 \<mapsto> 60] 1 (map seat es)"
    using el by (simp add: Let_def demo_empty_commit [OF ns'(1)] pool)
  then have "map seat es = [(1, 100)]"
    by (cases "map seat es"; cases "tl (map seat es)") (auto simp: elects_def split: if_splits)
  with ns' show ?thesis by (intro exI conjI)
qed

end
