(* ===== verification/Restart.thy ===== *)
theory Restart
  imports NodeState
begin

section \<open>Restart of a node\<close>

text \<open>
  A node that is stopped and recovered from its store (\<open>NodeState::recover\<close>) knows the blocks it knew before:
  every commit keeps the persisted headers and bodies equal to the block cache, and the three scans of the
  recovery read them back.
\<close>

subsection \<open>The scans\<close>

definition stored_as :: "('h \<Rightarrow> byte list) \<Rightarrow> (h256 \<rightharpoonup> 'h) \<Rightarrow> kv list \<Rightarrow> bool" where
  "stored_as enc f m \<longleftrightarrow> (\<forall>(k, v) \<in> set m. \<exists>h x. k = h256_bytes h \<and> f h = Some x \<and> v = enc x)"

lemma stored_as_Cons:
  "stored_as enc f (kv # m) \<longleftrightarrow> (\<exists>h x. kv = (h256_bytes h, enc x) \<and> f h = Some x) \<and> stored_as enc f m"
  by (cases kv) (auto simp: stored_as_def)

lemma scan_headers_spec:
  assumes R: "rlp_encodes R" and wf: "\<forall>h x. hdrs h = Some x \<longrightarrow> header_wf x" and keep: "dom hdrs \<subseteq> set keep"
    and "stored_as (Header_encode R) hdrs m"
  shows "\<exists>acc'. scan_headers R keep acc (map Ok m) = Ok acc' \<and>
    (\<forall>h. acc' h = (if h256_bytes h \<in> fst ` set m then hdrs h else acc h))"
  using assms(4)
proof (induction m arbitrary: acc)
  case (Cons kv m)
  obtain h x where kv: "kv = (h256_bytes h, Header_encode R x)" "hdrs h = Some x"
    using Cons.prems by (auto simp: stored_as_Cons)
  have d: "Header_decode R (Header_encode R x) = Ok (x, [])"
    using Header_reads [OF R wf [rule_format, OF kv(2)]] unfolding reads_def by (metis append_Nil2)
  obtain acc' where "scan_headers R keep (acc(h \<mapsto> x)) (map Ok m) = Ok acc'"
      "\<forall>h'. acc' h' = (if h256_bytes h' \<in> fst ` set m then hdrs h' else (acc(h \<mapsto> x)) h')"
    using Cons.IH Cons.prems by (auto simp: stored_as_Cons)
  then show ?case using kv keep by (auto simp: d to_be_bytes_inject domIff subset_iff)
qed simp

lemma scan_bodies_spec:
  assumes R: "rlp_encodes (rt_rlp W)" and wf: "\<forall>h x. bodies h = Some x \<longrightarrow> body_wf (rt_rlp W) x"
    and keep: "dom bodies \<subseteq> set keep" and "stored_as (BlockBody_encode (rt_rlp W)) bodies m"
  shows "\<exists>acc' txs. scan_bodies W keep hdrs acc (map Ok m) = Ok (acc', txs) \<and>
    (\<forall>h. acc' h = (if h256_bytes h \<in> fst ` set m then bodies h else fst acc h))"
  using assms(4)
proof (induction m arbitrary: acc)
  case Nil
  then show ?case by (cases acc) simp
next
  case (Cons kv m)
  obtain h x where kv: "kv = (h256_bytes h, BlockBody_encode (rt_rlp W) x)" "bodies h = Some x"
    using Cons.prems by (auto simp: stored_as_Cons)
  have d: "BlockBody_decode (rt_rlp W) (BlockBody_encode (rt_rlp W) x) = Ok (x, [])"
    using BlockBody_reads [OF R wf [rule_format, OF kv(2)]] unfolding reads_def by (metis append_Nil2)
  let ?acc = "((fst acc)(h \<mapsto> x), case hdrs h of None \<Rightarrow> snd acc
    | Some hdr \<Rightarrow> index_txs W (number hdr) 0 (snd acc) (transactions x))"
  obtain acc' txs where "scan_bodies W keep hdrs ?acc (map Ok m) = Ok (acc', txs)"
      "\<forall>h'. acc' h' = (if h256_bytes h' \<in> fst ` set m then bodies h' else ((fst acc)(h \<mapsto> x)) h')"
    using Cons.IH [of ?acc] Cons.prems by (auto simp: stored_as_Cons)
  then show ?case using kv keep by (auto simp: d to_be_bytes_inject domIff subset_iff)
qed

lemma scan_numbers_spec:
  assumes R: "rlp_encodes R" and wf: "\<forall>h x. hdrs h = Some x \<longrightarrow> header_wf x"
    and nums: "\<forall>h x. hdrs h = Some x \<longrightarrow> nums (number x) = Some h"
    and "stored_as (Header_encode R) hdrs m" and "distinct (map fst acc)" and "map_of acc \<subseteq>\<^sub>m nums"
  shows "\<exists>acc'. scan_numbers R acc (map Ok m) = Ok acc' \<and> distinct (map fst acc') \<and> map_of acc' \<subseteq>\<^sub>m nums \<and>
    length acc' \<le> length acc + length m \<and> dom (map_of acc) \<subseteq> dom (map_of acc') \<and>
    (\<forall>h x. h256_bytes h \<in> fst ` set m \<longrightarrow> hdrs h = Some x \<longrightarrow> number x \<in> dom (map_of acc'))"
  using assms(4-6)
proof (induction m arbitrary: acc)
  case (Cons kv m)
  obtain h x where kv: "kv = (h256_bytes h, Header_encode R x)" "hdrs h = Some x"
    using Cons.prems by (auto simp: stored_as_Cons)
  have d: "Header_decode R (Header_encode R x) = Ok (x, [])"
    using Header_reads [OF R wf [rule_format, OF kv(2)]] unfolding reads_def by (metis append_Nil2)
  let ?acc = "AList.update (number x) h acc"
  have "map_of ?acc \<subseteq>\<^sub>m nums" using Cons.prems(3) nums [rule_format, OF kv(2)] by (simp add: update_conv' map_le_def)
  moreover have "length ?acc \<le> Suc (length acc)" by (induction acc) auto
  moreover have "dom (map_of ?acc) = insert (number x) (dom (map_of acc))" by (simp add: update_conv')
  ultimately obtain acc' where "scan_numbers R ?acc (map Ok m) = Ok acc'" "distinct (map fst acc')"
      "map_of acc' \<subseteq>\<^sub>m nums" "length acc' \<le> length acc + Suc (length m)"
      "insert (number x) (dom (map_of acc)) \<subseteq> dom (map_of acc')"
      "\<forall>h x. h256_bytes h \<in> fst ` set m \<longrightarrow> hdrs h = Some x \<longrightarrow> number x \<in> dom (map_of acc')"
    using Cons.IH [of ?acc] Cons.prems distinct_update [of acc "number x" h] by (fastforce simp: stored_as_Cons)
  then show ?case using kv d by (auto simp: to_be_bytes_inject)
qed simp

subsection \<open>The cache and the store\<close>

text \<open>
  The persisted headers and bodies are those of the cache, each height has one block, and the queue of the cache
  lists the blocks without repetition.
\<close>

definition family_holds :: "('h \<Rightarrow> byte list) \<Rightarrow> (h256 \<rightharpoonup> 'h) \<Rightarrow> (byte list \<rightharpoonup> byte list) \<Rightarrow> bool" where
  "family_holds enc f c \<longleftrightarrow> (\<forall>k v. c k = Some v \<longleftrightarrow> (\<exists>h x. k = h256_bytes h \<and> f h = Some x \<and> v = enc x))"

definition cache_ok :: "rlp \<Rightarrow> block_store \<Rightarrow> bool" where
  "cache_ok R s \<longleftrightarrow>
     (\<forall>n h. by_number s n = Some h \<longleftrightarrow> (\<exists>x. by_hash s h = Some x \<and> number x = n)) \<and>
     (\<forall>h x. by_hash s h = Some x \<longrightarrow> header_wf x) \<and> (\<forall>h x. body_by_hash s h = Some x \<longrightarrow> body_wf R x) \<and>
     dom (body_by_hash s) = dom (by_hash s) \<and> set (order s) = dom (by_hash s) \<and> distinct (order s)"

definition persisted :: "rlp \<Rightarrow> contents \<Rightarrow> block_store \<Rightarrow> bool" where
  "persisted R m s \<longleftrightarrow> family_holds (Header_encode R) (by_hash s) (m Headers) \<and>
     family_holds (BlockBody_encode R) (body_by_hash s) (m Bodies)"

lemma family_holds_update:
  "family_holds enc f c \<Longrightarrow> family_holds enc (f(h \<mapsto> x)) (c(h256_bytes h \<mapsto> enc x))"
  unfolding family_holds_def by (auto simp: to_be_bytes_inject)

lemma family_holds_key:
  "family_holds enc f c \<Longrightarrow> h256_bytes h \<in> dom c \<longleftrightarrow> h \<in> dom f"
  unfolding family_holds_def dom_def by (auto simp: to_be_bytes_inject)

lemma family_stored:
  assumes "family_holds enc f c" and "btree_ok m" and "map_of m = c"
  shows "stored_as enc f m" "h256_bytes h \<in> fst ` set m \<longleftrightarrow> h \<in> dom f"
proof -
  have m: "(k, v) \<in> set m \<longleftrightarrow> c k = Some v" for k v using assms(2,3) by (auto simp: btree_ok_def)
  then show "stored_as enc f m" using assms(1) by (auto simp: stored_as_def family_holds_def)
  have "fst ` set m = dom c" using assms(3) dom_map_of_conv_image_fst [of m] by simp
  then show "h256_bytes h \<in> fst ` set m \<longleftrightarrow> h \<in> dom f" using family_holds_key [OF assms(1)] by simp
qed

lemma family_length:
  assumes "family_holds enc f c" and "btree_ok m" and "map_of m = c" and "finite (dom f)"
  shows "length m = card (dom f)"
proof -
  have "set (map fst m) = h256_bytes ` dom f"
  proof
    show "set (map fst m) \<subseteq> h256_bytes ` dom f"
      using family_stored(1) [OF assms(1-3)] by (fastforce simp: stored_as_def)
    show "h256_bytes ` dom f \<subseteq> set (map fst m)" using family_stored(2) [OF assms(1-3)] by auto
  qed
  moreover have "inj_on h256_bytes (dom f)" by (rule inj_onI) (simp add: to_be_bytes_inject)
  moreover have "distinct (map fst m)" using assms(2) by (simp add: btree_ok_def)
  ultimately show ?thesis using card_image distinct_card by (metis length_map)
qed

definition node_ok :: "('b \<Rightarrow> bool) \<Rightarrow> ('b \<Rightarrow> contents) \<Rightarrow> rlp \<Rightarrow> 'b node_state \<Rightarrow> bool" where
  "node_ok opened contents R ns \<longleftrightarrow> opened (ns_store ns) \<and> world_ok R (contents (ns_store ns)) \<and>
     cache_ok R (ns_blocks ns) \<and> persisted R (contents (ns_store ns)) (ns_blocks ns)"

text \<open>A sequence of commits; the first panic ends it.\<close>

primrec commit_blocks :: "'b runtime \<Rightarrow> 'b node_state \<Rightarrow> block list \<Rightarrow> (unit, unit) result \<times> 'b node_state" where
  "commit_blocks W ns [] = (Ok (), ns)"
| "commit_blocks W ns (blk # blks) =
     (case node_commit_block W ns blk of (Ok _, ns') \<Rightarrow> commit_blocks W ns' blks | (r, ns') \<Rightarrow> (r, ns'))"

lemma cache_number: "cache_ok R s \<Longrightarrow> by_hash s h = Some x \<Longrightarrow> by_number s (number x) = Some h"
  by (auto simp: cache_ok_def)

lemma evict_within: "length (order s) \<le> MAX_BLOCKS_IN_MEMORY \<Longrightarrow> evict W s = s"
  by (subst evict.simps) (cases "order s"; simp)

lemma index_cache_ok:
  assumes s: "cache_ok R s" and h: "by_hash s h = None" and n: "by_number s (number (block_header blk)) = None"
    and blk: "block_wf R blk"
  shows "cache_ok R (index_block W s h blk)"
proof -
  have "h \<notin> set (order s)" using s h by (auto simp: cache_ok_def)
  moreover have "header_wf (block_header blk)" "body_wf R (body blk)"
    using blk block_wf_body by (simp_all add: block_wf_def)
  moreover have "by_number s m \<noteq> Some h" for m using s h by (simp add: cache_ok_def)
  moreover have "by_hash s h' = Some x \<Longrightarrow> number x \<noteq> number (block_header blk)" for h' x
    using cache_number [OF s, of h' x] n by auto
  ultimately show ?thesis using s by (auto simp: cache_ok_def index_block_def Let_def)
qed

context kv_store
begin

lemma recover_spec:
  assumes R: "rlp_encodes (rt_rlp W)" and W: "rt_kv W = K" and b: "opened b"
    and s: "cache_ok (rt_rlp W) s" "persisted (rt_rlp W) (contents b) s" "length (order s) \<le> MAX_BLOCKS_IN_MEMORY"
  shows "\<exists>ns. recover W spec b = Ok ns \<and> by_hash (ns_blocks ns) = by_hash s \<and> by_number (ns_blocks ns) = by_number s \<and>
    body_by_hash (ns_blocks ns) = body_by_hash s \<and> set (order (ns_blocks ns)) = set (order s) \<and>
    ns_spec ns = spec \<and> ns_store ns = b \<and> ns_head ns = head_of_bytes (contents b Meta META_KEY_HEAD)"
proof -
  obtain m where m: "kv_iter K b Headers = map Ok m" "btree_ok m" "map_of m = contents b Headers"
    using iter_spec [OF b] by blast
  obtain m' where m': "kv_iter K b Bodies = map Ok m'" "btree_ok m'" "map_of m' = contents b Bodies"
    using iter_spec [OF b] by blast
  have fam: "family_holds (Header_encode (rt_rlp W)) (by_hash s) (contents b Headers)"
      "family_holds (BlockBody_encode (rt_rlp W)) (body_by_hash s) (contents b Bodies)"
    using s(2) by (simp_all add: persisted_def)
  note hs = family_stored [OF fam(1) m(2,3)] and bs = family_stored [OF fam(2) m'(2,3)]
  have wf: "\<forall>h x. by_hash s h = Some x \<longrightarrow> header_wf x" "\<forall>h x. body_by_hash s h = Some x \<longrightarrow> body_wf (rt_rlp W) x"
    and nums: "\<forall>h x. by_hash s h = Some x \<longrightarrow> by_number s (number x) = Some h"
    and doms: "dom (body_by_hash s) = dom (by_hash s)" "set (order s) = dom (by_hash s)" "distinct (order s)"
    using s(1) by (auto simp: cache_ok_def)
  obtain ns where ns: "scan_numbers (rt_rlp W) [] (map Ok m) = Ok ns" "distinct (map fst ns)" "map_of ns \<subseteq>\<^sub>m by_number s"
      "length ns \<le> length m" "\<forall>h x. h256_bytes h \<in> fst ` set m \<longrightarrow> by_hash s h = Some x \<longrightarrow> number x \<in> dom (map_of ns)"
    using scan_numbers_spec [where hdrs = "by_hash s" and nums = "by_number s" and acc = "[]", OF R wf(1) nums hs(1)] by auto
  have eq: "map_of ns = by_number s"
  proof (rule map_le_antisym [OF ns(3)])
    have "n \<in> dom (map_of ns)" if "by_number s n = Some h" for n h
      using that s(1) ns(5) hs(2) by (auto simp: cache_ok_def)
    then show "by_number s \<subseteq>\<^sub>m map_of ns" using ns(3) by (auto simp: map_le_def domIff)
  qed
  have "finite (dom (by_hash s))" unfolding doms(2) [symmetric] by simp
  moreover have "card (dom (by_hash s)) = length (order s)" using distinct_card [OF doms(3)] unfolding doms(2) .
  ultimately have "length m \<le> length (order s)" using family_length [OF fam(1) m(2,3)] by simp
  then have "length ns \<le> MAX_BLOCKS_IN_MEMORY" using ns(4) s(3) by simp
  then have kept: "length ns - MAX_BLOCKS_IN_MEMORY = 0" by simp
  have all: "filter (\<lambda>p. fst p \<in> fst ` set ns) ns = ns" by (auto simp: filter_id_conv)
  have hashes: "set (map snd ns) = dom (by_hash s)"
  proof -
    have "set (map snd ns) = ran (map_of ns)" using ns(2) by (simp add: ran_distinct)
    also have "\<dots> = dom (by_hash s)" using s(1) by (auto simp: eq ran_def cache_ok_def)
    finally show ?thesis .
  qed
  obtain hdrs where hdrs: "scan_headers (rt_rlp W) (map snd ns) Map.empty (map Ok m) = Ok hdrs"
      "\<forall>h. hdrs h = (if h256_bytes h \<in> fst ` set m then by_hash s h else None)"
    using scan_headers_spec [where hdrs = "by_hash s" and keep = "map snd ns" and acc = Map.empty, OF R wf(1) _ hs(1)] hashes by auto
  have "hdrs = by_hash s" using hdrs(2) hs(2) by (fastforce simp: fun_eq_iff domIff)
  obtain bodies txs where bodies: "scan_bodies W (map snd ns) hdrs (Map.empty, Map.empty) (map Ok m') = Ok (bodies, txs)"
      "\<forall>h. bodies h = (if h256_bytes h \<in> fst ` set m' then body_by_hash s h else None)"
    using scan_bodies_spec [where bodies = "body_by_hash s" and keep = "map snd ns" and hdrs = hdrs and acc = "(Map.empty, Map.empty)",
      OF R wf(2) _ bs(1)] hashes doms(1) by auto
  have "bodies = body_by_hash s" using bodies(2) bs(2) by (fastforce simp: fun_eq_iff domIff)
  then show ?thesis
    using ns(1) hdrs(1) bodies(1) \<open>hdrs = by_hash s\<close> eq hashes doms(2)
    unfolding recover_def W m(1) m'(1) get_spec [OF b]
    by (simp add: Let_def kept all)
qed

subsection \<open>Commits keep the invariant\<close>

lemma commit_persists:
  assumes R: "rlp_encodes (rt_rlp W)" and W: "rt_kv W = K" and ns: "node_ok opened contents (rt_rlp W) ns"
    and room: "length (order (ns_blocks ns)) < MAX_BLOCKS_IN_MEMORY" and blk: "block_wf (rt_rlp W) blk"
  obtains ns' where "node_commit_block W ns blk = (Ok (), ns')" "node_ok opened contents (rt_rlp W) ns'"
    "length (order (ns_blocks ns')) \<le> Suc (length (order (ns_blocks ns)))" "ns_spec ns' = ns_spec ns"
proof -
  define h where "h = Block_hash (rt_crypto W) (rt_rlp W) blk"
  define n where "n = number (block_header blk)"
  have live: "opened (ns_store ns)" "world_ok (rt_rlp W) (contents (ns_store ns))"
    and s: "cache_ok (rt_rlp W) (ns_blocks ns)" "persisted (rt_rlp W) (contents (ns_store ns)) (ns_blocks ns)"
    using ns by (simp_all add: node_ok_def)
  show ?thesis
  proof (cases "by_hash (ns_blocks ns) h")
    case (Some x)
    then show ?thesis using ns by (intro that [of ns]) (simp_all add: node_commit_block_def h_def)
  next
    case None
    show ?thesis
    proof (cases "by_number (ns_blocks ns) n")
      case (Some c)
      then have "c \<noteq> h" using s(1) None by (auto simp: cache_ok_def)
      obtain b' where "kv_put K (ns_store ns) Meta (FORK_PREFIX @ to_be_bytes 8 n @ h256_bytes h) (h256_bytes c) = (Ok (), b')"
          "opened b'" "contents b' = apply_op (contents (ns_store ns)) (OpPut Meta (FORK_PREFIX @ to_be_bytes 8 n @ h256_bytes h) (h256_bytes c))"
        using put_spec [OF live(1)] by blast
      then show ?thesis
        using None Some \<open>c \<noteq> h\<close> live s W
        by (intro that [of "ns\<lparr>ns_store := b'\<rparr>"])
          (simp_all add: node_commit_block_def Let_def h_def [symmetric] n_def [symmetric] record_fork_def node_ok_def
            world_ok_def persisted_def)
    next
      case fresh: None
      obtain b3 where b3: "node_commit_block W ns blk = (Ok (), ns\<lparr>ns_blocks := evict W (index_block W (ns_blocks ns) h blk),
          ns_store := maybe_elect_validator_set K (ns_spec ns) b3 n\<rparr>)" "opened b3" "world_ok (rt_rlp W) (contents b3)"
          "\<forall>cf k. \<not> node_area cf k \<longrightarrow> contents b3 cf k = contents (persist_block W (ns_store ns) blk h) cf k"
        unfolding n_def by (rule commit_fresh_runs [OF R live W h_def None fresh [unfolded n_def]]) blast
      define b4 where "b4 = maybe_elect_validator_set K (ns_spec ns) b3 n"
      have k: "keeps opened contents set_area b3 b4" using elect_keeps [OF b3(2)] by (simp add: b4_def)
      have "contents b4 cf = contents b3 cf" if "cf \<noteq> Meta" for cf using k that by (auto simp: keeps_def set_area_def)
      moreover have "contents b3 cf = contents (persist_block W (ns_store ns) blk h) cf" if "cf = Headers \<or> cf = Bodies" for cf
        using b3(4) that by (auto simp: node_area_def commit_area_def write_area_def table_area_def)
      ultimately have stored: "contents b4 Headers = (contents (ns_store ns) Headers)(h256_bytes h \<mapsto> Header_encode (rt_rlp W) (block_header blk))"
          "contents b4 Bodies = (contents (ns_store ns) Bodies)(h256_bytes h \<mapsto> BlockBody_encode (rt_rlp W) (body blk))"
          "contents b4 State = contents b3 State"
        using persist_block_spec(2,3) [OF live(1) W refl] by simp_all
      let ?s = "index_block W (ns_blocks ns) h blk"
      have "evict W ?s = ?s" using room by (intro evict_within) (simp add: index_block_def Let_def)
      moreover have "cache_ok (rt_rlp W) ?s"
        using index_cache_ok [OF s(1) None] fresh blk by (simp add: n_def)
      moreover have "persisted (rt_rlp W) (contents b4) ?s"
        using s(2) stored by (simp add: persisted_def index_block_def Let_def family_holds_update)
      moreover have "opened b4" "world_ok (rt_rlp W) (contents b4)" using k stored(3) b3(3) by (simp_all add: keeps_def world_ok_def)
      ultimately show ?thesis
        using b3(1) by (intro that [of "ns\<lparr>ns_blocks := ?s, ns_store := b4\<rparr>"])
          (simp_all add: node_ok_def b4_def index_block_def Let_def)
    qed
  qed
qed

lemma commits_persist:
  assumes R: "rlp_encodes (rt_rlp W)" and W: "rt_kv W = K" and "node_ok opened contents (rt_rlp W) ns"
    and "length (order (ns_blocks ns)) + length blks \<le> MAX_BLOCKS_IN_MEMORY" and "\<forall>blk \<in> set blks. block_wf (rt_rlp W) blk"
  shows "\<exists>ns'. commit_blocks W ns blks = (Ok (), ns') \<and> node_ok opened contents (rt_rlp W) ns' \<and>
    length (order (ns_blocks ns')) \<le> MAX_BLOCKS_IN_MEMORY \<and> ns_spec ns' = ns_spec ns"
  using assms(3-5)
proof (induction blks arbitrary: ns)
  case (Cons blk blks)
  then have "length (order (ns_blocks ns)) < MAX_BLOCKS_IN_MEMORY" "block_wf (rt_rlp W) blk" by simp_all
  from commit_persists [OF R W Cons.prems(1) this] obtain ns1 where 1: "node_commit_block W ns blk = (Ok (), ns1)"
      "node_ok opened contents (rt_rlp W) ns1" "length (order (ns_blocks ns1)) \<le> Suc (length (order (ns_blocks ns)))"
      "ns_spec ns1 = ns_spec ns" .
  have "length (order (ns_blocks ns1)) + length blks \<le> MAX_BLOCKS_IN_MEMORY" using 1(3) Cons.prems(2) by simp
  from Cons.IH [OF 1(2) this] show ?case using 1 Cons.prems(3) by simp
qed simp

lemma set_head_spec:
  assumes W: "rt_kv W = K" and ns: "node_ok opened contents R ns"
  shows "node_ok opened contents R (set_head K ns n)" "ns_blocks (set_head K ns n) = ns_blocks ns"
    "head_of_bytes (contents (ns_store (set_head K ns n)) Meta META_KEY_HEAD) = n" "ns_head (set_head K ns n) = n"
    "ns_spec (set_head K ns n) = ns_spec ns"
proof -
  have b: "opened (ns_store ns)" using ns by (simp add: node_ok_def)
  obtain b1 where b1: "kv_put K (ns_store ns) Meta META_KEY_HEAD (to_be_bytes 8 n) = (Ok (), b1)" "opened b1"
      "contents b1 = apply_op (contents (ns_store ns)) (OpPut Meta META_KEY_HEAD (to_be_bytes 8 n))"
    using put_spec [OF b] by blast
  have differ: "META_KEY_HEAD \<noteq> META_KEY_HEAD_HASH" by (simp add: META_KEY_HEAD_def META_KEY_HEAD_HASH_def ascii_def)
  have b2: "\<exists>b2. kv_put K b1 Meta META_KEY_HEAD_HASH v = (Ok (), b2) \<and> opened b2 \<and>
      contents b2 = apply_op (contents b1) (OpPut Meta META_KEY_HEAD_HASH v)" for v
    using put_spec [OF b1(2)] .
  show "ns_blocks (set_head K ns n) = ns_blocks ns" "ns_head (set_head K ns n) = n" "ns_spec (set_head K ns n) = ns_spec ns"
    by (simp_all add: set_head_def Let_def)
  have "node_ok opened contents R (set_head K ns n) \<and>
    head_of_bytes (contents (ns_store (set_head K ns n)) Meta META_KEY_HEAD) = n"
  proof (cases "by_number (ns_blocks ns) n")
    case None
    then show ?thesis using ns b1 by (simp add: set_head_def node_ok_def world_ok_def persisted_def head_of_bytes_def)
  next
    case (Some hash)
    obtain b2 where "kv_put K b1 Meta META_KEY_HEAD_HASH (h256_bytes hash) = (Ok (), b2)" "opened b2"
        "contents b2 = apply_op (contents b1) (OpPut Meta META_KEY_HEAD_HASH (h256_bytes hash))"
      using b2 by blast
    then show ?thesis
      using ns b1 Some differ by (simp add: set_head_def node_ok_def world_ok_def persisted_def head_of_bytes_def)
  qed
  then show "node_ok opened contents R (set_head K ns n)"
    "head_of_bytes (contents (ns_store (set_head K ns n)) Meta META_KEY_HEAD) = n" by simp_all
qed

end

subsection \<open>Property\<close>

lemma new_node_ok:
  assumes "opened b" and "contents b State = Map.empty" and "contents b Headers = Map.empty" and "contents b Bodies = Map.empty"
  shows "node_ok opened contents R (NodeState_new spec b)"
  using assms
  by (simp add: node_ok_def NodeState_new_def BlockStore_default_def world_ok_def cache_ok_def persisted_def family_holds_def)

text \<open>
  (C12) Nothing is lost by a restart. Take a fresh node on an empty store, let it commit any sequence of at most 2048
  well-formed blocks and set its head: recovery from its store succeeds and finds the same headers by hash and by
  number, the same bodies and the same head.
\<close>

theorem restart_restores_blocks:
  assumes K: "kv_store (rt_kv W) opened contents" and R: "rlp_encodes (rt_rlp W)"
    and b: "opened b" "contents b = (\<lambda>_ _. None)"
    and blks: "length blks \<le> MAX_BLOCKS_IN_MEMORY" "\<forall>blk \<in> set blks. block_wf (rt_rlp W) blk"
  shows "\<exists>ns ns'. commit_blocks W (NodeState_new spec b) blks = (Ok (), ns) \<and>
    recover W spec (ns_store (set_head (rt_kv W) ns n)) = Ok ns' \<and>
    by_hash (ns_blocks ns') = by_hash (ns_blocks ns) \<and> by_number (ns_blocks ns') = by_number (ns_blocks ns) \<and>
    body_by_hash (ns_blocks ns') = body_by_hash (ns_blocks ns) \<and> ns_head ns' = n \<and>
    head_block ns' = head_block (set_head (rt_kv W) ns n)"
proof -
  have "node_ok opened contents (rt_rlp W) (NodeState_new spec b)" using new_node_ok [of opened b contents] b by simp
  moreover have "length (order (ns_blocks (NodeState_new spec b))) + length blks \<le> MAX_BLOCKS_IN_MEMORY"
    using blks(1) by (simp add: NodeState_new_def BlockStore_default_def)
  ultimately obtain ns where ns: "commit_blocks W (NodeState_new spec b) blks = (Ok (), ns)"
      "node_ok opened contents (rt_rlp W) ns" "length (order (ns_blocks ns)) \<le> MAX_BLOCKS_IN_MEMORY"
    using kv_store.commits_persist [OF K R refl _ _ blks(2)] by blast
  note hd = kv_store.set_head_spec [OF K refl ns(2), of n]
  have "opened (ns_store (set_head (rt_kv W) ns n))" "cache_ok (rt_rlp W) (ns_blocks ns)"
      "persisted (rt_rlp W) (contents (ns_store (set_head (rt_kv W) ns n))) (ns_blocks ns)"
    using hd(1,2) by (simp_all add: node_ok_def)
  from kv_store.recover_spec [OF K R refl this ns(3), of spec] obtain ns' where ns':
      "recover W spec (ns_store (set_head (rt_kv W) ns n)) = Ok ns'" "by_hash (ns_blocks ns') = by_hash (ns_blocks ns)"
      "by_number (ns_blocks ns') = by_number (ns_blocks ns)" "body_by_hash (ns_blocks ns') = body_by_hash (ns_blocks ns)"
      "ns_head ns' = head_of_bytes (contents (ns_store (set_head (rt_kv W) ns n)) Meta META_KEY_HEAD)"
    by (elim exE conjE)
  have "head_block ns' = head_block (set_head (rt_kv W) ns n)"
    unfolding head_block_def node_block_by_number_def ns'(2-5) hd(2-4) ..
  then show ?thesis using ns(1) ns' hd(3) by simp
qed

theorem restart_restores_blocks_witness:
  "\<exists>ns ns'. commit_blocks demo_runtime (NodeState_new demo_spec MemoryBackend_new) [demo_block] = (Ok (), ns) \<and>
    recover demo_runtime demo_spec (ns_store (set_head MemoryBackend ns 7)) = Ok ns' \<and>
    by_hash (ns_blocks ns') = by_hash (ns_blocks ns) \<and> ns_head ns' = 7"
proof -
  have kv: "rt_kv demo_runtime = MemoryBackend" "rt_rlp demo_runtime = rlp_format" by (simp_all add: demo_runtime_def)
  have "length [demo_block] \<le> MAX_BLOCKS_IN_MEMORY" "\<forall>blk \<in> set [demo_block]. block_wf (rt_rlp demo_runtime) blk"
    using demo_block_wf kv(2) by (simp_all add: MAX_BLOCKS_IN_MEMORY_def)
  from restart_restores_blocks [where b = MemoryBackend_new, OF demo_node_facts(1,2,7,8) this, of demo_spec 7, unfolded kv(1)]
  show ?thesis by (elim exE conjE, intro exI conjI)
qed

end
