(* ===== verification/TxPool.thy ===== *)
theory TxPool
  imports Secp Tables "HOL-Library.Product_Lexorder"
begin

section \<open>The transaction pool\<close>

text \<open>
  \<open>aii-net-txpool\<close>: a bounded map from sender and nonce to the best offer seen, and the entry of a raw
  transaction through \<open>submit_raw_tx\<close> of \<open>aii-node/src/lib.rs\<close> once its hex digits are decoded. The order of the
  map is that of its keys. Each method holds the lock for its whole body, so it is one step.
\<close>

subsection \<open>aii-net-txpool\<close>

record pool_entry =
  pe_sender :: address
  pe_nonce :: u64
  pe_price :: u256
  pe_tx :: tx

record tx_pool =
  pool_entries :: "((address \<times> u64) \<times> pool_entry) list"
  pool_capacity :: nat

datatype add_outcome = Inserted | RejectedUnderpriced | Replaced pool_entry

datatype pool_error = PoolFull

definition TxPool_new :: "nat \<Rightarrow> tx_pool" where
  "TxPool_new capacity = \<lparr>pool_entries = [], pool_capacity = capacity\<rparr>"

definition pool_add :: "tx_pool \<Rightarrow> pool_entry \<Rightarrow> (pool_error, add_outcome) result \<times> tx_pool" where
  "pool_add p entry =
     (if pool_capacity p \<le> length (pool_entries p) then (Err PoolFull, p)
      else let key = (pe_sender entry, pe_nonce entry);
               p' = p\<lparr>pool_entries := btree_insert key entry (pool_entries p)\<rparr>
           in case map_of (pool_entries p) key of
                Some existing \<Rightarrow>
                  if pe_price entry \<le> pe_price existing then (Ok RejectedUnderpriced, p)
                  else (Ok (Replaced existing), p')
              | None \<Rightarrow> (Ok Inserted, p'))"

definition pool_remove :: "tx_pool \<Rightarrow> address \<Rightarrow> u64 \<Rightarrow> pool_entry option \<times> tx_pool" where
  "pool_remove p sender n =
     (map_of (pool_entries p) (sender, n), p\<lparr>pool_entries := btree_remove (sender, n) (pool_entries p)\<rparr>)"

function drain_loop ::
    "address \<Rightarrow> u64 \<Rightarrow> tx list \<Rightarrow> ((address \<times> u64) \<times> pool_entry) list
      \<Rightarrow> (pool_error, tx list) result \<times> ((address \<times> u64) \<times> pool_entry) list" where
  "drain_loop sender next_nonce out m =
     (case map_of m (sender, next_nonce) of
        None \<Rightarrow> (Ok out, m)
      | Some entry \<Rightarrow>
          let m' = btree_remove (sender, next_nonce) m; out' = out @ [pe_tx entry]
          in case checked_add next_nonce 1 of
               None \<Rightarrow> (Panic, m')
             | Some next' \<Rightarrow> drain_loop sender next' out' m')"
  by pat_completeness auto

lemma btree_remove_shorter: "map_of m k = Some v \<Longrightarrow> length (btree_remove k m) < length m"
  unfolding btree_remove_def by (metis (mono_tags, lifting) fst_conv length_filter_less map_of_SomeD)

termination drain_loop
  by (relation "measure (\<lambda>(_, _, _, m). length m)") (auto dest: btree_remove_shorter)

declare drain_loop.simps [simp del]

definition drain_ready :: "tx_pool \<Rightarrow> address \<Rightarrow> u64 \<Rightarrow> (pool_error, tx list) result \<times> tx_pool" where
  "drain_ready p sender current_nonce =
     (let (r, m) = drain_loop sender current_nonce [] (pool_entries p) in (r, p\<lparr>pool_entries := m\<rparr>))"

definition drain_up_to :: "tx_pool \<Rightarrow> nat \<Rightarrow> tx list \<times> tx_pool" where
  "drain_up_to p n =
     (let keys = take n (map fst (pool_entries p))
      in foldl (\<lambda>(out, q) k.
           case map_of (pool_entries q) k of
             None \<Rightarrow> (out, q)
           | Some e \<Rightarrow> (out @ [pe_tx e], q\<lparr>pool_entries := btree_remove k (pool_entries q)\<rparr>)) ([], p) keys)"

definition evict_to :: "tx_pool \<Rightarrow> nat \<Rightarrow> tx_pool" where
  "evict_to p target =
     (if length (pool_entries p) \<le> target then p
      else let sorted_keys = sort_by (\<lambda>a b. snd a \<le> snd b) (map (\<lambda>(k, e). (k, pe_price e)) (pool_entries p));
               to_drop = length (pool_entries p) - target
           in p\<lparr>pool_entries := foldl (\<lambda>m (k, _). btree_remove k m) (pool_entries p) (take to_drop sorted_keys)\<rparr>)"

definition effective_gas_price :: "tx \<Rightarrow> u256" where
  "effective_gas_price tx =
     (case tx of Legacy t \<Rightarrow> gas_price t | Eip1559 t \<Rightarrow> max_fee_per_gas t | Eip4844 t \<Rightarrow> max_fee_4844 t)"

subsection \<open>submit\_raw\_tx\<close>

datatype submit_error = SubmitDecode string | SubmitSigner recovery_error | SubmitPool string

definition tx_nonce :: "tx \<Rightarrow> u64" where
  "tx_nonce tx = (case tx of Legacy t \<Rightarrow> nonce t | Eip1559 t \<Rightarrow> nonce_1559 t | Eip4844 t \<Rightarrow> nonce_4844 t)"

definition decode_raw_tx :: "rlp \<Rightarrow> byte list \<Rightarrow> (submit_error, tx) result" where
  "decode_raw_tx R bytes =
     (if bytes = [] then Err (SubmitDecode ''empty body'')
      else if bytes ! 0 < 0xc0 then
        and_then (map_err (\<lambda>_. SubmitDecode ''EIP-2718'') (decode_2718 R bytes)) (\<lambda>(tx, _). Ok tx)
      else and_then (map_err (\<lambda>_. SubmitDecode ''legacy RLP'') (TxLegacy_decode R bytes)) (\<lambda>(t, _). Ok (Legacy t)))"

definition submit_raw_tx ::
    "crypto \<Rightarrow> secp \<Rightarrow> rlp \<Rightarrow> u64 \<Rightarrow> tx_pool \<Rightarrow> byte list \<Rightarrow> (submit_error, h256) result \<times> tx_pool" where
  "submit_raw_tx C S R cid p bytes =
     (case and_then (decode_raw_tx R bytes) (\<lambda>tx.
             and_then (map_err SubmitSigner (recover_signer C S R tx cid)) (\<lambda>sender. Ok (tx, sender))) of
        Err x \<Rightarrow> (Err x, p)
      | Panic \<Rightarrow> (Panic, p)
      | Ok (tx, sender) \<Rightarrow>
          let (r, p') = pool_add p \<lparr>pe_sender = sender, pe_nonce = tx_nonce tx,
                pe_price = effective_gas_price tx, pe_tx = tx\<rparr>
          in (case r of
                Ok RejectedUnderpriced \<Rightarrow> Err (SubmitPool ''rejected'')
              | Ok _ \<Rightarrow> Ok (Tx_hash C R tx)
              | Err _ \<Rightarrow> Err (SubmitPool ''pool full'')
              | Panic \<Rightarrow> Panic, p'))"

subsection \<open>The invariant of the pool\<close>

definition offer_key :: "pool_entry \<Rightarrow> address \<times> u64" where
  "offer_key e = (pe_sender e, pe_nonce e)"

definition pool_ok :: "tx_pool \<Rightarrow> bool" where
  "pool_ok p \<longleftrightarrow> btree_ok (pool_entries p) \<and> length (pool_entries p) \<le> pool_capacity p \<and>
     (\<forall>(k, e) \<in> set (pool_entries p). k = offer_key e)"

lemma length_btree_insert: "length (btree_insert k v m) \<le> Suc (length m)"
  by (induction k v m rule: btree_insert.induct) auto

lemma set_btree_insert: "set (btree_insert k v m) \<subseteq> insert (k, v) (set m)"
  by (induction k v m rule: btree_insert.induct) auto

lemma set_btree_remove: "set (btree_remove k m) \<subseteq> set m" "length (btree_remove k m) \<le> length m"
  by (auto simp: btree_remove_def)

lemma pool_add_ok: "pool_ok p \<Longrightarrow> pool_ok (snd (pool_add p e))"
  using set_btree_insert [of "offer_key e" e "pool_entries p"] length_btree_insert [of "offer_key e" e "pool_entries p"]
    btree_insert_ok [of "pool_entries p" "offer_key e" e]
  by (auto simp: pool_ok_def pool_add_def Let_def offer_key_def [symmetric] split: option.split)

lemma remove_entries_ok: "pool_ok p \<Longrightarrow> pool_ok (p\<lparr>pool_entries := btree_remove k (pool_entries p)\<rparr>)"
  using set_btree_remove [of k "pool_entries p"] by (auto simp: pool_ok_def btree_remove_ok)

lemma drain_loop_ok:
  "pool_ok (p\<lparr>pool_entries := m\<rparr>) \<Longrightarrow> pool_ok (p\<lparr>pool_entries := snd (drain_loop sender n out m)\<rparr>)"
proof (induction sender n out m rule: drain_loop.induct)
  case (1 sender n out m)
  have "pool_ok (p\<lparr>pool_entries := btree_remove (sender, n) m\<rparr>)"
    using remove_entries_ok [of "p\<lparr>pool_entries := m\<rparr>"] 1(2) by simp
  then show ?case
    using 1 by (subst drain_loop.simps) (simp add: Let_def split: option.split)
qed

lemma drain_up_to_ok: "pool_ok p \<Longrightarrow> pool_ok (snd (drain_up_to p n))"
proof -
  have "pool_ok (snd q) \<Longrightarrow> pool_ok (snd (foldl (\<lambda>(out, q) k.
           case map_of (pool_entries q) k of
             None \<Rightarrow> (out, q)
           | Some e \<Rightarrow> (out @ [pe_tx e], q\<lparr>pool_entries := btree_remove k (pool_entries q)\<rparr>)) q ks))" for q :: "tx list \<times> tx_pool" and ks
  proof (induction ks arbitrary: q)
    case (Cons k ks)
    show ?case
      using Cons.prems remove_entries_ok [of "snd q" k]
      by (cases q) (auto intro!: Cons.IH split: option.split)
  qed simp
  then show "pool_ok p \<Longrightarrow> pool_ok (snd (drain_up_to p n))" by (simp add: drain_up_to_def Let_def)
qed

lemma evict_loop:
  "foldl (\<lambda>m (k, _). btree_remove k m) m ks = filter (\<lambda>p. fst p \<notin> fst ` set ks) m"
  unfolding btree_remove_def
proof (induction ks arbitrary: m)
  case (Cons k ks)
  show ?case by (cases k) (simp add: Cons.IH conj_commute)
qed simp

lemma evict_to_ok:
  assumes "pool_ok p"
  shows "pool_ok (evict_to p t)"
proof -
  have "length (filter P (pool_entries p)) \<le> pool_capacity p" for P
    using assms le_trans [OF length_filter_le [of P "pool_entries p"]] by (simp add: pool_ok_def)
  then show ?thesis
    using assms by (auto simp: evict_to_def Let_def evict_loop pool_ok_def btree_ok_def sorted_filter distinct_map_filter)
qed

text \<open>Every pool that the operations can reach.\<close>

inductive pool_step :: "tx_pool \<Rightarrow> tx_pool \<Rightarrow> bool" where
  step_add: "pool_step p (snd (pool_add p e))"
| step_remove: "pool_step p (snd (pool_remove p s n))"
| step_drain: "pool_step p (snd (drain_ready p s n))"
| step_take: "pool_step p (snd (drain_up_to p k))"
| step_evict: "pool_step p (evict_to p t)"

inductive_cases pool_stepE: "pool_step p p'"

lemma pool_step_ok: "pool_step p p' \<Longrightarrow> pool_ok p \<Longrightarrow> pool_ok p' \<and> pool_capacity p' = pool_capacity p"
proof (induction rule: pool_step.induct)
  case (step_add p e)
  then show ?case using pool_add_ok by (auto simp: pool_add_def Let_def split: option.split)
next
  case (step_remove p s n)
  then show ?case using remove_entries_ok by (simp add: pool_remove_def)
next
  case (step_drain p s n)
  then show ?case using drain_loop_ok [where p = p and m = "pool_entries p"] by (simp add: drain_ready_def split_beta)
next
  case (step_take p k)
  have "pool_capacity (snd (foldl (\<lambda>(out, q) k.
           case map_of (pool_entries q) k of
             None \<Rightarrow> (out, q)
           | Some e \<Rightarrow> (out @ [pe_tx e], q\<lparr>pool_entries := btree_remove k (pool_entries q)\<rparr>)) q ks)) = pool_capacity (snd q)"
    for q :: "tx list \<times> tx_pool" and ks
    by (induction ks arbitrary: q) (auto split: option.split prod.split)
  then show ?case using drain_up_to_ok step_take by (simp add: drain_up_to_def Let_def)
next
  case (step_evict p t)
  then show ?case using evict_to_ok by (simp add: evict_to_def Let_def)
qed

subsection \<open>What an offer, a drain and an eviction do\<close>

definition best_offer :: "pool_entry list \<Rightarrow> address \<times> u64 \<Rightarrow> nat \<Rightarrow> bool" where
  "best_offer es key i \<longleftrightarrow> i < length es \<and> offer_key (es ! i) = key \<and>
     (\<forall>j < length es. offer_key (es ! j) = key \<longrightarrow>
        pe_price (es ! j) \<le> pe_price (es ! i) \<and> (j < i \<longrightarrow> pe_price (es ! j) < pe_price (es ! i)))"

definition offer_all :: "tx_pool \<Rightarrow> pool_entry list \<Rightarrow> tx_pool" where
  "offer_all p es = foldl (\<lambda>q e. snd (pool_add q e)) p es"

lemma offer_all_snoc: "offer_all p (es @ [e]) = snd (pool_add (offer_all p es) e)"
  by (simp add: offer_all_def)

lemma offer_all_size:
  "length (pool_entries (offer_all p es)) \<le> length (pool_entries p) + length es \<and>
   pool_capacity (offer_all p es) = pool_capacity p"
proof (induction es rule: rev_induct)
  case (snoc e es)
  then show ?case
    using length_btree_insert [of "offer_key e" e "pool_entries (offer_all p es)"]
    by (auto simp: offer_all_snoc pool_add_def Let_def offer_key_def split: option.split)
qed (simp add: offer_all_def)

lemma pool_add_lookup:
  assumes "length (pool_entries p) < pool_capacity p"
  shows "map_of (pool_entries (snd (pool_add p e))) key =
    (if key = offer_key e \<and> (case map_of (pool_entries p) key of None \<Rightarrow> True | Some x \<Rightarrow> pe_price x < pe_price e)
     then Some e else map_of (pool_entries p) key)"
  using assms by (auto simp: pool_add_def Let_def offer_key_def btree_insert_lookup not_le split: option.split)

lemma best_offer_other: "offer_key e \<noteq> key \<Longrightarrow> best_offer (es @ [e]) key i \<longleftrightarrow> best_offer es key i"
  by (auto simp: best_offer_def nth_append less_Suc_eq split: if_splits)

lemma best_offer_lower:
  "best_offer es key i \<Longrightarrow> pe_price e \<le> pe_price (es ! i) \<Longrightarrow> best_offer (es @ [e]) key i"
  by (auto simp: best_offer_def nth_append less_Suc_eq)

lemma best_offer_higher:
  "best_offer es key i \<Longrightarrow> pe_price (es ! i) < pe_price e \<Longrightarrow> offer_key e = key \<Longrightarrow>
   best_offer (es @ [e]) key (length es)"
  by (fastforce simp: best_offer_def nth_append less_Suc_eq)

lemma best_offer_first:
  "\<forall>x \<in> set es. offer_key x \<noteq> key \<Longrightarrow> offer_key e = key \<Longrightarrow> best_offer (es @ [e]) key (length es)"
  by (auto simp: best_offer_def nth_append less_Suc_eq)

lemma best_offer_nth: "best_offer es key i \<Longrightarrow> (es @ [e]) ! i = es ! i"
  by (simp add: best_offer_def nth_append)

text \<open>
  (C38) The pool keeps the best offers. Offer any entries, in any order, to an empty pool with room for them: under each
  sender and nonce the pool then holds the offer of the highest price, of several such the first; a sender and nonce
  that nobody offered is absent.
\<close>

theorem pool_keeps_best_offers:
  assumes "length es \<le> capacity"
  shows "case map_of (pool_entries (offer_all (TxPool_new capacity) es)) key of
      None \<Rightarrow> \<forall>e \<in> set es. offer_key e \<noteq> key
    | Some e \<Rightarrow> \<exists>i. best_offer es key i \<and> es ! i = e"
  using assms
proof (induction es rule: rev_induct)
  case Nil
  then show ?case by (simp add: offer_all_def TxPool_new_def)
next
  case (snoc e es)
  let ?p = "offer_all (TxPool_new capacity) es"
  have room: "length (pool_entries ?p) < pool_capacity ?p"
    using snoc.prems offer_all_size [of "TxPool_new capacity" es] by (simp add: TxPool_new_def)
  show ?case
  proof (cases "map_of (pool_entries ?p) key")
    case None
    then show ?thesis
      using snoc best_offer_first [of es key e] by (auto simp: offer_all_snoc pool_add_lookup [OF room])
  next
    case (Some x)
    then obtain i where i: "best_offer es key i" "es ! i = x" using snoc by auto
    show ?thesis
    proof (cases "offer_key e = key \<and> pe_price x < pe_price e")
      case True
      then have "best_offer (es @ [e]) key (length es)" using best_offer_higher [OF i(1)] i(2) by simp
      then show ?thesis using True Some by (auto simp: offer_all_snoc pool_add_lookup [OF room] intro!: exI [of _ "length es"])
    next
      case False
      then have "best_offer (es @ [e]) key i"
        using best_offer_other [of e key es i] best_offer_lower [OF i(1), of e] i by (auto simp: not_less)
      then show ?thesis
        using False Some i best_offer_nth [OF i(1), of e]
        by (auto simp: offer_all_snoc pool_add_lookup [OF room] intro!: exI [of _ i])
    qed
  qed
qed

definition demo_offer :: "u64 \<Rightarrow> u256 \<Rightarrow> pool_entry" where
  "demo_offer n price = \<lparr>pe_sender = 1, pe_nonce = n, pe_price = price, pe_tx = demo_tx\<rparr>"

definition demo_offers :: tx_pool where
  "demo_offers = offer_all (TxPool_new 4) [demo_offer 8 20, demo_offer 7 10, demo_offer 7 30]"

lemma demo_offers: "demo_offers = \<lparr>pool_entries = [((1, 7), demo_offer 7 30), ((1, 8), demo_offer 8 20)], pool_capacity = 4\<rparr>"
  by (simp add: demo_offers_def offer_all_def pool_add_def TxPool_new_def demo_offer_def Let_def)

theorem pool_keeps_best_offers_witness:
  "\<exists>i. best_offer [demo_offer 8 20, demo_offer 7 10, demo_offer 7 30] (1, 7) i \<and>
    [demo_offer 8 20, demo_offer 7 10, demo_offer 7 30] ! i = demo_offer 7 30"
  using pool_keeps_best_offers [of "[demo_offer 8 20, demo_offer 7 10, demo_offer 7 30]" 4 "(1, 7)"] demo_offers
  unfolding demo_offers_def by simp

lemma drain_loop_run:
  assumes "\<forall>i < k. map_of m (s, n + word_of_nat i) \<noteq> None"
    and "map_of m (s, n + word_of_nat k) = None" and "unat n + k < 2 ^ 64"
  shows "drain_loop s n out m =
    (Ok (out @ map (\<lambda>i. pe_tx (the (map_of m (s, n + word_of_nat i)))) [0..<k]),
     filter (\<lambda>x. \<forall>i < k. fst x \<noteq> (s, n + word_of_nat i)) m)"
  using assms
proof (induction k arbitrary: n out m)
  case 0
  then show ?case by (subst drain_loop.simps) simp
next
  case (Suc k)
  let ?m = "btree_remove (s, n) m"
  obtain e where e: "map_of m (s, n) = Some e" using Suc.prems(1) by (auto dest: spec [of _ 0])
  have n1: "unat (n + 1) = unat n + 1" using Suc.prems(3) by (simp add: unat_word_ariths)
  then have ca: "checked_add n 1 = Some (n + 1)" using Suc.prems(3) by (simp add: checked_add_def)
  have shift: "n + 1 + word_of_nat i = n + word_of_nat (Suc i)" for i by simp
  have ne: "n + word_of_nat (Suc i) \<noteq> n" if "i \<le> k" for i
  proof -
    have "unat (n + word_of_nat (Suc i)) = unat n + Suc i"
      using that Suc.prems(3) by (simp add: unat_word_ariths unat_of_nat take_bit_nat_eq_self)
    then show ?thesis by (metis add_cancel_right_right nat.distinct(1))
  qed
  have look: "map_of ?m (s, n + 1 + word_of_nat i) = map_of m (s, n + word_of_nat (Suc i))" if "i \<le> k" for i
    using ne [OF that] by (simp add: btree_remove_lookup shift)
  have "drain_loop s (n + 1) (out @ [pe_tx e]) ?m =
    (Ok ((out @ [pe_tx e]) @ map (\<lambda>i. pe_tx (the (map_of ?m (s, n + 1 + word_of_nat i)))) [0..<k]),
     filter (\<lambda>x. \<forall>i < k. fst x \<noteq> (s, n + 1 + word_of_nat i)) ?m)"
    using Suc.prems look n1 by (intro Suc.IH) auto
  moreover have "map (\<lambda>i. pe_tx (the (map_of ?m (s, n + 1 + word_of_nat i)))) [0..<k] =
      map (\<lambda>i. pe_tx (the (map_of m (s, n + word_of_nat i)))) [1..<Suc k]"
    using look by (simp add: map_Suc_upt [symmetric] del: upt_Suc)
  moreover have "filter (\<lambda>x. \<forall>i < k. fst x \<noteq> (s, n + 1 + word_of_nat i)) ?m =
      filter (\<lambda>x. \<forall>i < Suc k. fst x \<noteq> (s, n + word_of_nat i)) m"
    unfolding btree_remove_def filter_filter shift by (rule filter_cong) (auto simp: less_Suc_eq_0_disj)
  moreover have "[0..<Suc k] = 0 # [1..<Suc k]" by (simp add: upt_conv_Cons del: upt_Suc)
  ultimately show ?case
    using e ca by (subst drain_loop.simps) (simp add: Let_def del: upt_Suc)
qed

text \<open>
  (C39) Draining takes exactly the executable run. If the pool holds the nonces n, ..., n + k - 1 of a sender and not the
  nonce n + k, and these nonces do not reach the end of their range, a drain from n returns the k transactions in the
  order of their nonces and removes them and nothing else.
\<close>

theorem drain_takes_the_run:
  assumes "\<forall>i < k. map_of (pool_entries p) (s, n + word_of_nat i) \<noteq> None"
    and "map_of (pool_entries p) (s, n + word_of_nat k) = None" and "unat n + k < 2 ^ 64"
  shows "drain_ready p s n =
    (Ok (map (\<lambda>i. pe_tx (the (map_of (pool_entries p) (s, n + word_of_nat i)))) [0..<k]),
     p\<lparr>pool_entries := filter (\<lambda>x. \<forall>i < k. fst x \<noteq> (s, n + word_of_nat i)) (pool_entries p)\<rparr>)"
  unfolding drain_ready_def drain_loop_run [OF assms] by simp

theorem drain_takes_the_run_witness: "drain_ready demo_offers 1 7 = (Ok [demo_tx, demo_tx], TxPool_new 4)"
proof -
  have "\<forall>i < 2. map_of (pool_entries demo_offers) (1, 7 + word_of_nat i) \<noteq> None"
    by (simp add: demo_offers numeral_2_eq_2 less_Suc_eq)
  moreover have "map_of (pool_entries demo_offers) (1, 7 + word_of_nat 2) = None" by (simp add: demo_offers)
  moreover have "unat (7 :: u64) + 2 < 2 ^ 64" by simp
  ultimately have "drain_ready demo_offers 1 7 =
    (Ok (map (\<lambda>i. pe_tx (the (map_of (pool_entries demo_offers) (1, 7 + word_of_nat i)))) [0..<2]),
     demo_offers\<lparr>pool_entries := filter (\<lambda>x. \<forall>i < 2. fst x \<noteq> (1, 7 + word_of_nat i)) (pool_entries demo_offers)\<rparr>)"
    by (rule drain_takes_the_run)
  moreover have "(\<forall>i < 2. P i) \<longleftrightarrow> P 0 \<and> P 1" for P :: "nat \<Rightarrow> bool" by (auto simp: less_2_cases_iff)
  ultimately show ?thesis by (simp add: demo_offers demo_offer_def TxPool_new_def upt_rec)
qed

text \<open>The last nonce of the range, which the loop cannot pass.\<close>

lemma drain_panics_at_the_last_nonce:
  assumes "map_of (pool_entries p) (s, - 1) \<noteq> None"
  shows "fst (drain_ready p s (- 1)) = Panic"
proof -
  have "unat (- 1 :: u64) = 2 ^ 64 - 1" by (simp add: unsigned_minus_1_eq_mask mask_eq_exp_minus_1)
  then have "checked_add (- 1 :: u64) 1 = None" by (simp add: checked_add_def)
  then show ?thesis using assms by (auto simp: drain_ready_def drain_loop.simps [of s "- 1"] Let_def)
qed

lemma length_filter_keys:
  assumes "distinct (map fst m)" and "K \<subseteq> fst ` set m"
  shows "length (filter (\<lambda>x. fst x \<notin> K) m) = length m - card K"
proof -
  have "length (filter (\<lambda>x. fst x \<notin> K) m) = length (filter (\<lambda>k. k \<notin> K) (map fst m))"
    by (simp add: filter_map o_def)
  also have "\<dots> = card (fst ` set m - K)"
    using assms(1) by (subst distinct_card [symmetric]) (auto intro: arg_cong [of _ _ card])
  also have "\<dots> = card (fst ` set m) - card K" using assms(2) by (intro card_Diff_subset) (auto intro: finite_subset)
  also have "card (fst ` set m) = length m" using distinct_card [OF assms(1)] by simp
  finally show ?thesis .
qed

definition price_list :: "tx_pool \<Rightarrow> ((address \<times> u64) \<times> u256) list" where
  "price_list p = sort_by (\<lambda>a b. snd a \<le> snd b) (map (\<lambda>(k, e). (k, pe_price e)) (pool_entries p))"

lemma price_list:
  assumes "pool_ok p"
  shows "distinct (map fst (price_list p))" and "sorted_wrt (\<lambda>a b. snd a \<le> snd b) (price_list p)"
    and "length (price_list p) = length (pool_entries p)"
    and "set (price_list p) = (\<lambda>(k, e). (k, pe_price e)) ` set (pool_entries p)"
proof -
  have "distinct (map fst (pool_entries p))" using assms by (simp add: pool_ok_def btree_ok_def)
  then show "distinct (map fst (price_list p))" by (simp add: price_list_def distinct_sort_by o_def split_beta)
qed (auto simp: price_list_def intro!: sorted_sort_by)

lemma evict_to_entries:
  "t < length (pool_entries p) \<Longrightarrow> pool_entries (evict_to p t) =
   filter (\<lambda>x. fst x \<notin> fst ` set (take (length (pool_entries p) - t) (price_list p))) (pool_entries p)"
  by (simp add: evict_to_def Let_def evict_loop price_list_def)

lemma evict_to_length:
  assumes "pool_ok p"
  shows "length (pool_entries (evict_to p t)) = min t (length (pool_entries p))"
proof (cases "t < length (pool_entries p)")
  case True
  let ?d = "length (pool_entries p) - t"
  let ?K = "fst ` set (take ?d (price_list p))"
  have "distinct (map fst (take ?d (price_list p)))"
    using price_list(1) [OF assms] by (simp add: take_map [symmetric])
  then have "card ?K = ?d"
    using distinct_card [of "map fst (take ?d (price_list p))"] price_list(3) [OF assms] by simp
  moreover have "?K \<subseteq> fst ` set (pool_entries p)"
    using price_list(4) [OF assms] set_take_subset [of ?d "price_list p"] by (auto simp: split_beta)
  ultimately show ?thesis
    using True assms length_filter_keys [of "pool_entries p" ?K]
    by (simp add: evict_to_entries pool_ok_def btree_ok_def)
next
  case False
  then show ?thesis by (simp add: evict_to_def)
qed

lemma evict_to_prices:
  assumes "pool_ok p" and "x \<in> set (pool_entries (evict_to p t))"
    and "y \<in> set (pool_entries p)" and "y \<notin> set (pool_entries (evict_to p t))"
  shows "pe_price (snd y) \<le> pe_price (snd x)"
proof -
  let ?d = "length (pool_entries p) - t" and ?f = "\<lambda>x. (fst x, pe_price (snd x))"
  have lt: "t < length (pool_entries p)"
    using assms(3,4) by (cases "length (pool_entries p) \<le> t") (simp_all add: evict_to_def)
  have x: "x \<in> set (pool_entries p)" "fst x \<notin> fst ` set (take ?d (price_list p))"
    using assms(2) by (auto simp: evict_to_entries [OF lt])
  have all: "?f z \<in> set (price_list p)" if "z \<in> set (pool_entries p)" for z
    using imageI [OF that, of "\<lambda>(k, e). (k, pe_price e)"] price_list(4) [OF assms(1)] by (simp add: split_beta)
  have inj: "z = z'" if "z \<in> set (price_list p)" "z' \<in> set (price_list p)" "fst z = fst z'" for z z'
    using that price_list(1) [OF assms(1)] by (auto simp: distinct_map dest: inj_onD)
  obtain z where z: "z \<in> set (take ?d (price_list p))" "fst y = fst z"
    using assms(3,4) by (auto simp: evict_to_entries [OF lt])
  have "?f y = z" using inj [OF all [OF assms(3)] in_set_takeD [OF z(1)]] z(2) by simp
  then have "?f y \<in> set (take ?d (price_list p))" using z(1) by simp
  moreover have "?f x \<in> set (drop ?d (price_list p))"
    using all [OF x(1)] x(2) by (metis Un_iff append_take_drop_id fst_conv image_eqI set_append)
  ultimately show ?thesis
    using take_sorted_before [OF price_list(2) [OF assms(1)]] by fastforce
qed

text \<open>
  Eviction drops the cheapest. In every pool that the operations can build from an empty one, eviction to a target
  leaves exactly the target number of entries, or all if there are fewer, in their order and unchanged, and no entry it
  drops offers more than one it keeps.
\<close>

theorem eviction_keeps_the_dearest:
  assumes "pool_step\<^sup>*\<^sup>* (TxPool_new capacity) p"
  shows "length (pool_entries (evict_to p t)) = min t (length (pool_entries p)) \<and>
    (\<exists>P. pool_entries (evict_to p t) = filter P (pool_entries p)) \<and>
    (\<forall>x y. x \<in> set (pool_entries (evict_to p t)) \<and> y \<in> set (pool_entries p) \<and> y \<notin> set (pool_entries (evict_to p t))
      \<longrightarrow> pe_price (snd y) \<le> pe_price (snd x))"
proof -
  have "pool_ok p"
    using assms
  proof (induction rule: rtranclp_induct)
    case base
    show ?case by (simp add: TxPool_new_def pool_ok_def btree_ok_def)
  next
    case (step q r)
    then show ?case using pool_step_ok by blast
  qed
  moreover have "\<exists>P. pool_entries (evict_to p t) = filter P (pool_entries p)"
  proof (cases "t < length (pool_entries p)")
    case True
    show ?thesis unfolding evict_to_entries [OF True] by blast
  next
    case False
    then have "pool_entries (evict_to p t) = filter (\<lambda>_. True) (pool_entries p)" by (simp add: evict_to_def)
    then show ?thesis by blast
  qed
  ultimately show ?thesis using evict_to_length evict_to_prices by blast
qed

theorem eviction_keeps_the_dearest_witness:
  "pool_entries demo_offers = [((1, 7), demo_offer 7 30), ((1, 8), demo_offer 8 20)] \<and>
   length (pool_entries (evict_to demo_offers 1)) = 1"
proof -
  have step: "pool_step\<^sup>*\<^sup>* p (snd (pool_add q e))" if "pool_step\<^sup>*\<^sup>* p q" for p q e
    using that step_add by (rule rtranclp.rtrancl_into_rtrancl)
  have "pool_step\<^sup>*\<^sup>* (TxPool_new 4) demo_offers"
    unfolding demo_offers_def offer_all_def foldl.simps by (intro step rtranclp.rtrancl_refl)
  from eviction_keeps_the_dearest [OF this, of 1] show ?thesis by (simp add: demo_offers)
qed

end
