(* ===== verification/Crosschain.thy ===== *)
theory Crosschain
  imports Crypto
begin

section \<open>Cross-chain primitives\<close>

text \<open>
  \<open>aii-crosschain\<close>: the hash time-locked contract of \<open>htlc.rs\<close> and the federated vault of \<open>federation.rs\<close>. Both are
  state machines without asset movement. The set of used nonces, a \<open>BTreeSet\<close> that is never iterated, is a set.
  The lemmas decide what any sequence of calls on a fresh contract or vault answers.
\<close>

subsection \<open>htlc.rs\<close>

datatype htlc_state = HtlcLocked | HtlcClaimed | HtlcRefunded

record htlc =
  htlc_sender :: address
  htlc_recipient :: address
  htlc_amount :: u256
  secret_hash :: h256
  htlc_timeout :: u64
  htlc_state_of :: htlc_state

datatype htlc_error = AmountZero | SelfLock | NotLocked htlc_state | WrongPreimage | TooEarly u64 u64

definition Htlc_new :: "address \<Rightarrow> address \<Rightarrow> u256 \<Rightarrow> h256 \<Rightarrow> u64 \<Rightarrow> (htlc_error, htlc) result" where
  "Htlc_new sender recipient amount secret timeout =
     (if amount = 0 then Err AmountZero
      else if sender = recipient then Err SelfLock
      else Ok \<lparr>htlc_sender = sender, htlc_recipient = recipient, htlc_amount = amount, secret_hash = secret,
                htlc_timeout = timeout, htlc_state_of = HtlcLocked\<rparr>)"

definition claim :: "crypto \<Rightarrow> htlc \<Rightarrow> byte list \<Rightarrow> (htlc_error, unit) result \<times> htlc" where
  "claim C h preimage =
     (if htlc_state_of h \<noteq> HtlcLocked then (Err (NotLocked (htlc_state_of h)), h)
      else if keccak256 C preimage \<noteq> secret_hash h then (Err WrongPreimage, h)
      else (Ok (), h\<lparr>htlc_state_of := HtlcClaimed\<rparr>))"

definition refund :: "htlc \<Rightarrow> u64 \<Rightarrow> (htlc_error, unit) result \<times> htlc" where
  "refund h now =
     (if htlc_state_of h \<noteq> HtlcLocked then (Err (NotLocked (htlc_state_of h)), h)
      else if now < htlc_timeout h then (Err (TooEarly now (htlc_timeout h)), h)
      else (Ok (), h\<lparr>htlc_state_of := HtlcRefunded\<rparr>))"

definition htlc_is_open :: "htlc \<Rightarrow> bool" where
  "htlc_is_open h \<longleftrightarrow> htlc_state_of h = HtlcLocked"

definition htlc_id :: "crypto \<Rightarrow> htlc \<Rightarrow> h256" where
  "htlc_id C h = keccak256 C (address_bytes (htlc_sender h) @ address_bytes (htlc_recipient h) @
     to_be_bytes 32 (htlc_amount h) @ h256_bytes (secret_hash h) @ to_be_bytes 8 (htlc_timeout h))"

subsection \<open>federation.rs\<close>

definition MAX_FEDERATION_SIZE :: nat where
  "MAX_FEDERATION_SIZE = 64"

record federation_set =
  fed_pubkeys :: "bls_public_key list"
  fed_threshold :: nat

datatype bridge_error =
    EmptyFederation
  | FederationTooLarge nat nat
  | InvalidThreshold nat nat
  | SignerBitmapOversized nat nat
  | BelowThreshold nat nat
  | InvalidAggregateSig
  | NonceReused u64

definition FederationSet_new :: "bls_public_key list \<Rightarrow> nat \<Rightarrow> (bridge_error, federation_set) result" where
  "FederationSet_new pks threshold =
     (if pks = [] then Err EmptyFederation
      else if MAX_FEDERATION_SIZE < length pks then Err (FederationTooLarge (length pks) MAX_FEDERATION_SIZE)
      else if threshold = 0 \<or> length pks < threshold then Err (InvalidThreshold threshold (length pks))
      else Ok \<lparr>fed_pubkeys = pks, fed_threshold = threshold\<rparr>)"

definition federation_id :: "crypto \<Rightarrow> federation_set \<Rightarrow> h256" where
  "federation_id C f = keccak256 C (to_be_bytes 8 (word_of_nat (fed_threshold f) :: u64) @
     concat (map (\<lambda>pk. to_be_bytes 48 (bls_pk_to_compressed C pk)) (fed_pubkeys f)))"

record lock_receipt =
  src_chain_id :: u64
  lr_asset :: h256
  lr_amount :: u256
  lr_recipient :: address
  lr_nonce :: u64

definition receipt_digest :: "crypto \<Rightarrow> lock_receipt \<Rightarrow> h256 \<Rightarrow> h256" where
  "receipt_digest C r fid = keccak256 C (h256_bytes fid @ to_be_bytes 8 (src_chain_id r) @ h256_bytes (lr_asset r) @
     to_be_bytes 32 (lr_amount r) @ address_bytes (lr_recipient r) @ to_be_bytes 8 (lr_nonce r))"

record attestation_bundle =
  ab_receipt :: lock_receipt
  aggregated_sig :: bls_signature
  ab_bitmap :: u64

record vault =
  vault_federation :: federation_set
  used_nonces :: "u64 set"

definition Vault_new :: "federation_set \<Rightarrow> vault" where
  "Vault_new f = \<lparr>vault_federation = f, used_nonces = {}\<rparr>"

definition signer_keys :: "federation_set \<Rightarrow> u64 \<Rightarrow> bls_public_key list" where
  "signer_keys f bitmap = map (\<lambda>i. fed_pubkeys f ! i) (filter (\<lambda>i. test_bit_src bitmap i) [0..<length (fed_pubkeys f)])"

definition release :: "crypto \<Rightarrow> vault \<Rightarrow> attestation_bundle \<Rightarrow> (bridge_error, lock_receipt) result \<times> vault" where
  "release C v b =
     (let f = vault_federation v; n = length (fed_pubkeys f); r = ab_receipt b; signers = count_ones (ab_bitmap b)
      in if ab_bitmap b \<noteq> 0 \<and> n \<le> ilog2 (ab_bitmap b) then (Err (SignerBitmapOversized (ilog2 (ab_bitmap b)) n), v)
         else if signers < fed_threshold f then (Err (BelowThreshold signers (fed_threshold f)), v)
         else if lr_nonce r \<in> used_nonces v then (Err (NonceReused (lr_nonce r)), v)
         else case map_err (\<lambda>_. InvalidAggregateSig)
                (fast_aggregate_verify C (aggregated_sig b) (h256_bytes (receipt_digest C r (federation_id C f)))
                   (signer_keys f (ab_bitmap b))) of
                Ok _ \<Rightarrow> (Ok r, v\<lparr>used_nonces := insert (lr_nonce r) (used_nonces v)\<rparr>)
              | Err e \<Rightarrow> (Err e, v)
              | Panic \<Rightarrow> (Panic, v))"

subsection \<open>A contract settles once\<close>

datatype htlc_call = CallClaim "byte list" | CallRefund u64

fun htlc_step :: "crypto \<Rightarrow> htlc \<Rightarrow> htlc_call \<Rightarrow> (htlc_error, unit) result \<times> htlc" where
  "htlc_step C h (CallClaim p) = claim C h p"
| "htlc_step C h (CallRefund now) = refund h now"

fun htlc_run :: "crypto \<Rightarrow> htlc \<Rightarrow> htlc_call list \<Rightarrow> (htlc_error, unit) result list \<times> htlc" where
  "htlc_run C h [] = ([], h)"
| "htlc_run C h (c # cs) =
     (let (r, h') = htlc_step C h c; (rs, h'') = htlc_run C h' cs in (r # rs, h''))"

text \<open>What a locked contract answers to a call that does not settle it, and the state that a settling call leaves.\<close>

fun settles :: "crypto \<Rightarrow> htlc \<Rightarrow> htlc_call \<Rightarrow> bool" where
  "settles C h (CallClaim p) \<longleftrightarrow> keccak256 C p = secret_hash h"
| "settles C h (CallRefund now) \<longleftrightarrow> htlc_timeout h \<le> now"

fun refusal :: "htlc \<Rightarrow> htlc_call \<Rightarrow> htlc_error" where
  "refusal h (CallClaim p) = WrongPreimage"
| "refusal h (CallRefund now) = TooEarly now (htlc_timeout h)"

fun settled :: "htlc_call \<Rightarrow> htlc_state" where
  "settled (CallClaim p) = HtlcClaimed"
| "settled (CallRefund now) = HtlcRefunded"

lemma htlc_step_locked:
  "htlc_state_of h = HtlcLocked \<Longrightarrow> htlc_step C h c =
    (if settles C h c then (Ok (), h\<lparr>htlc_state_of := settled c\<rparr>) else (Err (refusal h c), h))"
  by (cases c) (auto simp: claim_def refund_def)

lemma htlc_step_settled: "htlc_state_of h \<noteq> HtlcLocked \<Longrightarrow> htlc_step C h c = (Err (NotLocked (htlc_state_of h)), h)"
  by (cases c) (auto simp: claim_def refund_def)

lemma htlc_run_settled:
  "htlc_state_of h \<noteq> HtlcLocked \<Longrightarrow> htlc_run C h cs = (map (\<lambda>_. Err (NotLocked (htlc_state_of h))) cs, h)"
  by (induction cs) (auto simp: htlc_step_settled)

lemma htlc_run_waiting:
  "htlc_state_of h = HtlcLocked \<Longrightarrow> \<forall>c \<in> set cs. \<not> settles C h c \<Longrightarrow>
   htlc_run C h (cs @ ds) = (map (\<lambda>c. Err (refusal h c)) cs @ fst (htlc_run C h ds), snd (htlc_run C h ds))"
  by (induction cs) (auto simp: htlc_step_locked split_beta)

lemma settled_not_locked [simp]: "settled c \<noteq> HtlcLocked"
  by (cases c) auto

text \<open>
  A contract settles once, by its first good call. Make any calls on a new contract, a claim being good when its
  preimage has the secret hash and a refund when its time has reached the timeout. Every call before the first good one
  is refused for its own reason and changes nothing, the first good one succeeds and fixes the outcome, and every later
  call, good or not, is answered with that outcome; with no good call the contract stays locked.
\<close>

theorem htlc_settles_once:
  assumes "Htlc_new sender recipient amount secret timeout = Ok h"
  shows "htlc_run C h cs =
    (case dropWhile (\<lambda>c. \<not> settles C h c) cs of
       [] \<Rightarrow> (map (\<lambda>c. Err (refusal h c)) cs, h)
     | c # ds \<Rightarrow> (map (\<lambda>c. Err (refusal h c)) (takeWhile (\<lambda>c. \<not> settles C h c) cs) @
                  Ok () # map (\<lambda>_. Err (NotLocked (settled c))) ds, h\<lparr>htlc_state_of := settled c\<rparr>))"
proof -
  let ?w = "takeWhile (\<lambda>c. \<not> settles C h c) cs" and ?d = "dropWhile (\<lambda>c. \<not> settles C h c) cs"
  have locked: "htlc_state_of h = HtlcLocked" using assms by (auto simp: Htlc_new_def split: if_splits)
  have run: "htlc_run C h cs = (map (\<lambda>c. Err (refusal h c)) ?w @ fst (htlc_run C h ?d), snd (htlc_run C h ?d))"
    using htlc_run_waiting [OF locked, of ?w C ?d] by (auto dest: set_takeWhileD)
  show ?thesis
  proof (cases ?d)
    case Nil
    then have w: "?w = cs" by (metis append_Nil2 takeWhile_dropWhile_id)
    show ?thesis unfolding run Nil w by simp
  next
    case (Cons c ds)
    then have "settles C h c" using hd_dropWhile [of "\<lambda>c. \<not> settles C h c" cs] by auto
    then show ?thesis using run Cons by (simp add: htlc_step_locked [OF locked] htlc_run_settled)
  qed
qed

theorem htlc_settles_once_witness:
  "case Htlc_new 1 2 100 7 50 of
     Ok h \<Rightarrow> fst (htlc_run demo_crypto h [CallRefund 49, CallClaim [6], CallClaim [7], CallRefund 60]) =
             [Err (TooEarly 49 50), Err WrongPreimage, Ok (), Err (NotLocked HtlcClaimed)]
   | _ \<Rightarrow> False"
proof -
  obtain h where h: "Htlc_new 1 2 100 7 50 = Ok h" by (simp add: Htlc_new_def)
  then have f: "secret_hash h = 7" "htlc_timeout h = 50" by (auto simp: Htlc_new_def)
  have k: "keccak256 demo_crypto [6] = 6" "keccak256 demo_crypto [7] = 7"
    by (simp_all add: keccak256_def demo_crypto_def from_be_bytes_def be_val_def)
  show ?thesis
    using htlc_settles_once [OF h, of demo_crypto "[CallRefund 49, CallClaim [6], CallClaim [7], CallRefund 60]"] h f k
    by simp
qed

subsection \<open>Replay protection\<close>

text \<open>
  A machine that accepts a request when it is valid in itself and its key has not been used, and then marks the key:
  over any sequence of requests exactly the first valid one of every key is accepted.
\<close>

locale replay_guard =
  fixes inv :: "'v \<Rightarrow> bool"
    and used :: "'v \<Rightarrow> 'k set"
    and valid :: "'b \<Rightarrow> bool"
    and key :: "'b \<Rightarrow> 'k"
    and out :: "'b \<Rightarrow> 'r"
    and step :: "'v \<Rightarrow> 'b \<Rightarrow> ('e, 'r) result \<times> 'v"
  assumes step_inv: "inv v \<Longrightarrow> inv (snd (step v b))"
    and step_ok: "inv v \<Longrightarrow> fst (step v b) = Ok r \<longleftrightarrow> r = out b \<and> valid b \<and> key b \<notin> used v"
    and step_used: "inv v \<Longrightarrow> used (snd (step v b)) = (if valid b then insert (key b) (used v) else used v)"
begin

lemma state_after:
  "inv v \<Longrightarrow> inv (foldl (\<lambda>w b. snd (step w b)) v bs) \<and>
   used (foldl (\<lambda>w b. snd (step w b)) v bs) = used v \<union> key ` {b \<in> set bs. valid b}"
proof (induction bs arbitrary: v)
  case (Cons b bs)
  show ?case using Cons.IH [OF step_inv [OF Cons.prems, of b]] step_used [OF Cons.prems, of b] by auto
qed simp

lemma accepts_first:
  assumes "inv v" and "used v = {}"
  shows "fst (step (foldl (\<lambda>w b. snd (step w b)) v bs) b) = Ok r \<longleftrightarrow>
    r = out b \<and> valid b \<and> (\<forall>b' \<in> set bs. valid b' \<longrightarrow> key b' \<noteq> key b)"
  using state_after [OF assms(1), of bs] assms(2) step_ok [of "foldl (\<lambda>w b. snd (step w b)) v bs" b r]
  by (auto simp: image_iff)

end

definition attested :: "crypto \<Rightarrow> federation_set \<Rightarrow> attestation_bundle \<Rightarrow> bool" where
  "attested C f b \<longleftrightarrow> bits_of (ab_bitmap b) \<subseteq> {..<length (fed_pubkeys f)} \<and>
     fed_threshold f \<le> card (bits_of (ab_bitmap b)) \<and>
     fast_aggregate_verify C (aggregated_sig b) (h256_bytes (receipt_digest C (ab_receipt b) (federation_id C f)))
       (map ((!) (fed_pubkeys f)) (sorted_list_of_set (bits_of (ab_bitmap b)))) = Ok ()"

definition guards :: "federation_set \<Rightarrow> vault \<Rightarrow> bool" where
  "guards f v \<longleftrightarrow> vault_federation v = f \<and> length (fed_pubkeys f) \<le> 64"

lemma FederationSet_new_size: "FederationSet_new pks t = Ok f \<Longrightarrow> length (fed_pubkeys f) \<le> 64"
  by (auto simp: FederationSet_new_def MAX_FEDERATION_SIZE_def split: if_splits)

lemma signer_keys_bits:
  assumes "length (fed_pubkeys f) \<le> 64" and "bits_of w \<subseteq> {..<length (fed_pubkeys f)}"
  shows "signer_keys f w = map ((!) (fed_pubkeys f)) (sorted_list_of_set (bits_of w))"
proof -
  have "filter (test_bit_src w) [0..<length (fed_pubkeys f)] = filter (bit w) [0..<length (fed_pubkeys f)]"
    using assms(1) by (intro filter_cong) auto
  moreover have "sorted_list_of_set (bits_of w) = filter (bit w) [0..<length (fed_pubkeys f)]"
    using assms(2) by (intro sorted_distinct_set_unique) (auto simp: sorted_wrt_filter bits_of_def)
  ultimately show ?thesis by (simp add: signer_keys_def)
qed

lemma release_eq:
  assumes "guards f v"
  shows "fst (release C v b) = Ok r \<longleftrightarrow> r = ab_receipt b \<and> attested C f b \<and> lr_nonce (ab_receipt b) \<notin> used_nonces v"
    and "snd (release C v b) =
      (if attested C f b then v\<lparr>used_nonces := insert (lr_nonce (ab_receipt b)) (used_nonces v)\<rparr> else v)"
    and "fst (release C v b) \<noteq> Panic"
proof -
  have oversized: "ab_bitmap b \<noteq> 0 \<and> length (fed_pubkeys f) \<le> ilog2 (ab_bitmap b) \<longleftrightarrow>
      \<not> bits_of (ab_bitmap b) \<subseteq> {..<length (fed_pubkeys f)}"
    using ilog2_less_iff [of "ab_bitmap b" "length (fed_pubkeys f)"] by (cases "ab_bitmap b = 0") auto
  note parts = oversized count_ones_card signer_keys_bits attested_def release_def Let_def result_simps
  have f: "vault_federation v = f" "length (fed_pubkeys f) \<le> 64" using assms by (auto simp: guards_def)
  have keep: "v\<lparr>used_nonces := insert n (used_nonces v)\<rparr> = v" if "n \<in> used_nonces v" for n
    using that by (simp add: insert_absorb)
  show "fst (release C v b) = Ok r \<longleftrightarrow> r = ab_receipt b \<and> attested C f b \<and> lr_nonce (ab_receipt b) \<notin> used_nonces v"
    using f by (auto simp: parts split: result.splits)
  show "snd (release C v b) =
      (if attested C f b then v\<lparr>used_nonces := insert (lr_nonce (ab_receipt b)) (used_nonces v)\<rparr> else v)"
    using f keep by (auto simp: parts split: result.splits)
  show "fst (release C v b) \<noteq> Panic"
    using f by (auto simp: parts split: result.splits)
qed

interpretation bridge: replay_guard "guards f" used_nonces "attested C f" "\<lambda>b. lr_nonce (ab_receipt b)" ab_receipt "release C"
proof
  fix v b r
  assume v: "guards f v"
  show "guards f (snd (release C v b))" using release_eq(2) [OF v, of C b] v by (simp add: guards_def)
  show "fst (release C v b) = Ok r \<longleftrightarrow> r = ab_receipt b \<and> attested C f b \<and> lr_nonce (ab_receipt b) \<notin> used_nonces v"
    by (rule release_eq(1) [OF v])
  show "used_nonces (snd (release C v b)) =
      (if attested C f b then insert (lr_nonce (ab_receipt b)) (used_nonces v) else used_nonces v)"
    using release_eq(2) [OF v, of C b] by simp
qed

definition vault_after :: "crypto \<Rightarrow> federation_set \<Rightarrow> attestation_bundle list \<Rightarrow> vault" where
  "vault_after C f bs = foldl (\<lambda>v b. snd (release C v b)) (Vault_new f) bs"

lemma guards_new: "FederationSet_new pks t = Ok f \<Longrightarrow> guards f (Vault_new f)"
  using FederationSet_new_size by (simp add: guards_def Vault_new_def)

text \<open>
  (C40) A vault releases every attested lock once. Call a bundle attested when the bits of its bitmap are indices of the
  federation, at least the threshold of them are set, and its signature verifies over the digest of the receipt under
  exactly the keys at these indices. After any bundles presented to a new vault, the next bundle is released, with its
  own receipt, if and only if it is attested and no earlier attested bundle had its nonce; no call panics.
\<close>

theorem vault_releases_once:
  assumes "FederationSet_new pks t = Ok f"
  shows "(fst (release C (vault_after C f bs) b) = Ok r \<longleftrightarrow> r = ab_receipt b \<and> attested C f b \<and>
      (\<forall>b' \<in> set bs. attested C f b' \<longrightarrow> lr_nonce (ab_receipt b') \<noteq> lr_nonce (ab_receipt b))) \<and>
    fst (release C (vault_after C f bs) b) \<noteq> Panic"
proof
  note v = guards_new [OF assms]
  show "fst (release C (vault_after C f bs) b) = Ok r \<longleftrightarrow> r = ab_receipt b \<and> attested C f b \<and>
      (\<forall>b' \<in> set bs. attested C f b' \<longrightarrow> lr_nonce (ab_receipt b') \<noteq> lr_nonce (ab_receipt b))"
    unfolding vault_after_def using v by (rule bridge.accepts_first) (simp add: Vault_new_def)
  show "fst (release C (vault_after C f bs) b) \<noteq> Panic"
    unfolding vault_after_def by (rule release_eq(3) [OF conjunct1 [OF bridge.state_after [OF v]]])
qed

definition demo_receipt :: lock_receipt where
  "demo_receipt = \<lparr>src_chain_id = 1, lr_asset = 0, lr_amount = 500, lr_recipient = 9, lr_nonce = 4\<rparr>"

definition demo_federation :: federation_set where
  "demo_federation = \<lparr>fed_pubkeys = map (\<lambda>i. bls_public_key_of demo_crypto (BlsSecretKey (word_of_nat (Suc i)))) [0..<3],
     fed_threshold = 2\<rparr>"

lemma demo_federation_new: "FederationSet_new (fed_pubkeys demo_federation) 2 = Ok demo_federation"
  by (simp add: FederationSet_new_def demo_federation_def MAX_FEDERATION_SIZE_def)

lemma demo_bits: "bits_of (3 :: u64) = {0, 1}"
  unfolding bits_of_eq_filter by code_simp

lemma demo_attested: "attested demo_crypto demo_federation \<lparr>ab_receipt = demo_receipt, aggregated_sig = BlsSignature 3, ab_bitmap = 3\<rparr>"
  by (simp add: attested_def demo_bits demo_federation_def fast_aggregate_verify_def) (simp add: demo_crypto_def)

theorem vault_releases_once_witness:
  "let b = \<lparr>ab_receipt = demo_receipt, aggregated_sig = BlsSignature 3, ab_bitmap = 3\<rparr>
   in fst (release demo_crypto (vault_after demo_crypto demo_federation []) b) = Ok demo_receipt \<and>
      fst (release demo_crypto (vault_after demo_crypto demo_federation [b]) b) \<noteq> Ok demo_receipt"
  using vault_releases_once [OF demo_federation_new, of demo_crypto "[]" "\<lparr>ab_receipt = demo_receipt, aggregated_sig = BlsSignature 3, ab_bitmap = 3\<rparr>" demo_receipt]
    vault_releases_once [OF demo_federation_new, of demo_crypto "[\<lparr>ab_receipt = demo_receipt, aggregated_sig = BlsSignature 3, ab_bitmap = 3\<rparr>]" "\<lparr>ab_receipt = demo_receipt, aggregated_sig = BlsSignature 3, ab_bitmap = 3\<rparr>" demo_receipt]
    demo_attested
  by (simp add: Let_def)

lemma signed_bundle_releases:
  assumes "bls_signs C" and "bls_aggregates C" and "FederationSet_new pks t = Ok f" and "guards f v"
    and "bits_of w \<subseteq> {..<length pks}" and "t \<le> card (bits_of w)"
    and "\<forall>i \<in> bits_of w. pks ! i = bls_public_key_of C (sk i)" and "lr_nonce r \<notin> used_nonces v"
    and sigs_def: "sigs = map (\<lambda>i. bls_sign C (sk i) (h256_bytes (receipt_digest C r (federation_id C f))))
      (sorted_list_of_set (bits_of w))"
  shows "\<exists>a. aggregate_signatures C sigs = Ok a \<and>
    release C v \<lparr>ab_receipt = r, aggregated_sig = a, ab_bitmap = w\<rparr> =
      (Ok r, v\<lparr>used_nonces := insert (lr_nonce r) (used_nonces v)\<rparr>)"
proof -
  let ?is = "sorted_list_of_set (bits_of w)" and ?m = "h256_bytes (receipt_digest C r (federation_id C f))"
  have f: "fed_pubkeys f = pks" "fed_threshold f = t" "0 < t"
    using assms(3) by (auto simp: FederationSet_new_def split: if_splits)
  then have ne: "?is \<noteq> []" using assms(6) by auto
  have in_bits: "?is ! i \<in> bits_of w" if "i < length ?is" for i
    using nth_mem [OF that] by simp
  have ver: "\<forall>i < length sigs. bls_verify C (sigs ! i) ?m (map ((!) pks) ?is ! i) = Ok ()"
    unfolding sigs_def length_map
  proof (intro allI impI)
    fix i assume i: "i < length ?is"
    show "bls_verify C (map (\<lambda>i. bls_sign C (sk i) ?m) ?is ! i) ?m (map ((!) pks) ?is ! i) = Ok ()"
      using bls_verify_sign [OF assms(1)] assms(7) in_bits [OF i] i by (simp del: length_sorted_list_of_set)
  qed
  obtain a where a: "aggregate_signatures C sigs = Ok a" "fast_aggregate_verify C a ?m (map ((!) pks) ?is) = Ok ()"
  proof (rule aggregate_then_verify [OF assms(2)])
    show "sigs \<noteq> []" "length sigs = length (map ((!) pks) ?is)" using ne by (simp_all add: sigs_def)
  qed (use ver in auto)
  let ?b = "\<lparr>ab_receipt = r, aggregated_sig = a, ab_bitmap = w\<rparr>"
  have "attested C f ?b" using a(2) assms(5,6) by (simp add: attested_def f)
  then have "release C v ?b = (Ok r, v\<lparr>used_nonces := insert (lr_nonce r) (used_nonces v)\<rparr>)"
    using release_eq(1) [OF assms(4), of C ?b r] release_eq(2) [OF assms(4), of C ?b] assms(8) by (intro prod_eqI) simp_all
  then show ?thesis using a(1) by blast
qed

text \<open>
  Any threshold of signers opens the vault. When the holders of the keys at a set of indices that reaches the
  threshold sign the digest of a receipt whose nonce is fresh, their signatures aggregate, and the bundle with the
  aggregate and the bitmap of these indices is released; the nonce is then used up.
\<close>

theorem threshold_of_signers_releases:
  assumes "bls_signs C" and "bls_aggregates C" and "FederationSet_new pks t = Ok f"
    and "bits_of w \<subseteq> {..<length pks}" and "t \<le> card (bits_of w)"
    and "\<forall>i \<in> bits_of w. pks ! i = bls_public_key_of C (sk i)" and "lr_nonce r \<notin> used_nonces (vault_after C f bs)"
  shows "\<exists>a. aggregate_signatures C (map (\<lambda>i. bls_sign C (sk i) (h256_bytes (receipt_digest C r (federation_id C f))))
      (sorted_list_of_set (bits_of w))) = Ok a \<and>
    release C (vault_after C f bs) \<lparr>ab_receipt = r, aggregated_sig = a, ab_bitmap = w\<rparr> =
      (Ok r, (vault_after C f bs)\<lparr>used_nonces := insert (lr_nonce r) (used_nonces (vault_after C f bs))\<rparr>)"
proof -
  have "guards f (vault_after C f bs)"
    unfolding vault_after_def by (rule conjunct1 [OF bridge.state_after [OF guards_new [OF assms(3)]]])
  from signed_bundle_releases [OF assms(1,2,3) this assms(4-7) refl] show ?thesis .
qed

theorem threshold_of_signers_releases_witness:
  "\<exists>a. fst (release demo_crypto (vault_after demo_crypto demo_federation [])
     \<lparr>ab_receipt = demo_receipt, aggregated_sig = a, ab_bitmap = 3\<rparr>) = Ok demo_receipt"
proof -
  have "\<forall>i \<in> bits_of (3 :: u64). fed_pubkeys demo_federation ! i =
      bls_public_key_of demo_crypto (BlsSecretKey (word_of_nat (Suc i)))"
    by (simp add: demo_bits demo_federation_def)
  moreover have "bits_of (3 :: u64) \<subseteq> {..<length (fed_pubkeys demo_federation)}" "2 \<le> card (bits_of (3 :: u64))"
    by (simp_all add: demo_bits demo_federation_def)
  ultimately obtain a where "release demo_crypto (vault_after demo_crypto demo_federation [])
      \<lparr>ab_receipt = demo_receipt, aggregated_sig = a, ab_bitmap = 3\<rparr> = (Ok demo_receipt,
        (vault_after demo_crypto demo_federation [])\<lparr>used_nonces := insert (lr_nonce demo_receipt)
          (used_nonces (vault_after demo_crypto demo_federation []))\<rparr>)"
    using threshold_of_signers_releases [OF demo_bls_signs demo_bls_aggregates demo_federation_new,
        of 3 "\<lambda>i. BlsSecretKey (word_of_nat (Suc i))" demo_receipt "[]"]
    by (auto simp: vault_after_def Vault_new_def)
  then show ?thesis by (intro exI [of _ a]) simp
qed

text \<open>
  One key can stand for two signers. A federation may list the same key twice, and its holder alone then meets a
  threshold of two: two copies of one signature are a valid attestation.
\<close>

theorem one_holder_meets_threshold:
  assumes "bls_signs C" and "bls_aggregates C" and "pk = bls_public_key_of C k"
  shows "\<exists>f a. FederationSet_new [pk, pk] 2 = Ok f \<and>
    aggregate_signatures C (replicate 2 (bls_sign C k (h256_bytes (receipt_digest C r (federation_id C f))))) = Ok a \<and>
    fst (release C (Vault_new f) \<lparr>ab_receipt = r, aggregated_sig = a, ab_bitmap = 3\<rparr>) = Ok r"
proof -
  obtain f where f: "FederationSet_new [pk, pk] 2 = Ok f"
    by (simp add: FederationSet_new_def MAX_FEDERATION_SIZE_def)
  have "\<forall>i \<in> bits_of (3 :: u64). [pk, pk] ! i = bls_public_key_of C ((\<lambda>_. k) i)"
    by (simp add: demo_bits assms(3))
  moreover have "bits_of (3 :: u64) \<subseteq> {..<length [pk, pk]}" "2 \<le> card (bits_of (3 :: u64))"
    by (simp_all add: demo_bits)
  moreover have "lr_nonce r \<notin> used_nonces (Vault_new f)" by (simp add: Vault_new_def)
  moreover have "replicate 2 s = map (\<lambda>i. s) (sorted_list_of_set (bits_of (3 :: u64)))" for s :: bls_signature
    by (simp add: demo_bits numeral_2_eq_2)
  ultimately show ?thesis
    using signed_bundle_releases [OF assms(1,2) f guards_new [OF f], of 3 "\<lambda>_. k" r] f by fastforce
qed

theorem one_holder_meets_threshold_witness:
  "\<exists>f a. FederationSet_new (replicate 2 (bls_public_key_of demo_crypto (BlsSecretKey 5))) 2 = Ok f \<and>
    fst (release demo_crypto (Vault_new f) \<lparr>ab_receipt = demo_receipt, aggregated_sig = a, ab_bitmap = 3\<rparr>) = Ok demo_receipt"
  using one_holder_meets_threshold [OF demo_bls_signs demo_bls_aggregates refl, of "BlsSecretKey 5" demo_receipt]
  by (auto simp: numeral_2_eq_2)

end
