(* ===== verification/Sync.thy ===== *)
theory Sync
  imports Block
begin

section \<open>Block synchronisation\<close>

text \<open>
  \<open>aii-net-sync\<close>: the state machine that turns the events of one peer into requests. An error for an event that the
  state does not expect keeps the state and the event themselves where the code keeps their printed form. The lemmas
  show that no event panics and that an honest peer brings the machine to its tip.
\<close>

subsection \<open>The machine\<close>

datatype sync_state = SyncIdle | SyncHeaders u64 u64 | SyncBodies "h256 list" | SyncDone

datatype sync_event =
  PeerAnnouncedTip u64 | HeadersReceived "header list" | BodyReceived block | PeerDisconnected

datatype sync_action = RequestHeaders u64 u32 | RequestBody h256 | PersistBlock block | ActionIdle

datatype sync_error =
  EmptyHeaderBatch | HeaderOutOfOrder u64 u64 | UnexpectedBody h256 | SyncUnexpected sync_state sync_event

record sync_engine =
  sync_state_of :: sync_state
  headers_buffer :: "header list"
  local_height :: u64

definition HEADER_BATCH :: u32 where
  "HEADER_BATCH = 192"

definition SyncEngine_new :: "u64 \<Rightarrow> sync_engine" where
  "SyncEngine_new h = \<lparr>sync_state_of = SyncIdle, headers_buffer = [], local_height = h\<rparr>"

fun out_of_order :: "u64 \<Rightarrow> header list \<Rightarrow> (u64 \<times> u64) option" where
  "out_of_order n [] = None"
| "out_of_order n (h # hs) = (if number h \<noteq> n then Some (n, number h) else out_of_order (n + 1) hs)"

definition handle_tip :: "u64 \<Rightarrow> sync_engine \<Rightarrow> (sync_error, sync_action) result \<times> sync_engine" where
  "handle_tip tip e =
     (if tip \<le> local_height e then (Ok ActionIdle, e\<lparr>sync_state_of := SyncDone\<rparr>)
      else (Ok (RequestHeaders (local_height e + 1) HEADER_BATCH),
            e\<lparr>sync_state_of := SyncHeaders tip (local_height e + 1)\<rparr>))"

definition handle_headers ::
    "crypto \<Rightarrow> rlp \<Rightarrow> u64 \<Rightarrow> u64 \<Rightarrow> header list \<Rightarrow> sync_engine \<Rightarrow> (sync_error, sync_action) result \<times> sync_engine" where
  "handle_headers C R target next batch e =
     (if batch = [] then (Err EmptyHeaderBatch, e)
      else case out_of_order next batch of
             Some (expected, got) \<Rightarrow> (Err (HeaderOutOfOrder expected got), e)
           | None \<Rightarrow>
               let e' = e\<lparr>headers_buffer := headers_buffer e @ batch\<rparr>;
                   new_next = next + word_of_nat (length batch)
               in if target < new_next then
                    let pending = map (Header_hash C R) (headers_buffer e')
                    in (case pending of
                          [] \<Rightarrow> (Panic, e')
                        | first # _ \<Rightarrow> (Ok (RequestBody first), e'\<lparr>sync_state_of := SyncBodies pending\<rparr>))
                  else (Ok (RequestHeaders new_next HEADER_BATCH), e'\<lparr>sync_state_of := SyncHeaders target new_next\<rparr>))"

definition handle_body ::
    "crypto \<Rightarrow> rlp \<Rightarrow> h256 list \<Rightarrow> block \<Rightarrow> sync_engine \<Rightarrow> (sync_error, sync_action) result \<times> sync_engine" where
  "handle_body C R pending b e =
     (case pending of
        [] \<Rightarrow> (Err (UnexpectedBody (Block_hash C R b)), e)
      | first # rest \<Rightarrow>
          if first \<noteq> Block_hash C R b then (Err (UnexpectedBody (Block_hash C R b)), e)
          else let e' = e\<lparr>local_height := number (block_header b)\<rparr>
               in (case rest of
                     [] \<Rightarrow> (Ok (PersistBlock b), e'\<lparr>sync_state_of := SyncDone, headers_buffer := []\<rparr>)
                   | next_hash # _ \<Rightarrow> (Ok (RequestBody next_hash), e'\<lparr>sync_state_of := SyncBodies rest\<rparr>)))"

definition sync_handle ::
    "crypto \<Rightarrow> rlp \<Rightarrow> sync_engine \<Rightarrow> sync_event \<Rightarrow> (sync_error, sync_action) result \<times> sync_engine" where
  "sync_handle C R e ev =
     (case (sync_state_of e, ev) of
        (SyncIdle, PeerAnnouncedTip tip) \<Rightarrow> handle_tip tip e
      | (SyncHeaders target next, HeadersReceived batch) \<Rightarrow> handle_headers C R target next batch e
      | (SyncBodies pending, BodyReceived b) \<Rightarrow> handle_body C R pending b e
      | (_, PeerDisconnected) \<Rightarrow> (Ok ActionIdle, e\<lparr>sync_state_of := SyncIdle, headers_buffer := []\<rparr>)
      | (st, _) \<Rightarrow> (Err (SyncUnexpected st ev), e))"

fun sync_run ::
    "crypto \<Rightarrow> rlp \<Rightarrow> sync_engine \<Rightarrow> sync_event list \<Rightarrow> (sync_error, sync_action) result list \<times> sync_engine" where
  "sync_run C R e [] = ([], e)"
| "sync_run C R e (ev # evs) =
     (let (r, e') = sync_handle C R e ev; (rs, e'') = sync_run C R e' evs in (r # rs, e''))"

subsection \<open>Totality\<close>

lemma handlers_no_panic:
  "fst (handle_tip tip e) \<noteq> Panic" "fst (handle_body C R pending b e) \<noteq> Panic"
  "fst (handle_headers C R target next batch e) \<noteq> Panic"
  by (simp_all add: handle_tip_def handle_body_def handle_headers_def Let_def split: list.split option.split)

theorem sync_never_panics: "Panic \<notin> set (fst (sync_run C R e evs))"
proof (induction evs arbitrary: e)
  case (Cons ev evs)
  have "fst (sync_handle C R e ev) \<noteq> Panic"
    using handlers_no_panic by (cases "sync_state_of e"; cases ev) (simp_all add: sync_handle_def)
  then show ?case using Cons.IH by (simp add: split_beta eq_commute [of Panic])
qed simp

text \<open>A machine that has reached a tip serves no further one: only a disconnection leads on.\<close>

theorem done_refuses_the_next_tip:
  "sync_state_of e = SyncDone \<Longrightarrow> ev \<noteq> PeerDisconnected \<Longrightarrow>
   sync_handle C R e ev = (Err (SyncUnexpected SyncDone ev), e)"
  by (cases ev) (simp_all add: sync_handle_def)

subsection \<open>An honest peer\<close>

definition contiguous :: "u64 \<Rightarrow> header list \<Rightarrow> bool" where
  "contiguous n hs \<longleftrightarrow> (\<forall>i < length hs. number (hs ! i) = n + word_of_nat i)"

lemma out_of_order_iff: "out_of_order n hs = None \<longleftrightarrow> contiguous n hs"
proof (induction hs arbitrary: n)
  case (Cons h hs)
  have "contiguous n (h # hs) \<longleftrightarrow> number h = n \<and> contiguous (n + 1) hs"
    by (auto simp: contiguous_def nth_Cons less_Suc_eq_0_disj add.assoc split: nat.splits)
  then show ?case using Cons.IH by auto
qed (simp add: contiguous_def)

lemma contiguous_append:
  "contiguous n (hs @ hs') \<longleftrightarrow> contiguous n hs \<and> contiguous (n + word_of_nat (length hs)) hs'"
proof (safe)
  assume "contiguous n (hs @ hs')"
  then have at: "number ((hs @ hs') ! i) = n + word_of_nat i" if "i < length hs + length hs'" for i
    using that by (simp add: contiguous_def)
  show "contiguous n hs"
    unfolding contiguous_def
  proof (intro allI impI)
    fix i assume "i < length hs"
    then show "number (hs ! i) = n + word_of_nat i" using at [of i] by (simp add: nth_append)
  qed
  show "contiguous (n + word_of_nat (length hs)) hs'"
    unfolding contiguous_def
  proof (intro allI impI)
    fix i assume "i < length hs'"
    then show "number (hs' ! i) = n + word_of_nat (length hs) + word_of_nat i"
      using at [of "length hs + i"] by (simp add: add.assoc)
  qed
next
  assume l: "contiguous n hs" and r: "contiguous (n + word_of_nat (length hs)) hs'"
  show "contiguous n (hs @ hs')"
    unfolding contiguous_def
  proof (intro allI impI)
    fix i assume i: "i < length (hs @ hs')"
    show "number ((hs @ hs') ! i) = n + word_of_nat i"
    proof (cases "i < length hs")
      case True
      then show ?thesis using l by (simp add: contiguous_def nth_append)
    next
      case False
      then have "i = length hs + (i - length hs)" by simp
      then have "(word_of_nat i :: u64) = word_of_nat (length hs) + word_of_nat (i - length hs)" by (metis of_nat_add)
      then show ?thesis using r i False by (simp add: contiguous_def nth_append add.assoc)
    qed
  qed
qed

lemma sync_run_append:
  "sync_run C R e (es @ es') =
   (let (rs, e') = sync_run C R e es; (rs', e'') = sync_run C R e' es' in (rs @ rs', e''))"
  by (induction es arbitrary: e) (simp_all add: split_beta Let_def)

lemma bodies_arrive:
  assumes "bs \<noteq> []" and "sync_state_of e = SyncBodies (map (Block_hash C R) bs)"
  shows "fst (sync_run C R e (map BodyReceived bs)) =
      map (\<lambda>b. Ok (RequestBody (Block_hash C R b))) (tl bs) @ [Ok (PersistBlock (last bs))] \<and>
    snd (sync_run C R e (map BodyReceived bs)) =
      e\<lparr>sync_state_of := SyncDone, headers_buffer := [], local_height := number (block_header (last bs))\<rparr>"
  using assms
proof (induction bs arbitrary: e)
  case (Cons b bs)
  show ?case
  proof (cases bs)
    case Nil
    then show ?thesis using Cons.prems by (simp add: sync_handle_def handle_body_def)
  next
    case (Cons b' bs')
    let ?e = "e\<lparr>local_height := number (block_header b), sync_state_of := SyncBodies (map (Block_hash C R) bs)\<rparr>"
    have "sync_handle C R e (BodyReceived b) = (Ok (RequestBody (Block_hash C R b')), ?e)"
      using Cons.prems Cons by (simp add: sync_handle_def handle_body_def)
    then show ?thesis using Cons.IH [of ?e] Cons by (simp add: split_beta)
  qed
qed simp

lemma headers_arrive:
  assumes "hss \<noteq> []" and "\<forall>hs \<in> set hss. hs \<noteq> []" and "contiguous n (concat hss)"
    and "unat n + length (concat hss) = Suc (unat target)" and "Suc (unat target) < 2 ^ 64"
    and "sync_state_of e = SyncHeaders target n"
  shows "list_all is_ok (fst (sync_run C R e (map HeadersReceived hss))) \<and>
    snd (sync_run C R e (map HeadersReceived hss)) =
      e\<lparr>sync_state_of := SyncBodies (map (Header_hash C R) (headers_buffer e @ concat hss)),
        headers_buffer := headers_buffer e @ concat hss\<rparr>"
  using assms
proof (induction hss arbitrary: n e)
  case (Cons hs hss)
  let ?n = "n + word_of_nat (length hs)" and ?e = "e\<lparr>headers_buffer := headers_buffer e @ hs\<rparr>"
  have un: "unat ?n = unat n + length hs"
    using Cons.prems(4,5) by (simp add: unat_word_ariths unat_of_nat take_bit_nat_eq_self)
  have hs: "hs \<noteq> []" "out_of_order n hs = None" "contiguous ?n (concat hss)"
    using Cons.prems(2,3) by (simp_all add: out_of_order_iff contiguous_append)
  show ?case
  proof (cases "hss = []")
    case True
    then have "target < ?n" using un Cons.prems(4) by (simp add: word_less_nat_alt)
    then show ?thesis
      using Cons.prems(6) hs True by (cases "headers_buffer e @ hs")
        (auto simp: sync_handle_def handle_headers_def Let_def split: list.split)
  next
    case False
    then have pos: "0 < length (concat hss)" using Cons.prems(2) by (cases hss) auto
    have "unat n + length hs + length (concat hss) = Suc (unat target)" using Cons.prems(4) by simp
    then have "\<not> unat target < unat ?n" using un pos by linarith
    then have "\<not> target < ?n" by (simp only: word_less_nat_alt not_False_eq_True)
    then have "sync_handle C R e (HeadersReceived hs) =
        (Ok (RequestHeaders ?n HEADER_BATCH), ?e\<lparr>sync_state_of := SyncHeaders target ?n\<rparr>)"
      using Cons.prems(6) hs by (simp add: sync_handle_def handle_headers_def Let_def)
    then show ?thesis
      using Cons.IH [OF False, of ?n "?e\<lparr>sync_state_of := SyncHeaders target ?n\<rparr>"] Cons.prems(2,4,5) hs(3) un
      by (simp add: split_beta)
  qed
qed simp

text \<open>
  An honest peer brings the machine to its tip. It announces its height, sends the headers above the local height in
  order, in batches of any positive sizes, and then the blocks in the order of their headers. Every event is accepted
  and the machine ends at the announced height.
\<close>

theorem honest_peer_syncs:
  assumes "bs \<noteq> []" and "contiguous (h + 1) (map block_header bs)" and "unat h + length bs = unat target"
    and "Suc (unat target) < 2 ^ 64" and "concat hss = map block_header bs" and "\<forall>hs \<in> set hss. hs \<noteq> []"
  shows "list_all is_ok (fst (sync_run C R (SyncEngine_new h)
      (PeerAnnouncedTip target # map HeadersReceived hss @ map BodyReceived bs))) \<and>
    snd (sync_run C R (SyncEngine_new h) (PeerAnnouncedTip target # map HeadersReceived hss @ map BodyReceived bs)) =
      \<lparr>sync_state_of = SyncDone, headers_buffer = [], local_height = target\<rparr>"
proof -
  let ?e0 = "(SyncEngine_new h)\<lparr>sync_state_of := SyncHeaders target (h + 1)\<rparr>"
  let ?e1 = "?e0\<lparr>sync_state_of := SyncBodies (map (Header_hash C R) (concat hss)), headers_buffer := concat hss\<rparr>"
  have u1: "unat (h + 1) = Suc (unat h)" using assms(3,4) by (simp add: unat_word_ariths)
  have tip: "sync_handle C R (SyncEngine_new h) (PeerAnnouncedTip target) = (Ok (RequestHeaders (h + 1) HEADER_BATCH), ?e0)"
    using assms(3) length_greater_0_conv [of bs] assms(1)
    by (cases "length bs") (auto simp: sync_handle_def handle_tip_def SyncEngine_new_def word_le_nat_alt)
  have "hss \<noteq> []" using assms(1,5) by auto
  moreover have "unat (h + 1) + length (concat hss) = Suc (unat target)" using assms(3,5) u1 by simp
  ultimately have headers: "list_all is_ok (fst (sync_run C R ?e0 (map HeadersReceived hss)))"
      "snd (sync_run C R ?e0 (map HeadersReceived hss)) = ?e1"
    using headers_arrive [of hss "h + 1" target ?e0 C R] assms(2,4,5,6) by (simp_all add: SyncEngine_new_def)
  have "sync_state_of ?e1 = SyncBodies (map (Block_hash C R) bs)"
    by (simp add: assms(5) Block_hash_def)
  from bodies_arrive [OF assms(1) this] have bodies:
    "list_all is_ok (fst (sync_run C R ?e1 (map BodyReceived bs)))"
    "snd (sync_run C R ?e1 (map BodyReceived bs)) =
      \<lparr>sync_state_of = SyncDone, headers_buffer = [], local_height = number (block_header (last bs))\<rparr>"
    by (auto simp: list_all_iff SyncEngine_new_def)
  have "number (map block_header bs ! (length bs - 1)) = h + 1 + word_of_nat (length bs - 1)"
    using assms(1,2) by (simp add: contiguous_def)
  moreover have "h + 1 + word_of_nat (length bs - 1) = target"
    using assms(1) arg_cong [OF assms(3), of "word_of_nat :: nat \<Rightarrow> u64"] by (cases bs) (simp_all add: algebra_simps)
  ultimately have "number (block_header (last bs)) = target" using assms(1) by (simp add: last_conv_nth)
  with tip headers bodies show ?thesis
    by (simp add: sync_run_append split_beta)
qed

end
