(* ===== verification/VNodes.thy ===== *)
theory VNodes
  imports Prelude
begin

section \<open>Validator accounting\<close>

text \<open>
  \<open>aii-vnode\<close>: the set of staked nodes, ordered by address, and the split of a reward. The lemmas give the invariant
  of the set under every operation, what a stake and an unstake do to the ledger, and that a split loses nothing.
\<close>

subsection \<open>The set\<close>

definition MIN_STAKE_WEI :: u256 where
  "MIN_STAKE_WEI = 100000 * 1000000000000000000"

record vnode =
  vn_address :: address
  vn_pubkey :: "384 word"
  vn_stake :: u256
  vn_active :: bool

datatype vnode_error = ZeroAmount | UnknownNode | StakeUnderflow

type_synonym vset = "(address \<times> vnode) list"

definition meets_minimum_stake :: "vnode \<Rightarrow> bool" where
  "meets_minimum_stake v \<longleftrightarrow> MIN_STAKE_WEI \<le> vn_stake v"

definition active_nodes :: "vset \<Rightarrow> vnode list" where
  "active_nodes s = filter vn_active (map snd s)"

definition total_active_stake :: "vset \<Rightarrow> u256" where
  "total_active_stake s = foldl (\<lambda>acc v. acc + vn_stake v) 0 (active_nodes s)"

definition apply_stake :: "vset \<Rightarrow> address \<Rightarrow> 384 word \<Rightarrow> u256 \<Rightarrow> (vnode_error, unit) result \<times> vset" where
  "apply_stake s addr pk amount =
     (if amount = 0 then (Err ZeroAmount, s)
      else let entry = (case map_of s addr of
                          Some v \<Rightarrow> v
                        | None \<Rightarrow> \<lparr>vn_address = addr, vn_pubkey = pk, vn_stake = 0, vn_active = False\<rparr>);
               entry1 = entry\<lparr>vn_stake := vn_stake entry + amount\<rparr>;
               entry2 = entry1\<lparr>vn_active := meets_minimum_stake entry1\<rparr>
           in (Ok (), btree_insert addr entry2 s))"

definition apply_unstake :: "vset \<Rightarrow> address \<Rightarrow> u256 \<Rightarrow> (vnode_error, unit) result \<times> vset" where
  "apply_unstake s addr amount =
     (case map_of s addr of
        None \<Rightarrow> (Err UnknownNode, s)
      | Some entry \<Rightarrow>
          if vn_stake entry < amount then (Err StakeUnderflow, s)
          else let entry1 = entry\<lparr>vn_stake := vn_stake entry - amount\<rparr>
               in if vn_stake entry1 = 0 then (Ok (), btree_remove addr s)
                  else (Ok (), btree_insert addr (entry1\<lparr>vn_active := meets_minimum_stake entry1\<rparr>) s))"

definition split_reward :: "u256 \<Rightarrow> u256 \<times> u256" where
  "split_reward reward = (let validator = (reward * 80) div 100 in (validator, reward - validator))"

subsection \<open>The invariant\<close>

definition vset_ok :: "vset \<Rightarrow> bool" where
  "vset_ok s \<longleftrightarrow> btree_ok s \<and> (\<forall>a v. map_of s a = Some v \<longrightarrow> vn_address v = a \<and> vn_active v = meets_minimum_stake v)"

inductive vset_step :: "vset \<Rightarrow> vset \<Rightarrow> bool" where
  "vset_step s (snd (apply_stake s a pk x))"
| "vset_step s (snd (apply_unstake s a x))"

lemma vset_step_ok: "vset_step s s' \<Longrightarrow> vset_ok s \<Longrightarrow> vset_ok s'"
proof (induction rule: vset_step.induct)
  case (1 s a pk x)
  then show ?case
    by (auto simp: apply_stake_def Let_def vset_ok_def btree_insert_ok btree_insert_lookup meets_minimum_stake_def
        split: option.split)
next
  case (2 s a x)
  then show ?case
    by (auto simp: apply_unstake_def Let_def vset_ok_def btree_insert_ok btree_insert_lookup btree_remove_ok
        btree_remove_lookup meets_minimum_stake_def split: option.split if_splits)
qed

text \<open>In every set built from the empty one, exactly the nodes whose stake reaches the floor are active.\<close>

theorem active_iff_staked:
  assumes "vset_step\<^sup>*\<^sup>* [] s" and "map_of s a = Some v"
  shows "vn_address v = a \<and> (vn_active v \<longleftrightarrow> MIN_STAKE_WEI \<le> vn_stake v)"
proof -
  have "vset_ok s"
    using assms(1)
  proof (induction rule: rtranclp_induct)
    case base
    show ?case by (simp add: vset_ok_def btree_ok_def)
  qed (rule vset_step_ok)
  then show ?thesis using assms(2) by (auto simp: vset_ok_def meets_minimum_stake_def)
qed

subsection \<open>The ledger\<close>

definition stake_at_vnode :: "vset \<Rightarrow> address \<Rightarrow> nat" where
  "stake_at_vnode s a = (case map_of s a of None \<Rightarrow> 0 | Some v \<Rightarrow> unat (vn_stake v))"

theorem apply_stake_adds:
  assumes "x \<noteq> 0" and "stake_at_vnode s a + unat x < 2 ^ 256"
  shows "stake_at_vnode (snd (apply_stake s a pk x)) b = stake_at_vnode s b + (if b = a then unat x else 0)"
  using assms
  by (auto simp: stake_at_vnode_def apply_stake_def Let_def btree_insert_lookup unat_word_ariths split: option.splits)

theorem apply_unstake_subtracts:
  "stake_at_vnode (snd (apply_unstake s a x)) b =
   stake_at_vnode s b - (if b = a \<and> fst (apply_unstake s a x) = Ok () then unat x else 0)"
  by (auto simp: stake_at_vnode_def apply_unstake_def Let_def btree_insert_lookup btree_remove_lookup unat_sub
      word_le_nat_alt not_less split: option.splits if_splits)

theorem split_loses_nothing: "fst (split_reward r) + snd (split_reward r) = r"
  by (simp add: split_reward_def Let_def)

theorem split_is_four_fifths:
  assumes "unat r * 80 < 2 ^ 256"
  shows "unat (fst (split_reward r)) = unat r * 80 div 100 \<and> unat (snd (split_reward r)) = unat r - unat r * 80 div 100"
proof -
  have "unat (r * 80) = unat r * 80" using assms by (simp add: unat_word_ariths)
  then have v: "unat (fst (split_reward r)) = unat r * 80 div 100" by (simp add: split_reward_def Let_def unat_div)
  then have "fst (split_reward r) \<le> r" by (simp add: word_le_nat_alt)
  then have "unat (r - fst (split_reward r)) = unat r - unat (fst (split_reward r))" by (rule unat_sub)
  then show ?thesis using v by (simp add: split_reward_def Let_def)
qed

end
