(* ===== verification/Spec2Isabelle.thy ===== *)
theory Spec2Isabelle
  imports TrieSpec Capacity GossipSafe PoaEngine Rotation Restart TxPool Crosschain Sync VNodes
begin

text \<open>
  This library verifies the node software of the AII chain, a proof-of-stake chain in Rust (\<open>src/crates\<close>). A node
  takes signed transactions, a leader drawn by stake proposes a block, the validators agree on it in two voting
  phases, and every node that sees the certificate executes the block and keeps it. The models are shallow: a struct
  is a record, an enum a datatype, a method a function from the old to the new state, a machine integer a word, an
  error a value of \<open>result\<close> with \<open>Panic\<close> for what ends the process. Plain arithmetic wraps, as in a release build.

  \<^bold>\<open>Parts and theories\<close>

  \<^item> \<open>Prelude\<close>: result type, checked and saturating integers, big-endian bytes, ordered maps, the locale \<open>codec\<close>.
  \<^item> \<open>Crypto\<close>, \<open>Secp\<close>: the wrappers of \<open>aii-crypto\<close> and \<open>aii-block/src/tx/signer.rs\<close>. The libraries below them
    (Keccak, BLS, VRF, secp256k1) are the arguments \<open>crypto\<close> and \<open>secp\<close>, with their laws as named hypotheses
    (\<open>bls_signs\<close>, \<open>bls_aggregates\<close>, \<open>bls_canonical\<close>, \<open>bls_checks_points\<close>, \<open>vrf_proves\<close>, \<open>ecdsa_signs\<close>) and concrete
    instances for the witnesses. Decompression may fail: a signature or key is assumed to read back only where it is a point.
  \<^item> \<open>Rlp\<close>, \<open>RlpFormat\<close>, \<open>Tx\<close>, \<open>Block\<close>: \<open>aii-types\<close> and \<open>aii-block\<close>, all codecs over an argument \<open>rlp\<close> that
    stands for the crate \<open>alloy_rlp\<close>; \<open>RlpFormat\<close> builds an instance and proves the laws for it.
  \<^item> \<open>Storage\<close>, \<open>Trie\<close>, \<open>TrieRoot\<close>, \<open>TrieSpec\<close>, \<open>WorldState\<close>: \<open>aii-storage\<close> (the trait as the record \<open>kv_backend\<close>, its contract
    as the locale \<open>kv_store\<close>, interpreted on the memory backend) and \<open>aii-state\<close> (the Merkle Patricia trie and \<open>StateDb\<close>).
    \<open>TrieSpec\<close> holds a trie after the Yellow Paper, written independently of the source, as the reference for \<open>mpt_root\<close>.
  \<^item> \<open>Validators\<close>, \<open>Tally\<close>, \<open>Slashing\<close>, \<open>Coordinator\<close>, \<open>Wire\<close>, \<open>Capacity\<close>, \<open>BftEngine\<close>, \<open>EngineCorrect\<close>, \<open>EngineProps\<close>,
    \<open>Gossip\<close>, \<open>GossipSafe\<close>: \<open>aii-consensus-bft\<close>, file by file (\<open>bft.rs\<close>, \<open>slashing.rs\<close>, \<open>coordinator.rs\<close>, \<open>wire.rs\<close>,
    \<open>capacity.rs\<close>, \<open>engine.rs\<close>, \<open>gossip.rs\<close>).
  \<^item> \<open>Consensus\<close>, \<open>PoaEngine\<close>, \<open>Genesis\<close>: \<open>aii-consensus-iface\<close> (the trait \<open>Engine\<close> as the locale \<open>chain_engine\<close>, interpreted on
    the development, authority and BFT engines), \<open>aii-consensus-poa\<close> and \<open>aii-config\<close>.
  \<^item> \<open>Tables\<close>, \<open>Staking\<close>, \<open>Dpos\<close>, \<open>Rotation\<close>, \<open>Governance\<close>, \<open>Precompile\<close>: the tables of \<open>aii-node\<close> (\<open>staking.rs\<close>,
    \<open>validator_registry.rs\<close>, \<open>dpos.rs\<close>, \<open>governance.rs\<close>, \<open>precompile.rs\<close>) over any backend that meets \<open>kv_store\<close>.
  \<^item> \<open>Evm\<close>, \<open>Execution\<close>, \<open>NodeState\<close>, \<open>Restart\<close>: \<open>aii-evm\<close>, and from \<open>aii-node/src/lib.rs\<close> the two executors of a block, the
    commit with its cache, elections and anchors (with \<open>aii-microchain\<close>), and the recovery. The interpreter revm is an argument.
  \<^item> \<open>TxPool\<close>: \<open>aii-net-txpool\<close> and the submission of a raw transaction (\<open>submit_raw_tx\<close> of \<open>aii-node/src/lib.rs\<close>).
  \<^item> \<open>Crosschain\<close>, \<open>Sync\<close>, \<open>VNodes\<close>: the stand-alone state machines \<open>aii-crosschain\<close> (\<open>htlc.rs\<close>, \<open>federation.rs\<close>),
    \<open>aii-net-sync\<close> and \<open>aii-vnode\<close>, which the node does not call yet.

  \<^bold>\<open>How the parts meet\<close>

  \<open>Wire\<close> carries the votes that \<open>Tally\<close> counts; \<open>Coordinator\<close> runs one height, \<open>BftEngine\<close> chains the heights, \<open>Gossip\<close> drives an
  engine from bytes. The engine asks \<open>execute_for_proposal\<close> for the roots of a proposal; a committed block goes to
  \<open>node_commit_block\<close>, whose transactions reach \<open>Precompile\<close> and through it \<open>Staking\<close> and \<open>Governance\<close>, or the interpreter through
  \<open>Evm\<close>; at the end of an epoch the stakes elect the set (\<open>Dpos\<close>) that \<open>Rotation\<close> installs in the engine.

  \<^bold>\<open>What is shown\<close>

  \<^item> Agreement: two certificates for one height and round name a common third of the stake, whose owners are provably
    equivocators; certificates verify; honest rounds commit; the coordinator stays in its phase invariant. Across rounds
    the lock is recorded but never consulted, which \<open>lock_does_not_prevent_fork\<close> demonstrates.
  \<^item> The engine and the driver never panic; the head moves by certified blocks only; early votes are kept and used;
    synchronisation and harvest give the same node; a late node catches up. The engine's invariants carry a flag \<open>q\<close>: without it
    they hold for any calls with any arguments, with it (\<open>engine_reach\<close>) for hosts that build proposals on the head, as the
    gossip driver does, and then the block held attaches to the head.
  \<^item> Every codec reads back what it wrote; \<open>mpt_root\<close> is the root of the Yellow Paper; the state root binds the accounts.
  \<^item> Reads of the storage and of the world state give the last write, and the interpreter's next run sees its last changes.
  \<^item> The stake table refines a ledger and conserves value, withdrawals wait, elections take the largest stakes, tallies
    need two thirds, an epoch's last block records the election that the engine then runs.
  \<^item> A proposal predicts the roots of its commit; a restart restores the blocks; the pool keeps the best offers and hands
    out executable runs.
  \<^item> A vault releases every attested lock once (\<open>replay_guard\<close>), a contract settles once, an honest peer syncs the machine.
  \<^item> Where the code does something else than its documentation says, the behaviour itself is a theorem.

  \<^bold>\<open>Bounds\<close>

  Loops are structural recursions or functions with a termination measure (the length of the queue, the pool, the cache or the
  pending votes). One function carries fuel: \<open>decode_items\<close> of \<open>Rlp\<close>, the element loop
  \<open>while start - buf.len() < payload_length\<close> of the decoders of \<open>aii-block\<close>. \<open>decode_seq\<close> starts it with one more than the
  length of the buffer; every element consumes a byte, and \<open>decode_items_total\<close> shows that the fuel does not run out. Lengths that the code casts to 32 or 64 bits are bounded by hypotheses of the
  codec theorems (encodings shorter than two to the 64). The restart theorem covers the 2048 blocks that the cache holds.

  \<^bold>\<open>Not modelled\<close>

  \<^item> The RocksDB backend, libp2p, wasmtime, argon2 and AES wrappers (\<open>aii-net-p2p\<close>, \<open>aii-wasm\<close>, \<open>aii-wallet\<close>): the logic is in
    third-party libraries.
  \<^item> \<open>aii-cli\<close>, \<open>aii-rpc\<close>, \<open>aii-mcp\<close>, \<open>aii-metrics\<close>, \<open>aii-node/src/main.rs\<close>, discovery, watchdog and release installation: input and
    output, JSON, HTTP, sockets, threads, timers and files.
  \<^item> \<open>aii-codec\<close>, \<open>aii-erc20\<close>, \<open>aii-wasm-state\<close>: helpers and adapters that the block path of the node does not call.
    \<open>aii-onboarding\<close>: a probe of the hardware that scores in floating point.
  \<^item> Logging, serde and hexadecimal text. Locks: each method holds its lock for its whole body and is one step.
\<close>

end
